(* ===== verification/Mesh_Prelude.thy ===== *)
theory Mesh_Prelude
  imports Complex_Main "HOL-Library.AList"
begin

text \<open>
  What every component of the development shares.

  \<^item> Results: a refusal or a raise of the Python code is \<open>Inl\<close>, a returned value is \<open>Inr\<close>;
    \<open>bind_r\<close> runs the next statement only after a statement that did not raise.
  \<^item> Python values: YAML rows, JSON payloads and event facts are dynamically typed, so they
    are the datatype \<open>pyval\<close>, with Python's truth value, its \<open>==\<close> (under which
    \<open>True == 1\<close> and \<open>1 == 1.0\<close>), \<open>dict.get\<close> and \<open>in\<close>. A dictionary is an association list
    in insertion order, whose keys are strings. A float is the rational it denotes; infinities
    and NaN are not modelled.
  \<^item> Strings are sequences of code points below 256, with Python's \<open>strip\<close>, \<open>lower\<close>,
    \<open>split\<close> and \<open>partition\<close> on them.
\<close>

named_theorems result_simps "rewrites for results"
named_theorems step_defs "definitions a component proof unfolds"

subsection \<open>Results\<close>

definition bind_r :: "'e + 'a \<Rightarrow> ('a \<Rightarrow> 'e + 'b) \<Rightarrow> 'e + 'b" where
  "bind_r r f = (case r of Inl e \<Rightarrow> Inl e | Inr a \<Rightarrow> f a)"

definition require_r :: "bool \<Rightarrow> 'e \<Rightarrow> 'e + unit" where
  "require_r b e = (if b then Inr () else Inl e)"

fun map_r :: "('a \<Rightarrow> 'e + 'b) \<Rightarrow> 'a list \<Rightarrow> 'e + 'b list" where
  "map_r f [] = Inr []"
| "map_r f (x # xs) = bind_r (f x) (\<lambda>y. bind_r (map_r f xs) (\<lambda>ys. Inr (y # ys)))"

definition ok :: "'e + 'a \<Rightarrow> bool" where
  "ok r = (case r of Inl _ \<Rightarrow> False | Inr _ \<Rightarrow> True)"

lemma bind_r_simps [simp, result_simps]:
  "bind_r (Inl e) f = Inl e"
  "bind_r (Inr a) f = f a"
  by (simp_all add: bind_r_def)

lemma bind_r_Inr [result_simps]:
  "bind_r r f = Inr b \<longleftrightarrow> (\<exists>a. r = Inr a \<and> f a = Inr b)"
  by (cases r) auto

lemma bind_r_Inl [result_simps]:
  "bind_r r f = Inl e \<longleftrightarrow> r = Inl e \<or> (\<exists>a. r = Inr a \<and> f a = Inl e)"
  by (cases r) auto

lemma require_r_Inr [simp, result_simps]: "require_r b e = Inr u \<longleftrightarrow> b"
  by (cases u) (simp add: require_r_def)

lemma require_r_Inl [simp, result_simps]: "require_r b e = Inl e' \<longleftrightarrow> \<not> b \<and> e' = e"
  by (auto simp: require_r_def)

lemma require_r_True [simp]: "require_r True e = Inr ()"
  by (simp add: require_r_def)

lemma require_r_False [simp]: "require_r False e = Inl e"
  by (simp add: require_r_def)

lemma ok_simps [simp, result_simps]: "ok (Inr a)" "\<not> ok (Inl e)"
  by (simp_all add: ok_def)

lemma ok_iff: "ok r \<longleftrightarrow> (\<exists>a. r = Inr a)"
  by (cases r) auto

lemma map_r_Inr_set:
  "map_r f xs = Inr ys \<Longrightarrow> x \<in> set xs \<Longrightarrow> \<exists>y \<in> set ys. f x = Inr y"
  by (induction xs arbitrary: ys) (auto simp: bind_r_Inr)

lemma map_sum_Inl_iff [simp]: "map_sum f g x = Inl e \<longleftrightarrow> (\<exists>d. x = Inl d \<and> e = f d)"
  by (cases x) auto

subsection \<open>Python strings\<close>

definition code_of :: "char \<Rightarrow> nat" where
  "code_of c = of_char c"

text \<open>\<open>str.isspace\<close> and the regular expression class \<open>\s\<close> on code points below 256.\<close>

definition is_space :: "char \<Rightarrow> bool" where
  "is_space c = (let n = code_of c in
     (9 \<le> n \<and> n \<le> 13) \<or> (28 \<le> n \<and> n \<le> 32) \<or> n = 133 \<or> n = 160)"

definition lower_char :: "char \<Rightarrow> char" where
  "lower_char c = (let n = code_of c in
     if (65 \<le> n \<and> n \<le> 90) \<or> (192 \<le> n \<and> n \<le> 222 \<and> n \<noteq> 215)
     then char_of (n + 32) else c)"

text \<open>Both by the bits of the code point: the equations by which the kernel evaluates them.\<close>

lemma lower_char_bits [code]: "lower_char (Char b0 b1 b2 b3 b4 b5 b6 b7) =
   (if b6 \<and> \<not> b5 \<and> (if b7 then \<not> (b4 \<and> b2 \<and> b1 \<and> b0)
      else (b4 \<or> b3 \<or> b2 \<or> b1 \<or> b0) \<and> \<not> (b4 \<and> b3 \<and> (b2 \<or> b1 \<and> b0)))
    then Char b0 b1 b2 b3 b4 True b6 b7 else Char b0 b1 b2 b3 b4 b5 b6 b7)"
  by (cases b0; cases b1; cases b2; cases b3; cases b4; cases b5; cases b6; cases b7)
    (simp_all add: lower_char_def code_of_def char_of_def Let_def bit_0)

lemma is_space_bits [code]: "is_space (Char b0 b1 b2 b3 b4 b5 b6 b7) =
   (if b6 then False else if b7 then \<not> b4 \<and> \<not> b3 \<and> \<not> b1 \<and> (if b5 then \<not> b2 \<and> \<not> b0 else b2 \<and> b0)
    else if b5 then \<not> (b4 \<or> b3 \<or> b2 \<or> b1 \<or> b0)
    else if b4 then b3 \<and> b2
    else b3 \<and> (if b2 then \<not> b1 else b1 \<or> b0))"
  by (cases b0; cases b1; cases b2; cases b3; cases b4; cases b5; cases b6; cases b7)
    (simp_all add: is_space_def code_of_def Let_def)

definition py_lower :: "string \<Rightarrow> string" where
  "py_lower s = map lower_char s"

definition py_upper :: "string \<Rightarrow> string" where
  "py_upper s = concat (map (\<lambda>c. let n = code_of c in
     if (97 \<le> n \<and> n \<le> 122) \<or> (224 \<le> n \<and> n \<le> 254 \<and> n \<noteq> 247) then [char_of (n - 32)]
     else if n = 223 then ''SS'' else [c]) s)"

text \<open>\<open>str.casefold\<close>: sharp s folds to two letters, the rest of the range as \<open>lower\<close>.\<close>

definition py_casefold :: "string \<Rightarrow> string" where
  "py_casefold s = concat (map (\<lambda>c. if code_of c = 223 then ''ss'' else [lower_char c]) s)"

definition py_lstrip :: "string \<Rightarrow> string" where
  "py_lstrip s = dropWhile is_space s"

definition py_strip :: "string \<Rightarrow> string" where
  "py_strip s = rev (dropWhile is_space (rev (dropWhile is_space s)))"

fun py_split :: "char \<Rightarrow> string \<Rightarrow> string list" where
  "py_split sep [] = [[]]"
| "py_split sep (c # cs) =
     (if c = sep then [] # py_split sep cs
      else (case py_split sep cs of [] \<Rightarrow> [[c]] | w # ws \<Rightarrow> (c # w) # ws))"

text \<open>\<open>s.split(sep, 1)[0]\<close> and what follows the first separator; \<open>s.rsplit(sep, 1)[-1]\<close>.\<close>

definition before_first :: "char \<Rightarrow> string \<Rightarrow> string" where
  "before_first sep s = takeWhile (\<lambda>c. c \<noteq> sep) s"

definition after_first :: "char \<Rightarrow> string \<Rightarrow> string" where
  "after_first sep s = tl (dropWhile (\<lambda>c. c \<noteq> sep) s)"

definition after_last :: "char \<Rightarrow> string \<Rightarrow> string" where
  "after_last sep s = rev (takeWhile (\<lambda>c. c \<noteq> sep) (rev s))"

definition starts_with :: "string \<Rightarrow> string \<Rightarrow> bool" where
  "starts_with p s = (take (length p) s = p)"

text \<open>\<open>re.sub(r"\s+", " ", s)\<close>: each run of white space becomes one blank.\<close>

function squeeze :: "string \<Rightarrow> string" where
  "squeeze [] = []"
| "squeeze (c # cs) =
     (if is_space c then CHR '' '' # squeeze (dropWhile is_space cs) else c # squeeze cs)"
  by pat_completeness auto
termination
  by (relation "measure length") (auto simp: le_imp_less_Suc length_dropWhile_le)

lemma py_split_nonempty [simp]: "py_split sep s \<noteq> []"
  by (induction s) (auto split: list.split)

lemma py_split_no_sep: "w \<in> set (py_split sep s) \<Longrightarrow> sep \<notin> set w"
proof (induction s arbitrary: w)
  case Nil
  then show ?case by simp
next
  case (Cons c cs)
  then show ?case
    by (cases "py_split sep cs") (auto split: if_splits)
qed

lemma py_split_fresh: "sep \<notin> set s \<Longrightarrow> py_split sep s = [s]"
  by (induction s) auto

lemma py_split_append:
  "sep \<notin> set a \<Longrightarrow> py_split sep (a @ sep # b) = a # py_split sep b"
  by (induction a) auto

lemma py_strip_set: "set (py_strip s) \<subseteq> set s"
  unfolding py_strip_def by (metis set_dropWhileD set_rev subsetI)

lemma dropWhile_hd_id: "xs = [] \<or> \<not> P (hd xs) \<Longrightarrow> dropWhile P xs = xs"
  by (cases xs) auto

lemma py_strip_idem [simp]: "py_strip (py_strip s) = py_strip s"
proof -
  let ?a = "dropWhile is_space s"
  let ?b = "dropWhile is_space (rev ?a)"
  have last: "?b = [] \<or> \<not> is_space (hd ?b)"
    by (metis hd_dropWhile)
  have suffix: "\<exists>xs. rev ?a = xs @ ?b"
    by (metis takeWhile_dropWhile_id)
  have first: "rev ?b = [] \<or> \<not> is_space (hd (rev ?b))"
  proof (cases "?b = []")
    case True
    then show ?thesis by simp
  next
    case False
    from suffix obtain xs where "rev ?a = xs @ ?b" by blast
    then have "?a = rev ?b @ rev xs" by (metis rev_append rev_rev_ident)
    with False have "hd ?a = hd (rev ?b)" by (metis hd_append2 rev_is_Nil_conv)
    moreover from False have "?a \<noteq> []" by (metis dropWhile.simps(1) rev.simps(1))
    ultimately show ?thesis by (metis hd_dropWhile)
  qed
  have "dropWhile is_space (rev ?b) = rev ?b"
    using first by (rule dropWhile_hd_id)
  moreover have "dropWhile is_space ?b = ?b"
    using last by (rule dropWhile_hd_id)
  ultimately show ?thesis by (simp add: py_strip_def)
qed

text \<open>White space and case: what normalisation of a name relies on.\<close>

lemma code_of_char_of: "code_of (char_of n) = n mod 256"
  by (simp add: code_of_def)

lemma lower_char_idem [simp]: "lower_char (lower_char c) = lower_char c"
proof -
  let ?n = "code_of c"
  show ?thesis
  proof (cases "(65 \<le> ?n \<and> ?n \<le> 90) \<or> (192 \<le> ?n \<and> ?n \<le> 222 \<and> ?n \<noteq> 215)")
    case True
    then have "code_of (lower_char c) = ?n + 32"
      by (auto simp: lower_char_def Let_def code_of_char_of)
    with True show ?thesis by (auto simp: lower_char_def [of "lower_char c"] Let_def)
  next
    case False
    then have "lower_char c = c" unfolding lower_char_def Let_def by (simp only: if_False)
    then show ?thesis by simp
  qed
qed

lemma py_lower_idem [simp]: "py_lower (py_lower s) = py_lower s"
  by (simp add: py_lower_def)

lemma py_lower_fixed: "py_lower s = s \<longleftrightarrow> (\<forall>c \<in> set s. lower_char c = c)"
  by (induction s) (auto simp: py_lower_def)

definition squeezed :: "string \<Rightarrow> bool" where
  "squeezed s \<longleftrightarrow> successively (\<lambda>a b. \<not> (is_space a \<and> is_space b)) s \<and>
     (\<forall>c \<in> set s. is_space c \<longrightarrow> c = CHR '' '')"

lemma is_space_blank [simp]: "is_space (CHR '' '')"
  by (simp add: is_space_def code_of_def Let_def)

lemma hd_squeeze: "s \<noteq> [] \<Longrightarrow> \<not> is_space (hd s) \<Longrightarrow> squeeze s \<noteq> [] \<and> hd (squeeze s) = hd s"
  by (cases s) auto

lemma squeezed_squeeze: "squeezed (squeeze s)"
proof (induction s rule: squeeze.induct)
  case 1
  then show ?case by (simp add: squeezed_def)
next
  case (2 c cs)
  show ?case
  proof (cases "is_space c")
    case True
    let ?r = "dropWhile is_space cs"
    have "squeeze ?r = [] \<or> \<not> is_space (hd (squeeze ?r))"
    proof (cases "?r = []")
      case True
      then show ?thesis by (simp only: squeeze.simps simp_thms)
    next
      case False
      then have "\<not> is_space (hd ?r)" by (rule hd_dropWhile)
      with False show ?thesis using hd_squeeze [of ?r] by metis
    qed
    with True "2.IH"(1) show ?thesis
      by (auto simp: squeezed_def successively_Cons)
  next
    case False
    with "2.IH"(2) show ?thesis by (auto simp: squeezed_def successively_Cons)
  qed
qed

lemma squeeze_squeezed: "squeezed s \<Longrightarrow> squeeze s = s"
proof (induction s)
  case Nil
  then show ?case by simp
next
  case (Cons c cs)
  from Cons.prems have cs: "squeezed cs"
    and c: "is_space c \<Longrightarrow> c = CHR '' '' \<and> (cs = [] \<or> \<not> is_space (hd cs))"
    by (auto simp: squeezed_def successively_Cons)
  show ?case
  proof (cases "is_space c")
    case True
    with c have "dropWhile is_space cs = cs" by (auto intro: dropWhile_hd_id)
    with True c cs Cons.IH show ?thesis by simp
  next
    case False
    with cs Cons.IH show ?thesis by simp
  qed
qed

lemma squeezed_sublist: "squeezed (xs @ ys @ zs) \<Longrightarrow> squeezed ys"
  by (auto simp: squeezed_def successively_append_iff)

lemma py_strip_sublist: "\<exists>a b. s = a @ py_strip s @ b"
proof -
  obtain a where a: "s = a @ dropWhile is_space s"
    by (metis takeWhile_dropWhile_id)
  obtain b where b: "rev (dropWhile is_space s) = b @ dropWhile is_space (rev (dropWhile is_space s))"
    by (metis takeWhile_dropWhile_id)
  then have "dropWhile is_space s = py_strip s @ rev b"
    by (metis py_strip_def rev_append rev_rev_ident)
  with a show ?thesis by metis
qed

lemma squeezed_strip: "squeezed s \<Longrightarrow> squeezed (py_strip s)"
  by (metis py_strip_sublist squeezed_sublist)

lemma set_squeeze: "set (squeeze s) \<subseteq> insert (CHR '' '') (set s)"
  by (induction s rule: squeeze.induct) (auto dest: set_dropWhileD)

lemma is_space_lower [simp]: "is_space (lower_char c) \<longleftrightarrow> is_space c"
  by (auto simp: is_space_def lower_char_def Let_def code_of_char_of)

lemma py_strip_eq_Nil: "py_strip s = [] \<longleftrightarrow> (\<forall>c \<in> set s. is_space c)"
  by (auto simp: py_strip_def dropWhile_eq_Nil_conv dest: set_dropWhileD)
    (metis append_self_conv2 hd_dropWhile hd_in_set dropWhile_eq_Nil_conv rev_is_Nil_conv set_rev)

lemma nonspace_squeeze: "(\<forall>c \<in> set (squeeze s). is_space c) \<longleftrightarrow> (\<forall>c \<in> set s. is_space c)"
proof (induction s rule: squeeze.induct)
  case 1
  then show ?case by simp
next
  case (2 c cs)
  have "(\<forall>c \<in> set (dropWhile is_space cs). is_space c) \<longleftrightarrow> (\<forall>c \<in> set cs. is_space c)"
    by (metis dropWhile_eq_Nil_conv hd_dropWhile hd_in_set set_dropWhileD)
  with 2 show ?case by auto
qed

subsection \<open>Python values\<close>

datatype pyval =
    PNone
  | PBool bool
  | PInt int
  | PFloat rat
  | PStr string
  | PList "pyval list"
  | PDict "(string \<times> pyval) list"

type_synonym pydict = "(string \<times> pyval) list"

definition num_of :: "pyval \<Rightarrow> rat option" where
  "num_of v = (case v of PBool b \<Rightarrow> Some (if b then 1 else 0) | PInt i \<Rightarrow> Some (of_int i)
     | PFloat q \<Rightarrow> Some q | _ \<Rightarrow> None)"

text \<open>Python's \<open>bool(v)\<close>.\<close>

fun truthy :: "pyval \<Rightarrow> bool" where
  "truthy PNone = False"
| "truthy (PBool b) = b"
| "truthy (PInt i) = (i \<noteq> 0)"
| "truthy (PFloat q) = (q \<noteq> 0)"
| "truthy (PStr s) = (s \<noteq> [])"
| "truthy (PList xs) = (xs \<noteq> [])"
| "truthy (PDict d) = (d \<noteq> [])"

text \<open>
  Python's \<open>a == b\<close>: numbers (and Booleans) by value, dictionaries by their keys and the values
  under them, whatever the order.
\<close>

definition scalar_eq :: "pyval \<Rightarrow> pyval \<Rightarrow> bool" where
  "scalar_eq a b = (case (num_of a, num_of b) of
     (Some p, Some q) \<Rightarrow> p = q
   | _ \<Rightarrow> (case (a, b) of
       (PNone, PNone) \<Rightarrow> True
     | (PStr s, PStr t) \<Rightarrow> s = t
     | _ \<Rightarrow> False))"

function (sequential) py_eq :: "pyval \<Rightarrow> pyval \<Rightarrow> bool" where
  "py_eq (PList xs) (PList ys) =
     (length xs = length ys \<and> (\<forall>p \<in> set (zip xs ys). py_eq (fst p) (snd p)))"
| "py_eq (PDict d) (PDict e) =
     (fst ` set d = fst ` set e \<and>
      (\<forall>p \<in> set d. \<forall>q \<in> set e. fst p = fst q \<longrightarrow> py_eq (snd p) (snd q)))"
| "py_eq a b = scalar_eq a b"
  by pat_completeness auto
termination
proof (relation "measure (\<lambda>(a, b). size a)", goal_cases)
  case 1
  then show ?case by simp
next
  case (2 xs ys p)
  then have "fst p \<in> set xs" by (metis prod.collapse set_zip_leftD)
  then have "size (fst p) \<le> size_list size xs"
    by (simp add: size_list_estimation')
  then show ?case by (cases p) simp
next
  case (3 d e p q)
  have "size (snd p) \<le> size_prod (\<lambda>_. 0) size p"
    by (cases p) simp
  with 3(1) have "size (snd p) \<le> size_list (size_prod (\<lambda>_. 0) size) d"
    by (rule size_list_estimation')
  then show ?case by simp
qed

declare py_eq.simps [simp del]

text \<open>\<open>x in xs\<close> for a list, \<open>d.get(k)\<close>, \<open>k in d\<close> and \<open>isinstance(v, str)\<close>.\<close>

definition py_in :: "pyval \<Rightarrow> pyval list \<Rightarrow> bool" where
  "py_in x xs = list_ex (\<lambda>y. py_eq x y) xs"

definition dget :: "pydict \<Rightarrow> string \<Rightarrow> pyval" where
  "dget d k = (case map_of d k of None \<Rightarrow> PNone | Some v \<Rightarrow> v)"

definition dget_or :: "pydict \<Rightarrow> string \<Rightarrow> pyval \<Rightarrow> pyval" where
  "dget_or d k dflt = (case map_of d k of None \<Rightarrow> dflt | Some v \<Rightarrow> v)"

definition has_key :: "pydict \<Rightarrow> string \<Rightarrow> bool" where
  "has_key d k = (map_of d k \<noteq> None)"

definition is_str :: "pyval \<Rightarrow> bool" where
  "is_str v = (case v of PStr _ \<Rightarrow> True | _ \<Rightarrow> False)"

definition is_dict :: "pyval \<Rightarrow> bool" where
  "is_dict v = (case v of PDict _ \<Rightarrow> True | _ \<Rightarrow> False)"

definition is_nonblank_str :: "pyval \<Rightarrow> bool" where
  "is_nonblank_str v = (case v of PStr s \<Rightarrow> py_strip s \<noteq> [] | _ \<Rightarrow> False)"

text \<open>
  \<open>list(v or [])\<close>, \<open>v or {}\<close> and \<open>x in (v or [])\<close> where the code reads a value that may be
  absent. Iterating a string gives its characters and iterating a dictionary its keys; a number
  there is a \<open>TypeError\<close> in Python and reads as empty here.
\<close>

definition list_or_nil :: "pyval \<Rightarrow> pyval list" where
  "list_or_nil v = (case v of PList xs \<Rightarrow> xs | PStr s \<Rightarrow> map (\<lambda>c. PStr [c]) s
     | PDict d \<Rightarrow> map (PStr \<circ> fst) d | _ \<Rightarrow> [])"

fun substring_of :: "string \<Rightarrow> string \<Rightarrow> bool" where
  "substring_of p [] = (p = [])"
| "substring_of p (c # cs) = (starts_with p (c # cs) \<or> substring_of p cs)"

definition py_member :: "pyval \<Rightarrow> pyval \<Rightarrow> bool" where
  "py_member x v = (case v of
     PList xs \<Rightarrow> py_in x xs
   | PDict d \<Rightarrow> list_ex (\<lambda>p. x = PStr (fst p)) d
   | PStr s \<Rightarrow> (case x of PStr t \<Rightarrow> substring_of t s | _ \<Rightarrow> False)
   | _ \<Rightarrow> False)"

definition dict_or_nil :: "pyval \<Rightarrow> pydict" where
  "dict_or_nil v = (case v of PDict d \<Rightarrow> d | _ \<Rightarrow> [])"

definition str_or_nil :: "pyval \<Rightarrow> string" where
  "str_or_nil v = (case v of PStr s \<Rightarrow> s | _ \<Rightarrow> [])"

lemma dget_update [simp]: "dget (AList.update k v d) j = (if j = k then v else dget d j)"
  by (simp add: dget_def update_conv')

lemma dget_Nil [simp]: "dget [] k = PNone"
  by (simp add: dget_def)

lemma size_dget: "size (dget d k) \<le> size_list (size_prod (\<lambda>_. 0) size) d"
  by (induction d) (auto simp: dget_def)

lemma set_update_subset: "set (AList.update k v al) \<subseteq> insert (k, v) (set al)"
  by (induction al) auto

lemma update_fresh: "k \<notin> fst ` set al \<Longrightarrow> AList.update k v al = al @ [(k, v)]"
  by (induction al) auto

lemma py_eq_str [simp]:
  "py_eq (PStr s) v \<longleftrightarrow> v = PStr s"
  "py_eq v (PStr s) \<longleftrightarrow> v = PStr s"
  by (cases v; auto simp: py_eq.simps scalar_eq_def num_of_def)+

lemma py_in_simps [simp]:
  "py_in x [] = False"
  "py_in x (y # ys) = (py_eq x y \<or> py_in x ys)"
  by (simp_all add: py_in_def)

lemma py_in_PStr: "py_in v (map PStr ss) \<longleftrightarrow> (\<exists>s \<in> set ss. v = PStr s)"
  by (induction ss) auto

lemma is_nonblank_strE: "is_nonblank_str v \<Longrightarrow> \<exists>s. v = PStr s \<and> py_strip s \<noteq> []"
  by (cases v) (auto simp: is_nonblank_str_def)

text \<open>Scalars: what a flattened fact can be. On them \<open>==\<close> is an equivalence.\<close>

definition scalar :: "pyval \<Rightarrow> bool" where
  "scalar v = (case v of PList _ \<Rightarrow> False | PDict _ \<Rightarrow> False | _ \<Rightarrow> True)"

lemma py_eq_scalar: "scalar a \<Longrightarrow> py_eq a b = scalar_eq a b" "scalar b \<Longrightarrow> py_eq a b = scalar_eq a b"
  by (cases a; cases b; simp add: scalar_def py_eq.simps scalar_eq_def num_of_def)+

lemma py_eq_refl [simp]: "scalar a \<Longrightarrow> py_eq a a"
  by (cases a) (simp_all add: py_eq_scalar scalar_eq_def num_of_def scalar_def)

lemma py_eq_cong:
  assumes "scalar a" and "scalar b" and "py_eq a b"
  shows "py_eq a v = py_eq b v"
  using assms
  by (cases a; cases b; cases v; simp add: py_eq_scalar scalar_eq_def num_of_def)

lemma is_str_iff: "is_str v \<longleftrightarrow> (\<exists>s. v = PStr s)"
  by (cases v) (auto simp: is_str_def)

text \<open>\<open>str(n)\<close> for a natural number.\<close>

fun dec_of :: "nat \<Rightarrow> string" where
  "dec_of n = (if n < 10 then [char_of (48 + n)] else dec_of (n div 10) @ [char_of (48 + n mod 10)])"

declare dec_of.simps [simp del]

subsection \<open>Procedures\<close>

text \<open>
  Code that changes a state and may raise: what it changed before it raised stays changed.
  \<open>triple P m Q E\<close> says what holds after \<open>m\<close> from a state with \<open>P\<close>, \<open>Q\<close> if it returned and
  \<open>E\<close> if it raised.
\<close>

type_synonym ('s, 'e, 'a) proc = "'s \<Rightarrow> ('e + 'a) \<times> 's"

definition ret_p :: "'a \<Rightarrow> ('s, 'e, 'a) proc" where
  "ret_p a s = (Inr a, s)"

definition raise_p :: "'e \<Rightarrow> ('s, 'e, 'a) proc" where
  "raise_p e s = (Inl e, s)"

definition bind_p :: "('s, 'e, 'a) proc \<Rightarrow> ('a \<Rightarrow> ('s, 'e, 'b) proc) \<Rightarrow> ('s, 'e, 'b) proc" where
  "bind_p m f s = (case m s of (Inl e, s') \<Rightarrow> (Inl e, s') | (Inr a, s') \<Rightarrow> f a s')"

definition then_p :: "('s, 'e, unit) proc \<Rightarrow> ('s, 'e, 'b) proc \<Rightarrow> ('s, 'e, 'b) proc" where
  "then_p m k = bind_p m (\<lambda>_. k)"

definition upd_p :: "('s \<Rightarrow> 's) \<Rightarrow> ('s, 'e, unit) proc" where
  "upd_p f s = (Inr (), f s)"

definition get_p :: "('s, 'e, 's) proc" where
  "get_p s = (Inr s, s)"

text \<open>\<open>try: m; except e: h(e)\<close>\<close>

definition catch_p :: "('s, 'e, 'a) proc \<Rightarrow> ('e \<Rightarrow> ('s, 'e, 'a) proc) \<Rightarrow> ('s, 'e, 'a) proc" where
  "catch_p m h s = (case m s of (Inl e, s') \<Rightarrow> h e s' | (Inr a, s') \<Rightarrow> (Inr a, s'))"

definition lift_p :: "'e + 'a \<Rightarrow> ('s, 'e, 'a) proc" where
  "lift_p r s = (r, s)"

fun each_p :: "('a \<Rightarrow> ('s, 'e, unit) proc) \<Rightarrow> 'a list \<Rightarrow> ('s, 'e, unit) proc" where
  "each_p f [] = ret_p ()"
| "each_p f (x # xs) = then_p (f x) (each_p f xs)"

definition triple ::
  "('s \<Rightarrow> bool) \<Rightarrow> ('s, 'e, 'a) proc \<Rightarrow> ('a \<Rightarrow> 's \<Rightarrow> bool) \<Rightarrow> ('e \<Rightarrow> 's \<Rightarrow> bool) \<Rightarrow> bool" where
  "triple P m Q E \<longleftrightarrow> (\<forall>s. P s \<longrightarrow> (case m s of (Inl e, s') \<Rightarrow> E e s' | (Inr a, s') \<Rightarrow> Q a s'))"

lemmas proc_defs = ret_p_def raise_p_def bind_p_def then_p_def upd_p_def get_p_def lift_p_def catch_p_def

lemma triple_ret: "(\<And>s. P s \<Longrightarrow> Q a s) \<Longrightarrow> triple P (ret_p a) Q E"
  by (simp add: triple_def ret_p_def)

lemma triple_raise: "(\<And>s. P s \<Longrightarrow> E e s) \<Longrightarrow> triple P (raise_p e) Q E"
  by (simp add: triple_def raise_p_def)

lemma triple_upd: "(\<And>s. P s \<Longrightarrow> Q () (f s)) \<Longrightarrow> triple P (upd_p f) Q E"
  by (simp add: triple_def upd_p_def)

lemma triple_get: "(\<And>s. P s \<Longrightarrow> Q s s) \<Longrightarrow> triple P get_p Q E"
  by (simp add: triple_def get_p_def)

lemma triple_lift:
  "(\<And>a s. r = Inr a \<Longrightarrow> P s \<Longrightarrow> Q a s) \<Longrightarrow> (\<And>e s. r = Inl e \<Longrightarrow> P s \<Longrightarrow> E e s) \<Longrightarrow>
     triple P (lift_p r) Q E"
  by (cases r) (simp_all add: triple_def lift_p_def)

lemma triple_bind:
  "triple P m R E \<Longrightarrow> (\<And>a. triple (R a) (f a) Q E) \<Longrightarrow> triple P (bind_p m f) Q E"
  by (fastforce simp: triple_def bind_p_def split: prod.split sum.split)

lemma triple_then: "triple P m (\<lambda>_. R) E \<Longrightarrow> triple R k Q E \<Longrightarrow> triple P (then_p m k) Q E"
  unfolding then_p_def by (rule triple_bind)

lemma triple_catch:
  "triple P m Q E' \<Longrightarrow> (\<And>e. triple (E' e) (h e) Q E) \<Longrightarrow> triple P (catch_p m h) Q E"
  by (fastforce simp: triple_def catch_p_def split: prod.split sum.split)

lemma triple_pre: "triple P m Q E \<Longrightarrow> (\<And>s. P' s \<Longrightarrow> P s) \<Longrightarrow> triple P' m Q E"
  by (simp add: triple_def)

lemma triple_post:
  "triple P m Q E \<Longrightarrow> (\<And>a s. Q a s \<Longrightarrow> Q' a s) \<Longrightarrow> (\<And>e s. E e s \<Longrightarrow> E' e s) \<Longrightarrow> triple P m Q' E'"
  by (fastforce simp: triple_def split: prod.split sum.split)

lemma triple_read:
  "(\<And>s. P s \<Longrightarrow> triple (\<lambda>t. t = s) (f s) Q E) \<Longrightarrow> triple P (bind_p get_p f) Q E"
  by (simp add: triple_def bind_p_def get_p_def)

lemma triple_assume: "(\<And>s. P s \<Longrightarrow> triple (\<lambda>t. t = s) m Q E) \<Longrightarrow> triple P m Q E"
  by (simp add: triple_def)

lemma triple_each:
  "(\<And>x. x \<in> set xs \<Longrightarrow> triple I (f x) (\<lambda>_. I) E) \<Longrightarrow> triple I (each_p f xs) (\<lambda>_. I) E"
  by (induction xs) (auto intro: triple_ret triple_then)

lemma triple_run:
  assumes "triple P m Q E" and "P s"
  shows "(case m s of (Inl e, s') \<Rightarrow> E e s' | (Inr a, s') \<Rightarrow> Q a s')"
  using assms by (simp add: triple_def)

text \<open>An invariant: kept whether the procedure returns or raises.\<close>

definition keeps :: "('s \<Rightarrow> bool) \<Rightarrow> ('s, 'e, 'a) proc \<Rightarrow> bool" where
  "keeps I m \<longleftrightarrow> triple I m (\<lambda>_. I) (\<lambda>_. I)"

named_theorems keeps_rules "procedures that keep an invariant"

lemma keeps_ret [keeps_rules]: "keeps I (ret_p a)"
  by (simp add: keeps_def triple_ret)

lemma keeps_raise [keeps_rules]: "keeps I (raise_p e)"
  by (simp add: keeps_def triple_raise)

lemma keeps_upd [keeps_rules]: "(\<And>s. I s \<Longrightarrow> I (f s)) \<Longrightarrow> keeps I (upd_p f)"
  by (simp add: keeps_def triple_upd)

lemma keeps_get [keeps_rules]: "keeps I get_p"
  by (simp add: keeps_def triple_get)

lemma keeps_lift [keeps_rules]: "keeps I (lift_p r)"
  by (simp add: keeps_def triple_lift)

lemma keeps_bind [keeps_rules]: "keeps I m \<Longrightarrow> (\<And>a. keeps I (f a)) \<Longrightarrow> keeps I (bind_p m f)"
  unfolding keeps_def by (rule triple_bind)

lemma keeps_then [keeps_rules]: "keeps I m \<Longrightarrow> keeps I k \<Longrightarrow> keeps I (then_p m k)"
  unfolding keeps_def by (rule triple_then)

lemma keeps_each [keeps_rules]: "(\<And>x. x \<in> set xs \<Longrightarrow> keeps I (f x)) \<Longrightarrow> keeps I (each_p f xs)"
  unfolding keeps_def by (rule triple_each)

lemma keeps_catch [keeps_rules]: "keeps I m \<Longrightarrow> (\<And>e. keeps I (h e)) \<Longrightarrow> keeps I (catch_p m h)"
  unfolding keeps_def by (rule triple_catch)

lemma keeps_ex: "(\<And>k. keeps (I k) m) \<Longrightarrow> keeps (\<lambda>s. \<exists>k \<le> b. I k s) m"
  unfolding keeps_def triple_def by (fastforce split: prod.splits sum.splits)

lemma keeps_triple: "keeps I m \<Longrightarrow> triple I m (\<lambda>_. I) (\<lambda>_. I)"
  by (simp add: keeps_def)

lemma keeps_snd:
  assumes "keeps I m" and "I s"
  shows "I (snd (m s))"
proof -
  obtain r s' where "m s = (r, s')" by fastforce
  with assms show ?thesis by (cases r) (auto simp: keeps_def triple_def)
qed

lemma triple_conj:
  "triple P m Q E \<Longrightarrow> triple P' m Q' E' \<Longrightarrow>
     triple (\<lambda>s. P s \<and> P' s) m (\<lambda>a s. Q a s \<and> Q' a s) (\<lambda>e s. E e s \<and> E' e s)"
  by (fastforce simp: triple_def split: prod.split sum.split)

text \<open>The errors a procedure can raise.\<close>

definition raises_in :: "('s, 'e, 'a) proc \<Rightarrow> ('e \<Rightarrow> bool) \<Rightarrow> bool" where
  "raises_in m S \<longleftrightarrow> triple (\<lambda>_. True) m (\<lambda>_ _. True) (\<lambda>e _. S e)"

named_theorems raises_rules "the errors a procedure can raise"

lemma raises_basic [raises_rules]:
  "raises_in (ret_p a) S" "raises_in (upd_p f) S" "raises_in get_p S" "S e \<Longrightarrow> raises_in (raise_p e) S"
  by (simp_all add: raises_in_def triple_ret triple_upd triple_get triple_raise)

lemma raises_lift [raises_rules]: "(\<And>e. r = Inl e \<Longrightarrow> S e) \<Longrightarrow> raises_in (lift_p r) S"
  by (simp add: raises_in_def triple_lift)

lemma raises_bind [raises_rules]: "raises_in m S \<Longrightarrow> (\<And>a. raises_in (f a) S) \<Longrightarrow> raises_in (bind_p m f) S"
  unfolding raises_in_def by (rule triple_bind) auto

lemma raises_then [raises_rules]: "raises_in m S \<Longrightarrow> raises_in k S \<Longrightarrow> raises_in (then_p m k) S"
  unfolding then_p_def by (rule raises_bind)

lemma raises_each [raises_rules]: "(\<And>x. x \<in> set xs \<Longrightarrow> raises_in (f x) S) \<Longrightarrow> raises_in (each_p f xs) S"
  unfolding raises_in_def by (rule triple_each)

lemma raises_catch: "raises_in m S' \<Longrightarrow> (\<And>e. S' e \<Longrightarrow> raises_in (h e) S) \<Longrightarrow> raises_in (catch_p m h) S"
  unfolding raises_in_def
proof (erule triple_catch)
  fix e
  assume "\<And>e. S' e \<Longrightarrow> triple (\<lambda>_. True) (h e) (\<lambda>_ _. True) (\<lambda>e _. S e)"
  then show "triple (\<lambda>_. S' e) (h e) (\<lambda>_ _. True) (\<lambda>e _. S e)"
    by (cases "S' e") (simp_all add: triple_def)
qed

lemma raises_run: "raises_in m S \<Longrightarrow> m s = (Inl e, s') \<Longrightarrow> S e"
  by (fastforce simp: raises_in_def triple_def split: prod.splits)

end
