(* ===== verification/Format_Fingerprint.thy ===== *)
theory Format_Fingerprint
  imports Mesh_Prelude
begin

text \<open>
  \<^verbatim>\<open>agent_fleet/utils/format_fingerprint.py\<close>: the vendor-format key
  \<open><manufacturer>/<doc_type>/<layout-era>\<close> that trust is granted on.

  \<^verbatim>\<open>yaml.safe_load\<close> is not in the repository: the parsed overlay is an argument, and a missing
  file is \<open>None\<close>. The text \<open>str(v)\<close> gives for a value that is not a string is the argument
  \<open>rend\<close>. An error carries what tells it apart, not its message.
\<close>

type_synonym aliases = "(string \<times> string) list"

datatype alias_error =
    AliasesNotMapping
  | AliasesFieldNotMapping
  | AliasValueInvalid string
  | AliasEmpty
  | AliasToItself string
  | AliasesChained

definition UNKNOWN_SEGMENT :: string where
  "UNKNOWN_SEGMENT = ''unknown''"

definition ATTESTING_SOURCES :: "string list" where
  "ATTESTING_SOURCES = [''extraction'', ''title'']"

definition normalise :: "string \<Rightarrow> string" where
  "normalise value = py_strip (squeeze (py_lower (py_strip value)))"

fun add_aliases :: "pydict \<Rightarrow> aliases \<Rightarrow> alias_error + aliases" where
  "add_aliases [] out = Inr out"
| "add_aliases ((alias, canonical) # rest) out =
     (case canonical of
        PStr can \<Rightarrow>
          (if py_strip can = [] then Inl (AliasValueInvalid alias)
           else (let a = normalise alias; c = normalise can in
             if a = [] then Inl AliasEmpty
             else if a = c then Inl (AliasToItself alias)
             else add_aliases rest (AList.update a c out)))
      | _ \<Rightarrow> Inl (AliasValueInvalid alias))"

definition parse_vendor_aliases :: "pyval \<Rightarrow> alias_error + aliases" where
  "parse_vendor_aliases raw = (case (if raw = PNone then PDict [] else raw) of
     PDict table \<Rightarrow>
       (case (if dget table ''aliases'' = PNone then PDict [] else dget table ''aliases'') of
          PDict entries \<Rightarrow> bind_r (add_aliases entries []) (\<lambda>out.
            if list_ex (\<lambda>a. a \<in> set (map snd out)) (map fst out)
            then Inl AliasesChained else Inr out)
        | _ \<Rightarrow> Inl AliasesFieldNotMapping)
   | _ \<Rightarrow> Inl AliasesNotMapping)"

definition load_vendor_aliases :: "pyval option \<Rightarrow> alias_error + aliases" where
  "load_vendor_aliases file = (case file of None \<Rightarrow> Inr [] | Some raw \<Rightarrow> parse_vendor_aliases raw)"

text \<open>
  \<open>given\<close> is the caller's \<open>aliases\<close> argument; without one the overlay file is read, and an
  overlay that does not parse counts as empty.
\<close>

definition canonical_vendor :: "pyval option \<Rightarrow> aliases option \<Rightarrow> string \<Rightarrow> string" where
  "canonical_vendor file given raw_mfr = (let norm = normalise raw_mfr in
     if norm = [] then UNKNOWN_SEGMENT
     else (let al = (case given of Some a \<Rightarrow> a
                     | None \<Rightarrow> (case load_vendor_aliases file of Inl _ \<Rightarrow> [] | Inr a \<Rightarrow> a))
           in (case map_of al norm of None \<Rightarrow> norm | Some c \<Rightarrow> c)))"

definition str_of :: "(pyval \<Rightarrow> string) \<Rightarrow> pyval \<Rightarrow> string" where
  "str_of rend v = (case v of PStr s \<Rightarrow> s | _ \<Rightarrow> rend v)"

text \<open>\<open>str(v or "")\<close>.\<close>

definition str_or_empty :: "(pyval \<Rightarrow> string) \<Rightarrow> pyval \<Rightarrow> string" where
  "str_or_empty rend v = (if truthy v then str_of rend v else [])"

definition attested :: "(pyval \<Rightarrow> string) \<Rightarrow> pyval \<Rightarrow> bool" where
  "attested rend doc_type_source \<longleftrightarrow>
     py_lower (py_strip (str_or_empty rend doc_type_source)) \<in> set ATTESTING_SOURCES"

definition compose_fingerprint ::
  "pyval option \<Rightarrow> (pyval \<Rightarrow> string) \<Rightarrow> aliases option \<Rightarrow> pyval \<Rightarrow> pyval \<Rightarrow> pyval \<Rightarrow> string" where
  "compose_fingerprint file rend given raw_mfr doc_type doc_type_source =
     (let vendor = canonical_vendor file given (str_or_empty rend raw_mfr);
          seg = (if attested rend doc_type_source
                 then normalise (str_or_empty rend doc_type) else [])
      in vendor @ ''/'' @ (if seg = [] then UNKNOWN_SEGMENT else seg) @ ''/v1'')"

fun header_mfr :: "(pyval \<Rightarrow> string) \<Rightarrow> pyval list \<Rightarrow> string" where
  "header_mfr rend [] = []"
| "header_mfr rend (it # its) = (case it of
     PDict d \<Rightarrow> if dget d ''field_path'' = PStr ''header.mfr''
                then str_or_empty rend (dget d ''value'') else header_mfr rend its
   | _ \<Rightarrow> header_mfr rend its)"

definition format_fingerprint ::
  "pyval option \<Rightarrow> (pyval \<Rightarrow> string) \<Rightarrow> aliases option \<Rightarrow> pydict \<Rightarrow> string" where
  "format_fingerprint file rend given review =
     compose_fingerprint file rend given
       (PStr (header_mfr rend (list_or_nil (dget review ''review_items''))))
       (dget review ''doc_type'') (dget review ''doc_type_source'')"

definition format_fingerprint_from_manifest ::
  "pyval option \<Rightarrow> (pyval \<Rightarrow> string) \<Rightarrow> aliases option \<Rightarrow> pyval \<Rightarrow> string" where
  "format_fingerprint_from_manifest file rend given manifest =
     (let block = (case manifest of PDict m \<Rightarrow> dict_or_nil (dget m ''format_identity'') | _ \<Rightarrow> [])
      in compose_fingerprint file rend given
           (dget block ''manufacturer'') (dget block ''doc_type'') (dget block ''doc_type_source''))"


subsection \<open>Normalisation and aliases\<close>

lemma lower_normalise: "py_lower (normalise s) = normalise s"
proof -
  have "set (normalise s) \<subseteq> set (squeeze (py_lower (py_strip s)))"
    by (simp add: normalise_def py_strip_set)
  also have "\<dots> \<subseteq> insert (CHR '' '') (set (py_lower (py_strip s)))"
    by (rule set_squeeze)
  finally have "\<forall>c \<in> set (normalise s). lower_char c = c"
    by (auto simp: py_lower_def lower_char_def [of "CHR '' ''"] code_of_def)
  then show ?thesis by (simp add: py_lower_fixed)
qed

lemma squeezed_normalise: "squeezed (normalise s)"
  by (simp add: normalise_def squeezed_strip squeezed_squeeze)

lemma strip_normalise [simp]: "py_strip (normalise s) = normalise s"
  by (simp add: normalise_def)

lemma normalise_idem [simp]: "normalise (normalise s) = normalise s"
  by (simp add: normalise_def [of "normalise s"] lower_normalise squeeze_squeezed squeezed_normalise)

lemma normalise_eq_Nil: "normalise s = [] \<longleftrightarrow> py_strip s = []"
  using nonspace_squeeze [of "py_lower (py_strip s)"]
  by (simp add: normalise_def py_strip_eq_Nil [of "squeeze _"])
    (metis (mono_tags, lifting) py_lower_def image_iff is_space_lower list.set_map
      py_strip_eq_Nil py_strip_idem)

definition canonical_form :: "string \<Rightarrow> bool" where
  "canonical_form c \<longleftrightarrow> normalise c = c \<and> c \<noteq> []"

lemma add_aliases_normalised:
  assumes "add_aliases es out = Inr out'"
    and "\<forall>(a, c) \<in> set out. canonical_form c"
  shows "\<forall>(a, c) \<in> set out'. canonical_form c"
  using assms
proof (induction es out rule: add_aliases.induct)
  case (1 out)
  then show ?case by simp
next
  case (2 name canonical rest out)
  then obtain can where can: "canonical = PStr can"
    by (cases canonical) auto
  from "2.prems"(1) can have "canonical_form (normalise can)"
    by (auto simp: canonical_form_def normalise_eq_Nil split: if_splits)
  then have upd: "\<forall>(a, c) \<in> set (AList.update (normalise name) (normalise can) out). canonical_form c"
    using "2.prems"(2) by (auto dest!: subsetD [OF set_update_subset])
  from 2 can upd show ?case
    by (auto simp: Let_def split: if_splits)
qed

lemma parse_vendor_aliasesD:
  assumes "parse_vendor_aliases raw = Inr out"
  shows "\<forall>(a, c) \<in> set out. canonical_form c" and "fst ` set out \<inter> snd ` set out = {}"
proof -
  from assms have "\<exists>es. add_aliases es [] = Inr out \<and>
      \<not> list_ex (\<lambda>a. a \<in> set (map snd out)) (map fst out)"
    unfolding parse_vendor_aliases_def
    by (auto simp only: bind_r_Inr sum.simps split: pyval.split_asm if_split_asm)
  then obtain es where es: "add_aliases es [] = Inr out"
    and ch: "\<not> list_ex (\<lambda>a. a \<in> set (map snd out)) (map fst out)" by blast
  from add_aliases_normalised [OF es] show "\<forall>(a, c) \<in> set out. canonical_form c" by simp
  from ch show "fst ` set out \<inter> snd ` set out = {}" by (auto simp: list_ex_iff)
qed

text \<open>
  A vendor's canonical name is a fixed point: under an alias overlay that parsed, the
  canonical form of a vendor name that is not blank canonicalises to itself, so the key never
  depends on how often or in which order the overlay is applied.
\<close>

theorem canonical_vendor_fixed_point:
  assumes "parse_vendor_aliases raw = Inr al" and "normalise mfr \<noteq> []"
  shows "canonical_vendor file (Some al) (canonical_vendor file (Some al) mfr)
       = canonical_vendor file (Some al) mfr"
proof (cases "map_of al (normalise mfr)")
  case None
  with assms(2) show ?thesis by (simp add: canonical_vendor_def Let_def)
next
  case (Some c)
  then have mem: "(normalise mfr, c) \<in> set al" by (rule map_of_SomeD)
  with parse_vendor_aliasesD(1) [OF assms(1)] have c: "normalise c = c" "c \<noteq> []"
    by (auto simp: canonical_form_def)
  from mem parse_vendor_aliasesD(2) [OF assms(1)] have "c \<notin> fst ` set al" by force
  then have "map_of al c = None" by (simp add: map_of_eq_None_iff)
  with Some assms(2) c show ?thesis by (auto simp: canonical_vendor_def Let_def)
qed

theorem canonical_vendor_fixed_point_witness:
  "canonical_vendor None (Some [(''ti'', ''texas instruments'')])
     (canonical_vendor None (Some [(''ti'', ''texas instruments'')]) '' TI '')
   = canonical_vendor None (Some [(''ti'', ''texas instruments'')]) '' TI ''"
proof -
  have "parse_vendor_aliases (PDict [(''aliases'', PDict [(''TI'', PStr ''Texas  Instruments'')])])
      = Inr [(''ti'', ''texas instruments'')]" by code_simp
  moreover have "normalise '' TI '' \<noteq> []" by code_simp
  ultimately show ?thesis by (rule canonical_vendor_fixed_point)
qed

subsection \<open>The segments of a fingerprint\<close>

lemma compose_unattested:
  assumes "\<not> attested rend src"
  shows "compose_fingerprint file rend given mfr doc src
       = canonical_vendor file given (str_or_empty rend mfr) @ ''/unknown/v1''"
  using assms by (simp add: compose_fingerprint_def UNKNOWN_SEGMENT_def)

lemma attested_blank [simp]: "\<not> attested rend PNone"
  by (simp add: attested_def str_or_empty_def py_strip_def py_lower_def ATTESTING_SOURCES_def)

lemma canonical_vendor_blank [simp]: "canonical_vendor file given [] = ''unknown''"
  by (simp add: canonical_vendor_def normalise_def py_strip_def py_lower_def UNKNOWN_SEGMENT_def)

lemma str_or_empty_None [simp]: "str_or_empty rend PNone = []"
  by (simp add: str_or_empty_def)

lemma manifest_without_identity:
  assumes "\<And>m. manifest = PDict m \<Longrightarrow> \<not> is_dict (dget m ''format_identity'')"
  shows "format_fingerprint_from_manifest file rend given manifest = ''unknown/unknown/v1''"
proof (cases manifest)
  case (PDict m)
  with assms have "\<not> is_dict (dget m ''format_identity'')" by blast
  then have "dict_or_nil (dget m ''format_identity'') = []"
    by (simp add: is_dict_def dict_or_nil_def split: pyval.splits)
  then show ?thesis
    by (simp add: PDict format_fingerprint_from_manifest_def compose_unattested dget_def)
qed (simp_all add: format_fingerprint_from_manifest_def compose_unattested dget_def)

end
