(* ===== verification/Trust_Table.thy ===== *)
theory Trust_Table
  imports Format_Fingerprint
begin

text \<open>
  \<^verbatim>\<open>agent_fleet/utils/trust_table.py\<close>: the admission posture. A parsed YAML overlay becomes a
  trust table or is refused whole; the table answers which rung of autonomy a fingerprint has
  under a pipeline version, \<open>supervised\<close> being what absence computes to.

  Not modelled: reading the file, and the content hash (the argument \<open>ref\<close>). \<open>to_float\<close> stands
  for Python's \<open>float(v)\<close>, \<open>None\<close> being a \<open>TypeError\<close> or \<open>ValueError\<close>.
\<close>

definition SUPERVISED :: string where "SUPERVISED = ''supervised''"
definition MONITORED :: string where "MONITORED = ''monitored''"
definition TRUSTED :: string where "TRUSTED = ''trusted''"

definition RUNGS :: "string list" where
  "RUNGS = [SUPERVISED, MONITORED, TRUSTED]"

definition DEFAULT_RUNG :: string where
  "DEFAULT_RUNG = SUPERVISED"

lemmas rung_defs = SUPERVISED_def MONITORED_def TRUSTED_def RUNGS_def DEFAULT_RUNG_def

definition SENTINEL_VERSIONS :: "string list" where
  "SENTINEL_VERSIONS = [''unset'', ''unstamped'', ''unknown'', ''none'', '''']"

definition is_sentinel_version :: "string \<Rightarrow> bool" where
  "is_sentinel_version value = (let s = py_lower (py_strip value);
       tail = (if CHR ''@'' \<in> set s then after_last (CHR ''@'') s else s)
     in s \<in> set SENTINEL_VERSIONS \<or> tail \<in> set SENTINEL_VERSIONS)"

definition SENTINEL_VENDORS :: "string list" where
  "SENTINEL_VENDORS = [''unknown'', '''', ''none'', ''unidentified'']"

definition is_sentinel_fingerprint :: "string \<Rightarrow> bool" where
  "is_sentinel_fingerprint value =
     (let parts = map py_strip (py_split (CHR ''/'') (py_lower (py_strip value)));
          vendor = (case parts of [] \<Rightarrow> [] | p # _ \<Rightarrow> p);
          doc_type = (case parts of _ # q # _ \<Rightarrow> q | _ \<Rightarrow> [])
      in vendor \<in> set SENTINEL_VENDORS \<or> doc_type \<in> set SENTINEL_VENDORS)"

record trust_table =
  formats :: pydict
  table_ref :: string

datatype trust_error =
    TableNotMapping
  | FormatsNotMapping
  | EntryNotMapping string
  | RungUnknown string
  | VersionRequired string
  | SentinelFingerprint string
  | SentinelVersion string
  | RatifierRequired string
  | EvidenceRequired string

subsection \<open>Reading the table\<close>

text \<open>
  A truthy entry that is not a mapping would raise in \<open>entry.get\<close>; a parsed table has none
  (\<open>check_entry\<close>), and here such an entry reads as empty.
\<close>

definition rung_for :: "trust_table \<Rightarrow> string \<Rightarrow> string \<Rightarrow> pyval" where
  "rung_for t fp version = (let entry = dget (formats t) fp in
     if \<not> truthy entry then PStr DEFAULT_RUNG
     else if \<not> py_eq (dget (dict_or_nil entry) ''pipeline_version'') (PStr version)
     then PStr DEFAULT_RUNG
     else dget_or (dict_or_nil entry) ''rung'' (PStr DEFAULT_RUNG))"

definition sample_rate_for :: "(pyval \<Rightarrow> rat option) \<Rightarrow> trust_table \<Rightarrow> string \<Rightarrow> string \<Rightarrow> rat" where
  "sample_rate_for to_float t fp version =
     (if \<not> py_eq (rung_for t fp version) (PStr MONITORED) then 0
      else (case to_float (dget_or (dict_or_nil (dget (formats t) fp)) ''sample_rate'' (PFloat 0)) of
          None \<Rightarrow> 0 | Some q \<Rightarrow> q))"

definition is_autonomy_permitted :: "trust_table \<Rightarrow> string \<Rightarrow> string \<Rightarrow> bool" where
  "is_autonomy_permitted t fp version =
     py_in (rung_for t fp version) [PStr MONITORED, PStr TRUSTED]"

subsection \<open>Promotion\<close>

fun index_of :: "'a list \<Rightarrow> 'a \<Rightarrow> nat" where
  "index_of [] x = 0"
| "index_of (y # ys) x = (if x = y then 0 else Suc (index_of ys x))"

definition promotion_is_permitted :: "string \<Rightarrow> string \<Rightarrow> bool" where
  "promotion_is_permitted current proposed =
     (if current \<notin> set RUNGS \<or> proposed \<notin> set RUNGS then False
      else if index_of RUNGS proposed \<le> index_of RUNGS current then True
      else index_of RUNGS proposed - index_of RUNGS current = 1)"

subsection \<open>Parsing\<close>

definition check_entry :: "(pyval \<Rightarrow> string) \<Rightarrow> string \<Rightarrow> pyval \<Rightarrow> trust_error + unit" where
  "check_entry rend fp entry = (case entry of
     PDict e \<Rightarrow>
       (let rung = dget e ''rung''; version = dget e ''pipeline_version'' in
        if \<not> py_in rung (map PStr RUNGS) then Inl (RungUnknown fp)
        else if \<not> truthy version then Inl (VersionRequired fp)
        else if \<not> py_eq rung (PStr SUPERVISED) then
          (if is_sentinel_fingerprint fp then Inl (SentinelFingerprint fp)
           else if is_sentinel_version (str_or_empty rend version) then Inl (SentinelVersion fp)
           else if \<not> truthy (dget e ''ratified_by'') then Inl (RatifierRequired fp)
           else if \<not> truthy (dget e ''evidence'') then Inl (EvidenceRequired fp)
           else Inr ())
        else Inr ())
   | _ \<Rightarrow> Inl (EntryNotMapping fp))"

fun check_entries :: "(pyval \<Rightarrow> string) \<Rightarrow> pydict \<Rightarrow> trust_error + unit" where
  "check_entries rend [] = Inr ()"
| "check_entries rend ((fp, entry) # rest) =
     bind_r (check_entry rend fp entry) (\<lambda>_. check_entries rend rest)"

definition parse_trust_table ::
  "(pyval \<Rightarrow> string) \<Rightarrow> string \<Rightarrow> pyval \<Rightarrow> trust_error + trust_table" where
  "parse_trust_table rend ref raw = (case (if raw = PNone then PDict [] else raw) of
     PDict table \<Rightarrow>
       (case (if dget table ''formats'' = PNone then PDict [] else dget table ''formats'') of
          PDict fs \<Rightarrow> bind_r (check_entries rend fs) (\<lambda>_. Inr \<lparr>formats = fs, table_ref = ref\<rparr>)
        | _ \<Rightarrow> Inl FormatsNotMapping)
   | _ \<Rightarrow> Inl TableNotMapping)"


subsection \<open>A parsed table\<close>

definition well_formed_entry :: "(pyval \<Rightarrow> string) \<Rightarrow> string \<Rightarrow> pyval \<Rightarrow> bool" where
  "well_formed_entry rend fp entry \<longleftrightarrow> (\<exists>e r. entry = PDict e \<and> dget e ''rung'' = PStr r \<and>
     r \<in> set RUNGS \<and> truthy (dget e ''pipeline_version'') \<and>
     (r \<noteq> SUPERVISED \<longrightarrow>
        \<not> is_sentinel_fingerprint fp \<and>
        \<not> is_sentinel_version (str_or_empty rend (dget e ''pipeline_version'')) \<and>
        truthy (dget e ''ratified_by'') \<and> truthy (dget e ''evidence'')))"

lemma check_entry_iff: "check_entry rend fp entry = Inr () \<longleftrightarrow> well_formed_entry rend fp entry"
proof (cases entry)
  case (PDict e)
  show ?thesis
  proof (cases "dget e ''rung''")
    case (PStr r)
    have "py_in (PStr r) (map PStr RUNGS) \<longleftrightarrow> r \<in> set RUNGS"
      by (simp add: py_in_PStr)
    with PDict PStr show ?thesis
      by (simp add: check_entry_def well_formed_entry_def Let_def)
  qed (auto simp: PDict check_entry_def well_formed_entry_def Let_def py_in_PStr)
qed (simp_all add: check_entry_def well_formed_entry_def)

lemma check_entries_iff:
  "check_entries rend fs = Inr () \<longleftrightarrow> (\<forall>(fp, entry) \<in> set fs. well_formed_entry rend fp entry)"
  by (induction rend fs rule: check_entries.induct) (auto simp: bind_r_Inr check_entry_iff)

text \<open>The mapping a parsed overlay declares under \<open>formats\<close>; \<open>None\<close> when it has no such shape.\<close>

definition declared_formats :: "pyval \<Rightarrow> pydict option" where
  "declared_formats raw = (case raw of
     PNone \<Rightarrow> Some []
   | PDict table \<Rightarrow> (case dget table ''formats'' of
       PNone \<Rightarrow> Some [] | PDict fs \<Rightarrow> Some fs | _ \<Rightarrow> None)
   | _ \<Rightarrow> None)"

lemma parse_trust_table_declared:
  "parse_trust_table rend ref raw = Inr t \<longleftrightarrow>
     (\<exists>fs. declared_formats raw = Some fs \<and> check_entries rend fs = Inr () \<and>
        t = \<lparr>formats = fs, table_ref = ref\<rparr>)"
  unfolding parse_trust_table_def declared_formats_def
  by (cases raw; auto simp: dget_def bind_r_Inr split: option.split pyval.split)

text \<open>
  The table is applied whole or not at all: parsing succeeds exactly when the overlay is a
  mapping of fingerprints to well-formed entries, and then the table holds those entries as
  written; one bad row refuses every row.
\<close>

theorem parse_applies_whole_or_refuses:
  "parse_trust_table rend ref raw = Inr t \<longleftrightarrow>
     (\<exists>fs. declared_formats raw = Some fs \<and> \<not> (\<exists>(fp, entry) \<in> set fs. \<not> well_formed_entry rend fp entry) \<and>
        t = \<lparr>formats = fs, table_ref = ref\<rparr>)"
  unfolding parse_trust_table_declared check_entries_iff by blast

lemma parsed_entry:
  assumes "parse_trust_table rend ref raw = Inr t" and "map_of (formats t) fp = Some entry"
  shows "well_formed_entry rend fp entry"
  using assms by (auto simp: parse_trust_table_declared check_entries_iff dest!: map_of_SomeD)

lemma rung_for_not_default:
  assumes "rung_for t fp v \<noteq> PStr SUPERVISED"
  obtains e where "map_of (formats t) fp = Some (PDict e)"
    and "dget e ''pipeline_version'' = PStr v"
    and "rung_for t fp v = dget_or e ''rung'' (PStr DEFAULT_RUNG)"
proof (cases "map_of (formats t) fp")
  case None
  with assms show ?thesis by (simp add: rung_for_def dget_def rung_defs)
next
  case (Some entry)
  show ?thesis
  proof (cases entry)
    case (PDict e)
    with Some assms that show ?thesis
      by (auto simp: rung_for_def dget_def [of "formats t"] Let_def rung_defs dict_or_nil_def
          split: if_splits)
  qed (use Some assms in \<open>auto simp: rung_for_def dget_def Let_def rung_defs dict_or_nil_def
        split: if_splits\<close>)
qed

lemma autonomy_not_default:
  "is_autonomy_permitted t fp v \<Longrightarrow> rung_for t fp v \<noteq> PStr SUPERVISED"
  by (auto simp: is_autonomy_permitted_def rung_defs)

lemma autonomy_earned:
  assumes "parse_trust_table rend ref raw = Inr t" and "is_autonomy_permitted t fp v"
  shows "\<not> is_sentinel_fingerprint fp \<and> \<not> is_sentinel_version v \<and>
    (\<exists>e. map_of (formats t) fp = Some (PDict e) \<and> dget e ''pipeline_version'' = PStr v \<and>
         truthy (dget e ''ratified_by'') \<and> truthy (dget e ''evidence''))"
proof -
  from autonomy_not_default [OF assms(2)] obtain e where
    e: "map_of (formats t) fp = Some (PDict e)" "dget e ''pipeline_version'' = PStr v"
    and r: "rung_for t fp v = dget_or e ''rung'' (PStr DEFAULT_RUNG)"
    by (rule rung_for_not_default)
  from parsed_entry [OF assms(1) e(1)] obtain r' where
    r': "dget e ''rung'' = PStr r'" and earned: "truthy (PStr v)"
    "r' \<noteq> SUPERVISED \<longrightarrow> \<not> is_sentinel_fingerprint fp \<and>
        \<not> is_sentinel_version (str_or_empty rend (PStr v)) \<and>
        truthy (dget e ''ratified_by'') \<and> truthy (dget e ''evidence'')"
    using e(2) by (auto simp: well_formed_entry_def)
  from r' have "rung_for t fp v = PStr r'"
    using r by (auto simp: dget_def dget_or_def split: option.splits)
  with autonomy_not_default [OF assms(2)] have "r' \<noteq> SUPERVISED" by simp
  with earned e show ?thesis by (simp add: str_or_empty_def str_of_def)
qed

text \<open>
  C4. Autonomy is earned: a parsed table lets the pipeline act without a human only on a
  fingerprint it lists, under exactly the version the row names, with neither of the two a
  sentinel for missing provenance, and with an accountable ratifier and stated evidence.
\<close>

theorem autonomy_is_earned:
  assumes "parse_trust_table rend ref raw = Inr t" and "is_autonomy_permitted t fp v"
  shows "\<not> is_sentinel_fingerprint fp \<and> \<not> is_sentinel_version v \<and>
    (\<exists>e. map_of (formats t) fp = Some (PDict e) \<and> dget e ''pipeline_version'' = PStr v \<and>
         truthy (dget e ''ratified_by'') \<and> truthy (dget e ''evidence''))"
  using assms by (rule autonomy_earned)

definition sample_overlay :: pyval where
  "sample_overlay = PDict [(''formats'', PDict [(''acme/pcn/v1'', PDict
     [(''rung'', PStr ''monitored''), (''pipeline_version'', PStr ''doc-tools@1a2b''),
      (''ratified_by'', PStr ''chris''), (''evidence'', PStr ''run 7'')])])]"

definition sample_table :: trust_table where
  "sample_table = \<lparr>formats = [(''acme/pcn/v1'', PDict
     [(''rung'', PStr ''monitored''), (''pipeline_version'', PStr ''doc-tools@1a2b''),
      (''ratified_by'', PStr ''chris''), (''evidence'', PStr ''run 7'')])], table_ref = ''trust@0''\<rparr>"

lemma sample_parses: "parse_trust_table (\<lambda>_. []) ''trust@0'' sample_overlay = Inr sample_table"
  by code_simp

theorem autonomy_is_earned_witness:
  "is_autonomy_permitted sample_table ''acme/pcn/v1'' ''doc-tools@1a2b'' \<and>
   \<not> is_sentinel_fingerprint ''acme/pcn/v1'' \<and> \<not> is_sentinel_version ''doc-tools@1a2b''"
proof -
  have a: "is_autonomy_permitted sample_table ''acme/pcn/v1'' ''doc-tools@1a2b''" by code_simp
  with autonomy_is_earned [OF sample_parses a] show ?thesis by blast
qed

text \<open>
  Autonomy lapses on version drift: where a table lets the pipeline act under one version,
  every other version of that fingerprint is supervised.
\<close>

theorem autonomy_lapses_on_version_drift:
  assumes "is_autonomy_permitted t fp v" and "v' \<noteq> v"
  shows "rung_for t fp v' = PStr SUPERVISED"
proof (rule ccontr)
  assume "rung_for t fp v' \<noteq> PStr SUPERVISED"
  then obtain e' where "map_of (formats t) fp = Some (PDict e')" "dget e' ''pipeline_version'' = PStr v'"
    by (rule rung_for_not_default)
  moreover obtain e where "map_of (formats t) fp = Some (PDict e)" "dget e ''pipeline_version'' = PStr v"
    using autonomy_not_default [OF assms(1)] by (rule rung_for_not_default)
  ultimately show False using assms(2) by simp
qed

theorem autonomy_lapses_on_version_drift_witness:
  "rung_for sample_table ''acme/pcn/v1'' ''doc-tools@9z9z'' = PStr SUPERVISED"
proof -
  have "is_autonomy_permitted sample_table ''acme/pcn/v1'' ''doc-tools@1a2b''" by code_simp
  then show ?thesis by (rule autonomy_lapses_on_version_drift) simp
qed


subsection \<open>The road to autonomy\<close>

fun permitted_path :: "string \<Rightarrow> string list \<Rightarrow> bool" where
  "permitted_path r [] = True"
| "permitted_path r (r' # rs) = (promotion_is_permitted r r' \<and> permitted_path r' rs)"

lemma promotion_table:
  "promotion_is_permitted SUPERVISED r \<longleftrightarrow> r = SUPERVISED \<or> r = MONITORED"
  "promotion_is_permitted MONITORED r \<longleftrightarrow> r \<in> set RUNGS"
  "promotion_is_permitted TRUSTED r \<longleftrightarrow> r \<in> set RUNGS"
  by (auto simp: promotion_is_permitted_def rung_defs)

lemma promotion_target: "promotion_is_permitted r r' \<Longrightarrow> r' \<in> set RUNGS"
  by (auto simp: promotion_is_permitted_def split: if_splits)

text \<open>
  No road skips the middle rung: a sequence of permitted transitions that starts at
  \<open>supervised\<close> and reaches \<open>trusted\<close> has been \<open>monitored\<close> before it is first trusted.
\<close>

theorem trusted_only_through_monitored:
  assumes "permitted_path SUPERVISED rs" and "TRUSTED \<in> set rs"
  shows "MONITORED \<in> set (takeWhile (\<lambda>r. r \<noteq> TRUSTED) rs)"
  using assms
proof (induction rs)
  case Nil
  then show ?case by simp
next
  case (Cons r rs)
  then have "r = SUPERVISED \<or> r = MONITORED" by (simp add: promotion_table)
  with Cons show ?case by (auto simp: rung_defs)
qed

theorem trusted_only_through_monitored_witness:
  "MONITORED \<in> set (takeWhile (\<lambda>r. r \<noteq> TRUSTED) [SUPERVISED, MONITORED, TRUSTED])"
proof -
  have "permitted_path SUPERVISED [SUPERVISED, MONITORED, TRUSTED]"
    and "TRUSTED \<in> set [SUPERVISED, MONITORED, TRUSTED]"
    by code_simp+
  then show ?thesis by (rule trusted_only_through_monitored)
qed

subsection \<open>Unidentified artifacts\<close>

lemma py_strip_id: "s \<noteq> [] \<Longrightarrow> \<not> is_space (hd s) \<Longrightarrow> \<not> is_space (last s) \<Longrightarrow> py_strip s = s"
  by (simp add: py_strip_def dropWhile_hd_id hd_rev)

lemma py_strip_hd: "py_strip s = s \<Longrightarrow> s \<noteq> [] \<Longrightarrow> \<not> is_space (hd s)"
proof -
  assume s: "py_strip s = s" "s \<noteq> []"
  then have ne: "dropWhile is_space s \<noteq> []"
    by (metis dropWhile.simps(1) py_strip_def rev.simps(1))
  have "length (py_strip s) \<le> length (dropWhile is_space s)"
    unfolding py_strip_def by (metis length_dropWhile_le length_rev)
  with s have "length (dropWhile is_space s) = length s"
    by (metis length_dropWhile_le order_antisym)
  then have "dropWhile is_space s = s"
    by (metis append_self_conv2 length_append add_cancel_left_left length_0_conv takeWhile_dropWhile_id)
  with ne show ?thesis by (metis hd_dropWhile)
qed

lemma sentinel_doc_type:
  assumes "py_lower v = v" and "py_strip v = v" and "CHR ''/'' \<notin> set v"
  shows "is_sentinel_fingerprint (v @ ''/unknown/v1'')"
proof -
  have blanks: "\<not> is_space (CHR ''/'')" "\<not> is_space (CHR ''1'')"
    by (simp_all add: is_space_def code_of_def)
  have "\<not> is_space (hd (v @ ''/unknown/v1''))"
    using py_strip_hd [OF assms(2)] blanks by (cases v) simp_all
  then have strip: "py_strip (v @ ''/unknown/v1'') = v @ ''/unknown/v1''"
    by (intro py_strip_id) (simp_all add: blanks)
  have "py_lower ''/unknown/v1'' = ''/unknown/v1''" by code_simp
  with assms(1) have lower: "py_lower (v @ ''/unknown/v1'') = v @ ''/unknown/v1''"
    by (simp add: py_lower_def)
  have split: "py_split (CHR ''/'') (v @ ''/unknown/v1'') = [v, ''unknown'', ''v1'']"
    using py_split_append [OF assms(3), of "''unknown/v1''"] by simp
  have "py_strip ''unknown'' = ''unknown''" by code_simp
  then show ?thesis
    by (simp add: is_sentinel_fingerprint_def strip lower split SENTINEL_VENDORS_def)
qed

lemma canonical_vendor_form:
  assumes "v = canonical_vendor file None mfr"
  shows "py_lower v = v \<and> py_strip v = v"
proof -
  have unk: "py_lower UNKNOWN_SEGMENT = UNKNOWN_SEGMENT" "py_strip UNKNOWN_SEGMENT = UNKNOWN_SEGMENT"
    by code_simp+
  have ali: "py_lower c = c \<and> py_strip c = c" if "load_vendor_aliases file = Inr al" "(a, c) \<in> set al"
    for al a c
  proof -
    from that have "canonical_form c"
      by (auto simp: load_vendor_aliases_def split: option.splits dest!: parse_vendor_aliasesD(1))
    then have "normalise c = c" by (simp add: canonical_form_def)
    then show ?thesis by (metis lower_normalise strip_normalise)
  qed
  show ?thesis
    using assms unk by (auto simp: canonical_vendor_def Let_def lower_normalise
        split: option.splits sum.splits dest: ali map_of_SomeD)
qed

text \<open>
  An artifact whose document type was not read from the document is never acted on
  without a human: its fingerprint is a sentinel, so in every parsed table it is supervised
  under every version (for a vendor name without the separator \<open>/\<close>).
\<close>

theorem unattested_artifact_is_supervised:
  assumes "parse_trust_table rend' ref raw = Inr t" and "\<not> attested rend src"
    and "CHR ''/'' \<notin> set (canonical_vendor file None (str_or_empty rend mfr))"
  shows "rung_for t (compose_fingerprint file rend None mfr doc src) v = PStr SUPERVISED"
proof -
  let ?fp = "compose_fingerprint file rend None mfr doc src"
  have fp: "?fp = canonical_vendor file None (str_or_empty rend mfr) @ ''/unknown/v1''"
    by (rule compose_unattested [OF assms(2)])
  have "is_sentinel_fingerprint ?fp"
    using canonical_vendor_form [OF refl] assms(3) unfolding fp by (intro sentinel_doc_type) auto
  moreover have "is_autonomy_permitted t ?fp v \<Longrightarrow> \<not> is_sentinel_fingerprint ?fp"
    using autonomy_earned [OF assms(1)] by blast
  ultimately have not_auto: "\<not> is_autonomy_permitted t ?fp v" by blast
  show ?thesis
  proof (rule ccontr)
    assume n: "rung_for t ?fp v \<noteq> PStr SUPERVISED"
    then obtain e where "map_of (formats t) ?fp = Some (PDict e)"
      and r: "rung_for t ?fp v = dget_or e ''rung'' (PStr DEFAULT_RUNG)"
      by (rule rung_for_not_default)
    with parsed_entry [OF assms(1)] have "\<exists>r \<in> set RUNGS. dget e ''rung'' = PStr r"
      by (auto simp: well_formed_entry_def)
    then have "\<exists>r \<in> set RUNGS. rung_for t ?fp v = PStr r"
      unfolding r by (auto simp: dget_def dget_or_def split: option.splits)
    with n not_auto show False by (auto simp: is_autonomy_permitted_def RUNGS_def)
  qed
qed

theorem unattested_artifact_is_supervised_witness:
  "rung_for sample_table
     (compose_fingerprint None (\<lambda>_. []) None (PStr ''Acme'') (PStr ''PCN'') (PStr ''defaulted''))
     ''doc-tools@1a2b'' = PStr SUPERVISED"
proof -
  have "\<not> attested (\<lambda>_. []) (PStr ''defaulted'')" by code_simp
  moreover have "CHR ''/'' \<notin> set (canonical_vendor None None (str_or_empty (\<lambda>_. []) (PStr ''Acme'')))"
    by code_simp
  ultimately show ?thesis by (rule unattested_artifact_is_supervised [OF sample_parses])
qed

text \<open>
  The separator inside a vendor name defeats the sentinel guard: a manufacturer printed
  as \<open>TI/National\<close> shifts the segments, so a fingerprint whose document type is
  unknown passes the check, and a table may grant it autonomy.
\<close>

theorem separator_in_vendor_escapes_the_guard:
  "let fp = compose_fingerprint None rend None (PStr ''TI/National'') (PStr ''PCN'') (PStr ''defaulted'') in
   fp = ''ti/national/unknown/v1'' \<and> \<not> is_sentinel_fingerprint fp"
proof -
  have src: "\<not> attested rend (PStr ''defaulted'')"
    by (simp add: attested_def str_or_empty_def str_of_def) code_simp
  have "canonical_vendor None None ''TI/National'' = ''ti/national''" by code_simp
  then have "compose_fingerprint None rend None (PStr ''TI/National'') (PStr ''PCN'') (PStr ''defaulted'')
      = ''ti/national/unknown/v1''"
    by (simp add: compose_unattested [OF src] str_or_empty_def str_of_def)
  moreover have "\<not> is_sentinel_fingerprint ''ti/national/unknown/v1''" by code_simp
  ultimately show ?thesis by (simp add: Let_def)
qed

end
