(* ===== verification/Decision_Table.thy ===== *)
theory Decision_Table
  imports Mesh_Prelude "HOL-Library.List_Lexorder" "HOL-Library.Char_ord" "HOL-Library.Multiset"
begin

text \<open>
  \<^verbatim>\<open>agent_fleet/restate_analyst/decision_table.py\<close>: evaluating one composed decision table
  against a set of facts. A table is the YAML mapping as loaded; every failure is a
  \<open>DecisionError\<close>, and there is no default row.

  Not modelled: the directories tables are composed from, which the \<^verbatim>\<open>iagent-mesh\<close> SDK reads.
\<close>

datatype decision_error =
    NoMatches
  | NoDomain pyval
  | FactAbsent string
  | OutOfDomain string
  | NoRow
  | ManyRows "nat list"
  | NoThen nat
  | RowKeysUnknown nat
  | RefreshNotBool nat
  | RefreshOnTerminal nat

record decision =
  d_then :: string
  d_terminal :: bool
  d_row :: nat
  d_refresh :: bool

definition ROW_KEYS :: "string list" where
  "ROW_KEYS = [''when'', ''then'', ''refresh_input'']"

definition rows_of :: "pydict \<Rightarrow> pyval list" where
  "rows_of table = list_or_nil (dget table ''rows'')"

definition row_refreshes :: "pydict \<Rightarrow> nat \<Rightarrow> decision_error + bool" where
  "row_refreshes table i = (let row = dict_or_nil (rows_of table ! i);
       refresh = dget_or row ''refresh_input'' (PBool False) in
     if list_ex (\<lambda>k. k \<notin> set ROW_KEYS) (map fst row) then Inl (RowKeysUnknown i)
     else (case refresh of
         PBool b \<Rightarrow> if b \<and> py_member (dget row ''then'') (dget table ''terminals'')
                    then Inl (RefreshOnTerminal i) else Inr b
       | _ \<Rightarrow> Inl (RefreshNotBool i)))"

fun gather :: "pydict \<Rightarrow> pydict \<Rightarrow> pyval list \<Rightarrow> pydict \<Rightarrow> decision_error + pydict" where
  "gather domain facts [] inp = Inr inp"
| "gather domain facts (attr # rest) inp = (case attr of
     PStr a \<Rightarrow>
       (let declared = list_or_nil (dget domain a) in
        if declared = [] then Inl (NoDomain attr)
        else (case map_of facts a of
            None \<Rightarrow> Inl (FactAbsent a)
          | Some v \<Rightarrow> if \<not> py_in v declared then Inl (OutOfDomain a)
                      else gather domain facts rest (AList.update a v inp)))
   | _ \<Rightarrow> Inl (NoDomain attr))"

definition row_matches :: "pydict \<Rightarrow> pyval \<Rightarrow> bool" where
  "row_matches inp row =
     list_all (\<lambda>p. py_eq (dget inp (fst p)) (snd p)) (dict_or_nil (dget (dict_or_nil row) ''when''))"

definition hits :: "pydict \<Rightarrow> pyval list \<Rightarrow> nat list" where
  "hits inp rows = filter (\<lambda>i. row_matches inp (rows ! i)) [0..<length rows]"

text \<open>What follows the search for matching rows: none, several, or the one row's answer.\<close>

definition settle_row :: "pydict \<Rightarrow> nat \<Rightarrow> decision_error + decision" where
  "settle_row table i = (case dget (dict_or_nil (rows_of table ! i)) ''then'' of
     PStr s \<Rightarrow> if s = [] then Inl (NoThen i)
        else bind_r (row_refreshes table i) (\<lambda>r.
          Inr \<lparr>d_then = s, d_terminal = py_member (PStr s) (dget table ''terminals''),
                d_row = i, d_refresh = r\<rparr>)
   | _ \<Rightarrow> Inl (NoThen i))"

fun settle :: "pydict \<Rightarrow> nat list \<Rightarrow> decision_error + decision" where
  "settle table [] = Inl NoRow"
| "settle table [i] = settle_row table i"
| "settle table is = Inl (ManyRows is)"

definition decide :: "pydict \<Rightarrow> pydict \<Rightarrow> decision_error + decision" where
  "decide table facts =
     (let matches = list_or_nil (dget table ''matches'') in
      if matches = [] then Inl NoMatches
      else bind_r (gather (dict_or_nil (dget table ''domain'')) facts matches [])
             (\<lambda>inp. settle table (hits inp (rows_of table))))"

definition row_then :: "(pyval \<Rightarrow> string) \<Rightarrow> pyval \<Rightarrow> string option" where
  "row_then rend row = (let t = dget (dict_or_nil row) ''then'' in
     if truthy t then Some (case t of PStr s \<Rightarrow> s | _ \<Rightarrow> rend t) else None)"

definition targets :: "(pyval \<Rightarrow> string) \<Rightarrow> pydict \<Rightarrow> string list" where
  "targets rend table = sort (remdups (filter
     (\<lambda>s. \<not> list_ex (\<lambda>t. t = PStr s) (list_or_nil (dget table ''terminals'')))
     (List.map_filter (row_then rend) (rows_of table))))"

subsection \<open>What a decision is\<close>

lemma hits_set: "i \<in> set (hits inp rows) \<longleftrightarrow> i < length rows \<and> row_matches inp (rows ! i)"
  by (auto simp: hits_def)

lemma map_hits: "map (\<lambda>i. rows ! i) (hits inp rows) = filter (row_matches inp) rows"
  unfolding hits_def by (metis (no_types, lifting) comp_apply filter_cong filter_map map_nth)

lemma length_hits: "length (hits inp rows) = size (filter_mset (row_matches inp) (mset rows))"
  by (metis length_map map_hits mset_filter size_mset)

lemma settle_row_Inr:
  "settle_row table i = Inr d \<longleftrightarrow> d_row d = i \<and>
     dget (dict_or_nil (rows_of table ! i)) ''then'' = PStr (d_then d) \<and> d_then d \<noteq> [] \<and>
     d_terminal d = py_member (PStr (d_then d)) (dget table ''terminals'') \<and>
     row_refreshes table i = Inr (d_refresh d)"
  by (cases d) (auto simp: settle_row_def bind_r_Inr split: pyval.split)

lemma settle_Inr: "settle table is = Inr d \<longleftrightarrow> (\<exists>i. is = [i] \<and> settle_row table i = Inr d)"
  by (cases "(table, is)" rule: settle.cases) auto

definition inputs_of :: "pydict \<Rightarrow> pydict \<Rightarrow> decision_error + pydict" where
  "inputs_of table facts =
     gather (dict_or_nil (dget table ''domain'')) facts (list_or_nil (dget table ''matches'')) []"

lemma decide_Inr:
  "decide table facts = Inr d \<longleftrightarrow> list_or_nil (dget table ''matches'') \<noteq> [] \<and>
     (\<exists>inp. inputs_of table facts = Inr inp \<and> hits inp (rows_of table) = [d_row d] \<and>
        settle_row table (d_row d) = Inr d)"
  by (auto simp: decide_def inputs_of_def Let_def bind_r_Inr settle_Inr settle_row_Inr)


subsection \<open>Only the declared facts are read\<close>

lemma gather_cong:
  "(\<And>a. PStr a \<in> set matches \<Longrightarrow> map_of facts a = map_of facts' a) \<Longrightarrow>
   gather domain facts matches inp = gather domain facts' matches inp"
  by (induction matches arbitrary: inp)
    (auto simp: Let_def split: pyval.split option.split)

lemma decide_cong:
  "(\<And>a. PStr a \<in> set (list_or_nil (dget table ''matches'')) \<Longrightarrow> map_of facts a = map_of facts' a) \<Longrightarrow>
   decide table facts = decide table facts'"
  using gather_cong [of "list_or_nil (dget table ''matches'')" facts facts'] by (simp add: decide_def Let_def)

lemma gather_lookup:
  "gather domain facts matches inp0 = Inr inp \<Longrightarrow>
   map_of inp a = (if PStr a \<in> set matches then map_of facts a else map_of inp0 a)"
  by (induction matches arbitrary: inp0)
    (auto simp: Let_def update_conv' split: pyval.splits option.splits if_splits)

text \<open>
  A table reads the facts its \<open>matches\<close> declares and nothing else: two events that agree
  on those get the same answer, the same error included.
\<close>

theorem decide_reads_declared_facts:
  assumes "\<And>a. PStr a \<in> set (list_or_nil (dget table ''matches'')) \<Longrightarrow> map_of facts a = map_of facts' a"
  shows "decide table facts = decide table facts'"
  using assms by (rule decide_cong)

definition outcome_table :: pydict where
  "outcome_table =
     [(''decision'', PStr ''t''), (''matches'', PList [PStr ''outcome'']),
      (''domain'', PDict [(''outcome'', PList [PStr ''approved'', PStr ''refused''])]),
      (''terminals'', PList [PStr ''closed'']),
      (''rows'', PList
         [PDict [(''when'', PDict [(''outcome'', PStr ''approved'')]), (''then'', PStr ''closed'')],
          PDict [(''when'', PDict [(''outcome'', PStr ''refused'')]), (''then'', PStr ''propose''),
                 (''refresh_input'', PBool True)]])]"

theorem decide_reads_declared_facts_witness:
  "decide outcome_table [(''outcome'', PStr ''refused''), (''asset'', PInt 7)]
   = decide outcome_table [(''outcome'', PStr ''refused'')]"
proof (rule decide_reads_declared_facts)
  fix a
  have "list_or_nil (dget outcome_table ''matches'') = [PStr ''outcome'']" by code_simp
  moreover assume "PStr a \<in> set (list_or_nil (dget outcome_table ''matches''))"
  ultimately show "map_of [(''outcome'', PStr ''refused''), (''asset'', PInt 7)] a
      = map_of [(''outcome'', PStr ''refused'')] a" by simp
qed

subsection \<open>Row order does not matter\<close>

definition with_rows :: "pydict \<Rightarrow> pyval list \<Rightarrow> pydict" where
  "with_rows table rs = AList.update ''rows'' (PList rs) table"

lemma dget_with_rows: "k \<noteq> ''rows'' \<Longrightarrow> dget (with_rows table rs) k = dget table k"
  by (simp add: with_rows_def dget_def update_conv')

lemma rows_of_with_rows [simp]: "rows_of (with_rows table rs) = rs"
  by (simp add: rows_of_def with_rows_def dget_def update_conv' list_or_nil_def)

lemma row_refreshes_row:
  assumes "rows_of table ! i = rows_of table' ! j"
    and "dget table ''terminals'' = dget table' ''terminals''"
  shows "row_refreshes table i = Inr r \<longleftrightarrow> row_refreshes table' j = Inr r"
  using assms by (simp add: row_refreshes_def Let_def split: pyval.split)

text \<open>
  The order of a table's rows never decides a case: reordering the rows of a table that
  decides leaves the chosen \<open>then\<close>, whether it is terminal, and whether it refreshes.
\<close>

theorem decide_ignores_row_order:
  assumes "decide table facts = Inr d" and "mset rs = mset (rows_of table)"
  shows "\<exists>d'. decide (with_rows table rs) facts = Inr d' \<and> d_then d' = d_then d \<and>
           d_terminal d' = d_terminal d \<and> d_refresh d' = d_refresh d"
proof -
  from assms(1) obtain inp where m: "list_or_nil (dget table ''matches'') \<noteq> []"
    and inp: "inputs_of table facts = Inr inp" and h: "hits inp (rows_of table) = [d_row d]"
    and d: "settle_row table (d_row d) = Inr d"
    by (auto simp: decide_Inr)
  have "mset (filter (row_matches inp) rs) = mset (filter (row_matches inp) (rows_of table))"
    by (simp add: assms(2))
  also have "\<dots> = {#rows_of table ! d_row d#}" by (simp flip: map_hits add: h)
  finally have one: "filter (row_matches inp) rs = [rows_of table ! d_row d]"
    by (simp only: mset_single_iff)
  then obtain j where j: "hits inp rs = [j]" "rs ! j = rows_of table ! d_row d"
    by (auto simp flip: map_hits)
  have "settle_row (with_rows table rs) j = Inr (d\<lparr>d_row := j\<rparr>)"
    using d j(2) row_refreshes_row [of table "d_row d" "with_rows table rs" j]
    by (simp add: settle_row_Inr dget_with_rows)
  with m inp j(1) have "decide (with_rows table rs) facts = Inr (d\<lparr>d_row := j\<rparr>)"
    by (simp add: decide_Inr inputs_of_def dget_with_rows)
  then show ?thesis by (intro exI [of _ "d\<lparr>d_row := j\<rparr>"]) simp
qed

theorem decide_ignores_row_order_witness:
  "\<exists>d'. decide (with_rows outcome_table (rev (rows_of outcome_table))) [(''outcome'', PStr ''refused'')] = Inr d' \<and>
        d_then d' = ''propose'' \<and> \<not> d_terminal d' \<and> d_refresh d'"
proof -
  have "decide outcome_table [(''outcome'', PStr ''refused'')]
      = Inr \<lparr>d_then = ''propose'', d_terminal = False, d_row = 1, d_refresh = True\<rparr>" by code_simp
  from decide_ignores_row_order [OF this, of "rev (rows_of outcome_table)"] show ?thesis by simp
qed

subsection \<open>The build seal\<close>

text \<open>
  \<^verbatim>\<open>tests/test_a_decision_table_is_total_and_unique.py\<close>: what the build requires of every
  table that ships, with the seal's own walk of the declared input space (\<open>_inputs\<close>) and its own
  matcher (\<open>_matching\<close>); and \<open>row_refreshes\<close> of every shipped row, which the build reads by the
  runtime's function (\<^verbatim>\<open>tests/test_a_return_to_proposed_reads_the_newest_picture.py\<close>).
\<close>

definition domain_of_table :: "pydict \<Rightarrow> pydict" where
  "domain_of_table table = dict_or_nil (dget table ''domain'')"

definition declared_values :: "pydict \<Rightarrow> pyval \<Rightarrow> pyval list" where
  "declared_values domain attr = (case attr of PStr a \<Rightarrow> list_or_nil (dget domain a) | _ \<Rightarrow> [])"

definition dict_of_pairs :: "(string \<times> pyval) list \<Rightarrow> pydict \<Rightarrow> pydict" where
  "dict_of_pairs ps d = fold (\<lambda>p. AList.update (fst p) (snd p)) ps d"

definition seal_inputs :: "pydict \<Rightarrow> pydict list" where
  "seal_inputs table = (let attrs = list_or_nil (dget table ''matches'') in
     map (\<lambda>combo. dict_of_pairs (zip (map str_or_nil attrs) combo) [])
       (product_lists (map (declared_values (domain_of_table table)) attrs)))"

definition seal_when :: "pyval \<Rightarrow> pydict" where
  "seal_when row = dict_or_nil (dget (dict_or_nil row) ''when'')"

fun seal_matching :: "nat \<Rightarrow> pydict \<Rightarrow> pyval list \<Rightarrow> nat list" where
  "seal_matching i inp [] = []"
| "seal_matching i inp (row # rows) =
     (if list_all (\<lambda>(k, v). py_eq (dget inp k) v) (seal_when row) then i # seal_matching (Suc i) inp rows
      else seal_matching (Suc i) inp rows)"

definition seal_declares :: "pydict \<Rightarrow> bool" where
  "seal_declares table \<longleftrightarrow> truthy (dget table ''decision'') \<and> list_or_nil (dget table ''matches'') \<noteq> [] \<and>
     list_all (\<lambda>attr. declared_values (domain_of_table table) attr \<noteq> []) (list_or_nil (dget table ''matches'')) \<and>
     rows_of table \<noteq> []"

definition seal_rows :: "pydict \<Rightarrow> bool" where
  "seal_rows table \<longleftrightarrow> list_all (\<lambda>row.
     list_all (\<lambda>(k, v). PStr k \<in> set (list_or_nil (dget table ''matches'')) \<and>
       py_in v (declared_values (domain_of_table table) (PStr k))) (seal_when row) \<and>
     truthy (dget (dict_or_nil row) ''then'')) (rows_of table)"

definition seal_total :: "pydict \<Rightarrow> bool" where
  "seal_total table \<longleftrightarrow> list_all (\<lambda>inp. seal_matching 0 inp (rows_of table) \<noteq> []) (seal_inputs table)"

definition seal_unique :: "pydict \<Rightarrow> bool" where
  "seal_unique table \<longleftrightarrow> list_all (\<lambda>inp. length (seal_matching 0 inp (rows_of table)) \<le> 1) (seal_inputs table)"

definition seal_refreshes :: "pydict \<Rightarrow> bool" where
  "seal_refreshes table \<longleftrightarrow> list_all (\<lambda>i. ok (row_refreshes table i)) [0..<length (rows_of table)]"

definition sealed :: "pydict \<Rightarrow> bool" where
  "sealed table \<longleftrightarrow> seal_declares table \<and> seal_rows table \<and> seal_total table \<and> seal_unique table \<and> seal_refreshes table"

lemma seal_matching_enumerate:
  "seal_matching n inp rows = map fst (filter (\<lambda>p. row_matches inp (snd p)) (enumerate n rows))"
  by (induction rows arbitrary: n) (simp_all add: row_matches_def seal_when_def case_prod_unfold)

lemma seal_matching_hits: "seal_matching 0 inp rows = hits inp rows"
proof -
  have "map fst (filter (\<lambda>p. P (snd p)) (enumerate 0 xs)) = filter (\<lambda>i. P (xs ! i)) [0..<length xs]" for P :: "pyval \<Rightarrow> bool" and xs
  proof (induction xs rule: rev_induct)
    case (snoc x xs)
    have "filter (\<lambda>i. P ((xs @ [x]) ! i)) [0..<length xs] = filter (\<lambda>i. P (xs ! i)) [0..<length xs]"
      by (rule filter_cong) (auto simp: nth_append)
    with snoc show ?case by (simp add: enumerate_append_eq)
  qed simp
  then show ?thesis by (simp add: seal_matching_enumerate hits_def)
qed

subsection \<open>The build seal proves the runtime total\<close>

text \<open>Facts that say, for each matched attribute, a value equal to a declared one.\<close>

definition in_domain :: "pydict \<Rightarrow> pydict \<Rightarrow> bool" where
  "in_domain table facts = list_all (\<lambda>attr. case attr of
       PStr a \<Rightarrow> (case map_of facts a of None \<Rightarrow> False
          | Some v \<Rightarrow> scalar v \<and> py_in v (list_or_nil (dget (domain_of_table table) a)))
     | _ \<Rightarrow> True) (list_or_nil (dget table ''matches''))"

definition same_inputs :: "pydict \<Rightarrow> pydict \<Rightarrow> bool" where
  "same_inputs x y \<longleftrightarrow>
     (\<forall>k. rel_option (\<lambda>v w. scalar v \<and> scalar w \<and> py_eq v w) (map_of x k) (map_of y k))"

lemma same_inputs_update:
  "same_inputs x y \<Longrightarrow> scalar v \<Longrightarrow> scalar w \<Longrightarrow> py_eq v w \<Longrightarrow>
   same_inputs (AList.update a v x) (AList.update a w y)"
  by (simp add: same_inputs_def update_conv')

lemma same_inputs_rows:
  assumes "same_inputs x y"
  shows "row_matches x row = row_matches y row"
proof -
  have "py_eq (dget x k) v = py_eq (dget y k) v" for k v
    using assms [unfolded same_inputs_def, rule_format, of k]
    by (cases "map_of x k"; cases "map_of y k") (auto simp: dget_def dest: py_eq_cong [of _ _ v])
  then show ?thesis by (simp add: row_matches_def)
qed

lemma same_inputs_hits: "same_inputs x y \<Longrightarrow> hits x rows = hits y rows"
  by (simp add: hits_def same_inputs_rows)

lemma gather_assignment:
  assumes "list_all (\<lambda>attr. declared_values dmn attr \<noteq> [] \<and> list_all scalar (declared_values dmn attr)) matches"
    and "list_all (\<lambda>attr. case attr of PStr a \<Rightarrow> (case map_of facts a of None \<Rightarrow> False
          | Some v \<Rightarrow> scalar v \<and> py_in v (list_or_nil (dget dmn a))) | _ \<Rightarrow> True) matches"
    and "same_inputs x y"
  shows "\<exists>inp. gather dmn facts matches x = Inr inp \<and>
           (\<exists>combo \<in> set (product_lists (map (declared_values dmn) matches)).
              same_inputs inp (dict_of_pairs (zip (map str_or_nil matches) combo) y))"
  using assms
proof (induction matches arbitrary: x y)
  case Nil
  then show ?case by (simp add: dict_of_pairs_def)
next
  case (Cons attr rest)
  from Cons.prems(1) obtain a where a: "attr = PStr a"
    by (auto simp: declared_values_def split: pyval.splits)
  with Cons.prems(2) obtain v where v: "map_of facts a = Some v" "scalar v"
    "py_in v (list_or_nil (dget dmn a))"
    by (auto split: option.splits)
  from v(3) obtain w where w: "w \<in> set (list_or_nil (dget dmn a))" "py_eq v w"
    by (auto simp: py_in_def list_ex_iff)
  from Cons.prems(1) a w(1) have "scalar w" by (auto simp: list_all_iff declared_values_def)
  from same_inputs_update [OF Cons.prems(3) v(2) this w(2), of a]
  have "\<exists>inp. gather dmn facts rest (AList.update a v x) = Inr inp \<and>
      (\<exists>combo \<in> set (product_lists (map (declared_values dmn) rest)).
         same_inputs inp (dict_of_pairs (zip (map str_or_nil rest) combo) (AList.update a w y)))"
    using Cons.prems(1,2) by (intro Cons.IH) auto
  then obtain inp combo where inp: "gather dmn facts rest (AList.update a v x) = Inr inp"
    and combo: "combo \<in> set (product_lists (map (declared_values dmn) rest))"
      "same_inputs inp (dict_of_pairs (zip (map str_or_nil rest) combo) (AList.update a w y))" by blast
  from a v inp have "gather dmn facts (attr # rest) x = Inr inp" by (auto simp: Let_def)
  moreover have "w # combo \<in> set (product_lists (map (declared_values dmn) (attr # rest)))"
    using w(1) combo(1) a by (auto simp: declared_values_def)
  moreover have "same_inputs inp (dict_of_pairs (zip (map str_or_nil (attr # rest)) (w # combo)) y)"
    using combo(2) a by (simp add: dict_of_pairs_def str_or_nil_def)
  ultimately show ?case by blast
qed

text \<open>
  C18. The build seal is sound for the runtime. Take a table that passes the seal, by the seal's own
  walk and matcher, and declares scalar values; and an event that gives each matched attribute a
  scalar equal to a declared value, whatever else it carries. Then the input the seal walked for
  those values has exactly one row by the seal's matcher, and that row is the one the runtime
  settles on: it answers the row's \<open>then\<close>, or refuses that very row where its \<open>then\<close> is not
  a string, which the seal does not require.
\<close>

theorem sealed_table_decides:
  assumes "sealed table" and "in_domain table facts"
    and "\<forall>attr \<in> set (list_or_nil (dget table ''matches'')). list_all scalar (declared_values (domain_of_table table) attr)"
  shows "\<exists>inp i. inp \<in> set (seal_inputs table) \<and>
     (\<forall>a. PStr a \<in> set (list_or_nil (dget table ''matches'')) \<longrightarrow> py_eq (dget facts a) (dget inp a)) \<and>
     seal_matching 0 inp (rows_of table) = [i] \<and>
     (case dget (dict_or_nil (rows_of table ! i)) ''then'' of
        PStr t \<Rightarrow> \<exists>d. decide table facts = Inr d \<and> d_row d = i \<and> d_then d = t
      | _ \<Rightarrow> decide table facts = Inl (NoThen i))"
proof -
  let ?m = "list_or_nil (dget table ''matches'')"
  let ?dmn = "domain_of_table table"
  from assms(1) have m: "?m \<noteq> []" and dec: "list_all (\<lambda>attr. declared_values ?dmn attr \<noteq> []) ?m"
    by (simp_all add: sealed_def seal_declares_def)
  have "same_inputs [] []" by (simp add: same_inputs_def)
  with dec assms(2,3) gather_assignment [of ?dmn ?m facts "[]" "[]"]
  obtain inp0 combo where inp0: "gather ?dmn facts ?m [] = Inr inp0"
    and combo: "combo \<in> set (product_lists (map (declared_values ?dmn) ?m))"
      "same_inputs inp0 (dict_of_pairs (zip (map str_or_nil ?m) combo) [])"
    by (auto simp: in_domain_def list_all_iff)
  define inp where "inp = dict_of_pairs (zip (map str_or_nil ?m) combo) []"
  have inp: "inp \<in> set (seal_inputs table)" using combo(1) by (auto simp: seal_inputs_def inp_def Let_def)
  from combo(2) have same: "same_inputs inp0 inp" by (simp add: inp_def)
  have eq: "py_eq (dget facts a) (dget inp a)" if "PStr a \<in> set ?m" for a
  proof -
    from assms(2) that obtain v where v: "map_of facts a = Some v"
      by (force simp: in_domain_def list_all_iff split: option.splits)
    with gather_lookup [OF inp0, of a] that have "map_of inp0 a = Some v" by simp
    with same v show ?thesis
      by (auto simp: same_inputs_def dget_def dest!: spec [of _ a] elim!: option_rel_Some1 [THEN iffD1, elim_format])
  qed
  from assms(1) inp have "seal_matching 0 inp (rows_of table) \<noteq> []" "length (seal_matching 0 inp (rows_of table)) \<le> 1"
    by (auto simp: sealed_def seal_total_def seal_unique_def list_all_iff)
  then obtain i where i: "seal_matching 0 inp (rows_of table) = [i]"
    by (cases "seal_matching 0 inp (rows_of table)") auto
  then have hit: "hits inp0 (rows_of table) = [i]"
    using same_inputs_hits [OF same] by (simp add: seal_matching_hits)
  then have len: "i < length (rows_of table)" using hits_set [of i inp0 "rows_of table"] by simp
  with assms(1) have then_: "truthy (dget (dict_or_nil (rows_of table ! i)) ''then'')"
    and refr: "ok (row_refreshes table i)"
    by (auto simp: sealed_def seal_rows_def seal_refreshes_def list_all_length)
  from m inp0 hit have d: "decide table facts = settle_row table i"
    by (simp add: decide_def domain_of_table_def [symmetric] bind_r_def)
  have "case dget (dict_or_nil (rows_of table ! i)) ''then'' of
        PStr t \<Rightarrow> \<exists>d. decide table facts = Inr d \<and> d_row d = i \<and> d_then d = t
      | _ \<Rightarrow> decide table facts = Inl (NoThen i)"
    using then_ refr unfolding d settle_row_def by (auto simp: ok_iff bind_r_def split: pyval.split)
  with inp eq i show ?thesis by blast
qed

theorem sealed_table_decides_witness:
  "\<exists>d. decide outcome_table [(''asset'', PInt 3), (''outcome'', PStr ''refused'')] = Inr d \<and> d_then d = ''propose''"
proof -
  let ?facts = "[(''asset'', PInt 3), (''outcome'', PStr ''refused'')]"
  have "sealed outcome_table" and "in_domain outcome_table ?facts"
    and "\<forall>attr \<in> set (list_or_nil (dget outcome_table ''matches'')). list_all scalar (declared_values (domain_of_table outcome_table) attr)"
    by code_simp+
  from sealed_table_decides [OF this] obtain inp i where i: "inp \<in> set (seal_inputs outcome_table)"
    "py_eq (dget ?facts ''outcome'') (dget inp ''outcome'')" "seal_matching 0 inp (rows_of outcome_table) = [i]"
    and d: "case dget (dict_or_nil (rows_of outcome_table ! i)) ''then'' of
        PStr t \<Rightarrow> \<exists>d. decide outcome_table ?facts = Inr d \<and> d_row d = i \<and> d_then d = t
      | _ \<Rightarrow> decide outcome_table ?facts = Inl (NoThen i)"
    by (auto simp: outcome_table_def dget_def list_or_nil_def)
  have "list_all (\<lambda>x. py_eq (PStr ''refused'') (dget x ''outcome'') \<longrightarrow> seal_matching 0 x (rows_of outcome_table) = [1])
      (seal_inputs outcome_table)" by code_simp
  with i have "i = 1" by (auto simp: list_all_iff dget_def)
  moreover have "dget (dict_or_nil (rows_of outcome_table ! 1)) ''then'' = PStr ''propose''" by code_simp
  ultimately show ?thesis using d by auto
qed

end
