(* ===== verification/Case_Routing.thy ===== *)
theory Case_Routing
  imports Decision_Table Format_Fingerprint
begin

text \<open>
  \<^verbatim>\<open>agent_fleet/restate_analyst/case_routing.py\<close>: which decision table, and which facts, at the
  two moments a case chooses (at the trigger and when a definition ends), and the chain of
  revisions of the event a case opened on.

  Arguments of the model: \<open>rend\<close> is \<open>str(v)\<close> of a value that is not a string; \<open>digest\<close> is the
  hexadecimal SHA-256 of a value's sorted JSON text; \<open>instant\<close> reads a timestamp with its zone
  (\<open>None\<close>: it does not parse or has no zone); \<open>prov_block\<close> is the \<^verbatim>\<open>iagent-mesh\<close> SDK's
  \<open>ProvenanceBlock.model_validate\<close>. Triggers and tables arrive composed, by name.
\<close>

definition CHILD_SEP :: char where
  "CHILD_SEP = CHR ''~''"

definition RESERVED :: "string list" where
  "RESERVED = [''outcome'', ''outcome_repeated'', ''chosen'']"

record trigger =
  t_name :: string
  t_selection :: string
  t_key :: string
  t_episode :: "string list"
  t_episode_id :: "string option"
  t_requires :: "string list"
  t_carries :: "string list"
  t_refresh :: "string option"

datatype routing_error =
    NoTrigger string
  | RefreshKeyMissing
  | RefreshNotHonoured
  | CaseKeyHasSep
  | ReservedFacts "string list"
  | FactsMissing "string list"
  | CarriesNeedsEvent
  | FactsNotCarried "string list"
  | KeyMismatch
  | TableAbsent string
  | Undecided decision_error
  | SelectsTerminal string
  | ChainedTwice string
  | NoChain string
  | RevisionNotFacts
  | OtherEpisode
  | BadInstant
  | BadProvenance
  | ReceiptsBackwards
  | BlankIdentity
  | NeedsProvenance
  | KeptNotRevision

text \<open>\<open>Trigger._refresh_names_the_key_and_is_not_yet_honoured\<close>: a declared refresh is refused.\<close>

definition refresh_names :: "string \<Rightarrow> string \<Rightarrow> routing_error + unit" where
  "refresh_names url key =
     (if substring_of (''{'' @ key @ ''}'') url then Inr () else Inl RefreshKeyMissing)"

definition validate_trigger :: "trigger \<Rightarrow> routing_error + trigger" where
  "validate_trigger t = (case t_refresh t of
     None \<Rightarrow> Inr t
   | Some url \<Rightarrow> bind_r (refresh_names url (t_key t)) (\<lambda>_. Inl RefreshNotHonoured))"

definition load_trigger :: "(string \<times> trigger) list \<Rightarrow> string \<Rightarrow> routing_error + trigger" where
  "load_trigger triggers name = (case map_of triggers name of
     None \<Rightarrow> Inl (NoTrigger name) | Some t \<Rightarrow> Inr t)"

subsection \<open>Facts\<close>

definition update_all :: "pydict \<Rightarrow> pydict \<Rightarrow> pydict" where
  "update_all new out = fold (\<lambda>p. AList.update (fst p) (snd p)) new out"

definition dotted :: "string \<Rightarrow> string \<Rightarrow> string" where
  "dotted prefix k = (if prefix = [] then k else prefix @ ''.'' @ k)"

fun flatten_into :: "string \<Rightarrow> pydict \<Rightarrow> pydict \<Rightarrow> pydict" where
  "flatten_into prefix [] out = out"
| "flatten_into prefix ((k, PDict d) # rest) out =
     flatten_into prefix rest (update_all (flatten_into (dotted prefix k) d []) out)"
| "flatten_into prefix ((k, PList xs) # rest) out = flatten_into prefix rest out"
| "flatten_into prefix ((k, v) # rest) out =
     flatten_into prefix rest (AList.update (dotted prefix k) v out)"

definition flatten :: "pyval \<Rightarrow> string \<Rightarrow> pydict" where
  "flatten obj prefix = (case obj of PDict d \<Rightarrow> flatten_into prefix d [] | _ \<Rightarrow> [])"

fun carried_segs :: "pyval \<Rightarrow> string list \<Rightarrow> bool" where
  "carried_segs node [] = True"
| "carried_segs node (seg # segs) = (case node of
     PDict d \<Rightarrow> (case map_of d seg of None \<Rightarrow> False | Some v \<Rightarrow> carried_segs v segs)
   | _ \<Rightarrow> False)"

definition carried :: "pydict \<Rightarrow> string \<Rightarrow> bool" where
  "carried facts path = carried_segs (PDict facts) (py_split (CHR ''.'') path)"

definition lacking :: "pydict \<Rightarrow> string \<Rightarrow> bool" where
  "lacking flat p = (dget flat p = PNone \<or> dget flat p = PStr [])"

definition check_intake ::
  "(pyval \<Rightarrow> string) \<Rightarrow> trigger \<Rightarrow> pydict \<Rightarrow> string \<Rightarrow> pydict option \<Rightarrow> routing_error + unit" where
  "check_intake rend trig flat case_key facts =
     bind_r (require_r (CHILD_SEP \<notin> set case_key) CaseKeyHasSep) (\<lambda>_.
     (let clash = filter (\<lambda>k. before_first (CHR ''.'') k \<in> set RESERVED) (map fst flat) in
      bind_r (require_r (clash = []) (ReservedFacts (sort clash))) (\<lambda>_.
     (let missing = filter (lacking flat) (t_key trig # t_episode trig @ t_requires trig) in
      bind_r (require_r (missing = []) (FactsMissing missing)) (\<lambda>_.
      bind_r (if t_carries trig = [] then Inr ()
              else (case facts of
                None \<Rightarrow> Inl CarriesNeedsEvent
              | Some event \<Rightarrow>
                  (let absent = filter (\<lambda>p. \<not> carried event p) (t_carries trig) in
                   require_r (absent = []) (FactsNotCarried absent)))) (\<lambda>_.
      require_r (str_of rend (dget flat (t_key trig)) = case_key) KeyMismatch))))))"

definition episode_key :: "(pyval \<Rightarrow> string) \<Rightarrow> trigger \<Rightarrow> pydict \<Rightarrow> string option" where
  "episode_key digest trig flat =
     (if t_episode trig = [] then None
      else Some (''ep-'' @ take 32 (digest
        (PList [PStr (t_name trig), PList (map (dget flat) (t_episode trig))]))))"

record transition =
  tr_from :: "string option"
  tr_outcome :: pyval
  tr_to :: string
  tr_by :: pyval
  tr_at :: string
  tr_reason :: pyval
  tr_extra :: pydict

definition lookup_step :: "pydict \<Rightarrow> string \<Rightarrow> pyval" where
  "lookup_step envelope definition_id =
     (let per_def = dict_or_nil (dget (dict_or_nil (dget envelope ''outputs'')) definition_id)
      in (case dget envelope ''outcome_step_id'' of PStr step \<Rightarrow> dget per_def step | _ \<Rightarrow> PNone))"

definition termination_facts :: "pydict \<Rightarrow> pydict \<Rightarrow> string \<Rightarrow> transition list \<Rightarrow> pydict" where
  "termination_facts trigger_flat envelope definition_id transitions =
     (let outcome = dget envelope ''outcome'';
          repeated = list_ex (\<lambda>t. tr_from t = Some definition_id \<and> py_eq (tr_outcome t) outcome) transitions;
          facts = AList.update ''outcome_repeated'' (PBool repeated)
                    (AList.update ''outcome'' outcome trigger_flat);
          chosen = dget (dict_or_nil (lookup_step envelope definition_id)) ''chosen''
      in (case chosen of PDict c \<Rightarrow> update_all (flatten chosen ''chosen'') facts | _ \<Rightarrow> facts))"

subsection \<open>The two choices\<close>

record route =
  r_then :: string
  r_terminal :: bool
  r_row :: nat
  r_table :: pyval
  r_refresh :: bool

type_synonym tables = "(string \<times> pydict) list"

definition load_table :: "tables \<Rightarrow> string \<Rightarrow> routing_error + pydict" where
  "load_table tables name = (case map_of tables name of
     None \<Rightarrow> Inl (TableAbsent name) | Some t \<Rightarrow> Inr t)"

definition decided :: "decision_error + decision \<Rightarrow> routing_error + decision" where
  "decided r = (case r of Inl e \<Rightarrow> Inl (Undecided e) | Inr d \<Rightarrow> Inr d)"

definition select :: "tables \<Rightarrow> trigger \<Rightarrow> pydict \<Rightarrow> routing_error + route" where
  "select tables trig flat =
     bind_r (load_table tables (t_selection trig)) (\<lambda>table.
     bind_r (decided (decide table flat)) (\<lambda>d.
       if d_terminal d then Inl (SelectsTerminal (d_then d))
       else Inr \<lparr>r_then = d_then d, r_terminal = False, r_row = d_row d,
                 r_table = PStr (t_selection trig), r_refresh = False\<rparr>))"

fun index_after :: "(pyval \<Rightarrow> string) \<Rightarrow> tables \<Rightarrow> tables \<Rightarrow> routing_error + tables" where
  "index_after rend [] out = Inr out"
| "index_after rend ((name, t) # rest) out = (let after = dget t ''after'' in
     if \<not> truthy after then index_after rend rest out
     else if list_ex (\<lambda>p. after = PStr (fst p)) out then Inl (ChainedTwice name)
     else index_after rend rest (AList.update (str_of rend after) t out))"

definition chaining_index :: "(pyval \<Rightarrow> string) \<Rightarrow> tables \<Rightarrow> routing_error + tables" where
  "chaining_index rend tables = index_after rend (sort_key fst tables) []"

definition chain :: "(pyval \<Rightarrow> string) \<Rightarrow> tables \<Rightarrow> string \<Rightarrow> pydict \<Rightarrow> routing_error + route" where
  "chain rend tables definition_id facts =
     bind_r (chaining_index rend tables) (\<lambda>index.
       (case map_of index definition_id of
          None \<Rightarrow> Inl (NoChain definition_id)
        | Some table \<Rightarrow> bind_r (decided (decide table facts)) (\<lambda>d.
            Inr \<lparr>r_then = d_then d, r_terminal = d_terminal d, r_row = d_row d,
                 r_table = dget table ''decision'', r_refresh = d_refresh d\<rparr>)))"


text \<open>What each verb of an await leads to, read from the table that chains after it.\<close>

datatype consequence =
    Leads string "pyval list"
  | Depends string "(pydict \<times> pyval) list"

definition when_of :: "pyval \<Rightarrow> pydict" where
  "when_of row = dict_or_nil (dget (dict_or_nil row) ''when'')"

definition rows_for_verb :: "pydict \<Rightarrow> string \<Rightarrow> pyval list" where
  "rows_for_verb table v =
     (let named = filter (\<lambda>r. py_eq (dget (when_of r) ''outcome'') (PStr v)) (rows_of table)
      in if named \<noteq> [] then named
         else filter (\<lambda>r. \<not> has_key (when_of r) ''outcome'') (rows_of table))"

definition consequence_of :: "pydict \<Rightarrow> pydict \<Rightarrow> string \<Rightarrow> routing_error + consequence" where
  "consequence_of table facts v =
     (let rows = rows_for_verb table v;
          thens = map (\<lambda>r. dget (dict_or_nil r) ''then'') rows;
          others = filter (\<lambda>k. k \<noteq> ''outcome'') (concat (map (\<lambda>r. map fst (when_of r)) rows))
      in if rows = [] then Inr (Leads v [])
         else if list_all (\<lambda>t. py_eq t (hd thens)) thens then Inr (Leads v [hd thens])
         else if list_all (\<lambda>k. carried facts k \<or> has_key facts k) others then
           bind_r (decided (decide table (AList.update ''outcome'' (PStr v) facts)))
             (\<lambda>d. Inr (Leads v [PStr (d_then d)]))
         else Inr (Depends v (map (\<lambda>r. (filter (\<lambda>p. fst p \<noteq> ''outcome'') (when_of r),
                                        dget (dict_or_nil r) ''then'')) rows)))"

definition verb_consequences ::
  "(pyval \<Rightarrow> string) \<Rightarrow> tables \<Rightarrow> string \<Rightarrow> string list \<Rightarrow> pydict \<Rightarrow> routing_error + consequence list" where
  "verb_consequences rend tables definition_id verbs facts =
     bind_r (chaining_index rend tables) (\<lambda>index.
       (case map_of index definition_id of
          None \<Rightarrow> Inr []
        | Some table \<Rightarrow>
            if \<not> py_member (PStr ''outcome'') (dget table ''matches'') then Inr []
            else map_r (consequence_of table facts) verbs))"

subsection \<open>Input revisions\<close>

record revision =
  rev_no :: int
  rev_received :: string
  rev_provenance :: pyval
  rev_supersedes :: "int option"

definition check_revision ::
  "(pyval \<Rightarrow> string) \<Rightarrow> (pyval \<Rightarrow> string) \<Rightarrow> trigger \<Rightarrow> pyval \<Rightarrow> string \<Rightarrow> string option
     \<Rightarrow> routing_error + pydict" where
  "check_revision rend digest trig facts case_key episode = (case facts of
     PDict event \<Rightarrow>
       (let flat = flatten facts [] in
        bind_r (check_intake rend trig flat case_key (Some event)) (\<lambda>_.
          if episode_key digest trig flat \<noteq> episode then Inl OtherEpisode else Inr flat))
   | _ \<Rightarrow> Inl RevisionNotFacts)"

definition instant_of :: "(string \<Rightarrow> int option) \<Rightarrow> pyval \<Rightarrow> routing_error + int" where
  "instant_of instant stamp = (case stamp of
     PStr s \<Rightarrow> (case instant s of None \<Rightarrow> Inl BadInstant | Some n \<Rightarrow> Inr n)
   | _ \<Rightarrow> Inl BadInstant)"

definition provenance_block :: "(pyval \<Rightarrow> pyval option) \<Rightarrow> pyval \<Rightarrow> routing_error + pyval" where
  "provenance_block prov_block block = (case prov_block block of
     None \<Rightarrow> Inl BadProvenance | Some b \<Rightarrow> Inr b)"

definition first_revision ::
  "(string \<Rightarrow> int option) \<Rightarrow> (pyval \<Rightarrow> pyval option) \<Rightarrow> pyval \<Rightarrow> pyval \<Rightarrow> routing_error + revision" where
  "first_revision instant prov_block received_at prov =
     bind_r (instant_of instant received_at) (\<lambda>_.
     bind_r (provenance_block prov_block prov) (\<lambda>b.
       Inr \<lparr>rev_no = 1, rev_received = str_or_nil received_at, rev_provenance = b,
             rev_supersedes = None\<rparr>))"

definition next_revision ::
  "(string \<Rightarrow> int option) \<Rightarrow> (pyval \<Rightarrow> pyval option) \<Rightarrow> revision \<Rightarrow> pyval \<Rightarrow> pyval
     \<Rightarrow> routing_error + revision" where
  "next_revision instant prov_block head received_at prov =
     bind_r (instant_of instant received_at) (\<lambda>t.
     bind_r (instant_of instant (PStr (rev_received head))) (\<lambda>t0.
       if t < t0 then Inl ReceiptsBackwards
       else bind_r (provenance_block prov_block prov) (\<lambda>b.
         Inr \<lparr>rev_no = rev_no head + 1, rev_received = str_or_nil received_at, rev_provenance = b,
               rev_supersedes = Some (rev_no head)\<rparr>)))"

text \<open>\<open>kept\<close> is what the episode kept: the revision and the event's facts.\<close>

definition newer_revision :: "int \<Rightarrow> (revision \<times> pydict) option \<Rightarrow> (revision \<times> pydict) option" where
  "newer_revision current_rev kept = (case kept of
     None \<Rightarrow> None
   | Some (rv, facts) \<Rightarrow> if rev_no rv \<le> current_rev then None else Some (rv, facts))"

text \<open>\<open>s.replace(p, by)\<close> for a pattern that is not empty.\<close>

function replace_all :: "string \<Rightarrow> string \<Rightarrow> string \<Rightarrow> string" where
  "replace_all p new s =
     (if p = [] \<or> length s < length p then s
      else if starts_with p s then new @ replace_all p new (drop (length p) s)
      else hd s # replace_all p new (tl s))"
  by pat_completeness auto
termination
  by (relation "measure (\<lambda>(p, b, s). length s)") (auto simp flip: length_greater_0_conv)

declare replace_all.simps [simp del]

definition refresh_url ::
  "(pyval \<Rightarrow> string) \<Rightarrow> string \<Rightarrow> string \<Rightarrow> pyval \<Rightarrow> routing_error + string" where
  "refresh_url rend url key identity_value =
     bind_r (refresh_names url key) (\<lambda>_.
     (let value = (if identity_value = PNone then [] else str_of rend identity_value) in
      if py_strip value = [] then Inl BlankIdentity
      else Inr (replace_all (''{'' @ key @ ''}'') value url)))"


subsection \<open>Facts a table reads\<close>

lemma map_of_update_all: "map_of (update_all new out) = map_of out ++ map_of (rev new)"
proof (induction new arbitrary: out)
  case Nil
  then show ?case by (simp add: update_all_def)
next
  case (Cons p new)
  then show ?case
    by (cases p) (auto simp: update_all_def update_conv' map_add_def fun_eq_iff split: option.split)
qed

lemma keys_update_all: "fst ` set (update_all new out) = fst ` set new \<union> fst ` set out"
proof -
  have "dom (map_of (update_all new out)) = dom (map_of out) \<union> dom (map_of (rev new))"
    by (simp add: map_of_update_all Un_commute)
  then show ?thesis by (auto simp: dom_map_of_conv_image_fst)
qed

lemma set_update_all: "set (update_all new out) \<subseteq> set new \<union> set out"
proof (induction new arbitrary: out)
  case Nil
  then show ?case by (simp add: update_all_def)
next
  case (Cons p new)
  have "set (update_all (p # new) out) = set (update_all new (AList.update (fst p) (snd p) out))"
    by (simp add: update_all_def)
  also have "\<dots> \<subseteq> set new \<union> set (AList.update (fst p) (snd p) out)" by (rule Cons.IH)
  also have "\<dots> \<subseteq> set new \<union> insert p (set out)"
    using set_update_subset [of "fst p" "snd p" out] by auto
  finally show ?case by auto
qed

lemma flatten_into_scalar:
  "\<forall>(k, v) \<in> set out. scalar v \<Longrightarrow> \<forall>(k, v) \<in> set (flatten_into prefix d out). scalar v"
proof (induction prefix d out rule: flatten_into.induct)
  case (2 prefix k d rest out)
  have "\<forall>(k, v) \<in> set (flatten_into (dotted prefix k) d []). scalar v"
    using "2.IH"(1) by simp
  with "2.prems" have "\<forall>(k, v) \<in> set (update_all (flatten_into (dotted prefix k) d []) out). scalar v"
    using set_update_all by fast
  then show ?case using "2.IH"(2) by simp
qed (simp; use set_update_subset in \<open>fastforce simp: scalar_def\<close>)+

lemma flatten_scalar: "map_of (flatten obj prefix) k = Some v \<Longrightarrow> scalar v"
  using flatten_into_scalar [of "[]" prefix]
  by (auto simp: flatten_def split: pyval.splits dest!: map_of_SomeD)

lemma flatten_into_keys:
  "prefix \<noteq> [] \<Longrightarrow> k \<in> fst ` set (flatten_into prefix d out) \<Longrightarrow>
   k \<in> fst ` set out \<or> (\<exists>x. k = prefix @ ''.'' @ x)"
proof (induction prefix d out rule: flatten_into.induct)
  case (2 prefix k' d rest out)
  have ne: "dotted prefix k' \<noteq> []" using "2.prems" by (simp add: dotted_def)
  from "2.prems" have "k \<in> fst ` set (update_all (flatten_into (dotted prefix k') d []) out) \<or>
      (\<exists>x. k = prefix @ ''.'' @ x)"
    by (intro "2.IH"(2)) simp_all
  with "2.IH"(1) [OF ne] "2.prems"(1) show ?case
    by (auto simp: keys_update_all dotted_def)
qed (auto simp: dom_update dotted_def)

lemma flatten_keys:
  "prefix \<noteq> [] \<Longrightarrow> k \<in> fst ` set (flatten obj prefix) \<Longrightarrow> \<exists>x. k = prefix @ ''.'' @ x"
  using flatten_into_keys [of prefix k _ "[]"] by (auto simp: flatten_def split: pyval.splits)

lemma before_first_segment: "c \<notin> set a \<Longrightarrow> before_first c (a @ c # b) = a"
  by (induction a) (auto simp: before_first_def)

lemma check_intake_Inr:
  "check_intake rend trig flat case_key facts = Inr () \<longleftrightarrow>
     CHILD_SEP \<notin> set case_key \<and>
     (\<forall>k \<in> fst ` set flat. before_first (CHR ''.'') k \<notin> set RESERVED) \<and>
     (\<forall>p \<in> set (t_key trig # t_episode trig @ t_requires trig). \<not> lacking flat p) \<and>
     (\<forall>p \<in> set (t_carries trig). \<exists>event. facts = Some event \<and> carried event p) \<and>
     str_of rend (dget flat (t_key trig)) = case_key"
  by (cases facts; cases "t_carries trig")
    (auto simp: check_intake_def Let_def bind_r_Inr filter_empty_conv)

lemma termination_facts_eq:
  "termination_facts flat env did trs =
     update_all (flatten (dget (dict_or_nil (lookup_step env did)) ''chosen'') ''chosen'')
       (AList.update ''outcome_repeated''
          (PBool (list_ex (\<lambda>t. tr_from t = Some did \<and> py_eq (tr_outcome t) (dget env ''outcome'')) trs))
          (AList.update ''outcome'' (dget env ''outcome'') flat))"
  unfolding termination_facts_def Let_def
  by (cases "dget (dict_or_nil (lookup_step env did)) ''chosen''")
    (simp_all add: flatten_def update_all_def)

lemma termination_outcome:
  "dget (termination_facts flat env did trs) ''outcome'' = dget env ''outcome''"
  "dget (termination_facts flat env did trs) ''outcome_repeated'' =
     PBool (list_ex (\<lambda>t. tr_from t = Some did \<and> py_eq (tr_outcome t) (dget env ''outcome'')) trs)"
proof -
  have no: "map_of (rev (flatten c ''chosen'')) k = None" if "k = ''outcome'' \<or> k = ''outcome_repeated''"
    for c k
  proof -
    have "k \<notin> fst ` set (flatten c ''chosen'')"
    proof
      assume "k \<in> fst ` set (flatten c ''chosen'')"
      from flatten_keys [OF _ this] obtain x where "k = ''chosen'' @ ''.'' @ x" by blast
      with that show False by auto
    qed
    then show ?thesis by (simp add: map_of_eq_None_iff)
  qed
  show "dget (termination_facts flat env did trs) ''outcome'' = dget env ''outcome''"
    and "dget (termination_facts flat env did trs) ''outcome_repeated'' =
     PBool (list_ex (\<lambda>t. tr_from t = Some did \<and> py_eq (tr_outcome t) (dget env ''outcome'')) trs)"
    by (simp_all add: termination_facts_eq dget_def [of "update_all _ _"] map_of_update_all
        map_add_def no update_conv')
qed

text \<open>
  No event can stand in for an outcome: once intake admitted an event, the \<open>outcome\<close>,
  \<open>outcome_repeated\<close> and every \<open>chosen.*\<close> fact a chaining table reads are the ones the runner
  measured when the definition ended, never a fact of the event.
\<close>

theorem outcome_is_not_the_events:
  assumes "check_intake rend trig flat case_key facts = Inr ()"
  shows "dget (termination_facts flat env did trs) ''outcome'' = dget env ''outcome'' \<and>
     dget (termination_facts flat env did trs) ''outcome_repeated'' =
       PBool (list_ex (\<lambda>t. tr_from t = Some did \<and> py_eq (tr_outcome t) (dget env ''outcome'')) trs) \<and>
     map_of (termination_facts flat env did trs) (''chosen.'' @ k) =
       map_of (rev (flatten (dget (dict_or_nil (lookup_step env did)) ''chosen'') ''chosen'')) (''chosen.'' @ k)"
proof -
  have "before_first (CHR ''.'') (''chosen.'' @ k) = ''chosen''"
    using before_first_segment [of "CHR ''.''" "''chosen''" k] by simp
  then have "map_of flat (''chosen.'' @ k) = None"
    using assms by (auto simp: check_intake_Inr map_of_eq_None_iff RESERVED_def)
  then have "map_of (termination_facts flat env did trs) (''chosen.'' @ k) =
       map_of (rev (flatten (dget (dict_or_nil (lookup_step env did)) ''chosen'') ''chosen'')) (''chosen.'' @ k)"
    by (simp add: termination_facts_eq map_of_update_all map_add_def update_conv' split: option.split)
  then show ?thesis using termination_outcome [of flat env did trs] by simp
qed

definition fault_trigger :: trigger where
  "fault_trigger = \<lparr>t_name = ''fault'', t_selection = ''fault_selection'', t_key = ''event_id'',
     t_episode = [''asset''], t_episode_id = None, t_requires = [], t_carries = [''picture.spare''],
     t_refresh = None\<rparr>"

definition fault_event :: pydict where
  "fault_event = [(''event_id'', PStr ''e1''), (''asset'', PStr ''pump''),
     (''picture'', PDict [(''spare'', PNone)])]"

lemma fault_intake: "check_intake (\<lambda>_. []) fault_trigger (flatten (PDict fault_event) []) ''e1''
    (Some fault_event) = Inr ()"
  by code_simp

theorem outcome_is_not_the_events_witness:
  "dget (termination_facts (flatten (PDict fault_event) []) [(''outcome'', PStr ''released'')] ''d'' [])
     ''outcome'' = PStr ''released''"
  using outcome_is_not_the_events [OF fault_intake, of "[(''outcome'', PStr ''released'')]" "''d''" "[]"]
  by (simp add: dget_def)


subsection \<open>The choices\<close>

lemma decided_Inr [simp]: "decided r = Inr d \<longleftrightarrow> r = Inr d"
  by (simp add: decided_def split: sum.split)

lemma decided_simps [simp]: "decided (Inr d) = Inr d" "decided (Inl e) = Inl (Undecided e)"
  by (simp_all add: decided_def)

lemma select_Inr:
  "select tables trig flat = Inr r \<longleftrightarrow> (\<exists>table d. map_of tables (t_selection trig) = Some table \<and>
     decide table flat = Inr d \<and> \<not> d_terminal d \<and>
     r = \<lparr>r_then = d_then d, r_terminal = False, r_row = d_row d, r_table = PStr (t_selection trig),
          r_refresh = False\<rparr>)"
  by (auto simp: select_def load_table_def bind_r_Inr split: option.splits if_splits)

lemma chain_Inr:
  "chain rend tables did facts = Inr r \<longleftrightarrow> (\<exists>index table d. chaining_index rend tables = Inr index \<and>
     map_of index did = Some table \<and> decide table facts = Inr d \<and>
     r = \<lparr>r_then = d_then d, r_terminal = d_terminal d, r_row = d_row d,
          r_table = dget table ''decision'', r_refresh = d_refresh d\<rparr>)"
  by (auto simp: chain_def bind_r_Inr split: option.splits)

text \<open>A table that says what it follows says it as a string.\<close>

definition afters_are_names :: "tables \<Rightarrow> bool" where
  "afters_are_names tables = list_all (\<lambda>p. \<not> truthy (dget (snd p) ''after'') \<or> is_str (dget (snd p) ''after'')) tables"

definition afters :: "tables \<Rightarrow> tables" where
  "afters ts = map (\<lambda>p. (str_or_nil (dget (snd p) ''after''), snd p))
     (filter (\<lambda>p. truthy (dget (snd p) ''after'')) ts)"

lemma index_after_eq:
  assumes "index_after rend ts out = Inr index" and "afters_are_names ts" and "distinct (map fst out)"
  shows "index = out @ afters ts \<and> distinct (map fst index)"
  using assms
proof (induction rend ts out rule: index_after.induct)
  case (1 rend out)
  then show ?case by (simp add: afters_def)
next
  case (2 rend nm u rest out)
  show ?case
  proof (cases "truthy (dget u ''after'')")
    case False
    then have "afters ((nm, u) # rest) = afters rest" by (simp add: afters_def)
    moreover have "index = out @ afters rest \<and> distinct (map fst index)"
      using False "2.prems" by (intro "2.IH"(1)) (auto simp: afters_are_names_def Let_def)
    ultimately show ?thesis by metis
  next
    case True
    with "2.prems"(2) obtain a where a: "dget u ''after'' = PStr a"
      by (auto simp: afters_are_names_def is_str_iff)
    with True "2.prems"(1) have fresh: "a \<notin> fst ` set out"
      and rest: "index_after rend rest (out @ [(a, u)]) = Inr index"
      by (auto simp: Let_def str_of_def list_ex_iff image_iff update_fresh split: if_splits)
    have upd: "AList.update (str_of rend (dget u ''after'')) u out = out @ [(a, u)]"
      using a fresh by (simp add: str_of_def update_fresh)
    have "index = AList.update (str_of rend (dget u ''after'')) u out @ afters rest \<and>
        distinct (map fst index)"
    proof (rule "2.IH"(2) [OF refl])
      show "\<not> list_ex (\<lambda>p. dget u ''after'' = PStr (fst p)) out"
        using a fresh by (auto simp: list_ex_iff)
      show "index_after rend rest (AList.update (str_of rend (dget u ''after'')) u out) = Inr index"
        using rest upd by simp
      show "distinct (map fst (AList.update (str_of rend (dget u ''after'')) u out))"
        using "2.prems"(3) fresh upd by simp
    qed (use True "2.prems"(2) in \<open>simp_all add: afters_are_names_def\<close>)
    then have "index = (out @ [(a, u)]) @ afters rest \<and> distinct (map fst index)"
      unfolding upd .
    moreover have "afters ((nm, u) # rest) = (a, u) # afters rest"
      using True a by (simp add: afters_def str_or_nil_def)
    ultimately show ?thesis by (metis append_Cons append_Nil append_assoc)
  qed
qed

lemma afters_are_names_sort: "afters_are_names (sort_key f ts) = afters_are_names ts"
  by (simp add: afters_are_names_def list_all_iff)

lemma set_afters:
  "afters_are_names ts \<Longrightarrow> (did, t) \<in> set (afters ts) \<longleftrightarrow>
     did \<noteq> [] \<and> (\<exists>name. (name, t) \<in> set ts) \<and> dget t ''after'' = PStr did"
  by (force simp: afters_def afters_are_names_def list_all_iff is_str_iff str_or_nil_def)

lemma chaining_index_iff:
  assumes "chaining_index rend tables = Inr index" and "afters_are_names tables"
  shows "map_of index did = Some t \<longleftrightarrow>
     did \<noteq> [] \<and> (\<exists>name. (name, t) \<in> set tables) \<and> dget t ''after'' = PStr did"
proof -
  from assms have i: "index = afters (sort_key fst tables)" "distinct (map fst index)"
    using index_after_eq [of rend "sort_key fst tables" "[]" index]
    by (auto simp only: chaining_index_def afters_are_names_sort append_Nil list.map distinct.simps)
  then have "map_of index did = Some t \<longleftrightarrow> (did, t) \<in> set index" by simp
  with i(1) assms(2) show ?thesis by (simp add: set_afters afters_are_names_sort)
qed

text \<open>
  What follows a definition is said by exactly one table: a case that chains did so over
  a table declaring \<open>after:\<close> that definition, no other table declares it, and the case closes
  only where that table names the target among its terminals.
\<close>

theorem chain_follows_the_one_declaring_table:
  assumes "afters_are_names tables" and "chain rend tables did facts = Inr r"
  shows "\<exists>name table d. (name, table) \<in> set tables \<and> dget table ''after'' = PStr did \<and>
     \<not> (\<exists>p \<in> set tables. dget (snd p) ''after'' = PStr did \<and> snd p \<noteq> table) \<and>
     decide table facts = Inr d \<and> r_then r = d_then d \<and>
     r_terminal r = py_member (PStr (r_then r)) (dget table ''terminals'')"
proof -
  from assms(2) obtain index table d where i: "chaining_index rend tables = Inr index"
    and t: "map_of index did = Some table" and d: "decide table facts = Inr d"
    and r: "r_then r = d_then d" "r_terminal r = d_terminal d"
    by (auto simp: chain_Inr)
  note iff = chaining_index_iff [OF i assms(1)]
  from iff t have "did \<noteq> []" "\<exists>name. (name, table) \<in> set tables" "dget table ''after'' = PStr did" by auto
  moreover have "snd p = table" if "p \<in> set tables" "dget (snd p) ''after'' = PStr did" for p
  proof -
    from that(1) have "\<exists>name. (name, snd p) \<in> set tables" by (metis prod.collapse)
    with that(2) \<open>did \<noteq> []\<close> have "map_of index did = Some (snd p)" by (simp add: iff)
    with t show ?thesis by simp
  qed
  moreover from d have "d_terminal d = py_member (PStr (d_then d)) (dget table ''terminals'')"
    by (auto simp: decide_Inr settle_row_Inr)
  ultimately show ?thesis using d r by metis
qed

definition sample_tables :: tables where
  "sample_tables =
     [(''fault_selection'',
        [(''decision'', PStr ''fault_selection''), (''matches'', PList [PStr ''asset'']),
         (''domain'', PDict [(''asset'', PList [PStr ''pump'', PStr ''fan''])]),
         (''rows'', PList [PDict [(''when'', PDict [(''asset'', PStr ''pump'')]), (''then'', PStr ''pump_fix'')],
                           PDict [(''when'', PDict [(''asset'', PStr ''fan'')]), (''then'', PStr ''fan_fix'')]])]),
      (''pump_chaining'', (''after'', PStr ''pump_fix'') # outcome_table)]"

theorem chain_follows_the_one_declaring_table_witness:
  "\<exists>name table d. (name, table) \<in> set sample_tables \<and> dget table ''after'' = PStr ''pump_fix'' \<and>
     decide table [(''outcome'', PStr ''approved'')] = Inr d \<and> d_then d = ''closed''"
proof -
  have a: "afters_are_names sample_tables" by code_simp
  have "case chain (\<lambda>_. []) sample_tables ''pump_fix'' [(''outcome'', PStr ''approved'')] of
      Inl _ \<Rightarrow> False | Inr r \<Rightarrow> r_then r = ''closed''" by code_simp
  then obtain r where c: "chain (\<lambda>_. []) sample_tables ''pump_fix'' [(''outcome'', PStr ''approved'')] = Inr r"
    and "r_then r = ''closed''" by (auto split: sum.splits)
  then show ?thesis using chain_follows_the_one_declaring_table [OF a c] by metis
qed


subsection \<open>What the card says a verb leads to\<close>

definition every_row_reads_outcome :: "pydict \<Rightarrow> bool" where
  "every_row_reads_outcome table = list_all (\<lambda>r. has_key (when_of r) ''outcome'') (rows_of table)"

lemma decided_row_named:
  assumes "decide table facts = Inr d" and "PStr ''outcome'' \<in> set (list_or_nil (dget table ''matches''))"
    and "map_of facts ''outcome'' = Some (PStr v)" and "every_row_reads_outcome table"
  shows "\<exists>r \<in> set (rows_of table). dget (when_of r) ''outcome'' = PStr v \<and>
           dget (dict_or_nil r) ''then'' = PStr (d_then d)"
proof -
  let ?r = "rows_of table ! d_row d"
  from assms(1) obtain inp where inp: "inputs_of table facts = Inr inp"
    and h: "hits inp (rows_of table) = [d_row d]"
    and t: "dget (dict_or_nil ?r) ''then'' = PStr (d_then d)"
    by (auto simp: decide_Inr settle_row_Inr)
  from h have "d_row d \<in> set (hits inp (rows_of table))" by simp
  then have mem: "?r \<in> set (rows_of table)" and m: "row_matches inp ?r" by (auto simp: hits_set)
  from mem assms(4) obtain w where w: "map_of (when_of ?r) ''outcome'' = Some w"
    by (auto simp: every_row_reads_outcome_def list_all_iff has_key_def)
  from inp assms(2,3) have "dget inp ''outcome'' = PStr v"
    by (simp add: inputs_of_def gather_lookup dget_def)
  with m w have "w = PStr v"
    by (auto simp: row_matches_def list_all_iff when_of_def dest!: map_of_SomeD)
  with w have "dget (when_of ?r) ''outcome'' = PStr v" by (simp add: dget_def)
  with mem t show ?thesis by blast
qed

text \<open>
  The card tells the truth: when the text for a verb names one target, answering that
  verb opens that target, provided every row of the chaining table reads the outcome and the
  case's other matched facts are still what they were when the card was shown.
\<close>

theorem card_names_where_the_verb_leads:
  assumes "consequence_of table facts v = Inr (Leads v [target])"
    and "decide table facts' = Inr d"
    and "PStr ''outcome'' \<in> set (list_or_nil (dget table ''matches''))"
    and "map_of facts' ''outcome'' = Some (PStr v)"
    and "\<And>k. k \<noteq> ''outcome'' \<Longrightarrow> map_of facts' k = map_of facts k"
    and "every_row_reads_outcome table"
  shows "target = PStr (d_then d)"
proof -
  let ?rows = "rows_for_verb table v"
  let ?thens = "map (\<lambda>r. dget (dict_or_nil r) ''then'') ?rows"
  from decided_row_named [OF assms(2,3,4,6)]
  obtain r where r: "r \<in> set (rows_of table)" "dget (when_of r) ''outcome'' = PStr v"
    and t: "dget (dict_or_nil r) ''then'' = PStr (d_then d)" by blast
  then have mem: "r \<in> set ?rows" by (auto simp: rows_for_verb_def Let_def filter_empty_conv)
  then have ne: "?rows \<noteq> []" by auto
  have "decide table (AList.update ''outcome'' (PStr v) facts) = decide table facts'"
    using assms(4,5) by (intro decide_cong) (simp add: update_conv')
  then have upd: "decide table (AList.update ''outcome'' (PStr v) facts) = Inr d" using assms(2) by simp
  show ?thesis
  proof (cases "list_all (\<lambda>t. py_eq t (hd ?thens)) ?thens")
    case True
    with mem t have "py_eq (PStr (d_then d)) (hd ?thens)" by (force simp: list_all_iff)
    with assms(1) ne True show ?thesis by (simp add: consequence_of_def Let_def)
  next
    case False
    with assms(1) ne upd show ?thesis
      by (auto simp: consequence_of_def Let_def split: if_splits)
  qed
qed

theorem card_names_where_the_verb_leads_witness:
  "consequence_of outcome_table [] ''refused'' = Inr (Leads ''refused'' [PStr ''propose''])"
proof -
  have c: "case consequence_of outcome_table [] ''refused'' of Inr (Leads v [PStr t]) \<Rightarrow> v = ''refused'' | _ \<Rightarrow> False"
    by code_simp
  then obtain t where t: "consequence_of outcome_table [] ''refused'' = Inr (Leads ''refused'' [PStr t])"
    by (auto split: sum.splits consequence.splits list.splits pyval.splits)
  have d: "decide outcome_table [(''outcome'', PStr ''refused'')]
      = Inr \<lparr>d_then = ''propose'', d_terminal = False, d_row = 1, d_refresh = True\<rparr>" by code_simp
  have "PStr t = PStr ''propose''"
    using card_names_where_the_verb_leads [OF t d]
    by (simp add: outcome_table_def dget_def list_or_nil_def every_row_reads_outcome_def rows_of_def
        when_of_def dict_or_nil_def has_key_def)
  with t show ?thesis by simp
qed

text \<open>
  C27. With a catch-all row the card can be wrong: in this table, which passes the build seal,
  the card for \<open>refused\<close> names \<open>escalate\<close> as the one target, and a first refusal opens
  \<open>propose\<close>, because the rows that do not read the outcome are left out of the card as soon as
  one row names the verb.
\<close>

definition catch_all_table :: pydict where
  "catch_all_table =
     [(''decision'', PStr ''t''), (''after'', PStr ''review''),
      (''matches'', PList [PStr ''outcome'', PStr ''outcome_repeated'']),
      (''domain'', PDict [(''outcome'', PList [PStr ''approved'', PStr ''refused'']),
                          (''outcome_repeated'', PList [PBool True, PBool False])]),
      (''rows'', PList
         [PDict [(''when'', PDict [(''outcome'', PStr ''refused''), (''outcome_repeated'', PBool True)]),
                 (''then'', PStr ''escalate'')],
          PDict [(''when'', PDict [(''outcome'', PStr ''approved''), (''outcome_repeated'', PBool True)]),
                 (''then'', PStr ''release'')],
          PDict [(''when'', PDict [(''outcome_repeated'', PBool False)]), (''then'', PStr ''propose'')]])]"

theorem card_misses_catch_all_rows:
  "sealed catch_all_table \<and>
   (case consequence_of catch_all_table [] ''refused'' of
      Inr (Leads v [PStr t]) \<Rightarrow> t = ''escalate'' | _ \<Rightarrow> False) \<and>
   (case decide catch_all_table [(''outcome'', PStr ''refused''), (''outcome_repeated'', PBool False)] of
      Inr d \<Rightarrow> d_then d = ''propose'' | _ \<Rightarrow> False)"
proof (intro conjI)
  show "sealed catch_all_table" by code_simp
  show "case consequence_of catch_all_table [] ''refused'' of
      Inr (Leads v [PStr t]) \<Rightarrow> t = ''escalate'' | _ \<Rightarrow> False" by code_simp
  show "case decide catch_all_table [(''outcome'', PStr ''refused''), (''outcome_repeated'', PBool False)] of
      Inr d \<Rightarrow> d_then d = ''propose'' | _ \<Rightarrow> False" by code_simp
qed

end
