(* ===== verification/Case_Episode.thy ===== *)
theory Case_Episode
  imports Case_Routing
begin

text \<open>
  \<^verbatim>\<open>agent_fleet/restate_analyst/workflow_runner.py\<close>, the virtual object \<open>CaseEpisode\<close>: one open
  case per episode, the revisions kept for it, and the occurrences attached to it. Restate runs
  the handlers of one object one at a time, so an execution is a sequence of requests.

  A handler that raises leaves the state as it was. \<open>case_seeder\<close> is the call to the holder's
  own case record (\<open>WorkflowRunner/case\<close>), made only for an episode claimed before the seeder
  was recorded.
\<close>

record occurrence =
  oc_event :: string
  oc_received :: pyval
  oc_ingest :: pyval

record chain_head =
  ch_revision :: "revision option"
  ch_facts :: pydict

record episode =
  ep_open :: "string option"
  ep_revision :: "chain_head option"
  ep_holder :: "string option option"
  ep_last_closed :: "string option"
  ep_occurrences :: "string \<Rightarrow> occurrence list"

datatype ep_error =
    BadEventId
  | BadSeeder
  | NotTheHolder
  | NoFirstRevision
  | FactsNotMapping
  | RevisionRefused routing_error

record attached =
  at_to :: "string option"
  at_predecessor :: "string option"
  at_refused :: bool

definition new_episode :: episode where
  "new_episode = \<lparr>ep_open = None, ep_revision = None, ep_holder = None, ep_last_closed = None,
     ep_occurrences = (\<lambda>_. [])\<rparr>"

text \<open>The case \<open>ctx.get("open")\<close> names; an empty key is falsy and holds nothing.\<close>

definition holder :: "episode \<Rightarrow> string option" where
  "holder ep = (case ep_open ep of Some c \<Rightarrow> if c = [] then None else Some c | None \<Rightarrow> None)"

definition claim :: "episode \<Rightarrow> string \<Rightarrow> chain_head \<Rightarrow> string option \<Rightarrow> episode \<times> string" where
  "claim ep case_id head seeded_by = (case holder ep of
     Some cur \<Rightarrow> (ep, cur)
   | None \<Rightarrow> (ep\<lparr>ep_open := Some case_id, ep_revision := Some head, ep_holder := Some seeded_by\<rparr>,
              case_id))"

definition release :: "episode \<Rightarrow> string \<Rightarrow> episode" where
  "release ep case_id =
     (if ep_open ep = Some case_id
      then ep\<lparr>ep_open := None, ep_revision := None, ep_holder := None, ep_last_closed := Some case_id\<rparr>
      else ep)"

definition holder_seeded_by :: "(string \<Rightarrow> string option) \<Rightarrow> episode \<Rightarrow> string \<Rightarrow> episode \<times> string option" where
  "holder_seeded_by case_seeder ep h = (case ep_holder ep of
     Some seeder \<Rightarrow> (ep, seeder)
   | None \<Rightarrow> (ep\<lparr>ep_holder := Some (case_seeder h)\<rparr>, case_seeder h))"

definition record_occurrence :: "episode \<Rightarrow> string \<Rightarrow> occurrence \<Rightarrow> episode" where
  "record_occurrence ep h oc =
     (if list_ex (\<lambda>o'. oc_event o' = oc_event oc) (ep_occurrences ep h) then ep
      else ep\<lparr>ep_occurrences := (ep_occurrences ep)(h := ep_occurrences ep h @ [oc])\<rparr>)"

definition attach ::
  "(string \<Rightarrow> string option) \<Rightarrow> episode \<Rightarrow> pyval \<Rightarrow> pyval \<Rightarrow> pyval \<Rightarrow> pyval
     \<Rightarrow> episode \<times> (ep_error + attached)" where
  "attach case_seeder ep event_id received_at ingest_id seeded_by =
     (if \<not> is_nonblank_str event_id then (ep, Inl BadEventId)
      else if seeded_by \<noteq> PNone \<and> \<not> is_nonblank_str seeded_by then (ep, Inl BadSeeder)
      else (case holder ep of
          None \<Rightarrow> (ep, Inr \<lparr>at_to = None, at_predecessor = ep_last_closed ep, at_refused = False\<rparr>)
        | Some h \<Rightarrow>
            if event_id = PStr h
            then (ep, Inr \<lparr>at_to = Some h, at_predecessor = None, at_refused = False\<rparr>)
            else (let (ep1, refused) =
                    (if seeded_by = PNone then (ep, False)
                     else (let (ep', seeder) = holder_seeded_by case_seeder ep h
                           in (ep', Some (str_or_nil seeded_by) \<noteq> seeder)))
                  in if refused
                     then (ep1, Inr \<lparr>at_to = None, at_predecessor = None, at_refused = True\<rparr>)
                     else (record_occurrence ep1 h
                             \<lparr>oc_event = str_or_nil event_id, oc_received = received_at, oc_ingest = ingest_id\<rparr>,
                           Inr \<lparr>at_to = Some h, at_predecessor = None, at_refused = False\<rparr>))))"

definition keep_revision ::
  "(string \<Rightarrow> int option) \<Rightarrow> (pyval \<Rightarrow> pyval option) \<Rightarrow> episode \<Rightarrow> string \<Rightarrow> pyval \<Rightarrow> pyval \<Rightarrow> pyval
     \<Rightarrow> episode \<times> (ep_error + string \<times> int)" where
  "keep_revision instant prov_block ep case_id facts received_at prov =
     (if holder ep \<noteq> Some case_id then (ep, Inl NotTheHolder)
      else (case ep_revision ep of
          Some h \<Rightarrow> (case ch_revision h of
              Some rv \<Rightarrow> (case facts of
                  PDict event \<Rightarrow> (case next_revision instant prov_block rv received_at prov of
                      Inl e \<Rightarrow> (ep, Inl (RevisionRefused e))
                    | Inr rv' \<Rightarrow> (ep\<lparr>ep_revision := Some \<lparr>ch_revision = Some rv', ch_facts = event\<rparr>\<rparr>,
                                 Inr (case_id, rev_no rv')))
                | _ \<Rightarrow> (ep, Inl FactsNotMapping))
            | None \<Rightarrow> (ep, Inl NoFirstRevision))
        | None \<Rightarrow> (ep, Inl NoFirstRevision)))"

definition newest_revision :: "episode \<Rightarrow> chain_head option" where
  "newest_revision ep = ep_revision ep"

subsection \<open>The object as a machine\<close>

datatype ep_request =
    Claim string chain_head "string option"
  | Release string
  | Attach pyval pyval pyval pyval
  | Keep string pyval pyval pyval
  | Newest

datatype ep_reply =
    Holds string
  | Done
  | AttachReply "ep_error + attached"
  | KeepReply "ep_error + string \<times> int"
  | HeadIs "chain_head option"

record ep_world =
  w_seeder :: "string \<Rightarrow> string option"
  w_instant :: "string \<Rightarrow> int option"
  w_prov :: "pyval \<Rightarrow> pyval option"

fun ep_step :: "ep_world \<Rightarrow> episode \<Rightarrow> ep_request \<Rightarrow> episode \<times> ep_reply" where
  "ep_step w ep (Claim c head s) = (let (ep', h) = claim ep c head s in (ep', Holds h))"
| "ep_step w ep (Release c) = (release ep c, Done)"
| "ep_step w ep (Attach e r i s) = (let (ep', a) = attach (w_seeder w) ep e r i s in (ep', AttachReply a))"
| "ep_step w ep (Keep c f r p) =
     (let (ep', k) = keep_revision (w_instant w) (w_prov w) ep c f r p in (ep', KeepReply k))"
| "ep_step w ep Newest = (ep, HeadIs (newest_revision ep))"

fun ep_run :: "ep_world \<Rightarrow> episode \<Rightarrow> ep_request list \<Rightarrow> episode \<times> ep_reply list" where
  "ep_run w ep [] = (ep, [])"
| "ep_run w ep (q # qs) = (let (ep', a) = ep_step w ep q; (ep'', as) = ep_run w ep' qs in (ep'', a # as))"

inductive ep_reachable :: "ep_world \<Rightarrow> episode \<Rightarrow> bool" for w where
  start: "ep_reachable w new_episode"
| step: "ep_reachable w ep \<Longrightarrow> ep_step w ep q = (ep', a) \<Longrightarrow> ep_reachable w ep'"


subsection \<open>The contract a case relies on\<close>

text \<open>
  What the case runner needs of the object: a claim answers the holder, an open episode is not
  taken over, and only its own release frees it.
\<close>

locale exclusive_episode =
  fixes holds :: "'s \<Rightarrow> string option"
    and take_it :: "'s \<Rightarrow> string \<Rightarrow> 'x \<Rightarrow> 's \<times> string"
    and give_up :: "'s \<Rightarrow> string \<Rightarrow> 's"
  assumes take_free: "holds s = None \<Longrightarrow> c \<noteq> [] \<Longrightarrow>
      snd (take_it s c x) = c \<and> holds (fst (take_it s c x)) = Some c"
    and take_held: "holds s = Some h \<Longrightarrow> take_it s c x = (s, h)"
    and give_up_own: "holds s = Some c \<Longrightarrow> holds (give_up s c) = None"
    and give_up_other: "holds s \<noteq> Some c \<Longrightarrow> holds (give_up s c) = holds s"
begin

lemma take_answers_holder: "c \<noteq> [] \<Longrightarrow> holds (fst (take_it s c x)) = Some (snd (take_it s c x))"
  using take_free [of s c x] take_held [of s _ c x] by (cases "holds s") auto

lemma take_never_steals: "holds s = Some h \<Longrightarrow> holds (fst (take_it s c x)) = Some h"
  by (simp add: take_held)

lemma give_up_by_other_keeps: "holds s = Some h \<Longrightarrow> c \<noteq> h \<Longrightarrow> holds (give_up s c) = Some h"
  by (simp add: give_up_other)

lemma second_taker_learns_the_first:
  "c \<noteq> [] \<Longrightarrow> snd (take_it s c x) = c \<Longrightarrow> snd (take_it (fst (take_it s c x)) d y) = c"
  using take_answers_holder [of c s x] take_held [of "fst (take_it s c x)" c d y] by simp

end

interpretation ep: exclusive_episode holder "\<lambda>ep c x. claim ep c (fst x) (snd x)" release
  by unfold_locales
    (auto simp: claim_def release_def holder_def split: option.splits if_splits)

subsection \<open>One open case\<close>

lemma holder_seeded_by_frame:
  "holder_seeded_by cs ep h = (ep', s) \<Longrightarrow> ep_open ep' = ep_open ep \<and> ep_revision ep' = ep_revision ep \<and>
     ep_last_closed ep' = ep_last_closed ep \<and> ep_occurrences ep' = ep_occurrences ep \<and> ep_holder ep' = Some s"
  by (auto simp: holder_seeded_by_def split: option.splits)

lemma record_occurrence_frame [simp]:
  "ep_open (record_occurrence ep h oc) = ep_open ep"
  "ep_revision (record_occurrence ep h oc) = ep_revision ep"
  "ep_holder (record_occurrence ep h oc) = ep_holder ep"
  by (simp_all add: record_occurrence_def)

lemma attach_frame:
  "attach cs ep e r i s = (ep', a) \<Longrightarrow> ep_open ep' = ep_open ep \<and> ep_revision ep' = ep_revision ep"
  by (auto simp: attach_def Let_def split: if_splits option.splits prod.splits dest: holder_seeded_by_frame)

lemma keep_frame:
  "keep_revision ins pb ep c f r p = (ep', k) \<Longrightarrow>
     ep_open ep' = ep_open ep \<and> ep_holder ep' = ep_holder ep \<and> ep_occurrences ep' = ep_occurrences ep"
  by (auto simp: keep_revision_def split: if_splits option.splits pyval.splits sum.splits)

lemma holder_cong: "ep_open ep' = ep_open ep \<Longrightarrow> holder ep' = holder ep"
  by (simp add: holder_def)

lemma ep_step_keeps_holder:
  assumes "ep_step w ep q = (ep', a)" and "holder ep = Some c" and "q \<noteq> Release c"
  shows "holder ep' = Some c"
proof (cases q)
  case (Claim d head s)
  with assms(1,2) show ?thesis by (auto simp: claim_def)
next
  case (Release d)
  with assms show ?thesis using ep.give_up_by_other_keeps [of ep c d] by auto
next
  case (Attach e r i s)
  with assms(1,2) show ?thesis by (auto dest!: attach_frame holder_cong split: prod.splits)
next
  case (Keep d f r p)
  with assms(1,2) show ?thesis by (auto dest!: keep_frame simp: holder_def split: prod.splits)
next
  case Newest
  with assms(1,2) show ?thesis by simp
qed

lemma ep_run_keeps_holder:
  assumes "ep_run w ep qs = (ep', as)" and "holder ep = Some c" and "Release c \<notin> set qs"
  shows "holder ep' = Some c \<and> (\<forall>i < length qs. \<forall>d head s. qs ! i = Claim d head s \<longrightarrow> as ! i = Holds c)"
  using assms
proof (induction qs arbitrary: ep as)
  case Nil
  then show ?case by simp
next
  case (Cons q qs)
  obtain ep1 a where st: "ep_step w ep q = (ep1, a)" by (cases "ep_step w ep q")
  obtain ep2 as' where rn: "ep_run w ep1 qs = (ep2, as')" by (cases "ep_run w ep1 qs")
  from Cons.prems(1) st rn have eq: "ep' = ep2" "as = a # as'" by auto
  have "holder ep1 = Some c" using ep_step_keeps_holder [OF st Cons.prems(2)] Cons.prems(3) by auto
  from Cons.IH [OF _ this, of as'] rn eq Cons.prems(3) have ih: "holder ep' = Some c \<and>
      (\<forall>i < length qs. \<forall>d head s. qs ! i = Claim d head s \<longrightarrow> as' ! i = Holds c)" by auto
  have "a = Holds c" if "q = Claim d head s" for d head s
    using that st Cons.prems(2) by (auto simp: claim_def)
  with ih eq show ?case by (auto simp: nth_Cons split: nat.split)
qed

text \<open>
  C5. One open case per episode: while a case holds the episode, whatever requests arrive and
  in whatever order, it keeps holding it until it releases it itself, and every claim made
  meanwhile is answered with that case.
\<close>

theorem one_open_case_per_episode:
  assumes "holder ep = Some c" and "Release c \<notin> set qs"
  shows "holder (fst (ep_run w ep qs)) = Some c \<and>
    (\<forall>i < length qs. \<forall>d head s. qs ! i = Claim d head s \<longrightarrow> snd (ep_run w ep qs) ! i = Holds c)"
  using ep_run_keeps_holder [OF surjective_pairing assms] .

definition plain_world :: ep_world where
  "plain_world = \<lparr>w_seeder = (\<lambda>_. None), w_instant = (\<lambda>s. Some (int (length s))), w_prov = Some\<rparr>"

definition head1 :: chain_head where
  "head1 = \<lparr>ch_revision = Some \<lparr>rev_no = 1, rev_received = ''t'', rev_provenance = PNone, rev_supersedes = None\<rparr>,
     ch_facts = []\<rparr>"

definition held_by_c1 :: episode where
  "held_by_c1 = fst (claim new_episode ''c1'' head1 (Some ''bot''))"

lemma held_by_c1_holder: "holder held_by_c1 = Some ''c1''"
  by code_simp

theorem one_open_case_per_episode_witness:
  "snd (ep_run plain_world held_by_c1 [Claim ''c2'' head1 None, Release ''c2'', Claim ''c3'' head1 None]) ! 2
   = Holds ''c1''"
proof -
  have "Release ''c1'' \<notin> set [Claim ''c2'' head1 None, Release ''c2'', Claim ''c3'' head1 None]" by simp
  from one_open_case_per_episode [OF held_by_c1_holder this, of plain_world] show ?thesis
    by (force simp: numeral_2_eq_2)
qed


subsection \<open>Occurrences\<close>

definition seeder_of :: "(string \<Rightarrow> string option) \<Rightarrow> episode \<Rightarrow> string \<Rightarrow> string option" where
  "seeder_of cs ep h = (case ep_holder ep of Some seeder \<Rightarrow> seeder | None \<Rightarrow> cs h)"

lemma holder_seeded_by_seeder: "snd (holder_seeded_by cs ep h) = seeder_of cs ep h"
  by (simp add: holder_seeded_by_def seeder_of_def split: option.split)

lemma holder_seeded_by_occurrences [simp]:
  "ep_occurrences (fst (holder_seeded_by cs ep h)) = ep_occurrences ep"
  by (simp add: holder_seeded_by_def split: option.split)

text \<open>
  A delegate attaches only to a case it seeded: an occurrence a delegate brings to an open
  case of another seeder is refused without naming the holder and leaves nothing recorded, and
  one it brings to its own case, or a person brings to any, is recorded under the holder.
\<close>

theorem delegate_attaches_only_to_its_own_case:
  assumes "holder ep = Some h" and "is_nonblank_str (PStr ev)" and "ev \<noteq> h"
    and "who = PNone \<or> is_nonblank_str who"
  shows "let (ep', reply) = attach cs ep (PStr ev) r i who in
     if who \<noteq> PNone \<and> seeder_of cs ep h \<noteq> Some (str_or_nil who)
     then reply = Inr \<lparr>at_to = None, at_predecessor = None, at_refused = True\<rparr> \<and>
          ep_occurrences ep' = ep_occurrences ep
     else reply = Inr \<lparr>at_to = Some h, at_predecessor = None, at_refused = False\<rparr> \<and>
          ev \<in> oc_event ` set (ep_occurrences ep' h)"
proof -
  have rec: "ev \<in> oc_event ` set (ep_occurrences (record_occurrence ep1 h
       \<lparr>oc_event = str_or_nil (PStr ev), oc_received = r, oc_ingest = i\<rparr>) h)" for ep1
    by (auto simp: record_occurrence_def str_or_nil_def list_ex_iff image_iff)
  obtain ep1 where hs: "holder_seeded_by cs ep h = (ep1, seeder_of cs ep h)"
    by (metis holder_seeded_by_seeder prod.collapse)
  moreover from holder_seeded_by_frame [OF hs] have "ep_occurrences ep1 = ep_occurrences ep" by simp
  ultimately show ?thesis using assms rec
    by (auto simp: attach_def Let_def split: prod.splits)
qed

theorem delegate_attaches_only_to_its_own_case_witness:
  "snd (attach (w_seeder plain_world) held_by_c1 (PStr ''e2'') PNone PNone (PStr ''other''))
     = Inr \<lparr>at_to = None, at_predecessor = None, at_refused = True\<rparr>"
proof -
  have ev: "is_nonblank_str (PStr ''e2'')" by code_simp
  have who: "PStr ''other'' = PNone \<or> is_nonblank_str (PStr ''other'')" by code_simp
  have ne: "''e2'' \<noteq> ''c1''" by simp
  have "seeder_of (w_seeder plain_world) held_by_c1 ''c1'' \<noteq> Some (str_or_nil (PStr ''other''))"
    by (simp add: seeder_of_def held_by_c1_def claim_def new_episode_def holder_def str_or_nil_def)
  with delegate_attaches_only_to_its_own_case [OF held_by_c1_holder ev ne who,
      of "w_seeder plain_world" PNone PNone]
  show ?thesis by (simp add: Let_def split: prod.splits)
qed

definition once :: "(string \<Rightarrow> occurrence list) \<Rightarrow> bool" where
  "once occ \<longleftrightarrow> (\<forall>c. distinct (map oc_event (occ c)) \<and> c \<notin> oc_event ` set (occ c))"

definition ep_inv :: "episode \<Rightarrow> bool" where
  "ep_inv ep \<longleftrightarrow> once (ep_occurrences ep) \<and>
     (ep_open ep = None \<longrightarrow> ep_revision ep = None \<and> ep_holder ep = None)"

lemma record_occurrence_inv:
  assumes "ep_inv ep" and "oc_event oc \<noteq> h"
  shows "ep_inv (record_occurrence ep h oc)"
proof -
  have "once (ep_occurrences (record_occurrence ep h oc))"
    using assms by (auto simp: ep_inv_def once_def record_occurrence_def list_ex_iff)
  with assms(1) show ?thesis by (simp add: ep_inv_def)
qed

lemma holder_open: "holder ep = Some h \<Longrightarrow> ep_open ep = Some h"
  by (auto simp: holder_def split: option.splits if_splits)

lemma attach_state:
  "fst (attach cs ep e r i s) = ep \<or>
   (\<exists>h ep1. holder ep = Some h \<and> (ep1 = ep \<or> ep1 = fst (holder_seeded_by cs ep h)) \<and>
      (fst (attach cs ep e r i s) = ep1 \<or>
       (\<exists>oc. oc_event oc \<noteq> h \<and> fst (attach cs ep e r i s) = record_occurrence ep1 h oc)))"
proof (cases "is_nonblank_str e \<and> (s = PNone \<or> is_nonblank_str s)")
  case False
  then show ?thesis by (auto simp: attach_def)
next
  case True
  then obtain ev where ev: "e = PStr ev" by (auto dest: is_nonblank_strE)
  show ?thesis
  proof (cases "holder ep")
    case None
    with True show ?thesis by (auto simp: attach_def)
  next
    case (Some h)
    obtain ep1 sd where hs: "holder_seeded_by cs ep h = (ep1, sd)" by (cases "holder_seeded_by cs ep h")
    let ?oc = "\<lparr>oc_event = ev, oc_received = r, oc_ingest = i\<rparr>"
    have "fst (attach cs ep e r i s) \<in> {ep, ep1} \<or>
       ev \<noteq> h \<and> fst (attach cs ep e r i s) \<in> {record_occurrence ep h ?oc, record_occurrence ep1 h ?oc}"
      using True Some hs ev by (auto simp: attach_def Let_def str_or_nil_def)
    with Some hs show ?thesis by (elim disjE conjE insertE emptyE) (force intro: exI [of _ ?oc])+
  qed
qed

lemma attach_inv:
  assumes "ep_inv ep"
  shows "ep_inv (fst (attach cs ep e r i s))"
proof -
  have seeded: "ep_inv (fst (holder_seeded_by cs ep h))" if "holder ep = Some h" for h
    using assms holder_open [OF that] by (auto simp: holder_seeded_by_def ep_inv_def split: option.split)
  from attach_state [of cs ep e r i s] show ?thesis
    using assms seeded record_occurrence_inv by (elim disjE exE conjE) metis+
qed

lemma ep_step_inv: "ep_step w ep q = (ep', a) \<Longrightarrow> ep_inv ep \<Longrightarrow> ep_inv ep'"
proof (cases q)
  case (Claim c head s)
  moreover assume "ep_step w ep q = (ep', a)" "ep_inv ep"
  ultimately show ?thesis by (auto simp: claim_def ep_inv_def split: option.splits)
next
  case (Release c)
  moreover assume "ep_step w ep q = (ep', a)" "ep_inv ep"
  ultimately show ?thesis by (auto simp: release_def ep_inv_def split: if_splits)
next
  case (Attach e r i s)
  moreover assume "ep_step w ep q = (ep', a)" "ep_inv ep"
  ultimately show ?thesis using attach_inv [of ep "w_seeder w" e r i s] by (auto split: prod.splits)
next
  case (Keep c f r p)
  moreover assume "ep_step w ep q = (ep', a)" "ep_inv ep"
  ultimately show ?thesis
    by (auto simp: keep_revision_def ep_inv_def holder_def split: if_splits option.splits pyval.splits sum.splits)
next
  case Newest
  moreover assume "ep_step w ep q = (ep', a)" "ep_inv ep"
  ultimately show ?thesis by simp
qed

text \<open>
  In every state the object can reach, an event is recorded at most once under a case, a
  case is never recorded as its own occurrence, and a closed episode keeps no revision and no
  seeder of the case that left it.
\<close>

theorem reachable_episode_invariant:
  assumes "ep_reachable w ep"
  shows "(distinct (map oc_event (ep_occurrences ep c)) \<and> c \<notin> oc_event ` set (ep_occurrences ep c)) \<and>
     (ep_open ep = None \<longrightarrow> ep_revision ep = None \<and> ep_holder ep = None)"
proof -
  from assms have "ep_inv ep"
  proof (induction rule: ep_reachable.induct)
    case start
    show ?case by (simp add: ep_inv_def once_def new_episode_def)
  next
    case (step ep q ep' a)
    then show ?case by (blast intro: ep_step_inv)
  qed
  then show ?thesis by (simp add: ep_inv_def once_def)
qed

lemma held_by_c1_reachable: "ep_reachable w held_by_c1"
  by (rule ep_reachable.step [OF ep_reachable.start, of _ "Claim ''c1'' head1 (Some ''bot'')" _ "Holds ''c1''"])
    (simp add: held_by_c1_def claim_def new_episode_def holder_def)

theorem reachable_episode_invariant_witness:
  "''c1'' \<notin> oc_event ` set (ep_occurrences held_by_c1 ''c1'')"
  using reachable_episode_invariant [OF held_by_c1_reachable, of "''c1''"] by simp

subsection \<open>The revision chain\<close>

definition kept_ok :: "ep_reply \<Rightarrow> bool" where
  "kept_ok a = (case a of KeepReply (Inr _) \<Rightarrow> True | _ \<Rightarrow> False)"

text \<open>The head's revision when the episode is held by a case that opened with one.\<close>

definition head_rev :: "episode \<Rightarrow> revision option" where
  "head_rev ep = (case ep_revision ep of Some h \<Rightarrow> ch_revision h | None \<Rightarrow> None)"

lemma next_revision_Inr:
  "next_revision instant pb rv received prov = Inr rv' \<Longrightarrow>
     rev_no rv' = rev_no rv + 1 \<and> rev_supersedes rv' = Some (rev_no rv) \<and>
     (\<exists>t0 t. instant (rev_received rv) = Some t0 \<and> instant (rev_received rv') = Some t \<and> t0 \<le> t)"
  by (auto simp: next_revision_def instant_of_def bind_r_Inr str_or_nil_def
      split: pyval.splits option.splits if_splits)

lemma ep_step_head:
  assumes "ep_step w ep q = (ep', a)" and "holder ep = Some c" and "q \<noteq> Release c"
    and "head_rev ep = Some rv"
  shows "if kept_ok a then \<exists>rv'. head_rev ep' = Some rv' \<and> rev_no rv' = rev_no rv + 1 \<and>
       rev_supersedes rv' = Some (rev_no rv) \<and>
       (\<exists>t0 t. w_instant w (rev_received rv) = Some t0 \<and> w_instant w (rev_received rv') = Some t \<and> t0 \<le> t)
     else head_rev ep' = Some rv"
proof (cases q)
  case (Claim d head s)
  with assms show ?thesis by (auto simp: claim_def kept_ok_def)
next
  case (Release d)
  with assms show ?thesis
    by (auto simp: release_def kept_ok_def holder_def split: if_splits option.splits)
next
  case (Attach e r i s)
  with assms show ?thesis
    by (auto simp: kept_ok_def head_rev_def dest!: attach_frame split: prod.splits)
next
  case (Keep d f r p)
  with assms show ?thesis
    by (auto simp: kept_ok_def head_rev_def keep_revision_def dest!: next_revision_Inr
        split: prod.splits if_splits option.splits pyval.splits sum.splits)
next
  case Newest
  with assms show ?thesis by (auto simp: kept_ok_def)
qed

text \<open>
  The revisions kept for a case form one chain: while the case holds the episode, each
  accepted push advances the head's number by one and nothing else moves it, so the head's
  number is that of the opening event plus the pushes accepted, and receipts never run
  backwards along it.
\<close>

theorem revisions_form_one_chain:
  assumes "holder ep = Some c" and "Release c \<notin> set qs" and "head_rev ep = Some rv"
    and "w_instant w (rev_received rv) = Some t0"
  shows "\<exists>rv' t. head_rev (fst (ep_run w ep qs)) = Some rv' \<and>
     rev_no rv' = rev_no rv + int (length (filter kept_ok (snd (ep_run w ep qs)))) \<and>
     w_instant w (rev_received rv') = Some t \<and> t0 \<le> t"
  using assms
proof (induction qs arbitrary: ep rv t0)
  case Nil
  then show ?case by simp
next
  case (Cons q qs)
  obtain ep1 a where st: "ep_step w ep q = (ep1, a)" by (cases "ep_step w ep q")
  have q: "q \<noteq> Release c" using Cons.prems(2) by auto
  have h1: "holder ep1 = Some c" by (rule ep_step_keeps_holder [OF st Cons.prems(1) q])
  from ep_step_head [OF st Cons.prems(1) q Cons.prems(3)] Cons.prems(4)
  obtain rv1 t1 where rv1: "head_rev ep1 = Some rv1" "rev_no rv1 = rev_no rv + (if kept_ok a then 1 else 0)"
    "w_instant w (rev_received rv1) = Some t1" "t0 \<le> t1"
    by (auto split: if_splits)
  from Cons.IH [OF h1 _ rv1(1,3)] Cons.prems(2) obtain rv' t where
    ih: "head_rev (fst (ep_run w ep1 qs)) = Some rv'"
      "rev_no rv' = rev_no rv1 + int (length (filter kept_ok (snd (ep_run w ep1 qs))))"
      "w_instant w (rev_received rv') = Some t" "t1 \<le> t" by auto
  have "fst (ep_run w ep (q # qs)) = fst (ep_run w ep1 qs)"
    and "snd (ep_run w ep (q # qs)) = a # snd (ep_run w ep1 qs)"
    by (simp_all add: st split: prod.split)
  with ih rv1 show ?case by (intro exI [of _ rv'] exI [of _ t]) auto
qed

theorem revisions_form_one_chain_witness:
  "\<exists>rv'. head_rev (fst (ep_run plain_world held_by_c1 [Keep ''c1'' (PDict []) (PStr ''tt'') PNone])) = Some rv' \<and>
     rev_no rv' = 2"
proof -
  let ?qs = "[Keep ''c1'' (PDict []) (PStr ''tt'') PNone]"
  have n: "Release ''c1'' \<notin> set ?qs" by simp
  have hd: "head_rev held_by_c1 = Some \<lparr>rev_no = 1, rev_received = ''t'', rev_provenance = PNone, rev_supersedes = None\<rparr>"
    by (simp add: head_rev_def held_by_c1_def claim_def new_episode_def holder_def head1_def)
  have i: "w_instant plain_world (rev_received \<lparr>rev_no = 1, rev_received = ''t'', rev_provenance = PNone,
      rev_supersedes = None\<rparr>) = Some 1" by (simp add: plain_world_def)
  have "length (filter kept_ok (snd (ep_run plain_world held_by_c1 ?qs))) = 1"
    by (simp add: held_by_c1_def claim_def new_episode_def holder_def head1_def keep_revision_def kept_ok_def
        next_revision_def instant_of_def provenance_block_def plain_world_def str_or_nil_def)
  with revisions_form_one_chain [OF held_by_c1_holder n hd i] show ?thesis by auto
qed

end
