(* ===== verification/Durable.thy ===== *)
theory Durable
  imports Mesh_Prelude
begin

text \<open>
  Calls in a durable run. Restate journals the result of a step and repeats a step that raised
  plainly, so a step that calls a service is the list of its attempts' answers: the first that is a
  verdict ends it and is what every replay reads again; a list with none is a step still being
  repeated. An answer is a status, or none at all.
\<close>

datatype http = NoAnswer | Status int

datatype attempt = Wrote | Refused int | Again

definition accepted :: "int \<Rightarrow> bool" where
  "accepted code \<longleftrightarrow> 200 \<le> code \<and> code < 300"

fun journalled :: "(http \<Rightarrow> attempt) \<Rightarrow> http list \<Rightarrow> attempt" where
  "journalled f [] = Again"
| "journalled f (h # hs) = (case f h of Again \<Rightarrow> journalled f hs | v \<Rightarrow> v)"

text \<open>\<open>raise_for_status\<close> of requests, and the classifier of the registering calls: every 4xx but 429 is final.\<close>

definition fail_terminal_on_4xx :: "int \<Rightarrow> bool" where
  "fail_terminal_on_4xx s \<longleftrightarrow> 400 \<le> s \<and> s < 500 \<and> s \<noteq> 429"

definition raise_for_status :: "int \<Rightarrow> bool" where
  "raise_for_status s \<longleftrightarrow> 400 \<le> s \<and> s < 600"

lemma journalled_verdict:
  "journalled f hs = v \<Longrightarrow> v \<noteq> Again \<Longrightarrow> \<exists>h \<in> set hs. f h = v"
  by (induction hs) (auto split: attempt.splits)

lemma journalled_Again: "journalled f hs = Again \<longleftrightarrow> (\<forall>h \<in> set hs. f h = Again)"
  by (induction hs) (auto split: attempt.splits)

end
