(* ===== verification/Case_Runner.thy ===== *)
theory Case_Runner
  imports Case_Episode Durable
begin

text \<open>
  \<^verbatim>\<open>agent_fleet/restate_analyst/workflow_runner.py\<close>, the workflow \<open>WorkflowRunner\<close>: a case from the
  event it opens on to its terminal. \<open>run_case\<close> is \<open>_run_case\<close> statement by statement; the child
  instance it calls, the clock, the answers of the gateway and the requests that reach the episode
  object meanwhile are the world's (\<open>case_world\<close>).

  Restate repeats a journalled call that raised plainly, so a call is the list of its attempts'
  outcomes: the first that is a verdict ends it, and a list with none is a call still being
  repeated (\<open>Suspended\<close>). An instance that has not answered, waiting for somebody or for a call of its
  own, is \<open>None\<close>, and the case that called it stays suspended with it. The runner's own loop is bounded by \<open>MAX_INSTANCES\<close>, which is the fuel of
  \<open>hops\<close>; running out of it is the code's own branch, the \<open>TooManyInstances\<close> error.
\<close>

subsection \<open>Calls to the gateway\<close>

definition stamp_seeded_by :: "http \<Rightarrow> attempt" where
  "stamp_seeded_by h = (case h of
     NoAnswer \<Rightarrow> Again
   | Status code \<Rightarrow> if accepted code then Wrote else Refused code)"

definition write_case_summary :: "http \<Rightarrow> attempt" where
  "write_case_summary h = (case h of
     NoAnswer \<Rightarrow> Again
   | Status code \<Rightarrow> if accepted code then Wrote else Refused code)"

text \<open>A 503 raises plainly: an outage, not a verdict.\<close>

definition write_action_record :: "http \<Rightarrow> attempt" where
  "write_action_record h = (case h of
     NoAnswer \<Rightarrow> Again
   | Status code \<Rightarrow> if code = 503 then Again else if accepted code then Wrote else Refused code)"

definition CASE_SUMMARY_MAX_ATTEMPTS :: nat where
  "CASE_SUMMARY_MAX_ATTEMPTS = 5"

definition MAX_INSTANCES :: nat where
  "MAX_INSTANCES = 64"

definition SEEDED_BY_STAMP_OUTCOME :: string where
  "SEEDED_BY_STAMP_OUTCOME = ''released''"

definition NOT_THE_SEEDER :: string where
  "NOT_THE_SEEDER = ''not_the_seeding_delegate''"

subsection \<open>The case record and the state of a run\<close>

datatype terminal_error =
    FactsMissingFromRequest
  | RoutingFailed routing_error int
  | BadSeededBy
  | BadPredecessor
  | EpisodeRefused ep_error
  | InstanceRaised string
  | NobodyToWriteFor
  | RecordRefused int
  | StampRefused int
  | NoRevisionChain
  | TooManyInstances

datatype stop = Terminal terminal_error | Suspended

record case_input =
  in_revision :: int
  in_event :: string
  in_received :: string
  in_supersedes :: "int option"
  in_provenance :: pyval

record instance_spec =
  is_definition :: string
  is_trigger :: pydict
  is_outputs :: pydict
  is_chain :: "pyval list"
  is_case :: "string \<times> string"
  is_input :: "case_input option"

record case_record =
  c_id :: string
  c_trigger :: string
  c_state :: "string option"
  c_terminal :: "string option"
  c_episode :: "string option"
  c_episode_id :: "string option"
  c_episode_id_source :: "string option"
  c_instances :: "(nat \<times> string \<times> string) list"
  c_transitions :: "transition list"
  c_seeded_by :: "string option"
  c_predecessor :: "string option"
  c_revisions :: "revision list"

datatype effect =
    Opened nat instance_spec
  | RecordWritten nat pyval "string option" pyval
  | SeederStamped nat string
  | SummaryWritten string pyval "transition list" "string option"

record run_state =
  rs_case :: case_record
  rs_ep :: episode
  rs_facts :: pydict
  rs_flat :: pydict
  rs_current :: "case_input option"
  rs_outputs :: pydict
  rs_chain :: "pyval list"
  rs_log :: "effect list"

record case_world =
  cw_rend :: "pyval \<Rightarrow> string"
  cw_digest :: "pyval \<Rightarrow> string"
  cw_ep :: ep_world
  cw_triggers :: "(string \<times> trigger) list"
  cw_tables :: tables
  cw_now :: "nat \<Rightarrow> string"
  cw_race :: "ep_request list"
  cw_child :: "nat \<Rightarrow> instance_spec \<Rightarrow> (string + pydict) option"
  cw_between :: "nat \<Rightarrow> ep_request list"
  cw_emitted :: "nat \<Rightarrow> pyval list"
  cw_record_http :: "nat \<Rightarrow> nat \<Rightarrow> http list"
  cw_stamp_http :: "nat \<Rightarrow> http list"
  cw_summary_http :: "http list"
  cw_text :: "terminal_error \<Rightarrow> string"

type_synonym 'a run = "(run_state, stop, 'a) proc"

definition dec :: "case_world \<Rightarrow> nat \<Rightarrow> string" where
  "dec w n = str_of (cw_rend w) (PInt (int n))"

definition child_key :: "case_world \<Rightarrow> string \<Rightarrow> nat \<Rightarrow> string" where
  "child_key w case_id n = case_id @ [CHILD_SEP] @ dec w n"

definition terminally :: "int \<Rightarrow> routing_error + 'a \<Rightarrow> 'a run" where
  "terminally code r = lift_p (case r of
     Inl e \<Rightarrow> Inl (Terminal (RoutingFailed e code)) | Inr a \<Rightarrow> Inr a)"

definition record_transition ::
  "case_world \<Rightarrow> string option \<Rightarrow> pyval \<Rightarrow> string \<Rightarrow> pyval \<Rightarrow> pyval \<Rightarrow> pydict \<Rightarrow> unit run" where
  "record_transition w frm outcome goal who reason extra = upd_p (\<lambda>s.
     let c = rs_case s;
         t = \<lparr>tr_from = frm, tr_outcome = outcome, tr_to = goal, tr_by = who,
              tr_at = cw_now w (length (c_transitions c)), tr_reason = reason, tr_extra = extra\<rparr>
     in s\<lparr>rs_case := c\<lparr>c_transitions := c_transitions c @ [t], c_state := Some goal\<rparr>\<rparr>)"

definition log_effect :: "effect \<Rightarrow> unit run" where
  "log_effect e = upd_p (\<lambda>s. s\<lparr>rs_log := rs_log s @ [e]\<rparr>)"

definition input_of :: "revision \<Rightarrow> string \<Rightarrow> case_input" where
  "input_of rv case_id = \<lparr>in_revision = rev_no rv, in_event = case_id, in_received = rev_received rv,
     in_supersedes = rev_supersedes rv, in_provenance = rev_provenance rv\<rparr>"

definition summarize :: "case_world \<Rightarrow> string \<Rightarrow> pyval \<Rightarrow> unit run" where
  "summarize w state final_reason = bind_p get_p (\<lambda>s.
     let attempts = cw_summary_http w in
     (case journalled write_case_summary (take CASE_SUMMARY_MAX_ATTEMPTS attempts) of
        Wrote \<Rightarrow> log_effect (SummaryWritten state final_reason (c_transitions (rs_case s)) (c_seeded_by (rs_case s)))
      | Refused code \<Rightarrow> ret_p ()
      | Again \<Rightarrow> if length attempts < CASE_SUMMARY_MAX_ATTEMPTS then raise_p Suspended else ret_p ()))"

subsection \<open>Opening\<close>

record opened =
  o_trigger :: trigger
  o_facts :: pydict
  o_flat :: pydict
  o_episode :: "string option"
  o_provenance :: "pyval option"
  o_seeded_by :: "string option"
  o_predecessor :: "string option"

definition intake ::
  "case_world \<Rightarrow> string \<Rightarrow> string \<Rightarrow> pydict \<Rightarrow> pyval
     \<Rightarrow> routing_error + (trigger \<times> pydict \<times> string option \<times> pyval option)" where
  "intake w case_id name facts block =
     bind_r (load_trigger (cw_triggers w) name) (\<lambda>trig.
     (let flat = flatten (PDict facts) [] in
     bind_r (check_intake (cw_rend w) trig flat case_id (Some facts)) (\<lambda>_.
     bind_r (require_r (\<not> (block = PNone \<and> t_episode trig \<noteq> [])) NeedsProvenance) (\<lambda>_.
     bind_r (if block = PNone then Inr None
             else map_sum id Some (provenance_block (w_prov (cw_ep w)) block)) (\<lambda>prov.
       Inr (trig, flat, episode_key (cw_digest w) trig flat, prov))))))"

text \<open>An optional field of the request: absent, or a non-blank string.\<close>

definition optional_name :: "terminal_error \<Rightarrow> pyval \<Rightarrow> terminal_error + string option" where
  "optional_name e v = (if v = PNone then Inr None
     else if is_nonblank_str v then Inr (Some (str_or_nil v)) else Inl e)"

definition open_case :: "case_world \<Rightarrow> string \<Rightarrow> pydict \<Rightarrow> terminal_error + opened" where
  "open_case w case_id request = (case dget request ''facts'' of
     PDict facts \<Rightarrow>
       bind_r (case intake w case_id (str_or_empty (cw_rend w) (dget request ''trigger'')) facts
                 (dget request ''provenance'') of
                 Inl e \<Rightarrow> Inl (RoutingFailed e 400) | Inr i \<Rightarrow> Inr i) (\<lambda>(trig, flat, episode, prov).
       bind_r (optional_name BadSeededBy (dget request ''seeded_by'')) (\<lambda>seeded.
       bind_r (optional_name BadPredecessor (dget request ''predecessor'')) (\<lambda>pred.
         Inr \<lparr>o_trigger = trig, o_facts = facts, o_flat = flat, o_episode = episode,
               o_provenance = prov, o_seeded_by = seeded, o_predecessor = pred\<rparr>)))
   | _ \<Rightarrow> Inl FactsMissingFromRequest)"

text \<open>The episode's name: the source system's when the event carries it, else the derived key.\<close>

definition episode_name :: "opened \<Rightarrow> string option \<times> string option" where
  "episode_name ob =
     (let source = (case t_episode_id (o_trigger ob) of
                      Some p \<Rightarrow> if p = [] then PNone else dget (o_flat ob) p | None \<Rightarrow> PNone)
      in if is_nonblank_str source then (Some (str_or_nil source), Some ''event'')
         else (o_episode ob, case o_episode ob of None \<Rightarrow> None | Some _ \<Rightarrow> Some ''derived''))"

definition new_case :: "opened \<Rightarrow> string \<Rightarrow> string \<Rightarrow> case_record" where
  "new_case ob case_id name =
     \<lparr>c_id = case_id, c_trigger = name, c_state = None, c_terminal = None, c_episode = o_episode ob,
      c_episode_id = fst (episode_name ob), c_episode_id_source = snd (episode_name ob),
      c_instances = [], c_transitions = [], c_seeded_by = o_seeded_by ob,
      c_predecessor = o_predecessor ob, c_revisions = []\<rparr>"

definition last_at :: "case_record \<Rightarrow> pyval" where
  "last_at c = PStr (tr_at (last (c_transitions c)))"

definition plant_revision :: "case_world \<Rightarrow> opened \<Rightarrow> revision option run" where
  "plant_revision w ob = (case o_provenance ob of
     None \<Rightarrow> ret_p None
   | Some prov \<Rightarrow> bind_p get_p (\<lambda>s.
       bind_p (terminally 400 (first_revision (w_instant (cw_ep w)) (w_prov (cw_ep w))
                 (last_at (rs_case s)) prov)) (\<lambda>rv.
       then_p (upd_p (\<lambda>s. s\<lparr>rs_case := (rs_case s)\<lparr>c_revisions := [rv]\<rparr>,
                 rs_current := Some (input_of rv (c_id (rs_case s)))\<rparr>))
         (ret_p (Some rv)))))"

subsection \<open>Triage\<close>

datatype answer =
    Closed "string option"
  | AttachedTo string
  | AttachRefused

text \<open>
  The claim answered another case: between the claim and the attach the object answers other
  requests (\<open>cw_race\<close>).
\<close>

definition attach_to_owner ::
  "case_world \<Rightarrow> opened \<Rightarrow> string \<Rightarrow> string \<Rightarrow> string \<Rightarrow> answer option run" where
  "attach_to_owner w ob case_id ep_key owner =
     then_p (upd_p (\<lambda>s. s\<lparr>rs_ep := fst (ep_run (cw_ep w) (rs_ep s) (cw_race w))\<rparr>))
     (bind_p get_p (\<lambda>s.
        let reply = attach (w_seeder (cw_ep w)) (rs_ep s) (PStr case_id) (last_at (rs_case s)) PNone
              (case o_seeded_by ob of None \<Rightarrow> PNone | Some d \<Rightarrow> PStr d)
        in then_p (upd_p (\<lambda>s. s\<lparr>rs_ep := fst reply\<rparr>))
          (case snd reply of
             Inl e \<Rightarrow> raise_p (Terminal (EpisodeRefused e))
           | Inr att \<Rightarrow>
               if at_refused att then
                 then_p (record_transition w (Some ''received'') (PStr NOT_THE_SEEDER) ''failed''
                     (PStr ''system'')
                     (PStr (''episode '' @ ep_key @ '' is open in a case this delegate did not seed'')) [])
                   (ret_p (Some AttachRefused))
               else
                 then_p (record_transition w (Some ''received'') (PStr ''duplicate'') ''attached''
                     (PStr ''system'') (PStr (''episode '' @ ep_key @ '' is open in case '' @ owner)) [])
                   (ret_p (Some (AttachedTo owner))))))"

text \<open>\<open>None\<close> goes on: the case holds its episode.\<close>

definition triage_episode ::
  "case_world \<Rightarrow> opened \<Rightarrow> string \<Rightarrow> revision option \<Rightarrow> string \<Rightarrow> answer option run" where
  "triage_episode w ob case_id rev1 ep_key = bind_p get_p (\<lambda>s.
     let claimed = claim (rs_ep s) case_id \<lparr>ch_revision = rev1, ch_facts = o_facts ob\<rparr> (o_seeded_by ob)
     in then_p (upd_p (\<lambda>s. s\<lparr>rs_ep := fst claimed\<rparr>))
       (if snd claimed = case_id then ret_p None
        else attach_to_owner w ob case_id ep_key (snd claimed)))"

subsection \<open>One hop: an instance, and what its ending leads to\<close>

definition refresh ::
  "case_world \<Rightarrow> trigger \<Rightarrow> unit run" where
  "refresh w trig = bind_p get_p (\<lambda>s. case rs_current s of
     None \<Rightarrow> raise_p (Terminal NoRevisionChain)
   | Some current \<Rightarrow>
       bind_p (terminally 500
         (case (if c_episode (rs_case s) = None then None else newest_revision (rs_ep s)) of
            None \<Rightarrow> Inr (newer_revision (in_revision current) None)
          | Some h \<Rightarrow> (case ch_revision h of
              None \<Rightarrow> Inl KeptNotRevision
            | Some rv \<Rightarrow> Inr (newer_revision (in_revision current) (Some (rv, ch_facts h)))))) (\<lambda>best.
       case best of
         None \<Rightarrow> ret_p ()
       | Some (rv, facts) \<Rightarrow>
           bind_p (terminally 422 (check_revision (cw_rend w) (cw_digest w) trig (PDict facts)
                     (c_id (rs_case s)) (c_episode (rs_case s)))) (\<lambda>flat.
           upd_p (\<lambda>s. s\<lparr>rs_case := (rs_case s)\<lparr>c_revisions := c_revisions (rs_case s) @ [rv]\<rparr>,
             rs_facts := facts, rs_flat := flat,
             rs_current := Some (input_of rv (c_id (rs_case s)))\<rparr>))))"

text \<open>\<open>next((e.get("approver_sub") for e in reversed(chain) if e.get("approver_sub")), None)\<close>\<close>

definition last_approver :: "pyval list \<Rightarrow> pyval" where
  "last_approver ch = (case filter truthy (map (\<lambda>e. dget (dict_or_nil e) ''approver_sub'') (rev ch)) of
     [] \<Rightarrow> PNone | v # _ \<Rightarrow> v)"

definition deciding_kind :: "pydict \<Rightarrow> pyval" where
  "deciding_kind env =
     (case filter (\<lambda>r. py_eq (dget (dict_or_nil r) ''step_id'') (dget env ''outcome_step_id''))
             (list_or_nil (dget env ''step_results'')) of
        [] \<Rightarrow> PNone | r # _ \<Rightarrow> dget (dict_or_nil r) ''kind'')"

definition or_else :: "pyval \<Rightarrow> pyval \<Rightarrow> pyval" where
  "or_else a b = (if truthy a then a else b)"

definition acted_by :: "pydict \<Rightarrow> pydict \<Rightarrow> pyval list \<Rightarrow> pyval" where
  "acted_by step env ch = (let who = dget step ''acted_by'' in
     if \<not> truthy who \<and> deciding_kind env = PStr ''emit'' then last_approver ch else who)"

definition child_answer :: "(string + pydict) option \<Rightarrow> stop + pydict" where
  "child_answer a = (case a of
     None \<Rightarrow> Inl Suspended
   | Some (Inl text) \<Rightarrow> Inl (Terminal (InstanceRaised text))
   | Some (Inr env) \<Rightarrow> Inr env)"

definition run_child :: "case_world \<Rightarrow> string \<Rightarrow> nat \<Rightarrow> pydict run" where
  "run_child w did n = bind_p get_p (\<lambda>s.
     let c = rs_case s;
         spec = \<lparr>is_definition = did, is_trigger = rs_facts s, is_outputs = rs_outputs s,
                  is_chain = rs_chain s, is_case = (c_id c, c_trigger c), is_input = rs_current s\<rparr>
     in then_p (log_effect (Opened n spec))
       (then_p (upd_p (\<lambda>s. s\<lparr>rs_case := (rs_case s)\<lparr>c_instances := c_instances (rs_case s) @
                    [(n, child_key w (c_id (rs_case s)) n, did)]\<rparr>,
                  rs_ep := fst (ep_run (cw_ep w) (rs_ep s) (cw_between w n))\<rparr>))
       (bind_p (lift_p (child_answer (cw_child w n spec))) (\<lambda>env.
        then_p (upd_p (\<lambda>s. s\<lparr>rs_outputs := dict_or_nil (dget env ''outputs''),
                  rs_chain := list_or_nil (dget env ''approval_chain'')\<rparr>))
          (ret_p env)))))"

definition write_item :: "case_world \<Rightarrow> nat \<Rightarrow> string option \<Rightarrow> pyval \<Rightarrow> nat \<times> pyval \<Rightarrow> unit run" where
  "write_item w n seeded behalf p =
     (case journalled write_action_record (cw_record_http w n (fst p)) of
        Wrote \<Rightarrow> log_effect (RecordWritten n (dget (dict_or_nil (snd p)) ''record'') seeded behalf)
      | Refused code \<Rightarrow> raise_p (Terminal (RecordRefused code))
      | Again \<Rightarrow> raise_p Suspended)"

definition write_records :: "case_world \<Rightarrow> nat \<Rightarrow> unit run" where
  "write_records w n = bind_p get_p (\<lambda>s.
     let emitted = cw_emitted w n;
         seeded = c_seeded_by (rs_case s);
         behalf = (case seeded of Some d \<Rightarrow> PStr d | None \<Rightarrow> last_approver (rs_chain s))
     in if emitted = [] then ret_p ()
        else if \<not> truthy behalf then raise_p (Terminal NobodyToWriteFor)
        else each_p (write_item w n seeded behalf) (enumerate 1 emitted))"

definition stamp :: "case_world \<Rightarrow> nat \<Rightarrow> unit run" where
  "stamp w n = bind_p get_p (\<lambda>s. case c_seeded_by (rs_case s) of
     None \<Rightarrow> ret_p ()
   | Some d \<Rightarrow> (case journalled stamp_seeded_by (cw_stamp_http w n) of
        Wrote \<Rightarrow> log_effect (SeederStamped n d)
      | Refused code \<Rightarrow> raise_p (Terminal (StampRefused code))
      | Again \<Rightarrow> raise_p Suspended))"

definition release_work :: "case_world \<Rightarrow> nat \<Rightarrow> pyval \<Rightarrow> unit run" where
  "release_work w n outcome =
     (if outcome = PStr SEEDED_BY_STAMP_OUTCOME then then_p (write_records w n) (stamp w n) else ret_p ())"

text \<open>What the chaining decision brings: a refresh, the transition, and the release's writes.\<close>

definition conclude :: "case_world \<Rightarrow> trigger \<Rightarrow> string \<Rightarrow> nat \<Rightarrow> pydict \<Rightarrow> route \<Rightarrow> unit run" where
  "conclude w trig did n env nxt =
     (let step = dict_or_nil (lookup_step env did); again = r_refresh nxt \<and> \<not> r_terminal nxt in
     then_p (if again then refresh w trig else ret_p ())
     (bind_p get_p (\<lambda>s.
     then_p (record_transition w (Some did) (dget env ''outcome'') (r_then nxt)
         (or_else (acted_by step env (rs_chain s)) (PStr ''system'')) (or_else (dget step ''comments'') PNone)
         ([(''instance_id'', PStr (child_key w (c_id (rs_case s)) n)),
           (''decided_by'', PStr (str_of (cw_rend w) (r_table nxt) @ '' row '' @ dec w (r_row nxt)))]
          @ (case rs_current s of Some i \<Rightarrow> if again then [(''input_revision'', PInt (in_revision i))] else []
              | None \<Rightarrow> [])))
       (release_work w n (dget env ''outcome'')))))"

definition hop :: "case_world \<Rightarrow> trigger \<Rightarrow> string \<Rightarrow> nat \<Rightarrow> route run" where
  "hop w trig did n =
     bind_p (run_child w did n) (\<lambda>env.
     bind_p get_p (\<lambda>s.
     bind_p (terminally 422 (chain (cw_rend w) (cw_tables w) did
       (termination_facts (rs_flat s) env did (c_transitions (rs_case s))))) (\<lambda>nxt.
     then_p (conclude w trig did n env nxt) (ret_p nxt))))"

fun hops :: "case_world \<Rightarrow> trigger \<Rightarrow> nat \<Rightarrow> nat \<Rightarrow> string \<Rightarrow> unit run" where
  "hops w trig 0 n did = raise_p (Terminal TooManyInstances)"
| "hops w trig (Suc fuel) n did = bind_p (hop w trig did n) (\<lambda>nxt.
     if r_terminal nxt then
       then_p (upd_p (\<lambda>s. s\<lparr>rs_case := (rs_case s)\<lparr>c_terminal := Some (r_then nxt)\<rparr>\<rparr>))
       (bind_p get_p (\<lambda>s. summarize w (r_then nxt) (tr_reason (last (c_transitions (rs_case s))))))
     else hops w trig fuel (n + 1) (r_then nxt))"

definition run_body :: "case_world \<Rightarrow> opened \<Rightarrow> unit run" where
  "run_body w ob =
     bind_p (terminally 422 (select (cw_tables w) (o_trigger ob) (o_flat ob))) (\<lambda>sel.
     then_p (record_transition w (Some ''triaged'') (PStr ''selected'') (r_then sel) (PStr ''system'')
         (PStr (str_of (cw_rend w) (r_table sel) @ '' row '' @ dec w (r_row sel))) [])
       (hops w (o_trigger ob) MAX_INSTANCES 1 (r_then sel)))"

definition free_episode :: "string \<Rightarrow> unit run" where
  "free_episode case_id = upd_p (\<lambda>s.
     if c_episode (rs_case s) = None then s else s\<lparr>rs_ep := release (rs_ep s) case_id\<rparr>)"

text \<open>The \<open>try\<close> around the body: a failed case is recorded, summarised and frees its episode.\<close>

definition fail_case :: "case_world \<Rightarrow> string \<Rightarrow> terminal_error \<Rightarrow> 'a run" where
  "fail_case w case_id e = bind_p get_p (\<lambda>s.
     then_p (record_transition w (c_state (rs_case s)) (PStr ''failed'') ''failed'' (PStr ''system'')
         (PStr (cw_text w e)) [])
     (then_p (summarize w ''failed'' (PStr (cw_text w e)))
     (then_p (free_episode case_id) (raise_p (Terminal e)))))"

definition guarded :: "case_world \<Rightarrow> string \<Rightarrow> 'a run \<Rightarrow> 'a run" where
  "guarded w case_id body = catch_p body (\<lambda>stop. case stop of
     Terminal e \<Rightarrow> fail_case w case_id e
   | Suspended \<Rightarrow> raise_p Suspended)"

definition run_opened :: "case_world \<Rightarrow> opened \<Rightarrow> string \<Rightarrow> answer run" where
  "run_opened w ob case_id =
     then_p (record_transition w None (PStr ''received'') ''received'' (PStr ''system'') PNone [])
     (bind_p (plant_revision w ob) (\<lambda>rev1.
      bind_p (case o_episode ob of None \<Rightarrow> ret_p None
              | Some ep_key \<Rightarrow> triage_episode w ob case_id rev1 ep_key) (\<lambda>early.
      case early of
        Some a \<Rightarrow> ret_p a
      | None \<Rightarrow>
          then_p (record_transition w (Some ''received'') (PStr ''triaged'') ''triaged'' (PStr ''system'') PNone [])
          (then_p (guarded w case_id (run_body w ob))
          (then_p (free_episode case_id)
          (bind_p get_p (\<lambda>s. ret_p (Closed (c_terminal (rs_case s))))))))))"

definition start_state :: "case_world \<Rightarrow> opened \<Rightarrow> episode \<Rightarrow> string \<Rightarrow> pydict \<Rightarrow> run_state" where
  "start_state w ob ep case_id request =
     \<lparr>rs_case = new_case ob case_id (str_or_empty (cw_rend w) (dget request ''trigger'')),
      rs_ep = ep, rs_facts = o_facts ob, rs_flat = o_flat ob, rs_current = None,
      rs_outputs = [], rs_chain = [], rs_log = []\<rparr>"

definition run_case ::
  "case_world \<Rightarrow> episode \<Rightarrow> string \<Rightarrow> pydict \<Rightarrow> (stop + answer) \<times> run_state option" where
  "run_case w ep case_id request = (case open_case w case_id request of
     Inl e \<Rightarrow> (Inl (Terminal e), None)
   | Inr ob \<Rightarrow> map_prod id Some (run_opened w ob case_id (start_state w ob ep case_id request)))"

subsection \<open>What the steps leave alone\<close>

text \<open>The part of the record a transition writes, and what only opening writes.\<close>

definition path_view :: "run_state \<Rightarrow> transition list \<times> string option" where
  "path_view s = (c_transitions (rs_case s), c_state (rs_case s))"

definition fixed_view :: "run_state \<Rightarrow> string \<times> string option \<times> string option \<times> string option" where
  "fixed_view s = (c_id (rs_case s), c_episode (rs_case s), c_seeded_by (rs_case s), c_terminal (rs_case s))"

lemma keeps_terminally [keeps_rules]: "keeps I (terminally code r)"
  by (simp add: terminally_def keeps_lift)

lemmas run_defs = log_effect_def path_view_def fixed_view_def Let_def

lemma view_steps:
  "keeps (\<lambda>s. V (path_view s) (fixed_view s)) (log_effect e)"
  "keeps (\<lambda>s. V (path_view s) (fixed_view s)) (summarize w st r)"
  "keeps (\<lambda>s. V (path_view s) (fixed_view s)) (refresh w trig)"
  "keeps (\<lambda>s. V (path_view s) (fixed_view s)) (run_child w did n)"
  "keeps (\<lambda>s. V (path_view s) (fixed_view s)) (release_work w n oc)"
  "keeps (\<lambda>s. V (path_view s) (fixed_view s)) (free_episode c)"
  "keeps (\<lambda>s. V (path_view s) (fixed_view s)) (plant_revision w ob)"
  unfolding summarize_def refresh_def run_child_def release_work_def write_records_def write_item_def stamp_def
    free_episode_def plant_revision_def
  by (auto intro!: keeps_rules simp: run_defs split: attempt.split option.split)

lemmas path_view_steps [keeps_rules] = view_steps [where V = "\<lambda>p f. W p" for W]
lemmas fixed_view_steps [keeps_rules] = view_steps [where V = "\<lambda>p f. W f" for W]

lemma fixed_view_record [keeps_rules]:
  "keeps (\<lambda>s. V (fixed_view s)) (record_transition w f out g b r x)"
  unfolding record_transition_def by (auto intro!: keeps_rules simp: run_defs)

subsection \<open>The path of a case\<close>

definition at_goal :: "string \<Rightarrow> run_state \<Rightarrow> bool" where
  "at_goal q s \<longleftrightarrow> (let (trs, st) = path_view s in
     trs \<noteq> [] \<and> tr_from (hd trs) = None \<and> tr_to (last trs) = q \<and> st = Some q \<and>
     successively (\<lambda>a b. tr_from b = Some (tr_to a)) trs)"

definition on_path :: "run_state \<Rightarrow> bool" where
  "on_path s \<longleftrightarrow> (\<exists>q. at_goal q s)"

lemma keeps_at_goal:
  assumes "\<And>V. keeps (\<lambda>s. V (path_view s)) m"
  shows "keeps (at_goal q) m" and "keeps on_path m"
proof -
  have "at_goal q = (\<lambda>s. (\<lambda>(trs, st). trs \<noteq> [] \<and> tr_from (hd trs) = None \<and> tr_to (last trs) = q \<and> st = Some q \<and>
     successively (\<lambda>a b. tr_from b = Some (tr_to a)) trs) (path_view s))" for q
    by (simp add: at_goal_def fun_eq_iff)
  note eq = this
  show "keeps (at_goal q) m" unfolding eq by (rule assms)
  show "keeps on_path m" unfolding on_path_def eq
    using assms [of "\<lambda>v. \<exists>q. case v of (trs, st) \<Rightarrow> trs \<noteq> [] \<and> tr_from (hd trs) = None \<and>
      tr_to (last trs) = q \<and> st = Some q \<and> successively (\<lambda>a b. tr_from b = Some (tr_to a)) trs"] .
qed

lemmas goal_steps [keeps_rules] = path_view_steps [THEN keeps_at_goal(1)] path_view_steps [THEN keeps_at_goal(2)]

lemma record_moves:
  "triple (at_goal q) (record_transition w (Some q) out g b r x) (\<lambda>_. at_goal g) E"
  unfolding record_transition_def
  by (rule triple_upd) (auto simp: at_goal_def path_view_def Let_def successively_append_iff)

lemma at_goal_on_path: "at_goal q s \<Longrightarrow> on_path s"
  by (auto simp: on_path_def)

lemma keeps_goal_triple:
  "keeps (at_goal q) m \<Longrightarrow> triple (at_goal q) m (\<lambda>_. at_goal q) (\<lambda>_. on_path)"
  by (auto simp: keeps_def intro: triple_post at_goal_on_path)

lemma goal_cases [keeps_rules]:
  "keeps (at_goal q) (if b then refresh w trig else ret_p ())"
  by (simp add: keeps_rules)

lemma triple_terminally:
  "(\<And>a s. r = Inr a \<Longrightarrow> P s \<Longrightarrow> Q a s) \<Longrightarrow> (\<And>e s. r = Inl e \<Longrightarrow> P s \<Longrightarrow> E (Terminal (RoutingFailed e code)) s) \<Longrightarrow>
     triple P (terminally code r) Q E"
  by (cases r) (simp_all add: terminally_def triple_def lift_p_def)

lemma conclude_moves:
  "triple (at_goal did) (conclude w trig did n env nxt) (\<lambda>_. at_goal (r_then nxt)) (\<lambda>_. on_path)"
  unfolding conclude_def Let_def
  by (rule triple_then [OF keeps_goal_triple [OF goal_cases]] triple_bind [OF keeps_goal_triple [OF keeps_get]]
      triple_then [OF record_moves] keeps_goal_triple goal_steps(5))+

lemma hop_moves:
  "triple (at_goal did) (hop w trig did n)
     (\<lambda>nxt s. at_goal (r_then nxt) s \<and> (\<exists>facts. chain (cw_rend w) (cw_tables w) did facts = Inr nxt))
     (\<lambda>_. on_path)"
proof -
  have fin: "triple (\<lambda>s. at_goal did s \<and> chained) (then_p (conclude w trig did n env nxt) (ret_p nxt))
      (\<lambda>nxt' s. at_goal (r_then nxt') s \<and> nxt' = nxt \<and> chained) (\<lambda>_. on_path)" for env nxt chained
    by (rule triple_then [where R = "\<lambda>s. at_goal (r_then nxt) s \<and> chained"])
      (use conclude_moves [of did w trig n env nxt] in
        \<open>auto simp: triple_def ret_p_def split: prod.split sum.split\<close>)
  show ?thesis
    unfolding hop_def
    apply (rule triple_bind [OF keeps_goal_triple [OF goal_steps(4)]])
    apply (rule triple_bind [OF keeps_goal_triple [OF keeps_get]])
    subgoal for env s
      apply (rule triple_bind [where R = "\<lambda>nxt s'. at_goal did s' \<and>
          chain (cw_rend w) (cw_tables w) did (termination_facts (rs_flat s) env did (c_transitions (rs_case s))) = Inr nxt"])
       apply (rule triple_terminally; simp add: at_goal_on_path)
      apply (rule triple_post [OF fin]; blast)
      done
    done
qed

definition closed_by_table :: "case_world \<Rightarrow> run_state \<Rightarrow> bool" where
  "closed_by_table w s \<longleftrightarrow> (\<exists>did facts nxt. chain (cw_rend w) (cw_tables w) did facts = Inr nxt \<and>
     r_terminal nxt \<and> c_terminal (rs_case s) = Some (r_then nxt) \<and> at_goal (r_then nxt) s)"

lemma closed_by_table_steps:
  "keeps (closed_by_table w) (summarize w st r)" "keeps (closed_by_table w) (free_episode c)"
proof -
  let ?V = "\<lambda>(trs, st) (i, e, d, term). \<exists>did facts nxt. chain (cw_rend w) (cw_tables w) did facts = Inr nxt \<and>
     r_terminal nxt \<and> term = Some (r_then nxt) \<and> trs \<noteq> [] \<and> tr_from (hd trs) = None \<and>
     tr_to (last trs) = r_then nxt \<and> st = Some (r_then nxt) \<and>
     successively (\<lambda>a b. tr_from b = Some (tr_to a)) trs"
  have eq: "closed_by_table w = (\<lambda>s. ?V (path_view s) (fixed_view s))"
    by (simp add: fun_eq_iff closed_by_table_def at_goal_def path_view_def fixed_view_def)
  show "keeps (closed_by_table w) (summarize w st r)" unfolding eq by (rule view_steps(2))
  show "keeps (closed_by_table w) (free_episode c)" unfolding eq by (rule view_steps(6))
qed

lemma closed_on_path: "closed_by_table w s \<Longrightarrow> on_path s"
  by (auto simp: closed_by_table_def on_path_def)

lemma hops_moves:
  "triple (at_goal did) (hops w trig fuel n did) (\<lambda>_. closed_by_table w) (\<lambda>_. on_path)"
proof (induction fuel arbitrary: n did)
  case 0
  show ?case by (auto intro: triple_raise at_goal_on_path)
next
  case (Suc fuel)
  have fin: "triple (\<lambda>s. at_goal (r_then nxt) s \<and> (\<exists>facts. chain (cw_rend w) (cw_tables w) did facts = Inr nxt))
     (then_p (upd_p (\<lambda>s. s\<lparr>rs_case := (rs_case s)\<lparr>c_terminal := Some (r_then nxt)\<rparr>\<rparr>))
       (bind_p get_p (\<lambda>s. summarize w (r_then nxt) (tr_reason (last (c_transitions (rs_case s)))))))
     (\<lambda>_. closed_by_table w) (\<lambda>_. on_path)" if "r_terminal nxt" for nxt
    using that
    by (intro triple_then [OF triple_upd [where Q = "\<lambda>_. closed_by_table w"]]
          triple_post [OF keeps_triple [OF keeps_bind [OF keeps_get closed_by_table_steps(1)]]])
      (auto simp: closed_by_table_def at_goal_def path_view_def closed_on_path dest: closed_on_path)
  show ?case
    unfolding hops.simps
  proof (rule triple_bind [OF hop_moves])
    fix nxt
    show "triple (\<lambda>s. at_goal (r_then nxt) s \<and> (\<exists>facts. chain (cw_rend w) (cw_tables w) did facts = Inr nxt))
       (if r_terminal nxt then
          then_p (upd_p (\<lambda>s. s\<lparr>rs_case := (rs_case s)\<lparr>c_terminal := Some (r_then nxt)\<rparr>\<rparr>))
          (bind_p get_p (\<lambda>s. summarize w (r_then nxt) (tr_reason (last (c_transitions (rs_case s))))))
        else hops w trig fuel (n + 1) (r_then nxt)) (\<lambda>_. closed_by_table w) (\<lambda>_. on_path)"
    proof (cases "r_terminal nxt")
      case True
      from fin [OF True] show ?thesis by (simp add: True)
    next
      case False
      have "triple (\<lambda>s. at_goal (r_then nxt) s \<and> (\<exists>facts. chain (cw_rend w) (cw_tables w) did facts = Inr nxt))
         (hops w trig fuel (n + 1) (r_then nxt)) (\<lambda>_. closed_by_table w) (\<lambda>_. on_path)"
        by (rule triple_pre [OF Suc.IH]) blast
      then show ?thesis by (simp add: False)
    qed
  qed
qed

lemma fail_case_moves: "triple on_path (fail_case w c e) (\<lambda>_. closed_by_table w) (\<lambda>_. on_path)"
  unfolding fail_case_def
proof (rule triple_read)
  fix s assume "on_path s"
  then obtain q where q: "at_goal q s" and st: "c_state (rs_case s) = Some q"
    by (auto simp: on_path_def at_goal_def path_view_def)
  have "triple (at_goal q) (then_p (record_transition w (Some q) (PStr ''failed'') ''failed'' (PStr ''system'')
         (PStr (cw_text w e)) [])
     (then_p (summarize w ''failed'' (PStr (cw_text w e)))
     (then_p (free_episode c) (raise_p (Terminal e))))) (\<lambda>_. closed_by_table w) (\<lambda>_. on_path)"
    by (intro triple_then [OF record_moves] triple_then [OF keeps_goal_triple] goal_steps triple_raise at_goal_on_path)
  then show "triple (\<lambda>t. t = s) (then_p (record_transition w (c_state (rs_case s)) (PStr ''failed'') ''failed'' (PStr ''system'')
         (PStr (cw_text w e)) [])
     (then_p (summarize w ''failed'' (PStr (cw_text w e)))
     (then_p (free_episode c) (raise_p (Terminal e))))) (\<lambda>_. closed_by_table w) (\<lambda>_. on_path)"
    unfolding st by (rule triple_pre) (simp add: q)
qed

lemma guarded_moves:
  "triple P body (\<lambda>_. closed_by_table w) (\<lambda>_. on_path) \<Longrightarrow>
     triple P (guarded w c body) (\<lambda>_. closed_by_table w) (\<lambda>_. on_path)"
  unfolding guarded_def
  by (erule triple_catch) (auto split: stop.split intro: fail_case_moves triple_raise)

definition answered_well :: "case_world \<Rightarrow> answer \<Rightarrow> run_state \<Rightarrow> bool" where
  "answered_well w a s = (case a of
     Closed term \<Rightarrow> closed_by_table w s \<and> term = c_terminal (rs_case s)
   | AttachedTo _ \<Rightarrow> at_goal ''attached'' s
   | AttachRefused \<Rightarrow> at_goal ''failed'' s)"

definition triaged_well :: "case_world \<Rightarrow> answer option \<Rightarrow> run_state \<Rightarrow> bool" where
  "triaged_well w a s = (case a of None \<Rightarrow> at_goal ''received'' s | Some b \<Rightarrow> answered_well w b s)"

lemma triaged_well_simps [simp]:
  "triaged_well w None = at_goal ''received''"
  "triaged_well w (Some b) = answered_well w b"
  by (simp_all add: triaged_well_def fun_eq_iff)

lemma at_goal_ep [simp]: "at_goal q (s\<lparr>rs_ep := e\<rparr>) = at_goal q s"
  by (simp add: at_goal_def path_view_def)

lemma record_answer:
  "(\<And>s. at_goal g s \<Longrightarrow> answered_well w a s) \<Longrightarrow> triple (at_goal ''received'')
     (then_p (record_transition w (Some ''received'') out g b r x) (ret_p (Some a)))
     (triaged_well w) (\<lambda>_. on_path)"
  by (rule triple_then [OF record_moves]) (simp add: triple_ret)

lemma attach_to_owner_moves:
  "triple (at_goal ''received'') (attach_to_owner w ob c k h)
     (triaged_well w) (\<lambda>_. on_path)"
  unfolding attach_to_owner_def Let_def
  by (intro triple_then [OF triple_upd [where Q = "\<lambda>_. at_goal ''received''"]] triple_bind [OF keeps_goal_triple [OF keeps_get]])
    (auto split: sum.split intro!: record_answer triple_raise intro: at_goal_on_path simp: answered_well_def)

lemma triage_moves:
  "triple (at_goal ''received'') (triage_episode w ob c rev1 k)
     (triaged_well w) (\<lambda>_. on_path)"
  unfolding triage_episode_def Let_def
  by (intro triple_bind [OF keeps_goal_triple [OF keeps_get]] triple_then [OF triple_upd [where Q = "\<lambda>_. at_goal ''received''"]])
    (auto intro: attach_to_owner_moves triple_ret)

lemma run_opened_moves:
  "triple (\<lambda>s. path_view s = ([], None)) (run_opened w ob c) (answered_well w) (\<lambda>_. on_path)"
proof -
  have start: "triple (\<lambda>s. path_view s = ([], None))
     (record_transition w None out g b r x) (\<lambda>_. at_goal g) E" for out g b r x E
    unfolding record_transition_def
    by (rule triple_upd) (simp add: at_goal_def path_view_def)
  have body: "triple (at_goal ''triaged'') (run_body w ob) (\<lambda>_. closed_by_table w) (\<lambda>_. on_path)"
    unfolding run_body_def
    by (intro triple_bind [OF keeps_goal_triple [OF keeps_terminally]] triple_then [OF record_moves] hops_moves)
  have fin: "triple (at_goal ''received'') (then_p (record_transition w (Some ''received'') (PStr ''triaged'') ''triaged'' (PStr ''system'') PNone [])
          (then_p (guarded w c (run_body w ob))
          (then_p (free_episode c)
          (bind_p get_p (\<lambda>s. ret_p (Closed (c_terminal (rs_case s)))))))) (answered_well w) (\<lambda>_. on_path)"
    by (intro triple_then [OF record_moves] triple_then [OF guarded_moves [OF body]]
        triple_then [OF triple_post [OF keeps_triple [OF closed_by_table_steps(2)]]] triple_read triple_ret)
      (auto simp: answered_well_def closed_on_path)
  show ?thesis
    unfolding run_opened_def
    apply (rule triple_then [OF start])
    apply (rule triple_bind [OF keeps_goal_triple [OF goal_steps(7)]])
    apply (rule triple_bind [where R = "triaged_well w"])
    subgoal by (auto split: option.split intro: triage_moves triple_ret)
    subgoal for rev1 early by (cases early) (simp_all add: fin triple_ret)
    done
qed

lemma run_case_triple:
  assumes "run_case w ep c req = (r, Some s)"
    and "\<And>ob. open_case w c req = Inr ob \<Longrightarrow> triple P (run_opened w ob c) Q E"
    and "\<And>ob. open_case w c req = Inr ob \<Longrightarrow> P (start_state w ob ep c req)"
  shows "case r of Inl e \<Rightarrow> E e s | Inr a \<Rightarrow> Q a s"
proof -
  from assms(1) obtain ob where ob: "open_case w c req = Inr ob"
    and run: "run_opened w ob c (start_state w ob ep c req) = (r, s)"
    by (cases "open_case w c req") (auto simp: run_case_def map_prod_def split: prod.splits)
  from triple_run [OF assms(2) [OF ob] assms(3) [OF ob]] show ?thesis
    by (simp only: run prod.case)
qed

text \<open>
  C1. The record of a case is one path: however a run ends, its transitions start at the
  reception and each leaves from where the one before arrived, and the state the record shows is
  where the last arrived. A case answered as closed ended where a chaining table's terminal row
  sent it, an attached or refused one in the state of that name.
\<close>

theorem case_record_is_one_path:
  assumes "run_case w ep c req = (r, Some s)"
  shows "let trs = c_transitions (rs_case s) in
     trs \<noteq> [] \<and> tr_from (hd trs) = None \<and> successively (\<lambda>a b. tr_from b = Some (tr_to a)) trs \<and>
     c_state (rs_case s) = Some (tr_to (last trs)) \<and>
     (case r of
        Inr (Closed term) \<Rightarrow> (\<exists>did facts nxt. chain (cw_rend w) (cw_tables w) did facts = Inr nxt \<and>
          r_terminal nxt \<and> r_then nxt = tr_to (last trs) \<and> term = Some (r_then nxt))
      | Inr (AttachedTo _) \<Rightarrow> tr_to (last trs) = ''attached''
      | Inr AttachRefused \<Rightarrow> tr_to (last trs) = ''failed''
      | Inl _ \<Rightarrow> True)"
proof -
  have "case r of Inl e \<Rightarrow> on_path s | Inr a \<Rightarrow> answered_well w a s"
    by (rule run_case_triple [OF assms run_opened_moves])
      (simp add: path_view_def start_state_def new_case_def)
  then show ?thesis
    by (auto simp: answered_well_def closed_by_table_def on_path_def at_goal_def path_view_def Let_def
        split: sum.splits answer.splits) metis+
qed

subsection \<open>A sample case\<close>

definition alarm_trigger :: trigger where
  "alarm_trigger = \<lparr>t_name = ''alarm'', t_selection = ''sel'', t_key = ''id'', t_episode = [''asset''],
     t_episode_id = None, t_requires = [], t_carries = [], t_refresh = None\<rparr>"

definition sel_table :: pydict where
  "sel_table = [(''decision'', PStr ''sel''), (''matches'', PList [PStr ''asset'']),
     (''domain'', PDict [(''asset'', PList [PStr ''pump''])]),
     (''rows'', PList [PDict [(''when'', PDict [(''asset'', PStr ''pump'')]), (''then'', PStr ''fix'')]])]"

definition fix_table :: pydict where
  "fix_table = [(''decision'', PStr ''fix_next''), (''after'', PStr ''fix''), (''matches'', PList [PStr ''outcome'']),
     (''terminals'', PList [PStr ''done'']),
     (''domain'', PDict [(''outcome'', PList [PStr ''released'', PStr ''again''])]),
     (''rows'', PList [PDict [(''when'', PDict [(''outcome'', PStr ''released'')]), (''then'', PStr ''done'')],
                       PDict [(''when'', PDict [(''outcome'', PStr ''again'')]), (''then'', PStr ''fix'')]])]"

text \<open>A case of alarm \<open>a1\<close>; the instance of \<open>fix\<close> ends released after \<open>k\<close> ends with \<open>again\<close>.\<close>

definition alarm_world :: "nat \<Rightarrow> ep_request list \<Rightarrow> case_world" where
  "alarm_world k race =
     \<lparr>cw_rend = (\<lambda>v. case v of PInt i \<Rightarrow> (if i = 1 then ''1'' else if i = 2 then ''2'' else ''n'') | _ \<Rightarrow> []),
      cw_digest = (\<lambda>_. ''dd''), cw_ep = plain_world, cw_triggers = [(''alarm'', alarm_trigger)],
      cw_tables = [(''sel'', sel_table), (''fix_next'', fix_table)], cw_now = (\<lambda>_. ''now''), cw_race = race,
      cw_child = (\<lambda>n spec. Some (Inr [(''outcome'', PStr (if n \<le> k then ''again'' else ''released'')),
        (''outcome_step_id'', PStr ''s''), (''approval_chain'', PList [PDict [(''approver_sub'', PStr ''kim'')]])])),
      cw_between = (\<lambda>_. []), cw_emitted = (\<lambda>_. [PDict [(''record'', PStr ''rec'')]]),
      cw_record_http = (\<lambda>_ _. [NoAnswer, Status 503, Status 201]), cw_stamp_http = (\<lambda>_. [Status 200]),
      cw_summary_http = [NoAnswer, Status 200], cw_text = (\<lambda>_. ''failed'')\<rparr>"

definition alarm_event :: pydict where
  "alarm_event = [(''trigger'', PStr ''alarm''),
     (''facts'', PDict [(''id'', PStr ''a1''), (''asset'', PStr ''pump'')]),
     (''provenance'', PStr ''door''), (''seeded_by'', PStr ''bot'')]"

definition alarm_final :: "nat \<Rightarrow> run_state" where
  "alarm_final k = the (snd (run_case (alarm_world k []) new_episode ''a1'' alarm_event))"

definition alarm_view :: "run_state \<Rightarrow> string option \<times> nat \<times> bool" where
  "alarm_view s = (c_episode (rs_case s), length (rs_log s),
     case rs_log s ! 3 of SeederStamped n d \<Rightarrow> n = 2 \<and> d = ''bot'' | _ \<Rightarrow> False)"

lemma alarm_case: "map_prod id (map_option alarm_view) (run_case (alarm_world 1 []) new_episode ''a1'' alarm_event)
    = (Inr (Closed (Some ''done'')), Some (Some ''ep-dd'', 5, True))"
  by code_simp

lemma alarm_run: "run_case (alarm_world 1 []) new_episode ''a1'' alarm_event
    = (Inr (Closed (Some ''done'')), Some (alarm_final 1))"
  and alarm_final_view: "alarm_view (alarm_final 1) = (Some ''ep-dd'', 5, True)"
  using alarm_case by (auto simp: alarm_final_def map_prod_def split: prod.splits)

theorem case_record_is_one_path_witness:
  "c_state (rs_case (alarm_final 1)) = Some ''done''"
proof -
  from case_record_is_one_path [OF alarm_run]
  have "c_state (rs_case (alarm_final 1)) = Some (tr_to (last (c_transitions (rs_case (alarm_final 1)))))"
    and "Some ''done'' = Some (tr_to (last (c_transitions (rs_case (alarm_final 1)))))"
    by (auto simp: Let_def)
  then show ?thesis by simp
qed

subsection \<open>The episode of a case that ended\<close>

definition lets_go :: "string \<Rightarrow> run_state \<Rightarrow> bool" where
  "lets_go c s \<longleftrightarrow> c_episode (rs_case s) = None \<or> holder (rs_ep s) \<noteq> Some c"

lemma release_lets_go: "holder (release ep c) \<noteq> Some c"
  by (auto simp: release_def holder_def split: option.splits)

definition claims_for :: "string \<Rightarrow> ep_request \<Rightarrow> bool" where
  "claims_for c q = (case q of Claim d _ _ \<Rightarrow> d = c | _ \<Rightarrow> False)"

lemma ep_run_no_claim:
  "holder ep \<noteq> Some c \<Longrightarrow> \<forall>q \<in> set qs. \<not> claims_for c q \<Longrightarrow> holder (fst (ep_run w ep qs)) \<noteq> Some c"
proof (induction qs arbitrary: ep)
  case Nil
  then show ?case by simp
next
  case (Cons q qs)
  obtain ep1 a where st: "ep_step w ep q = (ep1, a)" by (cases "ep_step w ep q")
  have "holder ep1 \<noteq> Some c"
    using st Cons.prems
    by (cases q) (auto simp: claims_for_def claim_def release_def holder_def dest!: attach_frame keep_frame
        split: prod.splits option.splits if_splits)
  from Cons.IH [OF this] Cons.prems(2) show ?case by (auto simp: st split: prod.split)
qed

lemma holder_attach [simp]: "holder (fst (attach cs ep e r i s)) = holder ep"
  by (metis attach_frame holder_cong prod.collapse)

lemma free_episode_lets_go: "triple P (free_episode c) (\<lambda>_. lets_go c) E"
  unfolding free_episode_def
  by (rule triple_upd) (auto simp: lets_go_def release_lets_go)

lemma triple_any: "triple P m (\<lambda>_ _. True) (\<lambda>_ _. True)"
  by (auto simp: triple_def split: prod.split sum.split)

lemma record_any: "triple P (record_transition w f out g b r x) (\<lambda>_ _. True) E"
  by (simp add: record_transition_def triple_upd)

lemma summarize_raises: "triple P (summarize w st r) (\<lambda>_ _. True) (\<lambda>e _. e = Suspended)"
  unfolding summarize_def Let_def log_effect_def
  by (rule triple_read) (auto split: attempt.split intro!: triple_upd triple_ret triple_raise)

lemma fail_case_lets_go:
  "triple P (fail_case w c e) Q (\<lambda>e s. e = Suspended \<or> lets_go c s)"
  unfolding fail_case_def
proof (rule triple_read)
  fix s
  have rec: "triple (\<lambda>t. t = s) (record_transition w f out g b r x) (\<lambda>_ _. True) E" for f out g b r x E
    by (simp add: record_transition_def triple_upd)
  have sm: "triple (\<lambda>_. True) (summarize w st r) (\<lambda>_ _. True) (\<lambda>e s. e = Suspended \<or> lets_go c s)" for st r
    by (rule triple_post [OF summarize_raises]) simp_all
  show "triple (\<lambda>t. t = s) (then_p (record_transition w (c_state (rs_case s)) (PStr ''failed'') ''failed'' (PStr ''system'')
         (PStr (cw_text w e)) [])
     (then_p (summarize w ''failed'' (PStr (cw_text w e)))
     (then_p (free_episode c) (raise_p (Terminal e))))) Q (\<lambda>e s. e = Suspended \<or> lets_go c s)"
    by (intro triple_then [OF rec] triple_then [OF sm] triple_then [OF free_episode_lets_go] triple_raise) simp
qed

lemma guarded_lets_go:
  "triple P (guarded w c body) (\<lambda>_ _. True) (\<lambda>e s. e = Suspended \<or> lets_go c s)"
  unfolding guarded_def
  by (rule triple_catch [OF triple_any]) (auto split: stop.split intro: fail_case_lets_go triple_raise)

lemma ep_view_steps [keeps_rules]:
  "keeps (\<lambda>s. V (rs_ep s)) (record_transition w f out g b r x)"
  "keeps (\<lambda>s. V (rs_ep s)) (plant_revision w ob)"
  unfolding record_transition_def plant_revision_def
  by (auto intro!: keeps_rules simp: Let_def split: option.split)

lemma attach_to_owner_holder:
  assumes "\<forall>q \<in> set (cw_race w). \<not> claims_for c q"
  shows "keeps (\<lambda>s. holder (rs_ep s) \<noteq> Some c) (attach_to_owner w ob c k h)"
proof -
  have rest: "triple (\<lambda>t. t = s) (then_p (upd_p (\<lambda>s. s\<lparr>rs_ep := fst reply\<rparr>)) m)
      (\<lambda>_ s. holder (rs_ep s) \<noteq> Some c) (\<lambda>_ s. holder (rs_ep s) \<noteq> Some c)"
    if "keeps (\<lambda>s. holder (rs_ep s) \<noteq> Some c) m" and "holder (fst reply) \<noteq> Some c"
    for s and reply :: "episode \<times> (ep_error + attached)" and m :: "answer option run"
    using that(1) unfolding keeps_def by (rule triple_then [OF triple_upd, rotated]) (simp add: that(2))
  show ?thesis
    unfolding attach_to_owner_def Let_def keeps_def
    by (intro triple_then [OF triple_upd [where Q = "\<lambda>_ s. holder (rs_ep s) \<noteq> Some c"]] triple_read rest)
      (auto simp: ep_run_no_claim assms intro!: keeps_rules split: sum.split)
qed

lemma triage_lets_go:
  assumes "\<forall>q \<in> set (cw_race w). \<not> claims_for c q"
  shows "triple (\<lambda>s. holder (rs_ep s) \<noteq> Some c) (triage_episode w ob c rev1 k)
     (\<lambda>a s. a \<noteq> None \<longrightarrow> holder (rs_ep s) \<noteq> Some c) (\<lambda>_ s. holder (rs_ep s) \<noteq> Some c)"
  unfolding triage_episode_def Let_def
proof (rule triple_read)
  fix s :: run_state
  let ?cl = "claim (rs_ep s) c \<lparr>ch_revision = rev1, ch_facts = o_facts ob\<rparr> (o_seeded_by ob)"
  assume h: "holder (rs_ep s) \<noteq> Some c"
  have cl: "holder (fst ?cl) \<noteq> Some c" if "snd ?cl \<noteq> c"
    using that h by (auto simp: claim_def split: option.splits)
  show "triple (\<lambda>t. t = s) (then_p (upd_p (\<lambda>s. s\<lparr>rs_ep := fst ?cl\<rparr>))
       (if snd ?cl = c then ret_p None else attach_to_owner w ob c k (snd ?cl)))
     (\<lambda>a s. a \<noteq> None \<longrightarrow> holder (rs_ep s) \<noteq> Some c) (\<lambda>_ s. holder (rs_ep s) \<noteq> Some c)"
    by (rule triple_then [OF triple_upd [where Q = "\<lambda>_ s. snd ?cl \<noteq> c \<longrightarrow> holder (rs_ep s) \<noteq> Some c"]])
      (use cl triple_post [OF keeps_triple [OF attach_to_owner_holder [OF assms]]] in
        \<open>auto intro: triple_ret\<close>)
qed

lemma run_opened_lets_go:
  assumes "\<forall>q \<in> set (cw_race w). \<not> claims_for c q"
  shows "triple (\<lambda>s. holder (rs_ep s) \<noteq> Some c) (run_opened w ob c)
     (\<lambda>_. lets_go c) (\<lambda>e s. e = Suspended \<or> lets_go c s)"
proof -
  let ?H = "\<lambda>s. holder (rs_ep s) \<noteq> Some c"
  let ?E = "\<lambda>e s. e = Suspended \<or> lets_go c s"
  have keep: "triple ?H m (\<lambda>_. ?H) ?E" if "keeps ?H m" for m :: "'b run"
    using that unfolding keeps_def by (rule triple_post) (simp_all add: lets_go_def)
  have go: "triple (\<lambda>_. True) (then_p (record_transition w f out g b r x)
          (then_p (guarded w c (run_body w ob))
          (then_p (free_episode c)
          (bind_p get_p (\<lambda>s. ret_p (Closed (c_terminal (rs_case s)))))))) (\<lambda>_. lets_go c) ?E" for f out g b r x
    by (intro triple_then [OF record_any] triple_then [OF guarded_lets_go]
        triple_then [OF free_episode_lets_go] triple_read triple_ret) simp
  show ?thesis
    unfolding run_opened_def
    apply (rule triple_then [OF keep [OF ep_view_steps(1)]])
    apply (rule triple_bind [OF keep [OF ep_view_steps(2)]])
    apply (rule triple_bind [where R = "\<lambda>a s. a \<noteq> None \<longrightarrow> ?H s"])
    subgoal for rev1
      by (cases "o_episode ob") (auto intro!: triple_ret triple_post [OF triage_lets_go [OF assms]] simp: lets_go_def)
    subgoal for rev1 early
    proof (cases early)
      case None
      then show ?thesis by (simp add: go)
    next
      case (Some a)
      then show ?thesis by (simp add: triple_ret lets_go_def)
    qed
    done
qed

text \<open>
  A case that ended never keeps its episode: whether it was answered, or failed at any step
  after the claim, the episode it named is held by another case or by none afterwards, so the
  next event of the fault opens a case instead of becoming a silent duplicate.
\<close>

theorem ended_case_frees_its_episode:
  assumes "run_case w ep c req = (r, Some s)" and "r \<noteq> Inl Suspended"
    and "holder ep \<noteq> Some c" and "\<forall>q \<in> set (cw_race w). \<not> claims_for c q"
  shows "c_episode (rs_case s) = None \<or> holder (rs_ep s) \<noteq> Some c"
proof -
  have "case r of Inl e \<Rightarrow> e = Suspended \<or> lets_go c s | Inr a \<Rightarrow> lets_go c s"
    by (rule run_case_triple [OF assms(1) run_opened_lets_go [OF assms(4)]])
      (simp add: start_state_def assms(3))
  with assms(2) show ?thesis by (auto simp: lets_go_def split: sum.splits)
qed

theorem ended_case_frees_its_episode_witness:
  "holder (rs_ep (alarm_final 1)) \<noteq> Some ''a1''"
proof -
  have ep: "c_episode (rs_case (alarm_final 1)) \<noteq> None" using alarm_final_view by (simp add: alarm_view_def)
  have race: "\<forall>q \<in> set (cw_race (alarm_world 1 [])). \<not> claims_for ''a1'' q" by (simp add: alarm_world_def)
  have free: "holder new_episode \<noteq> Some ''a1''" by (simp add: holder_def new_episode_def)
  from ended_case_frees_its_episode [OF alarm_run Inr_not_Inl free race] ep show ?thesis
    by (elim disjE) simp_all
qed

subsection \<open>An occurrence that found its episode held\<close>

lemma attached_is_recorded:
  "snd (attach cs ep (PStr ev) r i sd) = Inr att \<Longrightarrow> \<not> at_refused att \<Longrightarrow> holder ep = Some h \<Longrightarrow> ev \<noteq> h \<Longrightarrow>
     ev \<in> oc_event ` set (ep_occurrences (fst (attach cs ep (PStr ev) r i sd)) h)"
  by (auto simp: attach_def Let_def record_occurrence_def str_or_nil_def list_ex_iff image_iff
      split: if_splits prod.splits)

lemma record_ep: "triple (\<lambda>s. V (rs_ep s)) (then_p (record_transition w f out g b r x) (ret_p a))
    (\<lambda>_ s. V (rs_ep s)) E"
  by (simp add: triple_def then_p_def bind_p_def record_transition_def upd_p_def ret_p_def Let_def)

lemma attach_to_owner_records:
  assumes "\<forall>q \<in> set (cw_race w). q \<noteq> Release h" and "h \<noteq> c"
  shows "triple (\<lambda>s. holder (rs_ep s) = Some h) (attach_to_owner w ob c k h)
     (\<lambda>a s. a = Some (AttachedTo h) \<longrightarrow> c \<in> oc_event ` set (ep_occurrences (rs_ep s) h)) (\<lambda>_ _. True)"
proof -
  let ?R = "\<lambda>ep. c \<in> oc_event ` set (ep_occurrences ep h)"
  have race: "holder (fst (ep_run (cw_ep w) ep (cw_race w))) = Some h" if "holder ep = Some h" for ep
    using ep_run_keeps_holder [OF surjective_pairing that] assms(1) by blast
  have rest: "triple (\<lambda>t. t = s) (then_p (upd_p (\<lambda>s. s\<lparr>rs_ep := fst reply\<rparr>)) (case snd reply of
       Inl e \<Rightarrow> raise_p (Terminal (EpisodeRefused e))
     | Inr att \<Rightarrow> if at_refused att then then_p (record_transition w f1 o1 g1 b1 r1 x1) (ret_p (Some AttachRefused))
                  else then_p (record_transition w f2 o2 g2 b2 r2 x2) (ret_p (Some (AttachedTo h)))))
     (\<lambda>a s. a = Some (AttachedTo h) \<longrightarrow> ?R (rs_ep s)) (\<lambda>_ _. True)"
    if "\<And>att. snd reply = Inr att \<Longrightarrow> \<not> at_refused att \<Longrightarrow> ?R (fst reply)"
    for s and reply :: "episode \<times> (ep_error + attached)" and f1 o1 g1 b1 r1 x1 f2 o2 g2 b2 r2 x2
  proof (rule triple_then [OF triple_upd [where Q = "\<lambda>_ t. rs_ep t = fst reply"]])
    show "triple (\<lambda>t. rs_ep t = fst reply) (case snd reply of
       Inl e \<Rightarrow> raise_p (Terminal (EpisodeRefused e))
     | Inr att \<Rightarrow> if at_refused att then then_p (record_transition w f1 o1 g1 b1 r1 x1) (ret_p (Some AttachRefused))
                  else then_p (record_transition w f2 o2 g2 b2 r2 x2) (ret_p (Some (AttachedTo h))))
     (\<lambda>a s. a = Some (AttachedTo h) \<longrightarrow> ?R (rs_ep s)) (\<lambda>_ _. True)"
    proof (cases "snd reply")
      case (Inl e)
      then show ?thesis by (simp add: triple_raise)
    next
      case (Inr att)
      have "triple (\<lambda>t. rs_ep t = fst reply) (then_p (record_transition w f1 o1 g1 b1 r1 x1) (ret_p (Some AttachRefused)))
         (\<lambda>a s. a = Some (AttachedTo h) \<longrightarrow> ?R (rs_ep s)) (\<lambda>_ _. True)"
        by (rule triple_then [OF record_any]) (simp add: triple_ret)
      moreover have "triple (\<lambda>t. rs_ep t = fst reply) (then_p (record_transition w f2 o2 g2 b2 r2 x2) (ret_p (Some (AttachedTo h))))
         (\<lambda>a s. a = Some (AttachedTo h) \<longrightarrow> ?R (rs_ep s)) (\<lambda>_ _. True)" if "\<not> at_refused att"
        by (rule triple_post [OF record_ep]) (simp_all add: \<open>\<And>att. snd reply = Inr att \<Longrightarrow> \<not> at_refused att \<Longrightarrow> ?R (fst reply)\<close> [OF Inr that])
      ultimately show ?thesis by (simp add: Inr)
    qed
  qed simp
  show ?thesis
    unfolding attach_to_owner_def Let_def
    by (intro triple_then [OF triple_upd [where Q = "\<lambda>_ s. holder (rs_ep s) = Some h"]] triple_read rest)
      (use assms(2) race in \<open>auto intro: attached_is_recorded [simplified]\<close>)
qed

lemma triage_records:
  assumes "\<forall>q \<in> set (cw_race w). q \<noteq> Release h"
  shows "triple (\<lambda>_. True) (triage_episode w ob c rev1 k)
     (\<lambda>a s. a = Some (AttachedTo h) \<longrightarrow> c \<in> oc_event ` set (ep_occurrences (rs_ep s) h)) (\<lambda>_ _. True)"
  unfolding triage_episode_def Let_def
proof (rule triple_read)
  fix s :: run_state
  let ?cl = "claim (rs_ep s) c \<lparr>ch_revision = rev1, ch_facts = o_facts ob\<rparr> (o_seeded_by ob)"
  have other: "triple P (attach_to_owner w ob c k h')
     (\<lambda>a s. a = Some (AttachedTo h) \<longrightarrow> c \<in> oc_event ` set (ep_occurrences (rs_ep s) h)) (\<lambda>_ _. True)"
    if "h' \<noteq> h" for P h'
    unfolding attach_to_owner_def using that
    by (auto simp: triple_def then_p_def bind_p_def upd_p_def get_p_def Let_def ret_p_def raise_p_def
        record_transition_def split: sum.split prod.split)
  have held: "holder (fst ?cl) = Some (snd ?cl)" if "snd ?cl \<noteq> c"
    using that by (auto simp: claim_def split: option.splits)
  have "triple (\<lambda>t. snd ?cl \<noteq> c \<longrightarrow> holder (rs_ep t) = Some (snd ?cl))
     (if snd ?cl = c then ret_p None else attach_to_owner w ob c k (snd ?cl))
     (\<lambda>a s. a = Some (AttachedTo h) \<longrightarrow> c \<in> oc_event ` set (ep_occurrences (rs_ep s) h)) (\<lambda>_ _. True)"
  proof (cases "snd ?cl = c")
    case True
    then show ?thesis by (simp add: triple_ret)
  next
    case False
    show ?thesis
    proof (cases "snd ?cl = h")
      case True
      with False have "h \<noteq> c" by simp
      from attach_to_owner_records [OF assms this] show ?thesis by (simp add: True \<open>h \<noteq> c\<close>)
    next
      case False
      from other [OF False] show ?thesis by (simp add: \<open>snd ?cl \<noteq> c\<close>)
    qed
  qed
  then show "triple (\<lambda>t. t = s) (then_p (upd_p (\<lambda>s. s\<lparr>rs_ep := fst ?cl\<rparr>))
     (if snd ?cl = c then ret_p None else attach_to_owner w ob c k (snd ?cl)))
     (\<lambda>a s. a = Some (AttachedTo h) \<longrightarrow> c \<in> oc_event ` set (ep_occurrences (rs_ep s) h)) (\<lambda>_ _. True)"
    by (rule triple_then [OF triple_upd, rotated]) (simp add: held)
qed

lemma run_opened_records:
  assumes "\<forall>q \<in> set (cw_race w). q \<noteq> Release h"
  shows "triple P (run_opened w ob c)
     (\<lambda>a s. a = AttachedTo h \<longrightarrow> c \<in> oc_event ` set (ep_occurrences (rs_ep s) h)) (\<lambda>_ _. True)"
proof -
  have go: "triple (\<lambda>_. True) (then_p (record_transition w f out g b r x)
          (then_p (guarded w c (run_body w ob))
          (then_p (free_episode c)
          (bind_p get_p (\<lambda>s. ret_p (Closed (c_terminal (rs_case s)))))))) (\<lambda>a _. a \<noteq> AttachedTo h) (\<lambda>_ _. True)"
    for f out g b r x
    by (intro triple_then [OF triple_any] triple_read triple_ret) simp
  show ?thesis
    unfolding run_opened_def
    apply (rule triple_then [OF record_any])
    apply (rule triple_bind [OF triple_any])
    apply (rule triple_bind [where R = "\<lambda>a s. a = Some (AttachedTo h) \<longrightarrow> c \<in> oc_event ` set (ep_occurrences (rs_ep s) h)"])
    subgoal for rev1
      by (cases "o_episode ob") (auto intro!: triple_ret triage_records [OF assms])
    subgoal for rev1 early
    proof (cases early)
      case None
      with triple_post [OF go] show ?thesis by simp
    next
      case (Some a)
      then show ?thesis by (simp add: triple_ret)
    qed
    done
qed

text \<open>
  An occurrence answered as attached is in its holder's record: when the holder does not
  close between the claim and the attach, a run answered \<open>AttachedTo h\<close> left its event among the
  occurrences of \<open>h\<close>.
\<close>

theorem attached_occurrence_is_recorded:
  assumes "run_case w ep c req = (Inr (AttachedTo h), Some s)"
    and "\<forall>q \<in> set (cw_race w). q \<noteq> Release h"
  shows "c \<in> oc_event ` set (ep_occurrences (rs_ep s) h)"
proof -
  have "case Inr (AttachedTo h) :: stop + answer of Inl e \<Rightarrow> True
     | Inr a \<Rightarrow> a = AttachedTo h \<longrightarrow> c \<in> oc_event ` set (ep_occurrences (rs_ep s) h)"
    by (rule run_case_triple [OF assms(1) run_opened_records [OF assms(2)]]) simp
  then show ?thesis by simp
qed

definition held_alarm :: episode where
  "held_alarm = fst (claim new_episode ''a0'' head1 (Some ''bot''))"

definition attached_final :: run_state where
  "attached_final = the (snd (run_case (alarm_world 0 []) held_alarm ''a1'' alarm_event))"

theorem attached_occurrence_is_recorded_witness:
  "''a1'' \<in> oc_event ` set (ep_occurrences (rs_ep attached_final) ''a0'')"
proof -
  have a: "fst (run_case (alarm_world 0 []) held_alarm ''a1'' alarm_event) = Inr (AttachedTo ''a0'')"
    by code_simp
  have b: "snd (run_case (alarm_world 0 []) held_alarm ''a1'' alarm_event) \<noteq> None"
    by code_simp
  from a b have "run_case (alarm_world 0 []) held_alarm ''a1'' alarm_event
      = (Inr (AttachedTo ''a0''), Some attached_final)"
    by (metis attached_final_def option.collapse prod.collapse)
  then show ?thesis
    by (rule attached_occurrence_is_recorded) (simp add: alarm_world_def)
qed

text \<open>
  The race loses an event: when the holder closes between the claim and the attach, the
  event is answered as attached to a case that is no longer open, no case keeps it as an
  occurrence, no case opens for it, and the episode is left free.
\<close>

theorem race_with_close_loses_the_event:
  "case run_case (alarm_world 0 [Release ''a0'']) held_alarm ''a1'' alarm_event of
     (r, s) \<Rightarrow> r = Inr (AttachedTo ''a0'') \<and>
       map_option (\<lambda>s. (ep_occurrences (rs_ep s) ''a0'', holder (rs_ep s), rs_log s = [])) s
         = Some ([], None, True)"
  by code_simp

subsection \<open>The evidence a case leaves\<close>

definition released_in :: "case_world \<Rightarrow> effect list \<Rightarrow> nat \<Rightarrow> bool" where
  "released_in w lg n \<longleftrightarrow> (\<exists>spec env. Opened n spec \<in> set lg \<and> cw_child w n spec = Some (Inr env) \<and>
     dget env ''outcome'' = PStr SEEDED_BY_STAMP_OUTCOME)"

definition record_of :: "pyval \<Rightarrow> pyval" where
  "record_of item = dget (dict_or_nil item) ''record''"

text \<open>What must be in the log before an effect joins it.\<close>

definition backed :: "case_world \<Rightarrow> effect list \<Rightarrow> effect \<Rightarrow> bool" where
  "backed w lg e = (case e of
     RecordWritten n r sd b \<Rightarrow> released_in w lg n \<and> truthy b \<and> (\<forall>d. sd = Some d \<longrightarrow> b = PStr d)
   | SeederStamped n d \<Rightarrow> released_in w lg n \<and>
       (\<forall>item \<in> set (cw_emitted w n). \<exists>b. RecordWritten n (record_of item) (Some d) b \<in> set lg)
   | _ \<Rightarrow> True)"

definition evidence :: "case_world \<Rightarrow> effect list \<Rightarrow> bool" where
  "evidence w lg \<longleftrightarrow> (\<forall>i < length lg. backed w (take i lg) (lg ! i))"

lemma evidence_Nil [simp]: "evidence w []"
  by (simp add: evidence_def)

lemma evidence_snoc: "evidence w (lg @ [e]) \<longleftrightarrow> evidence w lg \<and> backed w lg e"
  by (auto simp: evidence_def nth_append less_Suc_eq all_conj_distrib imp_conjR)

lemma released_in_mono: "released_in w lg n \<Longrightarrow> released_in w (lg @ es) n"
  by (auto simp: released_in_def)

lemma log_view_steps [keeps_rules]:
  "keeps (\<lambda>s. V (rs_log s)) (record_transition w f out g b r x)"
  "keeps (\<lambda>s. V (rs_log s)) (refresh w trig)"
  "keeps (\<lambda>s. V (rs_log s)) (free_episode c)"
  "keeps (\<lambda>s. V (rs_log s)) (plant_revision w ob)"
  "keeps (\<lambda>s. V (rs_log s)) (attach_to_owner w ob c k h)"
  "keeps (\<lambda>s. V (rs_log s)) (triage_episode w ob c rev1 k)"
  unfolding record_transition_def refresh_def free_episode_def plant_revision_def triage_episode_def
    attach_to_owner_def
  by (auto intro!: keeps_rules simp: Let_def split: option.split sum.split)

lemma keeps_evidence_log:
  "(\<And>lg. backed w lg e) \<Longrightarrow> keeps (\<lambda>s. evidence w (rs_log s)) (log_effect e)"
  unfolding log_effect_def by (auto intro!: keeps_rules simp: evidence_snoc)

lemma summarize_evidence: "keeps (\<lambda>s. evidence w (rs_log s)) (summarize w st r)"
  unfolding summarize_def
  by (auto intro!: keeps_rules keeps_evidence_log simp: backed_def Let_def split: attempt.split)

text \<open>The state the release's writes run in, and what writing the records adds.\<close>

definition at_release :: "case_world \<Rightarrow> nat \<Rightarrow> string option \<Rightarrow> run_state \<Rightarrow> bool" where
  "at_release w n sd s \<longleftrightarrow> evidence w (rs_log s) \<and> released_in w (rs_log s) n \<and> c_seeded_by (rs_case s) = sd"

lemma at_release_log:
  "at_release w n sd s \<Longrightarrow> backed w (rs_log s) e \<Longrightarrow> at_release w n sd (s\<lparr>rs_log := rs_log s @ [e]\<rparr>)"
  by (simp add: at_release_def evidence_snoc released_in_mono)

lemma write_one:
  assumes "truthy b" and "\<forall>d. sd = Some d \<longrightarrow> b = PStr d"
  shows "triple (\<lambda>s. at_release w n sd s \<and> R \<subseteq> set (rs_log s)) (write_item w n sd b (i, item))
    (\<lambda>_ s. at_release w n sd s \<and> insert (RecordWritten n (record_of item) sd b) R \<subseteq> set (rs_log s))
    (\<lambda>_ s. evidence w (rs_log s))"
  using assms
  by (auto simp: write_item_def record_of_def log_effect_def at_release_def evidence_snoc backed_def
      released_in_mono split: attempt.split intro!: triple_upd triple_raise)

lemma write_each:
  assumes "truthy b" and "\<forall>d. sd = Some d \<longrightarrow> b = PStr d"
  shows "triple (\<lambda>s. at_release w n sd s \<and> R \<subseteq> set (rs_log s))
    (each_p (write_item w n sd b) (enumerate k items))
    (\<lambda>_ s. at_release w n sd s \<and> (\<lambda>item. RecordWritten n (record_of item) sd b) ` set items \<union> R \<subseteq> set (rs_log s))
    (\<lambda>_ s. evidence w (rs_log s))"
proof (induction items arbitrary: k R)
  case Nil
  then show ?case by (simp add: triple_ret)
next
  case (Cons item items)
  have "triple (\<lambda>s. at_release w n sd s \<and> R \<subseteq> set (rs_log s))
    (each_p (write_item w n sd b) (enumerate k (item # items)))
    (\<lambda>_ s. at_release w n sd s \<and> (\<lambda>item. RecordWritten n (record_of item) sd b) ` set items \<union>
       insert (RecordWritten n (record_of item) sd b) R \<subseteq> set (rs_log s))
    (\<lambda>_ s. evidence w (rs_log s))"
    unfolding enumerate_simps each_p.simps
    by (rule triple_then [OF write_one [OF assms] Cons.IH])
  then show ?case by (rule triple_post) auto
qed

definition records_in :: "case_world \<Rightarrow> nat \<Rightarrow> string option \<Rightarrow> effect list \<Rightarrow> bool" where
  "records_in w n sd lg \<longleftrightarrow> (\<forall>d. sd = Some d \<longrightarrow>
     (\<forall>item \<in> set (cw_emitted w n). \<exists>b. RecordWritten n (record_of item) (Some d) b \<in> set lg))"

lemma write_records_evidence:
  "triple (at_release w n sd) (write_records w n)
     (\<lambda>_ s. at_release w n sd s \<and> records_in w n sd (rs_log s)) (\<lambda>_ s. evidence w (rs_log s))"
  unfolding write_records_def Let_def
proof (rule triple_read)
  fix s :: run_state
  assume s: "at_release w n sd s"
  then have sd: "c_seeded_by (rs_case s) = sd" by (simp add: at_release_def)
  let ?b = "case sd of Some d \<Rightarrow> PStr d | None \<Rightarrow> last_approver (rs_chain s)"
  have "triple (at_release w n sd) (each_p (write_item w n sd ?b) (enumerate 1 (cw_emitted w n)))
     (\<lambda>_ s. at_release w n sd s \<and> records_in w n sd (rs_log s)) (\<lambda>_ s. evidence w (rs_log s))" if "truthy ?b"
    by (rule triple_post [OF triple_pre [OF write_each [OF that, where R = "{}" and k = 1 and items = "cw_emitted w n"]]])
      (auto simp: records_in_def image_subset_iff split: option.splits)
  then have "triple (\<lambda>t. t = s) (each_p (write_item w n sd ?b) (enumerate 1 (cw_emitted w n)))
     (\<lambda>_ s. at_release w n sd s \<and> records_in w n sd (rs_log s)) (\<lambda>_ s. evidence w (rs_log s))" if "truthy ?b"
    by (rule triple_pre) (simp_all add: that s)
  moreover have "at_release w n sd t \<and> records_in w n sd (rs_log t)" if "cw_emitted w n = []" "t = s" for t
    using that s by (simp add: records_in_def)
  ultimately show "triple (\<lambda>t. t = s)
     (if cw_emitted w n = [] then ret_p ()
      else if \<not> truthy (case c_seeded_by (rs_case s) of Some d \<Rightarrow> PStr d | None \<Rightarrow> last_approver (rs_chain s))
      then raise_p (Terminal NobodyToWriteFor)
      else each_p (write_item w n (c_seeded_by (rs_case s))
        (case c_seeded_by (rs_case s) of Some d \<Rightarrow> PStr d | None \<Rightarrow> last_approver (rs_chain s)))
        (enumerate 1 (cw_emitted w n)))
     (\<lambda>_ s. at_release w n sd s \<and> records_in w n sd (rs_log s)) (\<lambda>_ s. evidence w (rs_log s))"
    using s unfolding sd by (auto intro!: triple_ret triple_raise simp: at_release_def)
qed

lemma stamp_evidence:
  "triple (\<lambda>s. at_release w n sd s \<and> records_in w n sd (rs_log s)) (stamp w n) (\<lambda>_ s. evidence w (rs_log s)) (\<lambda>_ s. evidence w (rs_log s))"
  unfolding stamp_def
  by (rule triple_read)
    (auto simp: at_release_def log_effect_def evidence_snoc backed_def records_in_def
      split: option.split attempt.split intro!: triple_upd triple_raise triple_ret)

lemma release_work_evidence:
  "triple (\<lambda>s. evidence w (rs_log s) \<and> (oc = PStr SEEDED_BY_STAMP_OUTCOME \<longrightarrow> released_in w (rs_log s) n))
     (release_work w n oc) (\<lambda>_ s. evidence w (rs_log s)) (\<lambda>_ s. evidence w (rs_log s))"
proof (cases "oc = PStr SEEDED_BY_STAMP_OUTCOME")
  case True
  have work: "triple (at_release w n sd) (release_work w n oc) (\<lambda>_ s. evidence w (rs_log s)) (\<lambda>_ s. evidence w (rs_log s))"
    for sd by (simp add: release_work_def True triple_then [OF write_records_evidence stamp_evidence])
  show ?thesis
  proof (rule triple_assume)
    fix s :: run_state
    assume "evidence w (rs_log s) \<and> (oc = PStr SEEDED_BY_STAMP_OUTCOME \<longrightarrow> released_in w (rs_log s) n)"
    with True have "at_release w n (c_seeded_by (rs_case s)) s" by (simp add: at_release_def)
    then show "triple (\<lambda>t. t = s) (release_work w n oc) (\<lambda>_ s. evidence w (rs_log s)) (\<lambda>_ s. evidence w (rs_log s))"
      by (intro triple_pre [OF work]) simp
  qed
next
  case False
  then show ?thesis by (simp add: release_work_def triple_ret)
qed

lemma run_child_evidence:
  "triple (\<lambda>s. evidence w (rs_log s)) (run_child w did n)
     (\<lambda>env s. evidence w (rs_log s) \<and> (dget env ''outcome'' = PStr SEEDED_BY_STAMP_OUTCOME \<longrightarrow> released_in w (rs_log s) n))
     (\<lambda>_ s. evidence w (rs_log s))"
  unfolding run_child_def Let_def
proof (rule triple_read)
  fix s :: run_state
  assume s: "evidence w (rs_log s)"
  let ?spec = "\<lparr>is_definition = did, is_trigger = rs_facts s, is_outputs = rs_outputs s, is_chain = rs_chain s,
     is_case = (c_id (rs_case s), c_trigger (rs_case s)), is_input = rs_current s\<rparr>"
  let ?A = "\<lambda>t. evidence w (rs_log t) \<and> Opened n ?spec \<in> set (rs_log t)"
  have opened: "triple (\<lambda>t. t = s) (log_effect (Opened n ?spec)) (\<lambda>_. ?A) E" for E
    unfolding log_effect_def by (rule triple_upd) (simp add: evidence_snoc backed_def s)
  have child: "triple ?A (lift_p (child_answer (cw_child w n ?spec)))
     (\<lambda>env t. ?A t \<and> cw_child w n ?spec = Some (Inr env)) (\<lambda>_ s. evidence w (rs_log s))"
    by (rule triple_lift) (auto simp: child_answer_def split: option.splits sum.splits)
  show "triple (\<lambda>t. t = s) (then_p (log_effect (Opened n ?spec))
       (then_p (upd_p (\<lambda>s. s\<lparr>rs_case := (rs_case s)\<lparr>c_instances := c_instances (rs_case s) @
                    [(n, child_key w (c_id (rs_case s)) n, did)]\<rparr>,
                  rs_ep := fst (ep_run (cw_ep w) (rs_ep s) (cw_between w n))\<rparr>))
       (bind_p (lift_p (child_answer (cw_child w n ?spec))) (\<lambda>env.
        then_p (upd_p (\<lambda>s. s\<lparr>rs_outputs := dict_or_nil (dget env ''outputs''),
                  rs_chain := list_or_nil (dget env ''approval_chain'')\<rparr>))
          (ret_p env)))))
     (\<lambda>env s. evidence w (rs_log s) \<and> (dget env ''outcome'' = PStr SEEDED_BY_STAMP_OUTCOME \<longrightarrow> released_in w (rs_log s) n))
     (\<lambda>_ s. evidence w (rs_log s))"
    by (rule triple_then [OF opened triple_then [OF triple_upd [where Q = "\<lambda>_. ?A"] triple_bind [OF child
          triple_then [OF triple_upd triple_ret]]]])
      (auto simp: released_in_def)
qed

lemma conclude_evidence:
  "triple (\<lambda>s. evidence w (rs_log s) \<and> (dget env ''outcome'' = PStr SEEDED_BY_STAMP_OUTCOME \<longrightarrow> released_in w (rs_log s) n))
     (conclude w trig did n env nxt) (\<lambda>_ s. evidence w (rs_log s)) (\<lambda>_ s. evidence w (rs_log s))"
proof -
  let ?I = "\<lambda>s. evidence w (rs_log s) \<and> (dget env ''outcome'' = PStr SEEDED_BY_STAMP_OUTCOME \<longrightarrow> released_in w (rs_log s) n)"
  have keep: "triple ?I m (\<lambda>_. ?I) (\<lambda>_ s. evidence w (rs_log s))"
    if "\<And>V. keeps (\<lambda>s. V (rs_log s)) m" for m :: "'b run"
    by (rule triple_post [OF keeps_triple [OF that [of "\<lambda>lg. evidence w lg \<and>
      (dget env ''outcome'' = PStr SEEDED_BY_STAMP_OUTCOME \<longrightarrow> released_in w lg n)"]]]) auto
  show ?thesis
    unfolding conclude_def Let_def
    by (intro triple_then [OF keep] triple_bind [OF keep] release_work_evidence)
      (auto intro!: keeps_rules)
qed

lemma hop_evidence: "keeps (\<lambda>s. evidence w (rs_log s)) (hop w trig did n)"
  unfolding hop_def keeps_def
proof (rule triple_bind [OF run_child_evidence])
  fix env
  let ?I = "\<lambda>s. evidence w (rs_log s) \<and> (dget env ''outcome'' = PStr SEEDED_BY_STAMP_OUTCOME \<longrightarrow> released_in w (rs_log s) n)"
  have chained: "triple ?I (terminally 422 r) (\<lambda>_. ?I) (\<lambda>_ s. evidence w (rs_log s))" for r :: "routing_error + route"
    by (rule triple_terminally) simp_all
  show "triple ?I (bind_p get_p (\<lambda>s. bind_p (terminally 422 (chain (cw_rend w) (cw_tables w) did
       (termination_facts (rs_flat s) env did (c_transitions (rs_case s))))) (\<lambda>nxt.
     then_p (conclude w trig did n env nxt) (ret_p nxt)))) (\<lambda>_ s. evidence w (rs_log s)) (\<lambda>_ s. evidence w (rs_log s))"
    by (rule triple_bind [where R = "\<lambda>_. ?I"])
      (auto intro: triple_get triple_ret triple_bind [OF chained] triple_then [OF conclude_evidence])
qed

lemma hops_evidence: "keeps (\<lambda>s. evidence w (rs_log s)) (hops w trig fuel n did)"
proof (induction fuel arbitrary: n did)
  case 0
  then show ?case by (simp add: keeps_raise)
next
  case (Suc fuel)
  show ?case
    unfolding hops.simps
    by (rule keeps_bind [OF hop_evidence])
      (auto intro!: keeps_then keeps_bind keeps_get summarize_evidence Suc.IH keeps_upd)
qed

lemma run_opened_evidence: "keeps (\<lambda>s. evidence w (rs_log s)) (run_opened w ob c)"
  unfolding run_opened_def guarded_def fail_case_def run_body_def
  by (auto intro!: keeps_then keeps_bind keeps_catch keeps_get keeps_raise keeps_ret keeps_terminally
      log_view_steps hops_evidence summarize_evidence split: option.split stop.split)

text \<open>
  C14. The evidence precedes the stamp: in the log of any run, whatever it ended in, an action
  record is written only for an instance that ended \<open>released\<close>, on behalf of somebody, and of the
  seeding delegate when there is one; and the delegate is stamped only after every record that
  instance emitted was written for that delegate.
\<close>

theorem records_precede_the_stamp:
  assumes "run_case w ep c req = (r, Some s)" and "i < length (rs_log s)"
  shows "case rs_log s ! i of
     RecordWritten n rec sd b \<Rightarrow> released_in w (take i (rs_log s)) n \<and> truthy b \<and> (\<forall>d. sd = Some d \<longrightarrow> b = PStr d)
   | SeederStamped n d \<Rightarrow> released_in w (take i (rs_log s)) n \<and>
       (\<forall>item \<in> set (cw_emitted w n). \<exists>b. RecordWritten n (record_of item) (Some d) b \<in> set (take i (rs_log s)))
   | _ \<Rightarrow> True"
proof -
  have "case r of Inl e \<Rightarrow> evidence w (rs_log s) | Inr a \<Rightarrow> evidence w (rs_log s)"
    by (rule run_case_triple [OF assms(1) keeps_triple [OF run_opened_evidence]]) (simp add: start_state_def)
  with assms(2) show ?thesis by (auto simp: evidence_def backed_def split: sum.splits)
qed

theorem records_precede_the_stamp_witness:
  "\<exists>b. RecordWritten 2 (PStr ''rec'') (Some ''bot'') b \<in> set (take 3 (rs_log (alarm_final 1)))"
proof -
  have len: "3 < length (rs_log (alarm_final 1))"
    and stamped: "rs_log (alarm_final 1) ! 3 = SeederStamped 2 ''bot''"
    using alarm_final_view by (simp_all add: alarm_view_def split: effect.splits)
  have "set (cw_emitted (alarm_world 1 []) 2) = {PDict [(''record'', PStr ''rec'')]}"
    by (simp add: alarm_world_def)
  with records_precede_the_stamp [OF alarm_run len] stamped show ?thesis
    by (simp add: record_of_def dict_or_nil_def dget_def)
qed

subsection \<open>The bound on a case\<close>

definition settled :: "case_world \<Rightarrow> bool" where
  "settled w \<longleftrightarrow> (\<forall>n i. journalled write_action_record (cw_record_http w n i) \<noteq> Again) \<and>
     (\<forall>n. journalled stamp_seeded_by (cw_stamp_http w n) \<noteq> Again) \<and>
     (CASE_SUMMARY_MAX_ATTEMPTS \<le> length (cw_summary_http w) \<or>
      journalled write_case_summary (cw_summary_http w) \<noteq> Again)"

definition plain_stop :: "stop \<Rightarrow> bool" where
  "plain_stop e \<longleftrightarrow> e \<noteq> Terminal TooManyInstances"

lemma raises_terminally [raises_rules]:
  "raises_in (terminally code r) plain_stop"
  by (auto simp: terminally_def plain_stop_def intro!: raises_rules split: sum.splits)

lemma terminally_ends: "raises_in (terminally code r) (\<lambda>e. e \<noteq> Suspended)"
  by (auto simp: terminally_def intro!: raises_rules split: sum.splits)

lemma plain_summarize: "raises_in (summarize w st r) (\<lambda>e. \<not> settled w)"
  unfolding summarize_def log_effect_def Let_def
  by (auto intro!: raises_rules simp: settled_def split: attempt.split)

lemma raises_weaken: "raises_in m S \<Longrightarrow> (\<And>e. S e \<Longrightarrow> S' e) \<Longrightarrow> raises_in m S'"
  unfolding raises_in_def by (rule triple_post)

lemma plain_steps [raises_rules]:
  "raises_in (record_transition w f out g b r x) S"
  "raises_in (log_effect e) S"
  "raises_in (free_episode c) S"
  "raises_in (refresh w trig) plain_stop"
  "raises_in (run_child w did n) plain_stop"
  "raises_in (release_work w n oc) plain_stop"
  "raises_in (plant_revision w ob) plain_stop"
  "raises_in (triage_episode w ob c rev1 k) plain_stop"
  unfolding record_transition_def log_effect_def free_episode_def refresh_def run_child_def release_work_def
    write_records_def write_item_def stamp_def plant_revision_def triage_episode_def attach_to_owner_def Let_def
  by (auto intro!: raises_rules simp: plain_stop_def child_answer_def
      split: attempt.split option.splits sum.splits)

lemma plain_hop: "raises_in (hop w trig did n) plain_stop"
  unfolding hop_def conclude_def Let_def by (auto intro!: raises_rules)

definition opened_upto :: "nat \<Rightarrow> run_state \<Rightarrow> bool" where
  "opened_upto m s \<longleftrightarrow> map fst (c_instances (rs_case s)) = [1..<Suc m]"

lemma instance_steps [keeps_rules]:
  "keeps (opened_upto m) (record_transition w f out g b r x)"
  "keeps (opened_upto m) (log_effect e)"
  "keeps (opened_upto m) (summarize w st r)"
  "keeps (opened_upto m) (free_episode c)"
  "keeps (opened_upto m) (refresh w trig)"
  "keeps (opened_upto m) (release_work w n oc)"
  "keeps (opened_upto m) (plant_revision w ob)"
  "keeps (opened_upto m) (triage_episode w ob c rev1 k)"
  unfolding record_transition_def log_effect_def summarize_def free_episode_def refresh_def release_work_def
    write_records_def write_item_def stamp_def plant_revision_def triage_episode_def attach_to_owner_def Let_def
  by (auto intro!: keeps_rules simp: opened_upto_def split: attempt.split option.split sum.split)

lemma run_child_opens:
  "triple (opened_upto m) (run_child w did (Suc m)) (\<lambda>_. opened_upto (Suc m)) (\<lambda>_. opened_upto (Suc m))"
  unfolding run_child_def Let_def log_effect_def
  by (intro triple_bind [OF triple_get [where Q = "\<lambda>_. opened_upto m"]] triple_then [OF triple_upd [where Q = "\<lambda>_. opened_upto m"]]
      triple_then [OF triple_upd [where Q = "\<lambda>_. opened_upto (Suc m)"]]
      triple_bind [OF triple_lift [where Q = "\<lambda>_. opened_upto (Suc m)"]] triple_ret)
    (auto simp: opened_upto_def)

lemma hop_opens:
  "triple (opened_upto m) (hop w trig did (Suc m)) (\<lambda>_. opened_upto (Suc m)) (\<lambda>_. opened_upto (Suc m))"
  unfolding hop_def conclude_def Let_def
  by (rule triple_bind [OF run_child_opens], unfold keeps_def [symmetric]) (auto intro!: keeps_rules)

definition in_bound :: "nat \<Rightarrow> stop \<Rightarrow> run_state \<Rightarrow> bool" where
  "in_bound bound e s \<longleftrightarrow> (\<exists>k \<le> bound. opened_upto k s \<and> (e = Terminal TooManyInstances \<longrightarrow> k = bound))"

lemma hops_within:
  "triple (opened_upto m) (hops w trig fuel (Suc m) did)
     (\<lambda>_ s. \<exists>k \<le> m + fuel. opened_upto k s) (in_bound (m + fuel))"
proof (induction fuel arbitrary: m did)
  case 0
  show ?case by (auto intro!: triple_raise simp: in_bound_def)
next
  case (Suc fuel)
  have hop: "triple (opened_upto m) (hop w trig did (Suc m)) (\<lambda>_. opened_upto (Suc m)) (in_bound (m + Suc fuel))"
    by (rule triple_post [OF triple_pre [OF triple_conj [OF hop_opens plain_hop [unfolded raises_in_def]]]])
      (auto simp: in_bound_def plain_stop_def intro: exI [of _ "Suc m"])
  have fin: "triple (opened_upto (Suc m))
     (then_p (upd_p (\<lambda>s. s\<lparr>rs_case := (rs_case s)\<lparr>c_terminal := Some x\<rparr>\<rparr>))
       (bind_p get_p (\<lambda>s. summarize w x (tr_reason (last (c_transitions (rs_case s)))))))
     (\<lambda>_ s. \<exists>k \<le> m + Suc fuel. opened_upto k s) (in_bound (m + Suc fuel))" for x
  proof -
    have r: "raises_in (then_p (upd_p (\<lambda>s. s\<lparr>rs_case := (rs_case s)\<lparr>c_terminal := Some x\<rparr>\<rparr>))
       (bind_p get_p (\<lambda>s. summarize w x (tr_reason (last (c_transitions (rs_case s))))))) (\<lambda>e. e = Suspended)"
      using summarize_raises [of "\<lambda>_. True" w]
      by (intro raises_rules) (fastforce simp: raises_in_def triple_def split: prod.splits sum.splits)
    have k: "keeps (opened_upto (Suc m)) (then_p (upd_p (\<lambda>s. s\<lparr>rs_case := (rs_case s)\<lparr>c_terminal := Some x\<rparr>\<rparr>))
       (bind_p get_p (\<lambda>s. summarize w x (tr_reason (last (c_transitions (rs_case s)))))))"
      by (auto intro!: keeps_rules simp: opened_upto_def)
    show ?thesis
      by (rule triple_post [OF triple_pre [OF triple_conj [OF keeps_triple [OF k] r [unfolded raises_in_def]]]])
        (auto simp: in_bound_def intro: exI [of _ "Suc m"])
  qed
  have rec: "triple (opened_upto (Suc m)) (hops w trig fuel (Suc m + 1) did')
     (\<lambda>_ s. \<exists>k \<le> m + Suc fuel. opened_upto k s) (in_bound (m + Suc fuel))" for did'
    using Suc.IH [of "Suc m" did'] by simp
  show ?case
    unfolding hops.simps by (rule triple_bind [OF hop]) (use fin rec in auto)
qed

lemma opened_upto_length: "opened_upto k s \<Longrightarrow> length (c_instances (rs_case s)) = k"
proof -
  assume "opened_upto k s"
  then have "length (map fst (c_instances (rs_case s))) = length [1..<Suc k]"
    by (simp only: opened_upto_def)
  then show ?thesis by (simp only: length_map length_upt diff_Suc_1)
qed

lemma run_opened_within:
  "triple (opened_upto 0) (run_opened w ob c) (\<lambda>_ s. \<exists>k \<le> MAX_INSTANCES. opened_upto k s) (in_bound MAX_INSTANCES)"
proof -
  let ?Q = "\<lambda>_ s. \<exists>k \<le> MAX_INSTANCES. opened_upto k s"
  have zero: "opened_upto 0 s \<Longrightarrow> plain_stop e \<Longrightarrow> in_bound MAX_INSTANCES e s" for e s
    by (auto simp: in_bound_def plain_stop_def)
  have step: "triple (opened_upto 0) m (\<lambda>_. opened_upto 0) (in_bound MAX_INSTANCES)"
    if "keeps (opened_upto 0) m" and "raises_in m plain_stop" for m :: "'b run"
    by (rule triple_post [OF triple_pre [OF triple_conj [OF keeps_triple [OF that(1)] that(2) [unfolded raises_in_def]]]])
      (auto intro: zero)
  have body: "triple (opened_upto 0) (run_body w ob) ?Q (in_bound MAX_INSTANCES)"
    unfolding run_body_def
    using hops_within [of 0 w "o_trigger ob" MAX_INSTANCES]
    by (intro triple_bind [OF step] triple_then [OF step]) (auto intro!: keeps_rules raises_rules)
  have keep: "triple (in_bound MAX_INSTANCES (Terminal e)) m
      (\<lambda>_. in_bound MAX_INSTANCES (Terminal e)) (in_bound MAX_INSTANCES)"
    if "\<And>k. keeps (opened_upto k) m" and "raises_in m (\<lambda>e. e = Suspended)"
    for m :: "unit run" and e
    unfolding triple_def
  proof (intro allI impI)
    fix s assume "in_bound MAX_INSTANCES (Terminal e) s"
    then obtain k where k: "k \<le> MAX_INSTANCES" "opened_upto k s" "e = TooManyInstances \<longrightarrow> k = MAX_INSTANCES"
      by (auto simp: in_bound_def)
    from triple_run [OF triple_conj [OF keeps_triple [OF that(1)] that(2) [unfolded raises_in_def]], of k s] k
    show "case m s of (Inl e', s') \<Rightarrow> in_bound MAX_INSTANCES e' s' | (Inr _, s') \<Rightarrow> in_bound MAX_INSTANCES (Terminal e) s'"
      by (auto simp: in_bound_def split: prod.splits sum.splits)
  qed
  have sm: "raises_in (summarize w st r) (\<lambda>e. e = Suspended)" for st r
    using summarize_raises [of "\<lambda>_. True" w]
    by (fastforce simp: raises_in_def triple_def split: prod.splits sum.splits)
  have fail: "triple (in_bound MAX_INSTANCES (Terminal e)) (fail_case w c e) ?Q (in_bound MAX_INSTANCES)" for e
    unfolding fail_case_def
    apply (rule triple_bind)
     apply (rule triple_get [where Q = "\<lambda>_. in_bound MAX_INSTANCES (Terminal e)"])
     apply assumption
    apply (rule triple_then)
     apply (rule keep [OF instance_steps(1)])
     apply (rule plain_steps(1))
    apply (rule triple_then)
     apply (rule keep [OF instance_steps(3)])
     apply (rule sm)
    apply (rule triple_then)
     apply (rule keep [OF instance_steps(4)])
     apply (rule plain_steps(3))
    apply (rule triple_raise)
    apply assumption
    done
  have guard: "triple (opened_upto 0) (guarded w c (run_body w ob)) ?Q (in_bound MAX_INSTANCES)"
    unfolding guarded_def
  proof (rule triple_catch [OF body])
    fix e
    show "triple (in_bound MAX_INSTANCES e) (case e of Terminal e \<Rightarrow> fail_case w c e | Suspended \<Rightarrow> raise_p Suspended)
        ?Q (in_bound MAX_INSTANCES)"
      by (cases e) (simp_all add: fail triple_raise)
  qed
  have fin: "triple (opened_upto 0) (then_p (record_transition w f out g b r x)
          (then_p (guarded w c (run_body w ob))
          (then_p (free_episode c)
          (bind_p get_p (\<lambda>s. ret_p (Closed (c_terminal (rs_case s)))))))) ?Q (in_bound MAX_INSTANCES)" for f out g b r x
  proof (rule triple_then [OF step [OF instance_steps(1) plain_steps(1)] triple_then [OF guard]])
    have "keeps (\<lambda>s. \<exists>k \<le> MAX_INSTANCES. opened_upto k s) (then_p (free_episode c) (bind_p get_p (\<lambda>s. ret_p (Closed (c_terminal (rs_case s))))))"
      by (intro keeps_ex keeps_then keeps_bind keeps_get keeps_ret instance_steps)
    moreover have "raises_in (then_p (free_episode c) (bind_p get_p (\<lambda>s. ret_p (Closed (c_terminal (rs_case s)))))) (\<lambda>_. False)"
      by (auto intro!: raises_rules)
    ultimately show "triple (\<lambda>s. \<exists>k \<le> MAX_INSTANCES. opened_upto k s)
        (then_p (free_episode c) (bind_p get_p (\<lambda>s. ret_p (Closed (c_terminal (rs_case s)))))) ?Q (in_bound MAX_INSTANCES)"
      by (fastforce simp: keeps_def raises_in_def triple_def split: prod.splits sum.splits)
  qed
  have zeroQ: "opened_upto 0 s \<Longrightarrow> ?Q a s" for a :: answer and s by auto
  show ?thesis
    unfolding run_opened_def
    apply (intro triple_then [OF step] triple_bind [OF step])
    apply (auto intro!: keeps_rules raises_rules split: option.split)[6]
    subgoal for rev1 early by (cases early) (auto intro: fin triple_ret zeroQ)
    done
qed

text \<open>What a suspended case waits for, when the gateway answers.\<close>

definition awaits_instance :: "case_world \<Rightarrow> stop \<Rightarrow> run_state \<Rightarrow> bool" where
  "awaits_instance w e s \<longleftrightarrow> (settled w \<longrightarrow> e = Suspended \<longrightarrow>
     (\<exists>n spec. Opened n spec \<in> set (rs_log s) \<and> cw_child w n spec = None))"

abbreviation waits :: "case_world \<Rightarrow> 'a run \<Rightarrow> bool" where
  "waits w m \<equiv> triple (\<lambda>_. True) m (\<lambda>_ _. True) (awaits_instance w)"

lemma waits_raises: "raises_in m (\<lambda>e. settled w \<longrightarrow> e \<noteq> Suspended) \<Longrightarrow> waits w m"
  unfolding raises_in_def by (erule triple_post) (auto simp: awaits_instance_def)

lemma waits_bind: "waits w m \<Longrightarrow> (\<And>a. waits w (f a)) \<Longrightarrow> waits w (bind_p m f)"
  by (rule triple_bind) auto

lemma waits_then: "waits w m \<Longrightarrow> waits w k \<Longrightarrow> waits w (then_p m k)"
  by (rule triple_then)

lemma ending_steps:
  "waits w (terminally code r)" "waits w (summarize w st x)" "waits w (refresh w trig)"
  "waits w (release_work w n oc)" "waits w (record_transition w f out g b y z)"
  "waits w (plant_revision w ob)" "waits w (triage_episode w ob c rev1 k)"
  "waits w (free_episode c)" "waits w get_p" "waits w (upd_p h)" "waits w (ret_p a)"
  unfolding record_transition_def log_effect_def summarize_def free_episode_def refresh_def release_work_def
    write_records_def write_item_def stamp_def plant_revision_def triage_episode_def attach_to_owner_def Let_def
  by (rule waits_raises, auto intro!: raises_rules raises_weaken [OF terminally_ends] simp: settled_def
      split: attempt.split option.split sum.splits)+

lemma run_child_waits: "waits w (run_child w did n)"
  unfolding run_child_def Let_def
proof (rule triple_read)
  fix s :: run_state
  let ?spec = "\<lparr>is_definition = did, is_trigger = rs_facts s, is_outputs = rs_outputs s, is_chain = rs_chain s,
     is_case = (c_id (rs_case s), c_trigger (rs_case s)), is_input = rs_current s\<rparr>"
  let ?A = "\<lambda>t. Opened n ?spec \<in> set (rs_log t)"
  show "triple (\<lambda>t. t = s) (then_p (log_effect (Opened n ?spec))
       (then_p (upd_p (\<lambda>s. s\<lparr>rs_case := (rs_case s)\<lparr>c_instances := c_instances (rs_case s) @
                    [(n, child_key w (c_id (rs_case s)) n, did)]\<rparr>,
                  rs_ep := fst (ep_run (cw_ep w) (rs_ep s) (cw_between w n))\<rparr>))
       (bind_p (lift_p (child_answer (cw_child w n ?spec))) (\<lambda>env.
        then_p (upd_p (\<lambda>s. s\<lparr>rs_outputs := dict_or_nil (dget env ''outputs''),
                  rs_chain := list_or_nil (dget env ''approval_chain'')\<rparr>))
          (ret_p env))))) (\<lambda>_ _. True) (awaits_instance w)"
    unfolding log_effect_def
    by (rule triple_then [OF triple_upd [where Q = "\<lambda>_. ?A"] triple_then [OF triple_upd [where Q = "\<lambda>_. ?A"]
          triple_bind [OF triple_lift [where Q = "\<lambda>_. ?A"] triple_then [OF triple_upd [where Q = "\<lambda>_. ?A"] triple_ret]]]])
      (auto simp: awaits_instance_def child_answer_def split: option.splits sum.splits)
qed

lemma hop_waits: "waits w (hop w trig did n)"
  unfolding hop_def conclude_def Let_def
  by (intro waits_bind waits_then run_child_waits ending_steps) (auto intro: ending_steps)

lemma hops_waits: "waits w (hops w trig fuel n did)"
proof (induction fuel arbitrary: n did)
  case 0
  show ?case by (simp add: triple_raise awaits_instance_def)
next
  case (Suc fuel)
  then show ?case by (auto intro!: waits_bind waits_then hop_waits ending_steps)
qed

lemma run_opened_waits: "waits w (run_opened w ob c)"
proof -
  have body: "waits w (run_body w ob)"
    unfolding run_body_def by (intro waits_bind waits_then ending_steps hops_waits)
  have fail: "waits w (fail_case w c e)" for e
    unfolding fail_case_def
    by (intro waits_bind waits_then ending_steps) (simp add: triple_raise awaits_instance_def)
  have guard: "waits w (guarded w c (run_body w ob))"
    unfolding guarded_def
  proof (rule triple_catch [OF body])
    fix e
    show "triple (awaits_instance w e) (case e of Terminal e \<Rightarrow> fail_case w c e | Suspended \<Rightarrow> raise_p Suspended)
        (\<lambda>_ _. True) (awaits_instance w)"
      by (cases e) (auto intro: triple_raise triple_pre [OF fail])
  qed
  show ?thesis
    unfolding run_opened_def
    by (intro waits_bind waits_then ending_steps) (auto intro!: waits_bind waits_then ending_steps guard split: option.split)
qed

text \<open>
  C12. A case ends with its instances, within its bound. When the gateway answers each write with a
  verdict (the summary, within its five attempts, or not), the one thing a run can stay suspended on
  is an instance it opened itself and that never answered, so with instances that answer every case
  ends; its instances are numbered from one without a gap; there are at most 64, and exactly 64 when
  the case is failed for not having reached a terminal.
\<close>

theorem case_ends_within_the_bound:
  assumes "run_case w ep c req = (r, Some s)"
    and "\<forall>n i. journalled write_action_record (cw_record_http w n i) \<noteq> Again"
    and "\<forall>n. journalled stamp_seeded_by (cw_stamp_http w n) \<noteq> Again"
    and "CASE_SUMMARY_MAX_ATTEMPTS \<le> length (cw_summary_http w) \<or>
      journalled write_case_summary (cw_summary_http w) \<noteq> Again"
  shows "(r = Inl Suspended \<longrightarrow> (\<exists>n spec. Opened n spec \<in> set (rs_log s) \<and> cw_child w n spec = None)) \<and>
     map fst (c_instances (rs_case s)) = [1..<Suc (length (c_instances (rs_case s)))] \<and>
     length (c_instances (rs_case s)) \<le> 64 \<and>
     (r = Inl (Terminal TooManyInstances) \<longrightarrow> length (c_instances (rs_case s)) = 64)"
proof -
  have st: "settled w" using assms(2-4) by (simp add: settled_def)
  have "case r of Inl e \<Rightarrow> awaits_instance w e s | Inr a \<Rightarrow> True"
    by (rule run_case_triple [OF assms(1) run_opened_waits]) simp
  with st have waits: "r = Inl Suspended \<longrightarrow> (\<exists>n spec. Opened n spec \<in> set (rs_log s) \<and> cw_child w n spec = None)"
    by (auto simp: awaits_instance_def)
  have "case r of Inl e \<Rightarrow> in_bound MAX_INSTANCES e s | Inr a \<Rightarrow> \<exists>k \<le> MAX_INSTANCES. opened_upto k s"
    by (rule run_case_triple [OF assms(1) run_opened_within])
      (simp add: start_state_def new_case_def opened_upto_def)
  then obtain k where "k \<le> MAX_INSTANCES" and k: "opened_upto k s"
    and "r = Inl (Terminal TooManyInstances) \<longrightarrow> k = MAX_INSTANCES"
    by (auto simp: in_bound_def split: sum.splits)
  moreover from opened_upto_length [OF k] k have "length (c_instances (rs_case s)) = k"
    and "map fst (c_instances (rs_case s)) = [1..<Suc k]" by (simp_all only: opened_upto_def)
  ultimately show ?thesis using waits by (simp add: MAX_INSTANCES_def del: upt_Suc)
qed

text \<open>A case whose first instance waits for somebody is suspended, and holds its episode.\<close>

lemma a_waiting_instance_suspends_its_case:
  "map_prod id (map_option (\<lambda>s. (map fst (c_instances (rs_case s)), holder (rs_ep s))))
     (run_case ((alarm_world 1 [])\<lparr>cw_child := (\<lambda>_ _. None)\<rparr>) new_episode ''a1'' alarm_event)
   = (Inl Suspended, Some ([1], Some ''a1''))"
  by code_simp

theorem case_ends_within_the_bound_witness:
  "map fst (c_instances (rs_case (alarm_final 1))) = [1..<Suc (length (c_instances (rs_case (alarm_final 1))))] \<and>
   length (c_instances (rs_case (alarm_final 1))) \<le> 64"
proof -
  have a: "\<forall>n i. journalled write_action_record (cw_record_http (alarm_world 1 []) n i) \<noteq> Again"
    and b: "\<forall>n. journalled stamp_seeded_by (cw_stamp_http (alarm_world 1 []) n) \<noteq> Again"
    and c: "journalled write_case_summary (cw_summary_http (alarm_world 1 [])) \<noteq> Again"
    by (simp_all add: alarm_world_def write_action_record_def stamp_seeded_by_def write_case_summary_def accepted_def)
  from case_ends_within_the_bound [OF alarm_run a b disjI2 [OF c]] show ?thesis by blast
qed

end
