(* ===== verification/Case_Handlers.thy ===== *)
theory Case_Handlers
  imports Case_Runner
begin

text \<open>
  \<^verbatim>\<open>agent_fleet/restate_analyst/workflow_runner.py\<close>, the handlers beside the run: \<open>revise\<close> (a newer
  picture of the event a case opened on), \<open>signal\<close> (a system's answer to a \<open>signal_await\<close>),
  \<open>instance_spec\<close> and the admission check of \<open>_run_instance\<close>, and the retention read at import.
  The authority gate \<open>main._authorize_resolution\<close> is the argument \<open>authorize\<close>.
\<close>

subsection \<open>Retention\<close>

text \<open>\<open>py_int\<close> is Python's \<open>int(s)\<close>, \<open>None\<close> where it raises \<open>ValueError\<close>.\<close>

definition case_workflow_retention :: "(string \<Rightarrow> int option) \<Rightarrow> string option \<Rightarrow> string + int" where
  "case_workflow_retention py_int env =
     (let stripped = py_strip (case env of None \<Rightarrow> ''30'' | Some v \<Rightarrow> v);
          raw = (if stripped = [] then ''30'' else stripped);
          days = (case py_int raw of None \<Rightarrow> 0 | Some d \<Rightarrow> d)
      in if days < 1 then Inl raw else Inr days)"

subsection \<open>A newer picture of the event\<close>

datatype revise_error =
    NoCaseToRevise
  | NoEpisodeToKeepIn
  | RevisionNotAdmitted routing_error
  | NotKept ep_error

definition revise ::
  "case_world \<Rightarrow> case_record option \<Rightarrow> episode \<Rightarrow> string \<Rightarrow> pydict \<Rightarrow> episode \<times> (revise_error + string \<times> int)" where
  "revise w held ep received request = (case held of
     None \<Rightarrow> (ep, Inl NoCaseToRevise)
   | Some c \<Rightarrow> (case c_episode c of
       None \<Rightarrow> (ep, Inl NoEpisodeToKeepIn)
     | Some k \<Rightarrow>
         let facts = dget request ''facts'' in
         (case bind_r (load_trigger (cw_triggers w) (c_trigger c)) (\<lambda>trig.
                 check_revision (cw_rend w) (cw_digest w) trig facts (c_id c) (Some k)) of
            Inl e \<Rightarrow> (ep, Inl (RevisionNotAdmitted e))
          | Inr flat \<Rightarrow> map_prod id (map_sum NotKept id)
              (keep_revision (w_instant (cw_ep w)) (w_prov (cw_ep w)) ep (c_id c) facts (PStr received)
                (dget request ''provenance'')))))"

subsection \<open>A system's answer\<close>

record awaits =
  aw_accepts :: "string \<Rightarrow> pyval list"
  aw_reasons :: "string \<Rightarrow> pyval list"

datatype signal_error =
    NotAwaited string
  | NotAccepted string
  | NeedsReason string
  | NotAuthorised string

definition signal ::
  "(pyval \<Rightarrow> string) \<Rightarrow> (string \<Rightarrow> pyval \<Rightarrow> pyval \<Rightarrow> string + pyval) \<Rightarrow> awaits \<Rightarrow> pydict
     \<Rightarrow> signal_error + (string \<times> pyval \<times> pyval \<times> pyval)" where
  "signal rend authorize aw request =
     (let name = str_or_empty rend (dget request ''signal'');
          accepts = aw_accepts aw name;
          status = dget request ''status'' in
      bind_r (require_r (accepts \<noteq> []) (NotAwaited name)) (\<lambda>_.
      bind_r (require_r (py_in status accepts) (NotAccepted name)) (\<lambda>_.
      bind_r (require_r (\<not> (py_in status (aw_reasons aw name) \<and>
          py_strip (str_or_empty rend (dget request ''comments'')) = [])) (NeedsReason name)) (\<lambda>_.
      bind_r (map_sum NotAuthorised id (authorize name (dget request ''acted_by'') (dget request ''acted_via''))) (\<lambda>who.
        Inr (name, status, dget_or request ''comments'' (PStr []), who))))))"

subsection \<open>An instance runs only what its case opened\<close>

datatype admit_error =
    NotItsInstance
  | NotOpened

text \<open>\<open>ctx.get(f"instance:{n}")\<close>: the last the case set under that number.\<close>

fun opened_spec :: "effect list \<Rightarrow> nat \<Rightarrow> instance_spec option" where
  "opened_spec [] n = None"
| "opened_spec (e # es) n = (case opened_spec es n of
     Some spec \<Rightarrow> Some spec
   | None \<Rightarrow> (case e of Opened m spec \<Rightarrow> if m = n then Some spec else None | _ \<Rightarrow> None))"

definition admit_instance ::
  "case_world \<Rightarrow> (string \<Rightarrow> effect list) \<Rightarrow> string \<Rightarrow> pydict \<Rightarrow> admit_error + instance_spec" where
  "admit_instance w case_log key request =
     (let case_id = str_or_empty (cw_rend w) (dget request ''child_of'') in
      (case dget request ''n'' of
         PInt i \<Rightarrow>
           if case_id = [] \<or> key \<noteq> case_id @ [CHILD_SEP] @ str_of (cw_rend w) (PInt i) then Inl NotItsInstance
           else if i < 0 then Inl NotOpened
           else (case opened_spec (case_log case_id) (nat i) of
                   None \<Rightarrow> Inl NotOpened | Some spec \<Rightarrow> Inr spec)
       | _ \<Rightarrow> Inl NotItsInstance))"

subsection \<open>What the handlers promise\<close>

lemma keep_revision_Inr:
  "keep_revision ins pb ep c facts received prov = (ep', Inr (c', n)) \<Longrightarrow>
     \<exists>event rv. facts = PDict event \<and> rev_no rv = n \<and> c' = c \<and>
       ep_revision ep' = Some \<lparr>ch_revision = Some rv, ch_facts = event\<rparr>"
  by (auto simp: keep_revision_def split: if_splits option.splits pyval.splits sum.splits)

lemma check_revision_flat:
  "check_revision rend dg trig facts c k = Inr flat \<Longrightarrow> flat = flatten facts []"
  by (auto simp: check_revision_def Let_def bind_r_Inr split: pyval.splits if_splits)

text \<open>
  What \<open>revise\<close> accepted, the case can read: a revision it kept passes the refresh of the
  case it was kept for, whose facts are then exactly the pushed event's and whose input is the
  revision number \<open>revise\<close> answered. A push never fails the case at its next refresh.
\<close>

theorem accepted_revision_refreshes_the_case:
  assumes "revise w (Some c) ep received request = (ep', Inr (cid, n))"
    and "load_trigger (cw_triggers w) (c_trigger c) = Inr trig"
    and "rs_ep s = ep'" and "c_id (rs_case s) = c_id c" and "c_episode (rs_case s) = c_episode c"
    and "rs_current s = Some cur" and "in_revision cur < n"
  shows "\<exists>event s' i. dget request ''facts'' = PDict event \<and> refresh w trig s = (Inr (), s') \<and>
     rs_facts s' = event \<and> rs_flat s' = flatten (PDict event) [] \<and>
     rs_current s' = Some i \<and> in_revision i = n"
proof -
  from assms(1,2) obtain k flat where k: "c_episode c = Some k"
    and check: "check_revision (cw_rend w) (cw_digest w) trig (dget request ''facts'') (c_id c) (Some k) = Inr flat"
    and keep: "keep_revision (w_instant (cw_ep w)) (w_prov (cw_ep w)) ep (c_id c) (dget request ''facts'')
       (PStr received) (dget request ''provenance'') = (ep', Inr (cid, n))"
    by (auto simp: revise_def Let_def map_prod_def split: option.splits sum.splits prod.splits)
       (auto simp: map_sum_def split: sum.splits)
  from keep_revision_Inr [OF keep] obtain event rv where ev: "dget request ''facts'' = PDict event"
    and rv: "rev_no rv = n" "ep_revision ep' = Some \<lparr>ch_revision = Some rv, ch_facts = event\<rparr>" by blast
  from check ev have chk: "check_revision (cw_rend w) (cw_digest w) trig (PDict event) (c_id c) (Some k) = Inr flat" by simp
  from check_revision_flat [OF chk] chk show ?thesis
    using assms(3-7) k ev rv
    by (simp add: refresh_def bind_p_def get_p_def terminally_def lift_p_def newest_revision_def newer_revision_def
        upd_p_def input_of_def)
qed

definition open_case_a1 :: case_record where
  "open_case_a1 = \<lparr>c_id = ''a1'', c_trigger = ''alarm'', c_state = Some ''fix'', c_terminal = None,
     c_episode = Some ''ep-dd'', c_episode_id = None, c_episode_id_source = None, c_instances = [],
     c_transitions = [], c_seeded_by = None, c_predecessor = None, c_revisions = []\<rparr>"

definition held_by_a1 :: episode where
  "held_by_a1 = fst (claim new_episode ''a1'' head1 None)"

definition pushed :: pydict where
  "pushed = [(''facts'', PDict [(''id'', PStr ''a1''), (''asset'', PStr ''pump''), (''level'', PInt 7)]),
     (''provenance'', PStr ''push'')]"

definition refreshing :: run_state where
  "refreshing = \<lparr>rs_case = open_case_a1,
     rs_ep = fst (revise (alarm_world 0 []) (Some open_case_a1) held_by_a1 ''tt'' pushed),
     rs_facts = [], rs_flat = [], rs_current = Some \<lparr>in_revision = 1, in_event = ''a1'', in_received = ''t'',
       in_supersedes = None, in_provenance = PNone\<rparr>, rs_outputs = [], rs_chain = [], rs_log = []\<rparr>"

theorem accepted_revision_refreshes_the_case_witness:
  "\<exists>s' i. refresh (alarm_world 0 []) alarm_trigger refreshing = (Inr (), s') \<and> rs_current s' = Some i \<and>
     in_revision i = 2"
proof -
  let ?w = "alarm_world 0 []"
  have "snd (revise ?w (Some open_case_a1) held_by_a1 ''tt'' pushed) = Inr (''a1'', 2)" by code_simp
  then have rev: "revise ?w (Some open_case_a1) held_by_a1 ''tt'' pushed = (rs_ep refreshing, Inr (''a1'', 2))"
    by (simp add: refreshing_def prod_eq_iff)
  have trig: "load_trigger (cw_triggers ?w) (c_trigger open_case_a1) = Inr alarm_trigger"
    by (simp add: load_trigger_def alarm_world_def open_case_a1_def)
  show ?thesis
    using accepted_revision_refreshes_the_case [OF rev trig refl, of "\<lparr>in_revision = 1, in_event = ''a1'',
        in_received = ''t'', in_supersedes = None, in_provenance = PNone\<rparr>"]
    by (auto simp: refreshing_def)
qed

text \<open>
  A signal resolves an await only with an answer the await declared: the status is one of
  those it accepts, a status that needs a reason carries one, and the actor is the one the
  authority gate verified; otherwise the signal is refused and nothing is resolved.
\<close>

theorem signal_resolves_only_declared_answers:
  "(\<exists>name comments. signal rend authorize aw request = Inr (name, status, comments, who)) \<longleftrightarrow>
     (let name = str_or_empty rend (dget request ''signal'') in
      status = dget request ''status'' \<and> py_in status (aw_accepts aw name) \<and>
      \<not> (py_in status (aw_reasons aw name) \<and> py_strip (str_or_empty rend (dget request ''comments'')) = []) \<and>
      authorize name (dget request ''acted_by'') (dget request ''acted_via'') = Inr who)"
proof -
  have "py_in v xs \<Longrightarrow> xs \<noteq> []" for v xs by auto
  then show ?thesis
    by (auto simp: signal_def Let_def bind_r_Inr map_sum_def split: sum.splits)
qed

text \<open>
  An instance runs only what its case opened: an admitted instance is the numbered child of
  the case its key names, and it runs the specification the case logged when it opened it.
\<close>

theorem instance_runs_what_its_case_opened:
  assumes "admit_instance w case_log key request = Inr spec"
  shows "\<exists>case_id n. key = child_key w case_id n \<and> Opened n spec \<in> set (case_log case_id)"
proof -
  have opened: "opened_spec lg n = Some spec \<Longrightarrow> Opened n spec \<in> set lg" for lg n
    by (induction lg) (auto split: option.splits effect.splits if_splits)
  from assms obtain i where
    "key = str_or_empty (cw_rend w) (dget request ''child_of'') @ [CHILD_SEP] @ str_of (cw_rend w) (PInt i)"
    and "0 \<le> i" and "opened_spec (case_log (str_or_empty (cw_rend w) (dget request ''child_of''))) (nat i) = Some spec"
    by (auto simp: admit_instance_def Let_def split: pyval.splits if_splits option.splits)
  with opened show ?thesis by (metis child_key_def dec_def int_nat_eq)
qed

theorem instance_runs_what_its_case_opened_witness:
  "\<exists>case_id n. ''a1~1'' = child_key (alarm_world 0 []) case_id n \<and>
     Opened n \<lparr>is_definition = ''fix'', is_trigger = [], is_outputs = [], is_chain = [],
       is_case = (''a1'', ''alarm''), is_input = None\<rparr> \<in> set ((\<lambda>_. [Opened 1 \<lparr>is_definition = ''fix'', is_trigger = [],
       is_outputs = [], is_chain = [], is_case = (''a1'', ''alarm''), is_input = None\<rparr>]) case_id)"
  by (rule instance_runs_what_its_case_opened
      [where request = "[(''child_of'', PStr ''a1''), (''n'', PInt 1)]"])
    (simp add: admit_instance_def dget_def str_or_empty_def str_of_def CHILD_SEP_def alarm_world_def)

end
