(* ===== verification/Review_Coverage.thy ===== *)
theory Review_Coverage
  imports Format_Fingerprint
begin

text \<open>
  \<^verbatim>\<open>src/iagent/review_coverage.py\<close>: what a reviewer says was looked at, checked against the items of
  the extraction. A coverage is the dictionary of the request; \<open>rend\<close> is \<open>str\<close> of a value that is not
  a string, \<open>shape_of\<close> the registry of content kinds. The pydantic classes of the wire are not
  modelled: what reaches \<open>problem\<close> has the keys they require.
\<close>

subsection \<open>The two forms\<close>

definition ids_of :: "(pyval \<Rightarrow> string) \<Rightarrow> pyval \<Rightarrow> pyval" where
  "ids_of rend v = (case v of PList xs \<Rightarrow> PList (map (\<lambda>x. PStr (str_of rend x)) xs) | _ \<Rightarrow> v)"

definition convert_entry :: "(pyval \<Rightarrow> string) \<Rightarrow> pyval \<Rightarrow> pyval" where
  "convert_entry rend e = (case e of
     PDict d \<Rightarrow> PDict (AList.update ''items'' (ids_of rend (dget d ''parts'')) (filter (\<lambda>p. fst p \<noteq> ''parts'') d))
   | _ \<Rightarrow> e)"

definition convert_value :: "(pyval \<Rightarrow> string) \<Rightarrow> string \<Rightarrow> pyval \<Rightarrow> pyval" where
  "convert_value rend k v =
     (if k \<in> {''looked_at'', ''sampled'', ''flagged''} then ids_of rend v
      else if k \<in> {''groups'', ''shared''} then (case v of PList es \<Rightarrow> PList (map (convert_entry rend) es) | _ \<Rightarrow> v)
      else v)"

definition from_parts :: "(pyval \<Rightarrow> string) \<Rightarrow> pydict \<Rightarrow> string \<Rightarrow> pydict" where
  "from_parts rend legacy review_shape =
     fold (\<lambda>(k, v). AList.update k (convert_value rend k v)) legacy
       [(''review_shape'', PStr review_shape), (''item_kind'', PStr ''part'')]"

definition normalise_coverage ::
  "(pyval \<Rightarrow> string) \<Rightarrow> (string \<Rightarrow> string option) \<Rightarrow> pydict option \<Rightarrow> string option \<Rightarrow> pydict option" where
  "normalise_coverage rend shape_of cov content_kind = (case cov of
     None \<Rightarrow> None
   | Some c \<Rightarrow>
       if has_key c ''item_kind'' then Some c
       else (case (case content_kind of Some k \<Rightarrow> if k = [] then None else shape_of k | None \<Rightarrow> None) of
          Some shape \<Rightarrow> if shape = [] then Some c else Some (from_parts rend c shape)
        | None \<Rightarrow> Some c))"

subsection \<open>Where the items come from\<close>

definition page_of :: "pyval \<Rightarrow> int option" where
  "page_of v = (case v of PInt n \<Rightarrow> if n \<ge> 1 then Some n else None | _ \<Rightarrow> None)"

record section_row =
  sr_id :: string
  sr_title :: string
  sr_page :: int
  sr_page_end :: "int option"

definition section_of :: "string \<Rightarrow> pydict \<Rightarrow> section_row option" where
  "section_of sid r = (case (dget r ''title'', page_of (dget r ''start_page'')) of
     (PStr title, Some page) \<Rightarrow>
       if py_strip title = [] then None
       else (case dget r ''end_page'' of
          PNone \<Rightarrow> Some \<lparr>sr_id = sid, sr_title = title, sr_page = page, sr_page_end = None\<rparr>
        | e \<Rightarrow> (case page_of e of
            Some final_page \<Rightarrow> if final_page < page then None
                         else Some \<lparr>sr_id = sid, sr_title = title, sr_page = page, sr_page_end = Some final_page\<rparr>
          | None \<Rightarrow> None))
   | _ \<Rightarrow> None)"

definition child_id :: "string \<Rightarrow> nat \<Rightarrow> string" where
  "child_id parent i = parent @ ''_s'' @ dec_of i"

text \<open>\<open>_flatten_outline\<close>: depth first, in outline order; one invalid row makes the whole list \<open>None\<close>.\<close>

function flatten_rows :: "pyval list \<Rightarrow> string \<Rightarrow> nat \<Rightarrow> section_row list option" where
  "flatten_rows [] parent i = Some []"
| "flatten_rows (r # rs) parent i =
     (case section_of (child_id parent i) (dict_or_nil r) of
        None \<Rightarrow> None
      | Some item \<Rightarrow>
          (case (case dget (dict_or_nil r) ''subsections'' of
               PNone \<Rightarrow> Some []
             | PList subs \<Rightarrow> flatten_rows subs (child_id parent i) 0
             | _ \<Rightarrow> None) of
             None \<Rightarrow> None
           | Some inner \<Rightarrow> map_option (\<lambda>rest. item # inner @ rest) (flatten_rows rs parent (Suc i))))"
  by pat_completeness auto
termination
proof (relation "measure (\<lambda>(rs, _, _). size_list size rs)", goal_cases)
  case 1
  then show ?case by simp
next
  case (2 r rs parent i item subs)
  have "size (PList subs) \<le> size r"
  proof (cases r)
    case (PDict d)
    with 2(2) size_dget [of d "''subsections''"] show ?thesis by (simp add: dict_or_nil_def)
  qed (use 2(2) in \<open>simp_all add: dict_or_nil_def dget_def\<close>)
  then show ?case by simp
next
  case (3 r rs parent i item inner)
  then show ?case by simp
qed

definition outlines :: "pyval list \<Rightarrow> pyval list list" where
  "outlines augs = List.map_filter (\<lambda>a. case a of
     PDict d \<Rightarrow> (case dget d ''sections'' of
         PList ss \<Rightarrow> if has_key d ''outline_source'' then Some ss else None
       | _ \<Rightarrow> None)
   | _ \<Rightarrow> None) augs"

definition sections_from_extraction :: "pyval \<Rightarrow> string \<Rightarrow> section_row list option" where
  "sections_from_extraction extraction ingest_id = (case extraction of
     PDict d \<Rightarrow> (case dget d ''augmentations'' of
         PList augs \<Rightarrow>
           if ingest_id = [] then None
           else (case outlines augs of
               [rows] \<Rightarrow> (case flatten_rows rows ingest_id 0 of
                    Some out \<Rightarrow> if out \<noteq> [] \<and> distinct (map sr_id out) then Some out else None
                  | None \<Rightarrow> None)
             | _ \<Rightarrow> None)
       | _ \<Rightarrow> None)
   | _ \<Rightarrow> None)"

text \<open>\<open>LookupError\<close> is \<open>None\<close>: no reader for the kind, or a task that carries no valid sections.\<close>

definition section_universe :: "pyval \<Rightarrow> string set option" where
  "section_universe rows = (case rows of
     PList rs \<Rightarrow>
       (let ids = map (\<lambda>r. dget (dict_or_nil r) ''section_id'') rs in
        if rs = [] \<or> list_ex (\<lambda>v. \<not> is_str v \<or> v = PStr []) ids \<or> \<not> distinct ids then None
        else Some (set (map (\<lambda>v. case v of PStr s \<Rightarrow> s | _ \<Rightarrow> []) ids)))
   | _ \<Rightarrow> None)"

definition universe_for :: "(pyval \<Rightarrow> string) \<Rightarrow> string \<Rightarrow> pyval \<Rightarrow> string set option" where
  "universe_for rend item_kind raw =
     (if item_kind = ''part'' then Some (set (map (str_of rend) (list_or_nil raw)))
      else if item_kind = ''section'' then section_universe raw
      else None)"

subsection \<open>The checks\<close>

record shape_row =
  sh_item_kind :: string
  sh_rules_version :: string
  sh_rules :: "string list"

definition named_rules_of :: "pydict \<Rightarrow> pyval list" where
  "named_rules_of cov = map (\<lambda>g. dget (dict_or_nil g) ''rule'')
     (list_or_nil (dget cov ''groups'') @ list_or_nil (dget cov ''shared''))"

definition row_problem :: "pydict \<Rightarrow> shape_row option \<Rightarrow> string option \<Rightarrow> string option" where
  "row_problem cov row declared_shape = (case row of
     None \<Rightarrow> Some ''review_shape''
   | Some r \<Rightarrow>
       if (case declared_shape of None \<Rightarrow> PNone | Some s \<Rightarrow> PStr s) \<noteq> dget cov ''review_shape'' then Some ''review_shape''
       else if dget cov ''item_kind'' \<noteq> PStr (sh_item_kind r) then Some ''item_kind''
       else if dget cov ''rules_version'' \<noteq> PStr (sh_rules_version r) then Some ''unknown_rules_version''
       else if list_ex (\<lambda>v. \<not> py_in v (map PStr (sh_rules r))) (named_rules_of cov) then Some ''unknown_rule''
       else None)"

definition kind_of :: "(pyval \<Rightarrow> string) \<Rightarrow> pydict \<Rightarrow> string" where
  "kind_of rend cov = (if truthy (dget cov ''item_kind'') then str_of rend (dget cov ''item_kind'') else ''part'')"

definition ids_in :: "(pyval \<Rightarrow> string) \<Rightarrow> pyval \<Rightarrow> string list" where
  "ids_in rend v = map (str_of rend) (list_or_nil v)"

definition members :: "(pyval \<Rightarrow> string) \<Rightarrow> pydict \<Rightarrow> string \<Rightarrow> string list list" where
  "members rend cov field =
     (let key = (if has_key cov ''item_kind'' then ''items'' else ''parts'') in
      map (\<lambda>g. ids_in rend (dget (dict_or_nil g) key)) (list_or_nil (dget cov field)))"

definition id_lists :: "(pyval \<Rightarrow> string) \<Rightarrow> pydict \<Rightarrow> string list list" where
  "id_lists rend cov =
     [ids_in rend (dget cov ''looked_at''), ids_in rend (dget cov ''sampled''), ids_in rend (dget cov ''flagged'')]
     @ members rend cov ''groups'' @ members rend cov ''shared''"

fun overlap :: "string set \<Rightarrow> string list list \<Rightarrow> string set option" where
  "overlap opened [] = Some opened"
| "overlap opened (g # gs) = (if opened \<inter> set g \<noteq> {} then None else overlap (opened \<union> set g) gs)"

definition problem ::
  "(pyval \<Rightarrow> string) \<Rightarrow> pydict \<Rightarrow> string set \<Rightarrow> shape_row option \<Rightarrow> bool \<Rightarrow> string option \<Rightarrow> string option" where
  "problem rend cov universe row arrived_new declared_shape =
     (case (if arrived_new then row_problem cov row declared_shape else None) of
        Some bad \<Rightarrow> Some bad
      | None \<Rightarrow>
          if list_ex (\<lambda>ids. \<not> set ids \<subseteq> universe) (id_lists rend cov) then Some (''unknown_'' @ kind_of rend cov)
          else if list_ex (\<lambda>ids. \<not> distinct ids) (id_lists rend cov) then Some (''duplicate_'' @ kind_of rend cov)
          else (case overlap (set (ids_in rend (dget cov ''looked_at''))) (members rend cov ''groups'') of
              None \<Rightarrow> Some ''overlap''
            | Some opened \<Rightarrow> if opened \<noteq> universe then Some ''uncovered'' else None))"

subsection \<open>A coverage that passes\<close>

lemma overlap_distinct:
  assumes "overlap (set xs) gs = Some all" and "distinct xs" and "\<forall>g \<in> set gs. distinct g"
  shows "distinct (xs @ concat gs) \<and> set (xs @ concat gs) = all"
  using assms
proof (induction gs arbitrary: xs)
  case (Cons g gs)
  then have dis: "set xs \<inter> set g = {}" and rest: "overlap (set (xs @ g)) gs = Some all"
    by (auto split: if_splits)
  with Cons.IH [OF rest] Cons.prems show ?case by auto
qed auto

text \<open>
  A coverage that passes covers the document exactly: the items opened one by one and the
  items of the groups are, together, every item of the extraction, each once and no other; so no
  part of the document is left out, and none is counted both as looked at and as one of a group.
\<close>

theorem passing_coverage_partitions_the_items:
  assumes "problem rend cov universe row arrived_new declared_shape = None"
  shows "distinct (ids_in rend (dget cov ''looked_at'') @ concat (members rend cov ''groups'')) \<and>
     set (ids_in rend (dget cov ''looked_at'') @ concat (members rend cov ''groups'')) = universe \<and>
     (arrived_new \<longrightarrow> (\<exists>r. row = Some r \<and> dget cov ''item_kind'' = PStr (sh_item_kind r) \<and>
        dget cov ''rules_version'' = PStr (sh_rules_version r)))"
proof -
  from assms have lists: "\<forall>ids \<in> set (id_lists rend cov). distinct ids"
    and ov: "overlap (set (ids_in rend (dget cov ''looked_at''))) (members rend cov ''groups'') = Some universe"
    by (auto simp: problem_def list_ex_iff split: option.splits if_splits)
  from assms have "arrived_new \<Longrightarrow> row_problem cov row declared_shape = None"
    by (auto simp: problem_def split: option.splits)
  then have "arrived_new \<Longrightarrow> \<exists>r. row = Some r \<and> dget cov ''item_kind'' = PStr (sh_item_kind r) \<and>
        dget cov ''rules_version'' = PStr (sh_rules_version r)"
    by (auto simp: row_problem_def split: option.splits if_splits)
  with overlap_distinct [OF ov] lists show ?thesis by (auto simp: id_lists_def)
qed

definition coverage3 :: pydict where
  "coverage3 = [(''review_shape'', PStr ''notice''), (''item_kind'', PStr ''part''), (''rules_version'', PStr ''1''),
     (''looked_at'', PList [PStr ''0'']), (''sampled'', PList []), (''flagged'', PList []),
     (''groups'', PList [PDict [(''rule'', PStr ''same_cell''), (''items'', PList [PStr ''1'', PStr ''2''])]]),
     (''shared'', PList [])]"

theorem passing_coverage_partitions_the_items_witness:
  "distinct (ids_in (\<lambda>_. []) (dget coverage3 ''looked_at'') @ concat (members (\<lambda>_. []) coverage3 ''groups''))"
proof -
  have "problem (\<lambda>_. []) coverage3 {''0'', ''1'', ''2''} (Some \<lparr>sh_item_kind = ''part'', sh_rules_version = ''1'',
      sh_rules = [''same_cell'']\<rparr>) True (Some ''notice'') = None"
    by (simp add: problem_def row_problem_def named_rules_of_def coverage3_def dget_def list_or_nil_def dict_or_nil_def
        id_lists_def ids_in_def members_def has_key_def str_of_def insert_commute)
  from passing_coverage_partitions_the_items [OF this] show ?thesis by blast
qed

subsection \<open>The legacy form\<close>

lemma map_of_fold_update:
  "map_of (fold (\<lambda>(k, v). AList.update k (f k v)) xs out) = map_of out ++ map_of (rev (map (\<lambda>(k, v). (k, f k v)) xs))"
proof (induction xs arbitrary: out)
  case (Cons p xs)
  then show ?case
    by (cases p) (auto simp: update_conv' map_add_def fun_eq_iff split: option.split)
qed simp

lemma map_of_convert: "map_of (map (\<lambda>(k, v). (k, f k v)) xs) k = map_option (f k) (map_of xs k)"
  by (induction xs) auto

lemma map_of_rev_distinct: "distinct (map fst xs) \<Longrightarrow> map_of (rev xs) = map_of xs"
proof -
  assume d: "distinct (map fst xs)"
  moreover from d have "distinct (map fst (rev xs))" by (simp flip: rev_map)
  ultimately show "map_of (rev xs) = map_of xs" by (subst map_of_inject_set) simp_all
qed

lemma dget_from_parts:
  assumes "distinct (map fst legacy)" and "k \<noteq> ''review_shape''" and "k \<noteq> ''item_kind''"
  shows "dget (from_parts rend legacy shape) k = convert_value rend k (dget legacy k)"
proof -
  have keys: "map fst (map (\<lambda>(k, v). (k, convert_value rend k v)) legacy) = map fst legacy" by auto
  have "map_of (rev (map (\<lambda>(k, v). (k, convert_value rend k v)) legacy)) =
      map_of (map (\<lambda>(k, v). (k, convert_value rend k v)) legacy)"
    by (rule map_of_rev_distinct) (simp only: keys assms(1))
  then have "map_of (from_parts rend legacy shape) k = map_option (convert_value rend k) (map_of legacy k)"
    using assms(2,3) by (simp add: from_parts_def map_of_fold_update map_add_def map_of_convert split: option.split)
  moreover have "convert_value rend k PNone = PNone" by (simp add: convert_value_def ids_of_def)
  ultimately show ?thesis by (cases "map_of legacy k") (simp_all add: dget_def)
qed

lemma has_item_kind: "has_key (from_parts rend legacy shape) ''item_kind''"
  by (auto simp: has_key_def from_parts_def map_of_fold_update map_add_def split: option.split)

lemma ids_in_converted [simp]: "ids_in rend (ids_of rend v) = ids_in rend v"
  by (cases v) (simp_all add: ids_in_def ids_of_def list_or_nil_def str_of_def)

lemma ids_in_converted_entry:
  "ids_in rend (dget (dict_or_nil (convert_entry rend e)) ''items'') = ids_in rend (dget (dict_or_nil e) ''parts'')
     \<or> \<not> is_dict e"
  by (cases e) (simp_all add: convert_entry_def dict_or_nil_def is_dict_def)

lemma members_converted:
  assumes "distinct (map fst legacy)" and "\<not> has_key legacy ''item_kind''"
    and "field = ''groups'' \<or> field = ''shared''"
  shows "members rend (from_parts rend legacy shape) field = members rend legacy field"
proof -
  have d: "dget (from_parts rend legacy shape) field = convert_value rend field (dget legacy field)"
    using assms(1,3) by (auto intro: dget_from_parts)
  have entry: "ids_in rend (dget (dict_or_nil (convert_entry rend e)) ''items'') = ids_in rend (dget (dict_or_nil e) ''parts'')" for e
    using ids_in_converted_entry [of rend e]
    by (cases e) (auto simp: is_dict_def convert_entry_def dict_or_nil_def)
  have str: "ids_in rend (dget (dict_or_nil e) ''items'') = ids_in rend (dget (dict_or_nil e) ''parts'')"
    if "e \<in> set (list_or_nil v)" "\<nexists>es. v = PList es" for e v
    using that by (cases v) (auto simp: list_or_nil_def dict_or_nil_def dget_def)
  show ?thesis
    using assms(3) str [of _ "dget legacy field"]
    by (cases "dget legacy field")
      (auto simp: members_def has_item_kind assms(2) d convert_value_def entry list_or_nil_def comp_def)
qed

text \<open>
  Reading the old form as the new one changes no verdict: the coverage converted from the
  \<open>parts\<close> form passes or is refused with the same check, over the same items, as the body that
  was sent.
\<close>

theorem conversion_keeps_the_verdict:
  assumes "distinct (map fst legacy)" and "\<not> has_key legacy ''item_kind''"
  shows "problem rend (from_parts rend legacy shape) universe row False declared =
     problem rend legacy universe row False declared"
proof -
  have looked: "ids_in rend (dget (from_parts rend legacy shape) k) = ids_in rend (dget legacy k)"
    if "k \<in> {''looked_at'', ''sampled'', ''flagged''}" for k
    using that dget_from_parts [OF assms(1), of k rend shape] by (auto simp: convert_value_def)
  have "id_lists rend (from_parts rend legacy shape) = id_lists rend legacy"
    using looked members_converted [OF assms, of _ rend shape] by (simp add: id_lists_def)
  moreover have "kind_of rend (from_parts rend legacy shape) = ''part''"
  proof -
    have "''item_kind'' \<notin> fst ` set legacy" using assms(2) by (simp add: has_key_def map_of_eq_None_iff)
    then have "map_of (rev (map (\<lambda>(k, v). (k, convert_value rend k v)) legacy)) ''item_kind'' = None"
      by (force simp: map_of_eq_None_iff)
    then have "dget (from_parts rend legacy shape) ''item_kind'' = PStr ''part''"
      by (simp add: dget_def from_parts_def map_of_fold_update map_add_def)
    then show ?thesis by (simp add: kind_of_def str_of_def)
  qed
  moreover have "kind_of rend legacy = ''part''"
    using assms(2) by (simp add: kind_of_def dget_def has_key_def)
  ultimately show ?thesis
    using looked members_converted [OF assms, of _ rend shape] by (simp add: problem_def)
qed

definition legacy3 :: pydict where
  "legacy3 = [(''looked_at'', PList [PInt 0]), (''sampled'', PList []), (''flagged'', PList []),
     (''groups'', PList [PDict [(''rule'', PStr ''r''), (''parts'', PList [PInt 1])]]), (''shared'', PList [])]"

theorem conversion_keeps_the_verdict_witness:
  "problem (\<lambda>v. if v = PInt 0 then ''0'' else ''1'') (from_parts (\<lambda>v. if v = PInt 0 then ''0'' else ''1'') legacy3 ''notice'')
     {''0'', ''1''} None False None = None"
proof -
  let ?r = "\<lambda>v. if v = PInt 0 then ''0'' else ''1''"
  have "problem ?r legacy3 {''0'', ''1''} None False None = None"
    by (simp add: problem_def legacy3_def dget_def list_or_nil_def dict_or_nil_def id_lists_def ids_in_def members_def
        has_key_def str_of_def insert_commute)
  moreover have "distinct (map fst legacy3)" "\<not> has_key legacy3 ''item_kind''"
    by (simp_all add: legacy3_def has_key_def)
  ultimately show ?thesis using conversion_keeps_the_verdict [of legacy3 ?r "''notice''"] by simp
qed

subsection \<open>The served sections\<close>

definition valid_section :: "string \<Rightarrow> section_row \<Rightarrow> bool" where
  "valid_section owner s \<longleftrightarrow> (\<exists>tail. sr_id s = owner @ ''_s'' @ tail) \<and> py_strip (sr_title s) \<noteq> [] \<and> 1 \<le> sr_page s \<and>
     (\<forall>e. sr_page_end s = Some e \<longrightarrow> sr_page s \<le> e)"

lemma section_of_valid: "section_of (child_id owner i) d = Some s \<Longrightarrow> valid_section owner s"
  by (auto simp: section_of_def valid_section_def child_id_def page_of_def split: pyval.splits option.splits if_splits)

lemma flatten_rows_valid:
  "flatten_rows rs owner i = Some out \<Longrightarrow> s \<in> set out \<Longrightarrow> valid_section owner s"
proof (induction rs owner i arbitrary: out s rule: flatten_rows.induct)
  case (2 r rs parent i)
  from "2.prems"(1) obtain item inner rest where item: "section_of (child_id parent i) (dict_or_nil r) = Some item"
    and inner: "(case dget (dict_or_nil r) ''subsections'' of PNone \<Rightarrow> Some []
       | PList subs \<Rightarrow> flatten_rows subs (child_id parent i) 0 | _ \<Rightarrow> None) = Some inner"
    and rest: "flatten_rows rs parent (Suc i) = Some rest" and out: "out = item # inner @ rest"
    by (auto split: option.splits)
  from "2.prems"(2) out consider "s = item" | "s \<in> set inner" | "s \<in> set rest" by auto
  then show ?case
  proof cases
    case 1
    with section_of_valid [OF item] show ?thesis by simp
  next
    case 2
    with inner obtain subs where subs: "dget (dict_or_nil r) ''subsections'' = PList subs"
      "flatten_rows subs (child_id parent i) 0 = Some inner" by (auto split: pyval.splits)
    from "2.IH"(1) [OF item subs(1) subs(2) 2] show ?thesis
      by (auto simp: valid_section_def child_id_def)
  next
    case 3
    from "2.IH"(2) [OF item inner rest 3] show ?thesis .
  qed
qed simp

text \<open>
  A served section list is whole and addressable: when the document's sections are served,
  there is at least one, no two share an id, every id belongs to this document, and every
  section has a title and pages that do not run backwards.
\<close>

theorem served_sections_are_addressable:
  assumes "sections_from_extraction extraction ingest_id = Some out"
  shows "out \<noteq> [] \<and> distinct (map sr_id out) \<and>
     (\<forall>s \<in> set out. (\<exists>tail. sr_id s = ingest_id @ ''_s'' @ tail) \<and> py_strip (sr_title s) \<noteq> [] \<and>
        1 \<le> sr_page s \<and> (\<forall>e. sr_page_end s = Some e \<longrightarrow> sr_page s \<le> e))"
proof -
  from assms obtain rows where "flatten_rows rows ingest_id 0 = Some out" and "out \<noteq> []" and "distinct (map sr_id out)"
    by (auto simp: sections_from_extraction_def split: pyval.splits if_splits list.splits option.splits)
  with flatten_rows_valid show ?thesis by (auto simp: valid_section_def)
qed

definition extraction2 :: pyval where
  "extraction2 = PDict [(''augmentations'', PList [PDict [(''outline_source'', PStr ''toc''), (''sections'', PList
     [PDict [(''title'', PStr ''Scope''), (''start_page'', PInt 1), (''subsections'', PList
        [PDict [(''title'', PStr ''Parts''), (''start_page'', PInt 2), (''end_page'', PInt 3)]])]])]])]"

theorem served_sections_are_addressable_witness:
  "\<exists>out. sections_from_extraction extraction2 ''d'' = Some out \<and> distinct (map sr_id out)"
proof -
  have "sections_from_extraction extraction2 ''d'' \<noteq> None" by code_simp
  then obtain out where "sections_from_extraction extraction2 ''d'' = Some out" by blast
  with served_sections_are_addressable [OF this] show ?thesis by blast
qed

end
