(* ===== verification/Bulk_Review.thy ===== *)
theory Bulk_Review
  imports Format_Fingerprint "HOL-Library.Multiset"
begin

text \<open>
  A notice's parts, from the disposition policy to the resolved items:
  \<^verbatim>\<open>agent_fleet/restate_analyst/policy_evaluator.py\<close> (relevance and proposed disposition from a
  ruleset that is data) and \<^verbatim>\<open>agent_fleet/restate_analyst/workflow_bulk_resolve.py\<close> (the funnel, the
  batch of one approver, and one decision over it). Who may act is the argument \<open>can_act\<close>.
\<close>

subsection \<open>Parts, batches and decisions\<close>

record part_item =
  pi_mpn :: string
  pi_relevance :: rat
  pi_subject :: "string option"
  pi_proposed :: pyval
  pi_needs_review :: bool
  pi_ruleset :: "string option"

record funnel_result =
  fr_residue :: "part_item list"
  fr_filtered :: "part_item list"
  fr_auto_disposed :: "part_item list"
  fr_review_forced :: "part_item list"

record review_batch =
  rb_approver :: string
  rb_items :: "part_item list"
  rb_withheld :: "part_item list"

record override =
  ov_disposition :: pyval
  ov_reason :: string

definition mk_override :: "pyval \<Rightarrow> string \<Rightarrow> override option" where
  "mk_override disposition reason =
     (if py_strip reason = [] then None else Some \<lparr>ov_disposition = disposition, ov_reason = reason\<rparr>)"

type_synonym overrides = "(string \<times> override) list"

datatype batch_refusal =
    UnverifiedPart string
  | NoDisposition string

record item_resolution =
  ir_mpn :: string
  ir_subject :: "string option"
  ir_disposition :: pyval
  ir_key :: string
  ir_needs_review :: bool
  ir_reason :: "string option"
  ir_ruleset :: "string option"
  ir_provenance :: "pydict option"

fun run_funnel_into :: "rat \<Rightarrow> (part_item \<Rightarrow> bool) \<Rightarrow> part_item list \<Rightarrow> funnel_result \<Rightarrow> funnel_result" where
  "run_funnel_into lowest disp [] res = res"
| "run_funnel_into lowest disp (it # its) res = run_funnel_into lowest disp its
     (if pi_needs_review it
      then res\<lparr>fr_residue := fr_residue res @ [it], fr_review_forced := fr_review_forced res @ [it]\<rparr>
      else if pi_relevance it < lowest then res\<lparr>fr_filtered := fr_filtered res @ [it]\<rparr>
      else if disp it then res\<lparr>fr_auto_disposed := fr_auto_disposed res @ [it]\<rparr>
      else res\<lparr>fr_residue := fr_residue res @ [it]\<rparr>)"

definition run_funnel :: "rat \<Rightarrow> (part_item \<Rightarrow> bool) option \<Rightarrow> part_item list \<Rightarrow> funnel_result" where
  "run_funnel lowest auto items =
     run_funnel_into lowest (case auto of None \<Rightarrow> (\<lambda>_. False) | Some d \<Rightarrow> d) items
       \<lparr>fr_residue = [], fr_filtered = [], fr_auto_disposed = [], fr_review_forced = []\<rparr>"

definition grouped_review :: "(string \<Rightarrow> part_item \<Rightarrow> bool) \<Rightarrow> part_item list \<Rightarrow> string \<Rightarrow> review_batch" where
  "grouped_review can_act residue approver =
     \<lparr>rb_approver = approver, rb_items = filter (can_act approver) residue,
      rb_withheld = filter (\<lambda>it. \<not> can_act approver it) residue\<rparr>"

definition resolve_item :: "overrides \<Rightarrow> string \<Rightarrow> part_item \<Rightarrow> batch_refusal + item_resolution" where
  "resolve_item ovs fingerprint it =
     (let ov = map_of ovs (pi_mpn it) in
      if pi_needs_review it \<and> ov = None then Inl (UnverifiedPart (pi_mpn it))
      else let disposition = (case ov of Some v \<Rightarrow> ov_disposition v | None \<Rightarrow> pi_proposed it) in
        if \<not> truthy disposition then Inl (NoDisposition (pi_mpn it))
        else Inr \<lparr>ir_mpn = pi_mpn it, ir_subject = pi_subject it, ir_disposition = disposition,
               ir_key = fingerprint @ '':'' @ pi_mpn it, ir_needs_review = pi_needs_review it,
               ir_reason = map_option ov_reason ov, ir_ruleset = pi_ruleset it, ir_provenance = None\<rparr>)"

definition resolve_batch :: "review_batch \<Rightarrow> overrides \<Rightarrow> string \<Rightarrow> batch_refusal + item_resolution list" where
  "resolve_batch batch ovs fingerprint = map_r (resolve_item ovs fingerprint) (rb_items batch)"

subsection \<open>The disposition policy\<close>

datatype outcome = Matched | Unclassifiable | Conflict

record proposal =
  pr_disposition :: pyval
  pr_outcome :: outcome
  pr_ruleset :: "string option"

definition rule_matches :: "(pyval \<Rightarrow> string) \<Rightarrow> pydict \<Rightarrow> string \<Rightarrow> bool \<Rightarrow> pyval list \<Rightarrow> bool" where
  "rule_matches rend rule doc_type has_replacement classes =
     (let nt = dget rule ''whenNoticeType''; hr = dget rule ''whenHasReplacement'';
          anycc = dget rule ''whenAnyChangeClass''; allcc = dget rule ''whenAllChangeClass'' in
      \<not> (truthy nt \<and> py_upper (str_of rend nt) \<noteq> py_upper doc_type) \<and>
      \<not> (hr \<noteq> PNone \<and> truthy hr \<noteq> has_replacement) \<and>
      \<not> (truthy anycc \<and> \<not> py_in anycc classes) \<and>
      \<not> (truthy allcc \<and> \<not> (classes \<noteq> [] \<and> list_all (py_eq allcc) classes)))"

definition change_classes :: "pydict \<Rightarrow> string list \<Rightarrow> pyval list" where
  "change_classes category_classes categories = List.map_filter (map_of category_classes) categories"

definition evaluate_rules ::
  "(pyval \<Rightarrow> string) \<Rightarrow> string \<Rightarrow> bool \<Rightarrow> string list \<Rightarrow> pydict list \<Rightarrow> pydict \<Rightarrow> string option \<Rightarrow> proposal" where
  "evaluate_rules rend doc_type has_replacement categories ruleset category_classes ruleset_ref =
     (let classes = change_classes category_classes categories;
          matched = filter (\<lambda>r. rule_matches rend r doc_type has_replacement classes) ruleset;
          dispositions = map (\<lambda>r. dget r ''proposesDisposition'') matched in
      case dispositions of
        [] \<Rightarrow> \<lparr>pr_disposition = PNone, pr_outcome = Unclassifiable, pr_ruleset = ruleset_ref\<rparr>
      | d # ds \<Rightarrow>
          if list_all (py_eq d) ds
          then \<lparr>pr_disposition = d, pr_outcome = Matched, pr_ruleset = ruleset_ref\<rparr>
          else \<lparr>pr_disposition = PNone, pr_outcome = Conflict, pr_ruleset = ruleset_ref\<rparr>)"

definition COND_KEYS :: "string list" where
  "COND_KEYS = [''whenNoticeType'', ''whenHasReplacement'', ''whenAnyChangeClass'', ''whenAllChangeClass'']"

definition conditions :: "pydict \<Rightarrow> pydict" where
  "conditions rule = map (\<lambda>k. (k, dget rule k)) (filter (\<lambda>k. dget rule k \<noteq> PNone) COND_KEYS)"

definition subsumes :: "pydict \<Rightarrow> pydict \<Rightarrow> bool" where
  "subsumes ca cb = list_all (\<lambda>p. list_ex (\<lambda>q. fst p = fst q \<and> py_eq (snd p) (snd q)) cb) ca"

datatype rule_error =
    Unregistered nat
  | UnknownCondition nat string
  | Subsumes nat nat

fun later_pairs :: "nat \<Rightarrow> 'a list \<Rightarrow> ((nat \<times> 'a) \<times> nat \<times> 'a) list" where
  "later_pairs n [] = []"
| "later_pairs n (x # xs) = map (\<lambda>p. ((n, x), p)) (enumerate (Suc n) xs) @ later_pairs (Suc n) xs"

definition validate_ruleset :: "pyval list \<Rightarrow> pydict list \<Rightarrow> rule_error list" where
  "validate_ruleset known ruleset =
     concat (map (\<lambda>(i, r).
         (if py_in (dget r ''proposesDisposition'') known then [] else [Unregistered i]) @
         map (UnknownCondition i) (filter (\<lambda>k. starts_with ''when'' k \<and> k \<notin> set COND_KEYS) (map fst r)))
       (enumerate 0 ruleset)) @
     concat (map (\<lambda>((i, a), (j, b)).
         if py_eq (dget a ''proposesDisposition'') (dget b ''proposesDisposition'') then []
         else if subsumes (conditions a) (conditions b) \<or> subsumes (conditions b) (conditions a)
         then [Subsumes i j] else [])
       (later_pairs 0 ruleset))"

definition score_relevance :: "string list \<Rightarrow> string \<Rightarrow> rat" where
  "score_relevance in_scope mpn = (if mpn \<in> set in_scope then 1 else 0)"

definition part_of_impact ::
  "(pyval \<Rightarrow> string) \<Rightarrow> string \<Rightarrow> string list \<Rightarrow> string list \<Rightarrow> pydict list \<Rightarrow> pydict \<Rightarrow> string option
     \<Rightarrow> pydict \<Rightarrow> part_item option" where
  "part_of_impact rend doc_type categories in_scope ruleset category_classes ruleset_ref p =
     (let mpn = py_strip (str_or_empty rend (dget p ''affected_mpn'')) in
      if mpn = [] then None
      else let has_replacement = py_strip (str_or_empty rend (dget p ''replacement_mpn'')) \<noteq> [];
               prop = evaluate_rules rend doc_type has_replacement categories ruleset category_classes ruleset_ref
           in Some \<lparr>pi_mpn = mpn, pi_relevance = score_relevance in_scope mpn, pi_subject = None,
                pi_proposed = pr_disposition prop, pi_needs_review = truthy (dget p ''needs_review''),
                pi_ruleset = pr_ruleset prop\<rparr>)"

definition build_part_items ::
  "(pyval \<Rightarrow> string) \<Rightarrow> pydict list \<Rightarrow> string \<Rightarrow> string list \<Rightarrow> string list \<Rightarrow> pydict list \<Rightarrow> pydict \<Rightarrow> string option
     \<Rightarrow> part_item list" where
  "build_part_items rend impacted doc_type categories in_scope ruleset category_classes ruleset_ref =
     List.map_filter
       (part_of_impact rend doc_type categories in_scope ruleset category_classes ruleset_ref) impacted"

subsection \<open>Nothing vanishes\<close>

text \<open>
  The contract of every step that splits a list of parts: what it takes out of the reviewer's
  sight is kept somewhere, and nothing is invented.
\<close>

locale honest_split =
  fixes shown withheld :: "'i list \<Rightarrow> 'i list"
  assumes accounted: "mset (shown xs) + mset (withheld xs) = mset xs"
begin

lemma member_iff: "x \<in> set xs \<longleftrightarrow> x \<in> set (shown xs) \<or> x \<in> set (withheld xs)"
  by (metis accounted set_mset_mset set_mset_union Un_iff)

lemma size_split: "length (shown xs) + length (withheld xs) = length xs"
  by (metis accounted size_mset size_union)

lemma shown_once: "distinct xs \<Longrightarrow> distinct (shown xs) \<and> set (shown xs) \<inter> set (withheld xs) = {}"
proof -
  assume "distinct xs"
  then have "mset xs = mset_set (set xs)" by (simp add: mset_set_set)
  then have "distinct (shown xs @ withheld xs)"
    by (metis \<open>distinct xs\<close> accounted mset_append mset_eq_imp_distinct_iff)
  then show ?thesis by auto
qed

end

definition automated :: "funnel_result \<Rightarrow> part_item list" where
  "automated res = fr_filtered res @ fr_auto_disposed res"

lemma run_funnel_into_buckets:
  "let r = run_funnel_into lowest disp its res in
     fr_residue r = fr_residue res @ filter (\<lambda>it. pi_needs_review it \<or> (\<not> pi_relevance it < lowest \<and> \<not> disp it)) its \<and>
     fr_filtered r = fr_filtered res @ filter (\<lambda>it. \<not> pi_needs_review it \<and> pi_relevance it < lowest) its \<and>
     fr_auto_disposed r = fr_auto_disposed res @
       filter (\<lambda>it. \<not> pi_needs_review it \<and> \<not> pi_relevance it < lowest \<and> disp it) its \<and>
     fr_review_forced r = fr_review_forced res @ filter pi_needs_review its"
  by (induction its arbitrary: res) (simp_all add: Let_def)

definition disposes :: "(part_item \<Rightarrow> bool) option \<Rightarrow> part_item \<Rightarrow> bool" where
  "disposes auto = (case auto of None \<Rightarrow> (\<lambda>_. False) | Some d \<Rightarrow> d)"

lemma run_funnel_buckets:
  "fr_residue (run_funnel lowest auto its) =
     filter (\<lambda>it. pi_needs_review it \<or> (\<not> pi_relevance it < lowest \<and> \<not> disposes auto it)) its"
  "fr_filtered (run_funnel lowest auto its) = filter (\<lambda>it. \<not> pi_needs_review it \<and> pi_relevance it < lowest) its"
  "fr_auto_disposed (run_funnel lowest auto its) =
     filter (\<lambda>it. \<not> pi_needs_review it \<and> \<not> pi_relevance it < lowest \<and> disposes auto it) its"
  "fr_review_forced (run_funnel lowest auto its) = filter pi_needs_review its"
  using run_funnel_into_buckets [of lowest "disposes auto" its]
  by (simp_all add: run_funnel_def disposes_def Let_def)

interpretation funnel: honest_split
  "\<lambda>its. fr_residue (run_funnel lowest auto its)" "\<lambda>its. automated (run_funnel lowest auto its)"
proof
  fix xs
  show "mset (fr_residue (run_funnel lowest auto xs)) + mset (automated (run_funnel lowest auto xs)) = mset xs"
    unfolding automated_def run_funnel_buckets by (induction xs) auto
qed

interpretation review: honest_split
  "\<lambda>res. rb_items (grouped_review can_act res approver)"
  "\<lambda>res. rb_withheld (grouped_review can_act res approver)"
proof
  fix xs
  show "mset (rb_items (grouped_review can_act xs approver)) + mset (rb_withheld (grouped_review can_act xs approver)) = mset xs"
    by (induction xs) (auto simp: grouped_review_def)
qed

text \<open>
  The funnel is honest: each part of the notice is in exactly one bucket and no bucket holds
  a part the notice does not; a part whose extraction needs review is never filtered out nor
  disposed of automatically, and the forced bucket lists exactly those parts.
\<close>

theorem funnel_is_honest:
  "let r = run_funnel lowest auto its in
     mset (fr_residue r) + mset (fr_filtered r) + mset (fr_auto_disposed r) = mset its \<and>
     (\<forall>it \<in> set (fr_filtered r @ fr_auto_disposed r). \<not> pi_needs_review it) \<and>
     fr_review_forced r = filter pi_needs_review its \<and> set (fr_review_forced r) \<subseteq> set (fr_residue r)"
proof -
  have "mset (fr_residue (run_funnel lowest auto its)) + mset (automated (run_funnel lowest auto its)) = mset its"
    by (rule funnel.accounted)
  then show ?thesis by (auto simp: Let_def automated_def run_funnel_buckets union_assoc)
qed

definition flagged_part :: part_item where
  "flagged_part = \<lparr>pi_mpn = ''m1'', pi_relevance = 1, pi_subject = None, pi_proposed = PStr ''archive'',
     pi_needs_review = True, pi_ruleset = Some ''r1''\<rparr>"

theorem funnel_is_honest_witness: "flagged_part \<notin> set (fr_filtered (run_funnel 1 None [flagged_part]))"
proof -
  have "\<forall>it \<in> set (fr_filtered (run_funnel 1 None [flagged_part]) @ fr_auto_disposed (run_funnel 1 None [flagged_part])).
      \<not> pi_needs_review it"
    using funnel_is_honest [of 1 None "[flagged_part]"] unfolding Let_def by blast
  moreover have "pi_needs_review flagged_part" by (simp add: flagged_part_def)
  ultimately show ?thesis by auto
qed

subsection \<open>Resolving a batch\<close>

lemma map_r_nth:
  "map_r f xs = Inr ys \<Longrightarrow> length ys = length xs \<and> (\<forall>i < length xs. f (xs ! i) = Inr (ys ! i))"
  by (induction xs arbitrary: ys) (auto simp: bind_r_Inr nth_Cons split: nat.split)

lemma map_r_ok: "ok (map_r f xs) \<longleftrightarrow> (\<forall>x \<in> set xs. ok (f x))"
  by (induction xs) (auto simp: ok_iff bind_r_Inr)

lemma resolve_item_Inr:
  "resolve_item ovs fp it = Inr rs \<Longrightarrow>
     ir_mpn rs = pi_mpn it \<and> ir_key rs = fp @ '':'' @ pi_mpn it \<and> ir_needs_review rs = pi_needs_review it \<and>
     ir_ruleset rs = pi_ruleset it \<and> truthy (ir_disposition rs) \<and>
     (case map_of ovs (pi_mpn it) of
        Some v \<Rightarrow> ir_disposition rs = ov_disposition v \<and> ir_reason rs = Some (ov_reason v)
      | None \<Rightarrow> \<not> pi_needs_review it \<and> ir_disposition rs = pi_proposed it \<and> ir_reason rs = None)"
  by (auto simp: resolve_item_def Let_def split: if_splits option.splits)

definition made_overrides :: "overrides \<Rightarrow> bool" where
  "made_overrides ovs \<longleftrightarrow> (\<forall>(m, v) \<in> set ovs. \<exists>d r. mk_override d r = Some v)"

text \<open>
  No unverified part rides the bulk: when a decision over an approver's batch resolves, it
  resolves each part the approver was shown, in order, under the key of its own notice and part
  number; a part whose extraction needs review was individually overridden with a reason that is
  not blank, and its resolution still says that it needs review.
\<close>

theorem unverified_parts_never_ride_the_bulk:
  assumes "resolve_batch (grouped_review can_act (fr_residue (run_funnel lowest auto its)) approver) ovs fp = Inr out"
    and "made_overrides ovs"
  shows "map ir_mpn out = map pi_mpn (filter (can_act approver) (fr_residue (run_funnel lowest auto its))) \<and>
     (\<forall>rs \<in> set out. ir_key rs = fp @ '':'' @ ir_mpn rs \<and> truthy (ir_disposition rs)) \<and>
     (\<forall>it \<in> set its. pi_needs_review it \<and> can_act approver it \<longrightarrow>
        (\<exists>rs \<in> set out. ir_mpn rs = pi_mpn it \<and> ir_needs_review rs \<and>
           (\<exists>why. ir_reason rs = Some why \<and> py_strip why \<noteq> [])))"
proof -
  let ?shown = "filter (can_act approver) (fr_residue (run_funnel lowest auto its))"
  from assms(1) have m: "map_r (resolve_item ovs fp) ?shown = Inr out"
    by (simp add: resolve_batch_def grouped_review_def)
  note nth = map_r_nth [OF m]
  have names: "map ir_mpn out = map pi_mpn ?shown"
    by (rule nth_equalityI) (use nth resolve_item_Inr in auto)
  have keys: "ir_key rs = fp @ '':'' @ ir_mpn rs \<and> truthy (ir_disposition rs)" if "rs \<in> set out" for rs
  proof -
    from that nth obtain it where "resolve_item ovs fp it = Inr rs" by (auto simp: in_set_conv_nth)
    from resolve_item_Inr [OF this] show ?thesis by simp
  qed
  have flagged: "\<exists>rs \<in> set out. ir_mpn rs = pi_mpn it \<and> ir_needs_review rs \<and>
      (\<exists>why. ir_reason rs = Some why \<and> py_strip why \<noteq> [])"
    if "it \<in> set its" "pi_needs_review it" "can_act approver it" for it
  proof -
    from that have "it \<in> set ?shown" by (simp add: run_funnel_buckets)
    from map_r_Inr_set [OF m this] obtain rs where rs: "rs \<in> set out" "resolve_item ovs fp it = Inr rs" by blast
    from resolve_item_Inr [OF rs(2)] that(2) obtain v where "map_of ovs (pi_mpn it) = Some v"
      "ir_reason rs = Some (ov_reason v)" "ir_mpn rs = pi_mpn it" "ir_needs_review rs"
      by (auto split: option.splits)
    moreover from this(1) assms(2) have "py_strip (ov_reason v) \<noteq> []"
      by (auto simp: made_overrides_def mk_override_def dest!: map_of_SomeD bspec split: if_splits)
    ultimately show ?thesis using rs(1) by blast
  qed
  from names keys flagged show ?thesis by blast
qed

theorem unverified_parts_never_ride_the_bulk_witness:
  "\<exists>out. resolve_batch (grouped_review (\<lambda>_ _. True) (fr_residue (run_funnel 1 None [flagged_part])) ''kim'')
     [(''m1'', \<lparr>ov_disposition = PStr ''archive'', ov_reason = ''read the page''\<rparr>)] ''n'' = Inr out \<and>
     (\<exists>rs \<in> set out. ir_needs_review rs)"
proof -
  let ?ovs = "[(''m1'', \<lparr>ov_disposition = PStr ''archive'', ov_reason = ''read the page''\<rparr>)]"
  have "ok (resolve_batch (grouped_review (\<lambda>_ _. True) (fr_residue (run_funnel 1 None [flagged_part])) ''kim'') ?ovs ''n'')"
    by (simp add: resolve_batch_def grouped_review_def run_funnel_buckets resolve_item_def flagged_part_def ok_def)
  then obtain out where out: "resolve_batch (grouped_review (\<lambda>_ _. True) (fr_residue (run_funnel 1 None [flagged_part])) ''kim'') ?ovs ''n'' = Inr out"
    by (auto simp: ok_iff)
  have "mk_override (PStr ''archive'') ''read the page'' = Some \<lparr>ov_disposition = PStr ''archive'', ov_reason = ''read the page''\<rparr>"
    by (simp add: mk_override_def py_strip_eq_Nil is_space_def code_of_def Let_def)
  then have "made_overrides ?ovs" by (auto simp: made_overrides_def)
  from unverified_parts_never_ride_the_bulk [OF out this] out show ?thesis
    by (auto simp: flagged_part_def)
qed

subsection \<open>The policy proposes only what its rules agree on\<close>

lemma evaluate_rules_cases:
  "evaluate_rules rend dt hr cats ruleset cc ref =
     (let matched = filter (\<lambda>r. rule_matches rend r dt hr (change_classes cc cats)) ruleset;
          ds = map (\<lambda>r. dget r ''proposesDisposition'') matched in
      if ds = [] then \<lparr>pr_disposition = PNone, pr_outcome = Unclassifiable, pr_ruleset = ref\<rparr>
      else if list_all (py_eq (hd ds)) (tl ds) then \<lparr>pr_disposition = hd ds, pr_outcome = Matched, pr_ruleset = ref\<rparr>
      else \<lparr>pr_disposition = PNone, pr_outcome = Conflict, pr_ruleset = ref\<rparr>)"
  by (simp add: evaluate_rules_def Let_def split: list.split)

definition named_rules :: "pydict list \<Rightarrow> bool" where
  "named_rules ruleset \<longleftrightarrow> (\<forall>r \<in> set ruleset. is_str (dget r ''proposesDisposition''))"

lemma agree_iff:
  assumes "\<forall>d \<in> set ds. is_str d" and "ds \<noteq> []"
  shows "list_all (py_eq (hd ds)) (tl ds) \<longleftrightarrow> (\<forall>d \<in> set ds. d = hd ds)"
proof (cases ds)
  case (Cons d rest)
  with assms(1) obtain s where "d = PStr s" by (auto simp: is_str_iff)
  with Cons show ?thesis by (auto simp: list_all_iff)
qed (use assms(2) in simp)

text \<open>
  The system proposes only what it is sure of: it proposes a disposition exactly when some
  rule matches the part and every matching rule names that one disposition; with no matching
  rule, or with two that disagree, it proposes nothing. The order of the rules never matters.
\<close>

theorem proposal_is_unanimous:
  assumes "named_rules ruleset"
  shows "(pr_outcome (evaluate_rules rend dt hr cats ruleset cc ref) = Matched \<and>
      pr_disposition (evaluate_rules rend dt hr cats ruleset cc ref) = PStr d) \<longleftrightarrow>
     (let matching = {r \<in> set ruleset. rule_matches rend r dt hr (change_classes cc cats)} in
      matching \<noteq> {} \<and> (\<forall>r \<in> matching. dget r ''proposesDisposition'' = PStr d))"
proof -
  let ?m = "filter (\<lambda>r. rule_matches rend r dt hr (change_classes cc cats)) ruleset"
  let ?ds = "map (\<lambda>r. dget r ''proposesDisposition'') ?m"
  have str: "\<forall>d \<in> set ?ds. is_str d" using assms by (auto simp: named_rules_def)
  have set: "set ?ds = (\<lambda>r. dget r ''proposesDisposition'') ` {r \<in> set ruleset. rule_matches rend r dt hr (change_classes cc cats)}"
    by auto
  show ?thesis
  proof (cases "?ds = []")
    case True
    then have "{r \<in> set ruleset. rule_matches rend r dt hr (change_classes cc cats)} = {}"
      by (auto simp: filter_empty_conv)
    with True show ?thesis unfolding evaluate_rules_cases Let_def by simp
  next
    case False
    then have "hd ?ds \<in> set ?ds" by (rule hd_in_set)
    then have "(\<forall>x \<in> set ?ds. x = hd ?ds) \<and> hd ?ds = PStr d \<longleftrightarrow> (\<forall>x \<in> set ?ds. x = PStr d)" by metis
    moreover have "{r \<in> set ruleset. rule_matches rend r dt hr (change_classes cc cats)} \<noteq> {}"
      using False by (auto simp: filter_empty_conv)
    ultimately show ?thesis
      using False agree_iff [OF str False] unfolding set evaluate_rules_cases Let_def by auto
  qed
qed

definition seed_rules :: "pydict list" where
  "seed_rules =
     [[(''whenNoticeType'', PStr ''PDN''), (''whenHasReplacement'', PBool True), (''proposesDisposition'', PStr ''qualify'')],
      [(''whenAnyChangeClass'', PStr ''discontinuance''), (''whenHasReplacement'', PBool True),
       (''proposesDisposition'', PStr ''qualify'')]]"

theorem proposal_is_unanimous_witness:
  "pr_disposition (evaluate_rules (\<lambda>_. []) ''pdn'' True [] seed_rules [] None) = PStr ''qualify''"
proof -
  have n: "named_rules seed_rules" by (simp add: named_rules_def seed_rules_def dget_def is_str_def)
  have m: "rule_matches (\<lambda>_. []) (hd seed_rules) ''pdn'' True (change_classes [] [])" by code_simp
  then have "{r \<in> set seed_rules. rule_matches (\<lambda>_. []) r ''pdn'' True (change_classes [] [])} \<noteq> {}"
    by (auto simp: seed_rules_def)
  moreover have "\<forall>r \<in> set seed_rules. dget r ''proposesDisposition'' = PStr ''qualify''"
    by (simp add: seed_rules_def dget_def)
  ultimately show ?thesis
    using proposal_is_unanimous [OF n, of "\<lambda>_. []" "''pdn''" True "[]" "[]" None "''qualify''"]
    unfolding Let_def by blast
qed

lemma later_pairs_in:
  "i < j \<Longrightarrow> j < length xs \<Longrightarrow> ((n + i, xs ! i), (n + j, xs ! j)) \<in> set (later_pairs n xs)"
proof (induction xs arbitrary: n i j)
  case Nil
  then show ?case by simp
next
  case (Cons x xs)
  show ?case
  proof (cases i)
    case 0
    with Cons.prems obtain j' where j: "j = Suc j'" "j' < length xs" by (cases j) auto
    then have "(Suc n + j', xs ! j') \<in> set (enumerate (Suc n) xs)"
      by (simp add: in_set_enumerate_eq)
    with 0 j show ?thesis by force
  next
    case (Suc i')
    with Cons.prems obtain j' where "j = Suc j'" "i' < j'" "j' < length xs" by (cases j) auto
    with Cons.IH [of i' j' "Suc n"] Suc show ?thesis by simp
  qed
qed

lemma validate_ruleset_clean:
  assumes "validate_ruleset known ruleset = []" and "i < j" and "j < length ruleset"
    and "subsumes (conditions (ruleset ! i)) (conditions (ruleset ! j)) \<or>
      subsumes (conditions (ruleset ! j)) (conditions (ruleset ! i))"
  shows "py_eq (dget (ruleset ! i) ''proposesDisposition'') (dget (ruleset ! j) ''proposesDisposition'')"
proof -
  from later_pairs_in [OF assms(2,3), of 0]
  have mem: "((i, ruleset ! i), (j, ruleset ! j)) \<in> set (later_pairs 0 ruleset)" by simp
  from assms(1) have "\<forall>p \<in> set (later_pairs 0 ruleset). (\<lambda>((i, a), (j, b)).
         if py_eq (dget a ''proposesDisposition'') (dget b ''proposesDisposition'') then []
         else if subsumes (conditions a) (conditions b) \<or> subsumes (conditions b) (conditions a)
         then [Subsumes i j] else []) p = []"
    unfolding validate_ruleset_def by auto
  from bspec [OF this mem] assms(4) show ?thesis by (auto split: if_splits)
qed

text \<open>
  A validated ruleset has no conflict by refinement: whenever two of its rules both match a
  part and disagree, each states a condition the other does not, so a rule that only adds
  conditions to another can never be silenced by it.
\<close>

theorem validated_conflicts_are_between_dimensions:
  assumes "validate_ruleset known ruleset = []" and "named_rules ruleset"
    and "a \<in> set ruleset" and "b \<in> set ruleset"
    and "dget a ''proposesDisposition'' \<noteq> dget b ''proposesDisposition''"
  shows "\<not> subsumes (conditions a) (conditions b) \<and> \<not> subsumes (conditions b) (conditions a)"
proof -
  from assms(3,4) obtain i j where ij: "i < length ruleset" "ruleset ! i = a" "j < length ruleset" "ruleset ! j = b"
    by (metis in_set_conv_nth)
  have str: "is_str (dget a ''proposesDisposition'')" "is_str (dget b ''proposesDisposition'')"
    using assms(2-4) by (auto simp: named_rules_def)
  consider "i < j" | "j < i" | "i = j" by linarith
  then show ?thesis
  proof cases
    case 1
    with validate_ruleset_clean [OF assms(1) 1 ij(3)] ij assms(5) str show ?thesis by (auto simp: is_str_iff)
  next
    case 2
    with validate_ruleset_clean [OF assms(1) 2 ij(1)] ij assms(5) str show ?thesis by (auto simp: is_str_iff)
  next
    case 3
    with ij assms(5) show ?thesis by simp
  qed
qed

definition two_rules :: "pydict list" where
  "two_rules =
     [[(''whenNoticeType'', PStr ''PDN''), (''proposesDisposition'', PStr ''qualify'')],
      [(''whenHasReplacement'', PBool False), (''proposesDisposition'', PStr ''ltb'')]]"

theorem validated_conflicts_are_between_dimensions_witness:
  "\<not> subsumes (conditions (two_rules ! 0)) (conditions (two_rules ! 1))"
proof -
  have v: "validate_ruleset [PStr ''qualify'', PStr ''ltb''] two_rules = []"
    by (simp add: validate_ruleset_def two_rules_def conditions_def COND_KEYS_def subsumes_def dget_def
        starts_with_def enumerate_eq_zip)
  have n: "named_rules two_rules" by (simp add: named_rules_def two_rules_def dget_def is_str_def)
  show ?thesis
    using validated_conflicts_are_between_dimensions [OF v n, of "two_rules ! 0" "two_rules ! 1"]
    by (simp add: two_rules_def dget_def)
qed

definition broad_rule :: pydict where
  "broad_rule = [(''whenAnyChangeClass'', PStr ''administrative''), (''proposesDisposition'', PStr ''qualify'')]"

definition narrow_rule :: pydict where
  "narrow_rule = [(''whenAllChangeClass'', PStr ''administrative''), (''proposesDisposition'', PStr ''archive'')]"

text \<open>
  Subsumption the gate does not see: a rule on some class of change and a rule on that class
  alone with another disposition pass the ingest gate, although every part the second matches is
  matched by the first, so the second rule never proposes anything.
\<close>

theorem gate_misses_any_all_subsumption:
  "validate_ruleset [PStr ''qualify'', PStr ''archive''] [broad_rule, narrow_rule] = [] \<and>
   pr_disposition (evaluate_rules rend dt hr cats [broad_rule, narrow_rule] cc ref) \<noteq> PStr ''archive''"
proof -
  have gate: "validate_ruleset [PStr ''qualify'', PStr ''archive''] [broad_rule, narrow_rule] = []"
    by (simp add: validate_ruleset_def broad_rule_def narrow_rule_def conditions_def COND_KEYS_def subsumes_def
        dget_def starts_with_def enumerate_eq_zip)
  have implied: "rule_matches rend narrow_rule dt hr classes \<Longrightarrow> rule_matches rend broad_rule dt hr classes" for classes
    by (cases classes) (auto simp: rule_matches_def broad_rule_def narrow_rule_def dget_def Let_def)
  have "dget broad_rule ''proposesDisposition'' = PStr ''qualify''" "dget narrow_rule ''proposesDisposition'' = PStr ''archive''"
    by (simp_all add: broad_rule_def narrow_rule_def dget_def)
  with implied [of "change_classes cc cats"]
  have "pr_disposition (evaluate_rules rend dt hr cats [broad_rule, narrow_rule] cc ref) \<noteq> PStr ''archive''"
    by (auto simp: evaluate_rules_cases Let_def)
  with gate show ?thesis by blast
qed

end
