(* ===== verification/Steward_Correction.thy ===== *)
theory Steward_Correction
  imports Bulk_Review
begin

text \<open>
  \<^verbatim>\<open>agent_fleet/restate_analyst/steward_correction.py\<close>: what a steward may change on an extracted
  parts list, and what the change leaves. Row edits are the dictionaries of the wire; \<open>sdk_ref\<close> is
  the SDK's \<open>EvidenceRef\<close> validation, \<open>json\<close> the canonical JSON text and \<open>sha256\<close> the hex digest of a
  string. A refusal is \<open>EditRefusal\<close> with the rule that was broken.
\<close>

datatype edit_refusal =
    BadEvidenceRef
  | NotAnObject
  | UnknownKey string
  | NotAList string
  | RowNotObject string
  | RowUnknownKey string
  | NeedsText string string
  | SameAsExtracted string
  | TouchedTwice string
  | NewIdentityTwice string
  | NotARow string
  | CollidesWithRow string
  | HeaderKeys
  | HeaderField
  | HeaderTwice
  | NotACorrection
  | OverrideNewIdentity string
  | OverrideDeleted string
  | NoActor

definition REASON_CODES :: "string list" where
  "REASON_CODES = [''not_a_notice'', ''unreadable'', ''parts_unusable'', ''duplicate'']"

definition OBTAINED_VIA :: string where "OBTAINED_VIA = ''steward-corrected''"
definition EXTRACTION_DEFECT_KIND :: string where "EXTRACTION_DEFECT_KIND = ''extraction_defect''"

definition DELETED_KEYS :: "string list" where "DELETED_KEYS = [''mpn'', ''reason'', ''evidence_ref'']"
definition ADDED_KEYS :: "string list" where
  "ADDED_KEYS = [''mpn'', ''disposition'', ''reason'', ''evidence'', ''evidence_ref'']"
definition CORRECTED_KEYS :: "string list" where
  "CORRECTED_KEYS = [''mpn'', ''corrected_mpn'', ''evidence'', ''evidence_ref'']"
definition TOP_KEYS :: "string list" where "TOP_KEYS = [''deleted'', ''added'', ''corrected'']"
definition HEADER_FIELDS :: "string list" where "HEADER_FIELDS = [''mfr'', ''notice_id'', ''notice_date'']"
definition HEADER_KEYS :: "string list" where "HEADER_KEYS = [''field'', ''value'', ''evidence_ref'', ''reason'']"
definition EVIDENCE_REF_KEYS :: "string list" where "EVIDENCE_REF_KEYS = [''page'', ''bbox'', ''note'']"

definition is_num :: "pyval \<Rightarrow> bool" where
  "is_num v = (case v of PInt _ \<Rightarrow> True | PFloat _ \<Rightarrow> True | _ \<Rightarrow> False)"

definition bbox_ok :: "pyval \<Rightarrow> bool" where
  "bbox_ok v = (case v of PNone \<Rightarrow> True | PList xs \<Rightarrow> length xs = 4 \<and> list_all is_num xs | _ \<Rightarrow> False)"

definition normalize_evidence_ref :: "(pydict \<Rightarrow> bool) \<Rightarrow> pyval \<Rightarrow> edit_refusal + pydict" where
  "normalize_evidence_ref sdk_ref v = (case v of
     PStr s \<Rightarrow> if py_strip s = [] then Inl BadEvidenceRef else Inr [(''note'', PStr (py_strip s))]
   | PDict d \<Rightarrow>
       (let note = dget d ''note'' in
        if \<not> set (map fst d) \<subseteq> set EVIDENCE_REF_KEYS then Inl BadEvidenceRef
        else (case dget d ''page'' of
          PInt page \<Rightarrow>
            if page < 1 \<or> \<not> bbox_ok (dget d ''bbox'') \<or> (note \<noteq> PNone \<and> \<not> is_nonblank_str note) \<or> \<not> sdk_ref d
            then Inl BadEvidenceRef
            else Inr ([(''page'', PInt page), (''bbox'', dget d ''bbox'')] @
              (case note of PStr s \<Rightarrow> [(''note'', PStr (py_strip s))] | _ \<Rightarrow> []))
        | _ \<Rightarrow> Inl BadEvidenceRef))
   | _ \<Rightarrow> Inl BadEvidenceRef)"

definition evidence_text :: "(pyval \<Rightarrow> string) \<Rightarrow> pydict \<Rightarrow> pyval" where
  "evidence_text json ref = (if truthy (dget ref ''note'') then dget ref ''note'' else PStr (json (PDict ref)))"

record row_edits =
  re_deleted :: "pydict list"
  re_added :: "pydict list"
  re_corrected :: "pydict list"
  re_header :: "pydict list"

definition no_edits :: row_edits where
  "no_edits = \<lparr>re_deleted = [], re_added = [], re_corrected = [], re_header = []\<rparr>"

definition is_empty :: "row_edits \<Rightarrow> bool" where
  "is_empty e \<longleftrightarrow> re_deleted e = [] \<and> re_added e = [] \<and> re_corrected e = [] \<and> re_header e = []"

definition text_of :: "pyval \<Rightarrow> string" where
  "text_of v = (case v of PStr s \<Rightarrow> py_strip s | _ \<Rightarrow> [])"

definition lc :: "pyval \<Rightarrow> string" where
  "lc v = py_lower (text_of v)"

subsection \<open>Reading the edits\<close>

definition read_row :: "string \<Rightarrow> string list \<Rightarrow> pyval \<Rightarrow> edit_refusal + pydict" where
  "read_row key allowed r = (case r of
     PDict d \<Rightarrow> if set (map fst d) \<subseteq> set allowed
                then Inr (filter (\<lambda>p. \<not> (fst p = ''evidence_ref'' \<and> snd p = PNone)) d)
                else Inl (RowUnknownKey key)
   | _ \<Rightarrow> Inl (RowNotObject key))"

definition read_rows :: "pydict \<Rightarrow> string \<Rightarrow> string list \<Rightarrow> edit_refusal + pydict list" where
  "read_rows raw key allowed = (case dget raw key of
     PNone \<Rightarrow> Inr []
   | PList rs \<Rightarrow> map_r (read_row key allowed) rs
   | _ \<Rightarrow> Inl (NotAList key))"

definition normalize_row :: "(pydict \<Rightarrow> bool) \<Rightarrow> pydict \<Rightarrow> edit_refusal + pydict" where
  "normalize_row sdk_ref r =
     (if has_key r ''evidence_ref''
      then bind_r (normalize_evidence_ref sdk_ref (dget r ''evidence_ref''))
             (\<lambda>ref. Inr (AList.update ''evidence_ref'' (PDict ref) r))
      else Inr r)"

fun require_texts :: "string \<Rightarrow> string list \<Rightarrow> pydict list \<Rightarrow> edit_refusal + unit" where
  "require_texts what ks [] = Inr ()"
| "require_texts what ks (r # rs) =
     (case filter (\<lambda>k. text_of (dget r k) = []) ks of
        k # _ \<Rightarrow> Inl (NeedsText what k)
      | [] \<Rightarrow> require_texts what ks rs)"

fun require_corrected :: "pydict list \<Rightarrow> edit_refusal + unit" where
  "require_corrected [] = Inr ()"
| "require_corrected (r # rs) =
     bind_r (require_texts ''corrected'' [''mpn'', ''corrected_mpn'', ''evidence''] [r]) (\<lambda>_.
     if lc (dget r ''corrected_mpn'') = lc (dget r ''mpn'') then Inl (SameAsExtracted (lc (dget r ''mpn'')))
     else require_corrected rs)"

fun first_repeat :: "string list \<Rightarrow> string set \<Rightarrow> string option" where
  "first_repeat [] seen = None"
| "first_repeat (k # ks) seen = (if k \<in> seen then Some k else first_repeat ks (insert k seen))"

definition mpns :: "pydict list \<Rightarrow> string list" where
  "mpns rs = map (\<lambda>r. lc (dget r ''mpn'')) rs"

definition corrected_mpns :: "pydict list \<Rightarrow> string list" where
  "corrected_mpns rs = map (\<lambda>r. lc (dget r ''corrected_mpn'')) rs"

definition none_in :: "(string \<Rightarrow> edit_refusal) \<Rightarrow> (string \<Rightarrow> bool) \<Rightarrow> string list \<Rightarrow> edit_refusal + unit" where
  "none_in e bad ks = (case filter bad ks of k # _ \<Rightarrow> Inl (e k) | [] \<Rightarrow> Inr ())"

definition check_against_rows :: "string list \<Rightarrow> row_edits \<Rightarrow> edit_refusal + unit" where
  "check_against_rows extracted e =
     (let ex = map (\<lambda>m. lc (PStr m)) extracted in
      bind_r (none_in NotARow (\<lambda>k. k \<notin> set ex) (mpns (re_deleted e))) (\<lambda>_.
      bind_r (none_in NotARow (\<lambda>k. k \<notin> set ex) (mpns (re_corrected e))) (\<lambda>_.
      bind_r (none_in CollidesWithRow (\<lambda>k. k \<in> set ex) (mpns (re_added e))) (\<lambda>_.
      none_in CollidesWithRow (\<lambda>k. k \<in> set ex) (corrected_mpns (re_corrected e))))))"

definition repeat_free :: "(string \<Rightarrow> edit_refusal) \<Rightarrow> string list \<Rightarrow> edit_refusal + unit" where
  "repeat_free e ks = (case first_repeat ks {} of Some k \<Rightarrow> Inl (e k) | None \<Rightarrow> Inr ())"

definition check_rules :: "string list option \<Rightarrow> row_edits \<Rightarrow> edit_refusal + row_edits" where
  "check_rules extracted e =
     bind_r (require_texts ''deleted'' [''mpn'', ''reason''] (re_deleted e)) (\<lambda>_.
     bind_r (require_texts ''added'' [''mpn'', ''disposition'', ''reason'', ''evidence''] (re_added e)) (\<lambda>_.
     bind_r (require_corrected (re_corrected e)) (\<lambda>_.
     bind_r (repeat_free TouchedTwice (mpns (re_deleted e) @ mpns (re_corrected e))) (\<lambda>_.
     bind_r (repeat_free NewIdentityTwice (mpns (re_added e) @ corrected_mpns (re_corrected e))) (\<lambda>_.
     bind_r (case extracted of None \<Rightarrow> Inr () | Some ex \<Rightarrow> check_against_rows ex e) (\<lambda>_.
       Inr e))))))"

definition validate_row_edits ::
  "(pydict \<Rightarrow> bool) \<Rightarrow> pyval \<Rightarrow> string list option \<Rightarrow> edit_refusal + row_edits" where
  "validate_row_edits sdk_ref raw extracted = (case raw of
     PNone \<Rightarrow> Inr no_edits
   | PDict d \<Rightarrow>
       (case filter (\<lambda>k. k \<notin> set TOP_KEYS) (map fst d) of
          k # _ \<Rightarrow> Inl (UnknownKey k)
        | [] \<Rightarrow>
          bind_r (read_rows d ''deleted'' DELETED_KEYS) (\<lambda>dels.
          bind_r (read_rows d ''added'' ADDED_KEYS) (\<lambda>adds.
          bind_r (read_rows d ''corrected'' CORRECTED_KEYS) (\<lambda>cors.
          bind_r (map_r (normalize_row sdk_ref) dels) (\<lambda>dels.
          bind_r (map_r (normalize_row sdk_ref) adds) (\<lambda>adds.
          bind_r (map_r (normalize_row sdk_ref) cors) (\<lambda>cors.
            check_rules extracted
              \<lparr>re_deleted = dels, re_added = adds, re_corrected = cors, re_header = []\<rparr>)))))))
   | _ \<Rightarrow> Inl NotAnObject)"

subsection \<open>Header fields\<close>

definition text_or_none :: "pyval \<Rightarrow> pyval" where
  "text_or_none v = (if text_of v = [] then PNone else PStr (text_of v))"

definition header_edit ::
  "(pydict \<Rightarrow> bool) \<Rightarrow> pydict \<Rightarrow> pydict \<Rightarrow> string list \<Rightarrow> pyval \<Rightarrow> edit_refusal + (string \<times> pydict)" where
  "header_edit sdk_ref extracted fallback seen r = (case r of
     PDict d \<Rightarrow>
       bind_r (require_r (set (map fst d) = set HEADER_KEYS) HeaderKeys) (\<lambda>_.
       (case dget d ''field'' of
          PStr f \<Rightarrow>
            bind_r (require_r (f \<in> set HEADER_FIELDS) HeaderField) (\<lambda>_.
            bind_r (require_texts ''header'' [''value'', ''reason''] [d]) (\<lambda>_.
            bind_r (normalize_evidence_ref sdk_ref (dget d ''evidence_ref'')) (\<lambda>ref.
            bind_r (require_r (f \<notin> set seen) HeaderTwice) (\<lambda>_.
            (let ext = text_or_none (dget extracted f); val = text_of (dget d ''value'');
                 fb = text_or_none (dget fallback f) in
             if ext \<noteq> PNone \<and> py_casefold (text_of ext) = py_casefold val then Inl NotACorrection
             else Inr (f, [(''field'', PStr f), (''value'', PStr val), (''evidence_ref'', PDict ref),
                (''reason'', PStr (text_of (dget d ''reason''))), (''extracted'', ext),
                (''fallback'', if ext = PNone \<and> fb \<noteq> PNone
                   then PDict [(''source'', PStr ''notice_identity''), (''value'', fb)] else PNone)]))))))
        | _ \<Rightarrow> Inl HeaderField))
   | _ \<Rightarrow> Inl (RowNotObject ''header''))"

fun header_edits ::
  "(pydict \<Rightarrow> bool) \<Rightarrow> pydict \<Rightarrow> pydict \<Rightarrow> string list \<Rightarrow> pyval list \<Rightarrow> edit_refusal + pydict list" where
  "header_edits sdk_ref extracted fallback seen [] = Inr []"
| "header_edits sdk_ref extracted fallback seen (r # rs) =
     bind_r (header_edit sdk_ref extracted fallback seen r) (\<lambda>(f, e).
     bind_r (header_edits sdk_ref extracted fallback (f # seen) rs) (\<lambda>es. Inr (e # es)))"

definition validate_header_edits ::
  "(pydict \<Rightarrow> bool) \<Rightarrow> pyval \<Rightarrow> pydict \<Rightarrow> pydict \<Rightarrow> edit_refusal + pydict list" where
  "validate_header_edits sdk_ref raw extracted fallback = (case raw of
     PList rs \<Rightarrow> header_edits sdk_ref extracted fallback [] rs
   | _ \<Rightarrow> Inl (NotAList ''header_edits''))"

subsection \<open>Applying the edits\<close>

fun check_override_keys :: "string list \<Rightarrow> string list \<Rightarrow> string list \<Rightarrow> edit_refusal + unit" where
  "check_override_keys new_ids deleted [] = Inr ()"
| "check_override_keys new_ids deleted (key # rest) =
     (if lc (PStr key) \<in> set new_ids then Inl (OverrideNewIdentity key)
      else if lc (PStr key) \<in> set deleted then Inl (OverrideDeleted key)
      else check_override_keys new_ids deleted rest)"

definition check_overrides :: "overrides \<Rightarrow> row_edits \<Rightarrow> edit_refusal + unit" where
  "check_overrides ovs e =
     check_override_keys (mpns (re_added e) @ corrected_mpns (re_corrected e)) (mpns (re_deleted e)) (map fst ovs)"

definition provenance_for :: "string \<Rightarrow> pyval \<Rightarrow> string \<Rightarrow> string \<Rightarrow> pydict" where
  "provenance_for who extracted corrected evidence =
     [(''obtained_via'', PStr OBTAINED_VIA), (''corrected_by'', PStr who), (''extracted_value'', extracted),
      (''corrected_value'', PStr corrected), (''evidence'', PStr evidence)]"

text \<open>\<open>{_lc(r["mpn"]): r for r in edits.corrected}\<close>: the last row of a key is the one kept.\<close>

definition correction_of :: "row_edits \<Rightarrow> string \<Rightarrow> pydict option" where
  "correction_of e mpn = map_of (rev (map (\<lambda>r. (lc (dget r ''mpn''), r)) (re_corrected e))) (lc (PStr mpn))"

definition apply_edits ::
  "review_batch \<Rightarrow> row_edits \<Rightarrow> string \<Rightarrow> edit_refusal + (review_batch \<times> (string \<times> pydict) list)" where
  "apply_edits batch e who =
     bind_r (require_r (is_empty e \<or> py_strip who \<noteq> []) NoActor) (\<lambda>_.
       Inr (batch\<lparr>rb_items := filter (\<lambda>it. lc (PStr (pi_mpn it)) \<notin> set (mpns (re_deleted e))) (rb_items batch)\<rparr>,
            List.map_filter (\<lambda>it. map_option (\<lambda>c. (pi_mpn it, provenance_for who (PStr (pi_mpn it))
                 (text_of (dget c ''corrected_mpn'')) (text_of (dget c ''evidence''))))
               (correction_of e (pi_mpn it))) (rb_items batch)))"

definition attach_provenance :: "item_resolution list \<Rightarrow> (string \<times> pydict) list \<Rightarrow> item_resolution list" where
  "attach_provenance rss prov = map (\<lambda>rs. case map_of prov (ir_mpn rs) of
     Some p \<Rightarrow> rs\<lparr>ir_provenance := Some p\<rparr> | None \<Rightarrow> rs) rss"

definition added_resolutions :: "row_edits \<Rightarrow> string \<Rightarrow> string \<Rightarrow> item_resolution list" where
  "added_resolutions e fingerprint who = map (\<lambda>r. let mpn = text_of (dget r ''mpn'') in
     \<lparr>ir_mpn = mpn, ir_subject = None, ir_disposition = PStr (text_of (dget r ''disposition'')),
      ir_key = fingerprint @ '':'' @ mpn, ir_needs_review = False,
      ir_reason = Some (text_of (dget r ''reason'')), ir_ruleset = None,
      ir_provenance = Some (provenance_for who PNone mpn (text_of (dget r ''evidence'')))\<rparr>) (re_added e)"

subsection \<open>What the edits leave: the defect task\<close>

definition ref_of :: "pydict \<Rightarrow> pydict" where
  "ref_of r = (if dget r ''evidence_ref'' \<noteq> PNone then [(''evidence_ref'', dget r ''evidence_ref'')] else [])"

definition text_at :: "pydict \<Rightarrow> string \<Rightarrow> pyval" where
  "text_at r k = PStr (text_of (dget r k))"

definition edit_log :: "(pyval \<Rightarrow> string) \<Rightarrow> row_edits \<Rightarrow> pydict list" where
  "edit_log json e =
     map (\<lambda>r. [(''op'', PStr ''corrected''), (''extracted'', text_at r ''mpn''), (''corrected'', text_at r ''corrected_mpn''),
       (''evidence'', text_at r ''evidence'')] @ ref_of r) (re_corrected e) @
     map (\<lambda>r. [(''op'', PStr ''added''), (''extracted'', PNone), (''corrected'', text_at r ''mpn''),
       (''evidence'', text_at r ''evidence''), (''reason'', text_at r ''reason''), (''disposition'', text_at r ''disposition'')]
       @ ref_of r) (re_added e) @
     map (\<lambda>r. [(''op'', PStr ''deleted''), (''extracted'', text_at r ''mpn''), (''corrected'', PNone),
       (''reason'', text_at r ''reason'')] @ ref_of r) (re_deleted e) @
     map (\<lambda>r. [(''op'', PStr ''header_corrected''), (''field'', dget r ''field''), (''extracted'', dget r ''extracted''),
       (''corrected'', dget r ''value''), (''evidence'', evidence_text json (dict_or_nil (dget r ''evidence_ref''))),
       (''evidence_ref'', dget r ''evidence_ref''), (''reason'', dget r ''reason''), (''fallback'', dget r ''fallback'')])
       (re_header e)"

definition pin_digest_of :: "(pyval \<Rightarrow> string) \<Rightarrow> (string \<Rightarrow> string) \<Rightarrow> pyval \<Rightarrow> pyval \<times> bool" where
  "pin_digest_of json sha256 pipeline_version = (let v = text_of pipeline_version in
     if v = [] then (PNone, True)
     else (PStr (''sha256:'' @ sha256 (json (PDict [(''pipeline_version'', PStr v)]))), False))"

record defect =
  df_task_key :: string
  df_audience :: string
  df_requested_by :: string
  df_acted_by :: string
  df_notice :: string
  df_payload :: pydict

definition defect_task ::
  "(pyval \<Rightarrow> string) \<Rightarrow> (string \<Rightarrow> string) \<Rightarrow> string \<Rightarrow> string \<Rightarrow> pyval \<Rightarrow> row_edits \<Rightarrow> string \<Rightarrow> string \<Rightarrow> string
     \<Rightarrow> string option \<Rightarrow> defect option" where
  "defect_task json sha256 notice decision_id pipeline_version e audience requested_by who ingest_id =
     (if is_empty e then None
      else let (digest, missing) = pin_digest_of json sha256 pipeline_version in
        Some \<lparr>df_task_key = ''extraction-defect:'' @ notice @ '':'' @ decision_id, df_audience = audience,
          df_requested_by = requested_by, df_acted_by = who, df_notice = notice,
          df_payload = [(''notice'', PStr notice), (''pin_digest'', digest), (''pin_fields_missing'', PBool missing),
            (''decision_id'', PStr decision_id), (''edits'', PList (map PDict (edit_log json e)))]
            @ (case ingest_id of None \<Rightarrow> [] | Some i \<Rightarrow> [(''ingest_id'', PStr i)])\<rparr>)"

subsection \<open>The rules of an accepted edit\<close>

lemma first_repeat_None: "first_repeat ks seen = None \<longleftrightarrow> distinct ks \<and> set ks \<inter> seen = {}"
  by (induction ks arbitrary: seen) auto

lemma repeat_free_Inr: "repeat_free e ks = Inr u \<longleftrightarrow> distinct ks"
  by (auto simp: repeat_free_def first_repeat_None split: option.splits)
    (metis first_repeat_None inf_bot_right not_None_eq)

lemma none_in_Inr: "none_in e bad ks = Inr u \<longleftrightarrow> (\<forall>k \<in> set ks. \<not> bad k)"
  by (auto simp: none_in_def filter_empty_conv split: list.split dest: filter_eq_ConsD)

lemma require_texts_Inr:
  "require_texts w ks rs = Inr u \<longleftrightarrow> (\<forall>r \<in> set rs. \<forall>k \<in> set ks. text_of (dget r k) \<noteq> [])"
proof (induction rs)
  case (Cons r rs)
  show ?case
  proof (cases "filter (\<lambda>k. text_of (dget r k) = []) ks")
    case Nil
    with Cons show ?thesis by (auto simp: filter_empty_conv)
  next
    case (Cons k rest)
    then have "k \<in> set (filter (\<lambda>k. text_of (dget r k) = []) ks)" by simp
    then have "k \<in> set ks" "text_of (dget r k) = []" by simp_all
    with Cons show ?thesis by auto
  qed
qed simp

lemma require_corrected_Inr:
  "require_corrected rs = Inr u \<longleftrightarrow> (\<forall>r \<in> set rs. (\<forall>k \<in> {''mpn'', ''corrected_mpn'', ''evidence''}. text_of (dget r k) \<noteq> []) \<and>
     lc (dget r ''corrected_mpn'') \<noteq> lc (dget r ''mpn''))"
  by (induction rs) (auto simp: bind_r_Inr require_texts_Inr simp del: require_texts.simps)

text \<open>What an accepted edit satisfies.\<close>

definition well_edited :: "row_edits \<Rightarrow> bool" where
  "well_edited e \<longleftrightarrow>
     (\<forall>r \<in> set (re_deleted e). text_of (dget r ''mpn'') \<noteq> [] \<and> text_of (dget r ''reason'') \<noteq> []) \<and>
     (\<forall>r \<in> set (re_added e). text_of (dget r ''mpn'') \<noteq> [] \<and> text_of (dget r ''disposition'') \<noteq> [] \<and>
        text_of (dget r ''reason'') \<noteq> [] \<and> text_of (dget r ''evidence'') \<noteq> []) \<and>
     (\<forall>r \<in> set (re_corrected e). text_of (dget r ''mpn'') \<noteq> [] \<and> text_of (dget r ''evidence'') \<noteq> [] \<and>
        lc (dget r ''corrected_mpn'') \<noteq> lc (dget r ''mpn'')) \<and>
     distinct (mpns (re_deleted e) @ mpns (re_corrected e)) \<and>
     distinct (mpns (re_added e) @ corrected_mpns (re_corrected e))"

definition edits_fit :: "string list \<Rightarrow> row_edits \<Rightarrow> bool" where
  "edits_fit extracted e \<longleftrightarrow>
     set (mpns (re_deleted e)) \<union> set (mpns (re_corrected e)) \<subseteq> (\<lambda>m. lc (PStr m)) ` set extracted \<and>
     (set (mpns (re_added e)) \<union> set (corrected_mpns (re_corrected e))) \<inter> (\<lambda>m. lc (PStr m)) ` set extracted = {}"

lemma check_against_rows_Inr: "check_against_rows ex e = Inr u \<longleftrightarrow> edits_fit ex e"
  by (auto simp: check_against_rows_def Let_def bind_r_Inr none_in_Inr edits_fit_def)

lemma check_rules_Inr:
  "check_rules extracted e = Inr e' \<Longrightarrow> e' = e \<and> well_edited e \<and> (\<forall>ex. extracted = Some ex \<longrightarrow> edits_fit ex e)"
  by (auto simp: check_rules_def bind_r_Inr require_texts_Inr require_corrected_Inr repeat_free_Inr
      check_against_rows_Inr well_edited_def simp del: require_texts.simps require_corrected.simps)

lemma validate_row_edits_Inr:
  assumes "validate_row_edits sdk raw extracted = Inr e"
  shows "well_edited e" and "extracted = Some ex \<Longrightarrow> edits_fit ex e"
proof -
  have "well_edited e \<and> (\<forall>ex. extracted = Some ex \<longrightarrow> edits_fit ex e)"
  proof (cases raw)
    case PNone
    with assms show ?thesis
      by (auto simp: validate_row_edits_def no_edits_def well_edited_def edits_fit_def mpns_def corrected_mpns_def)
  next
    case (PDict d)
    from assms obtain e0 where "check_rules extracted e0 = Inr e"
      unfolding validate_row_edits_def PDict by (auto simp: bind_r_Inr split: list.splits)
    from check_rules_Inr [OF this] show ?thesis by auto
  qed (use assms in \<open>auto simp: validate_row_edits_def\<close>)
  then show "well_edited e" and "extracted = Some ex \<Longrightarrow> edits_fit ex e" by auto
qed

subsection \<open>Identity never moves\<close>

lemma text_of_idem [simp]: "text_of (PStr (text_of v)) = text_of v"
proof -
  have "py_strip [] = []" by (simp add: py_strip_def)
  then show ?thesis by (cases v) (simp_all add: text_of_def)
qed

lemma lc_text [simp]: "lc (PStr (text_of v)) = lc v"
  by (simp add: lc_def)

lemma attach_provenance_frame [simp]:
  "map ir_mpn (attach_provenance rss prov) = map ir_mpn rss"
  "map ir_key (attach_provenance rss prov) = map ir_key rss"
  by (auto simp: attach_provenance_def split: option.split)

lemma resolved_keys:
  assumes "resolve_batch batch ovs fp = Inr out"
  shows "map ir_mpn out = map pi_mpn (rb_items batch)"
    and "map ir_key out = map (\<lambda>it. fp @ '':'' @ pi_mpn it) (rb_items batch)"
    and "\<forall>rs \<in> set out. ir_provenance rs = None"
proof -
  from assms have m: "map_r (resolve_item ovs fp) (rb_items batch) = Inr out" by (simp add: resolve_batch_def)
  note nth = map_r_nth [OF m]
  show "map ir_mpn out = map pi_mpn (rb_items batch)"
    by (rule nth_equalityI) (use nth resolve_item_Inr in auto)
  show "map ir_key out = map (\<lambda>it. fp @ '':'' @ pi_mpn it) (rb_items batch)"
    by (rule nth_equalityI) (use nth resolve_item_Inr in auto)
  have "resolve_item ovs fp it = Inr rs \<Longrightarrow> ir_provenance rs = None" for it rs
    by (auto simp: resolve_item_def Let_def split: if_splits option.splits)
  with nth show "\<forall>rs \<in> set out. ir_provenance rs = None" by (metis in_set_conv_nth)
qed

lemma apply_edits_Inr:
  assumes "apply_edits batch e who = Inr (kept, prov)"
  shows "rb_items kept = filter (\<lambda>it. lc (PStr (pi_mpn it)) \<notin> set (mpns (re_deleted e))) (rb_items batch)"
    and "(m, p) \<in> set prov \<Longrightarrow> \<exists>r \<in> set (re_corrected e). lc (dget r ''mpn'') = lc (PStr m) \<and>
       dget p ''extracted_value'' = PStr m \<and> dget p ''corrected_value'' = PStr (text_of (dget r ''corrected_mpn'')) \<and>
       dget p ''corrected_by'' = PStr who"
proof -
  from assms show "rb_items kept = filter (\<lambda>it. lc (PStr (pi_mpn it)) \<notin> set (mpns (re_deleted e))) (rb_items batch)"
    by (auto simp: apply_edits_def bind_r_Inr)
  assume "(m, p) \<in> set prov"
  with assms obtain it c where it: "it \<in> set (rb_items batch)" "m = pi_mpn it" "correction_of e m = Some c"
    and p: "p = provenance_for who (PStr m) (text_of (dget c ''corrected_mpn'')) (text_of (dget c ''evidence''))"
    by (auto simp: apply_edits_def bind_r_Inr List.map_filter_def)
  from it(3) have "c \<in> set (re_corrected e)" "lc (dget c ''mpn'') = lc (PStr m)"
    by (auto simp: correction_of_def dest!: map_of_SomeD)
  with p show "\<exists>r \<in> set (re_corrected e). lc (dget r ''mpn'') = lc (PStr m) \<and>
       dget p ''extracted_value'' = PStr m \<and> dget p ''corrected_value'' = PStr (text_of (dget r ''corrected_mpn'')) \<and>
       dget p ''corrected_by'' = PStr who"
    by (auto simp: provenance_for_def dget_def)
qed

text \<open>
  A correction never re-keys: with edits accepted for a batch, each row that is not deleted
  is resolved under its extracted number whatever it was corrected to; a correction is written
  beside that number, under the name of the steward who made it; and no two resolutions of the
  decision, added rows included, share an idempotency key.
\<close>

theorem correction_never_rekeys:
  assumes valid: "validate_row_edits sdk raw (Some (map pi_mpn (rb_items batch))) = Inr e"
    and once: "distinct (map (\<lambda>it. lc (PStr (pi_mpn it))) (rb_items batch))"
    and applied: "apply_edits batch e who = Inr (kept, prov)"
    and resolved: "resolve_batch kept ovs fp = Inr out"
  shows "map ir_key (attach_provenance out prov) = map (\<lambda>it. fp @ '':'' @ pi_mpn it)
       (filter (\<lambda>it. lc (PStr (pi_mpn it)) \<notin> set (mpns (re_deleted e))) (rb_items batch)) \<and>
     (\<forall>rs \<in> set (attach_provenance out prov). \<forall>p. ir_provenance rs = Some p \<longrightarrow>
        dget p ''extracted_value'' = PStr (ir_mpn rs) \<and> dget p ''corrected_by'' = PStr who \<and>
        (\<exists>r \<in> set (re_corrected e). lc (dget r ''mpn'') = lc (PStr (ir_mpn rs)) \<and>
           dget p ''corrected_value'' = PStr (text_of (dget r ''corrected_mpn'')))) \<and>
     distinct (map ir_key (attach_provenance out prov @ added_resolutions e fp who))"
proof (intro conjI ballI allI impI)
  note kept = apply_edits_Inr(1) [OF applied]
  note keys = resolved_keys [OF resolved]
  show "map ir_key (attach_provenance out prov) = map (\<lambda>it. fp @ '':'' @ pi_mpn it)
       (filter (\<lambda>it. lc (PStr (pi_mpn it)) \<notin> set (mpns (re_deleted e))) (rb_items batch))"
    using keys(2) by (simp add: kept)
  fix rs p assume rs: "rs \<in> set (attach_provenance out prov)" and p: "ir_provenance rs = Some p"
  with keys(3) have "(ir_mpn rs, p) \<in> set prov"
    by (auto simp: attach_provenance_def dest: map_of_SomeD split: option.splits)
  from apply_edits_Inr(2) [OF applied this]
  show "dget p ''extracted_value'' = PStr (ir_mpn rs)" "dget p ''corrected_by'' = PStr who"
    "\<exists>r \<in> set (re_corrected e). lc (dget r ''mpn'') = lc (PStr (ir_mpn rs)) \<and>
       dget p ''corrected_value'' = PStr (text_of (dget r ''corrected_mpn''))" by auto
next
  let ?lc = "\<lambda>m. lc (PStr m)" and ?added = "added_resolutions e fp who"
  note kept = apply_edits_Inr(1) [OF applied]
  note keys = resolved_keys [OF resolved]
  have added: "map ir_mpn ?added = map (\<lambda>r. text_of (dget r ''mpn'')) (re_added e)"
    "map ir_key ?added = map (\<lambda>m. fp @ '':'' @ m) (map ir_mpn ?added)"
    by (simp_all add: added_resolutions_def Let_def)
  have lcs: "map ?lc (map ir_mpn ?added) = mpns (re_added e)" by (simp add: added mpns_def)
  have "distinct (map ?lc (map pi_mpn (rb_items kept)))"
    using once by (simp add: kept comp_def distinct_map_filter)
  moreover have "distinct (mpns (re_added e))"
    using validate_row_edits_Inr(1) [OF valid] by (simp add: well_edited_def)
  moreover have "set (map ?lc (map pi_mpn (rb_items kept))) \<inter> set (mpns (re_added e)) = {}"
    using validate_row_edits_Inr(2) [OF valid refl] by (auto simp: edits_fit_def kept)
  ultimately have "distinct (map ?lc (map pi_mpn (rb_items kept) @ map ir_mpn ?added))"
    unfolding map_append lcs distinct_append by blast
  then have d: "distinct (map pi_mpn (rb_items kept) @ map ir_mpn ?added)" by (simp only: distinct_map)
  have "map ir_key (attach_provenance out prov @ ?added) =
      map (\<lambda>m. fp @ '':'' @ m) (map pi_mpn (rb_items kept) @ map ir_mpn ?added)"
    using keys(2) added(2) by (simp add: comp_def)
  moreover have "distinct (map (\<lambda>m. fp @ '':'' @ m) (map pi_mpn (rb_items kept) @ map ir_mpn ?added))"
    using d by (subst distinct_map) (auto intro: inj_onI)
  ultimately show "distinct (map ir_key (attach_provenance out prov @ ?added))" by (simp only:)
qed

definition batch2 :: review_batch where
  "batch2 = \<lparr>rb_approver = ''kim'', rb_items =
     [flagged_part\<lparr>pi_needs_review := False\<rparr>, flagged_part\<lparr>pi_mpn := ''m2'', pi_needs_review := False\<rparr>],
     rb_withheld = []\<rparr>"

definition edits2 :: pyval where
  "edits2 = PDict
     [(''corrected'', PList [PDict [(''mpn'', PStr ''M1''), (''corrected_mpn'', PStr ''m7''), (''evidence'', PStr ''p. 3'')]]),
      (''added'', PList [PDict [(''mpn'', PStr ''m9''), (''disposition'', PStr ''archive''), (''reason'', PStr ''missed''),
         (''evidence'', PStr ''p. 4'')]]),
      (''deleted'', PList [PDict [(''mpn'', PStr ''m2''), (''reason'', PStr ''not a part'')]])]"

definition read2 :: row_edits where
  "read2 = (case validate_row_edits (\<lambda>_. True) edits2 (Some (map pi_mpn (rb_items batch2))) of
     Inr e \<Rightarrow> e | Inl _ \<Rightarrow> no_edits)"

theorem correction_never_rekeys_witness:
  "\<exists>kept prov out. apply_edits batch2 read2 ''kim'' = Inr (kept, prov) \<and> resolve_batch kept [] ''n'' = Inr out \<and>
     distinct (map ir_key (attach_provenance out prov @ added_resolutions read2 ''n'' ''kim''))"
proof -
  have "ok (validate_row_edits (\<lambda>_. True) edits2 (Some (map pi_mpn (rb_items batch2))))" by code_simp
  then have v: "validate_row_edits (\<lambda>_. True) edits2 (Some (map pi_mpn (rb_items batch2))) = Inr read2"
    by (auto simp: ok_iff read2_def)
  have d: "distinct (map (\<lambda>it. lc (PStr (pi_mpn it))) (rb_items batch2))" by code_simp
  have "ok (apply_edits batch2 read2 ''kim'')" by code_simp
  then obtain kept prov where a: "apply_edits batch2 read2 ''kim'' = Inr (kept, prov)"
    by (auto simp: ok_iff)
  have "case apply_edits batch2 read2 ''kim'' of Inr (k, p) \<Rightarrow> ok (resolve_batch k [] ''n'') | Inl _ \<Rightarrow> False" by code_simp
  with a obtain out where r: "resolve_batch kept [] ''n'' = Inr out" by (auto simp: ok_iff)
  from correction_never_rekeys [OF v d a r] a r show ?thesis by blast
qed

subsection \<open>Overrides and the defect task\<close>

lemma check_override_keys_Inr:
  "check_override_keys new_ids dels ks = Inr u \<longleftrightarrow>
     (\<forall>k \<in> set ks. lc (PStr k) \<notin> set new_ids \<and> lc (PStr k) \<notin> set dels)"
  by (induction ks) auto

lemma edit_log_length:
  "length (edit_log json e) = length (re_corrected e) + length (re_added e) + length (re_deleted e) + length (re_header e)"
  by (simp add: edit_log_def)

text \<open>
  The extractor's owner is told of every edit, once: a decision files a defect task exactly
  when it edited something; the task is keyed by the notice and the decision alone, so a second
  delivery files the same one, and it carries one entry for each edit; a pin is named only when
  the extraction recorded a pipeline version.
\<close>

theorem every_edit_is_reported:
  "(defect_task json sha notice did pv e aud req who ing = None \<longleftrightarrow>
      re_deleted e = [] \<and> re_added e = [] \<and> re_corrected e = [] \<and> re_header e = []) \<and>
   (case defect_task json sha notice did pv e aud req who ing of
      None \<Rightarrow> True
    | Some d \<Rightarrow> df_task_key d = ''extraction-defect:'' @ notice @ '':'' @ did \<and>
        length (list_or_nil (dget (df_payload d) ''edits'')) =
          length (re_corrected e) + length (re_added e) + length (re_deleted e) + length (re_header e) \<and>
        (dget (df_payload d) ''pin_digest'' = PNone \<longleftrightarrow> text_of pv = []))"
proof (cases "is_empty e")
  case True
  then show ?thesis by (simp add: defect_task_def is_empty_def)
next
  case False
  have "map_of (xs @ ys) k = map_of xs k" if "map_of xs k \<noteq> None" for xs ys :: pydict and k
    using that by (auto simp: map_add_def split: option.split)
  with False show ?thesis
    by (auto simp: defect_task_def is_empty_def dget_def list_or_nil_def edit_log_length pin_digest_of_def Let_def
        split: prod.splits if_splits option.splits)
qed

end
