(* ===== verification/Decision_Record.thy ===== *)
theory Decision_Record
  imports Format_Fingerprint
begin

text \<open>
  \<^verbatim>\<open>src/iagent/decision_record.py\<close>: the record of a decision, with the inputs and thresholds it was
  made on. \<open>sha1_hex\<close> is \<open>hashlib.sha1(s.encode()).hexdigest()\<close>; \<open>emit\<close> takes the writer, as the
  code does. A record is the dictionary the code builds.
\<close>

definition SCHEMA_VERSION :: string where "SCHEMA_VERSION = ''1''"

definition ADMITTED_BY :: "string list" where
  "ADMITTED_BY = [''policy'', ''content'', ''escalation'']"

definition COMMISSIONING :: string where "COMMISSIONING = ''commissioning''"
definition PRODUCTION :: string where "PRODUCTION = ''production''"

definition ERAS :: "string list" where "ERAS = [COMMISSIONING, PRODUCTION]"

definition NOT_COMPOSED :: string where "NOT_COMPOSED = ''none:no-composition''"

text \<open>\<open>Crashed\<close> is a Python error that is not the module's own refusal.\<close>

datatype record_error =
    NeedsName
  | NeedsVerdict
  | BareVerdict
  | NeedsField string
  | BadAdmittedBy
  | ChecksNotList
  | NoRulesetRef
  | NoTrustTableRef
  | BadEra
  | CheckNotDict
  | RecordNotDict
  | MissingField string
  | IdMismatch
  | Crashed

definition has_inputs :: "pyval \<Rightarrow> bool" where
  "has_inputs v = (case v of PDict d \<Rightarrow> d \<noteq> [] | _ \<Rightarrow> False)"

definition make_check :: "string \<Rightarrow> string \<Rightarrow> pyval \<Rightarrow> pyval \<Rightarrow> string \<Rightarrow> record_error + pydict" where
  "make_check name verdict inputs threshold detail =
     bind_r (require_r (name \<noteq> []) NeedsName) (\<lambda>_.
     bind_r (require_r (verdict \<noteq> []) NeedsVerdict) (\<lambda>_.
     bind_r (require_r (has_inputs inputs) BareVerdict) (\<lambda>_.
       Inr ([(''name'', PStr name), (''verdict'', PStr verdict), (''inputs'', inputs)]
         @ (if threshold \<noteq> PNone then [(''threshold'', threshold)] else [])
         @ (if detail \<noteq> [] then [(''detail'', PStr detail)] else [])))))"

definition record_id_for :: "(string \<Rightarrow> string) \<Rightarrow> string \<Rightarrow> string" where
  "record_id_for sha1_hex request_key = ''dr-'' @ take 16 (sha1_hex request_key)"

record decision_args =
  da_request_key :: string
  da_source_key :: string
  da_notice_id :: "string option"
  da_pipeline_version :: string
  da_format_fingerprint :: string
  da_outcome :: string
  da_admitted_by :: string
  da_checks :: "pyval list"
  da_governing :: pyval
  da_trust_rung :: string
  da_era :: string
  da_warnings :: "pyval list"

fun require_all :: "(bool \<times> 'e) list \<Rightarrow> 'e + unit" where
  "require_all [] = Inr ()"
| "require_all ((b, e) # rest) = (if b then require_all rest else Inl e)"

fun check_evidence :: "pyval list \<Rightarrow> record_error + unit" where
  "check_evidence [] = Inr ()"
| "check_evidence (c # cs) = (case c of
     PDict d \<Rightarrow> if has_inputs (dget d ''inputs'') then check_evidence cs else Inl BareVerdict
   | _ \<Rightarrow> Inl CheckNotDict)"

definition build_decision_record :: "(string \<Rightarrow> string) \<Rightarrow> decision_args \<Rightarrow> record_error + pydict" where
  "build_decision_record sha1_hex a =
     bind_r (require_all
       [(da_request_key a \<noteq> [], NeedsField ''request_key''),
        (da_source_key a \<noteq> [], NeedsField ''source_key''),
        (da_pipeline_version a \<noteq> [], NeedsField ''pipeline_version''),
        (da_format_fingerprint a \<noteq> [], NeedsField ''format_fingerprint''),
        (da_outcome a \<noteq> [], NeedsField ''outcome''),
        (da_admitted_by a \<in> set ADMITTED_BY, BadAdmittedBy),
        (is_dict (da_governing a) \<and> truthy (dget (dict_or_nil (da_governing a)) ''ruleset_ref''), NoRulesetRef),
        (truthy (dget (dict_or_nil (da_governing a)) ''trust_table_ref''), NoTrustTableRef),
        (da_trust_rung a \<noteq> [], NeedsField ''trust_rung''),
        (da_era a \<in> set ERAS, BadEra)]) (\<lambda>_.
     bind_r (check_evidence (da_checks a)) (\<lambda>_.
       Inr [(''schema_version'', PStr SCHEMA_VERSION),
            (''record_id'', PStr (record_id_for sha1_hex (da_request_key a))),
            (''request_key'', PStr (da_request_key a)),
            (''source_key'', PStr (da_source_key a)),
            (''notice_id'', PStr (case da_notice_id a of None \<Rightarrow> [] | Some n \<Rightarrow> n)),
            (''pipeline_version'', PStr (da_pipeline_version a)),
            (''format_fingerprint'', PStr (da_format_fingerprint a)),
            (''outcome'', PStr (da_outcome a)),
            (''admitted_by'', PStr (da_admitted_by a)),
            (''trust_rung'', PStr (da_trust_rung a)),
            (''era'', PStr (da_era a)),
            (''checks'', PList (da_checks a)),
            (''governing'', da_governing a),
            (''warnings'', PList (da_warnings a))]))"

definition REQUIRED_FIELDS :: "string list" where
  "REQUIRED_FIELDS = [''schema_version'', ''record_id'', ''request_key'', ''source_key'',
     ''pipeline_version'', ''format_fingerprint'', ''outcome'', ''admitted_by'', ''trust_rung'',
     ''era'', ''checks'', ''governing'']"

fun validate_checks :: "pyval list \<Rightarrow> record_error + unit" where
  "validate_checks [] = Inr ()"
| "validate_checks (c # cs) = (case c of
     PDict d \<Rightarrow> if has_inputs (dget d ''inputs'') then validate_checks cs else Inl BareVerdict
   | _ \<Rightarrow> Inl Crashed)"

definition validate_decision_record :: "(string \<Rightarrow> string) \<Rightarrow> pyval \<Rightarrow> record_error + unit" where
  "validate_decision_record sha1_hex r = (case r of
     PDict d \<Rightarrow>
       bind_r (require_all (map (\<lambda>f. (has_key d f, MissingField f)) REQUIRED_FIELDS)) (\<lambda>_.
       bind_r (require_r (py_in (dget d ''admitted_by'') (map PStr ADMITTED_BY)) BadAdmittedBy) (\<lambda>_.
       bind_r (require_r (py_in (dget d ''era'') (map PStr ERAS)) BadEra) (\<lambda>_.
       (case dget d ''request_key'' of
          PStr k \<Rightarrow>
            bind_r (require_r (py_eq (dget d ''record_id'') (PStr (record_id_for sha1_hex k))) IdMismatch) (\<lambda>_.
            (case dget d ''checks'' of
               PList cs \<Rightarrow> validate_checks cs
             | PDict [] \<Rightarrow> Inr ()
             | PStr [] \<Rightarrow> Inr ()
             | _ \<Rightarrow> Inl Crashed))
        | _ \<Rightarrow> Inl Crashed))))
   | _ \<Rightarrow> Inl RecordNotDict)"

definition emit :: "(string \<Rightarrow> string) \<Rightarrow> (pyval \<Rightarrow> 'a) \<Rightarrow> pyval \<Rightarrow> record_error + 'a" where
  "emit sha1_hex writer r = bind_r (validate_decision_record sha1_hex r) (\<lambda>_. Inr (writer r))"

subsection \<open>What a record says\<close>

lemma require_all_Inr: "require_all bs = Inr u \<longleftrightarrow> (\<forall>(b, e) \<in> set bs. b)"
  by (induction bs rule: require_all.induct) auto

lemma check_evidence_Inr:
  "check_evidence cs = Inr u \<longleftrightarrow> (\<forall>c \<in> set cs. \<exists>d. c = PDict d \<and> has_inputs (dget d ''inputs''))"
  by (induction cs) (auto split: pyval.splits)

lemma validate_checks_Inr:
  "validate_checks cs = Inr u \<longleftrightarrow> (\<forall>c \<in> set cs. \<exists>d. c = PDict d \<and> has_inputs (dget d ''inputs''))"
  by (induction cs) (auto split: pyval.splits)

lemma make_check_evidence: "make_check n v i t d = Inr c \<Longrightarrow> has_inputs (dget c ''inputs'')"
  by (auto simp: make_check_def bind_r_Inr dget_def)

lemma build_Inr:
  assumes "build_decision_record sha a = Inr rec"
  shows "\<forall>c \<in> set (da_checks a). \<exists>d. c = PDict d \<and> has_inputs (dget d ''inputs'')"
    and "da_admitted_by a \<in> set ADMITTED_BY" and "da_era a \<in> set ERAS" and "da_request_key a \<noteq> []"
    and "truthy (dget (dict_or_nil (da_governing a)) ''ruleset_ref'')"
    and "truthy (dget (dict_or_nil (da_governing a)) ''trust_table_ref'')"
    and "dget rec ''record_id'' = PStr (record_id_for sha (da_request_key a))"
    and "dget rec ''request_key'' = PStr (da_request_key a)"
    and "dget rec ''outcome'' = PStr (da_outcome a)"
    and "dget rec ''checks'' = PList (da_checks a)"
    and "dget rec ''governing'' = da_governing a"
    and "dget rec ''admitted_by'' = PStr (da_admitted_by a)"
    and "dget rec ''era'' = PStr (da_era a)"
    and "\<forall>f \<in> set REQUIRED_FIELDS. has_key rec f"
proof -
  from assms show "\<forall>c \<in> set (da_checks a). \<exists>d. c = PDict d \<and> has_inputs (dget d ''inputs'')"
    and "da_admitted_by a \<in> set ADMITTED_BY" and "da_era a \<in> set ERAS" and "da_request_key a \<noteq> []"
    and "truthy (dget (dict_or_nil (da_governing a)) ''ruleset_ref'')"
    and "truthy (dget (dict_or_nil (da_governing a)) ''trust_table_ref'')"
    by (auto simp: build_decision_record_def bind_r_Inr require_all_Inr check_evidence_Inr
        simp del: require_all.simps check_evidence.simps)
  from assms show "dget rec ''record_id'' = PStr (record_id_for sha (da_request_key a))"
    and "dget rec ''request_key'' = PStr (da_request_key a)"
    and "dget rec ''outcome'' = PStr (da_outcome a)"
    and "dget rec ''checks'' = PList (da_checks a)"
    and "dget rec ''governing'' = da_governing a"
    and "dget rec ''admitted_by'' = PStr (da_admitted_by a)"
    and "dget rec ''era'' = PStr (da_era a)"
    and "\<forall>f \<in> set REQUIRED_FIELDS. has_key rec f"
    by (auto simp: build_decision_record_def bind_r_Inr dget_def has_key_def REQUIRED_FIELDS_def
        simp del: require_all.simps check_evidence.simps)
qed

lemma validate_built: "build_decision_record sha a = Inr rec \<Longrightarrow> validate_decision_record sha (PDict rec) = Inr ()"
proof -
  assume b: "build_decision_record sha a = Inr rec"
  note facts = build_Inr [OF b]
  have "\<exists>s \<in> set ADMITTED_BY. dget rec ''admitted_by'' = PStr s" "\<exists>s \<in> set ERAS. dget rec ''era'' = PStr s"
    using facts(2,3,12,13) by auto
  with facts show ?thesis
    by (auto simp: validate_decision_record_def bind_r_Inr require_all_Inr py_in_PStr validate_checks_Inr
        simp del: require_all.simps validate_checks.simps)
qed

text \<open>
  Build and validate agree: whatever the builder returns passes the validation \<open>emit\<close> repeats,
  so \<open>emit\<close> writes every built record, unchanged; and a record the validation accepts says under
  which of the declared admissions and eras it was made, is keyed by its own artifact, and has
  no check that is a bare verdict.
\<close>

theorem built_records_are_emitted:
  assumes "build_decision_record sha a = Inr rec"
  shows "emit sha writer (PDict rec) = Inr (writer (PDict rec)) \<and>
     dget rec ''record_id'' = PStr (record_id_for sha (da_request_key a)) \<and>
     dget rec ''outcome'' = PStr (da_outcome a) \<and> dget rec ''governing'' = da_governing a"
  using validate_built [OF assms] build_Inr [OF assms] by (simp add: emit_def)

definition sample_args :: decision_args where
  "sample_args = \<lparr>da_request_key = ''etag:key'', da_source_key = ''key'', da_notice_id = None,
     da_pipeline_version = ''p@1'', da_format_fingerprint = ''acme/pcn/v1'', da_outcome = ''review'',
     da_admitted_by = ''policy'', da_checks = [PDict [(''name'', PStr ''count''), (''inputs'', PDict [(''stated'', PInt 89)])]],
     da_governing = PDict [(''ruleset_ref'', PStr ''r''), (''trust_table_ref'', PStr ''t'')],
     da_trust_rung = ''supervised'', da_era = ''production'', da_warnings = []\<rparr>"

theorem built_records_are_emitted_witness:
  "\<exists>rec. emit (\<lambda>s. s) id (PDict rec) = Inr (PDict rec) \<and> dget rec ''outcome'' = PStr ''review''"
proof -
  have "ok (build_decision_record (\<lambda>s. s) sample_args)" by code_simp
  then obtain rec where "build_decision_record (\<lambda>s. s) sample_args = Inr rec" by (auto simp: ok_iff)
  from built_records_are_emitted [OF this, of id] show ?thesis
    by (intro exI [of _ rec]) (simp add: sample_args_def)
qed

text \<open>
  Nothing malformed enters the corpus: a record is handed to the writer only when its
  admission and era are declared ones, its id is derived from its own artifact key, and each of
  its checks carries the inputs it compared; otherwise \<open>emit\<close> raises and writes nothing.
\<close>

theorem emitted_records_carry_their_evidence:
  assumes "emit sha writer r = Inr out"
  shows "\<exists>d k cs. r = PDict d \<and> out = writer r \<and> dget d ''request_key'' = PStr k \<and>
     dget d ''record_id'' = PStr (record_id_for sha k) \<and>
     (\<exists>s \<in> set ADMITTED_BY. dget d ''admitted_by'' = PStr s) \<and> (\<exists>s \<in> set ERAS. dget d ''era'' = PStr s) \<and>
     list_or_nil (dget d ''checks'') = cs \<and>
     (\<forall>c \<in> set cs. \<exists>e. c = PDict e \<and> has_inputs (dget e ''inputs''))"
proof -
  from assms have v: "validate_decision_record sha r = Inr ()" and out: "out = writer r"
    by (auto simp: emit_def bind_r_Inr)
  from v obtain d where d: "r = PDict d"
    by (auto simp: validate_decision_record_def split: pyval.splits)
  from v [unfolded d] obtain k where k: "dget d ''request_key'' = PStr k"
    and id: "dget d ''record_id'' = PStr (record_id_for sha k)"
    and adm: "\<exists>s \<in> set ADMITTED_BY. dget d ''admitted_by'' = PStr s"
    and era: "\<exists>s \<in> set ERAS. dget d ''era'' = PStr s"
    and checks: "(case dget d ''checks'' of PList cs \<Rightarrow> validate_checks cs | PDict [] \<Rightarrow> Inr ()
       | PStr [] \<Rightarrow> Inr () | _ \<Rightarrow> Inl Crashed) = Inr ()"
    by (auto simp: validate_decision_record_def bind_r_Inr py_in_PStr simp del: require_all.simps split: pyval.splits)
  from checks have "\<forall>c \<in> set (list_or_nil (dget d ''checks'')). \<exists>e. c = PDict e \<and> has_inputs (dget e ''inputs'')"
    by (auto simp: list_or_nil_def validate_checks_Inr split: pyval.splits list.splits)
  with d out k id adm era show ?thesis by blast
qed

theorem emitted_records_carry_their_evidence_witness:
  "\<exists>rec out. emit (\<lambda>s. s) (\<lambda>r. 1 :: nat) (PDict rec) = Inr out \<and> out = 1"
proof -
  have "ok (build_decision_record (\<lambda>s. s) sample_args)" by code_simp
  then obtain rec where b: "build_decision_record (\<lambda>s. s) sample_args = Inr rec" by (auto simp: ok_iff)
  from validate_built [OF b] have e: "emit (\<lambda>s. s) (\<lambda>r. 1 :: nat) (PDict rec) = Inr 1" by (simp add: emit_def)
  from emitted_records_carry_their_evidence [OF e] e show ?thesis by blast
qed

end
