(* ===== verification/Promotion.thy ===== *)
theory Promotion
  imports Decision_Record Steward_Correction Review_Coverage "HOL-Library.List_Lexorder" "HOL-Library.Char_ord"
begin

text \<open>
  \<^verbatim>\<open>src/iagent/promotion.py\<close>, what the two verbs on a contributed document are made of: the subject
  read from the task's payload, the payload derived from the extraction, the decision record, the
  promotion fact, the reconciliation plan and the readers of a stored record. Their composition,
  \<open>act\<close>, is in \<^verbatim>\<open>Promotion_Act.thy\<close>.

  A refusal carries the code and the HTTP status the route answers with; \<open>InvalidRecord\<close> is the
  record module's own error and \<open>StepFailed\<close> an exception of a store's call. \<open>rend\<close> is \<open>str\<close> of a value
  that is not a string; \<open>loads\<close> is \<open>json.loads\<close>, \<open>None\<close> where it raises.
\<close>

definition KIND :: string where "KIND = ''document_promotion''"
definition PROMOTED :: string where "PROMOTED = ''promoted''"
definition REJECTED :: string where "REJECTED = ''rejected''"
definition VERBS :: "string list" where "VERBS = [PROMOTED, REJECTED]"

definition PAYLOAD_FIELDS :: "string list" where
  "PAYLOAD_FIELDS = [''ingest_id'', ''object_ref'', ''content_kind'', ''pipeline_version'',
     ''format_fingerprint'', ''standing'', ''extraction_ref'']"

datatype promotion_error =
    Refuse string int
  | InvalidRecord record_error
  | StepFailed string

definition hex_char :: "char \<Rightarrow> bool" where
  "hex_char c = (let n = code_of c in (48 \<le> n \<and> n \<le> 57) \<or> (97 \<le> n \<and> n \<le> 102))"

definition newline :: char where "newline = char_of (10 :: nat)"

text \<open>
  \<open>INGEST_ID_RE.match(s)\<close> with the pattern \<open>^sha256:[0-9a-f]{64}$\<close>: in Python \<open>$\<close> also matches before
  a final newline.
\<close>

definition ingest_id_match :: "string \<Rightarrow> bool" where
  "ingest_id_match s =
     (starts_with ''sha256:'' s \<and>
      (let rest = drop 7 s in
       length (take 64 rest) = 64 \<and> list_all hex_char (take 64 rest) \<and> (drop 64 rest = [] \<or> drop 64 rest = [newline])))"

definition object_prefix_for :: "string \<Rightarrow> string \<Rightarrow> string option" where
  "object_prefix_for ingest_id object_ref = (case py_split (CHR ''/'') object_ref of
     [a, b, c, d] \<Rightarrow>
       if a = ''ingress-user'' \<and> b \<noteq> [] \<and> d \<noteq> [] \<and>
          c = (if CHR '':'' \<in> set ingest_id then after_first (CHR '':'') ingest_id else ingest_id)
       then Some (a @ ''/'' @ b @ ''/'' @ c @ ''/'') else None
   | _ \<Rightarrow> None)"

definition REJECTED_PREFIX :: string where "REJECTED_PREFIX = ''rejected/''"

definition quarantine_prefix_for :: "string \<Rightarrow> string" where
  "quarantine_prefix_for ingest_id = REJECTED_PREFIX @ ingest_id @ ''/''"

record promotion_subject =
  su_ingest_id :: string
  su_object_ref :: string
  su_content_kind :: string
  su_pipeline_version :: string
  su_format_fingerprint :: string
  su_standing :: string
  su_extraction_ref :: string
  su_notice_id :: string

definition payload_invalid :: promotion_error where
  "payload_invalid = Refuse ''promotion_payload_invalid'' 422"

definition subject_from_payload :: "(pyval \<Rightarrow> string) \<Rightarrow> pyval \<Rightarrow> promotion_error + promotion_subject" where
  "subject_from_payload rend payload = (case payload of
     PDict d \<Rightarrow>
       (let field = (\<lambda>f. str_or_nil (dget d f)) in
        if \<not> list_all (\<lambda>f. is_nonblank_str (dget d f)) PAYLOAD_FIELDS then Inl payload_invalid
        else if \<not> ingest_id_match (field ''ingest_id'') then Inl payload_invalid
        else if object_prefix_for (field ''ingest_id'') (field ''object_ref'') = None then Inl payload_invalid
        else Inr \<lparr>su_ingest_id = field ''ingest_id'', su_object_ref = field ''object_ref'',
               su_content_kind = field ''content_kind'', su_pipeline_version = field ''pipeline_version'',
               su_format_fingerprint = field ''format_fingerprint'', su_standing = field ''standing'',
               su_extraction_ref = field ''extraction_ref'',
               su_notice_id = str_or_empty rend (dget d ''notice_id'')\<rparr>)
   | _ \<Rightarrow> Inl payload_invalid)"

subsection \<open>The payload, derived from the extraction\<close>

definition UNSTAMPED :: "string list" where
  "UNSTAMPED = [[], ''unset'', ''unstamped'', ''unknown'', ''none'']"

definition unstamped :: "string \<Rightarrow> bool" where
  "unstamped version = (let low = py_lower version in low \<in> set UNSTAMPED \<or> after_last (CHR ''@'') low \<in> set UNSTAMPED)"

definition standing_of :: "pydict \<Rightarrow> pyval" where
  "standing_of m = (case dget m ''provenance'' of PDict p \<Rightarrow> dget p ''standing'' | _ \<Rightarrow> PNone)"

definition version_of :: "(pyval \<Rightarrow> string) \<Rightarrow> pydict \<Rightarrow> string" where
  "version_of rend m = py_strip (str_or_empty rend (dget m ''pipeline_version''))"

definition other_document :: "string \<Rightarrow> pyval \<Rightarrow> bool" where
  "other_document ingest_id prov = (case prov of
     PDict p \<Rightarrow> has_key p ''ingest_id'' \<and> dget p ''ingest_id'' \<noteq> PStr ingest_id | _ \<Rightarrow> False)"

definition own_key :: "string \<Rightarrow> string \<Rightarrow> pyval \<Rightarrow> bool" where
  "own_key ingest_id prefix source_key = (case source_key of
     PStr k \<Rightarrow> object_prefix_for ingest_id k \<noteq> None \<and> starts_with prefix k | _ \<Rightarrow> False)"

definition derived_payload ::
  "pyval option \<Rightarrow> (pyval \<Rightarrow> string) \<Rightarrow> string \<Rightarrow> pydict \<Rightarrow> pydict \<Rightarrow> pyval \<Rightarrow> pyval \<Rightarrow> pydict" where
  "derived_payload aliases_file rend ingest_id row m extraction_ref notice_id =
     [(''ingest_id'', PStr ingest_id), (''object_ref'', dget m ''source_key''),
      (''content_kind'', dget row ''content_kind''), (''pipeline_version'', PStr (version_of rend m)),
      (''format_fingerprint'', PStr (format_fingerprint_from_manifest aliases_file rend None (PDict m))),
      (''standing'', standing_of m), (''extraction_ref'', PStr (py_strip (str_or_empty rend extraction_ref))),
      (''notice_id'', PStr (py_strip (str_or_empty rend notice_id)))]"

definition payload_from_extraction ::
  "pyval option \<Rightarrow> (pyval \<Rightarrow> string) \<Rightarrow> string \<Rightarrow> pydict \<Rightarrow> pyval \<Rightarrow> pyval \<Rightarrow> pyval \<Rightarrow> promotion_error + pydict" where
  "payload_from_extraction aliases_file rend ingest_id row manifest extraction_ref notice_id = (case manifest of
     PDict m \<Rightarrow>
       (let prefix = str_or_empty rend (dget row ''object_prefix'');
            ref = py_strip (str_or_empty rend extraction_ref);
            unbound = Refuse ''extraction_unbound'' 422;
            payload = derived_payload aliases_file rend ingest_id row m extraction_ref notice_id in
        bind_r (require_all
          [(ref \<noteq> [] \<and> prefix \<noteq> [] \<and> starts_with prefix ref, unbound),
           (dget m ''ingest_id'' = PStr ingest_id, unbound),
           (\<not> other_document ingest_id (dget m ''provenance''), unbound),
           (own_key ingest_id prefix (dget m ''source_key''), unbound),
           (\<not> unstamped (version_of rend m), Refuse ''extraction_unversioned'' 422),
           (is_nonblank_str (standing_of m), unbound),
           (is_nonblank_str (dget row ''content_kind''), unbound)]) (\<lambda>_.
        bind_r (subject_from_payload rend (PDict payload)) (\<lambda>_. Inr payload)))
   | _ \<Rightarrow> Inl (Refuse ''extraction_unreadable'' 422))"

subsection \<open>The record and the fact\<close>

record act_args =
  aa_decision :: string
  aa_acted_by :: string
  aa_audience :: string
  aa_comment :: string
  aa_governing :: pyval
  aa_era :: string
  aa_now :: int
  aa_row_edits :: "pyval list option"
  aa_reviewed :: "string list option"
  aa_earlier :: "pyval list option"
  aa_leaf :: "pydict option"
  aa_coverage :: "pydict option"

definition leaf_inputs :: "pydict option \<Rightarrow> pydict" where
  "leaf_inputs leaf = (case leaf of
     Some l \<Rightarrow> if dget l ''leaf_source'' = PNone then []
       else (''leaf_source'', dget l ''leaf_source'')
         # (if dget l ''leaf_source'' = PStr ''corrected'' then [(''corrected_by'', dget l ''corrected_by'')] else [])
   | None \<Rightarrow> [])"

definition review_inputs :: "promotion_subject \<Rightarrow> act_args \<Rightarrow> pydict option \<Rightarrow> pydict" where
  "review_inputs subject a reconciliation =
     [(''extraction_ref'', PStr (su_extraction_ref subject)), (''content_kind'', PStr (su_content_kind subject)),
      (''reviewed_by'', PStr (''human:'' @ aa_acted_by a)), (''audience'', PStr (aa_audience a)),
      (''comment'', PStr (aa_comment a))]
     @ (case aa_row_edits a of Some (e # es) \<Rightarrow> [(''row_edits'', PList (e # es))] | _ \<Rightarrow> [])
     @ (case aa_coverage a of Some c \<Rightarrow> [(''review_coverage'', PDict c)] | None \<Rightarrow> [])
     @ (case reconciliation of Some r \<Rightarrow> [(''reconciliation'', PDict r)] | None \<Rightarrow> [])
     @ leaf_inputs (aa_leaf a)"

definition build_record ::
  "(string \<Rightarrow> string) \<Rightarrow> promotion_subject \<Rightarrow> act_args \<Rightarrow> pydict option \<Rightarrow> promotion_error + pydict" where
  "build_record sha1_hex subject a reconciliation = map_sum InvalidRecord id (
     bind_r (make_check ''human_review'' (aa_decision a) (PDict (review_inputs subject a reconciliation)) PNone []) (\<lambda>chk.
     bind_r (build_decision_record sha1_hex
        \<lparr>da_request_key = su_ingest_id subject, da_source_key = su_object_ref subject,
         da_notice_id = Some (su_notice_id subject), da_pipeline_version = su_pipeline_version subject,
         da_format_fingerprint = su_format_fingerprint subject, da_outcome = aa_decision a,
         da_admitted_by = ''policy'', da_checks = [PDict chk], da_governing = aa_governing a,
         da_trust_rung = su_standing subject, da_era = aa_era a, da_warnings = []\<rparr>) (\<lambda>r.
       Inr (r @ (if aa_decision a = REJECTED
          then [(''quarantine'', PDict
             [(''from'', case object_prefix_for (su_ingest_id subject) (su_object_ref subject) of
                 Some p \<Rightarrow> PStr p | None \<Rightarrow> PNone),
              (''to'', PStr (quarantine_prefix_for (su_ingest_id subject)))])]
          else [])))))"

definition promotion_fact :: "string \<Rightarrow> string \<Rightarrow> int \<Rightarrow> pydict" where
  "promotion_fact who record_id promoted_at =
     [(''promoted_by'', PStr (''human:'' @ who)), (''promoted_at'', PInt promoted_at),
      (''promotion_ref'', PStr record_id)]"

text \<open>What asking \<open>can_act\<close> comes to: \<open>True\<close>, anything else, an outage of the decider, another raise.\<close>

datatype authz_answer = AuthYes | AuthNo | AuthUnavailable | AuthRaised

definition may_act :: "(string \<Rightarrow> string \<Rightarrow> authz_answer) \<Rightarrow> string \<Rightarrow> string \<Rightarrow> promotion_error + bool" where
  "may_act can_act audience who =
     (if who = [] \<or> audience = [] then Inr False
      else (case can_act audience who of
         AuthYes \<Rightarrow> Inr True
       | AuthNo \<Rightarrow> Inr False
       | AuthRaised \<Rightarrow> Inr False
       | AuthUnavailable \<Rightarrow> Inl (Refuse ''authorization_unavailable'' 503)))"

definition domain_of :: "string \<Rightarrow> promotion_error + string" where
  "domain_of audience =
     (let domain = (if CHR '':'' \<in> set audience then after_first (CHR '':'') audience else []) in
      if before_first (CHR '':'') audience \<noteq> KIND \<or> py_strip domain = []
      then Inl (Refuse ''promotion_audience_has_no_domain'' 422) else Inr domain)"

definition excluded_attesters :: "pyval \<Rightarrow> string list" where
  "excluded_attesters payload = (case dget (dict_or_nil payload) ''dropped_by'' of
     PDict d \<Rightarrow> filter (\<lambda>s. s \<noteq> []) (map str_or_nil [dget d ''authz_id'', dget d ''on_behalf_of''])
   | _ \<Rightarrow> [])"

subsection \<open>What the notice's edges become\<close>

definition strip_of :: "(pyval \<Rightarrow> string) \<Rightarrow> pyval \<Rightarrow> string" where
  "strip_of rend v = (case v of PStr s \<Rightarrow> py_strip s | _ \<Rightarrow> rend v)"

definition dicts_in :: "pyval list \<Rightarrow> pydict list" where
  "dicts_in vs = List.map_filter (\<lambda>v. case v of PDict d \<Rightarrow> Some d | _ \<Rightarrow> None) vs"

definition mpns_edited :: "(pyval \<Rightarrow> string) \<Rightarrow> string \<Rightarrow> pydict list \<Rightarrow> string set" where
  "mpns_edited rend op edits =
     set (map (\<lambda>e. strip_of rend (dget e ''mpn''))
            (filter (\<lambda>e. dget e ''op'' = PStr op \<and> has_key e ''mpn'') edits))"

definition corrected_to :: "(pyval \<Rightarrow> string) \<Rightarrow> pydict list \<Rightarrow> string set" where
  "corrected_to rend edits =
     set (map (\<lambda>e. strip_of rend (dget e ''corrected_value''))
            (filter (\<lambda>e. dget e ''op'' = PStr ''corrected'' \<and> dget e ''corrected_value'' \<noteq> PNone) edits))"

definition reconcile_plan ::
  "(pyval \<Rightarrow> string) \<Rightarrow> string list \<Rightarrow> string list \<Rightarrow> pyval list option \<Rightarrow> string list" where
  "reconcile_plan rend current reviewed row_edits =
     (let edits = dicts_in (case row_edits of Some es \<Rightarrow> es | None \<Rightarrow> []);
          deleted = mpns_edited rend ''deleted'' edits;
          corrected_from = mpns_edited rend ''corrected'' edits;
          keep = (py_strip ` set reviewed - (deleted \<union> corrected_from))
                 \<union> corrected_to rend edits \<union> mpns_edited rend ''added'' edits in
      sort (filter (\<lambda>m. py_strip m \<notin> keep \<and> py_strip m \<notin> deleted \<and> py_strip m \<notin> corrected_from) current))"

definition RECONCILE_REASON :: string where "RECONCILE_REASON = ''not_in_reviewed_set''"
definition RECONCILE_ATTRIBUTION :: string where
  "RECONCILE_ATTRIBUTION = ''candidates_by_notice_id: SUBJECT_TO carries no ingest id; these are the other ingests whose status row names this notice''"
definition RECONCILE_ATTRIBUTION_UNAVAILABLE :: string where
  "RECONCILE_ATTRIBUTION_UNAVAILABLE = ''candidates_by_notice_id: the lookup of other ingests naming this notice was unavailable; SUBJECT_TO carries no ingest id, so the earlier ingest is not attributed''"

definition reconciliation_record :: "string list \<Rightarrow> pyval list option \<Rightarrow> pydict" where
  "reconciliation_record pruned earlier_ingests =
     [(''removed'', PList (map (\<lambda>m. PDict [(''mpn'', PStr m), (''reason'', PStr RECONCILE_REASON)]) pruned)),
      (''earlier_ingests'', case earlier_ingests of Some xs \<Rightarrow> PList xs | None \<Rightarrow> PNone),
      (''attribution'', PStr (case earlier_ingests of Some _ \<Rightarrow> RECONCILE_ATTRIBUTION
         | None \<Rightarrow> RECONCILE_ATTRIBUTION_UNAVAILABLE))]"

definition correction_key :: "string \<Rightarrow> string \<Rightarrow> string option" where
  "correction_key ingest_id record_id =
     (if ingest_id_match ingest_id
      then Some (''corrections/'' @ drop 7 ingest_id @ ''/'' @ record_id @ ''.json'') else None)"

definition correction_record ::
  "promotion_subject \<Rightarrow> string \<Rightarrow> string \<Rightarrow> string \<Rightarrow> int \<Rightarrow> pyval list option \<Rightarrow> pyval list option \<Rightarrow> pydict" where
  "correction_record subject record_id domain acted_by acted_at row_edits reconcile_mpns =
     [(''schema_version'', PStr ''1''), (''kind'', PStr ''promotion_correction''),
      (''ingest_id'', PStr (su_ingest_id subject)), (''record_id'', PStr record_id),
      (''notice_id'', PStr (su_notice_id subject)), (''domain'', PStr domain),
      (''object_ref'', PStr (su_object_ref subject)), (''extraction_ref'', PStr (su_extraction_ref subject)),
      (''pipeline_version'', PStr (su_pipeline_version subject)), (''acted_by'', PStr acted_by),
      (''acted_at'', PInt acted_at),
      (''row_edits'', PList (case row_edits of Some es \<Rightarrow> es | None \<Rightarrow> [])),
      (''reconciled'', PDict
         [(''removed'', PList (sort_key str_or_nil (case reconcile_mpns of Some ms \<Rightarrow> ms | None \<Rightarrow> []))),
          (''reason'', PStr RECONCILE_REASON)])]"

subsection \<open>Reading a stored record\<close>

text \<open>
  A stored record is the text the ledger returned, or nothing. The readers take the first check
  named \<open>human_review\<close>; an \<open>inputs\<close> that is neither a dictionary nor empty, on which the code
  would raise, reads as empty.
\<close>

definition parse_stored :: "(string \<Rightarrow> pyval option) \<Rightarrow> pyval \<Rightarrow> pydict option" where
  "parse_stored loads stored = (case (case stored of PStr s \<Rightarrow> loads s | v \<Rightarrow> Some v) of
     Some (PDict d) \<Rightarrow> Some d | _ \<Rightarrow> None)"

definition human_review_inputs :: "(string \<Rightarrow> pyval option) \<Rightarrow> pyval \<Rightarrow> pydict option" where
  "human_review_inputs loads stored = (case parse_stored loads stored of
     Some d \<Rightarrow> (case dget d ''checks'' of
         PList cs \<Rightarrow> map_option (\<lambda>c. dict_or_nil (dget c ''inputs''))
           (find (\<lambda>c. dget c ''name'' = PStr ''human_review'') (dicts_in cs))
       | _ \<Rightarrow> None)
   | None \<Rightarrow> None)"

definition recorded_domain :: "(string \<Rightarrow> pyval option) \<Rightarrow> pyval \<Rightarrow> string option" where
  "recorded_domain loads stored = (case human_review_inputs loads stored of
     Some i \<Rightarrow> (case domain_of (str_or_nil (dget i ''audience'')) of Inr d \<Rightarrow> Some d | Inl _ \<Rightarrow> None)
   | None \<Rightarrow> None)"

definition recorded_row_edits :: "(string \<Rightarrow> pyval option) \<Rightarrow> pyval \<Rightarrow> pyval list option" where
  "recorded_row_edits loads stored = (case human_review_inputs loads stored of
     Some i \<Rightarrow> (case dget i ''row_edits'' of PList es \<Rightarrow> Some es | _ \<Rightarrow> None)
   | None \<Rightarrow> None)"

definition recorded_review_coverage ::
  "(pyval \<Rightarrow> string) \<Rightarrow> (string \<Rightarrow> string option) \<Rightarrow> (string \<Rightarrow> pyval option) \<Rightarrow> pyval \<Rightarrow> pydict option" where
  "recorded_review_coverage rend shape_of loads stored = (case human_review_inputs loads stored of
     Some i \<Rightarrow> (case dget i ''review_coverage'' of
         PDict c \<Rightarrow> normalise_coverage rend shape_of (Some c)
           (case dget i ''content_kind'' of PStr k \<Rightarrow> Some k | _ \<Rightarrow> None)
       | _ \<Rightarrow> None)
   | None \<Rightarrow> None)"

definition recorded_reconciliation :: "(string \<Rightarrow> pyval option) \<Rightarrow> pyval \<Rightarrow> pyval list option" where
  "recorded_reconciliation loads stored = (case human_review_inputs loads stored of
     Some i \<Rightarrow> (case dget i ''reconciliation'' of
         PDict rc \<Rightarrow> (case dget rc ''removed'' of
             PList es \<Rightarrow> Some (map (\<lambda>e. dget e ''mpn'') (filter (\<lambda>e. has_key e ''mpn'') (dicts_in es)))
           | _ \<Rightarrow> None)
       | _ \<Rightarrow> None)
   | None \<Rightarrow> None)"

definition with_normalized_edit :: "pydict \<Rightarrow> pydict" where
  "with_normalized_edit e0 =
     (let e = (if dget e0 ''op'' = PStr ''header_corrected'' \<and> \<not> has_key e0 ''evidence_ref'' \<and> is_str (dget e0 ''evidence'')
               then AList.update ''evidence_ref'' (dget e0 ''evidence'') e0 else e0) in
      case dget e ''evidence_ref'' of
        PStr s \<Rightarrow> (case normalize_evidence_ref (\<lambda>_. True) (PStr s) of
            Inr r \<Rightarrow> AList.update ''evidence_ref'' (PDict r) e
          | Inl _ \<Rightarrow> e)
      | _ \<Rightarrow> e)"

definition with_normalized_evidence :: "pyval list option \<Rightarrow> pyval list option" where
  "with_normalized_evidence edits =
     map_option (map (\<lambda>e. case e of PDict d \<Rightarrow> PDict (with_normalized_edit d) | _ \<Rightarrow> e)) edits"

subsection \<open>What the record and the payload say\<close>

lemma dget_append: "dget (xs @ ys) k = (if has_key xs k then dget xs k else dget ys k)"
  by (auto simp: dget_def has_key_def map_add_def split: option.splits)

lemma has_key_simps [simp]:
  "\<not> has_key [] k" "has_key ((j, v) # d) k \<longleftrightarrow> j = k \<or> has_key d k"
  by (auto simp: has_key_def)

lemma dget_Cons: "dget ((j, v) # d) k = (if j = k then v else dget d k)"
  by (auto simp: dget_def)

text \<open>What a built record says, whichever decision it records.\<close>

definition recorded :: "(string \<Rightarrow> string) \<Rightarrow> promotion_subject \<Rightarrow> act_args \<Rightarrow> pydict option \<Rightarrow> pydict \<Rightarrow> bool" where
  "recorded sha su a rc r \<longleftrightarrow>
     dget r ''record_id'' = PStr (record_id_for sha (su_ingest_id su)) \<and>
     dget r ''request_key'' = PStr (su_ingest_id su) \<and> dget r ''outcome'' = PStr (aa_decision a) \<and>
     (\<exists>c. dget r ''checks'' = PList [PDict c] \<and> dget c ''name'' = PStr ''human_review'' \<and>
        dget c ''inputs'' = PDict (review_inputs su a rc))"

lemma build_record_recorded:
  assumes "build_record sha su a rc = Inr r"
  shows "recorded sha su a rc r"
proof -
  from assms obtain c r0 q where c: "make_check ''human_review'' (aa_decision a) (PDict (review_inputs su a rc)) PNone [] = Inr c"
    and r0: "build_decision_record sha
        \<lparr>da_request_key = su_ingest_id su, da_source_key = su_object_ref su,
         da_notice_id = Some (su_notice_id su), da_pipeline_version = su_pipeline_version su,
         da_format_fingerprint = su_format_fingerprint su, da_outcome = aa_decision a,
         da_admitted_by = ''policy'', da_checks = [PDict c], da_governing = aa_governing a,
         da_trust_rung = su_standing su, da_era = aa_era a, da_warnings = []\<rparr> = Inr r0" (is "build_decision_record _ ?args = _")
    and r: "r = r0 @ q"
    unfolding build_record_def by (auto simp: bind_r_def split: sum.splits)
  from c have "dget c ''name'' = PStr ''human_review''" "dget c ''inputs'' = PDict (review_inputs su a rc)"
    by (auto simp: make_check_def bind_r_Inr dget_def)
  moreover have "has_key r0 f" if "f \<in> set REQUIRED_FIELDS" for f using build_Inr(14) [OF r0] that by blast
  then have "has_key r0 ''record_id''" "has_key r0 ''request_key''" "has_key r0 ''outcome''" "has_key r0 ''checks''"
    by (auto simp: REQUIRED_FIELDS_def)
  ultimately show ?thesis using build_Inr(7-10) [OF r0]
    by (auto simp: recorded_def r dget_append)
qed

lemma stored_inputs:
  assumes "recorded sha su a rc r" and "loads t = Some (PDict r)"
  shows "human_review_inputs loads (PStr t) = Some (review_inputs su a rc)"
  using assms by (auto simp: recorded_def human_review_inputs_def parse_stored_def dicts_in_def dict_or_nil_def List.map_filter_def)

lemma leaf_inputs_keys: "k \<notin> {''leaf_source'', ''corrected_by''} \<Longrightarrow> dget (leaf_inputs l) k = PNone"
  by (auto simp: leaf_inputs_def dget_Cons split: option.split)

lemma review_inputs_get:
  "dget (review_inputs su a rc) ''audience'' = PStr (aa_audience a)"
  "dget (review_inputs su a rc) ''row_edits'' = (case aa_row_edits a of Some (e # es) \<Rightarrow> PList (e # es) | _ \<Rightarrow> PNone)"
  "dget (review_inputs su a rc) ''review_coverage'' = (case aa_coverage a of Some c \<Rightarrow> PDict c | None \<Rightarrow> PNone)"
  "dget (review_inputs su a rc) ''content_kind'' = PStr (su_content_kind su)"
  "dget (review_inputs su a rc) ''reconciliation'' = (case rc of Some d \<Rightarrow> PDict d | None \<Rightarrow> PNone)"
  by (simp_all add: review_inputs_def dget_append dget_Cons leaf_inputs_keys split: option.split list.split)

lemma removed_of_record:
  "(case dget (reconciliation_record ms e) ''removed'' of
     PList es \<Rightarrow> Some (map (\<lambda>e. dget e ''mpn'') (filter (\<lambda>e. has_key e ''mpn'') (dicts_in es))) | _ \<Rightarrow> None)
   = Some (map PStr ms)"
proof -
  have "dicts_in (map (\<lambda>m. PDict [(''mpn'', PStr m), (''reason'', PStr RECONCILE_REASON)]) ms)
     = map (\<lambda>m. [(''mpn'', PStr m), (''reason'', PStr RECONCILE_REASON)]) ms"
    by (induction ms) (simp_all add: dicts_in_def List.map_filter_def)
  moreover have "filter (\<lambda>e. has_key e ''mpn'') (map (\<lambda>m. [(''mpn'', PStr m), (''reason'', PStr RECONCILE_REASON)]) ms)
     = map (\<lambda>m. [(''mpn'', PStr m), (''reason'', PStr RECONCILE_REASON)]) ms"
    by (induction ms) (simp_all add: has_key_def)
  ultimately show ?thesis
    by (simp add: reconciliation_record_def dget_def comp_def)
qed

text \<open>
  The record is self-contained evidence: from the text the ledger stored, the readers recover
  the domain the audience named, the parts the reconciliation removed, in order, and the steward's
  edits. What a replay applies is therefore what the first act decided.
\<close>

theorem stored_record_reads_back:
  assumes "build_record sha su a (map_option (\<lambda>ms. reconciliation_record ms (aa_earlier a)) pruned) = Inr r"
    and "loads t = Some (PDict r)" and "domain_of (aa_audience a) = Inr d"
  shows "recorded_domain loads (PStr t) = Some d \<and>
     recorded_reconciliation loads (PStr t) = map_option (map PStr) pruned \<and>
     recorded_row_edits loads (PStr t) = (if aa_row_edits a = Some [] then None else aa_row_edits a)"
proof -
  note i = stored_inputs [OF build_record_recorded [OF assms(1)], of loads t, OF assms(2)]
  have "recorded_domain loads (PStr t) = Some d"
    using assms(3) by (simp add: recorded_domain_def i review_inputs_get str_or_nil_def)
  moreover have "recorded_reconciliation loads (PStr t) = map_option (map PStr) pruned"
    by (cases pruned) (simp_all add: recorded_reconciliation_def i review_inputs_get removed_of_record)
  moreover have "recorded_row_edits loads (PStr t) = (if aa_row_edits a = Some [] then None else aa_row_edits a)"
    by (auto simp: recorded_row_edits_def i review_inputs_get split: option.splits list.splits)
  ultimately show ?thesis by blast
qed
definition rec_subject :: promotion_subject where
  "rec_subject = \<lparr>su_ingest_id = ''sha256:ab'', su_object_ref = ''ingress-user/pcn/ab/n.pdf'', su_content_kind = ''pcn'',
     su_pipeline_version = ''p@1'', su_format_fingerprint = ''acme/pcn/v1'', su_standing = ''supervised'',
     su_extraction_ref = ''ingress-user/pcn/ab/m.json'', su_notice_id = ''N1''\<rparr>"

definition rec_args :: act_args where
  "rec_args = \<lparr>aa_decision = PROMOTED, aa_acted_by = ''kim'', aa_audience = ''document_promotion:energy'',
     aa_comment = [], aa_governing = PDict [(''ruleset_ref'', PStr ''r''), (''trust_table_ref'', PStr ''t'')],
     aa_era = ''production'', aa_now = 7, aa_row_edits = Some [PDict [(''op'', PStr ''deleted''), (''mpn'', PStr ''A'')]],
     aa_reviewed = Some [''A'', ''B''], aa_earlier = None, aa_leaf = None, aa_coverage = None\<rparr>"

theorem stored_record_reads_back_witness:
  "\<exists>loads t. recorded_domain loads (PStr t) = Some ''energy'' \<and>
     recorded_reconciliation loads (PStr t) = Some [PStr ''C''] \<and>
     recorded_row_edits loads (PStr t) = Some [PDict [(''op'', PStr ''deleted''), (''mpn'', PStr ''A'')]]"
proof -
  have "ok (build_record (\<lambda>s. s) rec_subject rec_args (Some (reconciliation_record [''C''] None)))" by code_simp
  then obtain r where r: "build_record (\<lambda>s. s) rec_subject rec_args
      (map_option (\<lambda>ms. reconciliation_record ms (aa_earlier rec_args)) (Some [''C''])) = Inr r"
    by (auto simp: ok_iff rec_args_def)
  have "domain_of (aa_audience rec_args) = Inr ''energy''" by code_simp
  from stored_record_reads_back [OF r, of "\<lambda>_. Some (PDict r)" "[]", OF _ this] show ?thesis
    by (intro exI [of _ "\<lambda>_. Some (PDict r)"] exI [of _ "[]"]) (simp add: rec_args_def)
qed

text \<open>What filing checked is what acting reads.\<close>

lemma subject_from_payload_Inr:
  assumes "subject_from_payload rend (PDict d) = Inr s"
  shows "su_ingest_id s = str_or_nil (dget d ''ingest_id'')" "su_object_ref s = str_or_nil (dget d ''object_ref'')"
    "su_pipeline_version s = str_or_nil (dget d ''pipeline_version'')"
    "su_format_fingerprint s = str_or_nil (dget d ''format_fingerprint'')"
    "su_standing s = str_or_nil (dget d ''standing'')" "su_extraction_ref s = str_or_nil (dget d ''extraction_ref'')"
    "ingest_id_match (su_ingest_id s)" "object_prefix_for (su_ingest_id s) (su_object_ref s) \<noteq> None"
    "su_ingest_id s \<noteq> []"
  using assms by (auto simp: subject_from_payload_def Let_def ingest_id_match_def starts_with_def
      split: if_splits)

lemma payload_Inr:
  assumes "payload_from_extraction file rend iid row (PDict m) extraction_ref notice = Inr p"
  shows "p = derived_payload file rend iid row m extraction_ref notice"
    and "\<exists>s. subject_from_payload rend (PDict p) = Inr s"
    and "str_or_empty rend (dget row ''object_prefix'') \<noteq> []"
    and "starts_with (str_or_empty rend (dget row ''object_prefix'')) (py_strip (str_or_empty rend extraction_ref))"
    and "dget m ''ingest_id'' = PStr iid"
    and "\<exists>k. dget m ''source_key'' = PStr k \<and> starts_with (str_or_empty rend (dget row ''object_prefix'')) k"
    and "\<not> unstamped (version_of rend m)"
    and "\<exists>st. standing_of m = PStr st"
  using assms unfolding payload_from_extraction_def Let_def pyval.case bind_r_Inr require_all_Inr
  by (auto simp: own_key_def dest!: is_nonblank_strE split: pyval.splits)

text \<open>
  A task is filed only with a payload the act accepts, and every field the decision record
  takes from it is read from the extraction that was reviewed: the id is the manifest's, both
  references lie under the document's own directory, the pipeline version is a stamped one, the
  standing is the one frozen in the manifest's provenance, and the fingerprint is composed from
  the manifest.
\<close>

theorem filed_payload_is_what_was_reviewed:
  assumes "payload_from_extraction file rend iid row (PDict m) extraction_ref notice = Inr p"
  shows "\<exists>s prefix. subject_from_payload rend (PDict p) = Inr s \<and> su_ingest_id s = iid \<and>
     dget m ''ingest_id'' = PStr iid \<and> prefix = str_or_empty rend (dget row ''object_prefix'') \<and> prefix \<noteq> [] \<and>
     starts_with prefix (su_extraction_ref s) \<and> starts_with prefix (su_object_ref s) \<and>
     PStr (su_object_ref s) = dget m ''source_key'' \<and>
     su_pipeline_version s = version_of rend m \<and> \<not> unstamped (su_pipeline_version s) \<and>
     PStr (su_standing s) = standing_of m \<and>
     su_format_fingerprint s = format_fingerprint_from_manifest file rend None (PDict m)"
proof -
  note f = payload_Inr [OF assms]
  from f(2) obtain s where s: "subject_from_payload rend (PDict p) = Inr s" by blast
  from f(6) obtain k where k: "dget m ''source_key'' = PStr k"
    "starts_with (str_or_empty rend (dget row ''object_prefix'')) k" by blast
  from f(8) obtain st where st: "standing_of m = PStr st" by blast
  have "su_ingest_id s = iid" "su_object_ref s = k" "su_pipeline_version s = version_of rend m" "su_standing s = st"
    "su_extraction_ref s = py_strip (str_or_empty rend extraction_ref)"
    "su_format_fingerprint s = format_fingerprint_from_manifest file rend None (PDict m)"
    using subject_from_payload_Inr(1-6) [OF s] k st
    by (simp_all add: f(1) derived_payload_def dget_Cons str_or_nil_def)
  with s k st f(3-5,7) show ?thesis by auto
qed

definition rec_manifest :: pydict where
  "rec_manifest = [(''ingest_id'', PStr (''sha256:'' @ replicate 64 (CHR ''a''))),
     (''source_key'', PStr (''ingress-user/pcn/'' @ replicate 64 (CHR ''a'') @ ''/n.pdf'')),
     (''pipeline_version'', PStr ''docs@1.2''), (''provenance'', PDict [(''standing'', PStr ''user'')])]"

definition rec_row :: pydict where
  "rec_row = [(''object_prefix'', PStr ''ingress-user/pcn/''), (''content_kind'', PStr ''pcn'')]"

theorem filed_payload_is_what_was_reviewed_witness:
  "\<exists>p s. subject_from_payload (\<lambda>_. []) (PDict p) = Inr s \<and> su_standing s = ''user'' \<and>
     su_pipeline_version s = ''docs@1.2''"
proof -
  have "ok (payload_from_extraction None (\<lambda>_. []) (''sha256:'' @ replicate 64 (CHR ''a'')) rec_row (PDict rec_manifest)
     (PStr ''ingress-user/pcn/m.json'') PNone)" by code_simp
  then obtain p where p: "payload_from_extraction None (\<lambda>_. []) (''sha256:'' @ replicate 64 (CHR ''a'')) rec_row (PDict rec_manifest)
     (PStr ''ingress-user/pcn/m.json'') PNone = Inr p" by (auto simp: ok_iff)
  have "version_of (\<lambda>_. []) rec_manifest = ''docs@1.2''" "standing_of rec_manifest = PStr ''user''" by code_simp+
  with filed_payload_is_what_was_reviewed [OF p] show ?thesis by auto
qed

text \<open>
  The spelling of an \<open>ingest_id\<close> is checked with \<open>re.match\<close> and \<open>$\<close>, which also matches before a
  final newline: a payload whose id and object directory end in one is accepted, so the sweep of a
  rejection would be keyed on an id no document has.
\<close>

definition newline_payload :: pydict where
  "newline_payload = (let hex = replicate 64 (CHR ''a'') @ [newline] in
     [(''ingest_id'', PStr (''sha256:'' @ hex)), (''object_ref'', PStr (''ingress-user/pcn/'' @ hex @ ''/n.pdf'')),
      (''content_kind'', PStr ''pcn''), (''pipeline_version'', PStr ''p@1''), (''format_fingerprint'', PStr ''a/b/v1''),
      (''standing'', PStr ''user''), (''extraction_ref'', PStr ''m.json'')])"

lemma newline_id_is_accepted:
  "\<exists>s. subject_from_payload (\<lambda>_. []) (PDict newline_payload) = Inr s \<and>
     su_ingest_id s = ''sha256:'' @ replicate 64 (CHR ''a'') @ [newline]"
proof -
  have "ok (subject_from_payload (\<lambda>_. []) (PDict newline_payload))" by code_simp
  then obtain s where s: "subject_from_payload (\<lambda>_. []) (PDict newline_payload) = Inr s" by (auto simp: ok_iff)
  show ?thesis using subject_from_payload_Inr(1) [OF s] s
    by (intro exI [of _ s]) (simp add: newline_payload_def Let_def dget_Cons str_or_nil_def)
qed

end
