(* ===== verification/Promotion_Stores.thy ===== *)
theory Promotion_Stores
  imports Promotion
begin

text \<open>
  \<^verbatim>\<open>src/iagent/promotion_stores.py\<close>: the decision ledger on Postgres and the move of a rejected
  document's objects on S3, with the contract the act relies on.

  The table is the list of its rows in insertion order. Its two keys, \<open>record_id\<close> and
  \<open>ingest_id\<close>, make \<open>ON CONFLICT DO NOTHING\<close> insert only a row that shares neither. \<open>dump\<close> is
  the canonical JSON text of a record. A fault is one of three: the call works, it fails before the
  commit, or it commits and the acknowledgement is lost. Where the query for an existing row could
  match two rows the first is taken. An object store is a map from keys to contents; a call of a
  sequence that fails is where the sequence stops.
\<close>

subsection \<open>The ledger\<close>

datatype fault = Healthy | Down | LostAck

record ledger_row =
  lr_record_id :: string
  lr_ingest_id :: string
  lr_decision :: string
  lr_by :: string
  lr_at :: int
  lr_record :: string

record existing_row =
  ex_decision :: string
  ex_by :: string
  ex_at :: int
  ex_record :: pyval

datatype ledger_answer =
    Appended
  | NotWritten string
  | Conflict "existing_row option"

definition row_of :: "(pydict \<Rightarrow> string) \<Rightarrow> pydict \<Rightarrow> string \<Rightarrow> int \<Rightarrow> ledger_row" where
  "row_of dump rec by_who at_ms =
     \<lparr>lr_record_id = str_or_nil (dget rec ''record_id''), lr_ingest_id = str_or_nil (dget rec ''request_key''),
      lr_decision = str_or_nil (dget rec ''outcome''), lr_by = by_who, lr_at = at_ms, lr_record = dump rec\<rparr>"

definition same_key :: "ledger_row \<Rightarrow> ledger_row \<Rightarrow> bool" where
  "same_key a b \<longleftrightarrow> lr_record_id a = lr_record_id b \<or> lr_ingest_id a = lr_ingest_id b"

definition insert_row :: "ledger_row \<Rightarrow> ledger_row list \<Rightarrow> ledger_row list" where
  "insert_row r rows = (if list_ex (same_key r) rows then rows else rows @ [r])"

definition existing_of :: "ledger_row \<Rightarrow> existing_row" where
  "existing_of r = \<lparr>ex_decision = lr_decision r, ex_by = lr_by r, ex_at = lr_at r, ex_record = PStr (lr_record r)\<rparr>"

definition pg_append ::
  "(pydict \<Rightarrow> string) \<Rightarrow> fault \<Rightarrow> pydict \<Rightarrow> string \<Rightarrow> int \<Rightarrow> ledger_row list \<Rightarrow> ledger_answer \<times> ledger_row list" where
  "pg_append dump f rec by_who at_ms rows =
     (let r = row_of dump rec by_who at_ms in
      case f of
        Down \<Rightarrow> (NotWritten ''unreachable'', rows)
      | LostAck \<Rightarrow> (NotWritten ''unreachable'', insert_row r rows)
      | Healthy \<Rightarrow>
          if \<not> list_ex (same_key r) rows then (Appended, insert_row r rows)
          else (case find (same_key r) rows of
              None \<Rightarrow> (NotWritten ''conflict_unreadable'', rows)
            | Some e \<Rightarrow> (Conflict (Some (existing_of e)), rows)))"

definition record_for :: "(string \<Rightarrow> pyval option) \<Rightarrow> string \<Rightarrow> ledger_row list \<Rightarrow> pydict option" where
  "record_for loads ingest_id rows = (case find (\<lambda>r. lr_ingest_id r = ingest_id) rows of
     Some r \<Rightarrow> parse_stored loads (PStr (lr_record r)) | None \<Rightarrow> None)"

text \<open>The answer is cut after the append that reaches \<open>limit\<close>.\<close>

fun in_domains :: "(string \<Rightarrow> pyval option) \<Rightarrow> int \<Rightarrow> string list \<Rightarrow> (string \<times> int) list \<Rightarrow> ledger_row list \<Rightarrow> (string \<times> int) list" where
  "in_domains loads limit wanted out [] = out"
| "in_domains loads limit wanted out (r # rs) =
     (if (case recorded_domain loads (PStr (lr_record r)) of Some d \<Rightarrow> d \<in> set wanted | None \<Rightarrow> False)
      then (let out' = out @ [(lr_ingest_id r, lr_at r)] in
            if int (length out') \<ge> limit then out' else in_domains loads limit wanted out' rs)
      else in_domains loads limit wanted out rs)"

definition promoted_between ::
  "(string \<Rightarrow> pyval option) \<Rightarrow> int \<Rightarrow> int \<Rightarrow> int \<Rightarrow> string list \<Rightarrow> ledger_row list \<Rightarrow> (string \<times> int) list" where
  "promoted_between loads start_ms end_ms limit domains rows =
     in_domains loads limit domains []
       (sort_key lr_at (sort_key lr_ingest_id
          (filter (\<lambda>r. lr_decision r = PROMOTED \<and> start_ms \<le> lr_at r \<and> lr_at r < end_ms) rows)))"

text \<open>
  What the act relies on. \<open>rows\<close> is what a ledger holds, \<open>keyed\<close> that each row is under the id
  derived from its document and that no two share a key.
\<close>

definition keyed :: "(string \<Rightarrow> string) \<Rightarrow> ledger_row list \<Rightarrow> bool" where
  "keyed sha rows \<longleftrightarrow> (\<forall>r \<in> set rows. lr_record_id r = record_id_for sha (lr_ingest_id r)) \<and>
     distinct (map lr_record_id rows)"

definition under :: "(string \<Rightarrow> string) \<Rightarrow> string \<Rightarrow> string \<Rightarrow> pydict \<Rightarrow> bool" where
  "under sha ingest_id decision rec \<longleftrightarrow> dget rec ''record_id'' = PStr (record_id_for sha ingest_id) \<and>
     dget rec ''request_key'' = PStr ingest_id \<and> dget rec ''outcome'' = PStr decision"

locale decision_ledger =
  fixes put :: "pydict \<Rightarrow> string \<Rightarrow> int \<Rightarrow> 's \<Rightarrow> ledger_answer \<times> 's"
    and rows :: "'s \<Rightarrow> ledger_row list"
    and sha :: "string \<Rightarrow> string"
  assumes put_grows: "put rec w t s = (ans, s') \<Longrightarrow> \<exists>new. rows s' = rows s @ new"
    and put_keyed: "put rec w t s = (ans, s') \<Longrightarrow> under sha i d rec \<Longrightarrow> keyed sha (rows s) \<Longrightarrow> keyed sha (rows s')"
    and put_ok: "put rec w t s = (Appended, s') \<Longrightarrow> under sha i d rec \<Longrightarrow>
      \<exists>r \<in> set (rows s'). lr_record_id r = record_id_for sha i \<and> lr_ingest_id r = i \<and>
        lr_decision r = d \<and> lr_by r = w \<and> lr_at r = t"
    and put_refused: "put rec w t s = (Conflict x, s') \<Longrightarrow> s' = s"
    and put_conflict: "put rec w t s = (Conflict (Some e), s') \<Longrightarrow> under sha i d rec \<Longrightarrow> keyed sha (rows s) \<Longrightarrow>
      (\<exists>r \<in> set (rows s). lr_record_id r = record_id_for sha i \<and> e = existing_of r)"
begin

text \<open>A row once written is there, as it was, after any further appends.\<close>

lemma row_stays: "put rec w t s = (ans, s') \<Longrightarrow> r \<in> set (rows s) \<Longrightarrow> r \<in> set (rows s')"
  using put_grows by fastforce

lemma one_row_per_id:
  assumes "keyed sha (rows s)" and "r \<in> set (rows s)" and "r' \<in> set (rows s)"
    and "lr_record_id r = lr_record_id r'"
  shows "r = r'"
  using assms unfolding keyed_def distinct_map by (meson inj_onD)

text \<open>The row an answered append rests on: the new one, or the one it conflicts with.\<close>

lemma answered_by_a_row:
  assumes "put rec w t s = (ans, s')" and "under sha i d rec" and "keyed sha (rows s)"
    and "ans = Appended \<and> b = w \<and> m = t \<or>
         (\<exists>e. ans = Conflict (Some e) \<and> ex_decision e = d \<and> b = ex_by e \<and> m = ex_at e)"
  shows "\<exists>r \<in> set (rows s'). lr_record_id r = record_id_for sha i \<and> lr_decision r = d \<and> lr_by r = b \<and> lr_at r = m"
  using assms(4)
proof
  assume "ans = Appended \<and> b = w \<and> m = t"
  with put_ok [of rec w t s s' i d] assms(1,2) show ?thesis by auto
next
  assume "\<exists>e. ans = Conflict (Some e) \<and> ex_decision e = d \<and> b = ex_by e \<and> m = ex_at e"
  then obtain e where "ans = Conflict (Some e)" "ex_decision e = d" "b = ex_by e" "m = ex_at e" by blast
  with put_conflict [of rec w t s e s' i d] put_refused [of rec w t s "Some e" s'] assms(1-3)
  show ?thesis by (auto simp: existing_of_def)
qed

end

lemma insert_row_grows: "\<exists>new. insert_row r rows = rows @ new"
  by (simp add: insert_row_def)

lemma pg_append_rows:
  "pg_append dump f rec w t rows = (ans, rows') \<Longrightarrow> rows' = rows \<or> rows' = insert_row (row_of dump rec w t) rows"
  by (auto simp: pg_append_def Let_def split: fault.splits if_splits option.splits)

lemma row_of_under:
  "under sha i d rec \<Longrightarrow> lr_record_id (row_of dump rec w t) = record_id_for sha i \<and>
     lr_ingest_id (row_of dump rec w t) = i \<and> lr_decision (row_of dump rec w t) = d \<and>
     lr_by (row_of dump rec w t) = w \<and> lr_at (row_of dump rec w t) = t"
  by (simp add: under_def row_of_def str_or_nil_def)

lemma insert_row_keyed:
  assumes "keyed sha rows" and "lr_record_id r = record_id_for sha (lr_ingest_id r)"
  shows "keyed sha (insert_row r rows)"
  using assms by (auto simp: keyed_def insert_row_def list_ex_iff same_key_def)

interpretation pg: decision_ledger "pg_append dump f" "\<lambda>rows. rows" sha for dump f sha
proof unfold_locales
  fix rec w t s ans s'
  assume "pg_append dump f rec w t s = (ans, s')"
  then show "\<exists>new. s' = s @ new" by (auto dest!: pg_append_rows simp: insert_row_def)
next
  fix rec w t s ans s' i d
  assume "pg_append dump f rec w t s = (ans, s')" "under sha i d rec" "keyed sha s"
  then show "keyed sha s'"
    by (auto dest!: pg_append_rows simp: row_of_under intro!: insert_row_keyed)
next
  fix rec w t s s' i d
  assume "pg_append dump f rec w t s = (Appended, s')" and u: "under sha i d rec"
  then have "row_of dump rec w t \<in> set s'"
    by (auto simp: pg_append_def Let_def insert_row_def split: fault.splits if_splits option.splits)
  with row_of_under [OF u] show "\<exists>r \<in> set s'. lr_record_id r = record_id_for sha i \<and> lr_ingest_id r = i \<and>
      lr_decision r = d \<and> lr_by r = w \<and> lr_at r = t" by blast
next
  fix rec w t s x s'
  assume "pg_append dump f rec w t s = (Conflict x, s')"
  then show "s' = s"
    by (auto simp: pg_append_def Let_def split: fault.splits if_splits option.splits)
next
  fix rec w t s e s' i d
  assume a: "pg_append dump f rec w t s = (Conflict (Some e), s')" and u: "under sha i d rec" and k: "keyed sha s"
  then obtain r where "find (same_key (row_of dump rec w t)) s = Some r" and e: "e = existing_of r"
    by (auto simp: pg_append_def Let_def split: fault.splits if_splits option.splits)
  then have r: "r \<in> set s" "same_key (row_of dump rec w t) r" by (auto simp: find_Some_iff)
  with k row_of_under [OF u, of dump w t] have "lr_record_id r = record_id_for sha i"
    by (auto simp: same_key_def keyed_def)
  with r e show "\<exists>r \<in> set s. lr_record_id r = record_id_for sha i \<and> e = existing_of r" by blast
qed

subsection \<open>The move of a rejected document's objects\<close>

type_synonym 'b objects = "(string \<times> 'b) list"

datatype s3_call = Copy string string | Delete string

fun s3_run :: "s3_call \<Rightarrow> 'b objects \<Rightarrow> 'b objects" where
  "s3_run (Copy k dest) os = (case map_of os k of Some b \<Rightarrow> AList.update dest b os | None \<Rightarrow> os)"
| "s3_run (Delete k) os = AList.delete k os"

text \<open>The pages of a listing, up to the first that is not truncated.\<close>

fun listed :: "(string list \<times> bool) list \<Rightarrow> string list" where
  "listed [] = []"
| "listed ((keys, truncated) # pages) = keys @ (if truncated then listed pages else [])"

definition moved_to :: "string \<Rightarrow> string \<Rightarrow> string \<Rightarrow> string" where
  "moved_to ingest_id prefix key = quarantine_prefix_for ingest_id @ drop (length prefix) key"

definition quarantine_calls :: "string \<Rightarrow> string \<Rightarrow> string list \<Rightarrow> s3_call list" where
  "quarantine_calls ingest_id prefix keys =
     map (\<lambda>k. Copy k (moved_to ingest_id prefix k)) keys @ map Delete keys"

text \<open>
  \<open>S3Quarantine.quarantine\<close>, of which the first \<open>n\<close> calls after the listing succeeded. \<open>None\<close> is
  the \<open>ValueError\<close> for a reference that is not the document's; the keys moved to are returned
  when all calls succeeded.
\<close>

definition quarantine ::
  "nat \<Rightarrow> string \<Rightarrow> string \<Rightarrow> (string list \<times> bool) list \<Rightarrow> 'b objects \<Rightarrow> (string list option \<times> 'b objects) option" where
  "quarantine n ingest_id object_ref pages os = (case object_prefix_for ingest_id object_ref of
     None \<Rightarrow> None
   | Some prefix \<Rightarrow>
       (let keys = listed pages; calls = quarantine_calls ingest_id prefix keys in
        Some (if length calls \<le> n then Some (map (moved_to ingest_id prefix) keys) else None,
              fold s3_run (take n calls) os)))"

text \<open>What the service promises of a listing: the keys under the prefix, once each.\<close>

definition lists :: "(string list \<times> bool) list \<Rightarrow> string \<Rightarrow> 'b objects \<Rightarrow> bool" where
  "lists pages prefix os \<longleftrightarrow> distinct (listed pages) \<and>
     (\<forall>k. k \<in> set (listed pages) \<longleftrightarrow> starts_with prefix k \<and> map_of os k \<noteq> None)"

lemma starts_with_split: "starts_with p k \<Longrightarrow> k = p @ drop (length p) k"
  by (metis append_take_drop_id starts_with_def)

lemma prefix_under_seam:
  "object_prefix_for i ref = Some p \<Longrightarrow> \<exists>q. p = ''ingress-user/'' @ q"
  by (auto simp: object_prefix_for_def split: list.splits if_splits)

lemma quarantine_prefix_under: "\<exists>q. quarantine_prefix_for i = ''rejected/'' @ q"
  by (simp add: quarantine_prefix_for_def REJECTED_PREFIX_def)

lemma moved_is_elsewhere:
  assumes "object_prefix_for i ref = Some p"
  shows "\<not> starts_with p (moved_to i p k)"
proof -
  obtain q where "p = ''ingress-user/'' @ q" using prefix_under_seam [OF assms] by blast
  moreover obtain q' where "quarantine_prefix_for i = ''rejected/'' @ q'" using quarantine_prefix_under by blast
  ultimately show ?thesis by (auto simp: starts_with_def moved_to_def)
qed

lemma moved_to_inj:
  "starts_with p k \<Longrightarrow> starts_with p k' \<Longrightarrow> moved_to i p k = moved_to i p k' \<Longrightarrow> k = k'"
  by (metis moved_to_def same_append_eq starts_with_split)

text \<open>
  What a sequence of copies leaves, then what a sequence of deletes leaves.
\<close>

lemma copies_run:
  assumes "inj_on f (set keys)" and "distinct keys" and "\<forall>k \<in> set keys. map_of os0 k \<noteq> None"
    and "f ` set keys \<inter> set keys = {}"
  shows "map_of (fold s3_run (map (\<lambda>k. Copy k (f k)) keys) os0) =
     (\<lambda>k. if k \<in> f ` set keys then map_of os0 (inv_into (set keys) f k) else map_of os0 k)"
  using assms
proof (induction keys rule: rev_induct)
  case Nil
  then show ?case by simp
next
  case (snoc x xs)
  let ?os = "fold s3_run (map (\<lambda>k. Copy k (f k)) xs) os0"
  from snoc have ih: "map_of ?os = (\<lambda>k. if k \<in> f ` set xs then map_of os0 (inv_into (set xs) f k) else map_of os0 k)"
    by (auto simp: inj_on_def)
  from snoc.prems have x: "x \<notin> f ` set xs" "f x \<notin> f ` set xs" by (auto simp: inj_on_def)
  obtain b where b: "map_of os0 x = Some b" using snoc.prems(3) by auto
  have xx: "map_of ?os x = Some b" using ih x(1) b by simp
  have inv: "inv_into (set (xs @ [x])) f (f j) = j" if "j \<in> set (xs @ [x])" for j
    using snoc.prems(1) that by (rule inv_into_f_f)
  have inv': "inv_into (set xs) f (f j) = j" if "j \<in> set xs" for j
    using snoc.prems(1) that by (intro inv_into_f_f) (auto simp: inj_on_def)
  show ?case
  proof
    fix k
    show "map_of (fold s3_run (map (\<lambda>k. Copy k (f k)) (xs @ [x])) os0) k =
      (if k \<in> f ` set (xs @ [x]) then map_of os0 (inv_into (set (xs @ [x])) f k) else map_of os0 k)"
    proof (cases "k = f x")
      case True
      then show ?thesis using xx b inv [of x] by (simp add: update_conv')
    next
      case False
      then have m: "map_of (fold s3_run (map (\<lambda>k. Copy k (f k)) (xs @ [x])) os0) k = map_of ?os k"
        using xx by (simp add: update_conv')
      show ?thesis
      proof (cases "k \<in> f ` set xs")
        case True
        then obtain j where "j \<in> set xs" "k = f j" by blast
        then show ?thesis using m ih inv [of j] inv' [of j] by simp
      next
        case n: False
        with False show ?thesis using m ih by simp
      qed
    qed
  qed
qed

lemma deletes_run: "map_of (fold s3_run (map Delete keys) os) = (\<lambda>k. if k \<in> set keys then None else map_of os k)"
proof (induction keys arbitrary: os)
  case Nil
  then show ?case by simp
next
  case (Cons x xs)
  show ?case unfolding list.map fold_Cons comp_apply Cons.IH
    by (auto simp: AList.delete_conv')
qed

text \<open>
  What a finished move amounts to, said without its calls: nothing is left under the prefix, and a
  key of the quarantine holds what the object of the same path below the prefix held.
\<close>

definition relocated :: "string \<Rightarrow> string \<Rightarrow> 'b objects \<Rightarrow> string \<Rightarrow> 'b option" where
  "relocated i p os k =
     (if starts_with p k then None
      else if starts_with (quarantine_prefix_for i) k
         \<and> map_of os (p @ drop (length (quarantine_prefix_for i)) k) \<noteq> None
      then map_of os (p @ drop (length (quarantine_prefix_for i)) k) else map_of os k)"

lemma starts_with_append [simp]: "starts_with p (p @ r)"
  by (simp add: starts_with_def)

lemma moved_to_append [simp]: "moved_to i p (p @ r) = quarantine_prefix_for i @ r"
  by (simp add: moved_to_def)

text \<open>After \<open>n\<close> calls the first copies are made, and deletes only when all copies are.\<close>

lemma partial_run:
  assumes p: "object_prefix_for i ref = Some p" and l: "lists pages p os"
    and A: "A = set (take n (listed pages))" and D: "D = set (take (n - length (listed pages)) (listed pages))"
    and os': "os' = fold s3_run (take n (quarantine_calls i p (listed pages))) os"
  shows "k \<in> D \<Longrightarrow> map_of os' k = None"
    and "k \<in> A \<Longrightarrow> map_of os' (moved_to i p k) = map_of os k"
    and "k \<notin> D \<Longrightarrow> k \<notin> moved_to i p ` A \<Longrightarrow> map_of os' k = map_of os k"
    and "D \<noteq> {} \<Longrightarrow> A = set (listed pages)"
proof -
  let ?K = "listed pages" and ?f = "moved_to i p"
  have K: "\<forall>k \<in> set ?K. starts_with p k \<and> map_of os k \<noteq> None" "distinct ?K" using l by (auto simp: lists_def)
  have AK: "A \<subseteq> set ?K" unfolding A by (rule set_take_subset)
  have DK: "D \<subseteq> set ?K" unfolding D by (rule set_take_subset)
  have inj: "inj_on ?f A" using K AK by (auto intro!: inj_onI dest: moved_to_inj)
  have out: "?f k \<notin> set ?K" for k using K moved_is_elsewhere [OF p] by blast
  have split: "os' = fold s3_run (map Delete (take (n - length ?K) ?K))
     (fold s3_run (map (\<lambda>k. Copy k (?f k)) (take n ?K)) os)"
    by (simp add: os' quarantine_calls_def take_map)
  have c: "map_of (fold s3_run (map (\<lambda>k. Copy k (?f k)) (take n ?K)) os) =
     (\<lambda>k. if k \<in> ?f ` A then map_of os (inv_into A ?f k) else map_of os k)"
    unfolding A by (rule copies_run) (use K inj out in \<open>auto simp: A dest: in_set_takeD\<close>)
  have m: "map_of os' k = (if k \<in> D then None else if k \<in> ?f ` A then map_of os (inv_into A ?f k) else map_of os k)" for k
    by (simp add: split deletes_run c D)
  show "k \<in> D \<Longrightarrow> map_of os' k = None" by (simp add: m)
  show "k \<in> A \<Longrightarrow> map_of os' (?f k) = map_of os k" using out DK by (auto simp: m inv_into_f_f [OF inj])
  show "k \<notin> D \<Longrightarrow> k \<notin> ?f ` A \<Longrightarrow> map_of os' k = map_of os k" by (simp add: m)
  show "D \<noteq> {} \<Longrightarrow> A = set ?K" unfolding A D by (cases "n \<le> length ?K") auto
qed

text \<open>
  A rejection moves, it never deletes. Wherever the sequence of calls stops, each object of the
  document is at its own key or at its quarantine key with its content, and an object of neither
  directory is untouched; when the move answers, none is left at its own key.
\<close>

theorem quarantine_loses_nothing:
  assumes "object_prefix_for i ref = Some p" and "lists pages p os"
    and "quarantine n i ref pages os = Some (ans, os')" and "map_of os k = Some b"
  shows "(starts_with p k \<longrightarrow> map_of os' k = Some b \<or> map_of os' (moved_to i p k) = Some b) \<and>
     (\<not> starts_with p k \<longrightarrow> \<not> starts_with (quarantine_prefix_for i) k \<longrightarrow> map_of os' k = Some b) \<and>
     (ans \<noteq> None \<longrightarrow> starts_with p k \<longrightarrow> map_of os' k = None \<and> map_of os' (moved_to i p k) = Some b)"
proof -
  let ?K = "listed pages" and ?q = "quarantine_prefix_for i"
  define A D where "A = set (take n ?K)" and "D = set (take (n - length ?K) ?K)"
  from assms(1,3) have os': "os' = fold s3_run (take n (quarantine_calls i p ?K)) os"
    and full: "ans \<noteq> None \<Longrightarrow> 2 * length ?K \<le> n"
    by (auto simp: quarantine_def Let_def quarantine_calls_def split: if_splits)
  note r = partial_run [OF assms(1,2) A_def D_def os']
  have K: "k \<in> set ?K \<longleftrightarrow> starts_with p k" using assms(2,4) by (auto simp: lists_def)
  have sub: "A \<subseteq> set ?K" "D \<subseteq> set ?K" unfolding A_def D_def by (rule set_take_subset)+
  have q: "starts_with ?q (moved_to i p j)" for j by (simp add: moved_to_def)
  have "map_of os' k = Some b \<or> map_of os' (moved_to i p k) = Some b" if "starts_with p k"
  proof (cases "k \<in> D")
    case True
    with r(4) K that have "k \<in> A" by blast
    with r(2) assms(4) show ?thesis by simp
  next
    case False
    have "k \<notin> moved_to i p ` A" using moved_is_elsewhere [OF assms(1)] that by blast
    with False r(3) assms(4) show ?thesis by simp
  qed
  moreover have "map_of os' k = Some b" if "\<not> starts_with p k" "\<not> starts_with ?q k"
  proof -
    have "k \<notin> moved_to i p ` A" using that(2) q by (metis imageE)
    moreover have "k \<notin> D" using K sub that(1) by blast
    ultimately show ?thesis using r(3) assms(4) by simp
  qed
  moreover have "map_of os' k = None \<and> map_of os' (moved_to i p k) = Some b" if "ans \<noteq> None" "starts_with p k"
  proof -
    have "take n ?K = ?K" "take (n - length ?K) ?K = ?K" using full [OF that(1)] by simp_all
    then have "A = set ?K" "D = set ?K" by (simp_all add: A_def D_def)
    with K that r(1,2) [of k] assms(4) show ?thesis by simp
  qed
  ultimately show ?thesis by blast
qed

text \<open>
  A move that stopped somewhere, without its calls: the objects under \<open>A\<close> were copied and those under
  \<open>D\<close> were deleted after it.
\<close>

definition moved_part :: "string \<Rightarrow> string \<Rightarrow> string set \<Rightarrow> string set \<Rightarrow> 'b objects \<Rightarrow> 'b objects \<Rightarrow> bool" where
  "moved_part i p A D os os' \<longleftrightarrow> D \<subseteq> A \<and> (\<forall>k \<in> A. starts_with p k \<and> map_of os k \<noteq> None) \<and>
     (\<forall>k. map_of os' k = (if k \<in> D then None else if k \<in> moved_to i p ` A
        then map_of os (p @ drop (length (quarantine_prefix_for i)) k) else map_of os k))"

lemma moved_back: "starts_with p k \<Longrightarrow> p @ drop (length (quarantine_prefix_for i)) (moved_to i p k) = k"
  by (metis append_eq_conv_conj moved_to_append starts_with_split)

lemma stopped_run:
  assumes "object_prefix_for i ref = Some p" and l: "lists pages p os"
    and A: "A = set (take n (listed pages))" and D: "D = set (take (n - length (listed pages)) (listed pages))"
    and "os' = fold s3_run (take n (quarantine_calls i p (listed pages))) os"
  shows "moved_part i p A D os os'"
proof -
  note r = partial_run [OF assms]
  have "A \<subseteq> set (listed pages)" "D \<subseteq> set (listed pages)" unfolding A D by (rule set_take_subset)+
  then have K: "\<forall>k \<in> A. starts_with p k \<and> map_of os k \<noteq> None" and "D \<subseteq> A"
    using l r(4) by (auto simp: lists_def)
  have "map_of os' (moved_to i p k) = map_of os (p @ drop (length (quarantine_prefix_for i)) (moved_to i p k))"
    if "k \<in> A" for k
    using r(2) [OF that] K that by (simp add: moved_back)
  then have "map_of os' k = (if k \<in> D then None else if k \<in> moved_to i p ` A
        then map_of os (p @ drop (length (quarantine_prefix_for i)) k) else map_of os k)" for k
    using r(1,3) [of k] by (cases "k \<in> D"; cases "k \<in> moved_to i p ` A") auto
  with K \<open>D \<subseteq> A\<close> show ?thesis unfolding moved_part_def by blast
qed

lemma append_drop: "drop (length xs) (xs @ ys) = ys"
  by simp

lemma in_moved_image: "\<forall>k \<in> A. starts_with p k \<Longrightarrow> quarantine_prefix_for i @ t \<in> moved_to i p ` A \<longleftrightarrow> p @ t \<in> A"
proof
  assume a: "\<forall>k \<in> A. starts_with p k" and "quarantine_prefix_for i @ t \<in> moved_to i p ` A"
  then obtain k where k: "k \<in> A" "quarantine_prefix_for i @ t = moved_to i p k" by blast
  with a obtain r where "k = p @ r" by (metis starts_with_split)
  with k show "p @ t \<in> A" by simp
next
  assume "p @ t \<in> A"
  then have "moved_to i p (p @ t) \<in> moved_to i p ` A" by (rule imageI)
  then show "quarantine_prefix_for i @ t \<in> moved_to i p ` A" by simp
qed

lemma moved_parts_relocate:
  assumes p: "object_prefix_for i ref = Some p" and m: "moved_part i p A D os os1" "moved_part i p R R os1 os2"
    and R: "R = {k. starts_with p k \<and> map_of os1 k \<noteq> None}"
  shows "map_of os2 = relocated i p os"
proof
  fix k
  let ?q = "quarantine_prefix_for i"
  note A = m(1) [unfolded moved_part_def] and S = m(2) [unfolded moved_part_def]
  from A have e1: "map_of os1 x = (if x \<in> D then None else if x \<in> moved_to i p ` A then map_of os (p @ drop (length ?q) x) else map_of os x)"
    and pA: "\<forall>k \<in> A. starts_with p k" for x by blast+
  from S have e2: "map_of os2 x = (if x \<in> R then None else if x \<in> moved_to i p ` R then map_of os1 (p @ drop (length ?q) x) else map_of os1 x)"
    and pR: "\<forall>k \<in> R. starts_with p k" for x by blast+
  have out: "\<not> starts_with p (moved_to i p j)" for j using moved_is_elsewhere [OF p] .
  show "map_of os2 k = relocated i p os k"
  proof (cases "starts_with p k")
    case True
    with out have "k \<notin> moved_to i p ` R" by blast
    with S have "map_of os2 k = (if k \<in> R then None else map_of os1 k)" by simp
    moreover have "k \<in> R \<longleftrightarrow> map_of os1 k \<noteq> None" unfolding R using True by simp
    ultimately have "map_of os2 k = None" by (simp split: if_splits)
    with True show ?thesis by (simp add: relocated_def)
  next
    case False
    with R A have DR: "k \<notin> R" "k \<notin> D" by blast+
    show ?thesis
    proof (cases "starts_with ?q k")
      case True
      then obtain t where t: "k = ?q @ t" by (metis starts_with_split)
      have "p @ t \<notin> moved_to i p ` A" using out by (metis imageE starts_with_append)
      then have left: "map_of os1 (p @ t) = (if p @ t \<in> D then None else map_of os (p @ t))"
        using e1 [of "p @ t"] by (simp only: if_False)
      have "map_of os2 k = (if p @ t \<in> R then map_of os1 (p @ t) else map_of os1 k)"
        "map_of os1 k = (if p @ t \<in> A then map_of os (p @ t) else map_of os k)"
        using e1 [of k] e2 [of k] DR in_moved_image [OF pA, of i t] in_moved_image [OF pR, of i t]
        by (simp_all only: t if_False append_drop)
      with left A R False t True show ?thesis by (auto simp: relocated_def)
    next
      case q: False
      then have "k \<notin> moved_to i p ` B" for B by (auto simp: moved_to_def)
      with S A DR False q show ?thesis by (simp add: relocated_def)
    qed
  qed
qed

text \<open>
  C17. A retry finishes the job. After a move that stopped anywhere, a retry that lists what is left
  and answers leaves the bucket exactly as one uninterrupted move would: the sequence of copies
  and deletes refines the relocation.
\<close>

theorem quarantine_converges:
  assumes "object_prefix_for i ref = Some p" and "lists pages p os"
    and "quarantine n i ref pages os = Some (ans, os1)"
    and "lists pages' p os1" and "quarantine n' i ref pages' os1 = Some (Some moved, os2)"
  shows "map_of os2 = relocated i p os"
proof -
  have os1: "os1 = fold s3_run (take n (quarantine_calls i p (listed pages))) os"
    using assms(1,3) by (auto simp: quarantine_def Let_def)
  have os2: "os2 = fold s3_run (take n' (quarantine_calls i p (listed pages'))) os1"
    and "2 * length (listed pages') \<le> n'"
    using assms(1,5) by (auto simp: quarantine_def Let_def quarantine_calls_def split: if_splits)
  then have "take n' (listed pages') = listed pages'" "take (n' - length (listed pages')) (listed pages') = listed pages'"
    by simp_all
  with stopped_run [OF assms(1,4) refl refl os2]
  have "moved_part i p (set (listed pages')) (set (listed pages')) os1 os2" by simp
  then show ?thesis
    by (rule moved_parts_relocate [OF assms(1) stopped_run [OF assms(1,2) refl refl os1]])
      (use assms(4) in \<open>auto simp: lists_def\<close>)
qed

text \<open>A listing is checked on the keys of the store alone.\<close>

lemma lists_code: "lists pages p os \<longleftrightarrow> distinct (listed pages) \<and>
    set (listed pages) = set (filter (starts_with p) (map fst os))"
proof -
  have "map_of os k \<noteq> None \<longleftrightarrow> k \<in> set (map fst os)" for k
    by (simp add: map_of_eq_None_iff)
  then show ?thesis by (auto simp: lists_def simp del: not_None_eq)
qed

definition bucket :: "nat objects" where
  "bucket = [(''ingress-user/pcn/ab/n.pdf'', 1), (''other'', 2), (''ingress-user/pcn/ab/x/m.json'', 3)]"

definition bucket_pages :: "(string list \<times> bool) list" where
  "bucket_pages = [([''ingress-user/pcn/ab/n.pdf''], True), ([''ingress-user/pcn/ab/x/m.json''], False)]"

theorem quarantine_loses_nothing_witness:
  "\<exists>ans os'. quarantine 3 ''sha256:ab'' ''ingress-user/pcn/ab/n.pdf'' bucket_pages bucket = Some (ans, os') \<and>
     (map_of os' ''ingress-user/pcn/ab/n.pdf'' = Some 1 \<or> map_of os' ''rejected/sha256:ab/n.pdf'' = Some 1)"
proof -
  let ?p = "''ingress-user/pcn/ab/''"
  have p: "object_prefix_for ''sha256:ab'' ''ingress-user/pcn/ab/n.pdf'' = Some ?p" by code_simp
  have l: "lists bucket_pages ?p bucket" unfolding lists_code by code_simp
  obtain r where r: "quarantine 3 ''sha256:ab'' ''ingress-user/pcn/ab/n.pdf'' bucket_pages bucket = Some r"
    by (simp add: quarantine_def p Let_def)
  obtain a os' where r': "r = (a, os')" by fastforce
  have b: "map_of bucket ''ingress-user/pcn/ab/n.pdf'' = Some 1" by code_simp
  have m: "moved_to ''sha256:ab'' ?p ''ingress-user/pcn/ab/n.pdf'' = ''rejected/sha256:ab/n.pdf''"
    "starts_with ?p ''ingress-user/pcn/ab/n.pdf''" by code_simp+
  from quarantine_loses_nothing [OF p l r [unfolded r'] b] m r r' show ?thesis by auto
qed

theorem quarantine_converges_witness:
  "\<exists>ans os1 os2. quarantine 3 ''sha256:ab'' ''ingress-user/pcn/ab/n.pdf'' bucket_pages bucket = Some (ans, os1) \<and>
     map_of os2 = relocated ''sha256:ab'' ''ingress-user/pcn/ab/'' bucket \<and>
     map_of os2 ''rejected/sha256:ab/x/m.json'' = Some 3 \<and> map_of os2 ''other'' = Some 2"
proof -
  let ?p = "''ingress-user/pcn/ab/''" and ?i = "''sha256:ab''" and ?ref = "''ingress-user/pcn/ab/n.pdf''"
  let ?os1 = "[(''other'', 2), (''ingress-user/pcn/ab/x/m.json'', 3), (''rejected/sha256:ab/n.pdf'', 1),
     (''rejected/sha256:ab/x/m.json'', 3)] :: nat objects"
  let ?pages = "[([''ingress-user/pcn/ab/x/m.json''], False)]"
  let ?os2 = "[(''other'', 2), (''rejected/sha256:ab/n.pdf'', 1), (''rejected/sha256:ab/x/m.json'', 3)] :: nat objects"
  have p: "object_prefix_for ?i ?ref = Some ?p" by code_simp
  have l: "lists bucket_pages ?p bucket" "lists ?pages ?p ?os1" unfolding lists_code by code_simp+
  have q: "quarantine 3 ?i ?ref bucket_pages bucket = Some (None, ?os1)"
    "quarantine 2 ?i ?ref ?pages ?os1 = Some (Some [''rejected/sha256:ab/x/m.json''], ?os2)" by code_simp+
  have "map_of ?os2 ''rejected/sha256:ab/x/m.json'' = Some 3" "map_of ?os2 ''other'' = Some 2" by simp_all
  with quarantine_converges [OF p l(1) q(1) l(2) q(2)] q(1) show ?thesis by blast
qed

subsection \<open>The export window\<close>

definition in_domain :: "(string \<Rightarrow> pyval option) \<Rightarrow> string list \<Rightarrow> ledger_row \<Rightarrow> bool" where
  "in_domain loads wanted r \<longleftrightarrow>
     (case recorded_domain loads (PStr (lr_record r)) of Some d \<Rightarrow> d \<in> set wanted | None \<Rightarrow> False)"

lemma in_domains_take:
  "int (length out) < limit \<Longrightarrow> in_domains loads limit wanted out rs =
     take (nat limit) (out @ map (\<lambda>r. (lr_ingest_id r, lr_at r)) (filter (in_domain loads wanted) rs))"
proof (induction rs arbitrary: out)
  case Nil
  then show ?case by simp
next
  case (Cons r rs)
  show ?case
  proof (cases "in_domain loads wanted r \<and> limit \<le> int (length (out @ [(lr_ingest_id r, lr_at r)]))")
    case True
    with Cons.prems have "limit = int (Suc (length out))" by simp
    then have "nat limit = Suc (length out)" by simp
    with True show ?thesis by (simp add: in_domain_def Let_def)
  next
    case False
    with Cons.IH [of out] Cons.IH [of "out @ [(lr_ingest_id r, lr_at r)]"] Cons.prems show ?thesis
      by (auto simp: in_domain_def Let_def)
  qed
qed

text \<open>
  The export window is exact: the promotions of the window whose record names a wanted domain,
  in the order of the query, cut at the limit; the domain filter runs before the limit, so a
  promotion of another domain never takes a place.
\<close>

theorem promoted_between_is_the_window:
  assumes "0 < limit"
  shows "promoted_between loads start_ms end_ms limit domains rows = take (nat limit)
      (map (\<lambda>r. (lr_ingest_id r, lr_at r)) (filter (in_domain loads domains)
        (sort_key lr_at (sort_key lr_ingest_id
          (filter (\<lambda>r. lr_decision r = PROMOTED \<and> start_ms \<le> lr_at r \<and> lr_at r < end_ms) rows))))) \<and>
     (\<forall>p \<in> set (promoted_between loads start_ms end_ms limit domains rows).
        start_ms \<le> snd p \<and> snd p < end_ms \<and>
        (\<exists>r \<in> set rows. lr_ingest_id r = fst p \<and> lr_decision r = PROMOTED \<and> in_domain loads domains r)) \<and>
     int (length (promoted_between loads start_ms end_ms limit domains rows)) \<le> limit"
proof -
  have eq: "promoted_between loads start_ms end_ms limit domains rows = take (nat limit)
      (map (\<lambda>r. (lr_ingest_id r, lr_at r)) (filter (in_domain loads domains)
        (sort_key lr_at (sort_key lr_ingest_id
          (filter (\<lambda>r. lr_decision r = PROMOTED \<and> start_ms \<le> lr_at r \<and> lr_at r < end_ms) rows)))))"
    using assms by (simp add: promoted_between_def in_domains_take)
  then show ?thesis using assms by (auto dest!: in_set_takeD)
qed

theorem promoted_between_is_the_window_witness:
  "\<exists>loads rows. promoted_between loads 0 10 1 [''energy''] rows = [(''d2'', 4)]"
proof -
  let ?r = "\<lambda>i t a. \<lparr>lr_record_id = i, lr_ingest_id = i, lr_decision = PROMOTED, lr_by = ''kim'', lr_at = t, lr_record = a\<rparr>"
  let ?loads = "\<lambda>a. Some (PDict [(''checks'', PList [PDict [(''name'', PStr ''human_review''),
     (''inputs'', PDict [(''audience'', PStr (''document_promotion:'' @ a))])]])])"
  let ?rows = "[?r ''d3'' 5 ''energy'', ?r ''d1'' 3 ''aero'', ?r ''d2'' 4 ''energy'']"
  have s: "sort_key lr_at (sort_key lr_ingest_id
      (filter (\<lambda>r. lr_decision r = PROMOTED \<and> 0 \<le> lr_at r \<and> lr_at r < 10) ?rows)) =
      [?r ''d1'' 3 ''aero'', ?r ''d2'' 4 ''energy'', ?r ''d3'' 5 ''energy'']" by code_simp
  have d: "in_domain ?loads [''energy''] (?r ''d3'' 5 ''energy'')" "\<not> in_domain ?loads [''energy''] (?r ''d1'' 3 ''aero'')"
    "in_domain ?loads [''energy''] (?r ''d2'' 4 ''energy'')" by code_simp+
  have "promoted_between ?loads 0 10 1 [''energy''] ?rows = [(''d2'', 4)]"
    using promoted_between_is_the_window [of 1 ?loads 0 10 "[''energy'']" ?rows] d unfolding s by simp
  then show ?thesis by blast
qed

end
