(* ===== verification/Promotion_Act.thy ===== *)
theory Promotion_Act
  imports Promotion_Stores
begin

text \<open>
  \<open>act\<close> of \<^verbatim>\<open>src/iagent/promotion.py\<close>: promote or reject one document. The refusals that can be
  known up front come first and read only; then the record is appended; then the effects run, each
  keyed. What the world answers is an argument: the decider, which stores are configured, what the
  graph reads, and for every step of the effect whether its call works, fails, or takes effect and
  then fails. The effects are logged in order. \<open>put\<close> is the ledger's \<open>append\<close>.
\<close>

subsection \<open>The act\<close>

datatype effect =
    RowEdits string "pyval list" string string
  | EdgesRemoved string "pyval list" string
  | CorrectionEmitted string pydict
  | FactWritten string pydict
  | OriginAttested string string string
  | GraphSwept string
  | IndexesSwept string
  | ObjectsMoved string string

record 's desk =
  dk_ledger :: 's
  dk_log :: "effect list"

record world_answers =
  wa_rend :: "pyval \<Rightarrow> string"
  wa_sha :: "string \<Rightarrow> string"
  wa_loads :: "string \<Rightarrow> pyval option"
  wa_shape :: "string \<Rightarrow> string option"
  wa_can_act :: "string \<Rightarrow> string \<Rightarrow> authz_answer"
  wa_stores :: "string list"
  wa_node :: "bool option"
  wa_mpns :: "string list option option"
  wa_step :: "string \<Rightarrow> fault"
  wa_answer :: "string \<Rightarrow> pyval"

definition REQUIRES :: "string \<Rightarrow> string list" where
  "REQUIRES decision = (if decision = PROMOTED then [''ledger'', ''graph'']
     else [''ledger'', ''graph'', ''indexes'', ''objects''])"

definition missing_stores :: "string list \<Rightarrow> string \<Rightarrow> string list" where
  "missing_stores stores decision = filter (\<lambda>n. n \<notin> set stores) (REQUIRES decision)"

definition removed_mpns :: "pydict option \<Rightarrow> pyval list option" where
  "removed_mpns rc = map_option (\<lambda>d. map (\<lambda>e. dget e ''mpn'') (dicts_in (list_or_nil (dget d ''removed'')))) rc"

definition some_edits :: "act_args \<Rightarrow> bool" where
  "some_edits a \<longleftrightarrow> (case aa_row_edits a of Some (e # es) \<Rightarrow> True | _ \<Rightarrow> False)"

definition some_mpns :: "pyval list option \<Rightarrow> bool" where
  "some_mpns ms \<longleftrightarrow> (case ms of Some (m # rest) \<Rightarrow> True | _ \<Rightarrow> False)"

definition notice_plan :: "world_answers \<Rightarrow> act_args \<Rightarrow> promotion_error + pydict option" where
  "notice_plan w a = (case wa_node w of
     None \<Rightarrow> Inl (Refuse ''promotion_store_unavailable'' 503)
   | Some False \<Rightarrow> Inl (Refuse ''ingest_node_absent'' 409)
   | Some True \<Rightarrow> (case wa_mpns w of
         None \<Rightarrow> Inl (Refuse ''promotion_store_unavailable'' 503)
       | Some None \<Rightarrow> Inr None
       | Some (Some current) \<Rightarrow> (case aa_reviewed a of
             None \<Rightarrow> Inl (Refuse ''promotion_reviewed_set_unknown'' 409)
           | Some reviewed \<Rightarrow> Inr (Some (reconciliation_record
               (reconcile_plan (wa_rend w) current reviewed (aa_row_edits a)) (aa_earlier a))))))"

definition preflight ::
  "world_answers \<Rightarrow> act_args \<Rightarrow> pyval \<Rightarrow> promotion_error + promotion_subject \<times> string \<times> pydict option" where
  "preflight w a payload =
     bind_r (require_r (aa_decision a \<in> set VERBS) (Refuse ''invalid_decision_for_kind'' 422)) (\<lambda>_.
     bind_r (may_act (wa_can_act w) (aa_audience a) (aa_acted_by a)) (\<lambda>yes.
     bind_r (require_r yes (Refuse ''not_authorized_to_act'' 403)) (\<lambda>_.
     bind_r (subject_from_payload (wa_rend w) payload) (\<lambda>subject.
     bind_r (if aa_decision a = PROMOTED then domain_of (aa_audience a) else Inr []) (\<lambda>domain.
     bind_r (require_r (\<not> (aa_decision a = PROMOTED \<and> aa_acted_by a \<in> set (excluded_attesters payload)))
       (Refuse ''dropper_cannot_attest_origin'' 403)) (\<lambda>_.
     bind_r (require_r (missing_stores (wa_stores w) (aa_decision a) = [])
       (Refuse ''promotion_store_unconfigured'' 503)) (\<lambda>_.
     bind_r (if aa_decision a = PROMOTED then notice_plan w a else Inr None) (\<lambda>rc.
     bind_r (require_r (\<not> (aa_decision a = PROMOTED \<and> (some_edits a \<or> some_mpns (removed_mpns rc))
         \<and> ''corrections'' \<notin> set (wa_stores w)))
       (Refuse ''promotion_store_unconfigured'' 503)) (\<lambda>_.
       Inr (subject, domain, rc))))))))))"

record settled =
  se_by :: string
  se_at :: int
  se_replayed :: bool
  se_mpns :: "pyval list option"

definition list_or_none :: "pyval list option \<Rightarrow> pyval" where
  "list_or_none es = (case es of Some (e # rest) \<Rightarrow> PList (e # rest) | _ \<Rightarrow> PNone)"

definition dict_or_none :: "pydict option \<Rightarrow> pyval" where
  "dict_or_none d = (case d of Some (e # rest) \<Rightarrow> PDict (e # rest) | _ \<Rightarrow> PNone)"

definition settle_conflict :: "world_answers \<Rightarrow> act_args \<Rightarrow> existing_row option \<Rightarrow> promotion_error + settled" where
  "settle_conflict w a existing = (case existing of
     None \<Rightarrow> Inl (Refuse ''promotion_already_decided'' 409)
   | Some e \<Rightarrow>
       bind_r (require_r (ex_decision e = aa_decision a \<and> ex_by e \<noteq> [])
         (Refuse ''promotion_already_decided'' 409)) (\<lambda>_.
       bind_r (require_r (py_eq (list_or_none (aa_row_edits a))
           (list_or_none (with_normalized_evidence (recorded_row_edits (wa_loads w) (ex_record e)))))
         (Refuse ''row_edits_differ_from_the_record'' 409)) (\<lambda>_.
       bind_r (require_r (py_eq (dict_or_none (aa_coverage a))
           (dict_or_none (recorded_review_coverage (wa_rend w) (wa_shape w) (wa_loads w) (ex_record e))))
         (Refuse ''review_coverage_differs_from_the_record'' 409)) (\<lambda>_.
         Inr \<lparr>se_by = ex_by e, se_at = ex_at e, se_replayed = True,
              se_mpns = recorded_reconciliation (wa_loads w) (ex_record e)\<rparr>))))"

definition settle_answer ::
  "world_answers \<Rightarrow> act_args \<Rightarrow> pydict option \<Rightarrow> ledger_answer \<Rightarrow> promotion_error + settled" where
  "settle_answer w a rc ans = (case ans of
     Appended \<Rightarrow> Inr \<lparr>se_by = aa_acted_by a, se_at = aa_now a, se_replayed = False, se_mpns = removed_mpns rc\<rparr>
   | NotWritten _ \<Rightarrow> Inl (Refuse ''decision_record_not_written'' 503)
   | Conflict existing \<Rightarrow> settle_conflict w a existing)"

definition settle_record ::
  "(pydict \<Rightarrow> string \<Rightarrow> int \<Rightarrow> 's \<Rightarrow> ledger_answer \<times> 's) \<Rightarrow> world_answers \<Rightarrow> act_args \<Rightarrow> pydict option \<Rightarrow> pydict \<Rightarrow>
     ('s desk, promotion_error, settled) proc" where
  "settle_record put w a rc rec d =
     (case put rec (aa_acted_by a) (aa_now a) (dk_ledger d) of
        (ans, l) \<Rightarrow> (settle_answer w a rc ans, d\<lparr>dk_ledger := l\<rparr>))"

text \<open>One call of a store: what it did is logged, also when its answer was lost.\<close>

definition call_store :: "world_answers \<Rightarrow> string \<Rightarrow> effect \<Rightarrow> ('s desk, promotion_error, pyval) proc" where
  "call_store w step e d = (case wa_step w step of
     Healthy \<Rightarrow> (Inr (wa_answer w step), d\<lparr>dk_log := dk_log d @ [e]\<rparr>)
   | Down \<Rightarrow> (Inl (StepFailed step), d)
   | LostAck \<Rightarrow> (Inl (StepFailed step), d\<lparr>dk_log := dk_log d @ [e]\<rparr>))"

definition call_when :: "bool \<Rightarrow> world_answers \<Rightarrow> string \<Rightarrow> effect \<Rightarrow> ('s desk, promotion_error, pyval option) proc" where
  "call_when b w step e = (if b then bind_p (call_store w step e) (\<lambda>v. ret_p (Some v)) else ret_p None)"

definition promote_effects ::
  "world_answers \<Rightarrow> act_args \<Rightarrow> promotion_subject \<Rightarrow> string \<Rightarrow> string \<Rightarrow> settled \<Rightarrow>
     ('s desk, promotion_error, pydict) proc" where
  "promote_effects w a subject record_id domain st =
     (let i = su_ingest_id subject;
          edits = (case aa_row_edits a of Some es \<Rightarrow> es | None \<Rightarrow> []);
          ms = (case se_mpns st of Some ms \<Rightarrow> ms | None \<Rightarrow> []);
          fact = promotion_fact (se_by st) record_id (se_at st) in
      bind_p (call_when (some_edits a) w ''row_edits'' (RowEdits i edits domain record_id)) (\<lambda>applied.
      bind_p (call_when (some_mpns (se_mpns st)) w ''reconcile'' (EdgesRemoved i ms domain)) (\<lambda>n.
      bind_p (call_when (some_edits a \<or> some_mpns (se_mpns st)) w ''corrections''
        (CorrectionEmitted i (correction_record subject record_id domain (se_by st) (se_at st)
           (aa_row_edits a) (se_mpns st)))) (\<lambda>key.
      bind_p (call_store w ''graph'' (FactWritten i fact)) (\<lambda>_.
      bind_p (call_store w ''origin'' (OriginAttested i domain record_id)) (\<lambda>origin.
        ret_p ([(''fact'', PDict fact), (''origin'', origin)]
          @ (case applied of Some v \<Rightarrow> [(''row_edits_applied'', v)] | None \<Rightarrow> [])
          @ (case se_mpns st of
               Some _ \<Rightarrow> [(''reconciled'', PDict [(''removed'', case n of Some v \<Rightarrow> v | None \<Rightarrow> PInt 0), (''mpns'', PList ms)])]
             | None \<Rightarrow> [])
          @ (case key of Some v \<Rightarrow> [(''correction'', PDict [(''key'', v)])] | None \<Rightarrow> []))))))))"

definition reject_effects ::
  "world_answers \<Rightarrow> promotion_subject \<Rightarrow> ('s desk, promotion_error, pydict) proc" where
  "reject_effects w subject =
     (let i = su_ingest_id subject in
      bind_p (call_store w ''graph'' (GraphSwept i)) (\<lambda>graph.
      bind_p (call_store w ''indexes'' (IndexesSwept i)) (\<lambda>indexes.
      bind_p (call_store w ''objects'' (ObjectsMoved i (su_object_ref subject))) (\<lambda>objects.
        ret_p [(''swept'', PDict [(''graph'', graph), (''indexes'', indexes), (''objects'', objects)])]))))"

definition effect_incomplete :: promotion_error where
  "effect_incomplete = Refuse ''promotion_effect_incomplete'' 503"

definition apply_decision ::
  "world_answers \<Rightarrow> act_args \<Rightarrow> promotion_subject \<Rightarrow> string \<Rightarrow> string \<Rightarrow> settled \<Rightarrow>
     ('s desk, promotion_error, pydict) proc" where
  "apply_decision w a subject record_id domain st =
     catch_p (if aa_decision a = PROMOTED then promote_effects w a subject record_id domain st
              else reject_effects w subject)
       (\<lambda>_. raise_p effect_incomplete)"

definition act ::
  "(pydict \<Rightarrow> string \<Rightarrow> int \<Rightarrow> 's \<Rightarrow> ledger_answer \<times> 's) \<Rightarrow> world_answers \<Rightarrow> act_args \<Rightarrow> pyval \<Rightarrow>
     ('s desk, promotion_error, pydict) proc" where
  "act put w a payload =
     bind_p (lift_p (preflight w a payload)) (\<lambda>(subject, domain, rc).
     bind_p (lift_p (build_record (wa_sha w) subject a rc)) (\<lambda>rec.
     bind_p (settle_record put w a rc rec) (\<lambda>st.
     bind_p (apply_decision w a subject (str_or_nil (dget rec ''record_id'')) domain st) (\<lambda>out.
       ret_p ([(''decision'', PStr (aa_decision a)), (''ingest_id'', PStr (su_ingest_id subject)),
               (''record_id'', dget rec ''record_id''), (''replayed'', PBool (se_replayed st))] @ out)))))"

subsection \<open>No effect without its record\<close>

fun effect_id :: "effect \<Rightarrow> string" where
  "effect_id (RowEdits i es dm rid) = i"
| "effect_id (EdgesRemoved i ms dm) = i"
| "effect_id (CorrectionEmitted i c) = i"
| "effect_id (FactWritten i f) = i"
| "effect_id (OriginAttested i dm rid) = i"
| "effect_id (GraphSwept i) = i"
| "effect_id (IndexesSwept i) = i"
| "effect_id (ObjectsMoved i ref) = i"

fun effect_verb :: "effect \<Rightarrow> string" where
  "effect_verb (GraphSwept i) = REJECTED"
| "effect_verb (IndexesSwept i) = REJECTED"
| "effect_verb (ObjectsMoved i ref) = REJECTED"
| "effect_verb e = PROMOTED"

text \<open>The effect carries the actor and the time of the row.\<close>

fun says :: "ledger_row \<Rightarrow> effect \<Rightarrow> bool" where
  "says r (FactWritten i f) \<longleftrightarrow> f = promotion_fact (lr_by r) (lr_record_id r) (lr_at r)"
| "says r (CorrectionEmitted i c) \<longleftrightarrow> dget c ''acted_by'' = PStr (lr_by r) \<and> dget c ''acted_at'' = PInt (lr_at r)"
| "says r e \<longleftrightarrow> True"

definition backs :: "(string \<Rightarrow> string) \<Rightarrow> effect \<Rightarrow> ledger_row \<Rightarrow> bool" where
  "backs sha e r \<longleftrightarrow> lr_record_id r = record_id_for sha (effect_id e) \<and> lr_decision r = effect_verb e \<and> says r e"

definition all_backed :: "(string \<Rightarrow> string) \<Rightarrow> ledger_row list \<Rightarrow> effect list \<Rightarrow> bool" where
  "all_backed sha rs es \<longleftrightarrow> (\<forall>e \<in> set es. \<exists>r \<in> set rs. backs sha e r)"

lemma act_run:
  "act put w a payload d = (case preflight w a payload of
     Inl e \<Rightarrow> (Inl e, d)
   | Inr (subject, domain, rc) \<Rightarrow> (case build_record (wa_sha w) subject a rc of
         Inl e \<Rightarrow> (Inl e, d)
       | Inr rec \<Rightarrow> (case put rec (aa_acted_by a) (aa_now a) (dk_ledger d) of
             (ans, l) \<Rightarrow> (case settle_answer w a rc ans of
                 Inl e \<Rightarrow> (Inl e, d\<lparr>dk_ledger := l\<rparr>)
               | Inr st \<Rightarrow> bind_p (apply_decision w a subject (str_or_nil (dget rec ''record_id'')) domain st) (\<lambda>out.
                   ret_p ([(''decision'', PStr (aa_decision a)), (''ingest_id'', PStr (su_ingest_id subject)),
                     (''record_id'', dget rec ''record_id''), (''replayed'', PBool (se_replayed st))] @ out))
                   (d\<lparr>dk_ledger := l\<rparr>)))))"
  by (auto simp: act_def settle_record_def bind_p_def lift_p_def split: sum.split prod.split)

lemma settle_answer_Inr:
  "settle_answer w a rc ans = Inr st \<Longrightarrow>
     ans = Appended \<and> se_by st = aa_acted_by a \<and> se_at st = aa_now a \<or>
     (\<exists>e. ans = Conflict (Some e) \<and> ex_decision e = aa_decision a \<and> se_by st = ex_by e \<and> se_at st = ex_at e)"
  by (auto simp: settle_answer_def settle_conflict_def bind_r_Inr split: ledger_answer.splits option.splits)

lemma recorded_under: "recorded sha su a rc r \<Longrightarrow> under sha (su_ingest_id su) (aa_decision a) r"
  by (auto simp: recorded_def under_def)

lemma preflight_verb: "preflight w a payload = Inr r \<Longrightarrow> aa_decision a \<in> {PROMOTED, REJECTED}"
  by (auto simp: preflight_def bind_r_Inr VERBS_def)

definition log_inv :: "(effect \<Rightarrow> bool) \<Rightarrow> 's \<Rightarrow> 's desk \<Rightarrow> bool" where
  "log_inv Q l d \<longleftrightarrow> dk_ledger d = l \<and> (\<forall>e \<in> set (dk_log d). Q e)"

lemma keeps_call_store [keeps_rules]: "Q e \<Longrightarrow> keeps (log_inv Q l) (call_store w step e)"
  by (auto simp: keeps_def triple_def call_store_def log_inv_def split: fault.split)

lemma keeps_call_when [keeps_rules]: "Q e \<Longrightarrow> keeps (log_inv Q l) (call_when b w step e)"
  unfolding call_when_def by (cases b) (auto intro!: keeps_rules)

lemma correction_record_says:
  "dget (correction_record su rid dm by_who at_ms es ms) ''acted_by'' = PStr by_who"
  "dget (correction_record su rid dm by_who at_ms es ms) ''acted_at'' = PInt at_ms"
  by (simp_all add: correction_record_def dget_Cons)

lemma keeps_apply:
  assumes "aa_decision a \<in> {PROMOTED, REJECTED}"
    and "\<And>e. effect_id e = su_ingest_id su \<Longrightarrow> effect_verb e = aa_decision a \<Longrightarrow>
       (\<And>r. lr_by r = se_by st \<Longrightarrow> lr_at r = se_at st \<Longrightarrow> lr_record_id r = rid \<Longrightarrow> says r e) \<Longrightarrow> Q e"
  shows "keeps (log_inv Q l) (apply_decision w a su rid dm st)"
proof (cases "aa_decision a = PROMOTED")
  case True
  have "keeps (log_inv Q l) (promote_effects w a su rid dm st)"
    unfolding promote_effects_def Let_def
    by (intro keeps_rules; rule assms(2)) (use True in \<open>auto simp: correction_record_says\<close>)
  then show ?thesis unfolding apply_decision_def using True by (auto intro!: keeps_rules)
next
  case False
  then have r: "aa_decision a = REJECTED" using assms(1) by simp
  have "keeps (log_inv Q l) (reject_effects w su)"
    unfolding reject_effects_def Let_def
    by (intro keeps_rules; rule assms(2)) (use r in auto)
  then show ?thesis unfolding apply_decision_def using False by (auto intro!: keeps_rules)
qed

lemma apply_raises: "apply_decision w a su rid dm st d = (Inl e, d') \<Longrightarrow> e = effect_incomplete"
  by (auto simp: apply_decision_def catch_p_def raise_p_def split: prod.splits sum.splits)

context decision_ledger
begin

lemma act_keeps_backed:
  assumes w: "wa_sha w = sha" and k: "keyed sha (rows (dk_ledger d))"
    and b: "all_backed sha (rows (dk_ledger d)) (dk_log d)"
    and run: "act put w a payload d = (res, d')"
  shows "keyed sha (rows (dk_ledger d')) \<and> all_backed sha (rows (dk_ledger d')) (dk_log d')"
proof (cases "preflight w a payload")
  case (Inl e)
  with run k b show ?thesis by (simp add: act_run)
next
  case p: (Inr x)
  obtain su dm rc where x: "x = (su, dm, rc)" by (cases x)
  show ?thesis
  proof (cases "build_record (wa_sha w) su a rc")
    case (Inl e)
    with run k b p x show ?thesis by (simp add: act_run)
  next
    case r: (Inr rec)
    then have u: "under sha (su_ingest_id su) (aa_decision a) rec"
      using build_record_recorded recorded_under w by blast
    obtain ans l where al: "put rec (aa_acted_by a) (aa_now a) (dk_ledger d) = (ans, l)" by fastforce
    let ?d = "d\<lparr>dk_ledger := l\<rparr>"
    have k': "keyed sha (rows l)" by (rule put_keyed [OF al u k])
    have b': "all_backed sha (rows l) (dk_log d)"
      using b row_stays [OF al] by (auto simp: all_backed_def)
    show ?thesis
    proof (cases "settle_answer w a rc ans")
      case (Inl e)
      with run p x r al k' b' show ?thesis by (auto simp: act_run)
    next
      case st: (Inr st)
      from settle_answer_Inr [OF st] obtain r where r': "r \<in> set (rows l)" "lr_record_id r = record_id_for sha (su_ingest_id su)"
        "lr_decision r = aa_decision a" "lr_by r = se_by st" "lr_at r = se_at st"
        using answered_by_a_row [OF al u k] by metis
      have rid: "str_or_nil (dget rec ''record_id'') = lr_record_id r" using u r'(2) by (simp add: under_def str_or_nil_def)
      let ?Q = "\<lambda>e. \<exists>r \<in> set (rows l). backs sha e r"
      have keep: "keeps (log_inv ?Q l) (apply_decision w a su (lr_record_id r) dm st)"
        by (rule keeps_apply) (use preflight_verb [OF p] r' in \<open>auto simp: backs_def\<close>)
      have "log_inv ?Q l ?d" using b' by (simp add: log_inv_def all_backed_def)
      from keeps_snd [OF keep this] have "log_inv ?Q l (snd (apply_decision w a su (lr_record_id r) dm st ?d))" .
      moreover have "d' = snd (apply_decision w a su (lr_record_id r) dm st ?d)"
        using run p x r al st rid by (auto simp: act_run bind_p_def ret_p_def split: prod.splits sum.splits)
      ultimately show ?thesis using k' by (simp add: log_inv_def all_backed_def)
    qed
  qed
qed

lemma act_refusal:
  assumes "act put w a payload d = (Inl e, d')" and "e \<noteq> effect_incomplete"
    and "e \<noteq> Refuse ''decision_record_not_written'' 503"
  shows "d' = d"
  using assms
  by (auto simp: act_run bind_p_def ret_p_def settle_answer_def
      split: prod.splits sum.splits ledger_answer.splits dest: put_refused apply_raises)

end

subsection \<open>What a desk can come to\<close>

text \<open>The states of the ledger and the log that any sequence of acts reaches from an empty ledger.\<close>

inductive served :: "(pydict \<Rightarrow> string) \<Rightarrow> (string \<Rightarrow> string) \<Rightarrow> ledger_row list desk \<Rightarrow> bool"
  for dump sha where
  opened: "served dump sha \<lparr>dk_ledger = [], dk_log = []\<rparr>"
| acted: "served dump sha d \<Longrightarrow> wa_sha w = sha \<Longrightarrow> act (pg_append dump f) w a payload d = (res, d') \<Longrightarrow>
    served dump sha d'"

lemma served_backed:
  "served dump sha d \<Longrightarrow> keyed sha (dk_ledger d) \<and> all_backed sha (dk_ledger d) (dk_log d)"
proof (induction rule: served.induct)
  case opened
  then show ?case by (simp add: keyed_def all_backed_def)
next
  case (acted d w f a payload res d')
  then show ?case using pg.act_keeps_backed [of w sha d dump f a payload res d'] by blast
qed

text \<open>
  C2. No effect without its evidence: whatever sequence of acts, faults and retries led there, each
  effect ever made on a document is backed by exactly one row of the ledger, of that verb and under
  that document's id, and the promotion fact and the correction carry the row's actor and time.
\<close>

theorem every_effect_has_its_record:
  assumes "served dump sha d" and "e \<in> set (dk_log d)"
  shows "\<exists>!r. r \<in> set (dk_ledger d) \<and> backs sha e r"
proof -
  from served_backed [OF assms(1)] have k: "keyed sha (dk_ledger d)" and b: "all_backed sha (dk_ledger d) (dk_log d)"
    by blast+
  from b assms(2) obtain r where r: "r \<in> set (dk_ledger d)" "backs sha e r" by (auto simp: all_backed_def)
  show ?thesis
  proof (rule ex1I [of _ r])
    show "r \<in> set (dk_ledger d) \<and> backs sha e r" using r by blast
    fix r' assume "r' \<in> set (dk_ledger d) \<and> backs sha e r'"
    then show "r' = r" using pg.one_row_per_id [OF k] r by (simp add: backs_def)
  qed
qed

text \<open>
  C13. One document takes one decision: a document one of whose effects is a promotion's is never
  swept from the graph or the indexes nor moved, and a swept one is never promoted.
\<close>

theorem promoted_is_never_swept:
  assumes "served dump sha d" and "e \<in> set (dk_log d)" and "e' \<in> set (dk_log d)" and "effect_id e = effect_id e'"
  shows "effect_verb e = effect_verb e'"
proof -
  from served_backed [OF assms(1)] have k: "keyed sha (dk_ledger d)" and b: "all_backed sha (dk_ledger d) (dk_log d)"
    by blast+
  from b assms(2,3) obtain r r' where "r \<in> set (dk_ledger d)" "backs sha e r" "r' \<in> set (dk_ledger d)" "backs sha e' r'"
    unfolding all_backed_def by blast
  with pg.one_row_per_id [OF k] assms(4) show ?thesis by (fastforce simp: backs_def)
qed

text \<open>
  C15. A refusal leaves nothing behind: unless the append itself was not acknowledged or an effect
  failed after the record, a refused act changed neither the ledger nor the world.
\<close>

theorem refusal_leaves_nothing:
  assumes "act (pg_append dump f) w a payload d = (Inl e, d')" and "e \<noteq> effect_incomplete"
    and "e \<noteq> Refuse ''decision_record_not_written'' 503"
  shows "d' = d"
  using assms by (rule pg.act_refusal)

text \<open>The dropper of a document, or whom it was dropped for.\<close>

lemma preflight_dropper:
  assumes "preflight w a payload = Inr r" and "aa_decision a = PROMOTED"
  shows "aa_acted_by a \<notin> set (excluded_attesters payload)"
  using assms by (auto simp: preflight_def bind_r_Inr)

text \<open>
  Nobody attests the origin of a document they dropped: an act by the dropper, or on behalf of
  whom it was dropped, is refused and nothing is written; and no act promotes without a yes of the
  decider for that very audience and actor.
\<close>

theorem only_others_promote:
  assumes "aa_decision a = PROMOTED"
    and "aa_acted_by a \<in> set (excluded_attesters payload) \<or> wa_can_act w (aa_audience a) (aa_acted_by a) \<noteq> AuthYes"
  shows "\<exists>e. act put w a payload d = (Inl e, d)"
proof (cases "preflight w a payload")
  case (Inl e)
  then show ?thesis by (simp add: act_run)
next
  case (Inr r)
  with preflight_dropper [OF Inr assms(1)] assms(2) have "wa_can_act w (aa_audience a) (aa_acted_by a) \<noteq> AuthYes" by blast
  with Inr show ?thesis
    by (auto simp: preflight_def bind_r_Inr may_act_def split: if_splits authz_answer.splits)
qed

text \<open>A healthy world: every step of the effect answers.\<close>

lemma call_store_healthy:
  "wa_step w step = Healthy \<Longrightarrow> call_store w step e d = (Inr (wa_answer w step), d\<lparr>dk_log := dk_log d @ [e]\<rparr>)"
  by (simp add: call_store_def)

lemma call_when_healthy:
  "wa_step w step = Healthy \<Longrightarrow> \<exists>v es. call_when b w step e d = (Inr v, d\<lparr>dk_log := dk_log d @ es\<rparr>)"
  by (cases b) (auto simp: call_when_def call_store_healthy bind_p_def ret_p_def intro: exI [of _ "[]"])

lemma promote_effects_healthy:
  assumes h: "\<And>s. wa_step w s = Healthy"
  shows "\<exists>out es. promote_effects w a su rid dm st d = (Inr out, d\<lparr>dk_log := dk_log d @ es\<rparr>) \<and>
     FactWritten (su_ingest_id su) (promotion_fact (se_by st) rid (se_at st)) \<in> set es \<and>
     OriginAttested (su_ingest_id su) dm rid \<in> set es"
proof -
  define edits where "edits = (case aa_row_edits a of Some es \<Rightarrow> es | None \<Rightarrow> [])"
  define ms where "ms = (case se_mpns st of Some ms \<Rightarrow> ms | None \<Rightarrow> [])"
  obtain v1 e1 where 1: "call_when (some_edits a) w ''row_edits'' (RowEdits (su_ingest_id su) edits dm rid) d
      = (Inr v1, d\<lparr>dk_log := dk_log d @ e1\<rparr>)" using call_when_healthy [OF h] by blast
  let ?d1 = "d\<lparr>dk_log := dk_log d @ e1\<rparr>"
  obtain v2 e2 where 2: "call_when (some_mpns (se_mpns st)) w ''reconcile'' (EdgesRemoved (su_ingest_id su) ms dm) ?d1
      = (Inr v2, ?d1\<lparr>dk_log := dk_log ?d1 @ e2\<rparr>)" using call_when_healthy [OF h] by blast
  let ?d2 = "?d1\<lparr>dk_log := dk_log ?d1 @ e2\<rparr>"
  obtain v3 e3 where 3: "call_when (some_edits a \<or> some_mpns (se_mpns st)) w ''corrections''
      (CorrectionEmitted (su_ingest_id su) (correction_record su rid dm (se_by st) (se_at st) (aa_row_edits a) (se_mpns st))) ?d2
      = (Inr v3, ?d2\<lparr>dk_log := dk_log ?d2 @ e3\<rparr>)" using call_when_healthy [OF h] by blast
  show ?thesis
    using 1 2 3 by (auto simp: promote_effects_def Let_def bind_p_def ret_p_def call_store_healthy [OF h]
        edits_def [symmetric] ms_def [symmetric])
qed

text \<open>
  A retry finishes the job. When the ledger already holds this document's row, of the same
  decision and with the edits and the coverage of the act, an act whose preflight passes and whose
  stores answer returns as a replay, writes the fact with the actor and the time of the stored row
  and attests the origin, and leaves the ledger as it was.
\<close>

theorem retry_completes_the_promotion:
  assumes "aa_decision a = PROMOTED" and "preflight w a payload = Inr (su, dm, rc)"
    and "build_record (wa_sha w) su a rc = Inr rec" and "keyed (wa_sha w) (dk_ledger d)"
    and "r \<in> set (dk_ledger d)" and "lr_ingest_id r = su_ingest_id su"
    and "settle_conflict w a (Some (existing_of r)) = Inr st" and "\<And>s. wa_step w s = Healthy"
  shows "\<exists>out d'. act (pg_append dump Healthy) w a payload d = (Inr out, d') \<and> dk_ledger d' = dk_ledger d \<and>
     dget out ''replayed'' = PBool True \<and>
     FactWritten (su_ingest_id su) (promotion_fact (lr_by r) (lr_record_id r) (lr_at r)) \<in> set (dk_log d') \<and>
     OriginAttested (su_ingest_id su) dm (lr_record_id r) \<in> set (dk_log d')"
proof -
  let ?row = "row_of dump rec (aa_acted_by a) (aa_now a)"
  have u: "under (wa_sha w) (su_ingest_id su) (aa_decision a) rec"
    using build_record_recorded [OF assms(3)] recorded_under by blast
  have rid: "str_or_nil (dget rec ''record_id'') = lr_record_id r"
    using u assms(4-6) by (auto simp: under_def keyed_def str_or_nil_def)
  have same: "same_key ?row r" using row_of_under [OF u, of dump] assms(6) by (simp add: same_key_def)
  then obtain r' where r': "find (same_key ?row) (dk_ledger d) = Some r'"
    using assms(5) by (cases "find (same_key ?row) (dk_ledger d)") (auto simp: find_None_iff)
  then have "r' \<in> set (dk_ledger d)" "same_key ?row r'" by (auto simp: find_Some_iff)
  then have "lr_record_id r' = lr_record_id r"
    using row_of_under [OF u, of dump] assms(4-6) by (auto simp: same_key_def keyed_def)
  with \<open>r' \<in> set (dk_ledger d)\<close> have [simp]: "r' = r" using pg.one_row_per_id [OF assms(4)] assms(5) by blast
  have "list_ex (same_key ?row) (dk_ledger d)" using same assms(5) by (auto simp: list_ex_iff)
  then have put: "pg_append dump Healthy rec (aa_acted_by a) (aa_now a) (dk_ledger d) =
      (Conflict (Some (existing_of r)), dk_ledger d)" using r' by (simp add: pg_append_def Let_def)
  from assms(7) have st: "se_by st = lr_by r" "se_at st = lr_at r" "se_replayed st"
    by (auto simp: settle_conflict_def bind_r_Inr existing_of_def)
  obtain out es where run: "promote_effects w a su (lr_record_id r) dm st d = (Inr out, d\<lparr>dk_log := dk_log d @ es\<rparr>)"
    and es: "FactWritten (su_ingest_id su) (promotion_fact (lr_by r) (lr_record_id r) (lr_at r)) \<in> set es"
      "OriginAttested (su_ingest_id su) dm (lr_record_id r) \<in> set es"
    using promote_effects_healthy [OF assms(8), of a su "lr_record_id r" dm st d] st by auto
  have ap: "apply_decision w a su (lr_record_id r) dm st d = (Inr out, d\<lparr>dk_log := dk_log d @ es\<rparr>)"
    using run assms(1) by (simp add: apply_decision_def catch_p_def)
  have "settle_answer w a rc (Conflict (Some (existing_of r))) = Inr st" using assms(7) by (simp add: settle_answer_def)
  then have "act (pg_append dump Healthy) w a payload d =
     (Inr ([(''decision'', PStr (aa_decision a)), (''ingest_id'', PStr (su_ingest_id su)),
        (''record_id'', dget rec ''record_id''), (''replayed'', PBool (se_replayed st))] @ out), d\<lparr>dk_log := dk_log d @ es\<rparr>)"
    by (simp add: act_run assms(2,3) put rid bind_p_def ap ret_p_def)
  with es st show ?thesis by (auto simp: dget_Cons)
qed

subsection \<open>A promotion, its retry and a refusal\<close>

definition demo_id :: string where "demo_id = ''sha256:'' @ replicate 64 (CHR ''a'')"

definition demo_payload :: pyval where
  "demo_payload = PDict
     [(''ingest_id'', PStr demo_id), (''object_ref'', PStr (''ingress-user/pcn/'' @ replicate 64 (CHR ''a'') @ ''/n.pdf'')),
      (''content_kind'', PStr ''pcn''), (''pipeline_version'', PStr ''p@1''), (''format_fingerprint'', PStr ''a/b/v1''),
      (''standing'', PStr ''user''), (''extraction_ref'', PStr ''m.json''),
      (''dropped_by'', PDict [(''authz_id'', PStr ''lee'')])]"

definition demo_world :: world_answers where
  "demo_world = \<lparr>wa_rend = (\<lambda>_. []), wa_sha = (\<lambda>s. drop 7 s), wa_loads = (\<lambda>_. None), wa_shape = (\<lambda>_. None),
     wa_can_act = (\<lambda>_ _. AuthYes), wa_stores = [''ledger'', ''graph''], wa_node = Some True, wa_mpns = Some None,
     wa_step = (\<lambda>_. Healthy), wa_answer = (\<lambda>_. PNone)\<rparr>"

definition demo_args :: act_args where
  "demo_args = rec_args\<lparr>aa_row_edits := None\<rparr>"

definition empty_desk :: "ledger_row list desk" where
  "empty_desk = \<lparr>dk_ledger = [], dk_log = []\<rparr>"

definition demo_desk :: "ledger_row list desk" where
  "demo_desk = snd (act (pg_append (\<lambda>_. []) LostAck) demo_world demo_args demo_payload empty_desk)"

definition demo_desk2 :: "ledger_row list desk" where
  "demo_desk2 = snd (act (pg_append (\<lambda>_. []) Healthy) demo_world demo_args demo_payload demo_desk)"

lemma served_demo: "served (\<lambda>_. []) (drop 7) demo_desk" "served (\<lambda>_. []) (drop 7) demo_desk2"
proof -
  have w: "wa_sha demo_world = drop 7" by (simp add: demo_world_def)
  have e: "served (\<lambda>_. []) (drop 7) empty_desk" unfolding empty_desk_def by (rule served.opened)
  show 1: "served (\<lambda>_. []) (drop 7) demo_desk" unfolding demo_desk_def
    by (rule served.acted [OF e w]) (rule prod.collapse [symmetric])
  show "served (\<lambda>_. []) (drop 7) demo_desk2" unfolding demo_desk2_def
    by (rule served.acted [OF 1 w]) (rule prod.collapse [symmetric])
qed

lemma demo_log: "map effect_verb (dk_log demo_desk2) = [PROMOTED, PROMOTED]"
  "map effect_id (dk_log demo_desk2) = [demo_id, demo_id]" "length (dk_ledger demo_desk2) = 1"
  by code_simp+

theorem every_effect_has_its_record_witness:
  "\<exists>e. e \<in> set (dk_log demo_desk2) \<and> (\<exists>!r. r \<in> set (dk_ledger demo_desk2) \<and> backs (drop 7) e r)"
proof -
  from demo_log(1) have "dk_log demo_desk2 \<noteq> []" by auto
  then obtain e where e: "e \<in> set (dk_log demo_desk2)" by (meson list.set_sel(1))
  from every_effect_has_its_record [OF served_demo(2) e] e show ?thesis by blast
qed

theorem promoted_is_never_swept_witness:
  "\<exists>e e'. e \<in> set (dk_log demo_desk2) \<and> e' \<in> set (dk_log demo_desk2) \<and> effect_verb e = effect_verb e'"
proof -
  from demo_log(2) obtain e e' where l: "dk_log demo_desk2 = [e, e']" and i: "effect_id e = effect_id e'" by auto
  then have "e \<in> set (dk_log demo_desk2)" "e' \<in> set (dk_log demo_desk2)" by auto
  with promoted_is_never_swept [OF served_demo(2) this i] show ?thesis by blast
qed

theorem refusal_leaves_nothing_witness:
  "\<exists>e. act (pg_append (\<lambda>_. []) Healthy) (demo_world\<lparr>wa_node := Some False\<rparr>) demo_args demo_payload empty_desk = (Inl e, empty_desk)"
proof -
  let ?run = "act (pg_append (\<lambda>_. []) Healthy) (demo_world\<lparr>wa_node := Some False\<rparr>) demo_args demo_payload empty_desk"
  have "(case fst ?run of Inl e \<Rightarrow> e \<noteq> effect_incomplete \<and> e \<noteq> Refuse ''decision_record_not_written'' 503 | Inr _ \<Rightarrow> False)"
    by code_simp
  then obtain e where e: "fst ?run = Inl e" "e \<noteq> effect_incomplete" "e \<noteq> Refuse ''decision_record_not_written'' 503"
    by (auto split: sum.splits)
  then have run: "?run = (Inl e, snd ?run)" by (metis prod.collapse)
  from refusal_leaves_nothing [OF run e(2,3)] run show ?thesis by (metis prod.collapse)
qed

theorem only_others_promote_witness:
  "\<exists>e. act (pg_append (\<lambda>_. []) Healthy) demo_world (demo_args\<lparr>aa_acted_by := ''lee''\<rparr>) demo_payload empty_desk = (Inl e, empty_desk)"
proof -
  have "aa_decision (demo_args\<lparr>aa_acted_by := ''lee''\<rparr>) = PROMOTED" by code_simp
  moreover have "''lee'' \<in> set (excluded_attesters demo_payload)"
    by (simp add: excluded_attesters_def demo_payload_def dget_Cons dict_or_nil_def str_or_nil_def)
  ultimately show ?thesis using only_others_promote [of "demo_args\<lparr>aa_acted_by := ''lee''\<rparr>" demo_payload demo_world] by simp
qed

theorem retry_completes_the_promotion_witness:
  "\<exists>out d'. \<exists>r :: ledger_row. act (pg_append (\<lambda>_. []) Healthy) demo_world (demo_args\<lparr>aa_acted_by := ''pat'', aa_now := 9\<rparr>) demo_payload demo_desk
      = (Inr out, d') \<and> dk_log demo_desk = [] \<and> lr_by r = ''kim'' \<and> lr_at r = 7 \<and>
     FactWritten demo_id (promotion_fact (lr_by r) (lr_record_id r) (lr_at r)) \<in> set (dk_log d')"
proof -
  let ?a = "demo_args\<lparr>aa_acted_by := ''pat'', aa_now := 9\<rparr>"
  have "(case preflight demo_world ?a demo_payload of Inr (su, dm, rc) \<Rightarrow>
      su_ingest_id su = demo_id \<and> ok (build_record (wa_sha demo_world) su ?a rc) | Inl e \<Rightarrow> False)" by code_simp
  then obtain su dm rc rec where p: "preflight demo_world ?a demo_payload = Inr (su, dm, rc)"
    and su: "su_ingest_id su = demo_id" and rec: "build_record (wa_sha demo_world) su ?a rc = Inr rec"
    by (auto simp: ok_iff split: sum.splits prod.splits)
  have l: "map (\<lambda>r. (lr_ingest_id r, lr_by r, lr_at r)) (dk_ledger demo_desk) = [(demo_id, ''kim'', 7)]"
    "length (dk_log demo_desk) = 0" "ok (settle_conflict demo_world ?a (Some (existing_of (hd (dk_ledger demo_desk)))))"
    by code_simp+
  from l(1) obtain r where r: "dk_ledger demo_desk = [r]" "lr_ingest_id r = demo_id" "lr_by r = ''kim''" "lr_at r = 7" by auto
  from l(3) r(1) obtain st where st: "settle_conflict demo_world ?a (Some (existing_of r)) = Inr st" by (auto simp: ok_iff)
  have k: "keyed (wa_sha demo_world) (dk_ledger demo_desk)"
    using served_backed [OF served_demo(1)] by (simp add: demo_world_def)
  have d: "aa_decision ?a = PROMOTED" "\<And>s. wa_step demo_world s = Healthy" by (simp_all add: demo_args_def rec_args_def demo_world_def)
  have "r \<in> set (dk_ledger demo_desk)" "lr_ingest_id r = su_ingest_id su" using r su by simp_all
  from retry_completes_the_promotion [OF d(1) p rec k this st d(2), of "\<lambda>_. []"] obtain out and d' :: "ledger_row list desk"
    where run: "act (pg_append (\<lambda>_. []) Healthy) demo_world ?a demo_payload demo_desk = (Inr out, d')"
      and f: "FactWritten demo_id (promotion_fact (lr_by r) (lr_record_id r) (lr_at r)) \<in> set (dk_log d')"
    unfolding su by blast
  have "dk_log demo_desk = []" using l(2) by simp
  with run f r(3,4) show ?thesis by blast
qed

end
