(* ===== verification/Authorization.thy ===== *)
theory Authorization
  imports Mesh_Prelude
begin

text \<open>
  Asking the policy decision point: \<^verbatim>\<open>agent_fleet/utils/pdp_answer.py\<close>, the gates of
  \<^verbatim>\<open>src/iagent/human_tasks.py\<close>, the entitlement matrix and its cache of
  \<^verbatim>\<open>src/iagent/authz/topaz_client.py\<close>, the door of \<^verbatim>\<open>src/iagent/authz/call_capability.py\<close>.

  The directory is an argument: what it answers to a question. \<open>Unreachable\<close> is a transport error,
  \<open>Answered s b\<close> an HTTP status with its body, \<open>None\<close> a body that is not JSON; \<open>Broken v\<close> is a
  call that raised an exception of the program that is no \<open>httpx.HTTPError\<close>, a \<open>ValueError\<close> when \<open>v\<close>. A listing in pages is
  the list of its answers, in order. An outage raises \<open>Unavailable\<close>, with the status when a status
  error caused it; a deployment without a directory raises \<open>Unconfigured\<close>, and a
  body the client cannot read where nothing checks it raises \<open>Defect\<close>. The ids of a listing are strings.
\<close>

subsection \<open>A strict answer\<close>

datatype http_answer = Unreachable | Broken bool | Answered int "pyval option"

datatype gate_error = Unavailable "int option" | Unconfigured | Defect

definition strict_field :: "pydict \<Rightarrow> string \<Rightarrow> bool option" where
  "strict_field obj field =
     (if \<not> has_key obj field then Some False
      else (case dget obj field of PBool b \<Rightarrow> Some b | _ \<Rightarrow> None))"

definition body_of :: "pyval option \<Rightarrow> pydict option" where
  "body_of body = (case body of Some (PDict d) \<Rightarrow> Some d | _ \<Rightarrow> None)"

definition check_answer :: "pyval option \<Rightarrow> bool option" where
  "check_answer body = (case body_of body of Some d \<Rightarrow> strict_field d ''check'' | None \<Rightarrow> None)"

fun find_decision :: "string \<Rightarrow> pyval list \<Rightarrow> bool option" where
  "find_decision name [] = Some False"
| "find_decision name (v # vs) = (case v of
     PDict d \<Rightarrow> if dget d ''decision'' = PStr name then strict_field d ''is'' else find_decision name vs
   | _ \<Rightarrow> None)"

definition decision_answer :: "pyval option \<Rightarrow> string \<Rightarrow> bool option" where
  "decision_answer body name = (case body_of body of
     None \<Rightarrow> None
   | Some d \<Rightarrow> (case dget d ''decisions'' of
         PNone \<Rightarrow> find_decision name []
       | PList vs \<Rightarrow> find_decision name vs
       | _ \<Rightarrow> None))"

definition success :: "int \<Rightarrow> bool" where
  "success s \<longleftrightarrow> 200 \<le> s \<and> s < 300"

subsection \<open>The gates\<close>

text \<open>\<open>raise_for_status\<close>, then the strict answer.\<close>

definition read_check :: "http_answer \<Rightarrow> gate_error + bool" where
  "read_check r = (case r of
     Unreachable \<Rightarrow> Inl (Unavailable None)
   | Broken _ \<Rightarrow> Inl Defect
   | Answered s body \<Rightarrow>
       if \<not> success s then Inl (Unavailable (Some s))
       else (case check_answer body of Some b \<Rightarrow> Inr b | None \<Rightarrow> Inl (Unavailable None)))"

definition not_found :: "http_answer \<Rightarrow> bool" where
  "not_found r = (case r of Answered s _ \<Rightarrow> s = 404 | _ \<Rightarrow> False)"

text \<open>\<open>except (httpx.HTTPError, ValueError)\<close>: a \<open>ValueError\<close> of the call is the outage class too.\<close>

definition outage_class :: "http_answer \<Rightarrow> http_answer" where
  "outage_class r = (if r = Broken True then Unreachable else r)"

type_synonym directory = "string \<Rightarrow> string \<Rightarrow> string \<Rightarrow> string \<Rightarrow> http_answer"

definition can_act_or_unavailable :: "directory option \<Rightarrow> string \<Rightarrow> string \<Rightarrow> gate_error + bool" where
  "can_act_or_unavailable dir audience caller_id =
     (if caller_id = [] then Inr False
      else (case dir of
          None \<Rightarrow> Inl Unconfigured
        | Some ask \<Rightarrow> read_check (outage_class (ask ''task_audience'' audience ''can_act'' caller_id))))"

definition check_can_act :: "directory option \<Rightarrow> string \<Rightarrow> string \<Rightarrow> gate_error + bool" where
  "check_can_act dir audience caller_id = (case can_act_or_unavailable dir audience caller_id of
     Inr b \<Rightarrow> Inr b
   | Inl (Unavailable s) \<Rightarrow> if s = Some 404 then Inr False else Inl (Unavailable s)
   | Inl _ \<Rightarrow> Inr False)"

definition read_capability :: "http_answer \<Rightarrow> gate_error + bool" where
  "read_capability r = (if not_found r then Inr False else read_check r)"

definition can_invoke_or_unavailable :: "directory option \<Rightarrow> string \<Rightarrow> string \<Rightarrow> gate_error + bool" where
  "can_invoke_or_unavailable dir capability caller_id =
     (if capability = [] \<or> caller_id = [] then Inr False
      else (case dir of None \<Rightarrow> Inl Unconfigured | Some ask \<Rightarrow> read_capability (outage_class (ask ''capability'' capability ''can_invoke'' caller_id))))"

definition check_can_invoke :: "directory option \<Rightarrow> string \<Rightarrow> string \<Rightarrow> gate_error + bool" where
  "check_can_invoke dir capability caller_id = (case dir of
     None \<Rightarrow> Inr False
   | Some ask \<Rightarrow> if capability = [] \<or> caller_id = [] then Inr False
       else (case read_capability (ask ''capability'' capability ''can_invoke'' caller_id) of
           Inr b \<Rightarrow> Inr b
         | Inl (Unavailable s) \<Rightarrow> Inl (Unavailable s)
         | Inl _ \<Rightarrow> Inr False))"

definition can_view_program :: "directory option \<Rightarrow> string \<Rightarrow> string \<Rightarrow> gate_error + bool" where
  "can_view_program dir program caller_id = (case dir of
     None \<Rightarrow> Inr False
   | Some ask \<Rightarrow> if program = [] \<or> caller_id = [] then Inr False
                 else read_check (ask ''program'' program ''can_view_program'' caller_id))"

definition capability_object_exists :: "(string \<Rightarrow> http_answer) option \<Rightarrow> string \<Rightarrow> gate_error + bool" where
  "capability_object_exists objs capability = (case objs of
     None \<Rightarrow> Inl Unconfigured
   | Some obj \<Rightarrow> (case obj capability of
         Unreachable \<Rightarrow> Inl (Unavailable None)
       | Broken _ \<Rightarrow> Inl Defect
       | Answered s _ \<Rightarrow> if s = 404 then Inr False
           else if \<not> success s then Inl (Unavailable None) else Inr True))"

text \<open>The refusal names the policy row and the missing binding; \<open>None\<close> lets the drop through.\<close>

definition can_drop_refusal ::
  "(string \<Rightarrow> http_answer) option \<Rightarrow> directory option \<Rightarrow> string \<Rightarrow> string \<Rightarrow> gate_error + (string \<times> string) option" where
  "can_drop_refusal objs dir kind dropper_id =
     (let capability = ''can_drop:'' @ kind in
      bind_r (capability_object_exists objs capability) (\<lambda>gated.
      if \<not> gated then Inr None
      else bind_r (can_invoke_or_unavailable dir capability dropper_id) (\<lambda>yes.
        Inr (if yes then None
             else Some (''capability_grants:'' @ capability, ''can_invoke('' @ capability @ '')'')))))"

subsection \<open>The door\<close>

datatype door_answer = Through | NotOnSurface | NotEntitled string | DoorUnconfigured | DoorUnavailable | DoorDefect

fun every_tag :: "directory option \<Rightarrow> string \<Rightarrow> string list \<Rightarrow> door_answer" where
  "every_tag dir who [] = Through"
| "every_tag dir who (t # ts) = (case can_invoke_or_unavailable dir (''can_call:'' @ t) who of
     Inl Unconfigured \<Rightarrow> DoorUnconfigured
   | Inl (Unavailable _) \<Rightarrow> DoorUnavailable
   | Inl Defect \<Rightarrow> DoorDefect
   | Inr True \<Rightarrow> every_tag dir who ts
   | Inr False \<Rightarrow> NotEntitled t)"

text \<open>
  \<open>tags\<close> are the matched route's, \<open>None\<close> when no route matched; \<open>sorted(set(tags))\<close> is the order of
  \<open>py_sort\<close>, an argument of which only the elements matter.
\<close>

definition door_decide ::
  "(string list \<Rightarrow> string list) \<Rightarrow> string \<Rightarrow> directory option \<Rightarrow> string list option \<Rightarrow> string \<Rightarrow> door_answer" where
  "door_decide py_sort mcp_tag dir tags who = (case tags of
     None \<Rightarrow> NotOnSurface
   | Some ts \<Rightarrow> if mcp_tag \<notin> set ts then NotOnSurface else every_tag dir who (py_sort (remdups ts)))"

definition door_clients :: "string \<Rightarrow> string list" where
  "door_clients raw = filter (\<lambda>p. p \<noteq> []) (map py_strip (py_split (CHR '','') raw))"

text \<open>
  The middleware: \<open>ident\<close> is the verified identity and client of the token, \<open>None\<close> when there is no
  token or it does not verify. \<open>Through\<close> is the request handed on to the app.
\<close>

definition door_guard ::
  "(string list \<Rightarrow> string list) \<Rightarrow> string \<Rightarrow> string \<Rightarrow> directory option \<Rightarrow> bool \<Rightarrow> (string \<times> string option) option \<Rightarrow>
     string list option \<Rightarrow> door_answer" where
  "door_guard py_sort mcp_tag raw dir is_http ident tags =
     (if \<not> is_http \<or> door_clients raw = [] then Through
      else (case ident of
          Some (who, Some azp) \<Rightarrow> if azp \<in> set (door_clients raw)
            then door_decide py_sort mcp_tag dir tags who else Through
        | _ \<Rightarrow> Through))"

subsection \<open>The entitlement matrix\<close>

type_synonym cell = "string \<times> string"

record entitlements =
  en_cells :: "cell list"
  en_source :: string

definition entitled :: "entitlements \<Rightarrow> string \<Rightarrow> string \<Rightarrow> bool" where
  "entitled e persona domain = list_ex (\<lambda>c. fst c = persona \<and> snd c = domain) (en_cells e)"

fun first_seen :: "'a list \<Rightarrow> 'a list \<Rightarrow> 'a list" where
  "first_seen seen [] = []"
| "first_seen seen (x # xs) = (if x \<in> set seen then first_seen seen xs else x # first_seen (x # seen) xs)"

definition personas :: "entitlements \<Rightarrow> string list" where
  "personas e = first_seen [] (map fst (en_cells e))"

definition domains_for :: "entitlements \<Rightarrow> string \<Rightarrow> string list" where
  "domains_for e persona = first_seen [] (map snd (filter (\<lambda>c. fst c = persona) (en_cells e)))"

definition relations_in :: "pydict \<Rightarrow> pydict list" where
  "relations_in body =
     List.map_filter (\<lambda>v. case v of PDict d \<Rightarrow> Some d | _ \<Rightarrow> None)
       (list_or_nil (if truthy (dget body ''results'') then dget body ''results'' else dget body ''relations''))"

text \<open>
  The pages of one listing: a 404 on any page answers the empty list, another status error or no
  answer is the outage, the last page has no token. Running out of answers is an outage too.
\<close>

fun listing :: "http_answer list \<Rightarrow> pydict list \<Rightarrow> gate_error + pydict list" where
  "listing [] acc = Inl (Unavailable None)"
| "listing (r # rs) acc = (case r of
     Unreachable \<Rightarrow> Inl (Unavailable None)
   | Broken _ \<Rightarrow> Inl Defect
   | Answered s body \<Rightarrow>
       if s = 404 then Inr []
       else if \<not> success s then Inl (Unavailable (Some s))
       else (case body_of body of
           None \<Rightarrow> Inl Defect
         | Some b \<Rightarrow>
             (let acc' = acc @ relations_in b in
              if truthy (dget (dict_or_nil (dget b ''page'')) ''next_token'') then listing rs acc' else Inr acc')))"

definition groups_in :: "pydict list \<Rightarrow> string list" where
  "groups_in rels = List.map_filter (\<lambda>d. if dget d ''object_type'' = PStr ''group'' then Some (str_or_nil (dget d ''object_id'')) else None) rels"

definition cells_in :: "pydict list \<Rightarrow> cell list" where
  "cells_in rels = List.map_filter (\<lambda>d. let i = str_or_nil (dget d ''object_id'') in
     if CHR '':'' \<in> set i then Some (before_first (CHR '':'') i, after_first (CHR '':'') i) else None) rels"

fun grants_of :: "(string \<Rightarrow> http_answer list) \<Rightarrow> string list \<Rightarrow> gate_error + cell list" where
  "grants_of pages [] = Inr []"
| "grants_of pages (g # gs) =
     bind_r (listing (pages g) []) (\<lambda>rels. bind_r (grants_of pages gs) (\<lambda>rest. Inr (cells_in rels @ rest)))"

definition get_entitlements ::
  "(string \<Rightarrow> http_answer list) \<Rightarrow> (string \<Rightarrow> http_answer list) \<Rightarrow> string \<Rightarrow> gate_error + entitlements" where
  "get_entitlements member_pages grant_pages user_id =
     bind_r (listing (member_pages user_id) []) (\<lambda>rels.
     bind_r (grants_of grant_pages (groups_in rels)) (\<lambda>cells.
       Inr \<lparr>en_cells = first_seen [] cells, en_source = ''topaz''\<rparr>))"

subsection \<open>The cache\<close>

record cached_entry =
  ce_entitlements :: entitlements
  ce_expires_at :: rat

type_synonym cache = "((string \<times> string) \<times> cached_entry) list"

definition evict_expired :: "rat \<Rightarrow> cache \<Rightarrow> cache" where
  "evict_expired threshold es = filter (\<lambda>p. \<not> ce_expires_at (snd p) < threshold) es"

definition cache_get ::
  "rat \<Rightarrow> (string \<Rightarrow> gate_error + entitlements) \<Rightarrow> string \<Rightarrow> string \<Rightarrow> rat \<Rightarrow> string option \<Rightarrow>
     (cache, gate_error, entitlements) proc" where
  "cache_get now fetch sub jti expiry lookup_key es =
     (let subject = (case lookup_key of Some k \<Rightarrow> if k = [] then sub else k | None \<Rightarrow> sub) in
      case map_of es (sub, jti) of
        Some e \<Rightarrow>
          if now < ce_expires_at e then (Inr (ce_entitlements e\<lparr>en_source := ''cache''\<rparr>), es)
          else (case fetch subject of
              Inl x \<Rightarrow> (Inl x, es)
            | Inr f \<Rightarrow> (Inr f, evict_expired (now - 60)
                (AList.update (sub, jti) \<lparr>ce_entitlements = f, ce_expires_at = expiry\<rparr> es)))
      | None \<Rightarrow> (case fetch subject of
              Inl x \<Rightarrow> (Inl x, es)
            | Inr f \<Rightarrow> (Inr f, evict_expired (now - 60)
                (AList.update (sub, jti) \<lparr>ce_entitlements = f, ce_expires_at = expiry\<rparr> es))))"

definition invalidate :: "string \<Rightarrow> string \<Rightarrow> cache \<Rightarrow> cache" where
  "invalidate sub jti es = AList.delete (sub, jti) es"

subsection \<open>What an answer says\<close>

definition says_yes :: "http_answer \<Rightarrow> bool" where
  "says_yes r \<longleftrightarrow> (case r of Answered s (Some (PDict d)) \<Rightarrow> success s \<and> map_of d ''check'' = Some (PBool True) | _ \<Rightarrow> False)"

definition says_no :: "http_answer \<Rightarrow> bool" where
  "says_no r \<longleftrightarrow> not_found r \<or> (case r of Answered s (Some (PDict d)) \<Rightarrow>
     success s \<and> (map_of d ''check'' = None \<or> map_of d ''check'' = Some (PBool False)) | _ \<Rightarrow> False)"

lemma check_answer_iff:
  "check_answer body = Some b \<longleftrightarrow>
     (\<exists>d. body = Some (PDict d) \<and> (map_of d ''check'' = Some (PBool b) \<or> map_of d ''check'' = None \<and> \<not> b))"
  by (auto simp: check_answer_def body_of_def strict_field_def has_key_def dget_def split: option.splits pyval.splits)

lemma read_check_Inr:
  "read_check r = Inr x \<longleftrightarrow> (\<exists>s b. r = Answered s b \<and> success s \<and> check_answer b = Some x)"
  by (auto simp: read_check_def split: http_answer.splits option.splits)

lemma says_yes_iff:
  "says_yes r \<longleftrightarrow> (\<exists>s d. r = Answered s (Some (PDict d)) \<and> success s \<and> map_of d ''check'' = Some (PBool True))"
  by (auto simp: says_yes_def split: http_answer.splits option.splits pyval.splits)

lemma says_no_iff:
  "says_no r \<longleftrightarrow> not_found r \<or> (\<exists>s d. r = Answered s (Some (PDict d)) \<and> success s \<and>
     (map_of d ''check'' = None \<or> map_of d ''check'' = Some (PBool False)))"
  by (auto simp: says_no_def split: http_answer.splits option.splits pyval.splits)

lemma read_check_yes: "read_check r = Inr True \<longleftrightarrow> says_yes r"
  unfolding read_check_Inr says_yes_iff check_answer_iff by blast

lemma read_check_no: "read_check r = Inr False \<Longrightarrow> says_no r"
  unfolding read_check_Inr says_no_iff check_answer_iff by blast

lemma says_yes_found: "says_yes r \<Longrightarrow> \<not> not_found r"
  by (auto simp: says_yes_iff not_found_def success_def)

lemma not_found_says_no: "not_found r \<Longrightarrow> says_no r"
  by (simp add: says_no_iff)

lemma read_capability_yes: "read_capability r = Inr True \<longleftrightarrow> says_yes r"
  by (auto simp: read_capability_def read_check_yes dest: says_yes_found)

lemma read_capability_no: "read_capability r = Inr False \<Longrightarrow> says_no r"
  by (auto simp: read_capability_def split: if_splits intro: not_found_says_no read_check_no)

definition outage :: "http_answer \<Rightarrow> int option" where
  "outage r = (case r of Answered s _ \<Rightarrow> if success s then None else Some s | _ \<Rightarrow> None)"

lemma read_check_reads:
  "read_check r = (if says_yes r then Inr True else if says_no r \<and> \<not> not_found r then Inr False
     else if r \<in> range Broken then Inl Defect else Inl (Unavailable (outage r)))"
proof (cases r)
  case (Answered s b)
  then show ?thesis
    by (cases "check_answer b")
       (auto simp: read_check_def check_answer_iff says_yes_iff says_no_iff not_found_def outage_def success_def,
        auto simp: check_answer_def body_of_def strict_field_def has_key_def dget_def split: option.splits pyval.splits)
qed (auto simp: read_check_def says_yes_def says_no_def not_found_def outage_def)

text \<open>
  C11. An outage is never an answer. With a directory configured and the question complete, a gate
  opens exactly on the literal \<open>true\<close> of a successful answer to the very question it asks. It says
  no when the directory said so, by a \<open>check\<close> that is false or absent or, at the two gates of tasks
  and effects, by a 404; and those two also say no when the program itself failed, by an exception
  that is not the outage class (at the gate of tasks, one that is no \<open>ValueError\<close> either). Every other
  answer, and no answer, raises, with the status when the directory gave one; the gate of programs
  raises the exception of the program as it is.
\<close>

theorem gates_answer_what_the_directory_said:
  assumes "dir = Some ask" and "audience \<noteq> []" and "who \<noteq> []"
  shows "(let r = ask ''task_audience'' audience ''can_act'' who in
       check_can_act dir audience who =
         (if says_yes r then Inr True else if says_no r \<or> r = Broken False then Inr False
          else Inl (Unavailable (outage r)))) \<and>
     (let r = ask ''capability'' audience ''can_invoke'' who in
       check_can_invoke dir audience who =
         (if says_yes r then Inr True else if says_no r \<or> r \<in> range Broken then Inr False
          else Inl (Unavailable (outage r)))) \<and>
     (let r = ask ''program'' audience ''can_view_program'' who in
       can_view_program dir audience who =
         (if says_yes r then Inr True else if says_no r \<and> \<not> not_found r then Inr False
          else if r \<in> range Broken then Inl Defect else Inl (Unavailable (outage r))))"
proof (intro conjI)
  let ?r = "ask ''task_audience'' audience ''can_act'' who"
  have act: "can_act_or_unavailable dir audience who = read_check (outage_class ?r)"
    using assms by (simp add: can_act_or_unavailable_def)
  show "let r = ?r in check_can_act dir audience who = (if says_yes r then Inr True
      else if says_no r \<or> r = Broken False then Inr False else Inl (Unavailable (outage r)))"
    by (cases ?r) (auto simp: check_can_act_def act outage_class_def read_check_reads outage_def says_yes_def
        says_no_def not_found_def success_def split: option.splits pyval.splits)
  let ?c = "ask ''capability'' audience ''can_invoke'' who"
  show "let r = ?c in check_can_invoke dir audience who = (if says_yes r then Inr True
      else if says_no r \<or> r \<in> range Broken then Inr False else Inl (Unavailable (outage r)))"
    using assms by (cases ?c) (auto simp: check_can_invoke_def read_capability_def read_check_reads outage_def
        says_yes_def says_no_def not_found_def success_def split: option.splits pyval.splits)
qed (use assms in \<open>simp add: Let_def can_view_program_def read_check_reads\<close>)

definition demo_directory :: directory where
  "demo_directory ot oid rel who = (if who = ''kim'' then Answered 200 (Some (PDict [(''check'', PBool True)]))
     else if who = ''lee'' then Answered 404 None else if who = ''max'' then Broken False else Answered 200 (Some (PDict [(''check'', PStr ''true'')])))"

theorem gates_answer_what_the_directory_said_witness:
  "check_can_act (Some demo_directory) ''a'' ''kim'' = Inr True \<and>
   check_can_act (Some demo_directory) ''a'' ''lee'' = Inr False \<and>
   check_can_act (Some demo_directory) ''a'' ''max'' = Inr False \<and>
   check_can_act (Some demo_directory) ''a'' ''pat'' = Inl (Unavailable None)"
proof -
  have "says_yes (demo_directory ''task_audience'' ''a'' ''can_act'' ''kim'')" by code_simp
  then have "check_can_act (Some demo_directory) ''a'' ''kim'' = Inr True"
    using gates_answer_what_the_directory_said [OF refl, of "''a''" "''kim''" demo_directory] by simp
  moreover have "check_can_act (Some demo_directory) ''a'' ''lee'' = Inr False"
    "check_can_act (Some demo_directory) ''a'' ''max'' = Inr False"
    "check_can_act (Some demo_directory) ''a'' ''pat'' = Inl (Unavailable None)" by code_simp+
  ultimately show ?thesis by blast
qed

lemma every_tag_Through:
  "every_tag dir who ts = Through \<longleftrightarrow> (\<forall>t \<in> set ts. can_invoke_or_unavailable dir (''can_call:'' @ t) who = Inr True)"
  by (induction ts) (auto split: sum.splits gate_error.splits bool.splits)

text \<open>
  A door only removes reach. A caller through a door gets to a route exactly when the route is
  on the surface and the directory says yes for every one of its tags; so a tag added to a route
  can only take callers away, and a caller that is no door client is never asked about.
\<close>

theorem door_only_narrows:
  assumes "\<And>ts. set (py_sort ts) = set ts"
  shows "(door_decide py_sort mcp dir tags who = Through \<longleftrightarrow>
       (\<exists>ts. tags = Some ts \<and> mcp \<in> set ts \<and>
         (\<forall>t \<in> set ts. can_invoke_or_unavailable dir (''can_call:'' @ t) who = Inr True))) \<and>
     (mcp \<in> set ts \<longrightarrow> set ts \<subseteq> set ts' \<longrightarrow> door_decide py_sort mcp dir (Some ts') who = Through \<longrightarrow>
       door_decide py_sort mcp dir (Some ts) who = Through)"
proof -
  have *: "door_decide py_sort mcp dir tags who = Through \<longleftrightarrow>
       (\<exists>ts. tags = Some ts \<and> mcp \<in> set ts \<and>
         (\<forall>t \<in> set ts. can_invoke_or_unavailable dir (''can_call:'' @ t) who = Inr True))" for tags
    by (auto simp: door_decide_def every_tag_Through assms split: option.splits)
  show ?thesis unfolding * by auto
qed

theorem door_only_narrows_witness:
  "door_decide (\<lambda>ts. ts) ''mcp'' (Some demo_directory) (Some [''mcp'', ''read'']) ''kim'' = Through \<and>
   door_decide (\<lambda>ts. ts) ''mcp'' (Some demo_directory) (Some [''mcp'']) ''kim'' = Through"
proof -
  have t: "door_decide (\<lambda>ts. ts) ''mcp'' (Some demo_directory) (Some [''mcp'', ''read'']) ''kim'' = Through" by code_simp
  have "door_decide (\<lambda>ts. ts) ''mcp'' (Some demo_directory) (Some [''mcp'']) ''kim'' = Through"
    using door_only_narrows [of "\<lambda>ts. ts" "''mcp''" "Some demo_directory" None "''kim''" "[''mcp'']" "[''mcp'', ''read'']"] t
    by simp
  with t show ?thesis by blast
qed

subsection \<open>What the cache serves\<close>

text \<open>A cache as its history of successful fetches: for which token, until when, and the matrix.\<close>

inductive cache_after :: "cache \<Rightarrow> ((string \<times> string) \<times> rat \<times> entitlements) list \<Rightarrow> bool" where
  fresh_cache: "cache_after [] []"
| fetched: "cache_after es hist \<Longrightarrow> fetch (case lk of Some k \<Rightarrow> if k = [] then sub else k | None \<Rightarrow> sub) = Inr f \<Longrightarrow>
    cache_get now fetch sub jti expiry lk es = (Inr f, es') \<Longrightarrow> cache_after es' (((sub, jti), expiry, f) # hist)"
| kept: "cache_after es hist \<Longrightarrow> cache_get now fetch sub jti expiry lk es = (r, es) \<Longrightarrow> cache_after es hist"
| dropped: "cache_after es hist \<Longrightarrow> cache_after (invalidate sub jti es) hist"

lemma cache_get_entries:
  "cache_get now fetch sub jti expiry lk es = (Inr f, es') \<Longrightarrow> p \<in> set es' \<Longrightarrow>
     p \<in> set es \<or> p = ((sub, jti), \<lparr>ce_entitlements = f, ce_expires_at = expiry\<rparr>)"
  by (auto simp: cache_get_def Let_def evict_expired_def split: option.splits if_splits sum.splits
      dest!: subsetD [OF set_update_subset])

lemma cache_after_entries:
  assumes "cache_after es hist" and "p \<in> set es"
  shows "(fst p, ce_expires_at (snd p), ce_entitlements (snd p)) \<in> set hist"
  using assms
proof (induction arbitrary: p rule: cache_after.induct)
  case (fetched es hist fetch lk sub f now jti expiry es')
  from cache_get_entries [OF fetched.hyps(3) fetched.prems] show ?case
  proof
    assume "p \<in> set es"
    from fetched.IH [OF this] show ?thesis by simp
  qed simp
next
  case (dropped es hist sub jti)
  then show ?case by (simp add: invalidate_def AList.delete_eq)
qed auto

text \<open>
  C19. The cache never outlives a token. A matrix it serves was answered by the directory just now,
  or was fetched for this very token and the token has not expired; and when nothing unexpired is
  held, an outage of the directory is raised, never answered from what is stale.
\<close>

theorem cache_never_outlives_the_token:
  assumes "cache_after es hist"
  shows "(fst (cache_get now fetch sub jti expiry lk es) = Inr e \<longrightarrow>
       fetch (case lk of Some k \<Rightarrow> if k = [] then sub else k | None \<Rightarrow> sub) = Inr e \<or>
       (\<exists>x f. ((sub, jti), x, f) \<in> set hist \<and> now < x \<and> e = f\<lparr>en_source := ''cache''\<rparr>)) \<and>
     (fetch (case lk of Some k \<Rightarrow> if k = [] then sub else k | None \<Rightarrow> sub) = Inl err \<longrightarrow>
       (\<forall>x f. ((sub, jti), x, f) \<in> set hist \<longrightarrow> x \<le> now) \<longrightarrow>
       cache_get now fetch sub jti expiry lk es = (Inl err, es))"
proof -
  have h: "((sub, jti), ce_expires_at c, ce_entitlements c) \<in> set hist" if "map_of es (sub, jti) = Some c" for c
    using cache_after_entries [OF assms map_of_SomeD [OF that]] by simp
  show ?thesis
    by (auto simp: cache_get_def Let_def not_less split: option.splits if_splits sum.splits dest!: h)
qed

theorem cache_never_outlives_the_token_witness:
  "\<exists>es hist. cache_after es hist \<and> hist \<noteq> [] \<and>
     cache_get 20 (\<lambda>_. Inl (Unavailable None)) ''u'' ''j'' 30 None es = (Inl (Unavailable None), es)"
proof -
  let ?f = "\<lparr>en_cells = [(''P'', ''D'')], en_source = ''topaz''\<rparr>"
  let ?es = "[((''u'', ''j''), \<lparr>ce_entitlements = ?f, ce_expires_at = 10\<rparr>)]"
  have "cache_get 5 (\<lambda>_. Inr ?f) ''u'' ''j'' 10 None [] = (Inr ?f, ?es)"
    by (simp add: cache_get_def evict_expired_def)
  then have c: "cache_after ?es [((''u'', ''j''), 10, ?f)]"
    by (intro cache_after.fetched [where es = "[]" and hist = "[]" and fetch = "\<lambda>_. Inr ?f" and lk = None] cache_after.fresh_cache) simp_all
  have "cache_get 20 (\<lambda>_. Inl (Unavailable None)) ''u'' ''j'' 30 None ?es = (Inl (Unavailable None), ?es)"
    using cache_never_outlives_the_token [OF c, where now = 20 and fetch = "\<lambda>_. Inl (Unavailable None)" and sub = "''u''"
      and jti = "''j''" and expiry = 30 and lk = None and err = "Unavailable None"]
    by simp
  with c show ?thesis by blast
qed

text \<open>
  A body that is not JSON is the outage class at every gate, but the matrix is read with \<open>r.json()\<close>
  under a handler for transport errors only: there it is a defect, not an outage.
\<close>

lemma unreadable_matrix_is_a_defect:
  "get_entitlements (\<lambda>_. [Answered 200 None]) pages who = Inl Defect \<and> read_check (Answered 200 None) = Inl (Unavailable None)"
  by (simp add: get_entitlements_def success_def body_of_def read_check_def check_answer_def)

end
