(* ===== verification/Human_Tasks.thy ===== *)
theory Human_Tasks
  imports Authorization "HOL-Library.List_Lexorder" "HOL-Library.Char_ord"
begin

text \<open>
  \<^verbatim>\<open>src/iagent/human_tasks.py\<close>: the queue of human tasks. A task is one row for each person the
  policy authorises to act on its audience; any one of them acts for all. The table is the list of
  its rows; an update is a map over it and its answer the number of rows it matched. The directory
  listings, the clock and the row ids are arguments. The species of tasks and the verbs they accept
  come from declarations: the seed that ships, and the composition with a deployment's overlays,
  \<open>None\<close> when that cannot be known.
\<close>

subsection \<open>Rows\<close>

record task_row =
  tr_id :: string
  tr_kind :: string
  tr_task :: string
  tr_workflow :: "string option"
  tr_audience :: string
  tr_recipient :: string
  tr_status :: string
  tr_title :: string
  tr_summary :: string
  tr_requested_by :: string
  tr_subject :: "string option"
  tr_payload :: pydict
  tr_acted_by :: "string option"
  tr_acted_at :: "int option"
  tr_decision :: "string option"
  tr_comment :: "string option"
  tr_created :: int
  tr_updated :: int
  tr_service :: "string option"
  tr_promise :: "string option"
  tr_case :: "string option"
  tr_on_behalf :: string

definition PENDING :: string where "PENDING = ''pending''"
definition SUPERSEDED :: string where "SUPERSEDED = ''superseded''"
definition TIMED_OUT :: string where "TIMED_OUT = ''timed_out''"

definition ALLOWED_WORKFLOW_SERVICES :: "string list" where
  "ALLOWED_WORKFLOW_SERVICES = [''BPMNWorkflowRunner'', ''SafetyAcceptance'', ''WorkflowRunner'']"

datatype task_error =
    DirectoryUnset
  | DirectoryFailed
  | NoRequester
  | UnknownWorkflowService
  | NoEntitledRecipients
  | TaskKindSetUnknown
  | InvalidDecisionForKind
  | NotAResolution

subsection \<open>Who may act\<close>

text \<open>A listing of the directory: the body of \<open>relations\<close> for an object and a relation, or a raise.\<close>

type_synonym relations = "string \<Rightarrow> string \<Rightarrow> string \<Rightarrow> pydict option"

definition add_actor :: "pyval \<Rightarrow> string list \<Rightarrow> string list" where
  "add_actor authz_id actors = (case authz_id of
     PStr s \<Rightarrow> if s \<noteq> [] \<and> s \<notin> set actors then actors @ [s] else actors
   | _ \<Rightarrow> actors)"

definition is_group_member :: "pydict \<Rightarrow> bool" where
  "is_group_member r \<longleftrightarrow> dget r ''subject_type'' = PStr ''group'' \<and> dget r ''subject_relation'' = PStr ''member'' \<and>
     truthy (dget r ''subject_id'')"

definition add_members :: "pydict list \<Rightarrow> string list \<Rightarrow> string list" where
  "add_members ms actors =
     fold (\<lambda>m. if dget m ''subject_type'' = PStr ''user'' then add_actor (dget m ''subject_id'') else id) ms actors"

fun add_relations :: "relations \<Rightarrow> pydict list \<Rightarrow> string list \<Rightarrow> task_error + string list" where
  "add_relations dir [] actors = Inr actors"
| "add_relations dir (r # rs) actors =
     (if dget r ''subject_type'' = PStr ''user'' then add_relations dir rs (add_actor (dget r ''subject_id'') actors)
      else if is_group_member r
      then (case dir ''group'' (str_or_nil (dget r ''subject_id'')) ''member'' of
          None \<Rightarrow> Inl DirectoryFailed
        | Some body \<Rightarrow> add_relations dir rs (add_members (relations_in body) actors))
      else add_relations dir rs actors)"

definition resolve_audience_actors :: "relations option \<Rightarrow> string \<Rightarrow> task_error + string list" where
  "resolve_audience_actors dir audience = (case dir of
     None \<Rightarrow> Inl DirectoryUnset
   | Some lst \<Rightarrow> (case lst ''task_audience'' audience ''actor'' of
         None \<Rightarrow> Inl DirectoryFailed
       | Some body \<Rightarrow> add_relations lst (relations_in body) []))"

subsection \<open>Registration\<close>

record task_request =
  rq_kind :: string
  rq_task :: string
  rq_audience :: string
  rq_title :: string
  rq_summary :: string
  rq_requested_by :: "string option"
  rq_workflow :: "string option"
  rq_subject :: "string option"
  rq_payload :: pydict
  rq_service :: "string option"
  rq_promise :: "string option"
  rq_excludes :: "string list"
  rq_case :: "string option"
  rq_on_behalf :: string

definition new_row :: "task_request \<Rightarrow> int \<Rightarrow> string \<Rightarrow> string \<Rightarrow> task_row" where
  "new_row q now uid actor =
     \<lparr>tr_id = uid, tr_kind = rq_kind q, tr_task = rq_task q, tr_workflow = rq_workflow q, tr_audience = rq_audience q,
      tr_recipient = actor, tr_status = PENDING, tr_title = rq_title q, tr_summary = rq_summary q,
      tr_requested_by = (case rq_requested_by q of Some r \<Rightarrow> r | None \<Rightarrow> []), tr_subject = rq_subject q,
      tr_payload = rq_payload q, tr_acted_by = None, tr_acted_at = None, tr_decision = None, tr_comment = None,
      tr_created = now, tr_updated = now, tr_service = rq_service q, tr_promise = rq_promise q, tr_case = rq_case q,
      tr_on_behalf = py_strip (rq_on_behalf q)\<rparr>"

definition barred :: "string list \<Rightarrow> string \<Rightarrow> bool" where
  "barred excludes a \<longleftrightarrow> py_casefold a \<in> set (map py_casefold excludes)"

definition routed_to :: "relations option \<Rightarrow> task_request \<Rightarrow> task_error + string list" where
  "routed_to dir q =
     bind_r (require_r (case rq_requested_by q of Some r \<Rightarrow> py_strip r \<noteq> [] | None \<Rightarrow> False) NoRequester) (\<lambda>_.
     bind_r (require_r (case rq_service q of Some s \<Rightarrow> s \<in> set ALLOWED_WORKFLOW_SERVICES | None \<Rightarrow> True)
       UnknownWorkflowService) (\<lambda>_.
     bind_r (resolve_audience_actors dir (rq_audience q)) (\<lambda>actors.
     bind_r (require_r (actors \<noteq> []) NoEntitledRecipients) (\<lambda>_.
     bind_r (require_r (filter (\<lambda>a. \<not> barred (rq_excludes q) a) actors \<noteq> []) NoEntitledRecipients) (\<lambda>_.
       Inr (filter (\<lambda>a. \<not> barred (rq_excludes q) a) actors))))))"

definition register_task ::
  "relations option \<Rightarrow> int \<Rightarrow> (nat \<Rightarrow> string) \<Rightarrow> task_request \<Rightarrow> (task_row list, task_error, string list) proc" where
  "register_task dir now uids q rows = (case routed_to dir q of
     Inl e \<Rightarrow> (Inl e, rows)
   | Inr actors \<Rightarrow> (Inr actors, rows @ map (\<lambda>(i, a). new_row q now (uids i) a) (enumerate 0 actors)))"

subsection \<open>Updates\<close>

definition update_rows :: "(task_row \<Rightarrow> bool) \<Rightarrow> (task_row \<Rightarrow> task_row) \<Rightarrow> task_row list \<Rightarrow> nat \<times> task_row list" where
  "update_rows p f rows = (length (filter p rows), map (\<lambda>r. if p r then f r else r) rows)"

definition open_of :: "string \<Rightarrow> task_row \<Rightarrow> bool" where
  "open_of task r \<longleftrightarrow> tr_task r = task \<and> tr_status r = PENDING"

definition supersede_open_task :: "int \<Rightarrow> string \<Rightarrow> task_row list \<Rightarrow> nat \<times> task_row list" where
  "supersede_open_task now task = update_rows (open_of task) (\<lambda>r. r\<lparr>tr_status := SUPERSEDED, tr_updated := now\<rparr>)"

definition expire_open_task :: "int \<Rightarrow> string \<Rightarrow> string option \<Rightarrow> task_row list \<Rightarrow> nat \<times> task_row list" where
  "expire_open_task now task workflow =
     update_rows (\<lambda>r. open_of task r \<and> (case workflow of None \<Rightarrow> True | Some w \<Rightarrow> tr_workflow r = Some w))
       (\<lambda>r. r\<lparr>tr_status := TIMED_OUT, tr_updated := now\<rparr>)"

definition refresh_open_task ::
  "int \<Rightarrow> string \<Rightarrow> pydict \<Rightarrow> string \<Rightarrow> string \<Rightarrow> task_row list \<Rightarrow> nat \<times> task_row list" where
  "refresh_open_task now task payload title summary =
     update_rows (open_of task)
       (\<lambda>r. r\<lparr>tr_payload := payload, tr_title := title, tr_summary := summary, tr_updated := now\<rparr>)"

definition mark_task_resolved ::
  "int \<Rightarrow> string \<Rightarrow> string \<Rightarrow> string \<Rightarrow> string \<Rightarrow> string option \<Rightarrow> (task_row list, task_error, nat) proc" where
  "mark_task_resolved now task caller_id decision comment workflow rows =
     (if decision \<in> {PENDING, SUPERSEDED, TIMED_OUT} then (Inl NotAResolution, rows)
      else (case update_rows (\<lambda>r. open_of task r \<and> tr_workflow r = workflow)
             (\<lambda>r. r\<lparr>tr_status := decision, tr_decision := Some decision, tr_acted_by := Some caller_id,
                tr_acted_at := Some now, tr_comment := Some comment, tr_updated := now\<rparr>) rows of
          (n, rows') \<Rightarrow> (Inr n, rows')))"

subsection \<open>Reads\<close>

definition task_exists :: "string \<Rightarrow> task_row list \<Rightarrow> bool" where
  "task_exists task rows \<longleftrightarrow> task \<noteq> [] \<and> list_ex (\<lambda>r. tr_task r = task) rows"

definition get_task_open_state :: "string \<Rightarrow> task_row list \<Rightarrow> (string \<times> bool) option" where
  "get_task_open_state task rows =
     (let rs = filter (\<lambda>r. tr_task r = task) rows in
      if task = [] \<or> rs = [] then None
      else Some (Max (set (map tr_audience rs)), list_ex (\<lambda>r. tr_status r = PENDING) rs))"

definition get_open_task_payload :: "string \<Rightarrow> task_row list \<Rightarrow> pydict option" where
  "get_open_task_payload task rows =
     (if task = [] then None else map_option tr_payload (find (open_of task) rows))"

definition latest_task_for_subject :: "string \<Rightarrow> string \<Rightarrow> task_row list \<Rightarrow> (string \<times> pydict) option" where
  "latest_task_for_subject subject kind rows =
     (let rs = filter (\<lambda>r. tr_subject r = Some subject \<and> tr_kind r = kind) rows in
      if subject = [] \<or> kind = [] then None
      else (case rev (sort_key tr_created (sort_key tr_task rs)) of
          [] \<Rightarrow> None
        | r # _ \<Rightarrow> Some (tr_task r, tr_payload r)))"

definition in_inbox :: "string \<Rightarrow> string \<Rightarrow> task_row \<Rightarrow> bool" where
  "in_inbox caller_id status r \<longleftrightarrow> tr_recipient r = caller_id \<and> tr_status r = status"

definition list_tasks_for :: "string \<Rightarrow> string \<Rightarrow> task_row list \<Rightarrow> task_row list" where
  "list_tasks_for caller_id status rows =
     (if caller_id = [] then [] else rev (sort_key tr_created (filter (in_inbox caller_id status) rows)))"

definition holds_task_on_case :: "string \<Rightarrow> string \<Rightarrow> task_row list \<Rightarrow> bool" where
  "holds_task_on_case case_id caller_id rows \<longleftrightarrow> case_id \<noteq> [] \<and> caller_id \<noteq> [] \<and>
     list_ex (\<lambda>r. tr_case r = Some case_id \<and> tr_recipient r = caller_id) rows"

definition get_task_resolution :: "string \<Rightarrow> string \<Rightarrow> task_row list \<Rightarrow> task_row option" where
  "get_task_resolution task caller_id rows =
     (if task = [] \<or> caller_id = [] then None
      else (case rev (sort_key tr_updated (filter (\<lambda>r. tr_task r = task \<and> tr_recipient r = caller_id) rows)) of
          [] \<Rightarrow> None | r # _ \<Rightarrow> Some r))"

definition list_tasks_for_workflows :: "string list \<Rightarrow> task_row list \<Rightarrow> task_row list" where
  "list_tasks_for_workflows ids rows =
     filter (\<lambda>r. case tr_workflow r of Some w \<Rightarrow> w \<noteq> [] \<and> w \<in> set ids | None \<Rightarrow> False) rows"

subsection \<open>The species of tasks\<close>

text \<open>\<open>accepts\<close> as the declaration holds it: in order, or as a set in whatever order it iterates.\<close>

datatype verbs = InOrder "string list" | AsSet "string list"

record kind_row =
  kr_accepts :: verbs
  kr_reason :: "string list"
  kr_archetype :: "string option"
  kr_badge :: "string option"
  kr_title :: "string option"

type_synonym kind_table = "(string \<times> kind_row) list"

definition ordered :: "verbs \<Rightarrow> string list" where
  "ordered v = (case v of InOrder xs \<Rightarrow> xs | AsSet xs \<Rightarrow> sort xs)"

text \<open>
  \<open>raw\<close> is the variable that names the overlays, \<open>is_dir\<close> whether a path is a directory, \<open>compose\<close>
  the library's composition, \<open>None\<close> where it raises.
\<close>

definition declared_kinds ::
  "string \<Rightarrow> (string \<Rightarrow> bool) \<Rightarrow> (string list \<Rightarrow> kind_table option) \<Rightarrow> kind_table option" where
  "declared_kinds raw is_dir compose =
     (if py_strip raw = [] then None
      else (let overlays = filter (\<lambda>p. p \<noteq> []) (map py_strip (py_split (CHR '':'') (py_strip raw))) in
        if \<not> list_all is_dir overlays then None
        else (case compose overlays of
            None \<Rightarrow> None
          | Some kinds \<Rightarrow> (let named = filter (\<lambda>p. fst p \<noteq> []) kinds in
              if named = [] then None else Some (rev named)))))"

definition verbs_for_kind :: "kind_table \<Rightarrow> kind_table option \<Rightarrow> string \<Rightarrow> task_error + string list" where
  "verbs_for_kind seed declared kind = (case declared of
     None \<Rightarrow> (case map_of seed kind of
         Some row \<Rightarrow> Inr (ordered (kr_accepts row)) | None \<Rightarrow> Inl TaskKindSetUnknown)
   | Some rows \<Rightarrow> (case map_of rows kind of
         None \<Rightarrow> Inr [] | Some row \<Rightarrow> Inr (ordered (kr_accepts row))))"

definition reason_required_for :: "kind_table \<Rightarrow> kind_table option \<Rightarrow> string \<Rightarrow> task_error + string list" where
  "reason_required_for seed declared kind = (case declared of
     None \<Rightarrow> (case map_of seed kind of
         Some row \<Rightarrow> Inr (kr_reason row) | None \<Rightarrow> Inl TaskKindSetUnknown)
   | Some rows \<Rightarrow> (case map_of rows kind of
         None \<Rightarrow> Inr [] | Some row \<Rightarrow> Inr (kr_reason row)))"

definition validate_decision ::
  "kind_table \<Rightarrow> kind_table option \<Rightarrow> string \<Rightarrow> string \<Rightarrow> string \<Rightarrow> task_error + unit" where
  "validate_decision seed declared kind decision comment =
     bind_r (verbs_for_kind seed declared kind) (\<lambda>allowed.
     bind_r (require_r (decision \<in> set allowed) InvalidDecisionForKind) (\<lambda>_.
     bind_r (reason_required_for seed declared kind) (\<lambda>reasons.
       require_r (\<not> (decision \<in> set reasons \<and> py_strip comment = [])) InvalidDecisionForKind)))"

record kind_declaration =
  kd_kind :: string
  kd_declared :: bool
  kd_archetype :: "string option"
  kd_badge :: "string option"
  kd_title :: "string option"
  kd_accepts :: "string list"
  kd_reason_required :: "string list"

definition declaration_for :: "kind_table \<Rightarrow> kind_table option \<Rightarrow> string \<Rightarrow> task_error + kind_declaration" where
  "declaration_for seed declared kind =
     (let row = (case declared of Some rows \<Rightarrow> map_of rows kind | None \<Rightarrow> None);
          rendered = (\<lambda>f. case row of Some r \<Rightarrow> f r | None \<Rightarrow> None) in
      bind_r (verbs_for_kind seed declared kind) (\<lambda>vs.
      bind_r (reason_required_for seed declared kind) (\<lambda>reasons.
        Inr \<lparr>kd_kind = kind, kd_declared = (row \<noteq> None), kd_archetype = rendered kr_archetype,
             kd_badge = rendered kr_badge, kd_title = rendered kr_title, kd_accepts = vs,
             kd_reason_required = sort (remdups (filter (\<lambda>v. v \<in> set vs) reasons))\<rparr>)))"

definition decorate_with_declarations ::
  "kind_table \<Rightarrow> kind_table option \<Rightarrow> task_row list \<Rightarrow> task_error + (task_row \<times> kind_declaration) list" where
  "decorate_with_declarations seed declared tasks =
     map_r (\<lambda>t. bind_r (declaration_for seed declared (tr_kind t)) (\<lambda>d. Inr (t, d))) tasks"

subsection \<open>The queue\<close>

text \<open>
  One operation on the table. A registration is labelled with what it was: its instant, the
  directory as it stood then (\<open>None\<close> when none is configured) and its request.
\<close>

type_synonym registration = "int \<times> relations option \<times> task_request"

inductive queue_step :: "registration option \<Rightarrow> task_row list \<Rightarrow> task_row list \<Rightarrow> bool" where
  registered: "register_task dir now uids q rows = (res, rows') \<Longrightarrow> queue_step (Some (now, dir, q)) rows rows'"
| resolved: "mark_task_resolved now task who decision comment workflow rows = (res, rows') \<Longrightarrow> queue_step None rows rows'"
| superseded: "supersede_open_task now task rows = (n, rows') \<Longrightarrow> queue_step None rows rows'"
| expired: "expire_open_task now task workflow rows = (n, rows') \<Longrightarrow> queue_step None rows rows'"
| refreshed: "refresh_open_task now task payload title summary rows = (n, rows') \<Longrightarrow> queue_step None rows rows'"

inductive_cases queue_stepE: "queue_step reg rows rows'"

text \<open>The queue after a history of registrations; the directory may be another one at each of them.\<close>

inductive queue_after :: "registration list \<Rightarrow> task_row list \<Rightarrow> bool" where
  no_rows: "queue_after [] []"
| stepped: "queue_after hist rows \<Longrightarrow> queue_step reg rows rows' \<Longrightarrow>
    queue_after (case reg of Some g \<Rightarrow> g # hist | None \<Rightarrow> hist) rows'"

lemmas task_updates = supersede_open_task_def expire_open_task_def refresh_open_task_def

lemma update_rows_fst: "fst (update_rows p f rows) = length (filter p rows)"
  by (simp add: update_rows_def)

lemma update_rows_all:
  "\<forall>r \<in> set rows. P r \<Longrightarrow> (\<And>r. p r \<Longrightarrow> P r \<Longrightarrow> P (f r)) \<Longrightarrow> update_rows p f rows = (n, rows') \<Longrightarrow> \<forall>r \<in> set rows'. P r"
  by (auto simp: update_rows_def)

lemma update_rows_others: "r \<in> set rows \<Longrightarrow> \<not> p r \<Longrightarrow> update_rows p f rows = (n, rows') \<Longrightarrow> r \<in> set rows'"
  by (force simp: update_rows_def)

lemma mark_task_resolved_cases:
  assumes "mark_task_resolved now task who decision comment workflow rows = (res, rows')"
  obtains (refused) "res = Inl NotAResolution" "rows' = rows" "decision \<in> {PENDING, SUPERSEDED, TIMED_OUT}"
  | (done_rows) n where "decision \<notin> {PENDING, SUPERSEDED, TIMED_OUT}" "res = Inr n"
      "update_rows (\<lambda>r. open_of task r \<and> tr_workflow r = workflow)
        (\<lambda>r. r\<lparr>tr_status := decision, tr_decision := Some decision, tr_acted_by := Some who,
          tr_acted_at := Some now, tr_comment := Some comment, tr_updated := now\<rparr>) rows = (n, rows')"
  using assms by (auto simp: mark_task_resolved_def split: if_splits prod.splits)

text \<open>The people a task is routed to.\<close>

lemma add_actor_distinct: "distinct as \<Longrightarrow> distinct (add_actor v as)"
  by (auto simp: add_actor_def split: pyval.split)

lemma add_members_distinct: "distinct as \<Longrightarrow> distinct (add_members ms as)"
  unfolding add_members_def by (induction ms arbitrary: as) (auto intro: add_actor_distinct)

lemma add_relations_distinct: "distinct as \<Longrightarrow> add_relations dir rs as = Inr bs \<Longrightarrow> distinct bs"
  by (induction rs arbitrary: as) (auto split: if_splits option.splits intro: add_actor_distinct add_members_distinct)

lemma resolve_distinct: "resolve_audience_actors dir audience = Inr actors \<Longrightarrow> distinct actors"
  by (auto simp: resolve_audience_actors_def split: option.splits intro: add_relations_distinct [of "[]"])

lemma routed_to_Inr:
  "routed_to dir q = Inr actors \<Longrightarrow> \<exists>all. resolve_audience_actors dir (rq_audience q) = Inr all \<and>
     actors = filter (\<lambda>a. \<not> barred (rq_excludes q) a) all \<and> actors \<noteq> [] \<and> (\<exists>r. rq_requested_by q = Some r \<and> py_strip r \<noteq> [])"
  by (auto simp: routed_to_def bind_r_Inr split: option.splits)

lemma enumerate_rows: "map tr_recipient (map (\<lambda>(i, a). new_row q now (uids i) a) (enumerate n actors)) = actors"
  by (induction actors arbitrary: n) (simp_all add: new_row_def)

lemma register_task_cases:
  assumes "register_task dir now uids q rows = (res, rows')"
  obtains (refused) e where "res = Inl e" "rows' = rows" "routed_to dir q = Inl e"
  | (routed) actors where "res = Inr actors" "routed_to dir q = Inr actors"
      "rows' = rows @ map (\<lambda>(i, a). new_row q now (uids i) a) (enumerate 0 actors)"
proof (cases "routed_to dir q")
  case (Inl e)
  with assms have "res = Inl e" "rows' = rows" by (simp_all add: register_task_def)
  with Inl show thesis using refused by blast
next
  case (Inr actors)
  with assms have "res = Inr actors" "rows' = rows @ map (\<lambda>(i, a). new_row q now (uids i) a) (enumerate 0 actors)"
    by (simp_all add: register_task_def)
  with Inr show thesis using routed by blast
qed

text \<open>
  A task reaches exactly those who may decide it: a registration adds one pending row for each
  person the directory lists for the audience and the definition does not exclude, none twice, all
  of the same task, and at least one; any refusal leaves the queue as it was.
\<close>

theorem registration_routes_to_the_entitled:
  assumes "register_task dir now uids q rows = (res, rows')"
  shows "(case res of
     Inl e \<Rightarrow> rows' = rows
   | Inr actors \<Rightarrow> \<exists>new all. rows' = rows @ new \<and> map tr_recipient new = actors \<and> actors \<noteq> [] \<and> distinct actors \<and>
       resolve_audience_actors dir (rq_audience q) = Inr all \<and>
       set actors = {a \<in> set all. \<not> barred (rq_excludes q) a} \<and>
       (\<forall>r \<in> set new. tr_task r = rq_task q \<and> tr_audience r = rq_audience q \<and> tr_status r = PENDING \<and> tr_decision r = None))"
  using assms
proof (cases rule: register_task_cases)
  case (routed actors)
  let ?new = "map (\<lambda>(i, a). new_row q now (uids i) a) (enumerate 0 actors)"
  from routed_to_Inr [OF routed(2)] obtain all where "resolve_audience_actors dir (rq_audience q) = Inr all"
    "actors = filter (\<lambda>a. \<not> barred (rq_excludes q) a) all" "actors \<noteq> []" by blast
  moreover have "\<forall>r \<in> set ?new. tr_task r = rq_task q \<and> tr_audience r = rq_audience q \<and> tr_status r = PENDING \<and> tr_decision r = None"
    by (auto simp: new_row_def)
  moreover have "map tr_recipient ?new = actors" by (rule enumerate_rows)
  moreover have "distinct actors" using calculation resolve_distinct by auto
  ultimately show ?thesis unfolding routed(1,3) sum.case
    by (intro exI [of _ ?new] exI [of _ all]) auto
qed simp

text \<open>What is true of every row of a queue.\<close>

definition settled_by_a_person :: "task_row \<Rightarrow> bool" where
  "settled_by_a_person r \<longleftrightarrow> tr_decision r = Some (tr_status r) \<and> tr_acted_by r \<noteq> None \<and> tr_acted_at r \<noteq> None"

definition rightly_routed :: "registration list \<Rightarrow> task_row \<Rightarrow> bool" where
  "rightly_routed hist r \<longleftrightarrow> (\<exists>dir q actors. (tr_created r, dir, q) \<in> set hist \<and>
     tr_task r = rq_task q \<and> tr_audience r = rq_audience q \<and>
     resolve_audience_actors dir (rq_audience q) = Inr actors \<and> tr_recipient r \<in> set actors \<and>
     \<not> barred (rq_excludes q) (tr_recipient r) \<and>
     rq_requested_by q = Some (tr_requested_by r) \<and> py_strip (tr_requested_by r) \<noteq> [])"

definition row_ok :: "registration list \<Rightarrow> task_row \<Rightarrow> bool" where
  "row_ok hist r \<longleftrightarrow>
     (if tr_status r \<in> {PENDING, SUPERSEDED, TIMED_OUT}
      then tr_decision r = None \<and> tr_acted_by r = None \<and> tr_acted_at r = None
      else settled_by_a_person r) \<and>
     rightly_routed hist r"

lemma row_ok_later: "row_ok hist r \<Longrightarrow> row_ok (g # hist) r"
  by (auto simp: row_ok_def rightly_routed_def)

lemma new_row_ok:
  "routed_to dir q = Inr actors \<Longrightarrow> a \<in> set actors \<Longrightarrow> row_ok ((now, dir, q) # hist) (new_row q now uid a)"
  by (auto dest!: routed_to_Inr simp: row_ok_def rightly_routed_def new_row_def intro!: exI [of _ dir] exI [of _ q])

lemma queue_step_ok:
  assumes "queue_step reg rows rows'" and "\<forall>r \<in> set rows. row_ok hist r"
  shows "\<forall>r \<in> set rows'. row_ok (case reg of Some g \<Rightarrow> g # hist | None \<Rightarrow> hist) r"
  using assms(1)
proof (cases rule: queue_step.cases)
  case (registered dir now uids q res)
  from registered(2) show ?thesis
  proof (cases rule: register_task_cases)
    case (routed actors)
    have "row_ok ((now, dir, q) # hist) r" if "r \<in> set rows'" for r
    proof -
      from that routed(3) consider "r \<in> set rows" | i a where "r = new_row q now (uids i) a" "a \<in> set actors"
        by (auto simp: enumerate_eq_zip dest: set_zip_rightD)
      then show ?thesis by cases (use assms(2) in \<open>simp_all add: row_ok_later new_row_ok [OF routed(2)]\<close>)
    qed
    then show ?thesis by (simp add: registered(1))
  qed (use assms(2) in \<open>simp add: registered(1) row_ok_later\<close>)
next
  case (resolved now task who decision comment workflow res)
  from resolved(2) show ?thesis
  proof (cases rule: mark_task_resolved_cases)
    case (done_rows n)
    show ?thesis unfolding resolved(1) option.case
      by (rule update_rows_all [OF assms(2) _ done_rows(3)])
        (use done_rows(1) in \<open>auto simp: row_ok_def rightly_routed_def settled_by_a_person_def\<close>)
  qed (use assms(2) in \<open>simp add: resolved(1)\<close>)
next
  case (superseded now task n)
  show ?thesis unfolding superseded(1) option.case
    by (rule update_rows_all [OF assms(2) _ superseded(2) [unfolded supersede_open_task_def]])
      (auto simp: row_ok_def rightly_routed_def open_of_def)
next
  case (expired now task workflow n)
  show ?thesis unfolding expired(1) option.case
    by (rule update_rows_all [OF assms(2) _ expired(2) [unfolded expire_open_task_def]])
      (auto simp: row_ok_def rightly_routed_def open_of_def)
next
  case (refreshed now task payload title summary n)
  show ?thesis unfolding refreshed(1) option.case
    by (rule update_rows_all [OF assms(2) _ refreshed(2) [unfolded refresh_open_task_def]])
      (auto simp: row_ok_def rightly_routed_def settled_by_a_person_def)
qed

text \<open>
  C10. What a queue can hold, after any registrations, answers and closings and whatever became of
  the directory between them: every row goes back to a registration, made at the instant the row was
  created, of that task for that audience; its holder was listed for the audience by the directory
  as it stood at that moment, is not among those the request excludes, and the request named who
  asked. The row carries a decision exactly when a person acted, and then its status is that very
  decision, while an open, a superseded and an expired row carry no decision and no actor. A holder
  whom the directory drops later keeps the row; the act on it is gated again when it comes.
\<close>

theorem queue_rows_are_sound:
  assumes "queue_after hist rows" and "r \<in> set rows"
  shows "row_ok hist r"
  using assms
proof (induction arbitrary: r rule: queue_after.induct)
  case (stepped hist rows reg rows')
  then show ?case using queue_step_ok by blast
qed simp

text \<open>
  A decision is final: no operation on the queue changes or removes a row that is not pending.
\<close>

theorem settled_rows_are_final:
  assumes "queue_step reg rows rows'" and "r \<in> set rows" and "tr_status r \<noteq> PENDING"
  shows "r \<in> set rows'"
  using assms(1)
proof (cases rule: queue_step.cases)
  case (registered dir now uids q res)
  from registered(2) show ?thesis by (cases rule: register_task_cases) (use assms(2) in auto)
next
  case (resolved now task who decision comment workflow res)
  from resolved(2) show ?thesis
    by (cases rule: mark_task_resolved_cases)
      (use assms(2,3) in \<open>auto simp: open_of_def elim!: update_rows_others [OF assms(2), rotated]\<close>)
qed (use assms(2,3) in \<open>auto simp: task_updates open_of_def elim!: update_rows_others [OF assms(2), rotated]\<close>)

text \<open>
  One answer settles it for everybody, once: a resolution marks every open row of the task in
  its workflow with the decision and the actor, reports how many, and leaves none open; a second
  resolution, whoever sends it and whatever it says, changes nothing.
\<close>

theorem one_answer_settles_the_task:
  assumes "mark_task_resolved now task who decision comment workflow rows = (Inr n, rows')"
  shows "n = length (filter (\<lambda>r. open_of task r \<and> tr_workflow r = workflow) rows) \<and>
     length rows' = length rows \<and>
     (\<forall>i < length rows. open_of task (rows ! i) \<and> tr_workflow (rows ! i) = workflow \<longrightarrow>
        tr_status (rows' ! i) = decision \<and> tr_decision (rows' ! i) = Some decision \<and>
        tr_acted_by (rows' ! i) = Some who \<and> tr_recipient (rows' ! i) = tr_recipient (rows ! i)) \<and>
     (decision' \<notin> {PENDING, SUPERSEDED, TIMED_OUT} \<longrightarrow>
        mark_task_resolved later task other decision' comment' workflow rows' = (Inr 0, rows'))"
proof -
  let ?p = "\<lambda>r. open_of task r \<and> tr_workflow r = workflow"
  let ?f = "\<lambda>r. r\<lparr>tr_status := decision, tr_decision := Some decision, tr_acted_by := Some who,
    tr_acted_at := Some now, tr_comment := Some comment, tr_updated := now\<rparr>"
  from assms have d: "decision \<noteq> PENDING" and u: "rows' = map (\<lambda>r. if ?p r then ?f r else r) rows"
    and n: "n = length (filter ?p rows)"
    unfolding mark_task_resolved_def update_rows_def by (simp_all split: if_splits)
  have none: "\<not> ?p r" if "r \<in> set rows'" for r 
  proof -
    from that obtain r0 where "r = (if ?p r0 then ?f r0 else r0)" unfolding u set_map image_iff by blast
    with d show ?thesis by (cases "?p r0") (simp_all add: open_of_def)
  qed
  have "filter ?p rows' = []" using none by (simp only: filter_empty_conv) blast
  moreover have "map (\<lambda>r. if ?p r then g r else r) rows' = rows'" for g using none by (intro map_idI) (simp only: if_False)
  ultimately have upd: "update_rows ?p g rows' = (0, rows')" for g unfolding update_rows_def by (simp only: list.size)
  have again: "decision' \<notin> {PENDING, SUPERSEDED, TIMED_OUT} \<longrightarrow>
      mark_task_resolved later task other decision' comment' workflow rows' = (Inr 0, rows')"
    unfolding mark_task_resolved_def upd by simp
  have "length rows' = length rows" by (simp add: u)
  moreover have "tr_status (rows' ! i) = decision \<and> tr_decision (rows' ! i) = Some decision \<and>
      tr_acted_by (rows' ! i) = Some who \<and> tr_recipient (rows' ! i) = tr_recipient (rows ! i)"
    if "i < length rows" "?p (rows ! i)" for i
    using that by (simp add: u)
  ultimately show ?thesis using n again by blast
qed

lemma verbs_and_reasons:
  "verbs_for_kind seed declared kind = Inr vs \<longleftrightarrow>
     (\<exists>rs. reason_required_for seed declared kind = Inr rs) \<and> verbs_for_kind seed declared kind = Inr vs"
  by (auto simp: verbs_for_kind_def reason_required_for_def split: option.splits)

text \<open>
  What a card is served is what the act accepts: where a declaration is served, a decision is
  valid exactly when it is among the verbs served and, if it is among those served as needing a
  reason, the comment is not blank; and every verb served as needing one is a verb served.
\<close>

theorem served_contract_is_the_gate:
  assumes "declaration_for seed declared kind = Inr d"
  shows "(validate_decision seed declared kind decision comment = Inr () \<longleftrightarrow>
       decision \<in> set (kd_accepts d) \<and> (decision \<in> set (kd_reason_required d) \<longrightarrow> py_strip comment \<noteq> [])) \<and>
     set (kd_reason_required d) \<subseteq> set (kd_accepts d)"
  using assms by (auto simp: declaration_for_def validate_decision_def Let_def bind_r_Inr)

text \<open>
  Where the overlays cannot be known a seeded species still answers from its row; but the contract
  served for it says it is not declared and gives no title, beside a nonempty list of verbs.
\<close>

lemma seeded_species_served_as_undeclared:
  "declaration_for [(''review'', \<lparr>kr_accepts = InOrder [''approved''], kr_reason = [], kr_archetype = Some ''card'',
      kr_badge = None, kr_title = Some ''Review''\<rparr>)] None ''review'' =
   Inr \<lparr>kd_kind = ''review'', kd_declared = False, kd_archetype = None, kd_badge = None, kd_title = None,
      kd_accepts = [''approved''], kd_reason_required = []\<rparr>"
  by (simp add: declaration_for_def verbs_for_kind_def reason_required_for_def ordered_def)

subsection \<open>A task for a group\<close>

definition demo_relations :: relations where
  "demo_relations ot oid rel =
     (if ot = ''task_audience'' then Some [(''results'', PList
         [PDict [(''subject_type'', PStr ''user''), (''subject_id'', PStr ''kim'')],
          PDict [(''subject_type'', PStr ''group''), (''subject_relation'', PStr ''member''), (''subject_id'', PStr ''stewards'')]])]
      else Some [(''relations'', PList
         [PDict [(''subject_type'', PStr ''user''), (''subject_id'', PStr ''kim'')],
          PDict [(''subject_type'', PStr ''user''), (''subject_id'', PStr ''Lee'')],
          PDict [(''subject_type'', PStr ''user''), (''subject_id'', PStr ''pat'')]])])"

definition demo_request :: task_request where
  "demo_request = \<lparr>rq_kind = ''review'', rq_task = ''t1'', rq_audience = ''review:energy'', rq_title = ''T'', rq_summary = ''S'',
     rq_requested_by = Some ''svc'', rq_workflow = Some ''w1'', rq_subject = None, rq_payload = [], rq_service = None,
     rq_promise = None, rq_excludes = [''LEE''], rq_case = None, rq_on_behalf = []\<rparr>"

definition demo_rows :: "task_row list" where
  "demo_rows = snd (register_task (Some demo_relations) 5 (\<lambda>n. if n = 0 then ''r0'' else ''r1'') demo_request [])"

definition demo_settled :: "task_row list" where
  "demo_settled = snd (mark_task_resolved 9 ''t1'' ''pat'' ''approved'' ''fine'' (Some ''w1'') demo_rows)"

lemma demo_registered:
  "register_task (Some demo_relations) 5 (\<lambda>n. if n = 0 then ''r0'' else ''r1'') demo_request [] = (Inr [''kim'', ''pat''], demo_rows)"
proof -
  have "fst (register_task (Some demo_relations) 5 (\<lambda>n. if n = 0 then ''r0'' else ''r1'') demo_request []) = Inr [''kim'', ''pat'']"
    by code_simp
  then show ?thesis by (metis demo_rows_def prod.collapse)
qed

lemma demo_resolved: "mark_task_resolved 9 ''t1'' ''pat'' ''approved'' ''fine'' (Some ''w1'') demo_rows = (Inr 2, demo_settled)"
proof -
  have "fst (mark_task_resolved 9 ''t1'' ''pat'' ''approved'' ''fine'' (Some ''w1'') demo_rows) = Inr 2" by code_simp
  then show ?thesis by (metis demo_settled_def prod.collapse)
qed

definition demo_history :: "registration list" where
  "demo_history = [(5, Some demo_relations, demo_request)]"

lemma demo_queue: "queue_after demo_history demo_settled"
  using queue_after.stepped [OF queue_after.stepped [OF queue_after.no_rows queue_step.registered [OF demo_registered]]
      queue_step.resolved [OF demo_resolved]]
  by (simp add: demo_history_def)

lemma demo_a_row: "\<exists>r. r \<in> set demo_settled \<and> tr_status r = ''approved''"
proof -
  have "''approved'' \<in> set (map tr_status demo_settled)" by code_simp
  then show ?thesis by auto
qed

theorem registration_routes_to_the_entitled_witness:
  "\<exists>new. demo_rows = new \<and> map tr_recipient new = [''kim'', ''pat'']"
  using registration_routes_to_the_entitled [OF demo_registered] by auto

theorem queue_rows_are_sound_witness:
  "\<exists>r. r \<in> set demo_settled \<and> tr_status r = ''approved'' \<and> row_ok demo_history r"
proof -
  obtain r where "r \<in> set demo_settled" "tr_status r = ''approved''" using demo_a_row by blast
  with queue_rows_are_sound [OF demo_queue] show ?thesis by blast
qed

theorem settled_rows_are_final_witness:
  "\<exists>r. r \<in> set demo_settled \<and> r \<in> set (snd (supersede_open_task 12 ''t1'' demo_settled))"
proof -
  obtain r where r: "r \<in> set demo_settled" "tr_status r = ''approved''" using demo_a_row by blast
  have "queue_step None demo_settled (snd (supersede_open_task 12 ''t1'' demo_settled))"
    by (rule queue_step.superseded) (rule prod.collapse [symmetric])
  from settled_rows_are_final [OF this r(1)] r show ?thesis by (auto simp: PENDING_def)
qed

theorem one_answer_settles_the_task_witness:
  "mark_task_resolved 10 ''t1'' ''kim'' ''rejected'' ''no'' (Some ''w1'') demo_settled = (Inr 0, demo_settled)"
  using one_answer_settles_the_task [OF demo_resolved, of "''rejected''" 10 "''kim''" "''no''"]
  by (simp add: PENDING_def SUPERSEDED_def TIMED_OUT_def)

theorem served_contract_is_the_gate_witness:
  "validate_decision [] (Some [(''review'', \<lparr>kr_accepts = InOrder [''approved'', ''rejected''], kr_reason = [''rejected''],
      kr_archetype = None, kr_badge = None, kr_title = None\<rparr>)]) ''review'' ''rejected'' ''why'' = Inr ()"
proof -
  let ?t = "Some [(''review'', \<lparr>kr_accepts = InOrder [''approved'', ''rejected''], kr_reason = [''rejected''],
      kr_archetype = None, kr_badge = None, kr_title = None\<rparr>)]"
  have d: "declaration_for [] ?t ''review'' = Inr \<lparr>kd_kind = ''review'', kd_declared = True, kd_archetype = None, kd_badge = None,
      kd_title = None, kd_accepts = [''approved'', ''rejected''], kd_reason_required = [''rejected'']\<rparr>" by code_simp
  have "py_strip ''why'' \<noteq> []" by code_simp
  then show ?thesis using served_contract_is_the_gate [OF d, of "''rejected''" "''why''"] by simp
qed

text \<open>
  A listing is read as one page: a token for a next page is not followed, so the members on later
  pages receive no row.
\<close>

lemma audience_is_read_as_one_page:
  "resolve_audience_actors (Some (\<lambda>_ _ _. Some
     [(''results'', PList [PDict [(''subject_type'', PStr ''user''), (''subject_id'', PStr ''ann'')]]),
      (''page'', PDict [(''next_token'', PStr ''2'')])])) ''desk'' = Inr [''ann'']"
  by code_simp

end
