(* ===== verification/Workflow_Definition.thy ===== *)
theory Workflow_Definition
  imports Mesh_Prelude "HOL-Library.List_Lexorder" "HOL-Library.Char_ord"
begin

text \<open>
  \<^verbatim>\<open>agent_fleet/restate_analyst/workflow_definition.py\<close>: the process a deployment declares. A YAML
  document becomes a definition or is refused: every model forbids the fields it does not know, a
  step is one of eight kinds, and the models' own validators run on the result. The registry
  composes directories of files, later over earlier, and the placeholders of a definition are bound
  before it runs or refused by name.

  The library reports every error of a document together; here the first one stands for them.
  \<open>as_int\<close> and \<open>as_bool\<close> are the validation library's reading of a number and of a Boolean.
\<close>

datatype definition_error =
    Unreadable
  | NotMapping
  | UnknownField string
  | BadField string
  | ThresholdMismatch
  | ApprovalWithoutRole
  | NotOnGrouped
  | StrayReasons
  | DuplicateStepIds "string list"
  | PromiseSharedBy "string list"
  | StageNotDeclared string
  | StageNotObservable string
  | NoDirectory
  | TwoOverlays string
  | NoDefinition string
  | DuplicateId string
  | UnboundPlaceholder "string list"

record coercion =
  as_int :: "pyval \<Rightarrow> int option"
  as_bool :: "pyval \<Rightarrow> bool option"

subsection \<open>Steps\<close>

datatype completion_mode = Single | Grouped
datatype quorum = AnyOf | NofM

record completion_policy =
  cp_mode :: completion_mode
  cp_quorum :: quorum
  cp_threshold :: "int option"
  cp_claiming :: bool

record human_await =
  ha_audience :: string
  ha_subject_ref :: "string option"
  ha_title :: "string option"
  ha_summary :: "string option"
  ha_requested_by :: "string option"
  ha_promise_name :: "string option"
  ha_completion :: completion_policy
  ha_deadline :: "int option"
  ha_task_kind :: "string option"
  ha_excludes :: "string list"
  ha_role :: "string option"
  ha_approves :: "string list"
  ha_chooses_from :: "string option"

record signal_await =
  sa_signal :: string
  sa_audience :: string
  sa_accepts :: "string list"
  sa_reason_required :: "string list"
  sa_deadline :: "int option"

datatype step_body =
    HumanAwait human_await
  | SpoOperation string string "string option"
  | DirectCall string string "pydict option" "string option"
  | DispatchFanout string
  | Render pyval
  | SignalAwait signal_await
  | Wait int
  | Emit string pyval "string option"

record wf_step =
  ws_id :: string
  ws_stage :: "string option"
  ws_body :: step_body

record workflow_definition =
  wd_id :: string
  wd_name :: string
  wd_classification :: "string option"
  wd_participants :: "pydict list"
  wd_stages :: "string list"
  wd_steps :: "wf_step list"
  wd_observable :: "pydict option"

definition resolved_promise_name :: "string \<Rightarrow> human_await \<Rightarrow> string" where
  "resolved_promise_name step_id h = (case ha_promise_name h of
     Some p \<Rightarrow> if p = [] then ''approval_'' @ step_id else p | None \<Rightarrow> ''approval_'' @ step_id)"

subsection \<open>The validators\<close>

definition threshold_matches_quorum :: "completion_policy \<Rightarrow> definition_error + unit" where
  "threshold_matches_quorum c = require_r
     (case cp_quorum c of
        NofM \<Rightarrow> (case cp_threshold c of Some n \<Rightarrow> 2 \<le> n | None \<Rightarrow> False)
      | AnyOf \<Rightarrow> cp_threshold c = None) ThresholdMismatch"

definition an_approval_has_a_role :: "human_await \<Rightarrow> definition_error + unit" where
  "an_approval_has_a_role h =
     bind_r (require_r (ha_approves h = [] \<or> (case ha_role h of Some r \<Rightarrow> r \<noteq> [] | None \<Rightarrow> False)) ApprovalWithoutRole) (\<lambda>_.
     bind_r (require_r (\<not> ((ha_approves h \<noteq> [] \<or> (case ha_chooses_from h of Some p \<Rightarrow> p \<noteq> [] | None \<Rightarrow> False))
       \<and> cp_mode (ha_completion h) = Grouped)) NotOnGrouped) (\<lambda>_.
     require_r (\<not> (ha_excludes h \<noteq> [] \<and> cp_mode (ha_completion h) = Grouped)) NotOnGrouped))"

definition reasons_are_accepted :: "signal_await \<Rightarrow> definition_error + unit" where
  "reasons_are_accepted s = require_r (set (sa_reason_required s) \<subseteq> set (sa_accepts s)) StrayReasons"

definition awaited_name :: "wf_step \<Rightarrow> string option" where
  "awaited_name s = (case ws_body s of
     HumanAwait h \<Rightarrow> Some (resolved_promise_name (ws_id s) h)
   | SignalAwait a \<Rightarrow> Some (sa_signal a)
   | _ \<Rightarrow> None)"

definition repeated :: "string list \<Rightarrow> string list" where
  "repeated xs = sort (remdups (filter (\<lambda>x. 1 < count_list xs x) xs))"

definition step_ids_are_unique :: "workflow_definition \<Rightarrow> definition_error + unit" where
  "step_ids_are_unique d =
     (let ids = map ws_id (wd_steps d); names = List.map_filter awaited_name (wd_steps d) in
      bind_r (require_r (repeated ids = []) (DuplicateStepIds (repeated ids))) (\<lambda>_.
        require_r (repeated names = []) (PromiseSharedBy (repeated names))))"

definition observable_at :: "nat \<Rightarrow> wf_step \<Rightarrow> bool" where
  "observable_at i s \<longleftrightarrow> i = 0 \<or>
     (case ws_body s of HumanAwait h \<Rightarrow> cp_mode (ha_completion h) \<noteq> Grouped | _ \<Rightarrow> False)"

fun stages_are_observable :: "string list \<Rightarrow> nat \<Rightarrow> wf_step list \<Rightarrow> definition_error + unit" where
  "stages_are_observable stages i [] = Inr ()"
| "stages_are_observable stages i (s # ss) = (case ws_stage s of
     None \<Rightarrow> stages_are_observable stages (Suc i) ss
   | Some st \<Rightarrow>
       if st \<notin> set stages then Inl (StageNotDeclared (ws_id s))
       else if \<not> observable_at i s then Inl (StageNotObservable (ws_id s))
       else stages_are_observable stages (Suc i) ss)"

definition validate_definition :: "workflow_definition \<Rightarrow> definition_error + workflow_definition" where
  "validate_definition d =
     bind_r (step_ids_are_unique d) (\<lambda>_.
     bind_r (stages_are_observable (wd_stages d) 0 (wd_steps d)) (\<lambda>_. Inr d))"

subsection \<open>Reading a document\<close>

definition known_fields :: "string list \<Rightarrow> pydict \<Rightarrow> definition_error + unit" where
  "known_fields allowed d = (case find (\<lambda>k. k \<notin> set allowed) (map fst d) of
     Some k \<Rightarrow> Inl (UnknownField k) | None \<Rightarrow> Inr ())"

definition req_str :: "pydict \<Rightarrow> string \<Rightarrow> definition_error + string" where
  "req_str d f = (case dget d f of PStr s \<Rightarrow> Inr s | _ \<Rightarrow> Inl (BadField f))"

definition opt_str :: "pydict \<Rightarrow> string \<Rightarrow> definition_error + string option" where
  "opt_str d f = (case dget d f of PNone \<Rightarrow> Inr None | PStr s \<Rightarrow> Inr (Some s) | _ \<Rightarrow> Inl (BadField f))"

definition opt_dict :: "pydict \<Rightarrow> string \<Rightarrow> definition_error + pydict option" where
  "opt_dict d f = (case dget d f of PNone \<Rightarrow> Inr None | PDict e \<Rightarrow> Inr (Some e) | _ \<Rightarrow> Inl (BadField f))"

definition req_nonempty :: "pydict \<Rightarrow> string \<Rightarrow> definition_error + string" where
  "req_nonempty d f = bind_r (req_str d f) (\<lambda>s. bind_r (require_r (s \<noteq> []) (BadField f)) (\<lambda>_. Inr s))"

definition opt_nonempty :: "pydict \<Rightarrow> string \<Rightarrow> definition_error + string option" where
  "opt_nonempty d f = bind_r (opt_str d f) (\<lambda>s. bind_r (require_r (s \<noteq> Some []) (BadField f)) (\<lambda>_. Inr s))"

text \<open>The pattern \<open>^[a-z][a-z0-9_]*$\<close> of channels, signals and dispositions.\<close>

definition is_lower :: "char \<Rightarrow> bool" where
  "is_lower c = (97 \<le> code_of c \<and> code_of c \<le> 122)"

definition is_name_char :: "char \<Rightarrow> bool" where
  "is_name_char c = (is_lower c \<or> (48 \<le> code_of c \<and> code_of c \<le> 57) \<or> c = CHR ''_'')"

definition is_name :: "string \<Rightarrow> bool" where
  "is_name s = (case s of [] \<Rightarrow> False | c # cs \<Rightarrow> is_lower c \<and> list_all is_name_char cs)"

definition req_name :: "pydict \<Rightarrow> string \<Rightarrow> definition_error + string" where
  "req_name d f = bind_r (req_str d f) (\<lambda>s. bind_r (require_r (is_name s) (BadField f)) (\<lambda>_. Inr s))"

definition opt_name :: "pydict \<Rightarrow> string \<Rightarrow> definition_error + string option" where
  "opt_name d f = bind_r (opt_str d f) (\<lambda>s.
     bind_r (require_r (case s of Some n \<Rightarrow> is_name n | None \<Rightarrow> True) (BadField f)) (\<lambda>_. Inr s))"

definition str_list :: "pydict \<Rightarrow> string \<Rightarrow> definition_error + string list" where
  "str_list d f = (if \<not> has_key d f then Inr []
     else (case dget d f of
        PList vs \<Rightarrow> map_r (\<lambda>v. case v of PStr s \<Rightarrow> Inr s | _ \<Rightarrow> Inl (BadField f)) vs
      | _ \<Rightarrow> Inl (BadField f)))"

definition dict_list :: "pydict \<Rightarrow> string \<Rightarrow> definition_error + pydict list" where
  "dict_list d f = (if \<not> has_key d f then Inr []
     else (case dget d f of
        PList vs \<Rightarrow> map_r (\<lambda>v. case v of PDict e \<Rightarrow> Inr e | _ \<Rightarrow> Inl (BadField f)) vs
      | _ \<Rightarrow> Inl (BadField f)))"

definition positive :: "coercion \<Rightarrow> pydict \<Rightarrow> string \<Rightarrow> definition_error + int option" where
  "positive co d f = (case dget d f of
     PNone \<Rightarrow> Inr None
   | v \<Rightarrow> (case as_int co v of Some n \<Rightarrow> if 0 < n then Inr (Some n) else Inl (BadField f) | None \<Rightarrow> Inl (BadField f)))"

definition read_literal :: "(string \<times> 'a) list \<Rightarrow> 'a \<Rightarrow> pydict \<Rightarrow> string \<Rightarrow> definition_error + 'a" where
  "read_literal choices dflt d f = (if \<not> has_key d f then Inr dflt
     else (case dget d f of
        PStr s \<Rightarrow> (case map_of choices s of Some v \<Rightarrow> Inr v | None \<Rightarrow> Inl (BadField f))
      | _ \<Rightarrow> Inl (BadField f)))"

definition default_completion :: completion_policy where
  "default_completion = \<lparr>cp_mode = Single, cp_quorum = AnyOf, cp_threshold = None, cp_claiming = False\<rparr>"

definition read_completion :: "coercion \<Rightarrow> pydict \<Rightarrow> definition_error + completion_policy" where
  "read_completion co d =
     bind_r (known_fields [''mode'', ''quorum'', ''threshold'', ''claiming''] d) (\<lambda>_.
     bind_r (read_literal [(''single'', Single), (''grouped'', Grouped)] Single d ''mode'') (\<lambda>mode.
     bind_r (read_literal [(''any_of'', AnyOf), (''n_of_m'', NofM)] AnyOf d ''quorum'') (\<lambda>qu.
     bind_r (case dget d ''threshold'' of PNone \<Rightarrow> Inr None
               | v \<Rightarrow> (case as_int co v of Some n \<Rightarrow> Inr (Some n) | None \<Rightarrow> Inl (BadField ''threshold''))) (\<lambda>th.
     bind_r (if \<not> has_key d ''claiming'' then Inr False
               else (case as_bool co (dget d ''claiming'') of Some b \<Rightarrow> Inr b | None \<Rightarrow> Inl (BadField ''claiming''))) (\<lambda>cl.
     let c = \<lparr>cp_mode = mode, cp_quorum = qu, cp_threshold = th, cp_claiming = cl\<rparr> in
     bind_r (threshold_matches_quorum c) (\<lambda>_. Inr c))))))"

definition await_completion :: "coercion \<Rightarrow> pydict \<Rightarrow> definition_error + completion_policy" where
  "await_completion co d = (if \<not> has_key d ''completion'' then Inr default_completion
     else (case dget d ''completion'' of PDict e \<Rightarrow> read_completion co e | _ \<Rightarrow> Inl (BadField ''completion'')))"

definition await_fields :: "coercion \<Rightarrow> pydict \<Rightarrow> definition_error + human_await" where
  "await_fields co d =
     bind_r (known_fields [''kind'', ''id'', ''stage'', ''audience'', ''subject_ref'', ''title'', ''summary'', ''requested_by'',
       ''promise_name'', ''completion'', ''deadline_seconds'', ''task_kind'', ''excludes'', ''role'', ''approves'', ''chooses_from''] d) (\<lambda>_.
     bind_r (req_str d ''audience'') (\<lambda>aud.
     bind_r (opt_str d ''subject_ref'') (\<lambda>sub.
     bind_r (opt_str d ''title'') (\<lambda>ti.
     bind_r (opt_str d ''summary'') (\<lambda>su.
     bind_r (opt_str d ''requested_by'') (\<lambda>rq.
     bind_r (opt_str d ''promise_name'') (\<lambda>pn.
     bind_r (await_completion co d) (\<lambda>cp.
     bind_r (positive co d ''deadline_seconds'') (\<lambda>dl.
     bind_r (opt_str d ''task_kind'') (\<lambda>tk.
     bind_r (str_list d ''excludes'') (\<lambda>ex.
     bind_r (opt_str d ''role'') (\<lambda>ro.
     bind_r (str_list d ''approves'') (\<lambda>ap.
     bind_r (opt_str d ''chooses_from'') (\<lambda>ch.
       Inr \<lparr>ha_audience = aud, ha_subject_ref = sub, ha_title = ti, ha_summary = su, ha_requested_by = rq, ha_promise_name = pn,
         ha_completion = cp, ha_deadline = dl, ha_task_kind = tk, ha_excludes = ex, ha_role = ro, ha_approves = ap,
         ha_chooses_from = ch\<rparr>))))))))))))))"

definition read_human_await :: "coercion \<Rightarrow> pydict \<Rightarrow> definition_error + step_body" where
  "read_human_await co d =
     bind_r (await_fields co d) (\<lambda>h. bind_r (an_approval_has_a_role h) (\<lambda>_. Inr (HumanAwait h)))"

definition read_signal_await :: "coercion \<Rightarrow> pydict \<Rightarrow> definition_error + step_body" where
  "read_signal_await co d =
     bind_r (known_fields [''kind'', ''id'', ''stage'', ''signal'', ''audience'', ''accepts'', ''reason_required'', ''deadline_seconds''] d) (\<lambda>_.
     bind_r (req_name d ''signal'') (\<lambda>sg.
     bind_r (req_str d ''audience'') (\<lambda>aud.
     bind_r (str_list d ''accepts'') (\<lambda>ac.
     bind_r (require_r (ac \<noteq> []) (BadField ''accepts'')) (\<lambda>_.
     bind_r (str_list d ''reason_required'') (\<lambda>rr.
     bind_r (positive co d ''deadline_seconds'') (\<lambda>dl.
     let s = \<lparr>sa_signal = sg, sa_audience = aud, sa_accepts = ac, sa_reason_required = rr, sa_deadline = dl\<rparr> in
     bind_r (reasons_are_accepted s) (\<lambda>_. Inr (SignalAwait s)))))))))"

definition read_spo_operation :: "pydict \<Rightarrow> definition_error + step_body" where
  "read_spo_operation d =
     bind_r (known_fields [''kind'', ''id'', ''stage'', ''subject'', ''verb'', ''expected_output''] d) (\<lambda>_.
     bind_r (req_str d ''subject'') (\<lambda>s. bind_r (req_str d ''verb'') (\<lambda>v.
     bind_r (opt_str d ''expected_output'') (\<lambda>e. Inr (SpoOperation s v e)))))"

definition read_direct_call :: "pydict \<Rightarrow> definition_error + step_body" where
  "read_direct_call d =
     bind_r (known_fields [''kind'', ''id'', ''stage'', ''endpoint'', ''capability'', ''extra_payload'', ''outcome_from''] d) (\<lambda>_.
     bind_r (req_str d ''endpoint'') (\<lambda>e. bind_r (req_nonempty d ''capability'') (\<lambda>c.
     bind_r (opt_dict d ''extra_payload'') (\<lambda>x. bind_r (opt_nonempty d ''outcome_from'') (\<lambda>oc. Inr (DirectCall e c x oc))))))"

definition read_dispatch_fanout :: "pydict \<Rightarrow> definition_error + step_body" where
  "read_dispatch_fanout d =
     bind_r (known_fields [''kind'', ''id'', ''stage'', ''capability''] d) (\<lambda>_.
     bind_r (req_nonempty d ''capability'') (\<lambda>c. Inr (DispatchFanout c)))"

definition read_render :: "pydict \<Rightarrow> definition_error + step_body" where
  "read_render d =
     bind_r (known_fields [''kind'', ''id'', ''stage'', ''template''] d) (\<lambda>_.
     bind_r (require_r (has_key d ''template'') (BadField ''template'')) (\<lambda>_. Inr (Render (dget d ''template''))))"

definition read_wait :: "coercion \<Rightarrow> pydict \<Rightarrow> definition_error + step_body" where
  "read_wait co d =
     bind_r (known_fields [''kind'', ''id'', ''stage'', ''seconds''] d) (\<lambda>_.
     bind_r (positive co d ''seconds'') (\<lambda>n. case n of Some s \<Rightarrow> Inr (Wait s) | None \<Rightarrow> Inl (BadField ''seconds'')))"

definition read_emit :: "pydict \<Rightarrow> definition_error + step_body" where
  "read_emit d =
     bind_r (known_fields [''kind'', ''id'', ''stage'', ''channel'', ''template'', ''disposes''] d) (\<lambda>_.
     bind_r (req_name d ''channel'') (\<lambda>c. bind_r (require_r (has_key d ''template'') (BadField ''template'')) (\<lambda>_.
     bind_r (opt_name d ''disposes'') (\<lambda>ds. Inr (Emit c (dget d ''template'') ds)))))"

definition read_body :: "coercion \<Rightarrow> string \<Rightarrow> pydict \<Rightarrow> definition_error + step_body" where
  "read_body co kind d =
     (if kind = ''human_await'' then read_human_await co d
      else if kind = ''spo_operation'' then read_spo_operation d
      else if kind = ''direct_call'' then read_direct_call d
      else if kind = ''dispatch_fanout'' then read_dispatch_fanout d
      else if kind = ''render'' then read_render d
      else if kind = ''wait'' then read_wait co d
      else if kind = ''emit'' then read_emit d
      else if kind = ''signal_await'' then read_signal_await co d
      else Inl (BadField ''kind''))"

definition read_step :: "coercion \<Rightarrow> pyval \<Rightarrow> definition_error + wf_step" where
  "read_step co v = (case v of
     PDict d \<Rightarrow>
       bind_r (req_str d ''kind'') (\<lambda>kind.
       bind_r (req_str d ''id'') (\<lambda>i.
       bind_r (opt_str d ''stage'') (\<lambda>st.
       bind_r (read_body co kind d) (\<lambda>b. Inr \<lparr>ws_id = i, ws_stage = st, ws_body = b\<rparr>))))
   | _ \<Rightarrow> Inl (BadField ''steps''))"

definition read_definition :: "coercion \<Rightarrow> pydict \<Rightarrow> definition_error + workflow_definition" where
  "read_definition co d =
     bind_r (known_fields [''id'', ''name'', ''classification'', ''participants'', ''domain_stages'', ''steps'', ''observable_state''] d) (\<lambda>_.
     bind_r (req_str d ''id'') (\<lambda>i.
     bind_r (req_str d ''name'') (\<lambda>n.
     bind_r (opt_str d ''classification'') (\<lambda>c.
     bind_r (dict_list d ''participants'') (\<lambda>ps.
     bind_r (str_list d ''domain_stages'') (\<lambda>sg.
     bind_r (case dget d ''steps'' of PList vs \<Rightarrow> map_r (read_step co) vs | _ \<Rightarrow> Inl (BadField ''steps'')) (\<lambda>ss.
     bind_r (require_r (ss \<noteq> []) (BadField ''steps'')) (\<lambda>_.
     bind_r (opt_dict d ''observable_state'') (\<lambda>os.
       validate_definition \<lparr>wd_id = i, wd_name = n, wd_classification = c, wd_participants = ps, wd_stages = sg,
         wd_steps = ss, wd_observable = os\<rparr>)))))))))"

text \<open>A file of the registry: what reading and parsing it gives.\<close>

datatype yaml_file = NotReadable | Document pyval

definition load_workflow_definition :: "coercion \<Rightarrow> yaml_file \<Rightarrow> definition_error + workflow_definition" where
  "load_workflow_definition co f = (case f of
     NotReadable \<Rightarrow> Inl Unreadable
   | Document (PDict d) \<Rightarrow> read_definition co d
   | Document _ \<Rightarrow> Inl NotMapping)"

subsection \<open>The registry\<close>

text \<open>A directory of definitions: its path, whether it exists, and its YAML files by stem.\<close>

record wf_dir =
  di_path :: string
  di_exists :: bool
  di_files :: "(string \<times> yaml_file) list"

definition file_in :: "string \<Rightarrow> wf_dir \<Rightarrow> yaml_file option" where
  "file_in stem d = (if di_exists d then map_of (di_files d) stem else None)"

text \<open>\<open>parents\<close> are the directories above this module's file, nearest first.\<close>

definition candidate_definition_dirs :: "string list \<Rightarrow> string list" where
  "candidate_definition_dirs parents =
     (if 3 \<le> length parents then [parents ! 2 @ ''/policy/workflows''] else []) @ [hd parents @ ''/policy/workflows'']"

text \<open>
  \<open>env\<close> is the search-path variable, \<open>is_dir\<close> whether a path is a directory, \<open>overlays seed\<close> the
  \<open>workflows\<close> directories of the overlays beside the seed, in name order.
\<close>

definition definition_dirs ::
  "string option \<Rightarrow> string list \<Rightarrow> (string \<Rightarrow> bool) \<Rightarrow> (string \<Rightarrow> string list) \<Rightarrow> string list" where
  "definition_dirs env parents is_dir overlays =
     (let parts = filter (\<lambda>p. p \<noteq> []) (map py_strip (py_split (CHR '':'') (case env of Some e \<Rightarrow> e | None \<Rightarrow> []))) in
      if parts \<noteq> [] then parts
      else (let candidates = candidate_definition_dirs parents in
        case filter is_dir candidates of
          [] \<Rightarrow> take 1 candidates
        | seed # _ \<Rightarrow> seed # overlays seed))"

definition get_workflow_definition ::
  "coercion \<Rightarrow> wf_dir list \<Rightarrow> string \<Rightarrow> definition_error + workflow_definition" where
  "get_workflow_definition co dirs wid =
     (if \<not> list_ex di_exists dirs then Inl NoDirectory
      else if 1 < length (filter (\<lambda>d. file_in wid d \<noteq> None) (tl dirs)) then Inl (TwoOverlays wid)
      else (case List.map_filter (file_in wid) (rev dirs) of
          f # _ \<Rightarrow> load_workflow_definition co f
        | [] \<Rightarrow> Inl (NoDefinition wid)))"

definition resolved_from :: "wf_dir list \<Rightarrow> (string \<times> string) list" where
  "resolved_from dirs =
     fold (\<lambda>d acc. if di_exists d then fold (\<lambda>p. AList.update (fst p) (di_path d)) (di_files d) acc else acc) dirs []"

definition registry_ids :: "wf_dir list \<Rightarrow> string list" where
  "registry_ids dirs = sort (map fst (resolved_from dirs))"

fun load_files :: "coercion \<Rightarrow> yaml_file list \<Rightarrow> (string \<times> workflow_definition) list \<Rightarrow>
    definition_error + (string \<times> workflow_definition) list" where
  "load_files co [] out = Inr out"
| "load_files co (f # fs) out = bind_r (load_workflow_definition co f) (\<lambda>wf.
     if wd_id wf \<in> fst ` set out then Inl (DuplicateId (wd_id wf))
     else load_files co fs (out @ [(wd_id wf, wf)]))"

text \<open>The files of one directory, in name order.\<close>

definition load_all_workflows :: "coercion \<Rightarrow> wf_dir \<Rightarrow> definition_error + (string \<times> workflow_definition) list" where
  "load_all_workflows co d =
     load_files co (if di_exists d then map snd (sort_key fst (di_files d)) else []) []"

subsection \<open>Placeholders\<close>

definition is_first_char :: "char \<Rightarrow> bool" where
  "is_first_char c \<longleftrightarrow> is_lower c \<or> c = CHR ''_''"

text \<open>
  A string as the pattern of a placeholder (a name in braces) cuts it: a character as it stands, or
  a name.
\<close>

datatype piece = Literal char | Hole string

definition hole_at :: "string \<Rightarrow> string option" where
  "hole_at cs = (let name = takeWhile is_name_char cs in
     if name \<noteq> [] \<and> is_first_char (hd name) \<and> take 1 (drop (length name) cs) = ''}'' then Some name else None)"

function pieces :: "string \<Rightarrow> piece list" where
  "pieces [] = []"
| "pieces (c # cs) = (case (if c = CHR ''{'' then hole_at cs else None) of
     Some name \<Rightarrow> Hole name # pieces (drop (Suc (length name)) cs)
   | None \<Rightarrow> Literal c # pieces cs)"
  by pat_completeness auto
termination by (relation "measure length") auto

definition holes :: "string \<Rightarrow> string list" where
  "holes s = List.map_filter (\<lambda>p. case p of Hole n \<Rightarrow> Some n | Literal _ \<Rightarrow> None) (pieces s)"

fun collect_placeholders :: "pyval \<Rightarrow> string list" where
  "collect_placeholders (PStr s) = holes s"
| "collect_placeholders (PDict d) = concat (map (\<lambda>p. collect_placeholders (snd p)) d)"
| "collect_placeholders (PList vs) = concat (map collect_placeholders vs)"
| "collect_placeholders _ = []"

definition config_bindings :: "string \<Rightarrow> string \<Rightarrow> (string \<times> string) list" where
  "config_bindings engine_o bff =
     [(''dispatch_endpoint'', engine_o @ ''/write_item_state''),
      (''publish_endpoint'', bff @ ''/internal/human_tasks/register''),
      (''origin_write_endpoint'', bff @ ''/internal/origin/write'')]"

text \<open>A trigger's strings and numbers bind, over the configuration's; \<open>rend\<close> is \<open>str\<close> of a number.\<close>

definition trigger_bindings :: "(pyval \<Rightarrow> string) \<Rightarrow> pydict \<Rightarrow> (string \<times> string) list" where
  "trigger_bindings rend trigger = List.map_filter (\<lambda>p. case snd p of
     PStr s \<Rightarrow> Some (fst p, s)
   | PInt _ \<Rightarrow> Some (fst p, rend (snd p))
   | PFloat _ \<Rightarrow> Some (fst p, rend (snd p))
   | PBool _ \<Rightarrow> Some (fst p, rend (snd p))
   | _ \<Rightarrow> None) trigger"

definition fill :: "(string \<times> string) list \<Rightarrow> string \<Rightarrow> string" where
  "fill bs s = concat (map (\<lambda>p. case p of
     Literal c \<Rightarrow> [c]
   | Hole n \<Rightarrow> (case map_of bs n of Some v \<Rightarrow> v | None \<Rightarrow> ''{'' @ n @ ''}'')) (pieces s))"

fun substitute :: "(string \<times> string) list \<Rightarrow> pyval \<Rightarrow> pyval" where
  "substitute bs (PStr s) = PStr (fill bs s)"
| "substitute bs (PDict d) = PDict (map (\<lambda>p. (fst p, substitute bs (snd p))) d)"
| "substitute bs (PList vs) = PList (map (substitute bs) vs)"
| "substitute bs v = v"

definition bindings_for :: "(pyval \<Rightarrow> string) \<Rightarrow> (string \<times> string) list \<Rightarrow> pydict \<Rightarrow> (string \<times> string) list" where
  "bindings_for rend config trigger = trigger_bindings rend trigger @ config"

definition bind_placeholders ::
  "(pyval \<Rightarrow> string) \<Rightarrow> (string \<times> string) list \<Rightarrow> pyval \<Rightarrow> pydict \<Rightarrow> definition_error + pyval" where
  "bind_placeholders rend config definition trigger =
     (let bs = bindings_for rend config trigger;
          missing = sort (remdups (filter (\<lambda>n. n \<notin> fst ` set bs) (collect_placeholders definition))) in
      if missing \<noteq> [] then Inl (UnboundPlaceholder missing) else Inr (substitute bs definition))"

subsection \<open>Verbs declared before they are served\<close>

record stub_verb =
  sv_verb :: string
  sv_retired_by :: string
  sv_returns :: pyval

definition read_stub :: "pydict \<Rightarrow> definition_error + stub_verb" where
  "read_stub d =
     bind_r (known_fields [''verb'', ''stub'', ''retired_by'', ''returns''] d) (\<lambda>_.
     bind_r (req_nonempty d ''verb'') (\<lambda>v.
     bind_r (require_r (dget d ''stub'' = PBool True) (BadField ''stub'')) (\<lambda>_.
     bind_r (req_nonempty d ''retired_by'') (\<lambda>r.
     bind_r (require_r (has_key d ''returns'') (BadField ''returns'')) (\<lambda>_.
       Inr \<lparr>sv_verb = v, sv_retired_by = r, sv_returns = dget d ''returns''\<rparr>)))))"

text \<open>The files of the verb directories in order; a document without \<open>stub\<close> is another kind's.\<close>

fun load_stub_verbs :: "yaml_file list \<Rightarrow> (string \<times> stub_verb) list \<Rightarrow> definition_error + (string \<times> stub_verb) list" where
  "load_stub_verbs [] out = Inr out"
| "load_stub_verbs (f # fs) out = (case f of
     NotReadable \<Rightarrow> Inl Unreadable
   | Document (PDict d) \<Rightarrow>
       if \<not> has_key d ''stub'' then load_stub_verbs fs out
       else bind_r (read_stub d) (\<lambda>v.
         if sv_verb v \<in> fst ` set out then Inl (DuplicateId (sv_verb v))
         else load_stub_verbs fs (out @ [(sv_verb v, v)]))
   | Document _ \<Rightarrow> load_stub_verbs fs out)"

subsection \<open>What an accepted definition is\<close>

lemma repeated_Nil: "repeated xs = [] \<longleftrightarrow> distinct xs"
proof -
  have "distinct xs \<longleftrightarrow> (\<forall>x \<in> set xs. count_list xs x \<le> 1)"
  proof (induction xs)
    case (Cons a xs)
    then show ?case by (auto simp: count_list_0_iff split: if_splits)
  qed simp
  moreover have "repeated xs = [] \<longleftrightarrow> filter (\<lambda>x. 1 < count_list xs x) xs = []"
    unfolding repeated_def by (metis remdups_eq_nil_iff set_empty set_sort)
  ultimately show ?thesis by (auto simp: filter_empty_conv not_less)
qed

definition completion_ok :: "completion_policy \<Rightarrow> bool" where
  "completion_ok c \<longleftrightarrow> (cp_quorum c = NofM \<longleftrightarrow> cp_threshold c \<noteq> None) \<and> (\<forall>n. cp_threshold c = Some n \<longrightarrow> 2 \<le> n)"

definition body_ok :: "step_body \<Rightarrow> bool" where
  "body_ok b \<longleftrightarrow> (case b of
     HumanAwait h \<Rightarrow> completion_ok (ha_completion h) \<and>
       (ha_approves h \<noteq> [] \<longrightarrow> (\<exists>r. ha_role h = Some r \<and> r \<noteq> [])) \<and>
       (cp_mode (ha_completion h) = Grouped \<longrightarrow>
          ha_approves h = [] \<and> ha_excludes h = [] \<and> ha_chooses_from h \<in> {None, Some []}) \<and>
       (\<forall>n. ha_deadline h = Some n \<longrightarrow> 0 < n)
   | SignalAwait s \<Rightarrow> sa_accepts s \<noteq> [] \<and> set (sa_reason_required s) \<subseteq> set (sa_accepts s) \<and> is_name (sa_signal s)
   | DirectCall e c x oc \<Rightarrow> c \<noteq> []
   | DispatchFanout c \<Rightarrow> c \<noteq> []
   | Wait n \<Rightarrow> 0 < n
   | Emit c t ds \<Rightarrow> is_name c
   | _ \<Rightarrow> True)"

definition declared_ok :: "workflow_definition \<Rightarrow> bool" where
  "declared_ok wd \<longleftrightarrow> wd_steps wd \<noteq> [] \<and> distinct (map ws_id (wd_steps wd)) \<and>
     distinct (List.map_filter awaited_name (wd_steps wd)) \<and>
     (\<forall>s \<in> set (wd_steps wd). body_ok (ws_body s)) \<and>
     (\<forall>i < length (wd_steps wd). \<forall>st. ws_stage (wd_steps wd ! i) = Some st \<longrightarrow>
        st \<in> set (wd_stages wd) \<and> observable_at i (wd_steps wd ! i))"

lemma stages_are_observable_Inr:
  "stages_are_observable stages n ss = Inr u \<Longrightarrow> i < length ss \<Longrightarrow> ws_stage (ss ! i) = Some st \<Longrightarrow>
     st \<in> set stages \<and> observable_at (n + i) (ss ! i)"
proof (induction ss arbitrary: n i)
  case (Cons s ss)
  show ?case
  proof (cases i)
    case 0
    with Cons.prems show ?thesis by (auto split: option.splits if_splits)
  next
    case (Suc j)
    have "stages_are_observable stages (Suc n) ss = Inr u"
      using Cons.prems(1) by (auto split: option.splits if_splits)
    from Cons.IH [OF this, of j] Cons.prems Suc show ?thesis by simp
  qed
qed simp

lemma threshold_ok: "threshold_matches_quorum c = Inr u \<Longrightarrow> completion_ok c"
  by (auto simp: threshold_matches_quorum_def completion_ok_def split: quorum.splits option.splits)

lemma read_completion_ok: "read_completion co d = Inr c \<Longrightarrow> completion_ok c"
  by (auto simp: read_completion_def bind_r_Inr Let_def dest: threshold_ok)

lemma positive_ok: "positive co d f = Inr (Some n) \<Longrightarrow> 0 < n"
  by (auto simp: positive_def split: pyval.splits option.splits if_splits)

lemma approval_ok:
  "an_approval_has_a_role h = Inr u \<Longrightarrow> (ha_approves h \<noteq> [] \<longrightarrow> (\<exists>r. ha_role h = Some r \<and> r \<noteq> [])) \<and>
     (cp_mode (ha_completion h) = Grouped \<longrightarrow>
        ha_approves h = [] \<and> ha_excludes h = [] \<and> ha_chooses_from h \<in> {None, Some []})"
  by (auto simp: an_approval_has_a_role_def bind_r_Inr split: option.splits)

lemma bind_rE: "bind_r x f = Inr y \<Longrightarrow> (\<And>z. x = Inr z \<Longrightarrow> f z = Inr y \<Longrightarrow> P) \<Longrightarrow> P"
  by (auto simp: bind_r_Inr)

lemma await_fields_Inr:
  "await_fields co d = Inr h \<Longrightarrow>
     await_completion co d = Inr (ha_completion h) \<and> positive co d ''deadline_seconds'' = Inr (ha_deadline h)"
  unfolding await_fields_def by (elim bind_rE) (simp only: sum.inject, hypsubst, simp)

lemma await_completion_ok: "await_completion co d = Inr c \<Longrightarrow> completion_ok c"
  by (auto simp: await_completion_def default_completion_def completion_ok_def [of "\<lparr>cp_mode = _, cp_quorum = _, cp_threshold = _, cp_claiming = _\<rparr>"]
      split: if_splits pyval.splits dest: read_completion_ok)

lemma read_human_await_ok: "read_human_await co d = Inr b \<Longrightarrow> body_ok b"
  unfolding read_human_await_def
proof (elim bind_rE)
  fix h u
  assume h: "await_fields co d = Inr h" and u: "an_approval_has_a_role h = Inr u" and b: "Inr (HumanAwait h) = Inr b"
  from await_fields_Inr [OF h] await_completion_ok positive_ok approval_ok [OF u] show "body_ok b"
    using b [symmetric] by (fastforce simp: body_ok_def)
qed

lemma read_kinds_ok:
  "read_spo_operation d = Inr b \<Longrightarrow> body_ok b" "read_direct_call d = Inr b \<Longrightarrow> body_ok b"
  "read_dispatch_fanout d = Inr b \<Longrightarrow> body_ok b" "read_render d = Inr b \<Longrightarrow> body_ok b"
  "read_emit d = Inr b \<Longrightarrow> body_ok b"
  by (auto simp: read_spo_operation_def read_direct_call_def read_dispatch_fanout_def read_render_def read_emit_def
      body_ok_def req_nonempty_def req_name_def elim!: bind_rE)

lemma read_wait_ok: "read_wait co d = Inr b \<Longrightarrow> body_ok b"
  by (auto simp: read_wait_def body_ok_def elim!: bind_rE split: option.splits) (erule positive_ok)

lemma read_signal_await_ok: "read_signal_await co d = Inr b \<Longrightarrow> body_ok b"
  unfolding read_signal_await_def Let_def
  by (elim bind_rE) (auto simp: body_ok_def req_name_def reasons_are_accepted_def elim!: bind_rE)

lemma read_body_ok: "read_body co kind d = Inr b \<Longrightarrow> body_ok b"
  by (auto simp: read_body_def split: if_splits intro: read_human_await_ok read_kinds_ok read_wait_ok read_signal_await_ok)

lemma map_r_all: "map_r f xs = Inr ys \<Longrightarrow> (\<And>x y. f x = Inr y \<Longrightarrow> P y) \<Longrightarrow> \<forall>y \<in> set ys. P y"
  by (induction xs arbitrary: ys) (auto simp: bind_r_Inr)

lemma read_step_ok: "read_step co v = Inr s \<Longrightarrow> body_ok (ws_body s)"
  by (auto simp: read_step_def bind_r_Inr dest: read_body_ok split: pyval.splits)

text \<open>
  What a definition that loads declares: step ids are unique, no two awaits suspend on one promise,
  a threshold stands exactly with a quorum that needs it, an approval names its role, a grouped
  await declares no exclusion, approval or choice, every capability is named, and a stage is
  declared only on a step whose beginning can be observed.
\<close>

lemma loaded_definitions_are_declared_ok:
  assumes "load_workflow_definition co f = Inr wd"
  shows "declared_ok wd"
proof -
  from assms obtain d ss vs where ss: "map_r (read_step co) vs = Inr ss" "ss \<noteq> []" "wd_steps wd = ss"
    and v: "validate_definition wd = Inr wd"
    by (auto simp: load_workflow_definition_def read_definition_def bind_r_Inr validate_definition_def
        split: yaml_file.splits pyval.splits)
  have "\<forall>s \<in> set ss. body_ok (ws_body s)" by (rule map_r_all [OF ss(1)]) (rule read_step_ok)
  moreover from v have "step_ids_are_unique wd = Inr ()" "stages_are_observable (wd_stages wd) 0 (wd_steps wd) = Inr ()"
    by (auto simp: validate_definition_def bind_r_Inr)
  ultimately show ?thesis using ss stages_are_observable_Inr [of "wd_stages wd" 0 "wd_steps wd"]
    by (auto simp: declared_ok_def step_ids_are_unique_def Let_def bind_r_Inr repeated_Nil)
qed

definition plain_coercion :: coercion where
  "plain_coercion = \<lparr>as_int = (\<lambda>v. case v of PInt n \<Rightarrow> Some n | _ \<Rightarrow> None), as_bool = (\<lambda>v. case v of PBool b \<Rightarrow> Some b | _ \<Rightarrow> None)\<rparr>"

definition wait_document :: "string \<Rightarrow> pyval" where
  "wait_document wid = PDict [(''id'', PStr wid), (''name'', PStr ''n''),
     (''steps'', PList [PDict [(''kind'', PStr ''wait''), (''id'', PStr ''s''), (''seconds'', PInt 5)]])]"

definition reply_step :: "string \<Rightarrow> pydict \<Rightarrow> pyval" where
  "reply_step i d = PDict ([(''kind'', PStr ''signal_await''), (''id'', PStr i), (''signal'', PStr ''reply''),
     (''audience'', PStr ''desk''), (''accepts'', PList [PStr ''ok'', PStr ''no''])] @ d)"

definition reply_document :: yaml_file where
  "reply_document = Document (PDict [(''id'', PStr ''w''), (''name'', PStr ''n''), (''domain_stages'', PList [PStr ''asked'']),
     (''steps'', PList [reply_step ''a'' [(''stage'', PStr ''asked''), (''reason_required'', PList [PStr ''no''])],
        PDict [(''kind'', PStr ''wait''), (''id'', PStr ''s''), (''seconds'', PInt 5)]])])"

lemma loaded_definitions_are_declared_ok_witness:
  "\<exists>wd. load_workflow_definition plain_coercion reply_document = Inr wd \<and> declared_ok wd \<and> length (wd_steps wd) = 2"
proof -
  have "(case load_workflow_definition plain_coercion reply_document of Inr wd \<Rightarrow> length (wd_steps wd) = 2 | Inl e \<Rightarrow> False)"
    by code_simp
  then obtain wd where wd: "load_workflow_definition plain_coercion reply_document = Inr wd" "length (wd_steps wd) = 2"
    by (auto split: sum.splits)
  with loaded_definitions_are_declared_ok [OF wd(1)] show ?thesis by blast
qed

subsection \<open>What the registry answers\<close>

lemma map_of_update_each:
  "map_of (fold (\<lambda>p. AList.update (fst p) v) ps acc) k = (if k \<in> fst ` set ps then Some v else map_of acc k)"
  by (induction ps arbitrary: acc) (auto simp: update_conv')

lemma resolved_from_last:
  "map_of (resolved_from dirs) wid = map_option di_path (find (\<lambda>d. file_in wid d \<noteq> None) (rev dirs))"
proof (induction dirs rule: rev_induct)
  case Nil
  then show ?case by (simp add: resolved_from_def)
next
  case (snoc d ds)
  have "file_in wid d \<noteq> None \<longleftrightarrow> di_exists d \<and> wid \<in> fst ` set (di_files d)"
    by (simp add: file_in_def map_of_eq_None_iff del: not_None_eq)
  with snoc show ?case by (simp add: resolved_from_def map_of_update_each)
qed

lemma map_filter_find: "List.map_filter f xs = (case find (\<lambda>x. f x \<noteq> None) xs of
    None \<Rightarrow> [] | Some x \<Rightarrow> the (f x) # List.map_filter f (tl (dropWhile (\<lambda>x. f x = None) xs)))"
  by (induction xs) (auto simp: List.map_filter_simps split: option.splits)

text \<open>
  The witness of a roll tells what a run will read: an id is in the inventory exactly when some
  directory holds its file; and an id that no two overlays declare is read from the very directory
  the witness names, the last that holds it, whole and never merged with another's.
\<close>

theorem registry_witness_names_what_runs:
  assumes "length (filter (\<lambda>d. file_in wid d \<noteq> None) (tl dirs)) \<le> 1"
  shows "(wid \<in> set (registry_ids dirs) \<longleftrightarrow> (\<exists>d \<in> set dirs. file_in wid d \<noteq> None)) \<and>
     (wid \<in> set (registry_ids dirs) \<longrightarrow> (\<exists>d \<in> set dirs. \<exists>f. file_in wid d = Some f \<and>
        map_of (resolved_from dirs) wid = Some (di_path d) \<and>
        get_workflow_definition co dirs wid = load_workflow_definition co f)) \<and>
     (wid \<notin> set (registry_ids dirs) \<longrightarrow> get_workflow_definition co dirs wid \<in> {Inl NoDirectory, Inl (NoDefinition wid)})"
proof -
  have ids: "wid \<in> set (registry_ids dirs) \<longleftrightarrow> map_of (resolved_from dirs) wid \<noteq> None"
    by (auto simp: registry_ids_def map_of_eq_None_iff)
  show ?thesis
  proof (cases "find (\<lambda>d. file_in wid d \<noteq> None) (rev dirs)")
    case None
    then have none: "\<forall>d \<in> set dirs. file_in wid d = None" by (auto simp: find_None_iff)
    then have "List.map_filter (file_in wid) (rev dirs) = []" by (simp add: List.map_filter_def)
    then have "get_workflow_definition co dirs wid \<in> {Inl NoDirectory, Inl (NoDefinition wid)}"
      using assms by (auto simp: get_workflow_definition_def)
    with None none show ?thesis by (auto simp: ids resolved_from_last)
  next
    case (Some d)
    then obtain f where d: "d \<in> set dirs" "file_in wid d = Some f" by (auto simp: find_Some_iff) (metis nth_mem length_rev set_rev)
    have ex: "list_ex di_exists dirs" using d by (auto simp: list_ex_iff file_in_def split: if_splits)
    have "get_workflow_definition co dirs wid = load_workflow_definition co f"
      using Some d assms ex by (simp add: get_workflow_definition_def map_filter_find [of _ "rev dirs"])
    with Some d show ?thesis by (auto simp: ids resolved_from_last)
  qed
qed

lemma registry_witness_names_what_runs_witness:
  "let dirs = [\<lparr>di_path = ''seed'', di_exists = True, di_files = [(''a'', NotReadable)]\<rparr>,
               \<lparr>di_path = ''over'', di_exists = True, di_files = [(''a'', reply_document)]\<rparr>] in
   map_of (resolved_from dirs) ''a'' = Some ''over'' \<and>
   get_workflow_definition plain_coercion dirs ''a'' = load_workflow_definition plain_coercion reply_document"
proof -
  let ?dirs = "[\<lparr>di_path = ''seed'', di_exists = True, di_files = [(''a'', NotReadable)]\<rparr>,
               \<lparr>di_path = ''over'', di_exists = True, di_files = [(''a'', reply_document)]\<rparr>] :: wf_dir list"
  have r: "map_of (resolved_from ?dirs) ''a'' = Some ''over''" "''a'' \<in> set (registry_ids ?dirs)" by code_simp+
  have "length (filter (\<lambda>d. file_in ''a'' d \<noteq> None) (tl ?dirs)) \<le> 1" by (simp add: file_in_def)
  from registry_witness_names_what_runs [OF this, of plain_coercion] r(2)
  obtain d f where d: "d \<in> set ?dirs" "file_in ''a'' d = Some f" "map_of (resolved_from ?dirs) ''a'' = Some (di_path d)"
    "get_workflow_definition plain_coercion ?dirs ''a'' = load_workflow_definition plain_coercion f" by blast
  from d(1,2) consider "d = hd ?dirs" | "f = reply_document" by (auto simp: file_in_def)
  then have "f = reply_document" using d(3) r(1) by cases simp_all
  with d(4) r(1) show ?thesis by (simp add: Let_def)
qed

text \<open>The lookup goes by file name; the id the document declares is not compared with it.\<close>

lemma lookup_is_by_file_name:
  "\<exists>wd. get_workflow_definition plain_coercion [\<lparr>di_path = ''p'', di_exists = True,
      di_files = [(''approval'', Document (wait_document ''other''))]\<rparr>] ''approval'' = Inr wd \<and> wd_id wd = ''other''"
proof -
  let ?g = "get_workflow_definition plain_coercion [\<lparr>di_path = ''p'', di_exists = True,
      di_files = [(''approval'', Document (wait_document ''other''))]\<rparr>] ''approval''"
  have "(case ?g of Inr wd \<Rightarrow> wd_id wd = ''other'' | Inl e \<Rightarrow> False)" by code_simp
  then show ?thesis by (auto split: sum.splits)
qed

subsection \<open>What is bound\<close>

declare pieces.simps(2) [simp del]

lemma fill_no_holes: "holes s = [] \<Longrightarrow> fill bs s = s"
proof -
  have "concat (map (\<lambda>p. case p of Literal c \<Rightarrow> [c] | Hole n \<Rightarrow> ''{'' @ n @ ''}'') (pieces s)) = s" for s
  proof (induction s rule: pieces.induct)
    case (2 c cs)
    show ?case
    proof (cases "if c = CHR ''{'' then hole_at cs else None")
      case None
      with 2 show ?thesis by (simp add: pieces.simps(2))
    next
      case (Some name)
      then have c: "c = CHR ''{''" and h: "hole_at cs = Some name" by (auto split: if_splits)
      from h have name: "name = takeWhile is_name_char cs" "take 1 (drop (length name) cs) = ''}''"
        by (auto simp: hole_at_def Let_def split: if_splits)
      have "cs = name @ drop (length name) cs" using takeWhile_dropWhile_id [of is_name_char cs] by (simp add: dropWhile_eq_drop flip: name(1))
      moreover have "drop (length name) cs = CHR ''}'' # drop (Suc (length name)) cs"
        using name(2) by (cases "drop (length name) cs") (simp_all add: drop_Suc flip: tl_drop)
      ultimately have "cs = name @ CHR ''}'' # drop (Suc (length name)) cs" by metis
      with 2(2) [OF Some] Some c show ?thesis by (simp add: pieces.simps(2))
    qed
  qed simp
  moreover assume "holes s = []"
  then have "\<forall>p \<in> set (pieces s). \<exists>c. p = Literal c"
    by (auto simp: holes_def List.map_filter_def filter_empty_conv split: piece.splits) (metis piece.exhaust)
  then have "fill bs s = concat (map (\<lambda>p. case p of Literal c \<Rightarrow> [c] | Hole n \<Rightarrow> ''{'' @ n @ ''}'') (pieces s))"
    unfolding fill_def by (intro arg_cong [where f = concat] map_cong) auto
  ultimately show ?thesis by simp
qed

lemma substitute_no_holes: "collect_placeholders v = [] \<Longrightarrow> substitute bs v = v"
proof (induction v)
  case (PDict d)
  have "(fst p, substitute bs (snd p)) = p" if "p \<in> set d" for p
    using PDict.IH [of p "snd p"] PDict.prems that by (cases p) auto
  then show ?case by (simp add: map_idI)
qed (auto simp: fill_no_holes map_idI)

text \<open>
  Every placeholder is bound before the run or refused by name: binding fails exactly when some
  placeholder of the definition is neither the configuration's nor the trigger's, and then names all
  of those, sorted and once each; a trigger's own value wins over the configuration's; and a
  definition without placeholders is run as it was asserted.
\<close>

theorem binding_is_total_or_refused:
  "(case bind_placeholders rend config v trigger of
     Inl e \<Rightarrow> \<exists>missing. e = UnboundPlaceholder missing \<and> missing \<noteq> [] \<and> distinct missing \<and> sorted missing \<and>
       set missing = {n \<in> set (collect_placeholders v). n \<notin> fst ` set (trigger_bindings rend trigger) \<and> n \<notin> fst ` set config}
   | Inr v' \<Rightarrow> v' = substitute (bindings_for rend config trigger) v \<and>
       set (collect_placeholders v) \<subseteq> fst ` set (bindings_for rend config trigger) \<and>
       (collect_placeholders v = [] \<longrightarrow> v' = v)) \<and>
   (n \<in> fst ` set (trigger_bindings rend trigger) \<longrightarrow>
      map_of (bindings_for rend config trigger) n = map_of (trigger_bindings rend trigger) n)"
proof -
  let ?bs = "bindings_for rend config trigger"
  let ?m = "sort (remdups (filter (\<lambda>n. n \<notin> fst ` set ?bs) (collect_placeholders v)))"
  have s: "set ?m = {n \<in> set (collect_placeholders v). n \<notin> fst ` set (trigger_bindings rend trigger) \<and> n \<notin> fst ` set config}"
    by (auto simp: bindings_for_def)
  have e: "?m = [] \<longleftrightarrow> set (collect_placeholders v) \<subseteq> fst ` set ?bs"
  proof -
    have "?m = [] \<longleftrightarrow> set ?m = {}" by (simp only: set_empty)
    then show ?thesis by (auto simp del: set_empty)
  qed
  have "map_of ?bs n = map_of (trigger_bindings rend trigger) n" if "n \<in> fst ` set (trigger_bindings rend trigger)"
    using that by (auto simp: bindings_for_def map_add_def map_of_eq_None_iff split: option.splits)
  moreover have "case bind_placeholders rend config v trigger of
     Inl e \<Rightarrow> \<exists>missing. e = UnboundPlaceholder missing \<and> missing \<noteq> [] \<and> distinct missing \<and> sorted missing \<and>
       set missing = {n \<in> set (collect_placeholders v). n \<notin> fst ` set (trigger_bindings rend trigger) \<and> n \<notin> fst ` set config}
   | Inr v' \<Rightarrow> v' = substitute ?bs v \<and> set (collect_placeholders v) \<subseteq> fst ` set ?bs \<and> (collect_placeholders v = [] \<longrightarrow> v' = v)"
  proof (cases "?m = []")
    case True
    then have "bind_placeholders rend config v trigger = Inr (substitute ?bs v)" by (simp add: bind_placeholders_def Let_def)
    with True e substitute_no_holes show ?thesis by simp
  next
    case False
    then have "bind_placeholders rend config v trigger = Inl (UnboundPlaceholder ?m)" by (simp add: bind_placeholders_def Let_def)
    with False s show ?thesis by simp
  qed
  ultimately show ?thesis by blast
qed

lemma binding_is_total_or_refused_witness:
  "bind_placeholders (\<lambda>_. []) [(''bff'', ''http'')] (PStr ''{bff}/{item}'') [(''item'', PStr ''7'')] =
     Inr (substitute (bindings_for (\<lambda>_. []) [(''bff'', ''http'')] [(''item'', PStr ''7'')]) (PStr ''{bff}/{item}'')) \<and>
   map_of (bindings_for (\<lambda>_. []) [(''item'', ''0'')] [(''item'', PStr ''7'')]) ''item'' = Some ''7''"
proof -
  have b: "\<exists>v'. bind_placeholders (\<lambda>_. []) [(''bff'', ''http'')] (PStr ''{bff}/{item}'') [(''item'', PStr ''7'')] = Inr v'"
    by (intro exI) code_simp
  have "map_of (bindings_for (\<lambda>_. []) [(''item'', ''0'')] [(''item'', PStr ''7'')]) ''item'' =
      map_of (trigger_bindings (\<lambda>_. []) [(''item'', PStr ''7'')]) ''item''"
    using binding_is_total_or_refused [where rend = "\<lambda>_. []" and config = "[(''item'', ''0'')]" and v = "PStr []" and trigger = "[(''item'', PStr ''7'')]" and n = "''item''"]
    by (simp add: trigger_bindings_def)
  moreover have "map_of (trigger_bindings (\<lambda>_. []) [(''item'', PStr ''7'')]) ''item'' = Some ''7''" by code_simp
  ultimately show ?thesis
    using b binding_is_total_or_refused [where rend = "\<lambda>_. []" and config = "[(''bff'', ''http'')]" and v = "PStr ''{bff}/{item}''" and trigger = "[(''item'', PStr ''7'')]" and n = "[]"]
    by auto
qed

text \<open>A value put between braces the definition already has is a placeholder again, and is not refused.\<close>

lemma nested_braces_leave_a_placeholder:
  "bind_placeholders (\<lambda>_. []) [] (PStr ''{{level}}'') [(''level'', PStr ''high'')] = Inr (PStr ''{high}'') \<and>
   collect_placeholders (PStr ''{high}'') = [''high'']"
  by code_simp

end
