(* ===== verification/Run_Context.thy ===== *)
theory Run_Context
  imports Workflow_Definition Case_Routing
begin

text \<open>
  What a definition reads while it runs, of \<^verbatim>\<open>agent_fleet/restate_analyst/main.py\<close>: the dotted paths
  into the run's context (\<open>_resolve_path\<close>), the templates (\<open>_render\<close>), the placeholders of a step's
  fields (\<open>_bind_placeholders\<close>) and the sentence a card carries about its verbs
  (\<open>_choice_consequence_text\<close>). A refusal is \<open>Fails\<close> with its status: the run fails for good.
  \<open>Retried\<close> is any other exception, after which the durable run is repeated, and \<open>Waits\<close> a run
  that waits. Letters and digits are those of ASCII.
\<close>

datatype run_error = Fails int | Retried | Waits

subsection \<open>Paths\<close>

definition is_digit :: "char \<Rightarrow> bool" where
  "is_digit c \<longleftrightarrow> 48 \<le> code_of c \<and> code_of c \<le> 57"

definition is_upper :: "char \<Rightarrow> bool" where
  "is_upper c \<longleftrightarrow> 65 \<le> code_of c \<and> code_of c \<le> 90"

definition all_digits :: "string \<Rightarrow> bool" where
  "all_digits s \<longleftrightarrow> s \<noteq> [] \<and> list_all is_digit s"

definition index_of :: "string \<Rightarrow> nat" where
  "index_of s = fold (\<lambda>c n. 10 * n + (code_of c - 48)) s 0"

definition ends_safe :: "string \<Rightarrow> bool" where
  "ends_safe seg \<longleftrightarrow> seg \<noteq> [] \<and> last seg = CHR ''?''"

definition child :: "pyval \<Rightarrow> string \<Rightarrow> pyval option" where
  "child node seg = (case node of
     PList vs \<Rightarrow> if all_digits seg \<and> index_of seg < length vs then Some (vs ! index_of seg) else None
   | PDict d \<Rightarrow> map_of d seg
   | _ \<Rightarrow> None)"

text \<open>\<open>None\<close> is not found; a field that is present and null is found.\<close>

fun walk :: "bool \<Rightarrow> string list \<Rightarrow> pyval \<Rightarrow> pyval option" where
  "walk null_safe [] node = Some node"
| "walk null_safe (seg # segs) node =
     (let safe = null_safe \<and> ends_safe seg in
      (case child node (if safe then butlast seg else seg) of
         None \<Rightarrow> None
       | Some v \<Rightarrow> if safe \<and> v = PNone then Some PNone else walk null_safe segs v))"

definition resolve_path :: "bool \<Rightarrow> pydict \<Rightarrow> string \<Rightarrow> pyval option" where
  "resolve_path null_safe context path = walk null_safe (py_split (CHR ''.'') path) (PDict context)"

subsection \<open>Placeholders\<close>

definition is_ident :: "string \<Rightarrow> bool" where
  "is_ident s = (case s of [] \<Rightarrow> False | c # cs \<Rightarrow> (is_lower c \<or> is_upper c \<or> c = CHR ''_'') \<and>
     list_all (\<lambda>c. is_lower c \<or> is_upper c \<or> is_digit c \<or> c = CHR ''_'') cs)"

definition is_segment :: "string \<Rightarrow> bool" where
  "is_segment s \<longleftrightarrow> is_ident s \<or> all_digits s"

definition drop_safe :: "string \<Rightarrow> string" where
  "drop_safe seg = (if ends_safe seg then butlast seg else seg)"

text \<open>The two patterns: a path, and one in which any step but the last may be null-safe.\<close>

definition plain_path :: "string \<Rightarrow> bool" where
  "plain_path p = (let segs = py_split (CHR ''.'') p in is_ident (hd segs) \<and> list_all is_segment (tl segs))"

definition safe_path :: "string \<Rightarrow> bool" where
  "safe_path p = (let segs = py_split (CHR ''.'') p; bare = map drop_safe (butlast segs) @ [last segs] in
     is_ident (hd bare) \<and> list_all is_segment (tl bare))"

definition hole_of :: "(string \<Rightarrow> bool) \<Rightarrow> string \<Rightarrow> string option" where
  "hole_of valid cs = (let path = takeWhile (\<lambda>c. c \<noteq> CHR ''}'') cs in
     if length path < length cs \<and> valid path then Some path else None)"

function cut :: "(string \<Rightarrow> bool) \<Rightarrow> string \<Rightarrow> piece list" where
  "cut valid [] = []"
| "cut valid (c # cs) = (case (if c = CHR ''{'' then hole_of valid cs else None) of
     Some path \<Rightarrow> Hole path # cut valid (drop (Suc (length path)) cs)
   | None \<Rightarrow> Literal c # cut valid cs)"
  by pat_completeness auto
termination by (relation "measure (length \<circ> snd)") auto

definition paths_in :: "piece list \<Rightarrow> string list" where
  "paths_in ps = List.map_filter (\<lambda>p. case p of Hole n \<Rightarrow> Some n | Literal _ \<Rightarrow> None) ps"

definition whole_hole :: "string \<Rightarrow> string option" where
  "whole_hole s = (case cut safe_path s of [Hole p] \<Rightarrow> Some p | _ \<Rightarrow> None)"

subsection \<open>Templates\<close>

text \<open>The text of a scalar, where a value has one in an interpolated string.\<close>

definition scalar_text :: "(pyval \<Rightarrow> string) \<Rightarrow> pyval option \<Rightarrow> string option" where
  "scalar_text rend v = (case v of
     None \<Rightarrow> None
   | Some PNone \<Rightarrow> None
   | Some w \<Rightarrow> if scalar w then Some (str_of rend w) else None)"

fun fill_pieces :: "(string \<Rightarrow> string option) \<Rightarrow> piece list \<Rightarrow> string" where
  "fill_pieces val [] = []"
| "fill_pieces val (p # ps) = (case p of
     Literal c \<Rightarrow> [c]
   | Hole n \<Rightarrow> (case val n of Some t \<Rightarrow> t | None \<Rightarrow> ''{'' @ n @ ''}'')) @ fill_pieces val ps"

definition unfilled :: "(string \<Rightarrow> string option) \<Rightarrow> piece list \<Rightarrow> string list" where
  "unfilled val ps = filter (\<lambda>n. val n = None) (paths_in ps)"

definition render_string :: "(pyval \<Rightarrow> string) \<Rightarrow> pydict \<Rightarrow> string \<Rightarrow> run_error + pyval" where
  "render_string rend context t = (case whole_hole t of
     Some p \<Rightarrow> (case resolve_path True context p of Some v \<Rightarrow> Inr v | None \<Rightarrow> Inl (Fails 400))
   | None \<Rightarrow>
       if list_ex (\<lambda>p. CHR ''?'' \<in> set p) (paths_in (cut safe_path t)) then Inl (Fails 400)
       else (let val = (\<lambda>p. scalar_text rend (resolve_path False context p)); ps = cut plain_path t in
         if unfilled val ps \<noteq> [] then Inl (Fails 400) else Inr (PStr (fill_pieces val ps))))"

lemma map_r_cong [fundef_cong]:
  "xs = ys \<Longrightarrow> (\<And>x. x \<in> set ys \<Longrightarrow> f x = g x) \<Longrightarrow> map_r f xs = map_r g ys"
  by (induction xs arbitrary: ys) (auto simp: bind_r_def split: sum.split)

fun render :: "(pyval \<Rightarrow> string) \<Rightarrow> pydict \<Rightarrow> pyval \<Rightarrow> run_error + pyval" where
  "render rend context (PStr t) = render_string rend context t"
| "render rend context (PDict d) = bind_r (map_r (\<lambda>p. bind_r (render rend context (snd p)) (\<lambda>v. Inr (fst p, v))) d)
     (\<lambda>e. Inr (PDict e))"
| "render rend context (PList vs) = bind_r (map_r (render rend context) vs) (\<lambda>ws. Inr (PList ws))"
| "render rend context v = Inr v"

subsection \<open>A step's fields\<close>

definition bound_text :: "(pyval \<Rightarrow> string) \<Rightarrow> pydict \<Rightarrow> pydict \<Rightarrow> string \<Rightarrow> string option" where
  "bound_text rend bindings context key =
     (let v = (if CHR ''.'' \<in> set key then resolve_path False context key else map_of bindings key) in
      if v = Some (PStr []) then None else scalar_text rend v)"

definition bind_field :: "(pyval \<Rightarrow> string) \<Rightarrow> pydict \<Rightarrow> pydict \<Rightarrow> bool \<Rightarrow> string \<Rightarrow> run_error + string" where
  "bind_field rend bindings context strict value =
     (let val = bound_text rend bindings context; ps = cut plain_path value in
      if strict \<and> unfilled val ps \<noteq> [] then Inl (Fails 400) else Inr (fill_pieces val ps))"

definition bind_display :: "(pyval \<Rightarrow> string) \<Rightarrow> pydict \<Rightarrow> pydict \<Rightarrow> string option \<Rightarrow> string option" where
  "bind_display rend bindings context value = (case value of
     None \<Rightarrow> None
   | Some s \<Rightarrow> Some (fill_pieces (bound_text rend bindings context) (cut plain_path s)))"

text \<open>The trigger's scalars, and \<open>n\<close> for a batch.\<close>

definition run_bindings :: "pydict \<Rightarrow> pydict" where
  "run_bindings request =
     (let bs = filter (\<lambda>p. scalar (snd p) \<and> snd p \<noteq> PNone) request in
      (case dget request ''batch_items'' of
         PList vs \<Rightarrow> AList.update ''n'' (PInt (int (length vs))) bs
       | _ \<Rightarrow> bs))"

fun join_text :: "string \<Rightarrow> string list \<Rightarrow> string" where
  "join_text sep [] = []"
| "join_text sep [s] = s"
| "join_text sep (s # t # ss) = s @ sep @ join_text sep (t # ss)"

definition compose_summary :: "string option \<Rightarrow> string option \<Rightarrow> string option" where
  "compose_summary bound derived =
     (let parts = filter (\<lambda>x. x \<noteq> []) ((case bound of Some b \<Rightarrow> [b] | None \<Rightarrow> []) @ (case derived of Some d \<Rightarrow> [d] | None \<Rightarrow> [])) in
      if parts = [] then bound else Some (join_text '' '' parts))"

subsection \<open>What a card says about its verbs\<close>

record card_world =
  ca_tables :: tables
  ca_accepts :: "string \<Rightarrow> string list option"
  ca_name :: "string \<Rightarrow> string"

definition card_verbs :: "card_world \<Rightarrow> human_await \<Rightarrow> string list" where
  "card_verbs w h = (case (case ha_task_kind h of Some k \<Rightarrow> if k = [] then None else ca_accepts w k | None \<Rightarrow> None) of
     Some accepts \<Rightarrow> filter (\<lambda>v. v \<in> set accepts) (ha_approves h)
   | None \<Rightarrow> ha_approves h)"

definition unrouted :: "consequence \<Rightarrow> bool" where
  "unrouted c = (case c of Leads _ ts \<Rightarrow> ts = [] | Depends _ legs \<Rightarrow> legs = [])"

definition label_for :: "(string \<times> string) list \<Rightarrow> string \<Rightarrow> string" where
  "label_for labels v = (case map_of labels v of Some l \<Rightarrow> l | None \<Rightarrow> v)"

definition cond_text :: "(pyval \<Rightarrow> string) \<Rightarrow> pydict \<Rightarrow> string" where
  "cond_text rend when =
     (let s = join_text '' and '' (map (\<lambda>p. fst p @ '' is '' @
         (case snd p of PBool b \<Rightarrow> py_lower (rend (PBool b)) | v \<Rightarrow> str_of rend v)) when) in
      if s = [] then ''otherwise'' else s)"

definition grouped_verbs :: "consequence list \<Rightarrow> (pyval \<times> string list) list" where
  "grouped_verbs cs = fold (\<lambda>c groups. case c of
     Leads v (t # _) \<Rightarrow> AList.update t ((case map_of groups t of Some vs \<Rightarrow> vs | None \<Rightarrow> []) @ [v]) groups
   | _ \<Rightarrow> groups) cs []"

definition sentences :: "(pyval \<Rightarrow> string) \<Rightarrow> card_world \<Rightarrow> (string \<times> string) list \<Rightarrow> consequence list \<Rightarrow> string list" where
  "sentences rend w labels cs =
     map (\<lambda>(t, vs). ''Choosing '' @ join_text '' or '' (map (label_for labels) vs) @ '' leads to ''
        @ ca_name w (str_of rend t) @ ''.'') (grouped_verbs cs) @
     List.map_filter (\<lambda>c. case c of
         Depends v legs \<Rightarrow> Some (''Choosing '' @ label_for labels v @ '' leads '' @
           join_text '', '' (map (\<lambda>(when, t). ''to '' @ ca_name w (str_of rend t) @ '' when '' @ cond_text rend when) legs) @ ''.'')
       | Leads _ _ \<Rightarrow> None) cs"

definition choice_consequence_text ::
  "(pyval \<Rightarrow> string) \<Rightarrow> card_world \<Rightarrow> string \<Rightarrow> human_await \<Rightarrow> pydict \<Rightarrow> (string \<times> string) list \<Rightarrow> run_error + string option" where
  "choice_consequence_text rend w definition_id h facts labels =
     (let verbs = card_verbs w h in
      if verbs = [] then Inr None
      else (case verb_consequences rend (ca_tables w) definition_id verbs facts of
          Inl _ \<Rightarrow> Inl Retried
        | Inr cs \<Rightarrow>
            if cs = [] then Inr None
            else if list_ex unrouted cs then Inl (Fails 422)
            else Inr (Some (join_text '' '' (sentences rend w labels cs)))))"

definition demo_context :: pydict where
  "demo_context = [(''trigger'', PDict [(''site'', PNone), (''parts'', PList [PStr ''a'', PStr ''b'']), (''n'', PInt 2)])]"

lemma py_split_chars: "c \<in> set s \<Longrightarrow> c = sep \<or> (\<exists>w \<in> set (py_split sep s). c \<in> set w)"
  by (induction s) (auto split: list.splits)

lemma segment_chars: "is_segment s \<Longrightarrow> CHR ''}'' \<notin> set s"
  by (auto simp: is_segment_def is_ident_def all_digits_def list_all_iff is_digit_def is_lower_def is_upper_def code_of_def
      split: list.splits)

lemma drop_safe_chars: "c \<in> set seg \<Longrightarrow> c \<noteq> CHR ''?'' \<Longrightarrow> c \<in> set (drop_safe seg)"
  by (cases seg rule: rev_cases) (auto simp: drop_safe_def ends_safe_def)

lemma safe_path_chars: "safe_path p \<Longrightarrow> CHR ''}'' \<notin> set p"
proof
  let ?segs = "py_split (CHR ''.'') p" and ?bare = "map drop_safe (butlast (py_split (CHR ''.'') p)) @ [last (py_split (CHR ''.'') p)]"
  assume p: "safe_path p" and c: "CHR ''}'' \<in> set p"
  from p have bare: "\<forall>s \<in> set ?bare. is_segment s"
    by (cases ?bare) (auto simp: safe_path_def Let_def list_all_iff is_segment_def)
  from py_split_chars [OF c, of "CHR ''.''"] obtain w where w: "w \<in> set ?segs" "CHR ''}'' \<in> set w" by auto
  then consider "w \<in> set (butlast ?segs)" | "w = last ?segs"
    by (metis append_butlast_last_id in_set_butlastD in_set_conv_decomp_last py_split_nonempty rotate1.simps(2) set_ConsD set_append Un_iff list.set_intros(1) set_rotate1)
  then show False
  proof cases
    case 1
    then have "drop_safe w \<in> set ?bare" by simp
    with bare have "CHR ''}'' \<notin> set (drop_safe w)" using segment_chars by blast
    with drop_safe_chars [OF w(2)] show False by simp
  next
    case 2
    then have "w \<in> set ?bare" by simp
    with bare w(2) segment_chars show False by blast
  qed
qed

lemma whole_hole_brace: "safe_path p \<Longrightarrow> whole_hole (''{'' @ p @ ''}'') = Some p"
proof -
  assume p: "safe_path p"
  have "takeWhile (\<lambda>c. c \<noteq> CHR ''}'') (p @ ''}'') = p"
    using safe_path_chars [OF p] by (subst takeWhile_append2) auto
  with p show ?thesis by (simp add: whole_hole_def hole_of_def)
qed

lemma scalar_text_Some: "scalar_text rend v = Some s \<Longrightarrow> \<exists>w. v = Some w \<and> w \<noteq> PNone \<and> scalar w"
  by (auto simp: scalar_text_def split: option.splits pyval.splits if_splits)

text \<open>
  A template never renders a blank. A string that is one placeholder is the value at its path,
  whatever its type and also when the value is null, and is refused when the path leads nowhere; any
  other string is rendered only when each of its placeholders is a scalar that is there.
\<close>

theorem templates_render_no_blank:
  assumes "safe_path p"
  shows "render rend context (PStr (''{'' @ p @ ''}'')) =
      (case resolve_path True context p of Some v \<Rightarrow> Inr v | None \<Rightarrow> Inl (Fails 400)) \<and>
    (whole_hole t = None \<longrightarrow> render rend context (PStr t) = Inr v \<longrightarrow>
      (\<exists>s. v = PStr s) \<and> (\<forall>q \<in> set (paths_in (cut plain_path t)).
        \<exists>w. resolve_path False context q = Some w \<and> w \<noteq> PNone \<and> scalar w))"
proof (intro conjI impI ballI)
  show "render rend context (PStr (''{'' @ p @ ''}'')) =
      (case resolve_path True context p of Some v \<Rightarrow> Inr v | None \<Rightarrow> Inl (Fails 400))"
    using whole_hole_brace [OF assms] by (simp add: render_string_def)
next
  assume *: "whole_hole t = None" "render rend context (PStr t) = Inr v"
  then show "\<exists>s. v = PStr s" by (auto simp: render_string_def Let_def split: if_splits)
  fix q assume "q \<in> set (paths_in (cut plain_path t))"
  with * obtain s where "scalar_text rend (resolve_path False context q) = Some s"
    by (auto simp: render_string_def Let_def unfilled_def filter_empty_conv split: if_splits)
  then show "\<exists>w. resolve_path False context q = Some w \<and> w \<noteq> PNone \<and> scalar w" by (rule scalar_text_Some)
qed

theorem templates_render_no_blank_witness:
  "render (\<lambda>_. ''2'') demo_context (PStr ''{trigger.site?.name}'') = Inr PNone \<and>
   (\<exists>w. resolve_path False demo_context ''trigger.n'' = Some w \<and> w \<noteq> PNone \<and> scalar w)"
proof -
  have run: "whole_hole ''n is {trigger.n}'' = None" "render (\<lambda>_. ''2'') demo_context (PStr ''n is {trigger.n}'') = Inr (PStr ''n is 2'')"
    "''trigger.n'' \<in> set (paths_in (cut plain_path ''n is {trigger.n}''))" by code_simp+
  have p: "safe_path ''trigger.site?.name''" "resolve_path True demo_context ''trigger.site?.name'' = Some PNone" by code_simp+
  from templates_render_no_blank [OF p(1), of "\<lambda>_. ''2''" demo_context "''n is {trigger.n}''" "PStr ''n is 2''"] run p(2)
  show ?thesis by simp
qed

end
