(* ===== verification/Grouped_Review.thy ===== *)
theory Grouped_Review
  imports Steward_Correction
begin

text \<open>
  \<^verbatim>\<open>agent_fleet/restate_analyst/grouped_review_workflow.py\<close>: the review of one approver's batch. The
  batch the server authored rides the workflow's state; a decision submitted for it is evaluated
  against that batch before the waiting run is woken, and again when it wakes. A policy refusal is a
  \<open>review_refusal\<close>; an exception that is not a \<open>ValueError\<close> is \<open>Malformed\<close>. \<open>can_act\<close> is what the
  authority answers, \<open>None\<close> when it cannot be asked.
\<close>

subsection \<open>The batch in the workflow's state\<close>

definition opt_text :: "string option \<Rightarrow> pyval" where
  "opt_text o' = (case o' of None \<Rightarrow> PNone | Some s \<Rightarrow> PStr s)"

definition text_opt :: "pyval \<Rightarrow> string option" where
  "text_opt v = (case v of PStr s \<Rightarrow> Some s | _ \<Rightarrow> None)"

definition partitem_to_dict :: "part_item \<Rightarrow> pydict" where
  "partitem_to_dict it =
     [(''mpn'', PStr (pi_mpn it)), (''relevance'', PFloat (pi_relevance it)), (''subject'', opt_text (pi_subject it)),
      (''proposed_disposition'', pi_proposed it), (''needs_review'', PBool (pi_needs_review it)),
      (''proposed_by_ruleset'', opt_text (pi_ruleset it))]"

text \<open>\<open>d["mpn"]\<close> raises where there is none; a field of another type than the writer's reads as absent.\<close>

definition partitem_from_dict :: "pydict \<Rightarrow> part_item option" where
  "partitem_from_dict d = (case dget d ''mpn'' of
     PStr m \<Rightarrow> Some \<lparr>pi_mpn = m,
       pi_relevance = (case num_of (dget_or d ''relevance'' (PFloat 1)) of Some q \<Rightarrow> q | None \<Rightarrow> 1),
       pi_subject = text_opt (dget d ''subject''), pi_proposed = dget d ''proposed_disposition'',
       pi_needs_review = truthy (dget_or d ''needs_review'' (PBool False)),
       pi_ruleset = text_opt (dget d ''proposed_by_ruleset'')\<rparr>
   | _ \<Rightarrow> None)"

definition batch_items_to_state :: "review_batch \<Rightarrow> pydict list" where
  "batch_items_to_state b = map partitem_to_dict (rb_items b)"

fun all_some :: "'a option list \<Rightarrow> 'a list option" where
  "all_some [] = Some []"
| "all_some (x # xs) = (case x of None \<Rightarrow> None | Some y \<Rightarrow> map_option (\<lambda>ys. y # ys) (all_some xs))"

definition reviewbatch_from_state :: "string \<Rightarrow> pydict list \<Rightarrow> review_batch option" where
  "reviewbatch_from_state approver items =
     map_option (\<lambda>its. \<lparr>rb_approver = approver, rb_items = its, rb_withheld = []\<rparr>) (all_some (map partitem_from_dict items))"

subsection \<open>Evaluating a submission\<close>

datatype review_refusal =
    BadReasonCode
  | EditsWithReject
  | UnknownVerdict
  | CodeWithApproval
  | BlankReason string
  | EditsRefused edit_refusal
  | BatchRefused batch_refusal

datatype submission_error = Malformed | Policy review_refusal

record submission =
  sb_resolutions :: "item_resolution list"
  sb_rejected :: bool
  sb_code :: string
  sb_edits :: "row_edits option"

text \<open>\<open>Override(...)\<close> for one entry: any disposition that is there, a reason that is not blank.\<close>

definition read_override :: "string \<times> pyval \<Rightarrow> submission_error + (string \<times> override)" where
  "read_override p = (case snd p of
     PDict ov \<Rightarrow> (case map_of ov ''disposition'' of
         Some d \<Rightarrow>
           if \<not> truthy (dget ov ''reason'') then Inl (Policy (BlankReason (fst p)))
           else (case dget ov ''reason'' of
               PStr r \<Rightarrow> (case mk_override d r of Some v \<Rightarrow> Inr (fst p, v) | None \<Rightarrow> Inl (Policy (BlankReason (fst p))))
             | _ \<Rightarrow> Inl Malformed)
       | None \<Rightarrow> Inl Malformed)
   | _ \<Rightarrow> Inl Malformed)"

definition build_bulk_decision :: "pydict \<Rightarrow> submission_error + overrides" where
  "build_bulk_decision raw = (let ovs = dget raw ''overrides'' in
     if \<not> truthy ovs then Inr []
     else (case ovs of PDict d \<Rightarrow> map_r read_override d | _ \<Rightarrow> Inl Malformed))"

definition refused_by :: "('e \<Rightarrow> review_refusal) \<Rightarrow> 'e + 'a \<Rightarrow> submission_error + 'a" where
  "refused_by f r = (case r of Inl e \<Rightarrow> Inl (Policy (f e)) | Inr a \<Rightarrow> Inr a)"

definition evaluate_reject :: "pydict \<Rightarrow> submission_error + submission" where
  "evaluate_reject raw = (case dget raw ''reason_code'' of
     PStr code \<Rightarrow>
       bind_r (require_r (code \<in> set REASON_CODES) (Policy BadReasonCode)) (\<lambda>_.
       bind_r (require_r (\<not> truthy (dget raw ''row_edits'')) (Policy EditsWithReject)) (\<lambda>_.
         Inr \<lparr>sb_resolutions = [], sb_rejected = True, sb_code = code, sb_edits = None\<rparr>))
   | _ \<Rightarrow> Inl (Policy BadReasonCode))"

definition evaluate_edited ::
  "review_batch \<Rightarrow> overrides \<Rightarrow> row_edits \<Rightarrow> string \<Rightarrow> string \<Rightarrow> submission_error + submission" where
  "evaluate_edited batch ovs edits who fingerprint =
     bind_r (refused_by EditsRefused (check_overrides ovs edits)) (\<lambda>_.
     bind_r (refused_by EditsRefused (apply_edits batch edits who)) (\<lambda>(kept, prov).
     bind_r (refused_by BatchRefused (resolve_batch kept ovs fingerprint)) (\<lambda>rss.
       Inr \<lparr>sb_resolutions = attach_provenance rss prov @ added_resolutions edits fingerprint who,
             sb_rejected = False, sb_code = [], sb_edits = Some edits\<rparr>)))"

definition evaluate_approval ::
  "(pydict \<Rightarrow> bool) \<Rightarrow> review_batch \<Rightarrow> pydict \<Rightarrow> string \<Rightarrow> submission_error + submission" where
  "evaluate_approval sdk_ref batch raw fingerprint =
     bind_r (require_r (\<not> truthy (dget raw ''reason_code'')) (Policy CodeWithApproval)) (\<lambda>_.
     bind_r (refused_by EditsRefused
       (validate_row_edits sdk_ref (dget raw ''row_edits'') (Some (map pi_mpn (rb_items batch))))) (\<lambda>edits.
     bind_r (build_bulk_decision raw) (\<lambda>ovs.
     if is_empty edits
     then bind_r (refused_by BatchRefused (resolve_batch batch ovs fingerprint)) (\<lambda>rss.
       Inr \<lparr>sb_resolutions = rss, sb_rejected = False, sb_code = [], sb_edits = None\<rparr>)
     else evaluate_edited batch ovs edits (str_or_nil (dget raw ''acted_by'')) fingerprint)))"

definition evaluate_submission ::
  "(pydict \<Rightarrow> bool) \<Rightarrow> review_batch \<Rightarrow> pyval \<Rightarrow> string \<Rightarrow> submission_error + submission" where
  "evaluate_submission sdk_ref batch raw fingerprint =
     (if \<not> truthy raw then evaluate_approval sdk_ref batch [] fingerprint
      else (case raw of
          PDict d \<Rightarrow>
            (let verdict = (if truthy (dget d ''verdict'') then dget d ''verdict'' else PStr ''approved'') in
             if verdict = PStr ''rejected'' then evaluate_reject d
             else if verdict \<noteq> PStr ''approved'' then Inl (Policy UnknownVerdict)
             else evaluate_approval sdk_ref batch d fingerprint)
        | _ \<Rightarrow> Inl Malformed))"

subsection \<open>The workflow and its handlers\<close>

text \<open>What the run journals before it waits, and what the promise holds; \<open>rv_items\<close> is \<open>None\<close> before.\<close>

record review_state =
  rv_items :: "pydict list option"
  rv_approver :: string
  rv_fingerprint :: string
  rv_ingest :: string
  rv_notice :: string
  rv_doc_type :: string
  rv_warnings :: "pyval list"
  rv_audience :: "string option"
  rv_consumed :: bool
  rv_decision :: "pyval option"

datatype submit_error = NoReview | NoActedBy | NoAudience | NotEntitled | AuthorityUnavailable | HandlerRaised
  | PromiseSettled

datatype submit_answer =
    AlreadyResolved
  | StillPending review_refusal
  | AcceptedDecision nat bool string

text \<open>\<open>resolve\<close> of the durable promise: write-once; \<open>again\<close> is the runtime's answer to a second resolve.\<close>

definition resolve_promise :: "bool \<Rightarrow> pyval \<Rightarrow> review_state \<Rightarrow> (submit_error + unit) \<times> review_state" where
  "resolve_promise again v s = (case rv_decision s of
     None \<Rightarrow> (Inr (), s\<lparr>rv_decision := Some v\<rparr>)
   | Some _ \<Rightarrow> (if again then Inr () else Inl PromiseSettled, s))"

definition may_settle :: "(string \<Rightarrow> string \<Rightarrow> bool option) \<Rightarrow> review_state \<Rightarrow> string \<Rightarrow> submit_error + unit" where
  "may_settle can_act s acted_by =
     bind_r (require_r (acted_by \<noteq> []) NoActedBy) (\<lambda>_.
     (case rv_audience s of
        None \<Rightarrow> Inl NoAudience
      | Some a \<Rightarrow> if a = [] then Inl NoAudience
          else (case can_act a acted_by of
              None \<Rightarrow> Inl AuthorityUnavailable
            | Some b \<Rightarrow> require_r b NotEntitled)))"

definition submit_decision ::
  "(pydict \<Rightarrow> bool) \<Rightarrow> (string \<Rightarrow> string \<Rightarrow> bool option) \<Rightarrow> bool \<Rightarrow> string \<Rightarrow> pyval \<Rightarrow>
     (review_state, submit_error, submit_answer) proc" where
  "submit_decision sdk_ref can_act again acted_by decision = bind_p get_p (\<lambda>s. case rv_items s of
     None \<Rightarrow> raise_p NoReview
   | Some items \<Rightarrow>
     bind_p (lift_p (may_settle can_act s (py_strip acted_by))) (\<lambda>_.
     if rv_consumed s then ret_p AlreadyResolved
     else (case reviewbatch_from_state (rv_approver s) items of
         None \<Rightarrow> raise_p HandlerRaised
       | Some batch \<Rightarrow> (case evaluate_submission sdk_ref batch decision (rv_fingerprint s) of
             Inl Malformed \<Rightarrow> raise_p HandlerRaised
           | Inl (Policy e) \<Rightarrow> ret_p (StillPending e)
           | Inr sub \<Rightarrow> bind_p (resolve_promise again decision) (\<lambda>_.
               ret_p (AcceptedDecision (length (sb_resolutions sub)) (sb_rejected sub) (sb_code sub)))))))"

record served_batch =
  sv_batch_id :: string
  sv_approver :: string
  sv_notice_id :: string
  sv_notice_type :: string
  sv_fingerprint :: string
  sv_items :: "pydict list"
  sv_warnings :: "pyval list"

definition get_batch :: "review_state \<Rightarrow> submit_error + served_batch" where
  "get_batch s = (case rv_items s of
     None \<Rightarrow> Inl NoReview
   | Some items \<Rightarrow> Inr \<lparr>sv_batch_id = ''grouped:'' @ rv_fingerprint s @ '':'' @ rv_approver s, sv_approver = rv_approver s,
       sv_notice_id = (if rv_notice s = [] then rv_fingerprint s else rv_notice s),
       sv_notice_type = (if rv_doc_type s = [] then ''PCN'' else rv_doc_type s),
       sv_fingerprint = rv_fingerprint s, sv_items = items, sv_warnings = rv_warnings s\<rparr>)"

text \<open>
  The run after the promise: the decision is consumed and evaluated again on the journalled batch;
  a decision that is refused there fails the run (\<open>None\<close>).
\<close>

definition wake ::
  "(pydict \<Rightarrow> bool) \<Rightarrow> review_state \<Rightarrow> (submission_error + submission) option \<times> review_state" where
  "wake sdk_ref s = (case (rv_decision s, rv_items s) of
     (Some d, Some items) \<Rightarrow>
       (Some (case reviewbatch_from_state (rv_approver s) items of
           None \<Rightarrow> Inl Malformed | Some batch \<Rightarrow> evaluate_submission sdk_ref batch d (rv_fingerprint s)),
        s\<lparr>rv_consumed := True\<rparr>)
   | _ \<Rightarrow> (None, s))"

definition compartment_from_request :: "(pyval \<Rightarrow> string) \<Rightarrow> pydict \<Rightarrow> string" where
  "compartment_from_request rend request =
     (let explicit = dget request ''compartment''; audience = str_or_nil (dget request ''audience'') in
      if truthy explicit then str_of rend explicit
      else if CHR '':'' \<in> set audience then after_first (CHR '':'') audience else [])"

subsection \<open>The joint\<close>

lemma partitem_roundtrip: "partitem_from_dict (partitem_to_dict it) = Some it"
  by (cases it) (simp add: partitem_from_dict_def partitem_to_dict_def dget_def dget_or_def num_of_def opt_text_def
      text_opt_def split: option.split)

lemma batch_roundtrip:
  "reviewbatch_from_state who (batch_items_to_state b) = Some \<lparr>rb_approver = who, rb_items = rb_items b, rb_withheld = []\<rparr>"
proof -
  have "all_some (map partitem_from_dict (map partitem_to_dict its)) = Some its" for its
    by (induction its) (simp_all add: partitem_roundtrip)
  then show ?thesis by (simp add: reviewbatch_from_state_def batch_items_to_state_def)
qed

lemma may_settle_Inr:
  "may_settle can_act s who = Inr u \<Longrightarrow> \<exists>a. rv_audience s = Some a \<and> a \<noteq> [] \<and> can_act a who = Some True"
  by (auto simp: may_settle_def bind_r_Inr split: option.splits if_splits)

lemma submit_decision_cases:
  assumes "submit_decision sdk can_act again who d s = (r, s')"
  obtains (left) "s' = s" "\<And>n b c. r = Inr (AcceptedDecision n b c) \<Longrightarrow> rv_decision s \<noteq> None"
  | (settled) items batch sub a where "rv_items s = Some items" "reviewbatch_from_state (rv_approver s) items = Some batch"
      "evaluate_submission sdk batch d (rv_fingerprint s) = Inr sub" "rv_audience s = Some a"
      "can_act a (py_strip who) = Some True" "rv_decision s = None" "s' = s\<lparr>rv_decision := Some d\<rparr>"
      "r = Inr (AcceptedDecision (length (sb_resolutions sub)) (sb_rejected sub) (sb_code sub))"
proof (cases "r \<in> range Inr \<and> rv_decision s = None \<and> (\<exists>n b c. r = Inr (AcceptedDecision n b c))")
  case True
  then obtain n b c where r: "r = Inr (AcceptedDecision n b c)" and none: "rv_decision s = None" by blast
  from assms r obtain items u where i: "rv_items s = Some items" "may_settle can_act s (py_strip who) = Inr u"
    by (auto simp: submit_decision_def proc_defs split: option.splits sum.splits)
  with assms r obtain batch where b: "reviewbatch_from_state (rv_approver s) items = Some batch" "\<not> rv_consumed s"
    by (auto simp: submit_decision_def proc_defs split: option.splits if_splits)
  with assms r i obtain sub where sub: "evaluate_submission sdk batch d (rv_fingerprint s) = Inr sub"
    by (auto simp: submit_decision_def proc_defs split: sum.splits submission_error.splits)
  from may_settle_Inr [OF i(2)] obtain a where a: "rv_audience s = Some a" "can_act a (py_strip who) = Some True" by blast
  show ?thesis
    by (rule settled [OF i(1) b(1) sub a none]) (use assms i b sub none in \<open>auto simp: submit_decision_def proc_defs resolve_promise_def\<close>)
next
  case False
  have "s' = s \<or> rv_decision s = None \<and> (\<exists>n b c. r = Inr (AcceptedDecision n b c))"
    using assms by (auto simp: submit_decision_def proc_defs resolve_promise_def split: option.splits sum.splits if_splits submission_error.splits)
  with False left show ?thesis by blast
qed

text \<open>Any submissions by anybody, and wakes of the run, in any order.\<close>

inductive review_run ::
  "(pydict \<Rightarrow> bool) \<Rightarrow> (string \<Rightarrow> string \<Rightarrow> bool option) \<Rightarrow> review_state \<Rightarrow> review_state \<Rightarrow> bool" for sdk can_act s0 where
  armed: "review_run sdk can_act s0 s0"
| submitted: "review_run sdk can_act s0 s \<Longrightarrow> submit_decision sdk can_act again who d s = (r, s') \<Longrightarrow> review_run sdk can_act s0 s'"
| woken: "review_run sdk can_act s0 s \<Longrightarrow> wake sdk s = (r, s') \<Longrightarrow> review_run sdk can_act s0 s'"

definition journal :: "review_state \<Rightarrow> pydict list option \<times> string \<times> string \<times> string option" where
  "journal s = (rv_items s, rv_approver s, rv_fingerprint s, rv_audience s)"

definition decided_well :: "(pydict \<Rightarrow> bool) \<Rightarrow> (string \<Rightarrow> string \<Rightarrow> bool option) \<Rightarrow> review_state \<Rightarrow> pyval \<Rightarrow> bool" where
  "decided_well sdk can_act s d \<longleftrightarrow> (\<exists>items batch sub a who. rv_items s = Some items \<and>
     reviewbatch_from_state (rv_approver s) items = Some batch \<and> evaluate_submission sdk batch d (rv_fingerprint s) = Inr sub \<and>
     rv_audience s = Some a \<and> can_act a who = Some True)"

lemma review_run_inv:
  "review_run sdk can_act s0 s \<Longrightarrow> rv_decision s0 = None \<Longrightarrow>
     journal s = journal s0 \<and> (\<forall>d. rv_decision s = Some d \<longrightarrow> decided_well sdk can_act s0 d)"
proof (induction rule: review_run.induct)
  case (submitted s again who d r s')
  then have IH: "journal s = journal s0" "\<forall>d. rv_decision s = Some d \<longrightarrow> decided_well sdk can_act s0 d" by blast+
  from submitted(2) show ?case
  proof (cases rule: submit_decision_cases)
    case left
    with IH show ?thesis by simp
  next
    case (settled items batch sub a)
    from IH(1) have "rv_items s0 = rv_items s" "rv_approver s0 = rv_approver s" "rv_fingerprint s0 = rv_fingerprint s"
      "rv_audience s0 = rv_audience s" by (simp_all add: journal_def)
    with settled(1-5) have "decided_well sdk can_act s0 d" unfolding decided_well_def by auto
    with IH(1) settled(7) show ?thesis by (simp add: journal_def)
  qed
next
  case (woken s r s')
  then show ?case by (auto simp: wake_def journal_def split: option.splits)
qed simp

text \<open>
  C9. Only an accepted decision wakes the review. Whatever is submitted by whomever and however
  often, the decision the promise holds was accepted on the batch the server authored, and somebody
  the authority admits to the journalled audience may settle it; so the run that wakes finds it
  accepted again, never refused: its failure branch is not reached.
\<close>

theorem only_accepted_decisions_wake:
  assumes "review_run sdk can_act s0 s" and "rv_decision s0 = None" and "wake sdk s = (Some res, s')"
  shows "\<exists>items batch d sub a who. rv_items s0 = Some items \<and> rv_decision s = Some d \<and>
     reviewbatch_from_state (rv_approver s0) items = Some batch \<and>
     evaluate_submission sdk batch d (rv_fingerprint s0) = Inr sub \<and> res = Inr sub \<and>
     rv_audience s0 = Some a \<and> can_act a who = Some True"
proof -
  from assms(3) obtain d items where d: "rv_decision s = Some d" "rv_items s = Some items"
    and res: "res = (case reviewbatch_from_state (rv_approver s) items of
           None \<Rightarrow> Inl Malformed | Some batch \<Rightarrow> evaluate_submission sdk batch d (rv_fingerprint s))"
    by (auto simp: wake_def split: option.splits)
  from review_run_inv [OF assms(1,2)] d(1) have j: "journal s = journal s0" and w: "decided_well sdk can_act s0 d" by blast+
  from w obtain items' batch sub a who where w: "rv_items s0 = Some items'"
    "reviewbatch_from_state (rv_approver s0) items' = Some batch" "evaluate_submission sdk batch d (rv_fingerprint s0) = Inr sub"
    "rv_audience s0 = Some a" "can_act a who = Some True" unfolding decided_well_def by blast
  with j d res have "res = Inr sub" by (simp add: journal_def)
  with w d show ?thesis by blast
qed

text \<open>
  A refusal leaves the review where it was: unless the answer is an acceptance, a submission
  changes nothing, so the run stays suspended on the same batch; and of two acceptances only the
  first decides.
\<close>

theorem refused_submission_stays_suspended:
  assumes "submit_decision sdk can_act again who d s = (r, s')"
  shows "((\<forall>n b c. r \<noteq> Inr (AcceptedDecision n b c)) \<longrightarrow> s' = s) \<and> (rv_decision s \<noteq> None \<longrightarrow> s' = s) \<and>
     (s' \<noteq> s \<longrightarrow> s' = s\<lparr>rv_decision := Some d\<rparr>)"
  using assms by (cases rule: submit_decision_cases) auto

definition waiting :: review_state where
  "waiting = \<lparr>rv_items = Some (batch_items_to_state batch2), rv_approver = ''kim'', rv_fingerprint = ''n'', rv_ingest = [],
     rv_notice = [], rv_doc_type = ''PCN'', rv_warnings = [], rv_audience = Some ''desk'', rv_consumed = False, rv_decision = None\<rparr>"

definition only_ann :: "string \<Rightarrow> string \<Rightarrow> bool option" where
  "only_ann a who = Some (a = ''desk'' \<and> who = ''ann'')"

definition missed_part :: pyval where
  "missed_part = PDict [(''acted_by'', PStr ''bob''), (''row_edits'', PDict
     [(''added'', PList [PDict [(''mpn'', PStr ''m9''), (''disposition'', PStr ''archive''), (''reason'', PStr ''missed''),
        (''evidence'', PStr ''p. 4'')]])])]"

definition settled_review :: review_state where
  "settled_review = snd (submit_decision (\<lambda>_. True) only_ann False ''ann'' missed_part waiting)"

lemma settled_review: "review_run (\<lambda>_. True) only_ann waiting settled_review" "rv_decision waiting = None"
proof -
  obtain r where "submit_decision (\<lambda>_. True) only_ann False ''ann'' missed_part waiting = (r, settled_review)"
    by (simp add: settled_review_def prod_eq_iff)
  then show "review_run (\<lambda>_. True) only_ann waiting settled_review" by (rule review_run.submitted [OF review_run.armed])
qed (simp add: waiting_def)

lemma settled_decision: "rv_decision settled_review = Some missed_part" by code_simp

lemma settled_items: "rv_items settled_review = Some (batch_items_to_state batch2)"
proof -
  have "journal settled_review = journal waiting" using review_run_inv [OF settled_review] by blast
  then show ?thesis by (simp add: journal_def waiting_def)
qed

theorem only_accepted_decisions_wake_witness:
  "\<exists>sub s'. wake (\<lambda>_. True) settled_review = (Some (Inr sub), s') \<and> (\<exists>who. only_ann ''desk'' who = Some True)"
proof -
  obtain res s' where w: "wake (\<lambda>_. True) settled_review = (Some res, s')"
    by (simp add: wake_def settled_decision settled_items)
  from only_accepted_decisions_wake [OF settled_review w] w show ?thesis by (auto simp: waiting_def)
qed

theorem refused_submission_stays_suspended_witness:
  "snd (submit_decision (\<lambda>_. True) only_ann False ''bob'' missed_part waiting) = waiting"
proof -
  obtain s' where s: "submit_decision (\<lambda>_. True) only_ann False ''bob'' missed_part waiting = (Inl NotEntitled, s')"
  proof -
    have "fst (submit_decision (\<lambda>_. True) only_ann False ''bob'' missed_part waiting) = Inl NotEntitled" by code_simp
    then show ?thesis using that by (metis prod.collapse)
  qed
  from refused_submission_stays_suspended [OF s] s show ?thesis by simp
qed

text \<open>
  The actor a review records is the one the decision names, not the one the gate admitted: here the
  gate admits ann, and the added part is recorded as bob's.
\<close>

lemma recorded_actor_is_the_decisions_own:
  "fst (submit_decision (\<lambda>_. True) only_ann False ''ann'' missed_part waiting) = Inr (AcceptedDecision 3 False []) \<and>
   (case fst (wake (\<lambda>_. True) settled_review) of
      Some (Inr sub) \<Rightarrow> dget (the (ir_provenance (last (sb_resolutions sub)))) ''corrected_by'' = PStr ''bob''
    | _ \<Rightarrow> False)"
  by code_simp

text \<open>An override without a disposition is not a refusal: the handler raises, and is repeated.\<close>

lemma malformed_override_raises:
  "fst (submit_decision (\<lambda>_. True) only_ann False ''ann''
     (PDict [(''overrides'', PDict [(''m1'', PDict [(''reason'', PStr ''ok'')])])]) waiting) = Inl HandlerRaised"
  by code_simp

end
