(* ===== verification/Dispatch.thy ===== *)
theory Dispatch
  imports Bulk_Review Durable
begin

text \<open>
  \<^verbatim>\<open>agent_fleet/restate_analyst/dispatch_plan.py\<close> and \<^verbatim>\<open>dispatch_driver.py\<close>: what a resolved part sets
  off. The plan is data: a state to write on the part's node and a task for the queue of its
  disposition. The driver is a keyed object with one durable marker: the task is registered first,
  then the state is written, and a write that is refused for good is filed for the operators before
  it is raised again. \<open>iw_*\<close> are the answers of the attempts of each journalled step.

  The bodies of the answers are not kept. The pauses of the test scaffolding are zero.
\<close>

subsection \<open>The plan\<close>

record graph_state_write =
  gs_subject :: string
  gs_state :: pyval
  gs_ref :: string
  gs_ruleset :: "string option"
  gs_provenance :: "pydict option"

record human_task_spec =
  hs_key :: string
  hs_kind :: string
  hs_audience :: string
  hs_disposition :: pyval
  hs_subject :: "string option"
  hs_mpn :: string
  hs_notice :: string
  hs_title :: string
  hs_summary :: string
  hs_needs_review :: bool
  hs_ruleset :: "string option"
  hs_unresolved :: bool

record dispatch_plan =
  pl_resolution :: item_resolution
  pl_graph :: "graph_state_write option"
  pl_task :: "human_task_spec option"

definition DISPOSITION_QUEUE :: "(string \<times> string option) list" where
  "DISPOSITION_QUEUE = [(''dispatchLTB'', Some ''procurement''), (''dispatchQualification'', Some ''qualification''),
     (''dispatchAltSourcing'', Some ''sourcing''), (''archive'', None)]"

datatype plan_error = NoRequesterForPlan string | UnhashableDisposition

text \<open>Looking a list or a dict up in the table is a \<open>TypeError\<close>.\<close>

definition queue_of :: "pyval \<Rightarrow> plan_error + string option" where
  "queue_of disp = (case disp of
     PStr d \<Rightarrow> Inr (case map_of DISPOSITION_QUEUE d of Some q \<Rightarrow> q | None \<Rightarrow> None)
   | PList _ \<Rightarrow> Inl UnhashableDisposition
   | PDict _ \<Rightarrow> Inl UnhashableDisposition
   | _ \<Rightarrow> Inr None)"

definition nonempty :: "string option \<Rightarrow> string option" where
  "nonempty o' = (case o' of Some s \<Rightarrow> if s = [] then None else Some s | None \<Rightarrow> None)"

definition graph_write_of :: "item_resolution \<Rightarrow> graph_state_write option" where
  "graph_write_of r = map_option (\<lambda>s. \<lparr>gs_subject = s, gs_state = ir_disposition r, gs_ref = ir_key r,
     gs_ruleset = nonempty (ir_ruleset r), gs_provenance = ir_provenance r\<rparr>) (nonempty (ir_subject r))"

definition task_for :: "(pyval \<Rightarrow> string) \<Rightarrow> item_resolution \<Rightarrow> string \<Rightarrow> string \<Rightarrow> string \<Rightarrow> human_task_spec" where
  "task_for rend r fingerprint notice_id q =
     \<lparr>hs_key = ir_key r, hs_kind = ''pcn_disposition'', hs_audience = q, hs_disposition = ir_disposition r,
      hs_subject = ir_subject r, hs_mpn = ir_mpn r, hs_notice = fingerprint,
      hs_title = str_of rend (ir_disposition r) @ '': '' @ ir_mpn r,
      hs_summary = ''Part '' @ ir_mpn r @ '' from notice '' @ (if notice_id = [] then fingerprint else notice_id)
        @ '' was dispositioned '' @ [CHR 0x27] @ str_of rend (ir_disposition r) @ [CHR 0x27]
        @ (if ir_needs_review r then '' [MPN extraction UNVERIFIED]'' else [])
        @ (if nonempty (ir_subject r) \<noteq> None then [] else '' [subject UNRESOLVED -- state pending re-link]''),
      hs_needs_review = ir_needs_review r, hs_ruleset = ir_ruleset r, hs_unresolved = (ir_subject r = None)\<rparr>"

definition plan_dispatch :: "(pyval \<Rightarrow> string) \<Rightarrow> item_resolution \<Rightarrow> string \<Rightarrow> string \<Rightarrow> plan_error + dispatch_plan" where
  "plan_dispatch rend r fingerprint notice_id =
     bind_r (queue_of (ir_disposition r)) (\<lambda>q. Inr \<lparr>pl_resolution = r, pl_graph = graph_write_of r,
       pl_task = map_option (task_for rend r fingerprint notice_id) q\<rparr>)"

record dispatch_payload =
  dp_key :: string
  dp_compartment :: string
  dp_requested_by :: string
  dp_acted_by :: string
  dp_graph :: "graph_state_write option"
  dp_task :: "human_task_spec option"

text \<open>The task's own \<open>requested_by\<close> and \<open>acted_by\<close> are those of the payload.\<close>

definition plan_to_payload :: "dispatch_plan \<Rightarrow> string \<Rightarrow> string \<Rightarrow> string \<Rightarrow> plan_error + dispatch_payload" where
  "plan_to_payload p requested_by acted_by compartment =
     bind_r (require_r (py_strip requested_by \<noteq> []) (NoRequesterForPlan (ir_key (pl_resolution p)))) (\<lambda>_.
       Inr \<lparr>dp_key = ir_key (pl_resolution p), dp_compartment = compartment, dp_requested_by = requested_by,
         dp_acted_by = acted_by,
         dp_graph = map_option (\<lambda>g. g\<lparr>gs_provenance := (case gs_provenance g of Some pv \<Rightarrow> if pv = [] then None else Some pv
            | None \<Rightarrow> None)\<rparr>) (pl_graph p),
         dp_task = pl_task p\<rparr>)"

subsection \<open>The two writes and the report of a failure\<close>

definition mint_dispatch_task :: "http \<Rightarrow> attempt" where
  "mint_dispatch_task h = (case h of
     NoAnswer \<Rightarrow> Again
   | Status s \<Rightarrow> if s = 401 \<or> s = 403 then Refused 403
       else if fail_terminal_on_4xx s then Refused s
       else if raise_for_status s then Again else Wrote)"

definition write_disposition_state :: "http \<Rightarrow> attempt" where
  "write_disposition_state h = (case h of
     NoAnswer \<Rightarrow> Again
   | Status s \<Rightarrow> if fail_terminal_on_4xx s then Refused s else if raise_for_status s then Again else Wrote)"

datatype item_failure = MintRefused int | StateRefused int

datatype item_error =
    Failed item_failure
  | Unrouted item_failure
  | ItemSuspended

record triage_row =
  tg_task_id :: string
  tg_audience :: string
  tg_domain :: string
  tg_subject :: string
  tg_mpn :: string
  tg_notice :: string
  tg_disposition :: pyval
  tg_queue :: string
  tg_started_by :: string
  tg_approved_by :: string
  tg_cause :: item_failure

datatype item_effect = TaskMinted human_task_spec | StateWritten graph_state_write | TriageFiled triage_row

record item_outcome =
  oc_task_minted :: bool
  oc_state_written :: bool
  oc_unresolved :: bool

record item_state =
  it_dispatched :: "item_outcome option"
  it_log :: "item_effect list"

record item_world =
  iw_mint :: "http list"
  iw_state :: "http list"
  iw_triage :: "http list"

type_synonym 'a item = "(item_state, item_error, 'a) proc"

definition log_item :: "item_effect \<Rightarrow> unit item" where
  "log_item e = upd_p (\<lambda>s. s\<lparr>it_log := it_log s @ [e]\<rparr>)"

definition triage_row_for :: "string \<Rightarrow> dispatch_payload \<Rightarrow> item_failure \<Rightarrow> triage_row" where
  "triage_row_for key req cause =
     (let mpn = (case dp_task req of Some t \<Rightarrow> hs_mpn t | None \<Rightarrow> []);
          subject = (case dp_task req of Some t \<Rightarrow> (case nonempty (hs_subject t) of Some s \<Rightarrow> s | None \<Rightarrow> []) | None \<Rightarrow> []) in
      \<lparr>tg_task_id = ''dispatch-failure:'' @ key, tg_audience = ''dispatch_failure:'' @ dp_compartment req,
       tg_domain = dp_compartment req,
       tg_subject = (if subject \<noteq> [] then subject else if mpn \<noteq> [] then mpn else key),
       tg_mpn = mpn, tg_notice = (case dp_task req of Some t \<Rightarrow> hs_notice t | None \<Rightarrow> []),
       tg_disposition = (case dp_task req of Some t \<Rightarrow> hs_disposition t | None \<Rightarrow> PStr []),
       tg_queue = (case dp_task req of Some t \<Rightarrow> hs_audience t | None \<Rightarrow> []),
       tg_started_by = dp_requested_by req, tg_approved_by = dp_acted_by req, tg_cause = cause\<rparr>)"

text \<open>Filing is tried once: no compartment, no answer or any status but 200 is terminal.\<close>

definition file_dispatch_failure_triage :: "item_world \<Rightarrow> string \<Rightarrow> dispatch_payload \<Rightarrow> item_failure \<Rightarrow> unit item" where
  "file_dispatch_failure_triage w key req cause =
     (if dp_compartment req = [] then raise_p (Unrouted cause)
      else (case iw_triage w of
          Status s # _ \<Rightarrow> if s = 200 then log_item (TriageFiled (triage_row_for key req cause)) else raise_p (Unrouted cause)
        | NoAnswer # _ \<Rightarrow> raise_p (Unrouted cause)
        | [] \<Rightarrow> raise_p ItemSuspended))"

subsection \<open>The object of one part\<close>

definition mint_step :: "item_world \<Rightarrow> human_task_spec option \<Rightarrow> bool item" where
  "mint_step w task = (case task of
     None \<Rightarrow> ret_p False
   | Some t \<Rightarrow>
       if hs_audience t = [] then raise_p (Failed (MintRefused 400))
       else (case journalled mint_dispatch_task (iw_mint w) of
           Wrote \<Rightarrow> then_p (log_item (TaskMinted t)) (ret_p True)
         | Refused c \<Rightarrow> raise_p (Failed (MintRefused c))
         | Again \<Rightarrow> raise_p ItemSuspended))"

definition state_step :: "item_world \<Rightarrow> graph_state_write option \<Rightarrow> bool item" where
  "state_step w gw = (case gw of
     None \<Rightarrow> ret_p False
   | Some g \<Rightarrow> (case journalled write_disposition_state (iw_state w) of
         Wrote \<Rightarrow> then_p (log_item (StateWritten g)) (ret_p True)
       | Refused c \<Rightarrow> raise_p (Failed (StateRefused c))
       | Again \<Rightarrow> raise_p ItemSuspended))"

definition both_writes :: "item_world \<Rightarrow> dispatch_payload \<Rightarrow> item_outcome item" where
  "both_writes w req =
     bind_p (mint_step w (dp_task req)) (\<lambda>m.
     bind_p (state_step w (dp_graph req)) (\<lambda>st.
       ret_p \<lparr>oc_task_minted = m, oc_state_written = st,
              oc_unresolved = (case dp_task req of Some t \<Rightarrow> hs_unresolved t | None \<Rightarrow> False)\<rparr>))"

definition surfaced :: "item_world \<Rightarrow> string \<Rightarrow> dispatch_payload \<Rightarrow> item_error \<Rightarrow> item_outcome item" where
  "surfaced w key req e = (case e of
     Failed f \<Rightarrow> then_p (file_dispatch_failure_triage w key req f) (raise_p (Failed f))
   | _ \<Rightarrow> raise_p e)"

definition dispatch :: "item_world \<Rightarrow> string \<Rightarrow> dispatch_payload \<Rightarrow> item_outcome item" where
  "dispatch w key req = bind_p get_p (\<lambda>s. case it_dispatched s of
     Some prior \<Rightarrow> ret_p prior
   | None \<Rightarrow>
       bind_p (catch_p (both_writes w req) (surfaced w key req)) (\<lambda>oc.
       then_p (upd_p (\<lambda>s. s\<lparr>it_dispatched := Some oc\<rparr>)) (ret_p oc)))"

subsection \<open>The fan-out\<close>

type_synonym sends = "(string \<times> dispatch_payload) list"

fun fan_out_dispatch ::
  "(pyval \<Rightarrow> string) \<Rightarrow> string \<Rightarrow> string \<Rightarrow> string \<Rightarrow> string \<Rightarrow> string \<Rightarrow> item_resolution list \<Rightarrow>
     (sends, plan_error, string list) proc" where
  "fan_out_dispatch rend fp notice_id req_by who cmpt [] = ret_p []"
| "fan_out_dispatch rend fp notice_id req_by who cmpt (r # rs) =
     bind_p (lift_p (bind_r (plan_dispatch rend r fp notice_id) (\<lambda>p. plan_to_payload p req_by who cmpt))) (\<lambda>pay.
     then_p (upd_p (\<lambda>log. log @ [(ir_key r, pay)]))
     (bind_p (fan_out_dispatch rend fp notice_id req_by who cmpt rs) (\<lambda>ks. ret_p (ir_key r # ks))))"

subsection \<open>What a dispatch and a fan-out do\<close>

definition in_order :: "dispatch_payload \<Rightarrow> item_state \<Rightarrow> bool" where
  "in_order req s \<longleftrightarrow>
     (\<forall>i g. i < length (it_log s) \<longrightarrow> it_log s ! i = StateWritten g \<longrightarrow> dp_graph req = Some g \<and>
        (\<forall>t. dp_task req = Some t \<longrightarrow> TaskMinted t \<in> set (take i (it_log s))))"

definition dispatched_once :: "dispatch_payload \<Rightarrow> item_state \<Rightarrow> bool" where
  "dispatched_once req s \<longleftrightarrow> (\<forall>oc. it_dispatched s = Some oc \<longrightarrow>
     (\<forall>t. dp_task req = Some t \<longrightarrow> TaskMinted t \<in> set (it_log s)) \<and>
     (\<forall>g. dp_graph req = Some g \<longrightarrow> StateWritten g \<in> set (it_log s)) \<and>
     oc_task_minted oc = (dp_task req \<noteq> None) \<and> oc_state_written oc = (dp_graph req \<noteq> None))"

definition minted :: "dispatch_payload \<Rightarrow> item_state \<Rightarrow> bool" where
  "minted req s \<longleftrightarrow> (\<forall>t. dp_task req = Some t \<longrightarrow> TaskMinted t \<in> set (it_log s))"

lemma in_order_snoc:
  "in_order req s \<Longrightarrow> (\<And>g. e = StateWritten g \<Longrightarrow> dp_graph req = Some g \<and> minted req s) \<Longrightarrow>
     in_order req (s\<lparr>it_log := it_log s @ [e]\<rparr>)"
  by (auto simp: in_order_def minted_def nth_append less_Suc_eq)

lemma triple_logged:
  "(\<And>s. P s \<Longrightarrow> Q a (s\<lparr>it_log := it_log s @ [e]\<rparr>)) \<Longrightarrow> triple P (then_p (log_item e) (ret_p a)) Q E"
  by (simp add: triple_def proc_defs log_item_def)

lemma triple_mint:
  "triple (\<lambda>s. in_order req s \<and> it_dispatched s = None) (mint_step w (dp_task req))
     (\<lambda>m s. in_order req s \<and> minted req s \<and> it_dispatched s = None \<and> m = (dp_task req \<noteq> None))
     (\<lambda>_ s. in_order req s \<and> it_dispatched s = None)"
  by (cases "dp_task req")
    (auto simp: mint_step_def minted_def intro!: triple_ret triple_raise triple_logged in_order_snoc
      split: attempt.splits)

lemma triple_state:
  "triple (\<lambda>s. in_order req s \<and> minted req s \<and> it_dispatched s = None) (state_step w (dp_graph req))
     (\<lambda>st s. in_order req s \<and> minted req s \<and> it_dispatched s = None \<and> st = (dp_graph req \<noteq> None) \<and>
        (\<forall>g. dp_graph req = Some g \<longrightarrow> StateWritten g \<in> set (it_log s)))
     (\<lambda>_ s. in_order req s \<and> it_dispatched s = None)"
  by (cases "dp_graph req")
    (auto simp: state_step_def minted_def intro!: triple_ret triple_raise triple_logged in_order_snoc
      split: attempt.splits)

lemma triple_file:
  "triple (\<lambda>s. in_order req s \<and> it_dispatched s = None) (file_dispatch_failure_triage w key req f)
     (\<lambda>_ s. in_order req s \<and> it_dispatched s = None) (\<lambda>_ s. in_order req s \<and> it_dispatched s = None)"
  by (auto simp: file_dispatch_failure_triage_def log_item_def intro!: triple_raise triple_upd in_order_snoc
      split: list.split http.split)

lemma triple_surfaced:
  "triple (\<lambda>s. in_order req s \<and> it_dispatched s = None) (surfaced w key req e)
     Q (\<lambda>_ s. in_order req s \<and> it_dispatched s = None)"
  by (cases e) (auto simp: surfaced_def intro!: triple_raise triple_then [OF triple_file])

lemma triple_writes:
  "triple (\<lambda>s. in_order req s \<and> it_dispatched s = None) (both_writes w req)
     (\<lambda>oc s. in_order req s \<and> dispatched_once req (s\<lparr>it_dispatched := Some oc\<rparr>))
     (\<lambda>_ s. in_order req s \<and> it_dispatched s = None)"
  unfolding both_writes_def
  by (rule triple_bind [OF triple_mint], rule triple_assume, rule triple_bind, rule triple_pre [OF triple_state])
    (auto intro!: triple_ret simp: dispatched_once_def minted_def)

lemma keeps_dispatch: "keeps (\<lambda>s. in_order req s \<and> dispatched_once req s) (dispatch w key req)"
proof -
  have body: "triple (\<lambda>s. in_order req s \<and> it_dispatched s = None) (catch_p (both_writes w req) (surfaced w key req))
     (\<lambda>oc s. in_order req s \<and> dispatched_once req (s\<lparr>it_dispatched := Some oc\<rparr>))
     (\<lambda>_ s. in_order req s \<and> it_dispatched s = None)"
    by (rule triple_catch [OF triple_writes triple_surfaced])
  have first: "triple (\<lambda>s. in_order req s \<and> it_dispatched s = None)
     (bind_p (catch_p (both_writes w req) (surfaced w key req)) (\<lambda>oc.
       then_p (upd_p (\<lambda>s. s\<lparr>it_dispatched := Some oc\<rparr>)) (ret_p oc)))
     (\<lambda>_ s. in_order req s \<and> dispatched_once req s) (\<lambda>_ s. in_order req s \<and> it_dispatched s = None)"
    by (rule triple_bind [OF body]) (simp add: triple_def proc_defs in_order_def)
  show ?thesis
    unfolding keeps_def dispatch_def
  proof (rule triple_read)
    fix s assume s: "in_order req s \<and> dispatched_once req s"
    show "triple (\<lambda>t. t = s) (case it_dispatched s of Some prior \<Rightarrow> ret_p prior
      | None \<Rightarrow> bind_p (catch_p (both_writes w req) (surfaced w key req)) (\<lambda>oc.
          then_p (upd_p (\<lambda>s. s\<lparr>it_dispatched := Some oc\<rparr>)) (ret_p oc)))
      (\<lambda>_ s. in_order req s \<and> dispatched_once req s) (\<lambda>_ s. in_order req s \<and> dispatched_once req s)"
    proof (cases "it_dispatched s")
      case None
      with s show ?thesis
        by (simp, intro triple_post [OF triple_pre [OF first]]) (auto simp: dispatched_once_def)
    next
      case (Some prior)
      with s show ?thesis by (simp add: triple_def ret_p_def)
    qed
  qed
qed

definition deliveries :: "string \<Rightarrow> dispatch_payload \<Rightarrow> item_world list \<Rightarrow> item_state" where
  "deliveries key req ws = fold (\<lambda>w s. snd (dispatch w key req s)) ws \<lparr>it_dispatched = None, it_log = []\<rparr>"

text \<open>
  C8. Whatever the services answer and however often a part's dispatch is delivered, its state is
  written only after its task, and only as planned; once it is marked dispatched, every planned
  effect has happened and a further delivery returns the outcome and changes nothing.
\<close>

theorem dispatch_is_task_first_and_once:
  "let s = deliveries key req ws in
     (\<forall>i g. i < length (it_log s) \<longrightarrow> it_log s ! i = StateWritten g \<longrightarrow> dp_graph req = Some g \<and>
        (\<forall>t. dp_task req = Some t \<longrightarrow> TaskMinted t \<in> set (take i (it_log s)))) \<and>
     (\<forall>oc w. it_dispatched s = Some oc \<longrightarrow> dispatch w key req s = (Inr oc, s) \<and>
        oc_task_minted oc = (dp_task req \<noteq> None) \<and> oc_state_written oc = (dp_graph req \<noteq> None) \<and>
        (\<forall>t. dp_task req = Some t \<longrightarrow> TaskMinted t \<in> set (it_log s)) \<and>
        (\<forall>g. dp_graph req = Some g \<longrightarrow> StateWritten g \<in> set (it_log s)))"
proof -
  have kept: "in_order req s \<and> dispatched_once req s \<Longrightarrow>
      in_order req (fold (\<lambda>w s. snd (dispatch w key req s)) ws s) \<and>
      dispatched_once req (fold (\<lambda>w s. snd (dispatch w key req s)) ws s)" for s
    by (induction ws arbitrary: s) (simp_all add: keeps_snd [OF keeps_dispatch])
  have "in_order req (deliveries key req ws) \<and> dispatched_once req (deliveries key req ws)"
    unfolding deliveries_def by (rule kept) (simp add: in_order_def dispatched_once_def)
  then show ?thesis
    unfolding Let_def in_order_def dispatched_once_def
    by (auto simp: dispatch_def proc_defs)
qed

lemma both_writes_error:
  assumes "both_writes w req s = (Inl e, s')"
  shows "it_dispatched s' = it_dispatched s \<and> (case e of Failed _ \<Rightarrow> True | Unrouted _ \<Rightarrow> False
     | ItemSuspended \<Rightarrow> (\<forall>h \<in> set (iw_mint w). mint_dispatch_task h = Again) \<or>
         (\<forall>h \<in> set (iw_state w). write_disposition_state h = Again))"
  using assms
  by (auto simp: both_writes_def mint_step_def state_step_def proc_defs log_item_def journalled_Again [symmetric]
      split: option.splits attempt.splits if_splits)

text \<open>
  C21. A dispatch that ends without its effects is not silent: it leaves no mark that would stop a
  later delivery, and a write refused for good has filed a row for the operators of the compartment
  or is raised with both facts; anything else is still being retried.
\<close>

theorem approved_effect_never_dies_silently:
  assumes failed: "dispatch w key req s = (Inl e, s')"
  shows "it_dispatched s' = None \<and> (case e of
      Failed f \<Rightarrow> \<exists>before. it_log s' = before @ [TriageFiled (triage_row_for key req f)]
    | Unrouted f \<Rightarrow> dp_compartment req = [] \<or> (\<exists>h rest. iw_triage w = h # rest \<and> h \<noteq> Status 200)
    | ItemSuspended \<Rightarrow> (\<forall>h \<in> set (iw_mint w). mint_dispatch_task h = Again) \<or>
        (\<forall>h \<in> set (iw_state w). write_disposition_state h = Again) \<or> iw_triage w = [])"
proof -
  from failed have none: "it_dispatched s = None" by (cases "it_dispatched s") (auto simp: dispatch_def proc_defs)
  with failed obtain e' t where w: "both_writes w req s = (Inl e', t)" and h: "surfaced w key req e' t = (Inl e, s')"
    by (auto simp: dispatch_def proc_defs split: prod.splits sum.splits)
  from both_writes_error [OF w] none h show ?thesis
    by (cases e') (auto simp: surfaced_def file_dispatch_failure_triage_def proc_defs log_item_def
      split: if_splits list.splits http.splits prod.splits sum.splits)
qed

definition effects_planned :: "item_resolution \<Rightarrow> dispatch_payload \<Rightarrow> bool" where
  "effects_planned r p \<longleftrightarrow> dp_key p = ir_key r \<and>
     (dp_graph p \<noteq> None \<longleftrightarrow> nonempty (ir_subject r) \<noteq> None) \<and>
     (dp_task p \<noteq> None \<longleftrightarrow> ir_disposition r \<in> {PStr ''dispatchLTB'', PStr ''dispatchQualification'', PStr ''dispatchAltSourcing''})"

lemma queue_of_Some:
  "queue_of d = Inr q \<Longrightarrow> q \<noteq> None \<longleftrightarrow>
     d \<in> {PStr ''dispatchLTB'', PStr ''dispatchQualification'', PStr ''dispatchAltSourcing''}"
  by (auto simp: queue_of_def DISPOSITION_QUEUE_def split: pyval.splits if_splits)

lemma planned_payload:
  assumes "bind_r (plan_dispatch rend r fp nid) (\<lambda>p. plan_to_payload p rb who cmpt) = Inr pay"
  shows "effects_planned r pay \<and> dp_requested_by pay = rb \<and> dp_acted_by pay = who \<and> dp_compartment pay = cmpt \<and> py_strip rb \<noteq> []"
  using assms
  by (cases "queue_of (ir_disposition r)")
    (auto simp: plan_dispatch_def plan_to_payload_def bind_r_def require_r_def effects_planned_def graph_write_of_def
      dest: queue_of_Some split: if_splits)

text \<open>C0. One approval is one message for each part, under the part's own key, in order: it carries a
  graph write exactly when the subject is known, a task exactly when the disposition has a queue,
  and both the requester and the human who decided. A requester nobody named sends nothing.\<close>

theorem fan_out_is_per_item:
  "\<exists>now. snd (fan_out_dispatch rend fp nid rb who cmpt rs sent) = sent @ now \<and>
     list_all2 (\<lambda>r (k, p). k = ir_key r \<and> effects_planned r p \<and> dp_requested_by p = rb \<and> dp_acted_by p = who)
       (take (length now) rs) now \<and>
     (case fst (fan_out_dispatch rend fp nid rb who cmpt rs sent) of
        Inr ks \<Rightarrow> ks = map ir_key rs \<and> ks = map fst now
      | Inl (NoRequesterForPlan k) \<Rightarrow> now = [] \<and> py_strip rb = []
      | Inl UnhashableDisposition \<Rightarrow> length now < length rs \<and> (\<exists>e. queue_of (ir_disposition (rs ! length now)) = Inl e))"
proof (induction rs arbitrary: sent)
  case Nil
  then show ?case by (simp add: proc_defs)
next
  case (Cons r rs)
  let ?pay = "bind_r (plan_dispatch rend r fp nid) (\<lambda>p. plan_to_payload p rb who cmpt)"
  show ?case
  proof (cases ?pay)
    case (Inl e)
    then show ?thesis
      by (cases "queue_of (ir_disposition r)")
        (auto simp: proc_defs plan_dispatch_def plan_to_payload_def bind_r_def require_r_def queue_of_def
          split: if_splits pyval.splits)
  next
    case (Inr pay)
    note planned = planned_payload [OF Inr]
    obtain res last where run: "fan_out_dispatch rend fp nid rb who cmpt rs (sent @ [(ir_key r, pay)]) = (res, last)"
      by fastforce
    from Cons.IH [of "sent @ [(ir_key r, pay)]"] obtain now where
      "last = sent @ (ir_key r, pay) # now"
      "list_all2 (\<lambda>r (k, p). k = ir_key r \<and> effects_planned r p \<and> dp_requested_by p = rb \<and> dp_acted_by p = who)
         (take (length now) rs) now"
      "case res of
        Inr ks \<Rightarrow> ks = map ir_key rs \<and> ks = map fst now
      | Inl (NoRequesterForPlan k) \<Rightarrow> now = [] \<and> py_strip rb = []
      | Inl UnhashableDisposition \<Rightarrow> length now < length rs \<and> (\<exists>e. queue_of (ir_disposition (rs ! length now)) = Inl e)"
      by (auto simp: run)
    with Inr run planned show ?thesis
      by (intro exI [of _ "(ir_key r, pay) # now"]) (auto simp: proc_defs split: sum.splits plan_error.splits)
  qed
qed

definition unlinked_part :: item_resolution where
  "unlinked_part = \<lparr>ir_mpn = ''p'', ir_subject = Some [], ir_disposition = PStr ''dispatchLTB'', ir_key = ''n:p'',
     ir_needs_review = False, ir_reason = None, ir_ruleset = None, ir_provenance = None\<rparr>"

theorem approved_effect_never_dies_silently_witness:
  "\<exists>e s'. dispatch \<lparr>iw_mint = [Status 403], iw_state = [], iw_triage = [Status 200]\<rparr> ''n:p''
       \<lparr>dp_key = ''n:p'', dp_compartment = ''a'', dp_requested_by = ''svc'', dp_acted_by = ''kim'', dp_graph = None,
         dp_task = Some (task_for (\<lambda>_. []) unlinked_part ''n'' [] ''procurement'')\<rparr> \<lparr>it_dispatched = None, it_log = []\<rparr>
     = (Inl e, s') \<and> it_dispatched s' = None"
proof -
  let ?run = "dispatch \<lparr>iw_mint = [Status 403], iw_state = [], iw_triage = [Status 200]\<rparr> ''n:p''
       \<lparr>dp_key = ''n:p'', dp_compartment = ''a'', dp_requested_by = ''svc'', dp_acted_by = ''kim'', dp_graph = None,
         dp_task = Some (task_for (\<lambda>_. []) unlinked_part ''n'' [] ''procurement'')\<rparr> \<lparr>it_dispatched = None, it_log = []\<rparr>"
  have "ok (fst ?run) = False" by code_simp
  then obtain e where e: "fst ?run = Inl e" by (cases "fst ?run") simp_all
  then have "?run = (Inl e, snd ?run)" by (simp add: prod_eq_iff)
  with approved_effect_never_dies_silently [OF this] show ?thesis by blast
qed

lemma empty_subject_is_not_marked_unresolved:
  "(case (bind_r (plan_dispatch (\<lambda>_. []) unlinked_part ''n'' []) (\<lambda>p. plan_to_payload p ''kim'' ''kim'' ''a'')) of Inl _ \<Rightarrow> False | Inr p \<Rightarrow>
     dp_graph p = None \<and> map_option hs_unresolved (dp_task p) = Some False)"
  by code_simp

theorem dispatch_is_task_first_and_once_witness:
  "let req = \<lparr>dp_key = ''n:p'', dp_compartment = ''a'', dp_requested_by = ''svc'', dp_acted_by = ''kim'', dp_graph = None,
         dp_task = Some (task_for (\<lambda>_. []) unlinked_part ''n'' [] ''procurement'')\<rparr>;
       s = deliveries ''n:p'' req [\<lparr>iw_mint = [NoAnswer, Status 200], iw_state = [], iw_triage = []\<rparr>] in
     it_dispatched s \<noteq> None \<and> (\<forall>w. snd (dispatch w ''n:p'' req s) = s)"
proof -
  let ?req = "\<lparr>dp_key = ''n:p'', dp_compartment = ''a'', dp_requested_by = ''svc'', dp_acted_by = ''kim'', dp_graph = None,
         dp_task = Some (task_for (\<lambda>_. []) unlinked_part ''n'' [] ''procurement'')\<rparr>"
  let ?ws = "[\<lparr>iw_mint = [NoAnswer, Status 200], iw_state = [], iw_triage = []\<rparr>]"
  have "(case it_dispatched (deliveries ''n:p'' ?req ?ws) of None \<Rightarrow> False | Some _ \<Rightarrow> True)" by code_simp
  then obtain oc where oc: "it_dispatched (deliveries ''n:p'' ?req ?ws) = Some oc" by (auto split: option.splits)
  with dispatch_is_task_first_and_once [of "''n:p''" ?req ?ws] show ?thesis unfolding Let_def by auto
qed

end
