(* ===== verification/Step_Calls.thy ===== *)
theory Step_Calls
  imports Authorization Durable
begin

text \<open>
  \<^verbatim>\<open>agent_fleet/restate_analyst/spo_step_executor.py\<close>: the effects of a workflow's steps, each behind
  its gate, and the case runner's cached credential
  (\<^verbatim>\<open>agent_fleet/utils/service_identity.py\<close>).

  One attempt of a step is a procedure on what the process holds and what it has sent. It returns
  the answer's body, or ends: \<open>Release c\<close> is a \<open>StepFailAndRelease\<close> with its status, which the
  run answers by failing for good; \<open>RetryLater\<close> is any other exception, after which the durable run
  repeats the step. A \<open>step_world\<close> is what one attempt meets: the directory, the clock, the issuer of
  tokens and the answer of the endpoint, \<open>BadUrl\<close> when no request can be made of it.
\<close>

datatype reply = BadUrl | NoReply | Reply int "pyval option"

datatype step_error = Release int | RetryLater

datatype bearer = UserJwt string | RunnerToken string

record sent =
  se_url :: string
  se_bearer :: "bearer option"
  se_body :: pydict

record wire =
  wi_held :: "(string \<times> rat) option"
  wi_sent :: "sent list"

datatype issued = SecretUnset | MintFailed | Token string "rat option"

record step_world =
  sw_dir :: "directory option"
  sw_now :: rat
  sw_client :: bool
  sw_mint :: issued
  sw_reply :: reply

record step_identity =
  si_authz :: string
  si_domains :: "pyval list"
  si_persona :: pyval
  si_jwt :: string

type_synonym 'a call = "(wire, step_error, 'a) proc"

subsection \<open>The case runner's credential\<close>

definition EXPIRY_MARGIN_S :: rat where
  "EXPIRY_MARGIN_S = 30"

definition held_token :: "rat \<Rightarrow> wire \<Rightarrow> string option" where
  "held_token now s = (case wi_held s of
     Some (token, expiry) \<Rightarrow> if expiry - EXPIRY_MARGIN_S > now then Some token else None
   | None \<Rightarrow> None)"

text \<open>
  The lookup of the client id comes first and raises when it is not set. A token whose expiry cannot
  be read is not kept; the one held before stays. A failed mint is the step's 503.
\<close>

definition mint_case_runner_token :: "step_world \<Rightarrow> string call" where
  "mint_case_runner_token w =
     (if \<not> sw_client w then raise_p RetryLater
      else bind_p get_p (\<lambda>s. case held_token (sw_now w) s of
          Some token \<Rightarrow> ret_p token
        | None \<Rightarrow> (case sw_mint w of
              SecretUnset \<Rightarrow> raise_p RetryLater
            | MintFailed \<Rightarrow> raise_p (Release 503)
            | Token token None \<Rightarrow> ret_p token
            | Token token (Some expiry) \<Rightarrow>
                then_p (upd_p (\<lambda>s. s\<lparr>wi_held := Some (token, expiry)\<rparr>)) (ret_p token))))"

definition forget_case_runner_token :: "unit call" where
  "forget_case_runner_token = upd_p (\<lambda>s. s\<lparr>wi_held := None\<rparr>)"

definition credential :: "step_world \<Rightarrow> step_identity \<Rightarrow> bearer call" where
  "credential w ident = (if si_jwt ident \<noteq> [] then ret_p (UserJwt (si_jwt ident))
     else bind_p (mint_case_runner_token w) (\<lambda>t. ret_p (RunnerToken t)))"

subsection \<open>The gate\<close>

definition CASE_RUNNER_AUTHZ_ID :: string where
  "CASE_RUNNER_AUTHZ_ID = ''svc:case-runner''"

definition INTERNAL_WRITE_CAPABILITIES :: "string list" where
  "INTERNAL_WRITE_CAPABILITIES = [''origin.write'']"

definition step_can_invoke :: "directory option \<Rightarrow> string \<Rightarrow> string \<Rightarrow> step_error + bool" where
  "step_can_invoke dir capability caller =
     (if caller = [] \<or> capability = [] then Inr False
      else (case dir of
          None \<Rightarrow> Inr False
        | Some ask \<Rightarrow> (let r = ask ''capability'' capability ''can_invoke'' caller in
            if not_found r then Inr False
            else (case read_check r of Inr b \<Rightarrow> Inr b | Inl Defect \<Rightarrow> Inr False | Inl _ \<Rightarrow> Inl (Release 503)))))"

definition pass_gate :: "directory option \<Rightarrow> string \<Rightarrow> string \<Rightarrow> step_error + unit" where
  "pass_gate dir capability caller =
     bind_r (step_can_invoke dir capability caller) (\<lambda>yes. require_r yes (Release 403))"

definition gate_subject :: "string \<Rightarrow> step_identity \<Rightarrow> step_error + string" where
  "gate_subject capability ident =
     (if si_jwt ident = [] \<and> capability \<in> set INTERNAL_WRITE_CAPABILITIES then Inr CASE_RUNNER_AUTHZ_ID
      else let caller = py_strip (si_authz ident) in
        bind_r (require_r (caller \<noteq> []) (Release 403)) (\<lambda>_. Inr caller))"

subsection \<open>Sending\<close>

definition post :: "step_error \<Rightarrow> step_world \<Rightarrow> string \<Rightarrow> bearer option \<Rightarrow> pydict \<Rightarrow> (int \<times> pyval option) call" where
  "post unusable w url b body = (case sw_reply w of
     BadUrl \<Rightarrow> raise_p unusable
   | answer \<Rightarrow> then_p (upd_p (\<lambda>s. s\<lparr>wi_sent := wi_sent s @ [\<lparr>se_url = url, se_bearer = b, se_body = body\<rparr>]\<rparr>))
       (case answer of Reply s v \<Rightarrow> ret_p (s, v) | _ \<Rightarrow> raise_p RetryLater))"

definition json_of :: "pyval option \<Rightarrow> step_error + pyval" where
  "json_of v = (case v of Some j \<Rightarrow> Inr j | None \<Rightarrow> Inl RetryLater)"

text \<open>A denial, a refusal of this request, an outage: the same reading in both calls of this module.\<close>

definition read_status :: "step_identity \<Rightarrow> int \<times> pyval option \<Rightarrow> pyval call" where
  "read_status ident a = (let (s, v) = a in
     if s = 401 \<or> s = 403
     then then_p (if si_jwt ident = [] then forget_case_runner_token else ret_p ()) (raise_p (Release 403))
     else if 400 \<le> s \<and> s < 500 then raise_p (Release s)
     else if raise_for_status s then raise_p RetryLater
     else lift_p (json_of v))"

record direct_step =
  dc_id :: string
  dc_endpoint :: string
  dc_capability :: string

definition direct_payload :: "direct_step \<Rightarrow> step_identity \<Rightarrow> pyval \<Rightarrow> pydict" where
  "direct_payload step ident extra =
     (let base = [(''task_id'', PStr (dc_id step)), (''task_type'', PStr ''direct_call''),
            (''capability'', PStr (dc_capability step))];
          full = (case extra of PDict e \<Rightarrow> fold (\<lambda>kv d. AList.update (fst kv) (snd kv) d) e base | _ \<Rightarrow> base) in
      if si_jwt ident \<noteq> [] then AList.update ''user_jwt'' (PStr (si_jwt ident)) full else full)"

definition execute_direct_call :: "step_world \<Rightarrow> direct_step \<Rightarrow> step_identity \<Rightarrow> pyval \<Rightarrow> pyval call" where
  "execute_direct_call w step ident extra =
     bind_p (lift_p (gate_subject (dc_capability step) ident)) (\<lambda>caller.
     then_p (lift_p (pass_gate (sw_dir w) (dc_capability step) caller))
     (then_p (lift_p (require_r (dc_endpoint step \<noteq> []) (Release 400)))
     (bind_p (credential w ident) (\<lambda>b.
      bind_p (post (Release 500) w (dc_endpoint step) (Some b) (direct_payload step ident extra))
        (read_status ident)))))"

record query_decl =
  qd_verb :: string
  qd_capability :: string

definition selects_of :: "pyval \<Rightarrow> step_error + pyval" where
  "selects_of j = (case j of
     PDict d \<Rightarrow> if has_key d ''selects'' then Inr (dget d ''selects'') else Inl RetryLater | _ \<Rightarrow> Inl RetryLater)"

definition execute_declared_query ::
  "string \<Rightarrow> step_world \<Rightarrow> query_decl \<Rightarrow> pydict \<Rightarrow> step_identity \<Rightarrow> pyval call" where
  "execute_declared_query engine_o w decl params ident =
     then_p (lift_p (pass_gate (sw_dir w) (qd_capability decl) (si_authz ident)))
     (bind_p (credential w ident) (\<lambda>b.
      bind_p (bind_p (post (Release 500) w (engine_o @ ''/declared_query'') (Some b)
          [(''verb'', PStr (qd_verb decl)), (''params'', PDict params)]) (read_status ident))
        (\<lambda>j. lift_p (selects_of j))))"

subsection \<open>A resolved operation: verify, then dispatch\<close>

fun filter_verbs_by_arity :: "bool \<Rightarrow> pyval list \<Rightarrow> step_error + pyval list" where
  "filter_verbs_by_arity is_set [] = Inr []"
| "filter_verbs_by_arity is_set (v # vs) =
     (if \<not> is_set then Inr (v # vs)
      else (case v of
          PDict d \<Rightarrow> bind_r (filter_verbs_by_arity is_set vs) (\<lambda>rest.
            Inr (if dget d ''arity'' = PStr ''single'' then rest else v # rest))
        | _ \<Rightarrow> Inl RetryLater))"

fun first_match :: "string \<Rightarrow> pyval list \<Rightarrow> step_error + pydict option" where
  "first_match verb [] = Inr None"
| "first_match verb (v # vs) = (case v of
     PDict d \<Rightarrow> if dget d ''verb_iri'' = PStr verb then Inr (Some d) else first_match verb vs
   | _ \<Rightarrow> Inl RetryLater)"

definition verbs_of :: "pyval \<Rightarrow> step_error + pyval list" where
  "verbs_of j = (case j of
     PDict d \<Rightarrow> (let v = dget d ''verbs'' in
       if \<not> truthy v then Inr [] else (case v of PList vs \<Rightarrow> Inr vs | _ \<Rightarrow> Inl RetryLater))
   | _ \<Rightarrow> Inl RetryLater)"

text \<open>Sorting the eligible ids for the message: they are strings, and a missing one does not compare.\<close>

definition sortable :: "pyval list \<Rightarrow> bool" where
  "sortable vs \<longleftrightarrow> length vs \<le> 1 \<or> list_all (\<lambda>v. case v of PDict d \<Rightarrow> is_str (dget d ''verb_iri'') | _ \<Rightarrow> False) vs"

definition verify_spo_step :: "reply \<Rightarrow> string \<Rightarrow> string \<Rightarrow> bool \<Rightarrow> step_error + pydict" where
  "verify_spo_step answer subject verb is_set =
     (if subject = [] \<or> subject = ''UNKNOWN'' then Inl (Release 400)
      else (case answer of
          Reply s v \<Rightarrow>
            if 400 \<le> s \<and> s < 500 then Inl (Release s)
            else if raise_for_status s then Inl RetryLater
            else bind_r (json_of v) (\<lambda>j.
              bind_r (verbs_of j) (\<lambda>all.
              bind_r (filter_verbs_by_arity is_set all) (\<lambda>vs.
              bind_r (first_match verb vs) (\<lambda>m. case m of
                  Some d \<Rightarrow> Inr d
                | None \<Rightarrow> Inl (if sortable vs then Release 403 else RetryLater)))))
        | _ \<Rightarrow> Inl RetryLater))"

definition spo_payload :: "(pyval \<Rightarrow> string) \<Rightarrow> pydict \<Rightarrow> string \<Rightarrow> step_identity \<Rightarrow> string \<Rightarrow> string \<Rightarrow> pydict" where
  "spo_payload rend verb subject ident subject_instance intent =
     [(''user_query'', PStr (if intent \<noteq> [] then intent
        else ''workflow step: '' @ rend (dget verb ''verb_iri'') @ '' on '' @ subject)),
      (''user_email'', PStr (si_authz ident)), (''entitled_domains'', PList (si_domains ident)),
      (''user_persona'', si_persona ident),
      (''answerer_persona'', if truthy (dget verb ''owner_persona'') then dget verb ''owner_persona'' else si_persona ident),
      (''predicate_verb_iri'', dget verb ''verb_iri''), (''routed_verb_iri'', dget verb ''verb_iri''),
      (''resolved_subject_uri'', PStr subject), (''resolved_instance_id'', PStr subject_instance)]
     @ (if si_jwt ident \<noteq> [] then [(''user_jwt'', PStr (si_jwt ident))] else [])"

definition dispatch_spo_step ::
  "(pyval \<Rightarrow> string) \<Rightarrow> step_world \<Rightarrow> pydict \<Rightarrow> string \<Rightarrow> step_identity \<Rightarrow> string \<Rightarrow> string \<Rightarrow> pyval call" where
  "dispatch_spo_step rend w verb subject ident subject_instance intent =
     (if \<not> truthy (dget verb ''endpoint_url'') then raise_p (Release 500)
      else bind_p (post RetryLater w (str_or_nil (dget verb ''endpoint_url''))
             (if si_jwt ident \<noteq> [] then Some (UserJwt (si_jwt ident)) else None)
             (spo_payload rend verb subject ident subject_instance intent)) (\<lambda>a.
        if fst a = 401 \<or> fst a = 403 then raise_p (Release 403)
        else if raise_for_status (fst a) then raise_p RetryLater
        else lift_p (json_of (snd a))))"

subsection \<open>No call without its gate\<close>

definition fresh_bearer :: "step_world \<Rightarrow> wire \<Rightarrow> step_identity \<Rightarrow> bearer \<Rightarrow> bool" where
  "fresh_bearer w s ident b \<longleftrightarrow>
     (if si_jwt ident \<noteq> [] then b = UserJwt (si_jwt ident)
      else \<exists>token. b = RunnerToken token \<and>
        ((\<exists>e. sw_mint w = Token token e) \<or> (\<exists>e. wi_held s = Some (token, e) \<and> sw_now w < e - EXPIRY_MARGIN_S)))"

definition sends_at_most :: "(bearer option \<Rightarrow> bool) \<Rightarrow> wire \<Rightarrow> wire \<Rightarrow> string \<Rightarrow> bool" where
  "sends_at_most good s s' url \<longleftrightarrow> wi_sent s' = wi_sent s \<or>
     (\<exists>m. wi_sent s' = wi_sent s @ [m] \<and> se_url m = url \<and> good (se_bearer m))"

lemma credential_cases:
  "credential w ident s = (r, s') \<Longrightarrow> wi_sent s' = wi_sent s \<and> (\<forall>b. r = Inr b \<longrightarrow> fresh_bearer w s ident b)"
  by (auto simp: credential_def mint_case_runner_token_def held_token_def fresh_bearer_def proc_defs
      split: if_splits option.splits issued.splits prod.splits)

lemma post_cases:
  "post e w url b body s = (r, s') \<Longrightarrow>
     wi_sent s' = wi_sent s \<or> wi_sent s' = wi_sent s @ [\<lparr>se_url = url, se_bearer = b, se_body = body\<rparr>]"
  by (auto simp: post_def proc_defs split: reply.splits)

lemma read_status_sends: "wi_sent (snd (read_status ident a s)) = wi_sent s"
  by (cases a) (simp add: read_status_def proc_defs forget_case_runner_token_def Let_def)

lemma step_can_invoke_ask:
  "step_can_invoke (Some ask) cap caller = (if caller = [] \<or> cap = [] then Inr False
     else (case read_capability (ask ''capability'' cap ''can_invoke'' caller) of Inr b \<Rightarrow> Inr b | Inl Defect \<Rightarrow> Inr False | Inl _ \<Rightarrow> Inl (Release 503)))"
  by (simp add: step_can_invoke_def read_capability_def Let_def)

lemma pass_gate_yes:
  "pass_gate dir cap caller = Inr () \<longleftrightarrow>
     caller \<noteq> [] \<and> cap \<noteq> [] \<and> (\<exists>ask. dir = Some ask \<and> says_yes (ask ''capability'' cap ''can_invoke'' caller))"
proof (cases dir)
  case None
  then show ?thesis by (simp add: pass_gate_def step_can_invoke_def bind_r_def require_r_def)
next
  case (Some ask)
  have "(\<exists>b. read_capability (ask ''capability'' cap ''can_invoke'' caller) = Inr b \<and> b) \<longleftrightarrow>
      says_yes (ask ''capability'' cap ''can_invoke'' caller)"
    using read_capability_yes [of "ask ''capability'' cap ''can_invoke'' caller"] by auto
  with Some show ?thesis
    by (auto simp: pass_gate_def step_can_invoke_ask bind_r_def require_r_def split: sum.splits gate_error.splits)
qed

lemma credential_then_post:
  assumes "bind_p (credential w ident) (\<lambda>b. bind_p (post e w url (Some b) body) k) s = (r, s')"
    and k: "\<And>a t. wi_sent (snd (k a t)) = wi_sent t"
  shows "sends_at_most (\<lambda>b. \<exists>t. b = Some t \<and> fresh_bearer w s ident t) s s' url"
proof -
  obtain rc sc where c: "credential w ident s = (rc, sc)" by fastforce
  note cred = credential_cases [OF c]
  show ?thesis
  proof (cases rc)
    case (Inl x)
    with assms(1) c cred show ?thesis by (simp add: bind_p_def sends_at_most_def)
  next
    case (Inr b)
    obtain rp sp where p: "post e w url (Some b) body sc = (rp, sp)" by fastforce
    have "wi_sent s' = wi_sent sp"
      using assms(1) c Inr p k [of "projr rp" sp] by (cases rp) (auto simp: bind_p_def)
    with post_cases [OF p] cred Inr show ?thesis by (auto simp: sends_at_most_def)
  qed
qed

lemma fst_run: "fst p = r \<Longrightarrow> p = (r, snd p)"
  by (cases p) simp

lemma lift_then: "bind_p (lift_p r) f s = (case r of Inl e \<Rightarrow> (Inl e, s) | Inr a \<Rightarrow> f a s)"
  by (cases r) (simp_all add: bind_p_def lift_p_def)

lemma direct_call_gated:
  "execute_direct_call w step ident extra s = (r, s') \<Longrightarrow> wi_sent s' \<noteq> wi_sent s \<Longrightarrow>
      \<exists>caller ask. sw_dir w = Some ask \<and> caller \<noteq> [] \<and>
        (caller = py_strip (si_authz ident) \<or> caller = ''svc:case-runner'' \<and> si_jwt ident = [] \<and> dc_capability step = ''origin.write'') \<and>
        says_yes (ask ''capability'' (dc_capability step) ''can_invoke'' caller) \<and>
        sends_at_most (\<lambda>b. \<exists>t. b = Some t \<and> fresh_bearer w s ident t) s s' (dc_endpoint step)"
proof -
  assume run: "execute_direct_call w step ident extra s = (r, s')" and sent: "wi_sent s' \<noteq> wi_sent s"
  obtain caller where caller: "gate_subject (dc_capability step) ident = Inr caller"
    using run sent by (cases "gate_subject (dc_capability step) ident") (auto simp: execute_direct_call_def lift_then)
  have gate: "pass_gate (sw_dir w) (dc_capability step) caller = Inr ()"
    using run sent caller
    by (cases "pass_gate (sw_dir w) (dc_capability step) caller") (auto simp: execute_direct_call_def lift_then then_p_def)
  have "bind_p (credential w ident) (\<lambda>b. bind_p (post (Release 500) w (dc_endpoint step) (Some b)
      (direct_payload step ident extra)) (read_status ident)) s = (r, s')"
    using run sent caller gate
    by (auto simp: execute_direct_call_def lift_then then_p_def require_r_def split: if_splits)
  from credential_then_post [OF this read_status_sends] gate caller
  show "\<exists>caller ask. sw_dir w = Some ask \<and> caller \<noteq> [] \<and>
        (caller = py_strip (si_authz ident) \<or> caller = ''svc:case-runner'' \<and> si_jwt ident = [] \<and> dc_capability step = ''origin.write'') \<and>
        says_yes (ask ''capability'' (dc_capability step) ''can_invoke'' caller) \<and>
        sends_at_most (\<lambda>b. \<exists>t. b = Some t \<and> fresh_bearer w s ident t) s s' (dc_endpoint step)"
    by (auto simp: pass_gate_yes gate_subject_def Let_def bind_r_def require_r_def INTERNAL_WRITE_CAPABILITIES_def
        CASE_RUNNER_AUTHZ_ID_def split: if_splits)
qed

lemma declared_query_gated:
  "execute_declared_query engine_o w decl params ident s = (r, s') \<Longrightarrow> wi_sent s' \<noteq> wi_sent s \<Longrightarrow>
      \<exists>ask. sw_dir w = Some ask \<and> si_authz ident \<noteq> [] \<and>
        says_yes (ask ''capability'' (qd_capability decl) ''can_invoke'' (si_authz ident)) \<and>
        sends_at_most (\<lambda>b. \<exists>t. b = Some t \<and> fresh_bearer w s ident t) s s' (engine_o @ ''/declared_query'')"
proof -
  assume run: "execute_declared_query engine_o w decl params ident s = (r, s')" and sent: "wi_sent s' \<noteq> wi_sent s"
  have gate: "pass_gate (sw_dir w) (qd_capability decl) (si_authz ident) = Inr ()"
    using run sent
    by (cases "pass_gate (sw_dir w) (qd_capability decl) (si_authz ident)") (auto simp: execute_declared_query_def lift_then then_p_def)
  let ?q = "\<lambda>b. post (Release 500) w (engine_o @ ''/declared_query'') (Some b) [(''verb'', PStr (qd_verb decl)), (''params'', PDict params)]"
  have assoc: "bind_p (bind_p m f) g = bind_p m (\<lambda>x. bind_p (f x) g)" for m :: "'x call" and f :: "'x \<Rightarrow> 'y call" and g :: "'y \<Rightarrow> 'z call"
    by (rule ext) (simp add: bind_p_def split: prod.split sum.split)
  have "bind_p (credential w ident) (\<lambda>b. bind_p (?q b) (\<lambda>a. bind_p (read_status ident a) (\<lambda>j. lift_p (selects_of j)))) s = (r, s')"
    using run gate by (simp add: execute_declared_query_def lift_then then_p_def assoc)
  moreover have "wi_sent (snd (bind_p (read_status ident a) (\<lambda>j. lift_p (selects_of j)) t)) = wi_sent t" for a t
    using read_status_sends [of ident a t] by (auto simp: bind_p_def lift_p_def split: prod.split sum.split)
  ultimately have "sends_at_most (\<lambda>b. \<exists>t. b = Some t \<and> fresh_bearer w s ident t) s s' (engine_o @ ''/declared_query'')"
    by (rule credential_then_post)
  with gate show "\<exists>ask. sw_dir w = Some ask \<and> si_authz ident \<noteq> [] \<and>
        says_yes (ask ''capability'' (qd_capability decl) ''can_invoke'' (si_authz ident)) \<and>
        sends_at_most (\<lambda>b. \<exists>t. b = Some t \<and> fresh_bearer w s ident t) s s' (engine_o @ ''/declared_query'')"
    by (auto simp: pass_gate_yes)
qed

text \<open>
  C7. No effect without its gate. An attempt of a direct call or of a declared query sends at most
  one request, to the declared endpoint, and only after the directory said yes for the step's own
  capability and the right caller: the acting identity, which is never blank, or the case runner for
  its internal writes alone. The request carries the user's token or one the case runner minted now
  or holds unexpired; it is never sent without.
\<close>

theorem no_call_without_its_gate:
  "(let s' = snd (execute_direct_call w step ident extra s) in wi_sent s' = wi_sent s \<or>
      (\<exists>caller ask. sw_dir w = Some ask \<and> caller \<noteq> [] \<and>
        (caller = py_strip (si_authz ident) \<or> caller = ''svc:case-runner'' \<and> si_jwt ident = [] \<and> dc_capability step = ''origin.write'') \<and>
        says_yes (ask ''capability'' (dc_capability step) ''can_invoke'' caller) \<and>
        sends_at_most (\<lambda>b. \<exists>t. b = Some t \<and> fresh_bearer w s ident t) s s' (dc_endpoint step))) \<and>
   (let s' = snd (execute_declared_query engine_o w decl params ident s) in wi_sent s' = wi_sent s \<or>
      (\<exists>ask. sw_dir w = Some ask \<and> si_authz ident \<noteq> [] \<and>
        says_yes (ask ''capability'' (qd_capability decl) ''can_invoke'' (si_authz ident)) \<and>
        sends_at_most (\<lambda>b. \<exists>t. b = Some t \<and> fresh_bearer w s ident t) s s' (engine_o @ ''/declared_query'')))"
  using direct_call_gated [of w step ident extra s, OF prod.collapse [symmetric]]
    declared_query_gated [of engine_o w decl params ident s, OF prod.collapse [symmetric]]
  unfolding Let_def by blast

lemma released:
  "bind_r (gate_subject cap ident) (\<lambda>caller. bind_r (pass_gate dir cap caller) (\<lambda>_. require_r q (Release 400))) = Inl e \<Longrightarrow>
     \<exists>c. e = Release c"
  by (auto simp: gate_subject_def pass_gate_def step_can_invoke_def bind_r_def require_r_def Let_def
      split: sum.splits if_splits option.splits gate_error.splits)

lemma credential_retry:
  "credential w ident s = (r, s') \<Longrightarrow> r = Inl e \<Longrightarrow>
     e = Release 503 \<or> e = RetryLater \<and> si_jwt ident = [] \<and> (\<not> sw_client w \<or> sw_mint w = SecretUnset)"
  by (auto simp: credential_def mint_case_runner_token_def proc_defs split: if_splits option.splits issued.splits prod.splits)

text \<open>
  What ends a step and what repeats it. A denial, any other refusal of the request, a gate that
  says no or cannot be asked end the step for good; it is repeated only when nothing answered, the
  service failed, its answer could not be read, or the process lacks the runner's own settings. A
  refused runner token is dropped.
\<close>

theorem only_outages_are_retried:
  assumes run: "execute_direct_call w step ident extra s = (r, s')"
  shows "(r = Inl RetryLater \<longrightarrow> sw_reply w = NoReply \<or>
        (\<exists>c v. sw_reply w = Reply c v \<and> (500 \<le> c \<and> c < 600 \<or> v = None)) \<or>
        si_jwt ident = [] \<and> (\<not> sw_client w \<or> sw_mint w = SecretUnset)) \<and>
     (\<forall>j. r = Inr j \<longrightarrow> (\<exists>c. sw_reply w = Reply c (Some j) \<and> \<not> (400 \<le> c \<and> c < 600))) \<and>
     (\<forall>c v. sw_reply w = Reply c v \<longrightarrow> c \<in> {401, 403} \<longrightarrow> wi_sent s' \<noteq> wi_sent s \<longrightarrow>
        r = Inl (Release 403) \<and> (si_jwt ident = [] \<longrightarrow> wi_held s' = None))"
proof (cases "bind_r (gate_subject (dc_capability step) ident) (\<lambda>caller. bind_r (pass_gate (sw_dir w) (dc_capability step) caller)
    (\<lambda>_. require_r (dc_endpoint step \<noteq> []) (Release 400)))")
  case (Inl e)
  from released [OF this] obtain c where "e = Release c" ..
  with Inl run have "r = Inl (Release c)" "s' = s"
    by (auto simp: execute_direct_call_def lift_then then_p_def bind_r_def split: sum.splits)
  then show ?thesis by simp
next
  case (Inr u)
  with run have "bind_p (credential w ident) (\<lambda>b. bind_p (post (Release 500) w (dc_endpoint step) (Some b)
      (direct_payload step ident extra)) (read_status ident)) s = (r, s')"
    by (auto simp: execute_direct_call_def lift_then then_p_def bind_r_def split: sum.splits)
  then obtain rc sc where c: "credential w ident s = (rc, sc)" and
    rest: "(case rc of Inl e \<Rightarrow> (Inl e, sc) | Inr b \<Rightarrow> bind_p (post (Release 500) w (dc_endpoint step) (Some b)
      (direct_payload step ident extra)) (read_status ident) sc) = (r, s')"
    by (cases "credential w ident s") (auto simp: bind_p_def split: sum.splits)
  note cred = credential_cases [OF c] credential_retry [OF c]
  show ?thesis
  proof (cases rc)
    case (Inl e)
    with rest cred show ?thesis by auto
  next
    case (Inr b)
    with rest show ?thesis
      by (auto simp: post_def read_status_def json_of_def forget_case_runner_token_def raise_for_status_def proc_defs Let_def
          split: reply.splits option.splits if_splits)
  qed
qed

definition yes_directory :: directory where
  "yes_directory ot oid rel who =
     (if who = ''kim'' then Answered 200 (Some (PDict [(''check'', PBool True)])) else Answered 404 None)"

definition one_call :: "step_world" where
  "one_call = \<lparr>sw_dir = Some yes_directory, sw_now = 0, sw_client = True, sw_mint = Token ''t'' (Some 60),
     sw_reply = Reply 403 None\<rparr>"

definition demo_step :: direct_step where
  "demo_step = \<lparr>dc_id = ''s'', dc_endpoint = ''http'', dc_capability = ''mesh:tell''\<rparr>"

definition demo_ident :: step_identity where
  "demo_ident = \<lparr>si_authz = '' kim'', si_domains = [], si_persona = PNone, si_jwt = []\<rparr>"

theorem only_outages_are_retried_witness:
  "\<exists>s'. execute_direct_call one_call demo_step demo_ident PNone \<lparr>wi_held = None, wi_sent = []\<rparr> = (Inl (Release 403), s') \<and>
     wi_held s' = None"
proof -
  let ?run = "execute_direct_call one_call demo_step demo_ident PNone \<lparr>wi_held = None, wi_sent = []\<rparr>"
  have sent: "wi_sent (snd ?run) \<noteq> []" "sw_reply one_call = Reply 403 None" "si_jwt demo_ident = []" by code_simp+
  from only_outages_are_retried [OF prod.collapse [symmetric], of one_call demo_step demo_ident PNone "\<lparr>wi_held = None, wi_sent = []\<rparr>"] sent
  show ?thesis by (metis (no_types, lifting) insert_iff prod.collapse wire.select_convs(2))
qed

text \<open>C0. What the verifier passes is eligible: one of the verbs the engine answered for the subject,
  the very one the step declares, and of a kind that takes a set where the subject is one. A verb the
  engine did not answer is refused, and so is a subject that is not resolved.\<close>

theorem verified_verb_is_eligible:
  "verify_spo_step answer subject verb is_set = Inr d \<longleftrightarrow>
     subject \<notin> {[], ''UNKNOWN''} \<and>
     (\<exists>c j vs. answer = Reply c (Some j) \<and> \<not> (400 \<le> c \<and> c < 600) \<and> verbs_of j = Inr vs \<and>
       (\<exists>kept. filter_verbs_by_arity is_set vs = Inr kept \<and> first_match verb kept = Inr (Some d) \<and>
         PDict d \<in> set vs \<and> dget d ''verb_iri'' = PStr verb \<and> (is_set \<longrightarrow> dget d ''arity'' \<noteq> PStr ''single'')))"
proof -
  have kept: "filter_verbs_by_arity is_set vs = Inr kept \<Longrightarrow>
      set kept \<subseteq> set vs \<and> (is_set \<longrightarrow> (\<forall>d. PDict d \<in> set kept \<longrightarrow> dget d ''arity'' \<noteq> PStr ''single''))" for vs kept
    by (induction is_set vs arbitrary: kept rule: filter_verbs_by_arity.induct)
      (fastforce simp: bind_r_def split: if_splits pyval.splits sum.splits)+
  have found: "first_match verb kept = Inr (Some d) \<Longrightarrow> PDict d \<in> set kept \<and> dget d ''verb_iri'' = PStr verb" for kept
    by (induction verb kept rule: first_match.induct) (auto split: if_splits pyval.splits)
  show ?thesis
    by (auto simp: verify_spo_step_def bind_r_def json_of_def raise_for_status_def
        dest: kept found split: reply.splits option.splits sum.splits if_splits)
qed

theorem verified_verb_is_eligible_witness:
  "verify_spo_step (Reply 200 (Some (PDict [(''verbs'', PList [PDict [(''verb_iri'', PStr ''a'')]])]))) ''part'' ''a'' True
     = Inr [(''verb_iri'', PStr ''a'')] \<and> dget [(''verb_iri'', PStr ''a'')] ''arity'' \<noteq> PStr ''single''"
proof -
  have "verify_spo_step (Reply 200 (Some (PDict [(''verbs'', PList [PDict [(''verb_iri'', PStr ''a'')]])]))) ''part'' ''a'' True
     = Inr [(''verb_iri'', PStr ''a'')]" by code_simp
  with verified_verb_is_eligible [of _ "''part''" "''a''" True "[(''verb_iri'', PStr ''a'')]"] show ?thesis by blast
qed

text \<open>Three places where the module does less than it says.\<close>

lemma spo_dispatch_retries_permanent_refusals:
  assumes "truthy (dget verb ''endpoint_url'')"
    and "sw_reply w = BadUrl \<or> (\<exists>c v. sw_reply w = Reply c v \<and> 400 \<le> c \<and> c < 500 \<and> c \<noteq> 401 \<and> c \<noteq> 403)"
  shows "fst (dispatch_spo_step rend w verb subject ident inst intent s) = Inl RetryLater"
  using assms by (auto simp: dispatch_spo_step_def post_def raise_for_status_def proc_defs)

lemma ineligible_verb_without_an_id_beside_is_retried:
  "verify_spo_step (Reply 200 (Some (PDict [(''verbs'', PList [PDict [(''verb_iri'', PStr ''a'')], PDict []])])))
     ''part'' ''b'' False = Inl RetryLater"
  by code_simp

lemma payload_can_rename_the_capability:
  "dget (direct_payload demo_step demo_ident (PDict [(''capability'', PStr ''origin.write'')])) ''capability'' = PStr ''origin.write''"
  by code_simp

end
