(* ===== verification/Workflow_Executor.thy ===== *)
theory Workflow_Executor
  imports Run_Context Case_Handlers Grouped_Review Dispatch Step_Calls
begin

text \<open>
  \<^verbatim>\<open>agent_fleet/restate_analyst/main.py\<close>, \<open>_run_definition\<close>: a declared definition, step by step, and
  the handlers that answer what it waits for (\<open>_approve_impl\<close>, \<open>signal\<close>, \<open>submit_decision\<close>) behind
  the one authority gate \<open>_authorize_resolution\<close>.

  The state is what the run has journalled: the keys the gate reads, the review it serves, the
  outputs, the approval chain and the records of its steps; \<open>ex_log\<close> lists its effects. The world
  holds what each step meets: the answers of a registering or retiring call attempt by attempt, the
  attempts of a call, the handler calls that arrive while a promise is awaited and whether its
  deadline passes before one of them resolves it. A step that still waits ends the run as \<open>Waits\<close>.

  The environment variables, the hash of the definition (\<open>xw_version\<close>), the resolver of an added
  part (\<open>xw_subject\<close>) and the kinds the SDK declares are arguments.
\<close>

subsection \<open>The authority gate\<close>

record gate_keys =
  gk_audience :: "(string \<times> string) list"
  gk_excluded :: "(string \<times> string list) list"
  gk_accepts :: "(string \<times> string list) list"
  gk_reason :: "(string \<times> string list) list"

definition step_can_act :: "directory option \<Rightarrow> string \<Rightarrow> string \<Rightarrow> run_error + bool" where
  "step_can_act dir audience caller =
     (if caller = [] \<or> audience = [] then Inr False
      else (case dir of
          None \<Rightarrow> Inr False
        | Some ask \<Rightarrow> (let r = ask ''task_audience'' audience ''can_act'' caller in
            if not_found r then Inr False
            else (case read_check r of Inr b \<Rightarrow> Inr b | Inl Defect \<Rightarrow> Inr False | Inl _ \<Rightarrow> Inl (Fails 503)))))"

text \<open>\<open>(raw or "").strip()\<close>; on a value with no \<open>strip\<close> an exception.\<close>

definition actor_of :: "pyval \<Rightarrow> run_error + string" where
  "actor_of raw = (if \<not> truthy raw then Inr [] else (case raw of PStr s \<Rightarrow> Inr (py_strip s) | _ \<Rightarrow> Inl Retried))"

definition excluded_from :: "gate_keys \<Rightarrow> string \<Rightarrow> string \<Rightarrow> bool" where
  "excluded_from ks promise who \<longleftrightarrow>
     py_lower who \<in> set (map py_lower (case map_of (gk_excluded ks) promise of Some xs \<Rightarrow> xs | None \<Rightarrow> []))"

definition authorize_resolution ::
  "(pyval \<Rightarrow> string) \<Rightarrow> directory option \<Rightarrow> gate_keys \<Rightarrow> string \<Rightarrow> pyval \<Rightarrow> pyval \<Rightarrow> run_error + string" where
  "authorize_resolution rend dir ks promise by_raw via_raw =
     bind_r (actor_of by_raw) (\<lambda>who.
     bind_r (require_r (who \<noteq> []) (Fails 401)) (\<lambda>_.
     bind_r (require_r (\<not> excluded_from ks promise who) (Fails 403)) (\<lambda>_.
     bind_r (require_r (\<not> (truthy via_raw \<and> excluded_from ks promise (str_of rend via_raw))) (Fails 403)) (\<lambda>_.
     (case map_of (gk_audience ks) promise of
        None \<Rightarrow> Inl (Fails 403)
      | Some audience \<Rightarrow>
          bind_r (require_r (audience \<noteq> []) (Fails 403)) (\<lambda>_.
          bind_r (step_can_act dir audience who) (\<lambda>yes.
          bind_r (require_r yes (Fails 403)) (\<lambda>_. Inr who)))))))) "

definition delegate_of :: "(pyval \<Rightarrow> string) \<Rightarrow> pyval \<Rightarrow> pyval \<Rightarrow> run_error + pyval" where
  "delegate_of rend by_raw via_raw =
     (if via_raw = PNone then Inr PNone
      else let via = py_strip (str_of rend via_raw) in
        if via = [] \<or> py_lower via = py_lower (py_strip (str_or_empty rend by_raw)) then Inl (Fails 400)
        else Inr (PStr via))"

text \<open>What \<open>approve\<close> resolves, and with what.\<close>

definition approve_impl ::
  "(pyval \<Rightarrow> string) \<Rightarrow> directory option \<Rightarrow> gate_keys \<Rightarrow> pydict \<Rightarrow> run_error + (string \<times> pydict)" where
  "approve_impl rend dir ks request =
     (case map_of request ''task_id'' of
        None \<Rightarrow> Inl Retried
      | Some task_id \<Rightarrow>
          let promise = (if truthy (dget request ''promise_name'') then str_of rend (dget request ''promise_name'')
                         else ''approval_'' @ str_of rend task_id) in
          bind_r (delegate_of rend (dget request ''acted_by'') (dget request ''acted_via'')) (\<lambda>via.
          bind_r (authorize_resolution rend dir ks promise (dget request ''acted_by'') via) (\<lambda>who.
            Inr (promise, [(''status'', dget_or request ''status'' (PStr ''APPROVED'')),
                (''comments'', dget_or request ''comments'' (PStr [])), (''task_id'', task_id), (''acted_by'', PStr who)]
              @ (if via = PNone then [] else [(''acted_via'', via)])))))"

subsection \<open>A promise and its answers\<close>

datatype arrival = ApproveCall pydict | SignalCall pydict | SubmitCall string pyval

definition awaits_of :: "gate_keys \<Rightarrow> awaits" where
  "awaits_of ks = \<lparr>aw_accepts = (\<lambda>n. map PStr (case map_of (gk_accepts ks) n of Some a \<Rightarrow> a | None \<Rightarrow> [])),
     aw_reasons = (\<lambda>n. map PStr (case map_of (gk_reason ks) n of Some a \<Rightarrow> a | None \<Rightarrow> []))\<rparr>"

definition gate_for_signal ::
  "(pyval \<Rightarrow> string) \<Rightarrow> directory option \<Rightarrow> gate_keys \<Rightarrow> string \<Rightarrow> pyval \<Rightarrow> pyval \<Rightarrow> string + pyval" where
  "gate_for_signal rend dir ks name by_raw via_raw = (case authorize_resolution rend dir ks name by_raw via_raw of
     Inl _ \<Rightarrow> Inl name | Inr who \<Rightarrow> Inr (PStr who))"

definition settles :: "directory option \<Rightarrow> string \<Rightarrow> string \<Rightarrow> bool option" where
  "settles dir audience who = (case step_can_act dir audience who of Inr b \<Rightarrow> Some b | Inl _ \<Rightarrow> None)"

text \<open>The promise a handler call resolves, with its value; \<open>None\<close> when it resolves nothing.\<close>

definition resolved_by ::
  "(pyval \<Rightarrow> string) \<Rightarrow> (pydict \<Rightarrow> bool) \<Rightarrow> directory option \<Rightarrow> gate_keys \<Rightarrow> review_state \<Rightarrow> arrival \<Rightarrow> (string \<times> pyval) option" where
  "resolved_by rend sdk_ref dir ks review a = (case a of
     ApproveCall request \<Rightarrow> (case approve_impl rend dir ks request of
         Inr (promise, payload) \<Rightarrow> Some (promise, PDict payload) | Inl _ \<Rightarrow> None)
   | SignalCall request \<Rightarrow> (case signal rend (gate_for_signal rend dir ks) (awaits_of ks) request of
         Inr (name, status, comments, who) \<Rightarrow>
           Some (name, PDict [(''status'', status), (''comments'', comments), (''acted_by'', who)])
       | Inl _ \<Rightarrow> None)
   | SubmitCall who decision \<Rightarrow>
       (case submit_decision sdk_ref (settles dir) False who decision
            (review\<lparr>rv_audience := map_of (gk_audience ks) ''decision'', rv_decision := None\<rparr>) of
          (Inr (AcceptedDecision _ _ _), _) \<Rightarrow> Some (''decision'', decision)
        | _ \<Rightarrow> None))"

fun first_answer :: "(arrival \<Rightarrow> (string \<times> pyval) option) \<Rightarrow> string \<Rightarrow> arrival list \<Rightarrow> pyval option" where
  "first_answer by promise [] = None"
| "first_answer by promise (a # as) = (case by a of
     Some (name, v) \<Rightarrow> if name = promise then Some v else first_answer by promise as
   | None \<Rightarrow> first_answer by promise as)"

subsection \<open>The run\<close>

record approval =
  ap_step :: nat
  ap_role :: "string option"
  ap_sub :: pyval
  ap_decided :: pyval
  ap_ref :: string
  ap_via :: "pyval option"

record await_task =
  at_id :: string
  at_audience :: string
  at_title :: string
  at_summary :: string
  at_subject :: "string option"
  at_requested_by :: string
  at_promise :: string
  at_service :: string
  at_excludes :: "string list"
  at_options :: "pyval option"
  at_kind :: string
  at_case :: pyval

datatype exec_effect =
    Registered await_task
  | Retired string
  | GroupedRegistered string string
  | DefectFiled defect
  | FannedOut sends
  | Escalated string pydict
  | CallMade string
  | Emitted string pydict
  | Slept int

record exec_state =
  ex_keys :: gate_keys
  ex_review :: review_state
  ex_wire :: wire
  ex_outputs :: pydict
  ex_chain :: "approval list"
  ex_results :: "pydict list"
  ex_log :: "exec_effect list"

record query_verb =
  qv_decl :: query_decl
  qv_domain :: string
  qv_params :: "(string \<times> string) list"
  qv_returns :: pyval

record exec_world =
  xw_rend :: "pyval \<Rightarrow> string"
  xw_json :: "pyval \<Rightarrow> string"
  xw_sha :: "string \<Rightarrow> string"
  xw_engine_o :: string
  xw_dir :: "directory option"
  xw_sdk_ref :: "pydict \<Rightarrow> bool"
  xw_card :: card_world
  xw_version :: "workflow_definition \<Rightarrow> string"
  xw_verbs :: "((string \<times> stub_verb) list \<times> (string \<times> query_verb) list) option"
  xw_register :: "string \<Rightarrow> http list"
  xw_expire :: "string \<Rightarrow> http list"
  xw_file :: "string \<Rightarrow> http list"
  xw_arrivals :: "string \<Rightarrow> arrival list"
  xw_expired :: "string \<Rightarrow> bool"
  xw_now :: "string \<Rightarrow> string"
  xw_calls :: "string \<Rightarrow> step_world list"
  xw_verify :: "string \<Rightarrow> (reply \<times> step_world) list"
  xw_subject :: "string \<Rightarrow> string option"

record exec_input =
  xi_workflow :: string
  xi_wf :: workflow_definition
  xi_request :: pydict
  xi_outputs :: pydict
  xi_case :: pydict
  xi_revision :: pydict
  xi_kind :: string
  xi_service :: string
  xi_registry :: bool

type_synonym 'a exec = "(exec_state, run_error, 'a) proc"

definition dropper_of :: "pydict \<Rightarrow> string" where
  "dropper_of request = (case dget request ''dropped_by'' of
     PDict d \<Rightarrow> (case dget d ''authz_id'' of PStr s \<Rightarrow> py_strip s | _ \<Rightarrow> []) | _ \<Rightarrow> [])"

definition run_subject :: "pydict \<Rightarrow> string" where
  "run_subject request =
     (if truthy (dget request ''authz_id'') then str_or_nil (dget request ''authz_id'')
      else if truthy (dget request ''caller_email'') then str_or_nil (dget request ''caller_email'')
      else dropper_of request)"

definition identity_of :: "pydict \<Rightarrow> step_identity" where
  "identity_of request = \<lparr>si_authz = run_subject request, si_domains = list_or_nil (dget request ''entitled_domains''),
     si_persona = dget request ''user_persona'', si_jwt = str_or_nil (dget request ''user_jwt'')\<rparr>"

definition approval_val :: "approval \<Rightarrow> pyval" where
  "approval_val a = PDict ([(''step'', PInt (int (ap_step a))), (''role'', opt_text (ap_role a)), (''approver_sub'', ap_sub a),
     (''decision'', PStr ''approved''), (''decided_at'', ap_decided a), (''decision_record_ref'', PStr (ap_ref a))]
     @ (case ap_via a of None \<Rightarrow> [] | Some v \<Rightarrow> [(''acted_via'', v)]))"

definition all_outputs :: "exec_input \<Rightarrow> exec_state \<Rightarrow> pydict" where
  "all_outputs inp s = AList.update (wd_id (xi_wf inp)) (PDict (ex_outputs s)) (xi_outputs inp)"

definition context_of :: "exec_world \<Rightarrow> exec_input \<Rightarrow> exec_state \<Rightarrow> pydict" where
  "context_of w inp s =
     [(''trigger'', PDict (xi_request inp)), (''outputs'', PDict (all_outputs inp s)),
      (''case'', PDict (AList.update ''instance_id'' (PStr (xi_workflow inp))
         (AList.update ''approval_chain'' (PList (map approval_val (ex_chain s))) (xi_case inp)))),
      (''definition'', PDict [(''id'', PStr (wd_id (xi_wf inp))), (''version'', PStr (xw_version w (xi_wf inp)))])]
     @ (if xi_revision inp = [] then [] else [(''input'', PDict (xi_revision inp))])"

definition put_output :: "string \<Rightarrow> pyval \<Rightarrow> unit exec" where
  "put_output sid v = upd_p (\<lambda>s. s\<lparr>ex_outputs := AList.update sid v (ex_outputs s)\<rparr>)"

definition add_result :: "pydict \<Rightarrow> unit exec" where
  "add_result r = upd_p (\<lambda>s. s\<lparr>ex_results := ex_results s @ [r]\<rparr>)"

definition log_exec :: "exec_effect \<Rightarrow> unit exec" where
  "log_exec e = upd_p (\<lambda>s. s\<lparr>ex_log := ex_log s @ [e]\<rparr>)"

text \<open>A journalled call: its attempts until one ends it.\<close>

fun attempts :: "('w \<Rightarrow> 'a call) \<Rightarrow> 'w list \<Rightarrow> wire \<Rightarrow> (run_error + 'a) \<times> wire" where
  "attempts f [] s = (Inl Waits, s)"
| "attempts f (w # ws) s = (case f w s of
     (Inr a, s') \<Rightarrow> (Inr a, s')
   | (Inl (Release c), s') \<Rightarrow> (Inl (Fails c), s')
   | (Inl RetryLater, s') \<Rightarrow> attempts f ws s')"

definition on_wire :: "(wire \<Rightarrow> (run_error + 'a) \<times> wire) \<Rightarrow> 'a exec" where
  "on_wire m s = (case m (ex_wire s) of (r, x) \<Rightarrow> (r, s\<lparr>ex_wire := x\<rparr>))"

definition journal_write :: "(http \<Rightarrow> attempt) \<Rightarrow> http list \<Rightarrow> exec_effect \<Rightarrow> unit exec" where
  "journal_write f hs e = (case journalled f hs of
     Wrote \<Rightarrow> log_exec e | Refused c \<Rightarrow> raise_p (Fails c) | Again \<Rightarrow> raise_p Waits)"

definition await_answer :: "exec_world \<Rightarrow> string \<Rightarrow> int option \<Rightarrow> pyval option exec" where
  "await_answer w promise deadline = bind_p get_p (\<lambda>s.
     case first_answer (resolved_by (xw_rend w) (xw_sdk_ref w) (xw_dir w) (ex_keys s) (ex_review s)) promise (xw_arrivals w promise) of
       Some v \<Rightarrow> ret_p (Some v)
     | None \<Rightarrow> if deadline \<noteq> None \<and> xw_expired w promise then ret_p None else raise_p Waits)"

subsection \<open>A human's answer\<close>

definition await_refusal :: "human_await \<Rightarrow> run_error + unit" where
  "await_refusal h = require_r (cp_quorum (ha_completion h) \<noteq> NofM \<and>
     \<not> (cp_mode (ha_completion h) = Grouped \<and> (ha_deadline h \<noteq> None \<or> ha_task_kind h \<noteq> None))) (Fails 501)"

definition chooses :: "human_await \<Rightarrow> string option" where
  "chooses h = nonempty (ha_chooses_from h)"

definition options_of :: "pydict \<Rightarrow> human_await \<Rightarrow> pyval list option" where
  "options_of context h = (case chooses h of
     None \<Rightarrow> None
   | Some p \<Rightarrow> (case resolve_path False context p of Some (PList vs) \<Rightarrow> Some vs | _ \<Rightarrow> None))"

definition option_labels :: "pyval list \<Rightarrow> (string \<times> string) list" where
  "option_labels vs = fold (\<lambda>v ls. case v of
     PDict d \<Rightarrow> (case (dget d ''verb'', dget d ''label'') of
         (PStr verb, PStr label) \<Rightarrow> AList.update verb label ls | _ \<Rightarrow> ls)
   | _ \<Rightarrow> ls) vs []"

definition bound_excludes :: "(string \<Rightarrow> run_error + string) \<Rightarrow> human_await \<Rightarrow> run_error + string list" where
  "bound_excludes bind h =
     bind_r (map_r bind (ha_excludes h)) (\<lambda>xs.
     bind_r (require_r (list_all (\<lambda>x. py_strip x \<noteq> []) xs) (Fails 422)) (\<lambda>_. Inr (map py_strip xs)))"

definition register_title :: "string option \<Rightarrow> string" where
  "register_title t = (case nonempty t of Some s \<Rightarrow> s | None \<Rightarrow> ''Approve step'')"

definition or_text :: "string option \<Rightarrow> string \<Rightarrow> string" where
  "or_text t dflt = (case nonempty t of Some s \<Rightarrow> s | None \<Rightarrow> dflt)"

text \<open>The task of a single await, but for the kind of its row; \<open>at_kind\<close> holds the caller's until it is read.\<close>

definition task_of_await :: "exec_world \<Rightarrow> exec_input \<Rightarrow> exec_state \<Rightarrow> string \<Rightarrow> human_await \<Rightarrow> run_error + await_task" where
  "task_of_await w inp s sid h =
     (let context = context_of w inp s; bs = run_bindings (xi_request inp); rend = xw_rend w;
          strict = bind_field rend bs context True; show = bind_display rend bs context;
          options = options_of context h; task_id = xi_workflow inp @ '':'' @ sid in
      bind_r (strict (ha_audience h)) (\<lambda>aud.
      bind_r (choice_consequence_text rend (xw_card w) (wd_id (xi_wf inp)) h (flatten (PDict (xi_request inp)) [])
        (case options of Some vs \<Rightarrow> option_labels vs | None \<Rightarrow> [])) (\<lambda>derived.
      bind_r (bound_excludes strict h) (\<lambda>excl.
        Inr \<lparr>at_id = task_id, at_audience = aud, at_title = register_title (show (ha_title h)),
          at_summary = or_text (compose_summary (show (ha_summary h)) derived) (''Approve workflow step '' @ task_id),
          at_subject = show (ha_subject_ref h),
          at_requested_by = or_text (ha_requested_by h) (run_subject (xi_request inp)),
          at_promise = resolved_promise_name sid h, at_service = xi_service inp, at_excludes = excl,
          at_options = map_option PList options, at_kind = xi_kind inp, at_case = dget (xi_case inp) ''case_id''\<rparr>))))"

definition kind_of_row :: "exec_world \<Rightarrow> exec_input \<Rightarrow> exec_state \<Rightarrow> human_await \<Rightarrow> run_error + string" where
  "kind_of_row w inp s h = (case ha_task_kind h of
     None \<Rightarrow> Inr (xi_kind inp)
   | Some k \<Rightarrow> if \<not> xi_registry inp then Inl (Fails 400)
       else bind_field (xw_rend w) (run_bindings (xi_request inp)) (context_of w inp s) True k)"

definition register_human_task :: "http \<Rightarrow> attempt" where
  "register_human_task h = (case h of
     NoAnswer \<Rightarrow> Again
   | Status c \<Rightarrow> if c = 401 \<or> c = 403 then Refused 403
       else if fail_terminal_on_4xx c then Refused c
       else if raise_for_status c then Again else Wrote)"

text \<open>A denied retirement is only logged there: it is no verdict on the run, and nothing is retired.\<close>

definition expire_human_task :: "http \<Rightarrow> attempt" where
  "expire_human_task h = (case h of
     NoAnswer \<Rightarrow> Again
   | Status c \<Rightarrow> if c = 401 \<or> c = 403 then Refused c else if raise_for_status c then Again else Wrote)"

definition journal_gate :: "await_task \<Rightarrow> unit exec" where
  "journal_gate t = upd_p (\<lambda>s. s\<lparr>ex_keys := (ex_keys s)
     \<lparr>gk_audience := AList.update (at_promise t) (at_audience t) (gk_audience (ex_keys s)),
      gk_excluded := (if at_excludes t = [] then gk_excluded (ex_keys s)
        else AList.update (at_promise t) (at_excludes t) (gk_excluded (ex_keys s)))\<rparr>\<rparr>)"

definition register_step :: "exec_world \<Rightarrow> string \<Rightarrow> await_task \<Rightarrow> unit exec" where
  "register_step w sid t =
     then_p (lift_p (require_r (at_audience t \<noteq> []) (Fails 400)))
       (journal_write register_human_task (xw_register w sid) (Registered t))"

definition retire_step :: "exec_world \<Rightarrow> string \<Rightarrow> string \<Rightarrow> unit exec" where
  "retire_step w sid task_id = (case journalled expire_human_task (xw_expire w sid) of
     Wrote \<Rightarrow> log_exec (Retired task_id) | Refused _ \<Rightarrow> ret_p () | Again \<Rightarrow> raise_p Waits)"

text \<open>What was chosen: the one option that answers to the verb.\<close>

definition chosen_option :: "pydict \<Rightarrow> human_await \<Rightarrow> pyval \<Rightarrow> run_error + pyval" where
  "chosen_option context h verb = (case options_of context h of
     None \<Rightarrow> Inl (Fails 400)
   | Some vs \<Rightarrow> (let hits = filter (\<lambda>v. case v of PDict d \<Rightarrow> py_eq (dget d ''verb'') verb | _ \<Rightarrow> False) vs in
       if 1 < length hits then Inl (Fails 400)
       else if hits = [] then (if verb \<in> set (map PStr (ha_approves h)) then Inl (Fails 400) else Inr PNone)
       else Inr (hd hits)))"

definition chosen_field :: "pydict \<Rightarrow> human_await \<Rightarrow> pyval \<Rightarrow> run_error + pydict" where
  "chosen_field context h verb = (if chooses h = None then Inr []
     else bind_r (chosen_option context h verb) (\<lambda>c. Inr [(''chosen'', c)]))"

definition new_chain :: "exec_input \<Rightarrow> string \<Rightarrow> human_await \<Rightarrow> pydict \<Rightarrow> pyval \<Rightarrow> approval list \<Rightarrow> approval list" where
  "new_chain inp sid h approval when_at links =
     (if ha_approves h = [] then links
      else if dget approval ''status'' \<in> set (map PStr (ha_approves h)) then
        (let base = (if chooses h \<noteq> None then [] else links) in
         base @ [\<lparr>ap_step = Suc (length base), ap_role = ha_role h, ap_sub = dget approval ''acted_by'', ap_decided = when_at,
           ap_ref = xi_workflow inp @ '':'' @ sid, ap_via = map_of approval ''acted_via''\<rparr>])
      else [])"

definition answer_record :: "pydict \<Rightarrow> pyval \<Rightarrow> pydict" where
  "answer_record approval when_at =
     [(''status'', dget approval ''status''), (''acted_by'', dget approval ''acted_by''),
      (''comments'', dget_or approval ''comments'' (PStr [])), (''decided_at'', when_at)]
     @ (case map_of approval ''acted_via'' of None \<Rightarrow> [] | Some v \<Rightarrow> [(''acted_via'', v)])"

definition settle_await :: "exec_world \<Rightarrow> exec_input \<Rightarrow> string \<Rightarrow> human_await \<Rightarrow> pydict \<Rightarrow> unit exec" where
  "settle_await w inp sid h approval = bind_p get_p (\<lambda>s.
     let verb = dget approval ''status'';
         when_at = (if ha_approves h \<noteq> [] \<or> chooses h \<noteq> None then PStr (xw_now w sid) else PNone) in
     bind_p (lift_p (chosen_field (context_of w inp s) h verb)) (\<lambda>chosen.
     then_p (upd_p (\<lambda>s. s\<lparr>ex_chain := new_chain inp sid h approval when_at (ex_chain s)\<rparr>))
     (then_p (put_output sid (PDict (answer_record approval when_at @ chosen)))
       (add_result [(''step_id'', PStr sid), (''kind'', PStr ''human_await''),
         (''status'', dget_or approval ''status'' (PStr ''APPROVED'')), (''approval'', PDict approval), (''disposition'', verb)]))))"

definition timed_out :: "string \<Rightarrow> string \<Rightarrow> string \<Rightarrow> int option \<Rightarrow> pydict" where
  "timed_out sid kind slot deadline =
     [(''step_id'', PStr sid), (''kind'', PStr kind), (''status'', PStr ''TIMED_OUT''), (slot, PNone),
      (''terminal'', PStr ''timed_out''), (''deadline_seconds'', case deadline of Some n \<Rightarrow> PInt n | None \<Rightarrow> PNone)]"

text \<open>A step returns whether the definition ends with it.\<close>

definition single_await :: "exec_world \<Rightarrow> exec_input \<Rightarrow> string \<Rightarrow> human_await \<Rightarrow> bool exec" where
  "single_await w inp sid h = bind_p get_p (\<lambda>s.
     bind_p (lift_p (task_of_await w inp s sid h)) (\<lambda>t.
     then_p (journal_gate t)
     (bind_p (lift_p (kind_of_row w inp s h)) (\<lambda>kind.
     then_p (register_step w sid (t\<lparr>at_kind := kind\<rparr>))
     (bind_p (await_answer w (at_promise t) (ha_deadline h)) (\<lambda>answer. case answer of
          None \<Rightarrow> then_p (add_result (timed_out sid ''human_await'' ''approval'' (ha_deadline h)))
             (then_p (retire_step w sid (at_id t)) (ret_p True))
        | Some (PDict approval) \<Rightarrow> then_p (settle_await w inp sid h approval) (ret_p False)
        | Some _ \<Rightarrow> raise_p Retried))))))"

subsection \<open>The grouped review\<close>

definition need_text :: "pydict \<Rightarrow> string \<Rightarrow> run_error + string" where
  "need_text d k = (case map_of d k of Some (PStr s) \<Rightarrow> Inr s | _ \<Rightarrow> Inl Retried)"

definition need_dicts :: "pyval option \<Rightarrow> run_error + pydict list" where
  "need_dicts v = (case v of
     Some (PList vs) \<Rightarrow> map_r (\<lambda>x. case x of PDict d \<Rightarrow> Inr d | _ \<Rightarrow> Inl Retried) vs | _ \<Rightarrow> Inl Retried)"

definition open_review :: "pydict \<Rightarrow> string \<Rightarrow> string \<Rightarrow> pydict list \<Rightarrow> string \<Rightarrow> string \<Rightarrow> unit exec" where
  "open_review request approver fp items promise aud = upd_p (\<lambda>s. s\<lparr>
     ex_review := (ex_review s)\<lparr>rv_items := Some items, rv_approver := approver, rv_fingerprint := fp,
       rv_ingest := str_or_nil (dget request ''ingest_id''), rv_notice := str_or_nil (dget request ''notice_id''),
       rv_doc_type := str_or_nil (dget_or request ''doc_type'' (PStr ''PCN'')),
       rv_warnings := list_or_nil (dget request ''extraction_warnings'')\<rparr>,
     ex_keys := (ex_keys s)\<lparr>gk_audience := AList.update promise aud (gk_audience (ex_keys s))\<rparr>\<rparr>)"

definition send_all ::
  "(pyval \<Rightarrow> string) \<Rightarrow> string \<Rightarrow> string \<Rightarrow> string \<Rightarrow> string \<Rightarrow> string \<Rightarrow> item_resolution list \<Rightarrow> string list exec" where
  "send_all rend fp notice_id req_by who cmpt rs s =
     (case fan_out_dispatch rend fp notice_id req_by who cmpt rs [] of
        (r, sent) \<Rightarrow>
          ((case r of Inr ks \<Rightarrow> Inr ks | Inl (NoRequesterForPlan _) \<Rightarrow> Inl (Fails 422) | Inl UnhashableDisposition \<Rightarrow> Inl Retried),
           s\<lparr>ex_log := ex_log s @ (if sent = [] then [] else [FannedOut sent])\<rparr>))"

definition relink_added :: "(string \<Rightarrow> string option) \<Rightarrow> row_edits \<Rightarrow> item_resolution list \<Rightarrow> item_resolution list" where
  "relink_added subject e rs = map (\<lambda>r.
     if ir_subject r = None \<and> lc (PStr (ir_mpn r)) \<in> set (map (\<lambda>x. lc (dget x ''mpn'')) (re_added e))
     then r\<lparr>ir_subject := subject (ir_mpn r)\<rparr> else r) rs"

definition file_defect :: "exec_world \<Rightarrow> exec_input \<Rightarrow> string \<Rightarrow> string \<Rightarrow> string \<Rightarrow> string \<Rightarrow> row_edits \<Rightarrow> unit exec" where
  "file_defect w inp sid fp approver who e =
     (let cmpt = str_or_nil (dget (xi_request inp) ''compartment'') in
      if cmpt = [] then raise_p (Fails 500)
      else (case defect_task (xw_json w) (xw_sha w) fp (xi_workflow inp) (dget (xi_request inp) ''pipeline_version'') e
              (''dispatch_failure:'' @ cmpt) approver who None of
          None \<Rightarrow> ret_p ()
        | Some df \<Rightarrow> journal_write mint_dispatch_task (xw_file w sid) (DefectFiled df)))"

definition grouped_result :: "string \<Rightarrow> string \<Rightarrow> string list \<Rightarrow> pydict" where
  "grouped_result sid status keys =
     [(''step_id'', PStr sid), (''kind'', PStr ''human_await''), (''completion'', PStr ''grouped''), (''status'', PStr status),
      (''dispatch_enqueued'', PInt (int (length keys))), (''count'', PInt (int (length keys))),
      (''dispatched_keys'', PList (map PStr keys))]"

definition rejection_result :: "string \<Rightarrow> submission \<Rightarrow> pyval \<Rightarrow> string \<Rightarrow> string \<Rightarrow> pydict" where
  "rejection_result sid sub raw who fp = grouped_result sid ''REJECTED'' [] @
     [(''decision_record'', PDict [(''verdict'', PStr ''rejected''), (''reason_code'', PStr (sb_code sub)),
        (''comment'', let c = dget (dict_or_nil raw) ''comment'' in if truthy c then c else PStr []),
        (''acted_by'', PStr who), (''notice_fingerprint'', PStr fp)])]"

definition carry_out_decision ::
  "exec_world \<Rightarrow> exec_input \<Rightarrow> string \<Rightarrow> string \<Rightarrow> string \<Rightarrow> pyval \<Rightarrow> submission \<Rightarrow> unit exec" where
  "carry_out_decision w inp sid approver fp raw sub =
     (let who = (case nonempty (text_opt (dget (dict_or_nil raw) ''acted_by'')) of Some a \<Rightarrow> a | None \<Rightarrow> approver);
          request = xi_request inp in
      if sb_rejected sub then add_result (rejection_result sid sub raw who fp)
      else bind_p (case sb_edits sub of
             None \<Rightarrow> ret_p (sb_resolutions sub)
           | Some e \<Rightarrow> if is_empty e then ret_p (sb_resolutions sub)
               else then_p (file_defect w inp sid fp approver who e)
                 (ret_p (relink_added (xw_subject w) e (sb_resolutions sub)))) (\<lambda>rs.
           bind_p (send_all (xw_rend w) fp (str_or_nil (dget request ''notice_id'')) approver who
               (str_or_nil (dget request ''compartment'')) rs) (\<lambda>keys.
           add_result (grouped_result sid ''RESOLVED'' keys))))"

definition after_wake ::
  "exec_world \<Rightarrow> exec_input \<Rightarrow> string \<Rightarrow> string \<Rightarrow> string \<Rightarrow> pydict list \<Rightarrow> pyval \<Rightarrow> unit exec" where
  "after_wake w inp sid approver fp items raw =
     then_p (upd_p (\<lambda>s. s\<lparr>ex_review := (ex_review s)\<lparr>rv_consumed := True\<rparr>\<rparr>))
     (case reviewbatch_from_state approver items of
        None \<Rightarrow> raise_p Retried
      | Some batch \<Rightarrow> (case evaluate_submission (xw_sdk_ref w) batch raw fp of
            Inl Malformed \<Rightarrow> raise_p Retried
          | Inl (Policy _) \<Rightarrow> raise_p (Fails 400)
          | Inr sub \<Rightarrow> carry_out_decision w inp sid approver fp raw sub))"

definition grouped_await :: "exec_world \<Rightarrow> exec_input \<Rightarrow> string \<Rightarrow> human_await \<Rightarrow> unit exec" where
  "grouped_await w inp sid h =
     (let request = xi_request inp; bs = run_bindings request; promise = resolved_promise_name sid h in
      bind_p (lift_p (need_text request ''approver'')) (\<lambda>approver.
      bind_p (lift_p (need_text request ''notice_fingerprint'')) (\<lambda>fp.
      bind_p (lift_p (need_dicts (map_of request ''batch_items''))) (\<lambda>items.
      bind_p (lift_p (bind_field (xw_rend w) bs [] True (ha_audience h))) (\<lambda>aud.
      then_p (open_review request approver fp items promise aud)
      (bind_p (lift_p (choice_consequence_text (xw_rend w) (xw_card w) (wd_id (xi_wf inp)) h (flatten (PDict request) []) [])) (\<lambda>_.
      then_p (lift_p (require_r (aud \<noteq> []) (Fails 400)))
      (then_p (journal_write mint_dispatch_task (xw_register w sid) (GroupedRegistered (''grouped:'' @ xi_workflow inp) aud))
      (bind_p (await_answer w promise None) (\<lambda>answer. case answer of
          None \<Rightarrow> raise_p Waits
        | Some raw \<Rightarrow> after_wake w inp sid approver fp items raw))))))))))"

subsection \<open>Operations and calls\<close>

definition spo_attempt :: "(pyval \<Rightarrow> string) \<Rightarrow> string \<Rightarrow> string \<Rightarrow> string \<Rightarrow> step_identity \<Rightarrow> reply \<times> step_world \<Rightarrow> pyval call" where
  "spo_attempt rend did subject verb ident a =
     bind_p (lift_p (verify_spo_step (fst a) subject verb False)) (\<lambda>d.
       dispatch_spo_step rend (snd a) d subject ident [] (''workflow '' @ did @ '': '' @ verb @ '' on '' @ subject))"

definition succeeded :: "string \<Rightarrow> string \<Rightarrow> pyval \<Rightarrow> pydict" where
  "succeeded sid kind result =
     [(''step_id'', PStr sid), (''kind'', PStr kind), (''status'', PStr ''SUCCESS''), (''result'', result)]"

definition stub_step :: "exec_world \<Rightarrow> exec_input \<Rightarrow> string \<Rightarrow> stub_verb \<Rightarrow> unit exec" where
  "stub_step w inp sid v = bind_p get_p (\<lambda>s.
     bind_p (lift_p (render (xw_rend w) (context_of w inp s) (sv_returns v))) (\<lambda>result.
     then_p (put_output sid result)
       (add_result [(''step_id'', PStr sid), (''kind'', PStr ''spo_operation''), (''status'', PStr ''STUB''), (''result'', result),
         (''stub'', PDict [(''verb'', PStr (sv_verb v)), (''retired_by'', PStr (sv_retired_by v))])])))"

definition query_step :: "exec_world \<Rightarrow> exec_input \<Rightarrow> string \<Rightarrow> query_verb \<Rightarrow> unit exec" where
  "query_step w inp sid q = bind_p get_p (\<lambda>s.
     bind_p (lift_p (map_r (\<lambda>p. bind_r (render (xw_rend w) (context_of w inp s) (PStr (snd p))) (\<lambda>v. Inr (fst p, v))) (qv_params q))) (\<lambda>params.
     bind_p (on_wire (attempts (\<lambda>ws. execute_declared_query (xw_engine_o w) ws (qv_decl q) params (identity_of (xi_request inp)))
       (xw_calls w sid))) (\<lambda>selects.
     then_p (log_exec (CallMade sid))
     (bind_p (lift_p (case selects of
          PDict d \<Rightarrow> render (xw_rend w) (fold (\<lambda>kv acc. AList.update (fst kv) (snd kv) acc) d [(''params'', PDict params)]) (qv_returns q)
        | _ \<Rightarrow> Inl Retried)) (\<lambda>result.
      then_p (put_output sid result)
        (add_result (succeeded sid ''spo_operation'' result @
          [(''declared'', PDict [(''verb'', PStr (qd_verb (qv_decl q))), (''capability'', PStr (qd_capability (qv_decl q))),
            (''domain'', PStr (qv_domain q))])])))))))"

definition spo_step :: "exec_world \<Rightarrow> exec_input \<Rightarrow> string \<Rightarrow> string \<Rightarrow> string \<Rightarrow> unit exec" where
  "spo_step w inp sid subject verb =
     bind_p (on_wire (attempts (spo_attempt (xw_rend w) (wd_id (xi_wf inp)) subject verb (identity_of (xi_request inp)))
       (xw_verify w sid))) (\<lambda>result.
     then_p (log_exec (CallMade sid)) (then_p (put_output sid result) (add_result (succeeded sid ''spo_operation'' result))))"

definition said_outcome :: "string option \<Rightarrow> pyval \<Rightarrow> run_error + pydict" where
  "said_outcome from_field result = (case from_field of
     None \<Rightarrow> Inr []
   | Some f \<Rightarrow> (case dget (dict_or_nil result) f of
         PStr said \<Rightarrow> if said = [] then Inl (Fails 502) else Inr [(''disposition'', PStr said)]
       | _ \<Rightarrow> Inl (Fails 502)))"

definition direct_step_of :: "string \<Rightarrow> string \<Rightarrow> string \<Rightarrow> direct_step" where
  "direct_step_of sid endpoint capability = \<lparr>dc_id = sid, dc_endpoint = endpoint, dc_capability = capability\<rparr>"

definition call_step ::
  "exec_world \<Rightarrow> exec_input \<Rightarrow> string \<Rightarrow> string \<Rightarrow> string \<Rightarrow> pydict option \<Rightarrow> string option \<Rightarrow> unit exec" where
  "call_step w inp sid endpoint capability extra from_field = bind_p get_p (\<lambda>s.
     bind_p (lift_p (case extra of None \<Rightarrow> Inr PNone | Some e \<Rightarrow> render (xw_rend w) (context_of w inp s) (PDict e))) (\<lambda>payload.
     bind_p (on_wire (attempts (\<lambda>ws. execute_direct_call ws (direct_step_of sid endpoint capability)
         (identity_of (xi_request inp)) payload) (xw_calls w sid))) (\<lambda>result.
     then_p (log_exec (CallMade sid))
     (bind_p (lift_p (said_outcome from_field result)) (\<lambda>disposed.
        add_result (succeeded sid ''direct_call'' result @ disposed))))))"

subsection \<open>The autonomous dispatch\<close>

definition escalation_request_key :: "string \<Rightarrow> string \<Rightarrow> run_error + string" where
  "escalation_request_key request_key run =
     (let base = py_strip request_key; inv = py_strip run in
      if inv = [] then Inl Retried
      else Inr ((if base = [] then [] else base @ ''|'') @ ''escalated-from:'' @ inv))"

text \<open>\<open>digest\<close> is the first ten hex digits of the SHA-1.\<close>

definition compose_workflow_id :: "(string \<Rightarrow> string) \<Rightarrow> string \<Rightarrow> string \<Rightarrow> string \<Rightarrow> string" where
  "compose_workflow_id digest notice_id approver request_key =
     (let base = ''pcn-review-'' @ notice_id @ ''-'' @ approver; rk = py_strip request_key in
      if rk = [] then base else base @ ''-'' @ digest rk)"

definition fanout_fingerprint :: "pydict \<Rightarrow> string" where
  "fanout_fingerprint request = or_text (text_opt (dget request ''notice_fingerprint'')) (str_or_nil (dget request ''notice_id''))"

definition escalate_step :: "exec_world \<Rightarrow> exec_input \<Rightarrow> string \<Rightarrow> string \<Rightarrow> string \<Rightarrow> unit exec" where
  "escalate_step w inp sid approver reason =
     (let request = xi_request inp in
      bind_p (lift_p (escalation_request_key (str_or_nil (dget request ''request_key'')) (xi_workflow inp))) (\<lambda>k.
      then_p (log_exec (Escalated
        (compose_workflow_id (xw_sha w) (or_text (text_opt (dget request ''notice_id'')) (fanout_fingerprint request)) approver k)
        (fold (\<lambda>kv d. AList.update (fst kv) (snd kv) d)
           [(''admitted_by'', PStr ''escalation''), (''escalated_from_workflow'', PStr (xi_workflow inp)),
            (''escalation_reason'', PStr reason), (''request_key'', PStr k)] request)))
      (add_result [(''step_id'', PStr sid), (''kind'', PStr ''dispatch_fanout''), (''status'', PStr ''ESCALATED''),
        (''result'', PDict [(''reason'', PStr reason), (''escalated_from'', PStr (xi_workflow inp)), (''dispatched'', PInt 0)])])))"

text \<open>The reason a refusal gives is its message, which names the part; here it is the part.\<close>

definition refusal_text :: "batch_refusal \<Rightarrow> string" where
  "refusal_text e = (case e of UnverifiedPart m \<Rightarrow> m | NoDisposition m \<Rightarrow> m)"

definition fanout_step :: "exec_world \<Rightarrow> exec_input \<Rightarrow> string \<Rightarrow> string \<Rightarrow> unit exec" where
  "fanout_step w inp sid capability =
     (let request = xi_request inp; who = run_subject request; fp = fanout_fingerprint request;
          approver = or_text (text_opt (dget request ''approver'')) who in
      then_p (on_wire (attempts (\<lambda>ws. lift_p (pass_gate (sw_dir ws) capability who)) (xw_calls w sid)))
      (bind_p (lift_p (need_dicts (Some (if truthy (dget request ''batch_items'') then dget request ''batch_items'' else PList [])))) (\<lambda>items.
      (case reviewbatch_from_state approver items of
         None \<Rightarrow> raise_p Retried
       | Some batch \<Rightarrow> (case resolve_batch batch [] fp of
             Inl refusal \<Rightarrow> escalate_step w inp sid approver (refusal_text refusal)
           | Inr rs \<Rightarrow>
               bind_p (send_all (xw_rend w) fp (str_or_nil (dget request ''notice_id'')) approver
                   (''policy:'' @ or_text (text_opt (dget request ''trust_table_ref'')) ''trust@unknown'')
                   (str_or_nil (dget request ''compartment'')) rs) (\<lambda>keys.
               add_result (succeeded sid ''dispatch_fanout''
                 (PDict [(''dispatched'', PInt (int (length keys))), (''keys'', PList (map PStr keys)),
                   (''gate'', PDict [(''capability'', PStr capability), (''caller'', PStr who), (''granted'', PBool True)])]))))))))"

subsection \<open>Systems, timers and the outbox\<close>

definition await_signal :: "exec_world \<Rightarrow> exec_input \<Rightarrow> string \<Rightarrow> signal_await \<Rightarrow> bool exec" where
  "await_signal w inp sid a = bind_p get_p (\<lambda>s.
     bind_p (lift_p (bind_field (xw_rend w) (run_bindings (xi_request inp)) (context_of w inp s) True (sa_audience a))) (\<lambda>aud.
     then_p (upd_p (\<lambda>s. s\<lparr>ex_keys := (ex_keys s)
       \<lparr>gk_audience := AList.update (sa_signal a) aud (gk_audience (ex_keys s)),
        gk_accepts := AList.update (sa_signal a) (sa_accepts a) (gk_accepts (ex_keys s)),
        gk_reason := (if sa_reason_required a = [] then gk_reason (ex_keys s)
          else AList.update (sa_signal a) (sa_reason_required a) (gk_reason (ex_keys s)))\<rparr>\<rparr>))
     (bind_p (await_answer w (sa_signal a) (sa_deadline a)) (\<lambda>answer. case answer of
          None \<Rightarrow> then_p (add_result (timed_out sid ''signal_await'' ''signal'' (sa_deadline a))) (ret_p True)
        | Some (PDict v) \<Rightarrow>
            then_p (put_output sid (PDict [(''status'', dget v ''status''), (''acted_by'', dget v ''acted_by''),
              (''comments'', dget_or v ''comments'' (PStr []))]))
            (then_p (add_result [(''step_id'', PStr sid), (''kind'', PStr ''signal_await''), (''status'', dget v ''status''),
               (''signal'', PDict v), (''disposition'', dget v ''status'')]) (ret_p False))
        | Some _ \<Rightarrow> raise_p Retried))))"

definition render_step :: "exec_world \<Rightarrow> exec_input \<Rightarrow> string \<Rightarrow> pyval \<Rightarrow> unit exec" where
  "render_step w inp sid template = bind_p get_p (\<lambda>s.
     bind_p (lift_p (render (xw_rend w) (context_of w inp s) template)) (\<lambda>v.
     then_p (put_output sid v)
       (add_result [(''step_id'', PStr sid), (''kind'', PStr ''render''), (''status'', PStr ''SUCCESS'')])))"

definition wait_step :: "string \<Rightarrow> int \<Rightarrow> unit exec" where
  "wait_step sid seconds = then_p (log_exec (Slept seconds))
     (then_p (put_output sid (PDict [(''status'', PStr ''elapsed'')]))
       (add_result [(''step_id'', PStr sid), (''kind'', PStr ''wait''), (''status'', PStr ''ELAPSED''), (''disposition'', PStr ''elapsed'')]))"

definition emit_step :: "exec_world \<Rightarrow> exec_input \<Rightarrow> string \<Rightarrow> string \<Rightarrow> pyval \<Rightarrow> string option \<Rightarrow> unit exec" where
  "emit_step w inp sid channel template says = bind_p get_p (\<lambda>s.
     bind_p (lift_p (render (xw_rend w) (context_of w inp s) template)) (\<lambda>v.
     then_p (log_exec (Emitted channel [(''instance_id'', PStr (xi_workflow inp)), (''definition_id'', PStr (wd_id (xi_wf inp))),
        (''step_id'', PStr sid), (''record'', v)]))
     (then_p (put_output sid v)
       (add_result ([(''step_id'', PStr sid), (''kind'', PStr ''emit''), (''status'', PStr ''EMITTED''), (''channel'', PStr channel)]
         @ (case says of None \<Rightarrow> [] | Some d \<Rightarrow> [(''disposition'', PStr d)]))))))"

subsection \<open>The definition\<close>

type_synonym verbs = "(string \<times> stub_verb) list \<times> (string \<times> query_verb) list"

definition goes_on :: "unit exec \<Rightarrow> bool exec" where
  "goes_on m = then_p m (ret_p False)"

definition run_step :: "exec_world \<Rightarrow> exec_input \<Rightarrow> verbs \<Rightarrow> wf_step \<Rightarrow> bool exec" where
  "run_step w inp vs step = (let sid = ws_id step in case ws_body step of
     HumanAwait h \<Rightarrow> then_p (lift_p (await_refusal h))
       (if cp_mode (ha_completion h) = Grouped then goes_on (grouped_await w inp sid h) else single_await w inp sid h)
   | SpoOperation subject verb _ \<Rightarrow> goes_on (case map_of (fst vs) verb of
         Some v \<Rightarrow> stub_step w inp sid v
       | None \<Rightarrow> (case map_of (snd vs) verb of Some q \<Rightarrow> query_step w inp sid q | None \<Rightarrow> spo_step w inp sid subject verb))
   | DirectCall endpoint capability extra from_field \<Rightarrow> goes_on (call_step w inp sid endpoint capability extra from_field)
   | DispatchFanout capability \<Rightarrow> goes_on (fanout_step w inp sid capability)
   | Render template \<Rightarrow> goes_on (render_step w inp sid template)
   | SignalAwait a \<Rightarrow> await_signal w inp sid a
   | Wait seconds \<Rightarrow> goes_on (wait_step sid seconds)
   | Emit channel template says \<Rightarrow> goes_on (emit_step w inp sid channel template says))"

fun run_steps :: "exec_world \<Rightarrow> exec_input \<Rightarrow> verbs \<Rightarrow> wf_step list \<Rightarrow> unit exec" where
  "run_steps w inp vs [] = ret_p ()"
| "run_steps w inp vs (s # ss) = bind_p (run_step w inp vs s) (\<lambda>ends. if ends then ret_p () else run_steps w inp vs ss)"

definition is_spo :: "wf_step \<Rightarrow> bool" where
  "is_spo s \<longleftrightarrow> (case ws_body s of SpoOperation _ _ _ \<Rightarrow> True | _ \<Rightarrow> False)"

text \<open>What only a registry definition may declare.\<close>

definition authored :: "verbs \<Rightarrow> wf_step \<Rightarrow> bool" where
  "authored vs s \<longleftrightarrow> (case ws_body s of
     Render _ \<Rightarrow> True | SignalAwait _ \<Rightarrow> True | Wait _ \<Rightarrow> True | Emit _ _ _ \<Rightarrow> True
   | HumanAwait h \<Rightarrow> ha_approves h \<noteq> [] \<or> chooses h \<noteq> None \<or> nonempty (ha_role h) \<noteq> None
   | SpoOperation _ verb _ \<Rightarrow> map_of (fst vs) verb \<noteq> None \<or> map_of (snd vs) verb \<noteq> None
   | _ \<Rightarrow> False)"

definition declared_verbs :: "exec_world \<Rightarrow> workflow_definition \<Rightarrow> run_error + verbs" where
  "declared_verbs w wd = (if \<not> list_ex is_spo (wd_steps wd) then Inr ([], [])
     else (case xw_verbs w of None \<Rightarrow> Inl (Fails 500) | Some vs \<Rightarrow> Inr vs))"

definition disposition_of :: "pydict \<Rightarrow> pyval" where
  "disposition_of r = (if truthy (dget r ''disposition'') then dget r ''disposition''
     else if dget r ''kind'' = PStr ''human_await'' then
       (let status = dget (dict_or_nil (dget r ''approval'')) ''status'' in if truthy status then status else PNone)
     else PNone)"

definition outcome_of :: "pydict list \<Rightarrow> pyval \<times> pyval" where
  "outcome_of results =
     (let disposing = filter (\<lambda>r. disposition_of r \<noteq> PNone) results in
      if results \<noteq> [] \<and> dget (last results) ''terminal'' = PStr ''timed_out''
      then (PStr ''timed_out'', dget (last results) ''step_id'')
      else if disposing = [] then (PNone, PNone)
      else (disposition_of (last disposing), dget (last disposing) ''step_id''))"

record envelope =
  en_outcome :: pyval
  en_step :: pyval
  en_results :: "pydict list"
  en_version :: string
  en_outputs :: pydict
  en_chain :: "approval list"

definition envelope_of :: "exec_world \<Rightarrow> exec_input \<Rightarrow> exec_state \<Rightarrow> envelope" where
  "envelope_of w inp s = \<lparr>en_outcome = fst (outcome_of (ex_results s)), en_step = snd (outcome_of (ex_results s)),
     en_results = ex_results s, en_version = xw_version w (xi_wf inp), en_outputs = all_outputs inp s, en_chain = ex_chain s\<rparr>"

text \<open>The state a run starts in has no output and no record of its own; the chain is the case's.\<close>

definition fresh :: "wire \<Rightarrow> approval list \<Rightarrow> exec_state" where
  "fresh x links = \<lparr>ex_keys = \<lparr>gk_audience = [], gk_excluded = [], gk_accepts = [], gk_reason = []\<rparr>,
     ex_review = \<lparr>rv_items = None, rv_approver = [], rv_fingerprint = [], rv_ingest = [], rv_notice = [], rv_doc_type = [],
       rv_warnings = [], rv_audience = None, rv_consumed = False, rv_decision = None\<rparr>,
     ex_wire = x, ex_outputs = [], ex_chain = links, ex_results = [], ex_log = []\<rparr>"

definition run_definition :: "coercion \<Rightarrow> exec_world \<Rightarrow> pydict \<Rightarrow> (workflow_definition \<Rightarrow> exec_input) \<Rightarrow> envelope exec" where
  "run_definition co w doc input = (case read_definition co doc of
     Inl _ \<Rightarrow> raise_p Retried
   | Inr wd \<Rightarrow>
       let inp = input wd in
       bind_p (lift_p (declared_verbs w wd)) (\<lambda>vs.
       then_p (lift_p (require_r (xi_registry inp \<or> \<not> list_ex (authored vs) (wd_steps wd)) (Fails 400)))
       (then_p (run_steps w inp vs (wd_steps wd))
       (bind_p get_p (\<lambda>s. ret_p (envelope_of w inp s))))))"

subsection \<open>What loads and what runs\<close>

text \<open>What a definition may declare of an await and the runner does not implement.\<close>

definition unimplemented :: "human_await \<Rightarrow> bool" where
  "unimplemented h \<longleftrightarrow> cp_quorum (ha_completion h) = NofM \<or>
     cp_mode (ha_completion h) = Grouped \<and> (ha_deadline h \<noteq> None \<or> ha_task_kind h \<noteq> None)"

definition settled_by_one :: "human_await \<Rightarrow> bool" where
  "settled_by_one h \<longleftrightarrow> cp_quorum (ha_completion h) = AnyOf \<and> cp_threshold (ha_completion h) = None \<and>
     (cp_mode (ha_completion h) = Grouped \<longrightarrow> ha_deadline h = None \<and> ha_task_kind h = None \<and>
        ha_approves h = [] \<and> ha_excludes h = [] \<and> ha_chooses_from h \<in> {None, Some []})"

lemma refused_step:
  "ws_body st = HumanAwait h \<Longrightarrow> unimplemented h \<Longrightarrow> run_step w inp vs st s = (Inl (Fails 501), s)"
  by (auto simp: run_step_def unimplemented_def await_refusal_def require_r_def proc_defs Let_def)

lemma loaded_await:
  assumes "body_ok (HumanAwait h)" and "\<not> unimplemented h"
  shows "settled_by_one h"
  using assms by (cases "cp_quorum (ha_completion h)") (auto simp: body_ok_def completion_ok_def settled_by_one_def unimplemented_def)

text \<open>
  C16. A definition that loads keeps the rules of its models: step ids are unique, no two awaits
  suspend on one promise, a threshold stands exactly with a quorum that needs it, an approval names
  its role, every capability is named, a stage is declared only on a step whose beginning can be
  observed. It may still declare what the runner does not implement, a quorum of several, or a
  deadline or a task kind on a grouped await; and then the run that reaches that step fails with a
  501 before the step has registered a task, written a key or had any effect. Every other await it
  holds is one a single answer settles, and a grouped one declares no deadline, kind, exclusion,
  approval or choice that its review would not enforce.
\<close>

theorem loaded_awaits_are_kept_or_refused:
  assumes "load_workflow_definition co f = Inr wd"
  shows "declared_ok wd \<and>
     (\<forall>st \<in> set (wd_steps wd). \<forall>h. ws_body st = HumanAwait h \<longrightarrow>
        (if unimplemented h then \<forall>w inp vs s. run_step w inp vs st s = (Inl (Fails 501), s) else settled_by_one h))"
proof -
  have ok: "declared_ok wd" by (rule loaded_definitions_are_declared_ok [OF assms])
  then have "settled_by_one h" if "st \<in> set (wd_steps wd)" "ws_body st = HumanAwait h" "\<not> unimplemented h" for st h
    using that by (intro loaded_await) (auto simp: declared_ok_def dest: bspec)
  with ok show ?thesis by (auto intro: refused_step)
qed

definition quorum_document :: yaml_file where
  "quorum_document = Document (PDict [(''id'', PStr ''w''), (''name'', PStr ''n''),
     (''steps'', PList [PDict [(''kind'', PStr ''human_await''), (''id'', PStr ''s''), (''audience'', PStr ''desk''),
        (''completion'', PDict [(''quorum'', PStr ''n_of_m''), (''threshold'', PInt 2)])]])])"

theorem loaded_awaits_are_kept_or_refused_witness:
  "\<exists>wd st. load_workflow_definition plain_coercion quorum_document = Inr wd \<and> wd_steps wd = [st] \<and>
     (\<forall>w inp vs s. run_step w inp vs st s = (Inl (Fails 501), s))"
proof -
  have "(case load_workflow_definition plain_coercion quorum_document of
      Inr wd \<Rightarrow> (case wd_steps wd of [st] \<Rightarrow> (case ws_body st of HumanAwait h \<Rightarrow> cp_quorum (ha_completion h) = NofM | _ \<Rightarrow> False) | _ \<Rightarrow> False)
    | Inl e \<Rightarrow> False)"
    by code_simp
  then obtain wd st h where "load_workflow_definition plain_coercion quorum_document = Inr wd" "wd_steps wd = [st]"
    "ws_body st = HumanAwait h" "unimplemented h"
    by (auto simp: unimplemented_def split: sum.splits list.splits step_body.splits)
  with loaded_awaits_are_kept_or_refused [OF this(1)] show ?thesis by auto
qed

end
