(* ===== verification/Workflow_Run.thy ===== *)
theory Workflow_Run
  imports Workflow_Executor
begin

text \<open>
  What a run of a definition guarantees: whose approvals it carries, which steps it has run, how it
  ends. The first part is the authority of an answer, followed from the handler that resolves a
  promise to the entry of the approval chain.
\<close>

subsection \<open>The authority of an answer\<close>

definition gated :: "exec_world \<Rightarrow> gate_keys \<Rightarrow> string \<Rightarrow> pydict \<Rightarrow> bool" where
  "gated w ks promise v \<longleftrightarrow> (\<exists>who aud ask. dget v ''acted_by'' = PStr who \<and> who \<noteq> [] \<and>
     map_of (gk_audience ks) promise = Some aud \<and> aud \<noteq> [] \<and> xw_dir w = Some ask \<and>
     says_yes (ask ''task_audience'' aud ''can_act'' who) \<and> \<not> excluded_from ks promise who) \<and>
     (\<forall>d. map_of v ''acted_via'' = Some d \<longrightarrow> (\<exists>s. d = PStr s \<and> \<not> excluded_from ks promise s))"

lemma step_can_act_yes:
  "step_can_act dir aud who = Inr True \<Longrightarrow>
     aud \<noteq> [] \<and> who \<noteq> [] \<and> (\<exists>ask. dir = Some ask \<and> says_yes (ask ''task_audience'' aud ''can_act'' who))"
  by (auto simp: step_can_act_def Let_def read_check_yes split: if_splits option.splits sum.splits gate_error.splits)

lemma authorize_resolution_Inr:
  "authorize_resolution rend dir ks promise by_raw via_raw = Inr who \<Longrightarrow>
     who \<noteq> [] \<and> \<not> excluded_from ks promise who \<and>
     (truthy via_raw \<longrightarrow> \<not> excluded_from ks promise (str_of rend via_raw)) \<and>
     (\<exists>aud ask. map_of (gk_audience ks) promise = Some aud \<and> aud \<noteq> [] \<and> dir = Some ask \<and>
        says_yes (ask ''task_audience'' aud ''can_act'' who))"
  by (auto simp: authorize_resolution_def bind_r_Inr split: option.splits dest: step_can_act_yes)

lemma delegate_of_Inr: "delegate_of rend a v = Inr d \<Longrightarrow> d = PNone \<or> (\<exists>s. d = PStr s \<and> s \<noteq> [])"
  by (auto simp: delegate_of_def Let_def split: if_splits)

lemma approve_impl_Inr:
  assumes "approve_impl rend dir ks request = Inr (promise, payload)"
  shows "\<exists>via who. authorize_resolution rend dir ks promise (dget request ''acted_by'') via = Inr who \<and>
    dget payload ''acted_by'' = PStr who \<and> map_of payload ''acted_via'' = (if via = PNone then None else Some via) \<and>
    (via = PNone \<or> (\<exists>s. via = PStr s \<and> s \<noteq> []))"
proof -
  from assms obtain via who where via: "delegate_of rend (dget request ''acted_by'') (dget request ''acted_via'') = Inr via"
    and who: "authorize_resolution rend dir ks promise (dget request ''acted_by'') via = Inr who"
    and payload: "dget payload ''acted_by'' = PStr who" "map_of payload ''acted_via'' = (if via = PNone then None else Some via)"
    by (auto simp: approve_impl_def Let_def bind_r_Inr dget_def split: option.splits)
  with delegate_of_Inr [OF via] show ?thesis by blast
qed

lemma approve_gated:
  assumes "approve_impl (xw_rend w) (xw_dir w) ks request = Inr (promise, payload)"
  shows "gated w ks promise payload"
proof -
  from approve_impl_Inr [OF assms] obtain via who where
    who: "authorize_resolution (xw_rend w) (xw_dir w) ks promise (dget request ''acted_by'') via = Inr who"
    and p: "dget payload ''acted_by'' = PStr who" "map_of payload ''acted_via'' = (if via = PNone then None else Some via)"
    and via: "via = PNone \<or> (\<exists>s. via = PStr s \<and> s \<noteq> [])" by blast
  from authorize_resolution_Inr [OF who] p via show ?thesis
    by (auto simp: gated_def str_of_def)
qed

lemma signal_gated:
  assumes "signal (xw_rend w) (gate_for_signal (xw_rend w) (xw_dir w) ks) aw request = Inr (name, status, comments, who)"
  shows "gated w ks name [(''status'', status), (''comments'', comments), (''acted_by'', who)]"
proof -
  from assms obtain u where "gate_for_signal (xw_rend w) (xw_dir w) ks name (dget request ''acted_by'') (dget request ''acted_via'') = Inr who"
    by (auto simp: signal_def Let_def bind_r_Inr map_sum_def split: sum.splits)
  then obtain a where "who = PStr a"
    "authorize_resolution (xw_rend w) (xw_dir w) ks name (dget request ''acted_by'') (dget request ''acted_via'') = Inr a"
    by (auto simp: gate_for_signal_def split: sum.splits)
  with authorize_resolution_Inr show ?thesis by (fastforce simp: gated_def dget_def)
qed

text \<open>A promise of a single await is not the grouped review's.\<close>

lemma first_answer_by:
  "first_answer by promise as = Some v \<Longrightarrow> \<exists>a \<in> set as. by a = Some (promise, v)"
  by (induction as) (auto split: option.splits if_splits)

lemma resolved_gated:
  assumes "resolved_by (xw_rend w) sdk (xw_dir w) ks review a = Some (promise, PDict v)" and "promise \<noteq> ''decision''"
  shows "gated w ks promise v"
  using assms
  by (auto simp: resolved_by_def approve_gated signal_gated split: arrival.splits sum.splits prod.splits submit_answer.splits)

text \<open>An answer is what one of the calls that arrive resolves the promise with.\<close>

definition arrived :: "exec_world \<Rightarrow> gate_keys \<Rightarrow> string \<Rightarrow> pydict \<Rightarrow> bool" where
  "arrived w ks promise v \<longleftrightarrow> (\<exists>a \<in> set (xw_arrivals w promise). \<exists>review.
     resolved_by (xw_rend w) (xw_sdk_ref w) (xw_dir w) ks review a = Some (promise, PDict v))"

definition answers :: "exec_world \<Rightarrow> gate_keys \<Rightarrow> string \<Rightarrow> pydict \<Rightarrow> bool" where
  "answers w ks promise v \<longleftrightarrow> arrived w ks promise v \<and> gated w ks promise v"

lemma await_gated:
  assumes "promise \<noteq> ''decision''"
  shows "triple P (await_answer w promise dl) (\<lambda>a s. P s \<and> (\<forall>v. a = Some (PDict v) \<longrightarrow> answers w (ex_keys s) promise v)) (\<lambda>_. P)"
  using assms
  by (auto simp: triple_def await_answer_def proc_defs answers_def arrived_def split: option.split dest!: first_answer_by intro: resolved_gated)

text \<open>
  \<open>earned\<close>: the entry \<open>e\<close> is what \<open>step\<close>, reached in the state \<open>s0\<close>, makes of an answer. The audience and
  the excluded actors are the step's own fields, bound in the context the run had then.
\<close>

definition earned :: "exec_world \<Rightarrow> exec_input \<Rightarrow> wf_step \<Rightarrow> exec_state \<Rightarrow> approval \<Rightarrow> bool" where
  "earned w inp step s0 e \<longleftrightarrow> (\<exists>h ks aud excl who ask v.
     ws_body step = HumanAwait h \<and> ap_role e = ha_role h \<and> ap_ref e = xi_workflow inp @ '':'' @ ws_id step \<and>
     bind_field (xw_rend w) (run_bindings (xi_request inp)) (context_of w inp s0) True (ha_audience h) = Inr aud \<and>
     map_r (bind_field (xw_rend w) (run_bindings (xi_request inp)) (context_of w inp s0) True) (ha_excludes h) = Inr excl \<and>
     map_of (gk_audience ks) (resolved_promise_name (ws_id step) h) = Some aud \<and>
     arrived w ks (resolved_promise_name (ws_id step) h) v \<and>
     dget v ''status'' \<in> PStr ` set (ha_approves h) \<and> dget v ''acted_by'' = ap_sub e \<and> map_of v ''acted_via'' = ap_via e \<and>
     ap_sub e = PStr who \<and> xw_dir w = Some ask \<and> says_yes (ask ''task_audience'' aud ''can_act'' who) \<and>
     (\<forall>b \<in> set excl. py_lower (py_strip b) \<noteq> py_lower who \<and>
        (\<forall>d. ap_via e = Some (PStr d) \<longrightarrow> py_lower (py_strip b) \<noteq> py_lower d)))"

definition chain_ok :: "exec_world \<Rightarrow> exec_input \<Rightarrow> wf_step \<Rightarrow> exec_state \<Rightarrow> approval list \<Rightarrow> exec_state \<Rightarrow> bool" where
  "chain_ok w inp step s0 links s \<longleftrightarrow> (\<forall>e \<in> set (ex_chain s). e \<in> set links \<or> earned w inp step s0 e)"

text \<open>What keeps any statement about the chain and the gate's keys.\<close>

definition inert :: "(exec_state \<Rightarrow> bool) \<Rightarrow> bool" where
  "inert I \<longleftrightarrow> (\<forall>s s'. ex_chain s' = ex_chain s \<longrightarrow> ex_keys s' = ex_keys s \<longrightarrow> I s' = I s)"

named_theorems inert_rules "procedures that leave the chain and the keys alone"

lemma inert_keeps:
  assumes I: "inert I" and m: "\<And>s. ex_chain (snd (m s)) = ex_chain s \<and> ex_keys (snd (m s)) = ex_keys s"
  shows "keeps I m"
proof -
  have "I (snd (m s)) = I s" for s using I m [of s] unfolding inert_def by blast
  then have "P s \<Longrightarrow> m s = (r, s') \<Longrightarrow> P s = I s \<Longrightarrow> I s'" for P s r s' by (metis snd_conv)
  then show ?thesis by (force simp: keeps_def triple_def split: prod.split sum.split)
qed

lemma inert_steps [inert_rules]:
  assumes "inert I"
  shows "keeps I (put_output sid v)" "keeps I (add_result r)" "keeps I (log_exec e)" "keeps I (on_wire m)"
    "keeps I (send_all rend fp nid rb who cmpt rs)"
  by (rule inert_keeps [OF assms];
      simp add: put_output_def add_result_def log_exec_def upd_p_def on_wire_def send_all_def split: prod.split)+

lemma inert_journal [inert_rules]: "inert I \<Longrightarrow> keeps I (journal_write f hs e)"
  by (auto simp: journal_write_def intro: keeps_rules inert_rules split: attempt.split)

lemma inert_retire [inert_rules]: "inert I \<Longrightarrow> keeps I (retire_step w sid i)"
  by (auto simp: retire_step_def intro: keeps_rules inert_rules split: attempt.split)

lemma inert_register [inert_rules]: "inert I \<Longrightarrow> keeps I (register_step w sid t)"
  unfolding register_step_def by (intro keeps_rules inert_rules)

lemma inert_await [inert_rules]: "keeps I (await_answer w p dl)"
  by (auto simp: await_answer_def intro!: keeps_rules split: option.split)

definition of_chain :: "(exec_state \<Rightarrow> bool) \<Rightarrow> bool" where
  "of_chain I \<longleftrightarrow> (\<forall>s s'. ex_chain s' = ex_chain s \<longrightarrow> I s' = I s)"

lemma of_chain_inert: "of_chain I \<Longrightarrow> inert I"
  unfolding of_chain_def inert_def by blast

lemma keeps_of_chain: "of_chain I \<Longrightarrow> (\<And>s. ex_chain (f s) = ex_chain s) \<Longrightarrow> keeps I (upd_p f)"
  unfolding of_chain_def by (intro keeps_upd) blast

lemma keeps_goes_on [inert_rules]: "keeps I m \<Longrightarrow> keeps I (goes_on m)"
  unfolding goes_on_def by (intro keeps_rules)

lemma other_steps_keep:
  assumes "of_chain I"
  shows "keeps I (stub_step w inp sid v)" "keeps I (query_step w inp sid q)" "keeps I (spo_step w inp sid su ve)"
    "keeps I (call_step w inp sid en ca ex fr)" "keeps I (render_step w inp sid te)" "keeps I (wait_step sid n)"
    "keeps I (emit_step w inp sid c te d)"
  unfolding stub_step_def query_step_def spo_step_def call_step_def render_step_def wait_step_def emit_step_def
  by (intro keeps_rules inert_rules of_chain_inert [OF assms])+

lemma fanout_step_keeps: "of_chain I \<Longrightarrow> keeps I (fanout_step w inp sid cap)"
  unfolding fanout_step_def escalate_step_def Let_def
  by (intro keeps_rules inert_rules) (auto intro!: keeps_rules inert_rules of_chain_inert split: option.split sum.split)

lemma carry_out_decision_keeps: "of_chain I \<Longrightarrow> keeps I (carry_out_decision w inp sid ap fp raw sub)"
  unfolding carry_out_decision_def file_defect_def Let_def
  by (auto intro!: keeps_rules inert_rules of_chain_inert split: option.split)

lemma grouped_await_keeps: "of_chain I \<Longrightarrow> keeps I (grouped_await w inp sid h)"
  unfolding grouped_await_def after_wake_def open_review_def Let_def
  by (auto intro!: keeps_ret keeps_raise keeps_get keeps_lift keeps_bind keeps_then inert_rules of_chain_inert keeps_of_chain carry_out_decision_keeps
      split: option.split sum.split submission_error.split)

lemma await_signal_keeps: "of_chain I \<Longrightarrow> keeps I (await_signal w inp sid a)"
  unfolding await_signal_def Let_def
  by (auto intro!: keeps_ret keeps_raise keeps_get keeps_lift keeps_bind keeps_then inert_rules of_chain_inert keeps_of_chain split: option.split pyval.split)

lemma chain_ok_of_chain: "of_chain (chain_ok w inp step s0 links)"
  by (simp add: of_chain_def chain_ok_def)

lemma new_chain_ok:
  assumes step: "ws_body step = HumanAwait h"
    and task: "task_of_await w inp s0 (ws_id step) h = Inr t" and keys: "ex_keys s = ks"
    and held: "map_of (gk_audience ks) (at_promise t) = Some (at_audience t)"
      "at_excludes t \<noteq> [] \<Longrightarrow> map_of (gk_excluded ks) (at_promise t) = Some (at_excludes t)"
    and ok: "chain_ok w inp step s0 links s" and answer: "answers w ks (at_promise t) v"
    and e: "e \<in> set (new_chain inp (ws_id step) h v d (ex_chain s))"
  shows "e \<in> set links \<or> earned w inp step s0 e"
proof (cases "e \<in> set (ex_chain s)")
  case True
  with ok show ?thesis by (simp add: chain_ok_def)
next
  case False
  let ?bind = "bind_field (xw_rend w) (run_bindings (xi_request inp)) (context_of w inp s0) True"
  from task have aud: "?bind (ha_audience h) = Inr (at_audience t)" and promise: "at_promise t = resolved_promise_name (ws_id step) h"
    and excl: "bound_excludes ?bind h = Inr (at_excludes t)"
    by (auto simp: task_of_await_def Let_def bind_r_Inr)
  from excl obtain xs where xs: "map_r ?bind (ha_excludes h) = Inr xs" "at_excludes t = map py_strip xs"
    by (auto simp: bound_excludes_def bind_r_Inr)
  from False e have new: "dget v ''status'' \<in> PStr ` set (ha_approves h)" "ap_role e = ha_role h" "ap_ref e = xi_workflow inp @ '':'' @ ws_id step"
    "ap_sub e = dget v ''acted_by''" "ap_via e = map_of v ''acted_via''"
    by (auto simp: new_chain_def Let_def split: if_splits)
  from answer held(1) obtain who ask where who: "dget v ''acted_by'' = PStr who" "xw_dir w = Some ask"
    "says_yes (ask ''task_audience'' (at_audience t) ''can_act'' who)" "\<not> excluded_from ks (at_promise t) who"
    and via: "\<And>d. map_of v ''acted_via'' = Some (PStr d) \<Longrightarrow> \<not> excluded_from ks (at_promise t) d"
    by (auto simp: answers_def gated_def)
  have "py_lower (py_strip b) \<noteq> py_lower who \<and> (\<forall>d. ap_via e = Some (PStr d) \<longrightarrow> py_lower (py_strip b) \<noteq> py_lower d)"
    if b: "b \<in> set xs" for b
  proof -
    from b have "at_excludes t \<noteq> []" "py_strip b \<in> set (at_excludes t)" using xs(2) by auto
    then have "py_lower (py_strip b) \<in> py_lower ` set (at_excludes t)" "at_excludes t \<noteq> []" by simp_all
    with held(2) who(4) via new(5) show ?thesis by (auto simp: excluded_from_def)
  qed
  with step aud new who xs(1) held(1) answer promise have "earned w inp step s0 e"
    unfolding earned_def answers_def
    by (intro exI [of _ h] exI [of _ ks] exI [of _ "at_audience t"] exI [of _ xs] exI [of _ who] exI [of _ ask] exI [of _ v]) simp
  then show ?thesis ..
qed

definition keys_hold :: "await_task \<Rightarrow> exec_state \<Rightarrow> bool" where
  "keys_hold t s \<longleftrightarrow> map_of (gk_audience (ex_keys s)) (at_promise t) = Some (at_audience t) \<and>
     (at_excludes t \<noteq> [] \<longrightarrow> map_of (gk_excluded (ex_keys s)) (at_promise t) = Some (at_excludes t))"

lemma keys_hold_inert: "inert (\<lambda>s. chain_ok w inp step s0 links s \<and> keys_hold t s)"
  by (simp add: inert_def chain_ok_def keys_hold_def)

lemma settle_triple:
  assumes "ws_body step = HumanAwait h" "task_of_await w inp s0 (ws_id step) h = Inr t"
  shows "triple (\<lambda>s. chain_ok w inp step s0 links s \<and> keys_hold t s \<and> answers w (ex_keys s) (at_promise t) v)
    (settle_await w inp (ws_id step) h v) (\<lambda>_. chain_ok w inp step s0 links) (\<lambda>_. chain_ok w inp step s0 links)"
proof -
  have "chain_ok w inp step s0 links (s\<lparr>ex_chain := new_chain inp (ws_id step) h v d (ex_chain s)\<rparr>)"
    if "chain_ok w inp step s0 links s" "keys_hold t s" "answers w (ex_keys s) (at_promise t) v" for s d
    using new_chain_ok [OF assms refl _ _ that(1) that(3)] that(2) by (simp add: chain_ok_def keys_hold_def)
  then have upd: "triple (\<lambda>s. chain_ok w inp step s0 links s \<and> keys_hold t s \<and> answers w (ex_keys s) (at_promise t) v)
      (upd_p (\<lambda>s. s\<lparr>ex_chain := new_chain inp (ws_id step) h v d (ex_chain s)\<rparr>)) (\<lambda>_. chain_ok w inp step s0 links) E" for d E
    by (intro triple_upd) blast
  have tail: "triple (chain_ok w inp step s0 links) (then_p (put_output sid o') (add_result r)) (\<lambda>_. chain_ok w inp step s0 links)
      (\<lambda>_. chain_ok w inp step s0 links)" for sid o' r
    using keeps_then [OF inert_steps(1) inert_steps(2)] of_chain_inert [OF chain_ok_of_chain] unfolding keeps_def by blast
  show ?thesis
    unfolding settle_await_def Let_def
    by (rule triple_read, rule triple_bind [OF triple_lift], assumption, blast)
      (rule triple_then [OF triple_pre [OF upd] tail], blast)
qed

definition after_task :: "exec_world \<Rightarrow> exec_input \<Rightarrow> string \<Rightarrow> human_await \<Rightarrow> await_task \<Rightarrow> pyval option \<Rightarrow> bool exec" where
  "after_task w inp sid h t answer = (case answer of
      None \<Rightarrow> then_p (add_result (timed_out sid ''human_await'' ''approval'' (ha_deadline h)))
         (then_p (retire_step w sid (at_id t)) (ret_p True))
    | Some (PDict approval) \<Rightarrow> then_p (settle_await w inp sid h approval) (ret_p False)
    | Some _ \<Rightarrow> raise_p Retried)"

lemma after_task_triple:
  assumes "ws_body step = HumanAwait h" "task_of_await w inp s0 (ws_id step) h = Inr t"
  shows "triple (\<lambda>s. chain_ok w inp step s0 links s \<and> keys_hold t s \<and>
      (\<forall>v. a = Some (PDict v) \<longrightarrow> answers w (ex_keys s) (at_promise t) v))
    (after_task w inp (ws_id step) h t a) (\<lambda>_. chain_ok w inp step s0 links) (\<lambda>_. chain_ok w inp step s0 links)"
proof (cases "\<exists>v. a = Some (PDict v)")
  case True
  then obtain v where v: "a = Some (PDict v)" ..
  then have eq: "after_task w inp (ws_id step) h t a = then_p (settle_await w inp (ws_id step) h v) (ret_p False)"
    by (simp add: after_task_def)
  have *: "triple (\<lambda>s. chain_ok w inp step s0 links s \<and> keys_hold t s \<and> answers w (ex_keys s) (at_promise t) v)
     (then_p (settle_await w inp (ws_id step) h v) (ret_p False)) (\<lambda>_. chain_ok w inp step s0 links) (\<lambda>_. chain_ok w inp step s0 links)"
    by (rule triple_then [OF settle_triple [OF assms]], rule triple_ret)
  show ?thesis unfolding eq by (rule triple_pre [OF *]) (simp add: v)
next
  case False
  have late: "keeps (chain_ok w inp step s0 links) (then_p (add_result r) (then_p (retire_step w i j) (ret_p True)))" for r i j
    by (intro keeps_rules inert_rules of_chain_inert chain_ok_of_chain)
  have "keeps (chain_ok w inp step s0 links) (after_task w inp (ws_id step) h t a)"
  proof (cases a)
    case None
    with late show ?thesis by (simp add: after_task_def)
  next
    case (Some v)
    with False show ?thesis by (cases v) (simp_all add: after_task_def keeps_raise)
  qed
  then show ?thesis by (rule triple_pre [OF keeps_triple]) blast
qed

lemma after_gate_triple:
  assumes "ws_body step = HumanAwait h" "task_of_await w inp s0 (ws_id step) h = Inr t"
    and "at_promise t \<noteq> ''decision''"
  shows "triple (\<lambda>s. chain_ok w inp step s0 links s \<and> keys_hold t s)
    (then_p (register_step w sid' t') (bind_p (await_answer w (at_promise t) dl) (after_task w inp (ws_id step) h t)))
    (\<lambda>_. chain_ok w inp step s0 links) (\<lambda>_. chain_ok w inp step s0 links)"
proof -
  let ?I = "\<lambda>s. chain_ok w inp step s0 links s \<and> keys_hold t s" and ?ok = "chain_ok w inp step s0 links"
  have r: "triple ?I (register_step w sid' t') (\<lambda>_. ?I) (\<lambda>_. ?ok)"
    by (rule triple_post [OF keeps_triple [OF inert_register [OF keys_hold_inert]]], assumption, erule conjunct1)
  have a: "triple ?I (await_answer w (at_promise t) dl)
      (\<lambda>a s. chain_ok w inp step s0 links s \<and> keys_hold t s \<and> (\<forall>v. a = Some (PDict v) \<longrightarrow> answers w (ex_keys s) (at_promise t) v)) (\<lambda>_. ?ok)"
    by (rule triple_post [OF await_gated [OF assms(3)]], blast, erule conjunct1)
  show ?thesis
    by (rule triple_then [OF r triple_bind [OF a after_task_triple [OF assms(1-2)]]])
qed

lemma single_await_alt:
  "single_await w inp sid h = bind_p get_p (\<lambda>s.
     bind_p (lift_p (task_of_await w inp s sid h)) (\<lambda>t.
     then_p (journal_gate t)
     (bind_p (lift_p (kind_of_row w inp s h)) (\<lambda>kind.
       then_p (register_step w sid (t\<lparr>at_kind := kind\<rparr>))
         (bind_p (await_answer w (at_promise t) (ha_deadline h)) (after_task w inp sid h t))))))"
  unfolding single_await_def after_task_def ..

lemma single_await_earns:
  assumes step: "ws_body step = HumanAwait h" and name: "awaited_name step \<noteq> Some ''decision''"
  shows "triple (\<lambda>t. t = s0) (single_await w inp (ws_id step) h)
    (\<lambda>_. chain_ok w inp step s0 (ex_chain s0)) (\<lambda>_. chain_ok w inp step s0 (ex_chain s0))"
  unfolding single_await_alt
proof (rule triple_read)
  let ?ok = "chain_ok w inp step s0 (ex_chain s0)"
  fix s assume s: "s = s0"
  then have ok: "?ok s" by (simp add: chain_ok_def)
  have body: "triple ?ok (then_p (journal_gate t) (bind_p (lift_p (kind_of_row w inp s h)) (\<lambda>kind.
       then_p (register_step w (ws_id step) (t\<lparr>at_kind := kind\<rparr>))
         (bind_p (await_answer w (at_promise t) (ha_deadline h)) (after_task w inp (ws_id step) h t))))) (\<lambda>_. ?ok) (\<lambda>_. ?ok)"
    if t: "task_of_await w inp s (ws_id step) h = Inr t" for t
  proof -
    let ?I = "\<lambda>s. ?ok s \<and> keys_hold t s"
    from t have "at_promise t = resolved_promise_name (ws_id step) h" by (auto simp: task_of_await_def Let_def bind_r_Inr)
    with name step have p: "at_promise t \<noteq> ''decision''" by (simp add: awaited_name_def)
    have g: "triple ?ok (journal_gate t) (\<lambda>_. ?I) (\<lambda>_. ?ok)"
      unfolding journal_gate_def by (rule triple_upd) (simp add: keys_hold_def chain_ok_def update_conv')
    have l: "triple ?I (lift_p (kind_of_row w inp s h)) (\<lambda>_. ?I) (\<lambda>_. ?ok)"
      by (rule triple_lift, assumption, erule conjunct1)
    show ?thesis
      by (rule triple_then [OF g triple_bind [OF l after_gate_triple [OF step t [unfolded s] p]]])
  qed
  show "triple (\<lambda>t. t = s) (bind_p (lift_p (task_of_await w inp s (ws_id step) h)) (\<lambda>t.
     then_p (journal_gate t)
     (bind_p (lift_p (kind_of_row w inp s h)) (\<lambda>kind.
       then_p (register_step w (ws_id step) (t\<lparr>at_kind := kind\<rparr>))
         (bind_p (await_answer w (at_promise t) (ha_deadline h)) (after_task w inp (ws_id step) h t)))))) (\<lambda>_. ?ok) (\<lambda>_. ?ok)"
  proof (cases "task_of_await w inp s (ws_id step) h")
    case (Inl e)
    with ok show ?thesis by (simp add: triple_def bind_p_def lift_p_def)
  next
    case (Inr t)
    from body [OF Inr] ok Inr show ?thesis unfolding triple_def bind_p_def lift_p_def by (auto split: prod.split sum.split)
  qed
qed

lemma run_step_earns:
  assumes "awaited_name step \<noteq> Some ''decision'' \<or> (\<exists>h. ws_body step = HumanAwait h \<and> cp_mode (ha_completion h) = Grouped)"
  shows "triple (\<lambda>t. t = s0) (run_step w inp vs step)
    (\<lambda>_. chain_ok w inp step s0 (ex_chain s0)) (\<lambda>_. chain_ok w inp step s0 (ex_chain s0))"
proof -
  let ?ok = "chain_ok w inp step s0 (ex_chain s0)"
  note C = chain_ok_of_chain [of w inp step s0 "ex_chain s0"]
  note other = other_steps_keep [OF C] fanout_step_keeps [OF C] grouped_await_keeps [OF C] await_signal_keeps [OF C]
  have ok: "?ok s0" by (simp add: chain_ok_def)
  have kept: "triple (\<lambda>t. t = s0) m (\<lambda>_. ?ok) (\<lambda>_. ?ok)" if "keeps ?ok m" for m :: "bool exec"
    using that ok by (intro triple_pre [OF keeps_triple]) auto
  show ?thesis
  proof (cases "\<exists>h. ws_body step = HumanAwait h \<and> cp_mode (ha_completion h) \<noteq> Grouped")
    case True
    then obtain h where h: "ws_body step = HumanAwait h" "cp_mode (ha_completion h) \<noteq> Grouped" by blast
    with assms have "awaited_name step \<noteq> Some ''decision''" by auto
    from single_await_earns [OF h(1) this] have single: "triple (\<lambda>t. t = s0) (single_await w inp (ws_id step) h) (\<lambda>_. ?ok) (\<lambda>_. ?ok)" .
    have refusal: "triple (\<lambda>t. t = s0) (lift_p (await_refusal h)) (\<lambda>_ t. t = s0) (\<lambda>_. ?ok)"
      by (rule triple_lift) (use ok in auto)
    from triple_then [OF refusal single] h show ?thesis by (simp add: run_step_def Let_def)
  next
    case False
    have "keeps ?ok (run_step w inp vs step)"
    proof (cases "ws_body step")
      case (HumanAwait h)
      with False have "cp_mode (ha_completion h) = Grouped" by auto
      with HumanAwait show ?thesis by (simp add: run_step_def Let_def other keeps_goes_on keeps_then keeps_lift)
    next
      case (SpoOperation su ve ex)
      then show ?thesis by (auto simp: run_step_def Let_def other intro!: keeps_goes_on split: option.split)
    qed (simp_all add: run_step_def Let_def other keeps_goes_on)
    then show ?thesis by (rule kept)
  qed
qed

text \<open>The state in which the run reaches its \<open>i\<close>th step.\<close>

fun reached :: "exec_world \<Rightarrow> exec_input \<Rightarrow> verbs \<Rightarrow> wf_step list \<Rightarrow> nat \<Rightarrow> exec_state \<Rightarrow> exec_state option" where
  "reached w inp vs ss 0 s = Some s"
| "reached w inp vs [] (Suc i) s = None"
| "reached w inp vs (step # ss) (Suc i) s = (case run_step w inp vs step s of
     (Inr False, s1) \<Rightarrow> reached w inp vs ss i s1 | _ \<Rightarrow> None)"

lemma run_steps_earn:
  assumes "\<And>step. step \<in> set ss \<Longrightarrow> awaited_name step \<noteq> Some ''decision'' \<or>
      (\<exists>h. ws_body step = HumanAwait h \<and> cp_mode (ha_completion h) = Grouped)"
    and "e \<in> set (ex_chain (snd (run_steps w inp vs ss s)))" and "e \<notin> set (ex_chain s)"
  shows "\<exists>i s0. i < length ss \<and> reached w inp vs ss i s = Some s0 \<and> earned w inp (ss ! i) s0 e"
  using assms
proof (induction ss arbitrary: s)
  case Nil
  then show ?case by (simp add: ret_p_def)
next
  case (Cons a ss)
  obtain r s1 where r: "run_step w inp vs a s = (r, s1)" by fastforce
  have name: "awaited_name a \<noteq> Some ''decision'' \<or> (\<exists>h. ws_body a = HumanAwait h \<and> cp_mode (ha_completion h) = Grouped)"
    by (rule Cons.prems(1)) simp
  have ok: "chain_ok w inp a s (ex_chain s) s1"
    using triple_run [OF run_step_earns [OF name, of s w inp vs] refl] r by (auto split: sum.splits)
  show ?case
  proof (cases "e \<in> set (ex_chain s1)")
    case True
    with ok Cons.prems(3) have "earned w inp a s e" by (auto simp: chain_ok_def)
    then show ?thesis by (intro exI [of _ 0] exI [of _ s]) simp
  next
    case False
    with Cons.prems(2) r have on: "r = Inr False" by (cases r) (auto simp: bind_p_def ret_p_def split: if_splits)
    with Cons.prems(2) r have "e \<in> set (ex_chain (snd (run_steps w inp vs ss s1)))" by (simp add: bind_p_def)
    from Cons.IH [OF Cons.prems(1) this False] obtain i s0 where
      "i < length ss" "reached w inp vs ss i s1 = Some s0" "earned w inp (ss ! i) s0 e" by auto
    with r on show ?thesis by (intro exI [of _ "Suc i"] exI [of _ s0]) simp
  qed
qed

lemma run_definition_Inr:
  assumes "run_definition co w doc input s = (Inr env, s')"
  obtains wd vs where "read_definition co doc = Inr wd" "declared_verbs w wd = Inr vs"
    "xi_registry (input wd) \<or> \<not> list_ex (authored vs) (wd_steps wd)"
    "run_steps w (input wd) vs (wd_steps wd) s = (Inr (), s')" "env = envelope_of w (input wd) s'"
  using assms unfolding run_definition_def
  by (auto simp: proc_defs Let_def require_r_def split: sum.splits prod.splits if_splits)

text \<open>
  C3. Whoever approves may. However a run ends and whatever calls arrive, every approval it has added to the
  case's chain was made at a step of the definition, in the state in which the run reached that step, of
  a call that arrived for the step's promise: its verb is one the step declares to approve, the entry
  carries the step's role and the actor and delegate of that call, the directory lets the actor act for
  the audience the step declares, and neither of them is among those it excludes, audience and
  exclusions bound in the context of the run at that step. The promise of a single await is not
  \<open>decision\<close>, the one a grouped review resolves.
\<close>

theorem approvals_are_earned:
  assumes doc: "read_definition co doc = Inr wd"
    and run: "run_definition co w doc input (fresh x links) = (r, s')"
    and names: "\<And>step. step \<in> set (wd_steps wd) \<Longrightarrow> awaited_name step \<noteq> Some ''decision'' \<or>
      (\<exists>h. ws_body step = HumanAwait h \<and> cp_mode (ha_completion h) = Grouped)"
    and e: "e \<in> set (ex_chain s')" "e \<notin> set links"
  shows "\<exists>vs i s0. declared_verbs w wd = Inr vs \<and> i < length (wd_steps wd) \<and>
    reached w (input wd) vs (wd_steps wd) i (fresh x links) = Some s0 \<and> earned w (input wd) (wd_steps wd ! i) s0 e"
proof -
  have links: "ex_chain (fresh x links) = links" by (simp add: fresh_def)
  with run e doc obtain vs where vs: "declared_verbs w wd = Inr vs"
    and "e \<in> set (ex_chain (snd (run_steps w (input wd) vs (wd_steps wd) (fresh x links))))"
    by (auto simp: run_definition_def proc_defs Let_def require_r_def split: sum.splits prod.splits if_splits)
  with run_steps_earn [OF names, where s = "fresh x links" and ss = "wd_steps wd"] e(2) links show ?thesis by auto
qed

subsection \<open>A run by example\<close>

definition demo_card :: card_world where
  "demo_card = \<lparr>ca_tables = [], ca_accepts = (\<lambda>_. None), ca_name = (\<lambda>n. n)\<rparr>"

definition demo_exec :: exec_world where
  "demo_exec = \<lparr>xw_rend = (\<lambda>_. ''?''), xw_json = (\<lambda>_. ''{}''), xw_sha = (\<lambda>_. ''0123456789''), xw_engine_o = [],
     xw_dir = Some demo_directory, xw_sdk_ref = (\<lambda>_. True), xw_card = demo_card, xw_version = (\<lambda>_. ''v1''), xw_verbs = None,
     xw_register = (\<lambda>_. [NoAnswer, Status 200]), xw_expire = (\<lambda>_. [Status 200]), xw_file = (\<lambda>_. []),
     xw_arrivals = (\<lambda>_. [ApproveCall [(''task_id'', PStr ''s''), (''status'', PStr ''ok''), (''acted_by'', PStr ''pat'')],
        ApproveCall [(''task_id'', PStr ''s''), (''status'', PStr ''ok''), (''acted_by'', PStr ''kim'')]]),
     xw_expired = (\<lambda>_. True), xw_now = (\<lambda>_. ''t1''), xw_calls = (\<lambda>_. []), xw_verify = (\<lambda>_. []), xw_subject = (\<lambda>_. None)\<rparr>"

definition demo_input :: "pydict \<Rightarrow> bool \<Rightarrow> workflow_definition \<Rightarrow> exec_input" where
  "demo_input request registry wd = \<lparr>xi_workflow = ''run-1'', xi_wf = wd, xi_request = request, xi_outputs = [], xi_case = [],
     xi_revision = [], xi_kind = ''approval'', xi_service = ''WorkflowRunner'', xi_registry = registry\<rparr>"

definition approve_step :: "pydict \<Rightarrow> pyval" where
  "approve_step d = PDict ([(''kind'', PStr ''human_await''), (''id'', PStr ''s''), (''audience'', PStr ''desk'')] @ d)"

definition approve_document :: pydict where
  "approve_document = [(''id'', PStr ''w''), (''name'', PStr ''n''),
     (''steps'', PList [approve_step [(''role'', PStr ''reviewer''), (''approves'', PList [PStr ''ok'']),
        (''excludes'', PList [PStr ''{dropped}''])]])]"

definition demo_trigger :: pydict where
  "demo_trigger = [(''dropped'', PStr ''ann''), (''authz_id'', PStr ''ann'')]"

definition demo_wd :: "pydict \<Rightarrow> workflow_definition" where
  "demo_wd doc = projr (read_definition plain_coercion doc)"

definition demo_wire :: wire where
  "demo_wire = \<lparr>wi_held = None, wi_sent = []\<rparr>"

definition demo_run :: "exec_world \<Rightarrow> bool \<Rightarrow> pydict \<Rightarrow> (run_error + envelope) \<times> exec_state" where
  "demo_run w registry doc = run_definition plain_coercion w doc (demo_input demo_trigger registry) (fresh demo_wire [])"

theorem approvals_are_earned_witness:
  "let s' = snd (demo_run demo_exec True approve_document); wd = demo_wd approve_document in
   map ap_sub (ex_chain s') = [PStr ''kim''] \<and>
   (\<forall>e \<in> set (ex_chain s'). earned demo_exec (demo_input demo_trigger True wd) (hd (wd_steps wd)) (fresh demo_wire []) e)"
proof -
  let ?inp = "demo_input demo_trigger True" and ?s' = "snd (demo_run demo_exec True approve_document)"
  let ?wd = "demo_wd approve_document"
  have doc: "read_definition plain_coercion approve_document = Inr ?wd" by code_simp
  have one: "length (wd_steps ?wd) = 1" by code_simp
  have "list_all (\<lambda>step. awaited_name step \<noteq> Some ''decision'') (wd_steps ?wd)" by code_simp
  then have names: "step \<in> set (wd_steps ?wd) \<Longrightarrow> awaited_name step \<noteq> Some ''decision''" for step
    by (simp add: list_all_iff)
  have run: "run_definition plain_coercion demo_exec approve_document ?inp (fresh demo_wire []) = (fst (demo_run demo_exec True approve_document), ?s')"
    by (simp add: demo_run_def)
  have "earned demo_exec (?inp ?wd) (hd (wd_steps ?wd)) (fresh demo_wire []) e" if "e \<in> set (ex_chain ?s')" for e
  proof -
    have "\<exists>vs i s0. declared_verbs demo_exec ?wd = Inr vs \<and> i < length (wd_steps ?wd) \<and>
      reached demo_exec (?inp ?wd) vs (wd_steps ?wd) i (fresh demo_wire []) = Some s0 \<and> earned demo_exec (?inp ?wd) (wd_steps ?wd ! i) s0 e"
      by (rule approvals_are_earned [OF doc run]) (use that names in auto)
    with one show ?thesis by (cases "wd_steps ?wd") (auto simp: nth_Cons')
  qed
  moreover have "map ap_sub (ex_chain ?s') = [PStr ''kim'']" by code_simp
  ultimately show ?thesis unfolding Let_def by blast
qed

subsection \<open>Which steps have run\<close>

definition quiet :: "'a exec \<Rightarrow> bool" where
  "quiet m \<longleftrightarrow> (\<forall>rs. triple (\<lambda>s. ex_results s = rs) m (\<lambda>_ s. ex_results s = rs) (\<lambda>_ _. True))"

definition records :: "'a exec \<Rightarrow> ('a \<Rightarrow> pydict \<Rightarrow> bool) \<Rightarrow> bool" where
  "records m P \<longleftrightarrow> (\<forall>rs. triple (\<lambda>s. ex_results s = rs) m (\<lambda>a s. \<exists>r. ex_results s = rs @ [r] \<and> P a r) (\<lambda>_ _. True))"

named_theorems record_rules "the records a step adds"

lemma quiet_basic [record_rules]:
  "quiet (ret_p a)" "quiet (raise_p e)" "quiet get_p" "quiet (lift_p r)" "quiet (put_output sid v)" "quiet (log_exec e')"
  "quiet (on_wire m)" "quiet (send_all rend fp nid rb who cmpt rs)" "quiet (await_answer w p dl)"
  by (auto simp: quiet_def triple_def proc_defs put_output_def log_exec_def on_wire_def send_all_def await_answer_def
      split: sum.splits prod.splits option.splits if_splits plan_error.splits)

lemma quiet_upd [record_rules]: "(\<And>s. ex_results (f s) = ex_results s) \<Longrightarrow> quiet (upd_p f)"
  by (simp add: quiet_def triple_def upd_p_def)

lemma quiet_bind [record_rules]: "quiet m \<Longrightarrow> (\<And>a. quiet (f a)) \<Longrightarrow> quiet (bind_p m f)"
  unfolding quiet_def by (blast intro: triple_bind)

lemma quiet_then [record_rules]: "quiet m \<Longrightarrow> quiet k \<Longrightarrow> quiet (then_p m k)"
  unfolding then_p_def by (rule quiet_bind)

lemma records_raise [record_rules]: "records (raise_p e) P"
  by (simp add: records_def triple_raise)

lemma records_add [record_rules]: "P () r \<Longrightarrow> records (add_result r) P"
  by (auto simp: records_def add_result_def intro: triple_upd)

lemma records_bind [record_rules]: "quiet m \<Longrightarrow> (\<And>a. records (f a) P) \<Longrightarrow> records (bind_p m f) P"
  unfolding quiet_def records_def by (blast intro: triple_bind)

lemma records_then [record_rules]: "quiet m \<Longrightarrow> records k P \<Longrightarrow> records (then_p m k) P"
  unfolding then_p_def by (rule records_bind)

definition gives :: "'a exec \<Rightarrow> 'a \<Rightarrow> bool" where
  "gives k a \<longleftrightarrow> (\<forall>rs. triple (\<lambda>s. ex_results s = rs) k (\<lambda>b s. b = a \<and> ex_results s = rs) (\<lambda>_ _. True))"

lemma gives_ret: "gives (ret_p a) a"
  by (simp add: gives_def triple_ret)

lemma gives_then: "quiet m \<Longrightarrow> gives k a \<Longrightarrow> gives (then_p m k) a"
  unfolding quiet_def gives_def by (blast intro: triple_then)

lemma records_after:
  assumes "records m (\<lambda>_. P a)" and "gives k a"
  shows "records (then_p m k) P"
  unfolding records_def
proof
  fix rs
  have m: "triple (\<lambda>s. ex_results s = rs) m (\<lambda>_ s. \<exists>r. ex_results s = rs @ [r] \<and> P a r) (\<lambda>_ _. True)"
    using assms(1) unfolding records_def by blast
  have k: "triple (\<lambda>s. ex_results s = rs @ [r]) k (\<lambda>b s. b = a \<and> ex_results s = rs @ [r]) (\<lambda>_ _. True)" for r
    using assms(2) unfolding gives_def by blast
  have "triple (\<lambda>s. \<exists>r. ex_results s = rs @ [r] \<and> P a r) k (\<lambda>b s. \<exists>r. ex_results s = rs @ [r] \<and> P b r) (\<lambda>_ _. True)"
    by (rule triple_assume, erule exE) (rule triple_pre [OF triple_post [OF k]], auto)
  from triple_then [OF m this] show "triple (\<lambda>s. ex_results s = rs) (then_p m k)
    (\<lambda>a s. \<exists>r. ex_results s = rs @ [r] \<and> P a r) (\<lambda>_ _. True)" .
qed

lemma records_goes_on [record_rules]: "records m (\<lambda>_. P False) \<Longrightarrow> records (goes_on m) P"
  unfolding goes_on_def by (rule records_after [OF _ gives_ret])

lemma quiet_writes [record_rules]: "quiet (journal_write f hs e)" "quiet (retire_step w sid i)"
  "quiet (register_step w sid t)"
  by (auto simp: journal_write_def retire_step_def register_step_def intro!: record_rules split: attempt.split)

lemma quiet_gate [record_rules]: "quiet (journal_gate t)" "quiet (open_review rq ap fp its p aud)"
  by (simp_all add: journal_gate_def open_review_def quiet_upd)

lemma triple_fact: "(c \<Longrightarrow> triple P m Q E) \<Longrightarrow> triple (\<lambda>s. P s \<and> c) m Q E"
  by (simp add: triple_def)

lemma records_await:
  assumes "dl \<noteq> None \<Longrightarrow> records (f None) P" and "\<And>v. records (f (Some v)) P"
  shows "records (bind_p (await_answer w p dl) f) P"
  unfolding records_def
proof
  fix rs
  have "triple (\<lambda>s. ex_results s = rs) (await_answer w p dl) (\<lambda>a s. ex_results s = rs \<and> (a = None \<longrightarrow> dl \<noteq> None)) (\<lambda>_ _. True)"
    by (auto simp: triple_def await_answer_def proc_defs split: option.splits)
  moreover have "triple (\<lambda>s. ex_results s = rs \<and> (a = None \<longrightarrow> dl \<noteq> None)) (f a) (\<lambda>a s. \<exists>r. ex_results s = rs @ [r] \<and> P a r) (\<lambda>_ _. True)" for a
    using assms unfolding records_def by (intro triple_fact, cases a) simp_all
  ultimately show "triple (\<lambda>s. ex_results s = rs) (bind_p (await_answer w p dl) f) (\<lambda>a s. \<exists>r. ex_results s = rs @ [r] \<and> P a r) (\<lambda>_ _. True)"
    by (rule triple_bind)
qed

definition deadline_of :: "wf_step \<Rightarrow> int option" where
  "deadline_of step = (case ws_body step of HumanAwait h \<Rightarrow> ha_deadline h | SignalAwait a \<Rightarrow> sa_deadline a | _ \<Rightarrow> None)"

definition overdue :: "pydict \<Rightarrow> bool" where
  "overdue r \<longleftrightarrow> dget r ''terminal'' = PStr ''timed_out''"

definition record_of :: "wf_step \<Rightarrow> bool \<Rightarrow> pydict \<Rightarrow> bool" where
  "record_of step ends r \<longleftrightarrow> dget r ''step_id'' = PStr (ws_id step) \<and> (overdue r \<longleftrightarrow> ends) \<and> (ends \<longrightarrow> deadline_of step \<noteq> None)"

lemmas record_defs = record_of_def overdue_def dget_def succeeded_def grouped_result_def rejection_result_def timed_out_def
  said_outcome_def

lemma plain_steps_record [record_rules]:
  "records (stub_step w inp (ws_id step) v) (\<lambda>_. record_of step False)" "records (query_step w inp (ws_id step) q) (\<lambda>_. record_of step False)"
  "records (spo_step w inp (ws_id step) su ve) (\<lambda>_. record_of step False)" "records (render_step w inp (ws_id step) te) (\<lambda>_. record_of step False)"
  "records (wait_step (ws_id step) n) (\<lambda>_. record_of step False)" "records (emit_step w inp (ws_id step) c te d) (\<lambda>_. record_of step False)"
  unfolding stub_step_def query_step_def spo_step_def render_step_def wait_step_def emit_step_def
  by (intro record_rules; simp add: record_defs split: option.split)+

lemma call_step_records [record_rules]: "records (call_step w inp (ws_id step) en ca ex fr) (\<lambda>_. record_of step False)"
proof -
  have d: "said_outcome fr v = Inr d \<Longrightarrow> record_of step False (succeeded (ws_id step) k v @ d)" for v d k
    by (auto simp: record_defs split: option.splits pyval.splits if_splits)
  have said: "records (bind_p (lift_p (said_outcome fr v)) (\<lambda>d. add_result (succeeded (ws_id step) k v @ d))) (\<lambda>_. record_of step False)" for v k
    by (cases "said_outcome fr v") (auto simp: records_def triple_def proc_defs add_result_def d)
  show ?thesis
    unfolding call_step_def
    by (rule records_bind [OF quiet_basic(3)], rule records_bind [OF quiet_basic(4)], rule records_bind [OF quiet_basic(7)],
        rule records_then [OF quiet_basic(6) said])
qed

lemma fanout_step_records [record_rules]: "records (fanout_step w inp (ws_id step) cap) (\<lambda>_. record_of step False)"
proof -
  have e: "records (escalate_step w inp (ws_id step) ap re) (\<lambda>_. record_of step False)" for ap re
    unfolding escalate_step_def Let_def by (intro record_rules; simp add: record_defs)
  show ?thesis
    unfolding fanout_step_def Let_def
    by (intro record_rules; auto intro!: record_rules e split: option.split sum.split; simp add: record_defs)
qed

lemma carry_out_records: "records (carry_out_decision w inp (ws_id step) ap fp raw sub) (\<lambda>_. record_of step False)"
  unfolding carry_out_decision_def file_defect_def Let_def
  by (auto intro!: record_rules split: option.split) (simp_all add: record_defs)

lemma grouped_await_records [record_rules]: "records (grouped_await w inp (ws_id step) h) (\<lambda>_. record_of step False)"
proof -
  have a: "records (after_wake w inp (ws_id step) ap fp its raw) (\<lambda>_. record_of step False)" for ap fp its raw
    unfolding after_wake_def
    by (intro record_rules; auto intro!: record_rules carry_out_records split: option.split sum.split submission_error.split)
  show ?thesis
    unfolding grouped_await_def Let_def
    by (auto intro!: record_rules a split: option.split)
qed

lemma settle_await_records [record_rules]: "records (settle_await w inp (ws_id step) h v) (\<lambda>_. record_of step False)"
  unfolding settle_await_def Let_def by (intro record_rules; simp add: record_defs)

lemma single_await_records [record_rules]:
  assumes "ws_body step = HumanAwait h"
  shows "records (single_await w inp (ws_id step) h) (record_of step)"
proof -
  have late: "records (then_p (add_result (timed_out (ws_id step) k slot (ha_deadline h))) (then_p (retire_step w i j) (ret_p True))) (record_of step)"
    if "ha_deadline h \<noteq> None" "slot \<noteq> ''terminal''" "slot \<noteq> ''step_id''" for i j k slot
    by (rule records_after [OF records_add gives_then [OF quiet_writes(2) gives_ret]])
      (use assms that in \<open>simp add: record_defs deadline_of_def\<close>)
  have answer: "records (case a of None \<Rightarrow> then_p (add_result (timed_out (ws_id step) ''human_await'' ''approval'' (ha_deadline h)))
        (then_p (retire_step w i j) (ret_p True))
      | Some (PDict v) \<Rightarrow> then_p (settle_await w inp (ws_id step) h v) (ret_p False) | Some _ \<Rightarrow> raise_p Retried) (record_of step)"
    if "a = None \<Longrightarrow> ha_deadline h \<noteq> None" for a i j
    using that late by (auto intro!: record_rules records_after gives_ret split: option.split pyval.split)
  show ?thesis
    unfolding single_await_def
    by (rule records_bind [OF quiet_basic(3)], rule records_bind [OF quiet_basic(4)], rule records_then [OF quiet_gate(1)],
        rule records_bind [OF quiet_basic(4)], rule records_then [OF quiet_writes(3)], rule records_await)
      (use answer in blast)+
qed

lemma await_signal_records [record_rules]:
  assumes "ws_body step = SignalAwait a"
  shows "records (await_signal w inp (ws_id step) a) (record_of step)"
proof -
  have late: "records (then_p (add_result (timed_out (ws_id step) ''signal_await'' ''signal'' (sa_deadline a))) (ret_p True)) (record_of step)"
    if "sa_deadline a \<noteq> None"
    by (rule records_after [OF records_add gives_ret]) (use assms that in \<open>simp add: record_defs deadline_of_def\<close>)
  have answered: "records (then_p (put_output (ws_id step) o') (then_p (add_result
      [(''step_id'', PStr (ws_id step)), (''kind'', k), (''status'', st), (''signal'', v), (''disposition'', dp)]) (ret_p False))) (record_of step)"
    for o' k st v dp
    by (rule records_then [OF quiet_basic(5) records_after [OF records_add gives_ret]]) (simp add: record_defs)
  show ?thesis
    unfolding await_signal_def Let_def
    by (rule records_bind [OF quiet_basic(3)], rule records_bind [OF quiet_basic(4)], rule records_then [OF quiet_upd], simp,
        rule records_await) (auto intro!: late answered records_raise split: pyval.split)
qed

lemma run_step_records: "records (run_step w inp vs step) (record_of step)"
  by (auto simp: run_step_def Let_def intro!: record_rules split: step_body.split option.split)

fun steps_ran :: "wf_step list \<Rightarrow> pydict list \<Rightarrow> bool" where
  "steps_ran [] rs \<longleftrightarrow> rs = []"
| "steps_ran (s # ss) [] \<longleftrightarrow> False"
| "steps_ran (s # ss) (r # rs) \<longleftrightarrow> record_of s (overdue r) r \<and> (if overdue r then rs = [] else steps_ran ss rs)"

lemma record_of_overdue: "record_of s ends r \<Longrightarrow> overdue r = ends"
  by (simp add: record_of_def)

lemma run_steps_records:
  "triple (\<lambda>s. ex_results s = rs) (run_steps w inp vs ss) (\<lambda>_ s. \<exists>ran. ex_results s = rs @ ran \<and> steps_ran ss ran) (\<lambda>_ _. True)"
proof (induction ss arbitrary: rs)
  case Nil
  then show ?case by (simp add: triple_ret)
next
  case (Cons a ss)
  let ?post = "\<lambda>_ s. \<exists>ran. ex_results s = rs @ ran \<and> steps_ran (a # ss) ran"
  have step: "triple (\<lambda>s. ex_results s = rs) (run_step w inp vs a)
      (\<lambda>ends s. \<exists>r. ex_results s = rs @ [r] \<and> record_of a ends r) (\<lambda>_ _. True)"
    using run_step_records unfolding records_def by blast
  have rest: "triple (\<lambda>s. \<exists>r. ex_results s = rs @ [r] \<and> record_of a ends r)
      (if ends then ret_p () else run_steps w inp vs ss) ?post (\<lambda>_ _. True)" for ends
  proof (cases ends)
    case True
    have "ex_results s = rs @ [r] \<Longrightarrow> record_of a ends r \<Longrightarrow> ?post x s" for s r x
      using True by (intro exI [of _ "[r]"]) (simp add: record_of_overdue)
    with True show ?thesis by (auto intro!: triple_ret)
  next
    case False
    have "triple (\<lambda>s. ex_results s = rs @ [r] \<and> record_of a ends r) (run_steps w inp vs ss) ?post (\<lambda>_ _. True)" for r
      using False by (intro triple_fact, intro triple_post [OF Cons.IH [of "rs @ [r]"]]) (auto simp: record_of_overdue)
    with False show ?thesis by (fastforce simp: triple_def)
  qed
  from triple_bind [OF step rest] show ?case by simp
qed

lemma steps_ran_prefix:
  "steps_ran ss rs \<Longrightarrow> length rs \<le> length ss \<and> (\<forall>i < length rs. record_of (ss ! i) (overdue (rs ! i)) (rs ! i)) \<and>
     (\<forall>i. Suc i < length rs \<longrightarrow> \<not> overdue (rs ! i)) \<and> (length rs < length ss \<longrightarrow> rs \<noteq> [] \<and> overdue (last rs))"
proof (induction ss rs rule: steps_ran.induct)
  case (3 s ss r rs)
  then show ?case by (cases "overdue r") (auto simp: nth_Cons split: nat.split)
qed simp_all
text \<open>
  C6. The records of a run are those of its steps, in the order of the definition, from the first on:
  none is skipped, and a step left out comes after one whose deadline passed. When the last record is
  such an expiry the run's outcome is \<open>timed_out\<close> at that step, which declares a deadline, and no
  record before it is.
\<close>

theorem records_are_the_steps_that_ran:
  assumes doc: "read_definition co doc = Inr wd"
    and run: "run_definition co w doc input (fresh x links) = (Inr env, s')"
  shows "let rs = en_results env; ss = wd_steps wd in
    length rs \<le> length ss \<and> map (\<lambda>r. dget r ''step_id'') rs = map (\<lambda>s. PStr (ws_id s)) (take (length rs) ss) \<and>
    (length rs < length ss \<longrightarrow> rs \<noteq> [] \<and> overdue (last rs)) \<and> (\<forall>r \<in> set (butlast rs). \<not> overdue r) \<and>
    (rs \<noteq> [] \<and> overdue (last rs) \<longrightarrow> en_outcome env = PStr ''timed_out'' \<and>
       en_step env = PStr (ws_id (ss ! (length rs - 1))) \<and> deadline_of (ss ! (length rs - 1)) \<noteq> None)"
proof -
  let ?rs = "ex_results s'" and ?ss = "wd_steps wd"
  from run doc obtain vs where steps: "run_steps w (input wd) vs ?ss (fresh x links) = (Inr (), s')"
    and env: "env = envelope_of w (input wd) s'" by (auto elim: run_definition_Inr)
  from run_steps_records [of "[]" w "input wd" vs ?ss] have "steps_ran ?ss ?rs"
    using steps unfolding triple_def by (auto simp: fresh_def dest!: spec [of _ "fresh x links"])
  from steps_ran_prefix [OF this] have p: "length ?rs \<le> length ?ss"
      "\<And>i. i < length ?rs \<Longrightarrow> record_of (?ss ! i) (overdue (?rs ! i)) (?rs ! i)"
      "\<And>i. Suc i < length ?rs \<Longrightarrow> \<not> overdue (?rs ! i)" "length ?rs < length ?ss \<Longrightarrow> ?rs \<noteq> [] \<and> overdue (last ?rs)" by auto
  have ids: "map (\<lambda>r. dget r ''step_id'') ?rs = map (\<lambda>s. PStr (ws_id s)) (take (length ?rs) ?ss)"
    using p(1,2) by (intro nth_equalityI) (auto simp: record_of_def)
  have "\<forall>r \<in> set (butlast ?rs). \<not> overdue r" using p(3) by (auto simp: in_set_conv_nth nth_butlast)
  moreover have "?rs \<noteq> [] \<Longrightarrow> overdue (last ?rs) \<Longrightarrow> en_outcome env = PStr ''timed_out'' \<and>
      en_step env = PStr (ws_id (?ss ! (length ?rs - 1))) \<and> deadline_of (?ss ! (length ?rs - 1)) \<noteq> None"
    using p(2) [of "length ?rs - 1"] env
    by (auto simp: envelope_of_def outcome_of_def overdue_def record_of_def last_conv_nth Let_def)
  ultimately show ?thesis using p(1,4) ids env by (simp add: envelope_of_def)
qed

definition overdue_document :: pydict where
  "overdue_document = [(''id'', PStr ''w''), (''name'', PStr ''n''),
     (''steps'', PList [PDict [(''kind'', PStr ''wait''), (''id'', PStr ''v''), (''seconds'', PInt 5)],
        approve_step [(''role'', PStr ''reviewer''), (''approves'', PList [PStr ''ok'']), (''deadline_seconds'', PInt 9)],
        PDict [(''kind'', PStr ''wait''), (''id'', PStr ''z''), (''seconds'', PInt 5)]])]"

theorem records_are_the_steps_that_ran_witness:
  "case fst (demo_run (demo_exec\<lparr>xw_arrivals := \<lambda>_. []\<rparr>) True overdue_document) of Inl _ \<Rightarrow> False
   | Inr env \<Rightarrow> en_step env = PStr ''s'' \<and> length (en_results env) = 2 \<and>
      map (\<lambda>r. dget r ''step_id'') (en_results env) = [PStr ''v'', PStr ''s'']"
proof -
  let ?w = "demo_exec\<lparr>xw_arrivals := \<lambda>_. []\<rparr>"
  let ?run = "demo_run ?w True overdue_document"
  have "case fst ?run of Inl _ \<Rightarrow> False | Inr env \<Rightarrow> length (en_results env) = 2 \<and> overdue (last (en_results env))" by code_simp
  then obtain env where env: "fst ?run = Inr env" "length (en_results env) = 2" "overdue (last (en_results env))"
    by (auto split: sum.splits)
  have doc: "read_definition plain_coercion overdue_document = Inr (demo_wd overdue_document)" by code_simp
  have ids: "map ws_id (wd_steps (demo_wd overdue_document)) = [''v'', ''s'', ''z'']" by code_simp
  then have ss: "map (\<lambda>s. PStr (ws_id s)) (take 2 (wd_steps (demo_wd overdue_document))) = [PStr ''v'', PStr ''s'']"
    "ws_id (wd_steps (demo_wd overdue_document) ! 1) = ''s''" by (auto simp: map_eq_Cons_conv)
  have run: "run_definition plain_coercion ?w overdue_document (demo_input demo_trigger True) (fresh demo_wire []) = (Inr env, snd ?run)"
    using env(1) by (simp add: demo_run_def prod_eq_iff)
  have "en_results env \<noteq> []" using env(2) by auto
  with records_are_the_steps_that_ran [OF doc run] env(1-3) ss show ?thesis by (simp add: Let_def)
qed

subsection \<open>No run parks past its deadlines\<close>

text \<open>
  A result that ends the run, with a value or a terminal error: it neither waits nor raises plainly, after
  which the durable runtime would repeat it. And a step that ends so in this world, whatever was done before.
\<close>

definition is_final :: "run_error \<Rightarrow> bool" where
  "is_final e \<longleftrightarrow> (\<exists>c. e = Fails c)"

lemma is_final_simps [simp]: "is_final (Fails c)" "\<not> is_final Waits" "\<not> is_final Retried"
  by (simp_all add: is_final_def)

definition no_wait :: "run_error + 'a \<Rightarrow> bool" where
  "no_wait r \<longleftrightarrow> (\<forall>e. r = Inl e \<longrightarrow> is_final e)"

abbreviation returns :: "'a exec \<Rightarrow> bool" where
  "returns m \<equiv> raises_in m is_final"

named_theorems wait_rules "results that end the run"

lemma no_wait_Inr [wait_rules]: "no_wait (Inr a)" by (simp add: no_wait_def)

lemma no_wait_Inl [wait_rules]: "is_final e \<Longrightarrow> no_wait (Inl e)" by (simp add: no_wait_def)

lemma no_wait_bind [wait_rules]: "no_wait r \<Longrightarrow> (\<And>a. no_wait (f a)) \<Longrightarrow> no_wait (bind_r r f)"
  by (auto simp: no_wait_def bind_r_def split: sum.split)

lemma no_wait_require [wait_rules]: "is_final e \<Longrightarrow> no_wait (require_r b e)"
  by (simp add: no_wait_def require_r_def)

lemma no_wait_map [wait_rules]: "(\<And>x. x \<in> set xs \<Longrightarrow> no_wait (f x)) \<Longrightarrow> no_wait (map_r f xs)"
  by (induction xs) (auto simp: no_wait_def bind_r_def split: sum.split)

lemma no_wait_text [wait_rules]:
  "no_wait (render_string rend c t)" "no_wait (bind_field rend bs c b v)" "no_wait (said_outcome fr u)"
  by (auto simp: render_string_def bind_field_def said_outcome_def Let_def intro!: wait_rules
      split: option.split pyval.split sum.split list.split)

text \<open>The card's tables can be read for the verbs of the step.\<close>

definition card_readable :: "exec_world \<Rightarrow> exec_input \<Rightarrow> human_await \<Rightarrow> bool" where
  "card_readable w inp h \<longleftrightarrow> (\<exists>cs. verb_consequences (xw_rend w) (ca_tables (xw_card w)) (wd_id (xi_wf inp))
     (card_verbs (xw_card w) h) (flatten (PDict (xi_request inp)) []) = Inr cs)"

lemma no_wait_card: "card_readable w inp h \<Longrightarrow>
   no_wait (choice_consequence_text (xw_rend w) (xw_card w) (wd_id (xi_wf inp)) h (flatten (PDict (xi_request inp)) []) ls)"
  by (auto simp: choice_consequence_text_def card_readable_def Let_def intro!: wait_rules split: sum.split)

lemma no_wait_render [wait_rules]: "no_wait (render rend c v)"
proof (induction rend c v rule: render.induct)
  case (2 rend cx d)
  then show ?case by (auto intro!: wait_rules)
qed (auto intro!: wait_rules)

lemma no_wait_task: "card_readable w inp h \<Longrightarrow> no_wait (task_of_await w inp s sid h)"
  by (auto simp: task_of_await_def bound_excludes_def Let_def intro!: wait_rules no_wait_card)

lemma no_wait_await [wait_rules]:
  "no_wait (kind_of_row w inp s h)" "no_wait (chosen_field c h v)" "no_wait (await_refusal h)"
  by (auto simp: kind_of_row_def chosen_field_def chosen_option_def bound_excludes_def await_refusal_def Let_def
      intro!: wait_rules split: option.split)

lemma returns_lift [raises_rules]: "no_wait r \<Longrightarrow> returns (lift_p r)"
  by (auto simp: no_wait_def intro: raises_lift)

lemma returns_writes: "journalled f hs \<noteq> Again \<Longrightarrow> returns (journal_write f hs e)"
  "journalled expire_human_task (xw_expire w sid) \<noteq> Again \<Longrightarrow> returns (retire_step w sid i)"
  by (auto simp: journal_write_def retire_step_def log_exec_def intro!: raises_rules split: attempt.split)

lemma returns_basic [raises_rules]:
  "returns (put_output sid v)" "returns (add_result r)" "returns (log_exec e)" "returns (journal_gate t)"
  by (auto simp: put_output_def add_result_def log_exec_def journal_gate_def raises_in_def triple_def upd_p_def)

lemma returns_send: "fst (fan_out_dispatch rend fp nid rb who cmpt rs []) \<noteq> Inl UnhashableDisposition \<Longrightarrow>
   returns (send_all rend fp nid rb who cmpt rs)"
  by (auto simp: send_all_def raises_in_def triple_def split: prod.splits sum.splits plan_error.splits)

lemma returns_known: "(c \<Longrightarrow> returns m) \<Longrightarrow> triple (\<lambda>_. c) m (\<lambda>_ _. True) (\<lambda>e _. is_final e)"
  by (cases c) (simp_all add: raises_in_def, simp add: triple_def)

text \<open>An await of a single answer, followed by what a record's answer or its absence leads to.\<close>

lemma returns_await:
  assumes "xw_expired w p" and "dl \<noteq> None" and "p \<noteq> ''decision''"
    and "returns (f None)" and "\<And>v. returns (f (Some (PDict v)))"
  shows "returns (bind_p (await_answer w p dl) f)"
proof -
  have "triple (\<lambda>_. True) (await_answer w p dl) (\<lambda>a _. a = None \<or> (\<exists>v. a = Some (PDict v))) (\<lambda>e _. is_final e)"
    using assms(1-3)
    by (auto simp: triple_def await_answer_def proc_defs split: option.split dest!: first_answer_by)
      (auto simp: resolved_by_def split: arrival.splits sum.splits prod.splits submit_answer.splits)
  moreover have "triple (\<lambda>_. a = None \<or> (\<exists>v. a = Some (PDict v))) (f a) (\<lambda>_ _. True) (\<lambda>e _. is_final e)" for a
    by (rule returns_known) (use assms(4,5) in auto)
  ultimately show ?thesis unfolding raises_in_def by (rule triple_bind)
qed

text \<open>Some attempt of a call ends it, whatever the wire holds by then.\<close>

definition concluded :: "('w \<Rightarrow> 'a call) \<Rightarrow> 'w list \<Rightarrow> bool" where
  "concluded f ws \<longleftrightarrow> (\<exists>a \<in> set ws. \<forall>x. fst (f a x) \<noteq> Inl RetryLater)"

lemma concluded_attempts: "concluded f ws \<Longrightarrow> fst (attempts f ws x) = Inl e \<Longrightarrow> is_final e"
proof (induction ws arbitrary: x)
  case (Cons a ws)
  obtain r x' where f: "f a x = (r, x')" by fastforce
  from Cons.prems(1) have "concluded f ws" if "r = Inl RetryLater"
    using that f unfolding concluded_def by (metis fst_conv set_ConsD)
  with Cons.IH [of x'] Cons.prems(2) f show ?case by (cases r) (auto split: step_error.splits)
qed (simp add: concluded_def)

lemma returns_attempts: "concluded f ws \<Longrightarrow> returns (on_wire (attempts f ws))"
  using concluded_attempts [of f ws] unfolding raises_in_def triple_def on_wire_def
  by (auto split: prod.split sum.split) (metis fst_conv)

text \<open>What an engine answers is a record.\<close>

definition gives_records :: "('w \<Rightarrow> pyval call) \<Rightarrow> 'w list \<Rightarrow> bool" where
  "gives_records f ws \<longleftrightarrow> (\<forall>a \<in> set ws. \<forall>x v. fst (f a x) = Inr v \<longrightarrow> (\<exists>d. v = PDict d))"

lemma attempts_records: "gives_records f ws \<Longrightarrow> fst (attempts f ws x) = Inr v \<Longrightarrow> \<exists>d. v = PDict d"
proof (induction ws arbitrary: x)
  case (Cons a ws)
  obtain r x' where r: "f a x = (r, x')" by fastforce
  from Cons.prems(1) have more: "gives_records f ws" by (simp add: gives_records_def)
  show ?case
  proof (cases r)
    case (Inl e)
    with Cons.IH [OF more, of x'] Cons.prems(2) r show ?thesis by (cases e) auto
  next
    case (Inr u)
    with Cons.prems r have "u = v" "fst (f a x) = Inr v" by auto
    with Cons.prems(1) show ?thesis by (auto simp: gives_records_def)
  qed
qed simp

lemma returns_records:
  assumes "concluded f ws" and "gives_records f ws" and "\<And>d. returns (k (PDict d))"
  shows "returns (bind_p (on_wire (attempts f ws)) k)"
proof -
  have "triple (\<lambda>_. True) (on_wire (attempts f ws)) (\<lambda>v _. \<exists>d. v = PDict d) (\<lambda>e _. is_final e)"
    using concluded_attempts [OF assms(1)] attempts_records [OF assms(2)] unfolding triple_def on_wire_def
    by (auto split: prod.split sum.split) (metis fst_conv)+
  moreover have "triple (\<lambda>_. \<exists>d. v = PDict d) (k v) (\<lambda>_ _. True) (\<lambda>e _. is_final e)" for v
    by (rule returns_known) (use assms(3) in auto)
  ultimately show ?thesis unfolding raises_in_def by (rule triple_bind)
qed

text \<open>The parts of an autonomous dispatch can be read, and their dispositions planned.\<close>

definition dispatchable :: "exec_world \<Rightarrow> exec_input \<Rightarrow> bool" where
  "dispatchable w inp \<longleftrightarrow> (let request = xi_request inp; who = run_subject request; fp = fanout_fingerprint request;
       approver = or_text (text_opt (dget request ''approver'')) who in
     py_strip (xi_workflow inp) \<noteq> [] \<and>
     (\<exists>items batch. need_dicts (Some (if truthy (dget request ''batch_items'') then dget request ''batch_items'' else PList [])) = Inr items \<and>
        reviewbatch_from_state approver items = Some batch \<and>
        (\<forall>rs. resolve_batch batch [] fp = Inr rs \<longrightarrow>
           fst (fan_out_dispatch (xw_rend w) fp (str_or_nil (dget request ''notice_id'')) approver
             (''policy:'' @ or_text (text_opt (dget request ''trust_table_ref'')) ''trust@unknown'')
             (str_or_nil (dget request ''compartment'')) rs []) \<noteq> Inl UnhashableDisposition)))"

definition comes_back :: "exec_world \<Rightarrow> exec_input \<Rightarrow> verbs \<Rightarrow> wf_step \<Rightarrow> bool" where
  "comes_back w inp vs step = (let sid = ws_id step; ident = identity_of (xi_request inp) in case ws_body step of
     HumanAwait h \<Rightarrow> cp_mode (ha_completion h) = Single \<and> ha_deadline h \<noteq> None \<and> xw_expired w (resolved_promise_name sid h) \<and>
       resolved_promise_name sid h \<noteq> ''decision'' \<and> card_readable w inp h \<and>
       journalled register_human_task (xw_register w sid) \<noteq> Again \<and> journalled expire_human_task (xw_expire w sid) \<noteq> Again
   | SignalAwait a \<Rightarrow> sa_deadline a \<noteq> None \<and> xw_expired w (sa_signal a) \<and> sa_signal a \<noteq> ''decision''
   | SpoOperation su ve _ \<Rightarrow> (case map_of (fst vs) ve of Some _ \<Rightarrow> True | None \<Rightarrow> (case map_of (snd vs) ve of
         Some q \<Rightarrow> \<forall>params. let ask = (\<lambda>ws. execute_declared_query (xw_engine_o w) ws (qv_decl q) params ident) in
           concluded ask (xw_calls w sid) \<and> gives_records ask (xw_calls w sid)
       | None \<Rightarrow> concluded (spo_attempt (xw_rend w) (wd_id (xi_wf inp)) su ve ident) (xw_verify w sid)))
   | DirectCall endpoint cap _ _ \<Rightarrow> \<forall>payload. concluded (\<lambda>ws. execute_direct_call ws (direct_step_of sid endpoint cap) ident payload)
       (xw_calls w sid)
   | DispatchFanout cap \<Rightarrow> concluded (\<lambda>ws. lift_p (pass_gate (sw_dir ws) cap (run_subject (xi_request inp)))) (xw_calls w sid) \<and>
       dispatchable w inp
   | _ \<Rightarrow> True)"

lemma returns_single:
  assumes "ws_body step = HumanAwait h" "comes_back w inp vs step"
  shows "returns (single_await w inp (ws_id step) h)"
proof -
  let ?sid = "ws_id step"
  from assms have c: "ha_deadline h \<noteq> None" "xw_expired w (resolved_promise_name ?sid h)"
    "resolved_promise_name ?sid h \<noteq> ''decision''" "card_readable w inp h"
    "journalled register_human_task (xw_register w ?sid) \<noteq> Again" "journalled expire_human_task (xw_expire w ?sid) \<noteq> Again"
    by (auto simp: comes_back_def Let_def)
  have settle: "returns (settle_await w inp sid h v)" for sid v
    unfolding settle_await_def Let_def by (intro raises_rules wait_rules)
  have reg: "returns (register_step w ?sid t)" for t
    unfolding register_step_def by (intro raises_rules wait_rules returns_writes c) simp
  have tail: "returns (bind_p (await_answer w p (ha_deadline h)) (after_task w inp ?sid h t))"
    if "p = resolved_promise_name ?sid h" for p t
    by (rule returns_await)
      (use that c in \<open>auto simp: after_task_def intro!: raises_rules returns_writes settle\<close>)
  have body: "returns (bind_p (lift_p (task_of_await w inp s ?sid h)) (\<lambda>t. then_p (journal_gate t)
     (bind_p (lift_p (kind_of_row w inp s h)) (\<lambda>kind. then_p (register_step w ?sid (t\<lparr>at_kind := kind\<rparr>))
         (bind_p (await_answer w (at_promise t) (ha_deadline h)) (after_task w inp ?sid h t))))))" for s
  proof (cases "task_of_await w inp s ?sid h")
    case (Inl e)
    then have "is_final e" using no_wait_task [OF c(4), of s ?sid] by (auto simp: no_wait_def)
    with Inl show ?thesis by (simp add: raises_in_def triple_def bind_p_def lift_p_def)
  next
    case (Inr t)
    then have "at_promise t = resolved_promise_name ?sid h" by (auto simp: task_of_await_def Let_def bind_r_Inr)
    note rest = tail [OF this, of t]
    have "returns (then_p (journal_gate t) (bind_p (lift_p (kind_of_row w inp s h)) (\<lambda>kind. then_p (register_step w ?sid (t\<lparr>at_kind := kind\<rparr>))
         (bind_p (await_answer w (at_promise t) (ha_deadline h)) (after_task w inp ?sid h t)))))"
      by (rule raises_then [OF returns_basic(4)], rule raises_bind [OF returns_lift [OF no_wait_await(1)]], rule raises_then [OF reg rest])
    with Inr show ?thesis by (simp add: raises_in_def triple_def bind_p_def lift_p_def)
  qed
  show ?thesis unfolding single_await_alt by (intro raises_bind raises_basic body)
qed

lemma no_wait_escalation: "py_strip i \<noteq> [] \<Longrightarrow> no_wait (escalation_request_key a i)"
  by (simp add: escalation_request_key_def Let_def no_wait_Inr)

lemma returns_fanout:
  assumes "comes_back w inp vs step" and "ws_body step = DispatchFanout cap"
  shows "returns (fanout_step w inp (ws_id step) cap)"
proof -
  from assms have gate: "concluded (\<lambda>ws. lift_p (pass_gate (sw_dir ws) cap (run_subject (xi_request inp)))) (xw_calls w (ws_id step))"
    and d: "dispatchable w inp" by (simp_all add: comes_back_def Let_def)
  from d have id: "py_strip (xi_workflow inp) \<noteq> []" by (simp add: dispatchable_def Let_def)
  have escalate: "returns (escalate_step w inp sid ap re)" for sid ap re
    unfolding escalate_step_def Let_def
    by (rule raises_bind [OF returns_lift [OF no_wait_escalation [OF id]]], intro raises_rules)
  from d obtain items batch where items: "need_dicts (Some (if truthy (dget (xi_request inp) ''batch_items'')
        then dget (xi_request inp) ''batch_items'' else PList [])) = Inr items"
    and batch: "reviewbatch_from_state (or_text (text_opt (dget (xi_request inp) ''approver'')) (run_subject (xi_request inp))) items = Some batch"
    and sends: "\<And>rs. resolve_batch batch [] (fanout_fingerprint (xi_request inp)) = Inr rs \<Longrightarrow>
        returns (send_all (xw_rend w) (fanout_fingerprint (xi_request inp)) (str_or_nil (dget (xi_request inp) ''notice_id''))
          (or_text (text_opt (dget (xi_request inp) ''approver'')) (run_subject (xi_request inp)))
          (''policy:'' @ or_text (text_opt (dget (xi_request inp) ''trust_table_ref'')) ''trust@unknown'')
          (str_or_nil (dget (xi_request inp) ''compartment'')) rs)"
    unfolding dispatchable_def Let_def using returns_send by blast
  have read: "bind_p (lift_p (Inr a)) f = f a" for a and f :: "'x \<Rightarrow> 'y exec"
    by (rule ext) (simp add: bind_p_def lift_p_def)
  show ?thesis
    unfolding fanout_step_def Let_def items read
    apply (rule raises_then [OF returns_attempts [OF gate]])
    apply (simp only: batch option.case)
    apply (split sum.split, intro conjI allI impI)
     apply (rule escalate)
    by (rule raises_bind [OF sends]) (assumption, rule raises_rules)
qed

lemma returns_calls:
  assumes "comes_back w inp vs step"
  shows "ws_body step = DirectCall en ca ex fr \<Longrightarrow> returns (call_step w inp (ws_id step) en ca ex fr)"
    and "ws_body step = SpoOperation su ve ou \<Longrightarrow> map_of (fst vs) ve = None \<Longrightarrow> map_of (snd vs) ve = Some q \<Longrightarrow> returns (query_step w inp (ws_id step) q)"
    and "ws_body step = SpoOperation su ve ou \<Longrightarrow> map_of (fst vs) ve = None \<Longrightarrow> map_of (snd vs) ve = None \<Longrightarrow> returns (spo_step w inp (ws_id step) su ve)"
proof -
  show "returns (call_step w inp (ws_id step) en ca ex fr)" if "ws_body step = DirectCall en ca ex fr"
    using assms that by (auto simp: comes_back_def Let_def call_step_def
      intro!: raises_rules wait_rules returns_attempts split: option.split)
  show "returns (spo_step w inp (ws_id step) su ve)"
    if "ws_body step = SpoOperation su ve ou" "map_of (fst vs) ve = None" "map_of (snd vs) ve = None"
    using assms that by (auto simp: comes_back_def Let_def spo_step_def intro!: raises_rules returns_attempts)
  show "returns (query_step w inp (ws_id step) q)"
    if "ws_body step = SpoOperation su ve ou" "map_of (fst vs) ve = None" "map_of (snd vs) ve = Some q"
  proof -
    let ?ask = "\<lambda>params ws. execute_declared_query (xw_engine_o w) ws (qv_decl q) params (identity_of (xi_request inp))"
    have ask: "concluded (?ask ps) (xw_calls w (ws_id step))" "gives_records (?ask ps) (xw_calls w (ws_id step))" for ps
      using assms that by (simp_all add: comes_back_def Let_def)
    show ?thesis
      unfolding query_step_def
      by (rule raises_bind [OF raises_basic(3)], rule raises_bind [OF returns_lift], (intro wait_rules; rule no_wait_render),
          rule returns_records [OF ask]) (auto intro!: raises_rules wait_rules)
  qed
qed

lemma returns_others:
  "returns (stub_step w inp sid v)" "returns (render_step w inp sid te)" "returns (wait_step sid n)" "returns (emit_step w inp sid c te d)"
  unfolding stub_step_def render_step_def wait_step_def emit_step_def by (intro raises_rules wait_rules)+

lemma returns_signal: "sa_deadline a \<noteq> None \<Longrightarrow> xw_expired w (sa_signal a) \<Longrightarrow> sa_signal a \<noteq> ''decision'' \<Longrightarrow> returns (await_signal w inp sid a)"
  unfolding await_signal_def Let_def
  by (rule raises_bind [OF raises_basic(3)], rule raises_bind [OF returns_lift [OF no_wait_text(2)]], rule raises_then [OF raises_basic(2)],
      rule returns_await) (auto intro!: raises_rules)

lemma returns_step: "comes_back w inp vs step \<Longrightarrow> returns (run_step w inp vs step)"
  unfolding run_step_def Let_def goes_on_def
  by (auto intro!: raises_rules wait_rules returns_single returns_calls returns_fanout returns_others returns_signal
      simp: comes_back_def Let_def split: step_body.split option.split)

lemma returns_steps: "(\<And>step. step \<in> set ss \<Longrightarrow> comes_back w inp vs step) \<Longrightarrow> returns (run_steps w inp vs ss)"
  by (induction ss) (auto intro!: raises_rules returns_step)

text \<open>
  C20. A run does not park past its deadlines. When every await is one of a single answer with a deadline that
  passes, each registration and retirement gets a verdict, each call has an attempt that ends it, the
  card's tables and a batch to dispatch can be read and an engine asked a declared query answers a
  record, the run ends, whatever was answered before: with its envelope or with a terminal error, neither
  waiting nor raising what the runtime would repeat.
\<close>

theorem no_run_parks_past_its_deadlines:
  assumes "read_definition co doc = Inr wd" and "declared_verbs w wd = Inr vs"
    and "\<And>step. step \<in> set (wd_steps wd) \<Longrightarrow> comes_back w (input wd) vs step"
  shows "(\<exists>env. fst (run_definition co w doc input s) = Inr env) \<or> (\<exists>c. fst (run_definition co w doc input s) = Inl (Fails c))"
proof -
  have "returns (run_steps w (input wd) vs (wd_steps wd))" by (rule returns_steps [OF assms(3)])
  then have "returns (run_definition co w doc input)"
    unfolding run_definition_def Let_def using assms(1,2)
    by (auto simp: lift_p_def bind_p_def raises_in_def triple_def then_p_def require_r_def ret_p_def get_p_def split: prod.splits sum.splits)
  from raises_run [OF this] show ?thesis
    by (cases "fst (run_definition co w doc input s)") (auto simp: is_final_def prod_eq_iff)
qed

theorem no_run_parks_past_its_deadlines_witness:
  "let r = fst (run_definition plain_coercion demo_exec overdue_document (demo_input demo_trigger True) (fresh demo_wire [])) in
     (\<exists>env. r = Inr env) \<or> (\<exists>c. r = Inl (Fails c))"
proof -
  have doc: "read_definition plain_coercion overdue_document = Inr (demo_wd overdue_document)" by code_simp
  have vs: "declared_verbs demo_exec (demo_wd overdue_document) = Inr ([], [])" by code_simp
  obtain a b c where ss: "wd_steps (demo_wd overdue_document) = [a, b, c]"
    and steps: "ws_body a = Wait 5" "ws_body c = Wait 5"
      "comes_back demo_exec (demo_input demo_trigger True (demo_wd overdue_document)) ([], []) b"
  proof -
    have "length (wd_steps (demo_wd overdue_document)) = 3" by code_simp
    then obtain a b c where ss: "wd_steps (demo_wd overdue_document) = [a, b, c]"
      by (auto simp: numeral_3_eq_3 length_Suc_conv)
    have "map ws_body [hd (wd_steps (demo_wd overdue_document)), last (wd_steps (demo_wd overdue_document))] = [Wait 5, Wait 5]"
      by code_simp
    moreover have "case ws_body (wd_steps (demo_wd overdue_document) ! 1) of HumanAwait h \<Rightarrow>
        cp_mode (ha_completion h) = Single \<and> ha_deadline h \<noteq> None \<and>
        resolved_promise_name (ws_id (wd_steps (demo_wd overdue_document) ! 1)) h \<noteq> ''decision'' \<and>
        (case verb_consequences (xw_rend demo_exec) (ca_tables demo_card) (wd_id (demo_wd overdue_document))
          (card_verbs demo_card h) (flatten (PDict demo_trigger) []) of Inr _ \<Rightarrow> True | Inl _ \<Rightarrow> False) | _ \<Rightarrow> False" by code_simp
    moreover have "journalled register_human_task [NoAnswer, Status 200] \<noteq> Again" "journalled expire_human_task [Status 200] \<noteq> Again"
      by code_simp+
    ultimately show ?thesis
      using ss by (intro that [OF ss]) (auto simp: comes_back_def Let_def demo_exec_def card_readable_def demo_input_def split: step_body.splits sum.splits)
  qed
  show ?thesis unfolding Let_def
    by (rule no_run_parks_past_its_deadlines [OF doc vs]) (use ss steps in \<open>auto simp: comes_back_def Let_def\<close>)
qed

subsection \<open>Three behaviours of the runner\<close>

text \<open>The record of a grouped review has neither an approval nor a disposition, so a definition that
  ends with one closes without an outcome.\<close>

lemma grouped_review_has_no_outcome:
  "disposition_of (grouped_result sid status keys) = PNone"
  "outcome_of [grouped_result sid status keys] = (PNone, PNone)"
  by (simp_all add: disposition_of_def outcome_of_def grouped_result_def dget_def Let_def dict_or_nil_def)

text \<open>A retirement answered 404 is repeated for ever: the run is parked on work nobody can do.\<close>

lemma missing_row_parks_the_run:
  assumes "\<forall>h \<in> set (xw_expire w sid). h = Status 404"
  shows "fst (retire_step w sid task s) = Inl Waits"
proof -
  have "journalled expire_human_task (xw_expire w sid) = Again"
    using assms by (auto simp: journalled_Again expire_human_task_def raise_for_status_def)
  then show ?thesis by (simp add: retire_step_def raise_p_def)
qed

text \<open>\<open>approve\<close> resolves the promise of a signal await with a status the await does not accept.\<close>

lemma approve_bypasses_the_signal_vocabulary:
  "let ks = \<lparr>gk_audience = [(''reply'', ''desk'')], gk_excluded = [], gk_accepts = [(''reply'', [''ok'', ''no''])], gk_reason = [(''reply'', [''no''])]\<rparr>;
     request = [(''task_id'', PStr ''t''), (''promise_name'', PStr ''reply''), (''status'', PStr ''maybe''), (''acted_by'', PStr ''kim'')]
   in map_option fst (resolved_by (\<lambda>_. ''?'') (\<lambda>_. True) (Some demo_directory) ks (ex_review (fresh demo_wire [])) (ApproveCall request))
     = Some ''reply''"
  by code_simp

end
