(* ===== verification/Declared_Query.thy ===== *)
theory Declared_Query
  imports Run_Context
begin

text \<open>
  \<^verbatim>\<open>agent_fleet/utils/declared_query.py\<close>: a verb whose question is data. A declaration holds SPARQL
  selects, parameters and the shape of the rows; the loader refuses what the scope of the serving
  engine could not be put around, the builder binds values as literals. Beside it the scope itself,
  \<open>execute_sparql\<close> of \<^verbatim>\<open>agent_fleet/ontology_service/main.py\<close>, and the route that puts them together.

  The patterns are written as scanners: each alternative of theirs begins with another character, so
  a backtracking match has no choice to make. What a store answers to a query is an argument.
\<close>

subsection \<open>Scanning text\<close>

text \<open>\<open>\w\<close> on code points below 256, and a keyword in any case (given in lower case).\<close>

definition word_char :: "char \<Rightarrow> bool" where
  "word_char c = (let n = code_of c in is_digit c \<or> is_upper c \<or> is_lower c \<or> n \<in> {95, 170, 178, 179, 181, 185, 186, 188, 189, 190} \<or>
     (192 \<le> n \<and> n \<noteq> 215 \<and> n \<noteq> 247))"

definition opens :: "string \<Rightarrow> string \<Rightarrow> bool" where
  "opens w s \<longleftrightarrow> length w \<le> length s \<and> map lower_char (take (length w) s) = w"

text \<open>Equations by which the kernel evaluates them.\<close>

lemma word_char_bits [code]: "word_char (Char b0 b1 b2 b3 b4 b5 b6 b7) =
   (if b7 then (if b6 then \<not> (b4 \<and> \<not> b3 \<and> b2 \<and> b1 \<and> b0)
      else b5 \<and> (if b4 then (if b3 then (if b2 then \<not> (b1 \<and> b0) else b1 \<noteq> b0) else (if b2 then \<not> b1 \<and> b0 else b1))
        else b3 \<and> \<not> b2 \<and> b1 \<and> \<not> b0))
    else if b6 then (b4 \<or> b3 \<or> b2 \<or> b1 \<or> b0) \<and> (\<not> (b4 \<and> b3 \<and> (b2 \<or> b1 \<and> b0)) \<or> \<not> b5 \<and> b4 \<and> b3 \<and> b2 \<and> b1 \<and> b0)
    else b5 \<and> b4 \<and> \<not> (b3 \<and> (b2 \<or> b1)))"
  by (cases b0; cases b1; cases b2; cases b3; cases b4; cases b5; cases b6; cases b7)
    (simp_all add: word_char_def is_digit_def is_upper_def is_lower_def code_of_def Let_def)

fun opens_at :: "string \<Rightarrow> string \<Rightarrow> bool" where
  "opens_at [] s = True"
| "opens_at (w # ws) [] = False"
| "opens_at (w # ws) (c # cs) = (if lower_char c = w then opens_at ws cs else False)"

lemma opens_code [code]: "opens w s = opens_at w s"
  by (induction w s rule: opens_at.induct) (auto simp: opens_def)

definition ends_word :: "string \<Rightarrow> bool" where
  "ends_word s = (case s of [] \<Rightarrow> True | c # _ \<Rightarrow> \<not> word_char c)"

text \<open>A pattern that begins with a word boundary, anywhere in the text.\<close>

fun found :: "(string \<Rightarrow> bool) \<Rightarrow> bool \<Rightarrow> string \<Rightarrow> bool" where
  "found p prev [] = False"
| "found p prev (c # cs) = ((\<not> prev \<and> p (c # cs)) \<or> found p (word_char c) cs)"

definition word_here :: "string \<Rightarrow> string \<Rightarrow> bool" where
  "word_here w s \<longleftrightarrow> opens w s \<and> ends_word (drop (length w) s)"

definition has_word :: "string \<Rightarrow> string \<Rightarrow> bool" where
  "has_word w s = found (word_here w) False s"

definition order_by :: "string \<Rightarrow> bool" where
  "order_by s \<longleftrightarrow> opens ''order'' s \<and> (case drop 5 s of [] \<Rightarrow> False | c # _ \<Rightarrow> is_space c) \<and> word_here ''by'' (py_lstrip (drop 5 s))"

text \<open>A \<open>GRAPH\<close> clause as the engine recognises it: the keyword, then an IRI or a variable.\<close>

definition graph_clause :: "string \<Rightarrow> bool" where
  "graph_clause s \<longleftrightarrow> opens ''graph'' s \<and>
     (case py_lstrip (drop 5 s) of [] \<Rightarrow> False | c # _ \<Rightarrow> c \<in> {CHR ''<'', CHR ''?'', CHR ''$''})"

definition skips_scope :: "string \<Rightarrow> bool" where
  "skips_scope q = found graph_clause False q"

fun asks_var :: "string \<Rightarrow> string \<Rightarrow> bool" where
  "asks_var p [] = False"
| "asks_var p (c # cs) = ((c = CHR ''?'' \<and> starts_with p cs \<and> ends_word (drop (length p) cs)) \<or> asks_var p cs)"

subsection \<open>The shape of a select\<close>

record query_shape =
  sh_prefixes :: string
  sh_distinct :: string
  sh_vars :: "string list"
  sh_body :: string
  sh_tail :: string

definition ident_char :: "char \<Rightarrow> bool" where
  "ident_char c \<longleftrightarrow> is_lower c \<or> is_upper c \<or> is_digit c \<or> c = CHR ''_''"

lemma ident_char_bits [code]: "ident_char (Char b0 b1 b2 b3 b4 b5 b6 b7) =
   (if b7 then False
    else if b6 then (b4 \<or> b3 \<or> b2 \<or> b1 \<or> b0) \<and> (\<not> (b4 \<and> b3 \<and> (b2 \<or> b1 \<and> b0)) \<or> \<not> b5 \<and> b4 \<and> b3 \<and> b2 \<and> b1 \<and> b0)
    else b5 \<and> b4 \<and> \<not> (b3 \<and> (b2 \<or> b1)))"
  by (cases b0; cases b1; cases b2; cases b3; cases b4; cases b5; cases b6; cases b7)
    (simp_all add: ident_char_def is_digit_def is_upper_def is_lower_def code_of_def)

text \<open>What follows one \<open>PREFIX\<close> declaration and its white space.\<close>

definition after_prefix :: "string \<Rightarrow> string option" where
  "after_prefix s = (if \<not> opens ''prefix'' s then None else (case drop 6 s of
     [] \<Rightarrow> None
   | c # _ \<Rightarrow> if \<not> is_space c then None
       else (case dropWhile (\<lambda>c. ident_char c \<or> c = CHR ''-'') (py_lstrip (drop 6 s)) of
           [] \<Rightarrow> None
         | c # r \<Rightarrow> if c \<noteq> CHR '':'' then None
             else (case py_lstrip r of
                 [] \<Rightarrow> None
               | c # r \<Rightarrow> if c \<noteq> CHR ''<'' then None
                   else (case dropWhile (\<lambda>c. c \<noteq> CHR ''<'' \<and> c \<noteq> CHR ''>'' \<and> \<not> is_space c) r of
                       [] \<Rightarrow> None
                     | c # r \<Rightarrow> if c = CHR ''>'' then Some (py_lstrip r) else None)))))"

function after_prefixes :: "string \<Rightarrow> string" where
  "after_prefixes s = (case after_prefix s of
     None \<Rightarrow> s | Some r \<Rightarrow> if length r < length s then after_prefixes r else s)"
  by pat_completeness auto
termination by (relation "measure length") auto

definition after_distinct :: "string \<Rightarrow> string" where
  "after_distinct s =
     (let n = (if opens ''distinct'' s then 8 else if opens ''reduced'' s then 7 else 0) in
      case drop n s of [] \<Rightarrow> s | c # _ \<Rightarrow> if 0 < n \<and> is_space c then py_lstrip (drop n s) else s)"

lemma length_py_lstrip: "length (py_lstrip s) \<le> length s"
  by (simp add: py_lstrip_def length_dropWhile_le)

function take_vars :: "string \<Rightarrow> string list \<times> string" where
  "take_vars s = (case s of
     [] \<Rightarrow> ([], s)
   | c # cs \<Rightarrow>
       let name = takeWhile ident_char cs; rest = dropWhile ident_char cs in
       if c = CHR ''?'' \<and> is_ident name \<and> rest \<noteq> [] \<and> is_space (hd rest) then
         (case take_vars (py_lstrip rest) of (names, r) \<Rightarrow> (name # names, r))
       else ([], s))"
  by pat_completeness auto
termination
  by (relation "measure length")
    (auto simp del: length_dropWhile_le intro: le_imp_less_Suc le_trans [OF length_py_lstrip length_dropWhile_le])

declare after_prefixes.simps [simp del] take_vars.simps [simp del]

definition group_of :: "string \<Rightarrow> (string \<times> string) option" where
  "group_of s = (case s of
     [] \<Rightarrow> None
   | c # r \<Rightarrow> if c \<noteq> CHR ''{'' \<or> CHR ''}'' \<notin> set r then None
       else (let tl_rev = takeWhile (\<lambda>c. c \<noteq> CHR ''}'') (rev r) in
         if CHR ''{'' \<in> set tl_rev then None
         else Some (take (length r - length tl_rev - 1) r, rev tl_rev)))"

definition shape_of :: "string \<Rightarrow> query_shape option" where
  "shape_of q = (let s = py_lstrip q; s1 = after_prefixes s in
     if \<not> opens ''select'' s1 then None
     else (case drop 6 s1 of
       [] \<Rightarrow> None
     | c # _ \<Rightarrow> if \<not> is_space c then None
         else (let s2 = py_lstrip (drop 6 s1); s3 = after_distinct s2; vars = fst (take_vars s3); s4 = snd (take_vars s3) in
           if vars = [] \<or> \<not> opens ''where'' s4 then None
           else (case group_of (py_lstrip (drop 5 s4)) of
               None \<Rightarrow> None
             | Some (body, tail) \<Rightarrow> Some \<lparr>sh_prefixes = take (length s - length s1) s,
                 sh_distinct = take (length s2 - length s3) s2, sh_vars = vars, sh_body = body, sh_tail = tail\<rparr>))))"

subsection \<open>Declarations\<close>

datatype cardinality = OneRow | ManyRows | ValueList

record declared_select =
  sl_sparql :: string
  sl_card :: cardinality
  sl_ints :: "string list"

record declared_verb =
  dv_verb :: string
  dv_capability :: string
  dv_domain :: string
  dv_params :: "(string \<times> string) list"
  dv_selects :: "(string \<times> declared_select) list"
  dv_returns :: pyval

definition projected :: "declared_select \<Rightarrow> string list" where
  "projected s = (case shape_of (sl_sparql s) of Some m \<Rightarrow> sh_vars m | None \<Rightarrow> [])"

definition names_dataset :: "string \<Rightarrow> bool" where
  "names_dataset s = list_ex (\<lambda>w. has_word w s) [''graph'', ''service'', ''from'']"

definition check_select :: "declared_select \<Rightarrow> definition_error + unit" where
  "check_select s = (case shape_of (sl_sparql s) of
     None \<Rightarrow> Inl (BadField ''sparql'')
   | Some m \<Rightarrow>
       bind_r (require_r (\<not> names_dataset (sh_body m @ sh_tail m)) (BadField ''sparql'')) (\<lambda>_.
       bind_r (require_r (\<not> has_word ''select'' (sh_body m)) (BadField ''sparql'')) (\<lambda>_.
       bind_r (require_r (distinct (sh_vars m)) (BadField ''sparql'')) (\<lambda>_.
       bind_r (require_r (set (sl_ints s) \<subseteq> set (sh_vars m)) (BadField ''integers'')) (\<lambda>_.
       bind_r (require_r (sl_card s = ValueList \<longrightarrow> length (sh_vars m) = 1) (BadField ''cardinality'')) (\<lambda>_.
         require_r (sl_card s = OneRow \<or> found order_by False (sh_tail m)) (BadField ''sparql'')))))))"

definition read_select :: "pydict \<Rightarrow> definition_error + declared_select" where
  "read_select d =
     bind_r (known_fields [''sparql'', ''cardinality'', ''integers''] d) (\<lambda>_.
     bind_r (req_nonempty d ''sparql'') (\<lambda>q.
     bind_r (case dget d ''cardinality'' of
         PStr c \<Rightarrow> (case map_of [(''one'', OneRow), (''many'', ManyRows), (''values'', ValueList)] c of
             Some k \<Rightarrow> Inr k | None \<Rightarrow> Inl (BadField ''cardinality''))
       | _ \<Rightarrow> Inl (BadField ''cardinality'')) (\<lambda>k.
     bind_r (str_list d ''integers'') (\<lambda>ints.
     let s = \<lparr>sl_sparql = q, sl_card = k, sl_ints = ints\<rparr> in
     bind_r (check_select s) (\<lambda>_. Inr s)))))"

definition text_fields :: "pydict \<Rightarrow> definition_error + (string \<times> string) list" where
  "text_fields d = map_r (\<lambda>p. case snd p of PStr s \<Rightarrow> Inr (fst p, s) | _ \<Rightarrow> Inl (BadField (fst p))) d"

definition read_params :: "pydict \<Rightarrow> definition_error + (string \<times> string) list" where
  "read_params d = (if \<not> has_key d ''params'' then Inr []
     else (case dget d ''params'' of
        PDict e \<Rightarrow> bind_r (text_fields e) (\<lambda>ps.
          bind_r (require_r (list_all (\<lambda>p. is_ident (fst p)) ps) (BadField ''params'')) (\<lambda>_. Inr ps))
      | _ \<Rightarrow> Inl (BadField ''params'')))"

definition read_selects :: "pydict \<Rightarrow> definition_error + (string \<times> declared_select) list" where
  "read_selects d = (case dget d ''selects'' of
     PDict e \<Rightarrow> bind_r (require_r (e \<noteq> []) (BadField ''selects'')) (\<lambda>_.
       map_r (\<lambda>p. case snd p of PDict x \<Rightarrow> bind_r (read_select x) (\<lambda>s. Inr (fst p, s)) | _ \<Rightarrow> Inl (BadField (fst p))) e)
   | _ \<Rightarrow> Inl (BadField ''selects''))"

definition check_wiring :: "declared_verb \<Rightarrow> definition_error + unit" where
  "check_wiring v =
     bind_r (require_r (list_all (\<lambda>p. is_ident (fst p) \<and> fst p \<noteq> ''params'') (dv_selects v)) (BadField ''selects'')) (\<lambda>_.
     bind_r (require_r (list_all (\<lambda>p. list_ex (\<lambda>s. asks_var (fst p) (sl_sparql (snd s))) (dv_selects v)) (dv_params v))
       (BadField ''params'')) (\<lambda>_.
     require_r (list_all (\<lambda>s. set (projected (snd s)) \<inter> fst ` set (dv_params v) = {}) (dv_selects v)) (BadField ''selects'')))"

definition is_domain :: "string \<Rightarrow> bool" where
  "is_domain s \<longleftrightarrow> s \<noteq> [] \<and> list_all ident_char s"

definition read_query_verb :: "pydict \<Rightarrow> definition_error + declared_verb" where
  "read_query_verb d =
     bind_r (known_fields [''verb'', ''capability'', ''domain'', ''params'', ''selects'', ''returns''] d) (\<lambda>_.
     bind_r (req_nonempty d ''verb'') (\<lambda>v.
     bind_r (req_nonempty d ''capability'') (\<lambda>c.
     bind_r (req_str d ''domain'') (\<lambda>dom'.
     bind_r (require_r (is_domain dom') (BadField ''domain'')) (\<lambda>_.
     bind_r (read_params d) (\<lambda>ps.
     bind_r (read_selects d) (\<lambda>ss.
     bind_r (require_r (has_key d ''returns'') (BadField ''returns'')) (\<lambda>_.
     let q = \<lparr>dv_verb = v, dv_capability = c, dv_domain = dom', dv_params = ps, dv_selects = ss, dv_returns = dget d ''returns''\<rparr> in
     bind_r (check_wiring q) (\<lambda>_. Inr q)))))))))"

text \<open>The verb files in order. A document that says \<open>stub\<close> is the stub registry's.\<close>

fun query_verbs :: "yaml_file list \<Rightarrow> (string \<times> declared_verb) list \<Rightarrow> definition_error + (string \<times> declared_verb) list" where
  "query_verbs [] out = Inr out"
| "query_verbs (f # fs) out = (case f of
     Document (PDict d) \<Rightarrow>
       if has_key d ''stub'' then query_verbs fs out
       else bind_r (read_query_verb d) (\<lambda>v.
         if dv_verb v \<in> fst ` set out then Inl (DuplicateId (dv_verb v))
         else query_verbs fs (out @ [(dv_verb v, v)]))
   | Document _ \<Rightarrow> Inl NotMapping
   | NotReadable \<Rightarrow> Inl Unreadable)"

text \<open>The runner's registry: the same files, and no verb that is also a stand-in.\<close>

definition load_query_verbs :: "yaml_file list \<Rightarrow> definition_error + (string \<times> declared_verb) list" where
  "load_query_verbs fs =
     bind_r (query_verbs fs []) (\<lambda>qs.
     bind_r (load_stub_verbs fs []) (\<lambda>stubs.
     (case find (\<lambda>q. fst q \<in> fst ` set stubs) qs of Some q \<Rightarrow> Inl (DuplicateId (fst q)) | None \<Rightarrow> Inr qs)))"

subsection \<open>Binding values\<close>

definition escape_char :: "char \<Rightarrow> string" where
  "escape_char c = (if c = CHR 92 then [CHR 92, CHR 92] else if c = CHR 34 then [CHR 92, CHR 34]
     else if c = CHR 10 then [CHR 92, CHR ''n''] else if c = CHR 13 then [CHR 92, CHR ''r'']
     else if c = CHR 9 then [CHR 92, CHR ''t''] else [c])"

definition sparql_literal :: "string \<Rightarrow> string" where
  "sparql_literal v = CHR 34 # concat (map escape_char v) @ [CHR 34]"

datatype query_error =
    WrongParameters "string list" "string list"
  | NotText string
  | SpellsGraph string
  | NotInteger string string
  | UnboundValue string
  | TooManyRows string nat

definition check_value :: "string \<times> pyval \<Rightarrow> query_error + string \<times> string" where
  "check_value p = (case snd p of
     PStr s \<Rightarrow> if py_strip s = [] then Inl (NotText (fst p)) else if skips_scope s then Inl (SpellsGraph (fst p)) else Inr (fst p, s)
   | _ \<Rightarrow> Inl (NotText (fst p)))"

fun joined :: "string \<Rightarrow> string list \<Rightarrow> string" where
  "joined sep [] = []"
| "joined sep [s] = s"
| "joined sep (s # t # ss) = s @ sep @ joined sep (t # ss)"

definition values_row :: "string list \<Rightarrow> (string \<times> string) list \<Rightarrow> string" where
  "values_row used vals = (if used = [] then [] else
     '' VALUES ('' @ joined '' '' (map (\<lambda>p. CHR ''?'' # p) used) @ '') { ('' @
       joined '' '' (map (\<lambda>p. sparql_literal (case map_of vals p of Some v \<Rightarrow> v | None \<Rightarrow> [])) used) @ '') }'')"

definition build_select :: "declared_verb \<Rightarrow> (string \<times> string) list \<Rightarrow> declared_select \<Rightarrow> string" where
  "build_select v vals s = (case shape_of (sl_sparql s) of
     None \<Rightarrow> []
   | Some m \<Rightarrow>
       sh_prefixes m @ ''SELECT '' @ sh_distinct m @ joined '' '' (map (\<lambda>x. CHR ''?'' # x) (sh_vars m)) @ '' WHERE {'' @
       values_row (filter (\<lambda>p. asks_var p (sh_body m)) (map fst (dv_params v))) vals @ sh_body m @ ''}'' @ sh_tail m)"

definition build_selects :: "declared_verb \<Rightarrow> pydict \<Rightarrow> query_error + (string \<times> string) list" where
  "build_selects v params =
     (let missing = filter (\<lambda>p. \<not> has_key params p) (map fst (dv_params v));
          extra = filter (\<lambda>p. p \<notin> fst ` set (dv_params v)) (map fst params) in
      bind_r (require_r (missing = [] \<and> extra = []) (WrongParameters (sort missing) (sort extra))) (\<lambda>_.
      bind_r (map_r check_value params) (\<lambda>vals.
        Inr (map (\<lambda>s. (fst s, build_select v vals (snd s))) (dv_selects v)))))"

subsection \<open>The shape of an answer\<close>

text \<open>\<open>int(str(v))\<close>: a sign, digits with single underscores between them, white space around.\<close>

fun digit_groups :: "string \<Rightarrow> bool" where
  "digit_groups [] = False"
| "digit_groups [c] = is_digit c"
| "digit_groups (c # d # cs) = (is_digit c \<and> (if d = CHR ''_'' then digit_groups cs else digit_groups (d # cs)))"

definition int_text :: "string \<Rightarrow> int option" where
  "int_text t = (let s = py_strip t; sgn = (case s of c # _ \<Rightarrow> if c = CHR ''-'' then -1 else 1 | [] \<Rightarrow> 1);
       ds = (case s of c # r \<Rightarrow> if c = CHR ''-'' \<or> c = CHR ''+'' then r else s | [] \<Rightarrow> []) in
     if digit_groups ds then Some (sgn * int (index_of (filter (\<lambda>c. c \<noteq> CHR ''_'') ds))) else None)"

definition int_of_value :: "pyval \<Rightarrow> int option" where
  "int_of_value v = (case v of PStr s \<Rightarrow> int_text s | PInt n \<Rightarrow> Some n | _ \<Rightarrow> None)"

definition shape_cell :: "string \<Rightarrow> declared_select \<Rightarrow> pydict \<Rightarrow> string \<Rightarrow> query_error + string \<times> pyval" where
  "shape_cell name s row var = (let v = dget row var in
     if v \<noteq> PNone \<and> var \<in> set (sl_ints s)
     then (case int_of_value v of Some n \<Rightarrow> Inr (var, PInt n) | None \<Rightarrow> Inl (NotInteger name var))
     else Inr (var, v))"

definition shape_rows :: "string \<Rightarrow> declared_select \<Rightarrow> pydict list \<Rightarrow> query_error + pyval" where
  "shape_rows name s rows =
     bind_r (map_r (\<lambda>row. map_r (shape_cell name s row) (projected s)) rows) (\<lambda>shaped.
     (case sl_card s of
        ManyRows \<Rightarrow> Inr (PList (map PDict shaped))
      | ValueList \<Rightarrow> (let var = hd (projected s) in
          if list_ex (\<lambda>r. dget r var = PNone) shaped then Inl (UnboundValue name)
          else Inr (PList (map (\<lambda>r. dget r var) shaped)))
      | OneRow \<Rightarrow> if 1 < length shaped then Inl (TooManyRows name (length shaped))
          else Inr (case shaped of [] \<Rightarrow> PNone | r # _ \<Rightarrow> PDict r)))"

definition shape_selects :: "declared_verb \<Rightarrow> (string \<times> pydict list) list \<Rightarrow> query_error + pydict" where
  "shape_selects v rows =
     map_r (\<lambda>s. bind_r (shape_rows (fst s) (snd s) (case map_of rows (fst s) of Some rs \<Rightarrow> rs | None \<Rightarrow> []))
       (\<lambda>x. Inr (fst s, x))) (dv_selects v)"

subsection \<open>The scope of the serving engine\<close>

fun replace_first :: "string \<Rightarrow> string \<Rightarrow> string \<Rightarrow> string" where
  "replace_first pat by [] = []"
| "replace_first pat by (c # cs) =
     (if starts_with pat (c # cs) then by @ drop (length pat) (c # cs) else c # replace_first pat by cs)"

text \<open>\<open>re.sub(r"WHERE\s*\{", by, s, count=1)\<close> in any case.\<close>

fun replace_where :: "string \<Rightarrow> string \<Rightarrow> string" where
  "replace_where by [] = []"
| "replace_where by (c # cs) =
     (let r = py_lstrip (drop 5 (c # cs)) in
      if opens ''where'' (c # cs) \<and> r \<noteq> [] \<and> hd r = CHR ''{'' then by @ tl r else c # replace_where by cs)"

definition close_last :: "string \<Rightarrow> string" where
  "close_last s = (let t = rev (takeWhile (\<lambda>c. c \<noteq> CHR ''}'') (rev s)) in
     if length t = length s then s else take (length s - length t - 1) s @ ''} }'' @ t)"

definition scope_domains :: "string \<Rightarrow> string list \<Rightarrow> string list" where
  "scope_domains d ds = (let named = filter (\<lambda>x. x \<noteq> []) ds in
     map (\<lambda>x. let c = filter word_char x in if c = [] then ''MAINTENANCE'' else c)
       (if named = [] then [if d = [] then ''MAINTENANCE'' else d] else named))"

definition graph_scope :: "string list \<Rightarrow> string" where
  "graph_scope ds = ''VALUES ?__mesh_g { '' @ joined '' '' (concat (map (\<lambda>d.
     [''<http://internal/'' @ d @ ''>'', ''<http://internal/'' @ d @ ''_INSTANCES>'']) ds)) @ '' } GRAPH ?__mesh_g''"

definition scoped_query :: "string \<Rightarrow> string list \<Rightarrow> string \<Rightarrow> string" where
  "scoped_query d ds q =
     (let by = ''WHERE { '' @ graph_scope (scope_domains d ds) @ '' {'' in
      if skips_scope q \<or> \<not> substring_of ''SELECT'' (py_upper q) then q
      else if substring_of ''WHERE {'' q then close_last (replace_first ''WHERE {'' by q)
      else if substring_of ''WHERE {'' (py_upper q) then close_last (replace_where by q)
      else q)"

text \<open>\<^verbatim>\<open>read_outcome.py\<close>: the first store that answered decides, and a store that could not be asked is no
  empty answer.\<close>

record store_attempt =
  sa_store :: string
  sa_declared :: bool
  sa_rows :: "pydict list option"

datatype mesh_outcome =
    AnsweredBy string "pydict list"
  | EmptyFrom string
  | Unreachable
  | FailedAt string

definition store_outcome :: "store_attempt list \<Rightarrow> mesh_outcome" where
  "store_outcome attempts = (case find (\<lambda>a. sa_rows a \<noteq> None) attempts of
     Some a \<Rightarrow> (case sa_rows a of Some (r # rs) \<Rightarrow> AnsweredBy (sa_store a) (r # rs) | _ \<Rightarrow> EmptyFrom (sa_store a))
   | None \<Rightarrow> (case filter sa_declared attempts of [] \<Rightarrow> Unreachable | as \<Rightarrow> FailedAt (sa_store (last as))))"

datatype route_error = HttpStatus int | SubstrateUnavailable

definition rows_or_refuse :: "mesh_outcome \<Rightarrow> route_error + pydict list" where
  "rows_or_refuse o' = (case o' of AnsweredBy _ rows \<Rightarrow> Inr rows | EmptyFrom _ \<Rightarrow> Inr [] | _ \<Rightarrow> Inl SubstrateUnavailable)"

text \<open>The triple store, and the local graph when the store did not answer.\<close>

record stores =
  so_jena :: "string \<Rightarrow> store_attempt"
  so_local :: "string \<Rightarrow> store_attempt"

definition execute_sparql :: "stores \<Rightarrow> string \<Rightarrow> string list \<Rightarrow> string \<Rightarrow> route_error + pydict list" where
  "execute_sparql st d ds q =
     (let s = scoped_query d ds q; a = so_jena st s in
      rows_or_refuse (store_outcome (a # (if sa_rows a = None then [so_local st s] else []))))"

definition or_status :: "int \<Rightarrow> 'e + 'a \<Rightarrow> route_error + 'a" where
  "or_status c r = map_sum (\<lambda>_. HttpStatus c) id r"

definition declared_query_route ::
  "stores \<Rightarrow> yaml_file list \<Rightarrow> string \<Rightarrow> (string \<times> string) list \<Rightarrow> route_error + pydict" where
  "declared_query_route st files verb params =
     bind_r (or_status 500 (query_verbs files [])) (\<lambda>verbs.
     (case map_of verbs verb of
        None \<Rightarrow> Inl (HttpStatus 404)
      | Some v \<Rightarrow>
          bind_r (or_status 422 (build_selects v (map (map_prod id PStr) params))) (\<lambda>built.
          bind_r (map_r (\<lambda>p. bind_r (execute_sparql st (dv_domain v) [] (snd p)) (\<lambda>rows. Inr (fst p, rows))) built) (\<lambda>rows.
          bind_r (or_status 422 (shape_selects v rows)) (\<lambda>selects.
            Inr [(''verb'', PStr (dv_verb v)), (''domain'', PStr (dv_domain v)), (''selects'', PDict selects)])))))"

subsection \<open>A value stays in its literal\<close>

text \<open>A reader of quoted literals by the grammar of SPARQL: an escape names its character, and a quote
  that is not escaped ends the literal.\<close>

fun read_body :: "string \<Rightarrow> (string \<times> string) option" where
  "read_body [] = None"
| "read_body (c # cs) =
     (if c = CHR 34 then Some ([], cs)
      else if c = CHR 10 \<or> c = CHR 13 then None
      else if c = CHR 92 then (case cs of
          [] \<Rightarrow> None
        | d # ds \<Rightarrow> (case map_of [(CHR ''t'', CHR 9), (CHR ''n'', CHR 10), (CHR ''r'', CHR 13), (CHR 34, CHR 34), (CHR 92, CHR 92)] d of
            None \<Rightarrow> None
          | Some e \<Rightarrow> map_option (\<lambda>(v, r). (e # v, r)) (read_body ds)))
      else map_option (\<lambda>(v, r). (c # v, r)) (read_body cs))"

definition read_quoted :: "string \<Rightarrow> (string \<times> string) option" where
  "read_quoted s = (case s of c # cs \<Rightarrow> if c = CHR 34 then read_body cs else None | [] \<Rightarrow> None)"

lemma read_escaped: "read_body (concat (map escape_char v) @ CHR 34 # rest) = Some (v, rest)"
proof (induction v)
  case (Cons c v)
  then show ?case by (auto simp: escape_char_def)
qed simp

text \<open>
  A value cannot leave its literal: whatever it holds and whatever follows, reading the literal
  back by the grammar gives the value and leaves exactly what follows.
\<close>

theorem a_value_stays_in_its_literal: "read_quoted (sparql_literal v @ rest) = Some (v, rest)"
  using read_escaped by (simp add: read_quoted_def sparql_literal_def)

subsection \<open>No value lifts the scope\<close>

definition barrier :: "char \<Rightarrow> bool" where
  "barrier c \<longleftrightarrow> \<not> word_char c \<and> \<not> is_space c \<and> c \<notin> {CHR ''<'', CHR ''?'', CHR ''$''}"

lemma lower_letter: "lower_char c = d \<Longrightarrow> is_lower d \<Longrightarrow> is_lower c \<or> is_upper c"
  by (auto simp: lower_char_def is_lower_def is_upper_def Let_def code_of_char_of split: if_splits)

lemma opens_letters: "opens w s \<Longrightarrow> list_all is_lower w \<Longrightarrow> c \<in> set (take (length w) s) \<Longrightarrow> is_lower c \<or> is_upper c"
  unfolding opens_def list_all_iff by (metis imageI list.set_map lower_letter)

lemma opens_graph_letters: "opens ''graph'' s \<Longrightarrow> c \<in> set (take 5 s) \<Longrightarrow> is_lower c \<or> is_upper c"
  using opens_letters [of "''graph''" s c] by (simp add: is_lower_def code_of_def eval_nat_numeral)

lemma barrier_no_letter: "barrier c \<Longrightarrow> \<not> is_lower c \<and> \<not> is_upper c"
  by (simp add: barrier_def word_char_def Let_def)

lemma graph_clause_barrier:
  assumes b: "barrier b"
  shows "graph_clause (t @ b # ys) \<longleftrightarrow> graph_clause t"
proof (cases "length t < 5")
  case True
  then have "b \<in> set (take 5 (t @ b # ys))" by (simp add: take_Cons')
  with opens_graph_letters barrier_no_letter [OF b] have "\<not> opens ''graph'' (t @ b # ys)" by blast
  with True show ?thesis by (auto simp: graph_clause_def opens_def)
next
  case False
  then have "take 5 (t @ b # ys) = take 5 t" "drop 5 (t @ b # ys) = drop 5 t @ b # ys" by simp_all
  moreover have "py_lstrip (r @ b # ys) = (if \<forall>c \<in> set r. is_space c then b # ys else py_lstrip r @ b # ys)" for r
    using b by (auto simp: py_lstrip_def barrier_def dropWhile_append)
  moreover have "\<forall>c \<in> set r. is_space c \<Longrightarrow> py_lstrip r = []" for r by (simp add: py_lstrip_def)
  moreover have "\<not> (\<forall>c \<in> set r. is_space c) \<Longrightarrow> py_lstrip r \<noteq> []" for r by (simp add: py_lstrip_def)
  ultimately show ?thesis
    using False b by (auto simp: graph_clause_def opens_def barrier_def neq_Nil_conv split: list.split)
qed

lemma found_barrier: "barrier b \<Longrightarrow> found graph_clause prev (xs @ b # ys) \<longleftrightarrow> found graph_clause prev xs \<or> found graph_clause False ys"
proof (induction xs arbitrary: prev)
  case Nil
  have "\<not> graph_clause (b # ys)" using graph_clause_barrier [OF Nil, of "[]" ys] by (simp add: graph_clause_def opens_def)
  with Nil show ?case by (simp add: barrier_def)
next
  case (Cons a xs)
  then show ?case using graph_clause_barrier [OF Cons.prems, of "a # xs" ys] by simp
qed

lemma found_mono: "found p True s \<Longrightarrow> found p False s"
  by (cases s) auto

lemma barriers [simp]: "barrier (CHR 92)" "barrier (CHR 34)" "barrier (CHR ''{'')" "barrier (CHR ''}'')" "barrier (CHR ''('')" "barrier (CHR '')'')"
  by (simp_all add: barrier_def word_char_def is_space_def is_digit_def is_lower_def is_upper_def code_of_def)

lemma escape_cases: "escape_char c = [c] \<or> (\<exists>d. escape_char c = [CHR 92, d])"
  by (simp add: escape_char_def)

lemma graph_clause_escaped: "graph_clause (concat (map escape_char v)) \<Longrightarrow> graph_clause v"
proof -
  have step: "list_all (\<lambda>c. is_lower c \<or> is_upper c) (take n (concat (map escape_char v))) \<Longrightarrow> n \<le> length (concat (map escape_char v)) \<Longrightarrow>
      take n v = take n (concat (map escape_char v)) \<and> drop n (concat (map escape_char v)) = concat (map escape_char (drop n v)) \<and> n \<le> length v" for n v
  proof (induction v arbitrary: n)
    case (Cons c v)
    show ?case
    proof (cases n)
      case (Suc m)
      have "\<not> (is_lower (CHR 92) \<or> is_upper (CHR 92))" by (simp add: is_lower_def is_upper_def code_of_def)
      with Cons.prems(1) Suc have "\<nexists>d. escape_char c = [CHR 92, d]" by auto
      with escape_cases [of c] have "escape_char c = [c]" by blast
      with Cons Suc show ?thesis by auto
    qed simp
  qed simp
  have white: "py_lstrip (concat (map escape_char w)) = d # r \<Longrightarrow> d \<in> {CHR ''<'', CHR ''?'', CHR ''$''} \<Longrightarrow>
      \<exists>r'. py_lstrip w = d # r'" for w d r
  proof (induction w)
    case (Cons c w)
    have bs: "\<not> is_space (CHR 92)" by (simp add: is_space_def code_of_def)
    with Cons.prems have "\<nexists>x. escape_char c = [CHR 92, x]" by (auto simp: py_lstrip_def)
    with escape_cases [of c] have "escape_char c = [c]" by blast
    with Cons show ?case by (auto simp: py_lstrip_def split: if_splits)
  qed (simp add: py_lstrip_def)
  assume g: "graph_clause (concat (map escape_char v))"
  let ?e = "concat (map escape_char v)"
  from g have o: "opens ''graph'' ?e" by (simp add: graph_clause_def)
  have letters: "list_all (\<lambda>c. is_lower c \<or> is_upper c) (take 5 ?e)" using opens_graph_letters [OF o] by (simp add: list_all_iff)
  have len: "5 \<le> length ?e" using o by (simp add: opens_def)
  from step [OF letters len] have t: "take 5 v = take 5 ?e" "drop 5 ?e = concat (map escape_char (drop 5 v))" "5 \<le> length v" by auto
  from g obtain d r where "py_lstrip (drop 5 ?e) = d # r" "d \<in> {CHR ''<'', CHR ''?'', CHR ''$''}"
    by (auto simp: graph_clause_def split: list.splits)
  with white [of "drop 5 v"] t(2) obtain r' where "py_lstrip (drop 5 v) = d # r'" by auto
  with o t(1,3) \<open>d \<in> _\<close> show ?thesis by (simp add: graph_clause_def opens_def eval_nat_numeral)
qed

lemma found_escaped: "found graph_clause prev (concat (map escape_char v)) \<Longrightarrow> found graph_clause prev v"
proof (induction v arbitrary: prev)
  case (Cons c v)
  let ?e = "concat (map escape_char v)"
  show ?case
  proof (cases "escape_char c = [c]")
    case True
    with Cons graph_clause_escaped [of "c # v"] show ?thesis by auto
  next
    case False
    then obtain d where d: "escape_char c = [CHR 92, d]" "d \<in> {CHR 92, CHR 34, CHR ''n'', CHR ''r'', CHR ''t''}" "\<not> word_char c"
      by (auto simp: escape_char_def word_char_def is_digit_def is_lower_def is_upper_def code_of_def split: if_splits)
    have no: "\<not> graph_clause (d # ?e)"
      using d(2) by (auto simp: graph_clause_def opens_def lower_char_def code_of_def Let_def)
    from Cons.prems d(1) have "found graph_clause prev ([] @ CHR 92 # d # ?e)" by simp
    then have "found graph_clause False (d # ?e)" unfolding found_barrier [OF barriers(1)] by simp
    with no have "found graph_clause (word_char d) ?e" by simp
    then have "found graph_clause (word_char d) v" by (rule Cons.IH)
    then have "found graph_clause False v" by (cases "word_char d") (auto intro: found_mono)
    with d(3) show ?thesis by simp
  qed
qed simp

lemma found_literal:
  "\<not> skips_scope v \<Longrightarrow> found graph_clause prev (sparql_literal v @ rest) \<longleftrightarrow> found graph_clause False rest"
proof -
  assume v: "\<not> skips_scope v"
  have "found graph_clause prev ([] @ CHR 34 # concat (map escape_char v) @ CHR 34 # rest)
      \<longleftrightarrow> found graph_clause False (concat (map escape_char v)) \<or> found graph_clause False rest"
    unfolding found_barrier [OF barriers(2)] by simp
  moreover have "\<not> found graph_clause False (concat (map escape_char v))" using found_escaped v unfolding skips_scope_def by blast
  ultimately show ?thesis by (simp add: sparql_literal_def)
qed

lemma blanks [simp]: "\<not> graph_clause (CHR '' '' # s)" "\<not> word_char (CHR '' '')"
  by (simp_all add: graph_clause_def opens_def lower_char_def code_of_def word_char_def is_digit_def is_lower_def is_upper_def)

lemma found_literals:
  "\<forall>v \<in> set vs. \<not> skips_scope v \<Longrightarrow> found graph_clause False (joined '' '' (map sparql_literal vs) @ rest) \<longleftrightarrow> found graph_clause False rest"
proof (induction vs)
  case (Cons v vs)
  then show ?case by (cases vs) (simp_all add: found_literal)
qed simp

definition var_list :: "string list \<Rightarrow> string" where
  "var_list used = joined '' '' (map (\<lambda>p. CHR ''?'' # p) used)"

lemma found_values:
  assumes "\<And>p v. map_of vals p = Some v \<Longrightarrow> \<not> skips_scope v"
  shows "found graph_clause False (values_row used vals @ r) \<longleftrightarrow> used \<noteq> [] \<and> found graph_clause False (var_list used) \<or> found graph_clause False r"
proof (cases "used = []")
  case False
  let ?vs = "map (\<lambda>p. case map_of vals p of Some v \<Rightarrow> v | None \<Rightarrow> []) used"
  have vs: "\<forall>v \<in> set ?vs. \<not> skips_scope v" using assms by (auto simp: skips_scope_def split: option.split)
  have row: "values_row used vals @ r = '' VALUES '' @ CHR ''('' # var_list used @ CHR '')'' # '' '' @ CHR ''{'' # '' '' @ CHR ''('' #
      joined '' '' (map sparql_literal ?vs) @ CHR '')'' # '' '' @ CHR ''}'' # r"
    using False by (simp add: values_row_def var_list_def comp_def)
  have fixed: "\<not> found graph_clause False '' VALUES ''" "\<not> found graph_clause False '' ''" by code_simp+
  have lits: "found graph_clause False (joined '' '' (map sparql_literal ?vs) @ CHR '')'' # '' '' @ CHR ''}'' # r)
      \<longleftrightarrow> found graph_clause False (CHR '')'' # '' '' @ CHR ''}'' # r)" by (rule found_literals [OF vs])
  have close: "found graph_clause False (CHR '')'' # '' '' @ CHR ''}'' # r) \<longleftrightarrow> found graph_clause False r"
    using found_barrier [of "CHR '')''" False "[]" "'' '' @ CHR ''}'' # r"] found_barrier [of "CHR ''}''" False "'' ''" r] fixed(2) by simp
  show ?thesis
    unfolding row found_barrier [OF barriers(5)] found_barrier [OF barriers(6), of _ "var_list used"] found_barrier [OF barriers(3)]
      found_barrier [OF barriers(5), of _ "'' ''"] lits close
    using False fixed by (simp add: fixed del: found.simps)
qed (simp add: values_row_def)

lemma skips_build:
  assumes "\<And>p v. map_of vals p = Some v \<Longrightarrow> \<not> skips_scope v" and m: "shape_of (sl_sparql s) = Some m"
  shows "skips_scope (build_select v vals s) \<longleftrightarrow>
     found graph_clause False (sh_prefixes m @ ''SELECT '' @ sh_distinct m @ var_list (sh_vars m) @ '' WHERE '') \<or>
     (let used = filter (\<lambda>p. asks_var p (sh_body m)) (map fst (dv_params v)) in used \<noteq> [] \<and> found graph_clause False (var_list used)) \<or>
     found graph_clause False (sh_body m) \<or> found graph_clause False (sh_tail m)"
proof -
  let ?used = "filter (\<lambda>p. asks_var p (sh_body m)) (map fst (dv_params v))"
  let ?head = "sh_prefixes m @ ''SELECT '' @ sh_distinct m @ var_list (sh_vars m) @ '' WHERE ''"
  have b: "build_select v vals s = ?head @ CHR ''{'' # values_row ?used vals @ sh_body m @ CHR ''}'' # sh_tail m"
    by (simp add: build_select_def m var_list_def)
  have vals: "found graph_clause False (values_row u vals @ r) \<longleftrightarrow>
      u \<noteq> [] \<and> found graph_clause False (var_list u) \<or> found graph_clause False r" for u r
    by (rule found_values) (rule assms(1))
  show ?thesis
    unfolding skips_scope_def b found_barrier [OF barriers(3)] vals found_barrier [OF barriers(4)] Let_def ..
qed

lemma checked_values:
  "map_r check_value params = Inr vals \<Longrightarrow> map_of vals p = Some v \<Longrightarrow> \<not> skips_scope v \<and> py_strip v \<noteq> [] \<and> map_of params p = Some (PStr v)"
  by (induction params arbitrary: vals)
    (auto simp: bind_r_Inr check_value_def split: pyval.splits if_splits)

lemma build_selects_Inr:
  assumes "build_selects v params = Inr qs"
  obtains vals where "map_r check_value params = Inr vals" "qs = map (\<lambda>s. (fst s, build_select v vals (snd s))) (dv_selects v)"
    "fst ` set params = fst ` set (dv_params v)"
proof -
  from assms obtain vals where v: "map_r check_value params = Inr vals"
    "qs = map (\<lambda>s. (fst s, build_select v vals (snd s))) (dv_selects v)"
    and none: "filter (\<lambda>p. \<not> has_key params p) (map fst (dv_params v)) = []"
      "filter (\<lambda>p. p \<notin> fst ` set (dv_params v)) (map fst params) = []"
    by (auto simp: build_selects_def Let_def bind_r_Inr)
  from none have "fst ` set params = fst ` set (dv_params v)"
    by (auto simp: filter_empty_conv has_key_def map_of_eq_None_iff)
  with v that show thesis by blast
qed

text \<open>
  C22. No value decides about the scope. Whether the serving engine puts the domain's scope around a
  query depends on the declaration alone: two requests for one verb, both accepted, have the scope
  around the same selects, whatever values they bind.
\<close>

theorem no_value_lifts_the_scope:
  assumes "build_selects v params = Inr qs" and "build_selects v params' = Inr qs'"
  shows "map (\<lambda>q. (fst q, skips_scope (snd q))) qs = map (\<lambda>q. (fst q, skips_scope (snd q))) qs'"
proof -
  have same: "skips_scope (build_select v vals s) = skips_scope (build_select v vals' s)"
    if "map_r check_value params = Inr vals" "map_r check_value params' = Inr vals'" for vals vals' s
  proof (cases "shape_of (sl_sparql s)")
    case None
    then show ?thesis by (simp add: build_select_def)
  next
    case (Some m)
    have "\<And>p v. map_of vals p = Some v \<Longrightarrow> \<not> skips_scope v" "\<And>p v. map_of vals' p = Some v \<Longrightarrow> \<not> skips_scope v"
      using checked_values that by blast+
    with skips_build [OF _ Some] show ?thesis by blast
  qed
  from assms(1) obtain vals where a: "map_r check_value params = Inr vals" "qs = map (\<lambda>s. (fst s, build_select v vals (snd s))) (dv_selects v)"
    by (rule build_selects_Inr)
  from assms(2) obtain vals' where b: "map_r check_value params' = Inr vals'" "qs' = map (\<lambda>s. (fst s, build_select v vals' (snd s))) (dv_selects v)"
    by (rule build_selects_Inr)
  from same [OF a(1) b(1)] a(2) b(2) show ?thesis by simp
qed

subsection \<open>The scope closes over the body\<close>

text \<open>No blank before an opening brace: what the head of a built query never has.\<close>

definition tight :: "string \<Rightarrow> bool" where
  "tight s \<longleftrightarrow> successively (\<lambda>a b. b = CHR ''{'' \<longrightarrow> \<not> is_space a) s \<and> (s \<noteq> [] \<longrightarrow> hd s \<noteq> CHR ''{'')"

lemma tight_append: "tight a \<Longrightarrow> tight b \<Longrightarrow> tight (a @ b)"
  by (cases "a = []"; cases "b = []") (simp_all add: tight_def successively_append_iff)

lemma tight_no_brace: "CHR ''{'' \<notin> set s \<Longrightarrow> tight s"
  unfolding tight_def by (induction s rule: induct_list012) auto

lemma tight_suffix: "tight (a @ b) \<Longrightarrow> b \<noteq> [] \<Longrightarrow> successively (\<lambda>a b. b = CHR ''{'' \<longrightarrow> \<not> is_space a) b"
  by (auto simp: tight_def successively_append_iff)

lemma no_brace [simp]: "\<not> is_space (CHR ''{'')" "\<not> ident_char (CHR ''{'')" "lower_char (CHR ''{'') = CHR ''{''"
  by (simp_all add: is_space_def ident_char_def is_lower_def is_upper_def is_digit_def code_of_def lower_char_def)

lemma opens_no_brace: "opens w s \<Longrightarrow> CHR ''{'' \<notin> set w \<Longrightarrow> CHR ''{'' \<notin> set (take (length w) s)"
  unfolding opens_def by (metis imageI list.set_map no_brace(3))

lemma lstrip_split: "\<exists>ws. s = ws @ py_lstrip s \<and> (\<forall>c \<in> set ws. is_space c)"
  by (rule exI [of _ "takeWhile is_space s"]) (auto simp: py_lstrip_def dest: set_takeWhileD)

lemma white_tight: "\<forall>c \<in> set ws. is_space c \<Longrightarrow> tight ws"
  using no_brace(1) by (intro tight_no_brace) blast

lemma iri_tight: "CHR ''{'' \<notin> set a \<Longrightarrow> \<forall>c \<in> set iri. \<not> is_space c \<Longrightarrow> tight (a @ CHR ''<'' # iri)"
proof -
  assume a: "CHR ''{'' \<notin> set a" and i: "\<forall>c \<in> set iri. \<not> is_space c"
  have lt: "\<not> is_space (CHR ''<'')" by (simp add: is_space_def code_of_def)
  from i have "successively (\<lambda>a b. b = CHR ''{'' \<longrightarrow> \<not> is_space a) iri" by (induction iri rule: induct_list012) auto
  with lt have "successively (\<lambda>a b. b = CHR ''{'' \<longrightarrow> \<not> is_space a) (CHR ''<'' # iri)" by (cases iri) simp_all
  then have "tight (CHR ''<'' # iri)" by (simp add: tight_def)
  with tight_no_brace [OF a] tight_append show ?thesis by blast
qed

lemma after_prefix_split:
  assumes "after_prefix s = Some r"
  shows "\<exists>p. s = p @ r \<and> tight p"
proof -
  let ?name = "takeWhile (\<lambda>c. ident_char c \<or> c = CHR ''-'') (py_lstrip (drop 6 s))"
  from assms have o: "opens ''prefix'' s" by (simp add: after_prefix_def split: if_splits)
  from assms obtain r1 where r1: "dropWhile (\<lambda>c. ident_char c \<or> c = CHR ''-'') (py_lstrip (drop 6 s)) = CHR '':'' # r1"
    and rest: "(case py_lstrip r1 of [] \<Rightarrow> None | c # r \<Rightarrow> if c \<noteq> CHR ''<'' then None
        else (case dropWhile (\<lambda>c. c \<noteq> CHR ''<'' \<and> c \<noteq> CHR ''>'' \<and> \<not> is_space c) r of
            [] \<Rightarrow> None | c # r \<Rightarrow> if c = CHR ''>'' then Some (py_lstrip r) else None)) = Some r"
    by (auto simp: after_prefix_def split: if_splits list.splits)
  from rest obtain r2 where r2: "py_lstrip r1 = CHR ''<'' # r2"
    and "(case dropWhile (\<lambda>c. c \<noteq> CHR ''<'' \<and> c \<noteq> CHR ''>'' \<and> \<not> is_space c) r2 of
            [] \<Rightarrow> None | c # r \<Rightarrow> if c = CHR ''>'' then Some (py_lstrip r) else None) = Some r"
    by (auto split: if_splits list.splits)
  then obtain r3 where r3: "dropWhile (\<lambda>c. c \<noteq> CHR ''<'' \<and> c \<noteq> CHR ''>'' \<and> \<not> is_space c) r2 = CHR ''>'' # r3" and r: "r = py_lstrip r3"
    by (auto split: if_splits list.splits)
  let ?iri = "takeWhile (\<lambda>c. c \<noteq> CHR ''<'' \<and> c \<noteq> CHR ''>'' \<and> \<not> is_space c) r2"
  obtain w1 w2 w3 where w: "drop 6 s = w1 @ py_lstrip (drop 6 s)" "r1 = w2 @ py_lstrip r1" "r3 = w3 @ py_lstrip r3"
    and sp: "\<forall>c \<in> set w1. is_space c" "\<forall>c \<in> set w2. is_space c" "\<forall>c \<in> set w3. is_space c"
    using lstrip_split by metis
  have parts: "py_lstrip (drop 6 s) = ?name @ CHR '':'' # r1" "r2 = ?iri @ CHR ''>'' # r3"
    using r1 r3 by (metis takeWhile_dropWhile_id)+
  have "s = take 6 s @ w1 @ py_lstrip (drop 6 s)" using w(1) by (metis append_take_drop_id)
  also have "\<dots> = take 6 s @ w1 @ ?name @ CHR '':'' # w2 @ py_lstrip r1" using parts(1) w(2) by simp
  also have "\<dots> = take 6 s @ w1 @ ?name @ CHR '':'' # w2 @ CHR ''<'' # ?iri @ CHR ''>'' # w3 @ r"
    using r2 parts(2) w(3) r by simp
  finally have "s = ((take 6 s @ w1 @ ?name @ CHR '':'' # w2) @ CHR ''<'' # ?iri) @ (CHR ''>'' # w3) @ r" by simp
  moreover have "CHR ''{'' \<notin> set (take 6 s @ w1 @ ?name @ CHR '':'' # w2)"
  proof -
    have "CHR ''{'' \<notin> set (take 6 s)" using opens_no_brace [OF o] by (simp add: eval_nat_numeral)
    with sp no_brace show ?thesis by (auto dest: set_takeWhileD)
  qed
  moreover have "\<forall>c \<in> set ?iri. \<not> is_space c" by (auto dest: set_takeWhileD)
  moreover have "CHR ''{'' \<notin> set (CHR ''>'' # w3)" using sp(3) no_brace(1) by auto
  ultimately show ?thesis
    by (intro exI [of _ "((take 6 s @ w1 @ ?name @ CHR '':'' # w2) @ CHR ''<'' # ?iri) @ (CHR ''>'' # w3)"] conjI
        tight_append iri_tight tight_no_brace) (simp only: append.assoc)
qed

lemma after_prefixes_split: "\<exists>p. s = p @ after_prefixes s \<and> tight p"
proof (induction s rule: after_prefixes.induct)
  case (1 s)
  show ?case
  proof (cases "after_prefix s")
    case None
    then show ?thesis by (auto simp: after_prefixes.simps [of s] tight_def)
  next
    case (Some r)
    show ?thesis
    proof (cases "length r < length s")
      case True
      from after_prefix_split [OF Some] obtain p where p: "s = p @ r" "tight p" by blast
      from 1 [OF Some True] obtain q where q: "r = q @ after_prefixes r" "tight q" by blast
      have "after_prefixes s = after_prefixes r" using Some True by (simp add: after_prefixes.simps [of s])
      moreover have "s = (p @ q) @ after_prefixes r" using p(1) q(1) by simp
      ultimately show ?thesis using tight_append [OF p(2) q(2)] by metis
    next
      case False
      with Some show ?thesis by (auto simp: after_prefixes.simps [of s] tight_def)
    qed
  qed
qed

lemma after_distinct_split: "\<exists>p. s = p @ after_distinct s \<and> CHR ''{'' \<notin> set p"
proof -
  have "\<exists>p. s = p @ py_lstrip (drop (length w) s) \<and> CHR ''{'' \<notin> set p" if o: "opens w s" "CHR ''{'' \<notin> set w" for w
  proof -
    obtain ws where ws: "drop (length w) s = ws @ py_lstrip (drop (length w) s)" "\<forall>c \<in> set ws. is_space c"
      using lstrip_split by metis
    then have "s = (take (length w) s @ ws) @ py_lstrip (drop (length w) s)" by (metis append.assoc append_take_drop_id)
    moreover have "CHR ''{'' \<notin> set (take (length w) s @ ws)" using opens_no_brace [OF o] ws(2) no_brace(1) by auto
    ultimately show ?thesis by metis
  qed
  from this [of "''distinct''"] this [of "''reduced''"] show ?thesis
    by (auto simp: after_distinct_def Let_def eval_nat_numeral split: list.split)
qed

lemma take_vars_idents: "n \<in> set (fst (take_vars s)) \<Longrightarrow> CHR ''{'' \<notin> set n"
proof (induction s rule: take_vars.induct)
  case (1 s)
  show ?case
  proof (cases s)
    case Nil
    with 1 show ?thesis by (simp add: take_vars.simps)
  next
    case (Cons c cs)
    let ?name = "takeWhile ident_char cs" and ?rest = "dropWhile ident_char cs"
    show ?thesis
    proof (cases "c = CHR ''?'' \<and> is_ident ?name \<and> ?rest \<noteq> [] \<and> is_space (hd ?rest)")
      case True
      have fst: "fst (take_vars s) = ?name # fst (take_vars (py_lstrip ?rest))"
        by (subst take_vars.simps) (use True in \<open>simp add: Cons Let_def split: prod.split\<close>)
      have name: "CHR ''{'' \<notin> set ?name" using no_brace(2) by (auto dest: set_takeWhileD)
      from 1(2) fst consider "n = ?name" | "n \<in> set (fst (take_vars (py_lstrip ?rest)))" by auto
      then show ?thesis
        using 1(1) [OF Cons refl refl True] name by cases auto
    next
      case False
      then have "fst (take_vars s) = []" by (subst take_vars.simps) (auto simp: Cons Let_def)
      with 1 show ?thesis by simp
    qed
  qed
qed

lemma group_of_Some:
  assumes "group_of s = Some (body, tail)"
  shows "s = CHR ''{'' # body @ CHR ''}'' # tail" and "CHR ''{'' \<notin> set tail" and "CHR ''}'' \<notin> set tail"
proof -
  from assms obtain r where s: "s = CHR ''{'' # r" and in_r: "CHR ''}'' \<in> set r"
    and body: "body = take (length r - length tail - 1) r" and tail: "tail = rev (takeWhile (\<lambda>c. c \<noteq> CHR ''}'') (rev r))"
    and no: "CHR ''{'' \<notin> set tail"
    by (auto simp: group_of_def Let_def split: list.splits if_splits)
  show "CHR ''{'' \<notin> set tail" "CHR ''}'' \<notin> set tail" using no tail by (auto dest: set_takeWhileD)
  have ne: "dropWhile (\<lambda>c. c \<noteq> CHR ''}'') (rev r) \<noteq> []" using in_r by auto
  then obtain x where "dropWhile (\<lambda>c. c \<noteq> CHR ''}'') (rev r) = CHR ''}'' # x"
    using hd_dropWhile [OF ne] by (cases "dropWhile (\<lambda>c. c \<noteq> CHR ''}'') (rev r)") auto
  then have "rev r = rev tail @ CHR ''}'' # x" using tail by (metis rev_rev_ident takeWhile_dropWhile_id)
  then have "r = rev (rev tail @ CHR ''}'' # x)" by (metis rev_rev_ident)
  then have "r = rev x @ CHR ''}'' # tail" by simp
  with body s show "s = CHR ''{'' # body @ CHR ''}'' # tail" by simp
qed

lemma shape_of_Some:
  assumes "shape_of q = Some m"
  shows "tight (sh_prefixes m)" "CHR ''{'' \<notin> set (sh_distinct m)" "x \<in> set (sh_vars m) \<Longrightarrow> CHR ''{'' \<notin> set x"
    "CHR ''{'' \<notin> set (sh_tail m)" "CHR ''}'' \<notin> set (sh_tail m)" "sh_vars m \<noteq> []"
proof -
  let ?s = "py_lstrip q"
  let ?s2 = "py_lstrip (drop 6 (after_prefixes ?s))"
  from assms obtain body tail where g: "group_of (py_lstrip (drop 5 (snd (take_vars (after_distinct ?s2))))) = Some (body, tail)"
    and m: "m = \<lparr>sh_prefixes = take (length ?s - length (after_prefixes ?s)) ?s,
         sh_distinct = take (length ?s2 - length (after_distinct ?s2)) ?s2, sh_vars = fst (take_vars (after_distinct ?s2)),
         sh_body = body, sh_tail = tail\<rparr>" and v: "fst (take_vars (after_distinct ?s2)) \<noteq> []"
    by (auto simp: shape_of_def Let_def split: if_splits list.splits option.splits)
  obtain p where p: "?s = p @ after_prefixes ?s" "tight p" using after_prefixes_split by blast
  then have "take (length ?s - length (after_prefixes ?s)) ?s = p" by (metis append_eq_conv_conj diff_add_inverse2 length_append)
  with p(2) m show "tight (sh_prefixes m)" by simp
  obtain d where d: "?s2 = d @ after_distinct ?s2" "CHR ''{'' \<notin> set d" using after_distinct_split by blast
  then have "take (length ?s2 - length (after_distinct ?s2)) ?s2 = d" by (metis append_eq_conv_conj diff_add_inverse2 length_append)
  with d(2) m show "CHR ''{'' \<notin> set (sh_distinct m)" by simp
  show "x \<in> set (sh_vars m) \<Longrightarrow> CHR ''{'' \<notin> set x" using take_vars_idents m by simp
  show "CHR ''{'' \<notin> set (sh_tail m)" "CHR ''}'' \<notin> set (sh_tail m)" using group_of_Some(2,3) [OF g] m by simp_all
  show "sh_vars m \<noteq> []" using m v by simp
qed

lemma starts_with_nth: "starts_with p s \<Longrightarrow> i < length p \<Longrightarrow> s ! i = p ! i"
  unfolding starts_with_def by (metis nth_take)

lemma no_where_before:
  assumes t: "t \<noteq> []" "successively (\<lambda>a b. b = CHR ''{'' \<longrightarrow> \<not> is_space a) t"
  shows "\<not> starts_with ''WHERE {'' (t @ ''WHERE {'' @ rest)"
proof
  assume s: "starts_with ''WHERE {'' (t @ ''WHERE {'' @ rest)"
  show False
  proof (cases "7 \<le> length t")
    case True
    have "t ! 5 = CHR '' ''" "t ! 6 = CHR ''{''"
      using starts_with_nth [OF s, of 5] starts_with_nth [OF s, of 6] True by (simp_all add: nth_append)
    with t(2) True show False by (auto simp: successively_conv_nth dest!: spec [of _ 5])
  next
    case False
    let ?k = "length t"
    have "(t @ ''WHERE {'' @ rest) ! ?k = CHR ''W''" by (simp add: nth_append)
    with starts_with_nth [OF s, of ?k] False have w: "''WHERE {'' ! ?k = CHR ''W''" by simp
    from False t(1) have "?k = 1 \<or> ?k = 2 \<or> ?k = 3 \<or> ?k = 4 \<or> ?k = 5 \<or> ?k = 6"
      unfolding length_0_conv [symmetric] by linarith
    with w show False by (elim disjE) simp_all
  qed
qed

lemma tight_tl: "successively P (a # s) \<Longrightarrow> successively P s"
  by (cases s) auto

lemma replace_head:
  "successively (\<lambda>a b. b = CHR ''{'' \<longrightarrow> \<not> is_space a) h \<Longrightarrow> replace_first ''WHERE {'' by (h @ ''WHERE {'' @ rest) = h @ by @ rest"
proof (induction h)
  case Nil
  then show ?case by (simp add: starts_with_def)
next
  case (Cons a h)
  from no_where_before [OF _ Cons.prems] have "\<not> starts_with ''WHERE {'' ((a # h) @ ''WHERE {'' @ rest)" by simp
  with Cons.IH [OF tight_tl [OF Cons.prems]] show ?case by simp
qed

lemma close_last_at: "CHR ''}'' \<notin> set tail \<Longrightarrow> close_last (s @ CHR ''}'' # tail) = s @ ''} }'' @ tail"
proof -
  assume "CHR ''}'' \<notin> set tail"
  then have "\<forall>c \<in> set (rev tail). c \<noteq> CHR ''}''" by auto
  then have "takeWhile (\<lambda>c. c \<noteq> CHR ''}'') (rev (s @ CHR ''}'' # tail)) = rev tail"
    by (simp add: takeWhile_append2 takeWhile_tail)
  then show ?thesis by (simp add: close_last_def)
qed

lemma substring_middle: "starts_with p r \<Longrightarrow> p \<noteq> [] \<Longrightarrow> substring_of p (h @ r)"
  by (induction h) (cases r; auto simp: starts_with_def)+

lemma py_upper_append: "py_upper (a @ b) = py_upper a @ py_upper b"
  by (simp add: py_upper_def)

lemma var_list_no_brace: "(\<And>x. x \<in> set xs \<Longrightarrow> CHR ''{'' \<notin> set x) \<Longrightarrow> CHR ''{'' \<notin> set (var_list xs)"
proof -
  have "CHR ''{'' \<in> set (joined '' '' ys) \<Longrightarrow> \<exists>y \<in> set ys. CHR ''{'' \<in> set y" for ys
    by (induction "'' ''" ys rule: joined.induct) auto
  then show "(\<And>x. x \<in> set xs \<Longrightarrow> CHR ''{'' \<notin> set x) \<Longrightarrow> CHR ''{'' \<notin> set (var_list xs)"
    by (fastforce simp: var_list_def)
qed

definition query_head :: "query_shape \<Rightarrow> string" where
  "query_head m = sh_prefixes m @ ''SELECT '' @ sh_distinct m @ var_list (sh_vars m) @ '' ''"

lemma build_select_parts:
  "shape_of (sl_sparql s) = Some m \<Longrightarrow> build_select v vals s = query_head m @ ''WHERE {'' @
     (values_row (filter (\<lambda>p. asks_var p (sh_body m)) (map fst (dv_params v))) vals @ sh_body m) @ CHR ''}'' # sh_tail m"
  by (simp add: build_select_def query_head_def var_list_def)

lemma query_head_tight:
  assumes "shape_of q = Some m"
  shows "successively (\<lambda>a b. b = CHR ''{'' \<longrightarrow> \<not> is_space a) (query_head m)"
proof -
  note m = shape_of_Some [OF assms]
  have "CHR ''{'' \<notin> set (''SELECT '' @ sh_distinct m @ var_list (sh_vars m) @ '' '')"
    using m(2) var_list_no_brace m(3) by auto
  from tight_append [OF m(1) tight_no_brace [OF this]] show ?thesis by (simp add: query_head_def tight_def)
qed

lemma scope_put:
  assumes "build_selects v params = Inr qs" and "(name, s) \<in> set (dv_selects v)" and "shape_of (sl_sparql s) = Some m"
  shows "\<exists>vals q. (name, q) \<in> set qs \<and> map_r check_value params = Inr vals \<and>
    (skips_scope q \<or>
     scoped_query d ds q = query_head m @ ''WHERE { '' @ graph_scope (scope_domains d ds) @ '' {'' @
       values_row (filter (\<lambda>p. asks_var p (sh_body m)) (map fst (dv_params v))) vals @ sh_body m @ ''} }'' @ sh_tail m)"
proof -
  from assms(1) obtain vals where v: "map_r check_value params = Inr vals"
    "qs = map (\<lambda>s. (fst s, build_select v vals (snd s))) (dv_selects v)" by (rule build_selects_Inr)
  let ?row = "values_row (filter (\<lambda>p. asks_var p (sh_body m)) (map fst (dv_params v))) vals"
  let ?by = "''WHERE { '' @ graph_scope (scope_domains d ds) @ '' {''"
  let ?q = "build_select v vals s"
  have q: "?q = query_head m @ ''WHERE {'' @ (?row @ sh_body m) @ CHR ''}'' # sh_tail m" by (rule build_select_parts [OF assms(3)])
  have at_where: "substring_of ''WHERE {'' ?q" unfolding q by (rule substring_middle) (simp_all add: starts_with_def)
  have sel: "substring_of ''SELECT'' (py_upper ?q)"
  proof -
    have "py_upper ?q = py_upper (sh_prefixes m) @ ''SELECT'' @ py_upper ('' '' @ sh_distinct m @ var_list (sh_vars m) @ '' '' @ ''WHERE {'' @ (?row @ sh_body m) @ CHR ''}'' # sh_tail m)"
      unfolding q query_head_def py_upper_append by (simp add: py_upper_def code_of_def)
    then show ?thesis by (simp only:) (rule substring_middle, simp_all add: starts_with_def)
  qed
  have "scoped_query d ds ?q = query_head m @ ?by @ ?row @ sh_body m @ ''} }'' @ sh_tail m" if n: "\<not> skips_scope ?q"
  proof -
    have "replace_first ''WHERE {'' ?by ?q = query_head m @ ?by @ (?row @ sh_body m) @ CHR ''}'' # sh_tail m"
      unfolding q by (rule replace_head [OF query_head_tight [OF assms(3)]])
    then have "replace_first ''WHERE {'' ?by ?q = (query_head m @ ?by @ ?row @ sh_body m) @ CHR ''}'' # sh_tail m" by simp
    then have "close_last (replace_first ''WHERE {'' ?by ?q) = (query_head m @ ?by @ ?row @ sh_body m) @ ''} }'' @ sh_tail m"
      by (simp only: close_last_at [OF shape_of_Some(5) [OF assms(3)]])
    moreover have "scoped_query d ds ?q = close_last (replace_first ''WHERE {'' ?by ?q)"
      using n at_where sel by (simp add: scoped_query_def Let_def)
    ultimately show ?thesis by (simp only: append.assoc)
  qed
  moreover have "(name, ?q) \<in> set qs" using v(2) assms(2) by force
  ultimately show ?thesis using v(1) by (metis append.assoc)
qed

subsection \<open>What a declaration promises\<close>

definition select_ok :: "declared_select \<Rightarrow> bool" where
  "select_ok s \<longleftrightarrow> (\<exists>m. shape_of (sl_sparql s) = Some m \<and> \<not> names_dataset (sh_body m @ sh_tail m) \<and> distinct (sh_vars m) \<and>
     set (sl_ints s) \<subseteq> set (sh_vars m) \<and> (sl_card s = ValueList \<longrightarrow> length (sh_vars m) = 1))"

lemma read_select_ok: "read_select d = Inr s \<Longrightarrow> select_ok s"
  by (auto simp: read_select_def check_select_def select_ok_def Let_def bind_r_Inr split: option.splits)

lemma map_r_Inr_all: "map_r f xs = Inr ys \<Longrightarrow> (\<And>x y. x \<in> set xs \<Longrightarrow> f x = Inr y \<Longrightarrow> P y) \<Longrightarrow> y \<in> set ys \<Longrightarrow> P y"
  by (induction xs arbitrary: ys) (auto simp: bind_r_Inr, blast+)

lemma read_selects_ok: "read_selects d = Inr ss \<Longrightarrow> (n, s) \<in> set ss \<Longrightarrow> select_ok s"
proof -
  assume r: "read_selects d = Inr ss" and s: "(n, s) \<in> set ss"
  from r obtain e where e: "map_r (\<lambda>p. case snd p of PDict x \<Rightarrow> bind_r (read_select x) (\<lambda>s. Inr (fst p, s)) | _ \<Rightarrow> Inl (BadField (fst p))) e = Inr ss"
    by (auto simp: read_selects_def bind_r_Inr split: pyval.splits)
  have "select_ok (snd (n, s))"
    by (rule map_r_Inr_all [OF e _ s]) (auto simp: bind_r_Inr split: pyval.splits intro: read_select_ok)
  then show ?thesis by simp
qed

definition verb_ok :: "declared_verb \<Rightarrow> bool" where
  "verb_ok v \<longleftrightarrow> dv_verb v \<noteq> [] \<and> dv_capability v \<noteq> [] \<and> is_domain (dv_domain v) \<and>
     (\<forall>(n, s) \<in> set (dv_selects v). select_ok s \<and> n \<noteq> ''params'' \<and> set (projected s) \<inter> fst ` set (dv_params v) = {}) \<and>
     (\<forall>p \<in> fst ` set (dv_params v). \<exists>(n, s) \<in> set (dv_selects v). asks_var p (sl_sparql s))"

lemma read_query_verb_ok: "read_query_verb d = Inr v \<Longrightarrow> verb_ok v"
  unfolding read_query_verb_def Let_def
  by (auto simp: bind_r_Inr check_wiring_def verb_ok_def list_all_iff list_ex_iff req_nonempty_def dest: read_selects_ok) force+

subsection \<open>Braces\<close>

text \<open>How deep in groups a text ends, from a depth and in or out of a double-quoted string; \<open>None\<close> when
  it closes a group it did not open, or ends within a string. Strings are skipped, escapes included.\<close>

fun brace_depth :: "nat \<Rightarrow> bool \<Rightarrow> string \<Rightarrow> nat option" where
  "brace_depth n quoted [] = (if quoted then None else Some n)"
| "brace_depth n True (c # cs) = (if c = CHR 34 then brace_depth n False cs
     else if c = CHR 92 then (case cs of [] \<Rightarrow> None | _ # ds \<Rightarrow> brace_depth n True ds) else brace_depth n True cs)"
| "brace_depth n False (c # cs) = (if c = CHR 34 then brace_depth n True cs
     else if c = CHR ''{'' then brace_depth (Suc n) False cs
     else if c = CHR ''}'' then (if n = 0 then None else brace_depth (n - 1) False cs)
     else brace_depth n False cs)"

definition one_group :: "string \<Rightarrow> bool" where
  "one_group s \<longleftrightarrow> brace_depth 0 False s = Some 0"

lemma brace_depth_append: "brace_depth n b x = Some k \<Longrightarrow> brace_depth n b (x @ y) = brace_depth k False y"
  by (induction n b x rule: brace_depth.induct) (auto split: if_splits list.splits)

lemma brace_depth_plain:
  "CHR 34 \<notin> set x \<Longrightarrow> CHR ''{'' \<notin> set x \<Longrightarrow> CHR ''}'' \<notin> set x \<Longrightarrow> brace_depth n False x = Some n"
  by (induction x) auto

lemma brace_depth_escaped: "brace_depth n True (concat (map escape_char v) @ CHR 34 # cs) = brace_depth n False cs"
  by (induction v) (auto simp: escape_char_def)

lemma brace_depth_literal: "brace_depth n False (sparql_literal v) = Some n"
  by (simp add: sparql_literal_def brace_depth_escaped)

lemma brace_depth_joined:
  "(\<And>x. x \<in> set xs \<Longrightarrow> brace_depth n False x = Some n) \<Longrightarrow> brace_depth n False (joined '' '' xs) = Some n"
proof (induction "'' ''" xs rule: joined.induct)
  case (3 s t ss)
  from 3(2) have "brace_depth n False s = Some n" by simp
  with 3 show ?case by (simp add: brace_depth_append)
qed simp_all

lemma ident_plain: "is_ident p \<Longrightarrow> CHR 34 \<notin> set p \<and> CHR ''{'' \<notin> set p \<and> CHR ''}'' \<notin> set p"
  by (auto simp: is_ident_def is_lower_def is_upper_def is_digit_def code_of_def list_all_iff split: list.splits)

lemma values_row_one_group:
  assumes "\<forall>p \<in> set used. is_ident p"
  shows "one_group (values_row used vals)"
proof (cases "used = []")
  case False
  let ?names = "joined '' '' (map (\<lambda>p. CHR ''?'' # p) used)"
  let ?lits = "joined '' '' (map (\<lambda>p. sparql_literal (case map_of vals p of Some v \<Rightarrow> v | None \<Rightarrow> [])) used)"
  have names: "brace_depth 0 False ?names = Some 0"
  proof (rule brace_depth_joined)
    fix x assume "x \<in> set (map (\<lambda>p. CHR ''?'' # p) used)"
    then obtain p where "x = CHR ''?'' # p" "is_ident p" using assms by auto
    with ident_plain [of p] show "brace_depth 0 False x = Some 0" by (intro brace_depth_plain) auto
  qed
  have lits: "brace_depth 1 False ?lits = Some 1"
    by (rule brace_depth_joined) (auto simp: brace_depth_literal)
  have "brace_depth 0 False ('' VALUES ('' @ ?names @ '') { ('' @ ?lits @ '') }'') = Some 0"
    by (simp add: brace_depth_append [OF names] brace_depth_append [OF lits, unfolded One_nat_def])
  with False show ?thesis by (simp add: one_group_def values_row_def)
qed (simp add: one_group_def values_row_def)

lemma one_group_append: "one_group x \<Longrightarrow> one_group y \<Longrightarrow> one_group (x @ y)"
  by (simp add: one_group_def brace_depth_append)

lemma read_params_ident: "read_params d = Inr ps \<Longrightarrow> p \<in> fst ` set ps \<Longrightarrow> is_ident p"
  by (auto simp: read_params_def bind_r_Inr list_all_iff split: if_splits pyval.splits)

lemma read_query_verb_ident: "read_query_verb d = Inr v \<Longrightarrow> p \<in> fst ` set (dv_params v) \<Longrightarrow> is_ident p"
proof -
  assume v: "read_query_verb d = Inr v" and p: "p \<in> fst ` set (dv_params v)"
  from v have "read_params d = Inr (dv_params v)" unfolding read_query_verb_def Let_def by (auto simp: bind_r_Inr)
  from read_params_ident [OF this p] show "is_ident p" .
qed

text \<open>The values of a request, each under its own parameter.\<close>

definition given :: "pydict \<Rightarrow> (string \<times> string) list" where
  "given params = map (\<lambda>p. (fst p, str_or_nil (snd p))) params"

lemma checked_given: "map_r check_value params = Inr vals \<Longrightarrow> vals = given params"
  by (induction params arbitrary: vals)
    (auto simp: bind_r_Inr check_value_def given_def str_or_nil_def split: pyval.splits if_splits)

text \<open>
  C23. Where the scope is put, it is put around the whole body. Each select of a built request of a
  declared verb is either sent as it is, because the text of the declaration spells a GRAPH clause
  (no value can), or sent as declared with the body inside the domain's scope group, which opens
  after WHERE and closes at the end of the body, before the modifiers, where no brace is left; the
  body starts with the parameters it asks for, each bound to the very text the request gave it. And
  when the declared body is one group, its braces nesting as a reader counts them who skips
  double-quoted strings, then so is what stands inside the scope group, whatever the values hold, so
  the two braces that close the scope match the two that open it. A declaration with a second group
  is not refused by the loader, as its rule says it is: there the scope closes over the wrong text.
\<close>

theorem the_scope_closes_over_the_body:
  assumes "read_query_verb doc = Inr v" and "build_selects v params = Inr qs" and "(name, s) \<in> set (dv_selects v)"
  shows "\<exists>m q body. shape_of (sl_sparql s) = Some m \<and> (name, q) \<in> set qs \<and>
    body = values_row (filter (\<lambda>p. asks_var p (sh_body m)) (map fst (dv_params v))) (given params) @ sh_body m \<and>
    CHR ''{'' \<notin> set (sh_tail m) \<and> CHR ''}'' \<notin> set (sh_tail m) \<and>
    (skips_scope q \<or>
     scoped_query d ds q = query_head m @ ''WHERE { '' @ graph_scope (scope_domains d ds) @ '' {'' @ body @ ''} }'' @ sh_tail m) \<and>
    (one_group (sh_body m) \<longrightarrow> one_group body)"
proof -
  from read_query_verb_ok [OF assms(1)] assms(3) have "select_ok s" by (auto simp: verb_ok_def)
  then obtain m where m: "shape_of (sl_sparql s) = Some m" by (auto simp: select_ok_def)
  let ?row = "values_row (filter (\<lambda>p. asks_var p (sh_body m)) (map fst (dv_params v))) (given params)"
  from scope_put [OF assms(2,3) m, of d ds] obtain vals q where q: "(name, q) \<in> set qs" "map_r check_value params = Inr vals"
    "skips_scope q \<or> scoped_query d ds q = query_head m @ ''WHERE { '' @ graph_scope (scope_domains d ds) @ '' {'' @
       values_row (filter (\<lambda>p. asks_var p (sh_body m)) (map fst (dv_params v))) vals @ sh_body m @ ''} }'' @ sh_tail m"
    by blast
  have "one_group ?row"
    by (rule values_row_one_group) (use read_query_verb_ident [OF assms(1)] in auto)
  then have "one_group (sh_body m) \<longrightarrow> one_group (?row @ sh_body m)" by (blast intro: one_group_append)
  moreover have "skips_scope q \<or> scoped_query d ds q = query_head m @ ''WHERE { '' @ graph_scope (scope_domains d ds) @ '' {'' @
       (?row @ sh_body m) @ ''} }'' @ sh_tail m"
    using q(3) by (simp only: checked_given [OF q(2)] append.assoc)
  ultimately show ?thesis using m q(1) shape_of_Some(4,5) [OF m] by blast
qed

definition registered :: "(string \<times> declared_verb) list \<Rightarrow> bool" where
  "registered qs \<longleftrightarrow> distinct (map fst qs) \<and> (\<forall>(k, v) \<in> set qs. k = dv_verb v \<and> verb_ok v)"

lemma registered_snoc:
  "registered out \<Longrightarrow> verb_ok v \<Longrightarrow> dv_verb v \<notin> fst ` set out \<Longrightarrow> registered (out @ [(dv_verb v, v)])"
  by (auto simp: registered_def)

lemma query_verbs_registered: "query_verbs fs out = Inr qs \<Longrightarrow> registered out \<Longrightarrow> registered qs"
proof (induction fs arbitrary: out)
  case (Cons f fs)
  then show ?case
    by (auto simp: bind_r_Inr split: yaml_file.splits pyval.splits if_splits intro: registered_snoc read_query_verb_ok)
qed simp

text \<open>
  A registry of declared queries that loads holds each verb once, under its own name, and every
  select of it has the shape the scope can be put around: one WHERE group, no dataset of its own in its body,
  a projection without repetition that covers what is declared an integer and no parameter, each
  parameter read by some select.
\<close>

theorem loaded_queries_are_sound:
  assumes "load_query_verbs fs = Inr qs"
  shows "distinct (map fst qs) \<and> (\<forall>(k, v) \<in> set qs. k = dv_verb v \<and> verb_ok v)"
proof -
  from assms have "query_verbs fs [] = Inr qs" by (auto simp: load_query_verbs_def bind_r_Inr split: option.splits)
  from query_verbs_registered [OF this] show ?thesis by (simp add: registered_def)
qed

text \<open>A row in its shape: the projected variables, in order, and the integers read.\<close>

definition row_shaped :: "declared_select \<Rightarrow> pydict \<Rightarrow> pydict \<Rightarrow> bool" where
  "row_shaped s row r \<longleftrightarrow> map fst r = projected s \<and> (\<forall>v \<in> set (projected s).
     if dget row v \<noteq> PNone \<and> v \<in> set (sl_ints s) then \<exists>n. int_of_value (dget row v) = Some n \<and> dget r v = PInt n
     else dget r v = dget row v)"

lemma shape_row: "map_r (shape_cell name s row) (projected s) = Inr r \<Longrightarrow> row_shaped s row r"
proof -
  have "map_r (shape_cell name s row) vs = Inr r \<Longrightarrow> map fst r = vs \<and> (\<forall>v \<in> set vs.
     if dget row v \<noteq> PNone \<and> v \<in> set (sl_ints s) then \<exists>n. int_of_value (dget row v) = Some n \<and> dget r v = PInt n
     else dget r v = dget row v)" for vs r
  proof (induction vs arbitrary: r)
    case (Cons a vs)
    then obtain c r' where c: "shape_cell name s row a = Inr c" and r: "map_r (shape_cell name s row) vs = Inr r'" "r = c # r'"
      by (auto simp: bind_r_Inr)
    from c have "fst c = a" "if dget row a \<noteq> PNone \<and> a \<in> set (sl_ints s) then \<exists>n. int_of_value (dget row a) = Some n \<and> snd c = PInt n
        else snd c = dget row a"
      by (auto simp: shape_cell_def Let_def split: if_splits option.splits)
    with Cons.IH [OF r(1)] r(2) show ?case by (cases c) (auto simp: dget_def)
  qed simp
  then show "map_r (shape_cell name s row) (projected s) = Inr r \<Longrightarrow> row_shaped s row r" unfolding row_shaped_def by blast
qed

lemma map_r_all2: "map_r f xs = Inr ys \<Longrightarrow> list_all2 (\<lambda>x y. f x = Inr y) xs ys"
  by (induction xs arbitrary: ys) (auto simp: bind_r_Inr)

text \<open>C0. The rows of an answer keep their declared shape. A list has one entry per row, in the store's
  order, each with exactly the projected variables as keys; a list of values takes the one variable
  of each row and has no unbound one; a single answer comes from one row, and from no row is null.
  What is declared an integer is the integer its text denotes.\<close>

theorem rows_keep_their_declared_shape:
  assumes "shape_rows name s rows = Inr a"
  shows "case sl_card s of
      ManyRows \<Rightarrow> \<exists>rs. a = PList (map PDict rs) \<and> list_all2 (row_shaped s) rows rs
    | ValueList \<Rightarrow> \<exists>vs. a = PList vs \<and> PNone \<notin> set vs \<and>
        list_all2 (\<lambda>row v. \<exists>r. row_shaped s row r \<and> v = dget r (hd (projected s))) rows vs
    | OneRow \<Rightarrow> (case rows of [] \<Rightarrow> a = PNone | row # more' \<Rightarrow> more' = [] \<and> (\<exists>r. a = PDict r \<and> row_shaped s row r))"
proof -
  from assms obtain rs where rs: "map_r (\<lambda>row. map_r (shape_cell name s row) (projected s)) rows = Inr rs"
    and a: "(case sl_card s of ManyRows \<Rightarrow> Inr (PList (map PDict rs))
      | ValueList \<Rightarrow> (let var = hd (projected s) in if list_ex (\<lambda>r. dget r var = PNone) rs then Inl (UnboundValue name)
          else Inr (PList (map (\<lambda>r. dget r var) rs)))
      | OneRow \<Rightarrow> if 1 < length rs then Inl (TooManyRows name (length rs))
          else Inr (case rs of [] \<Rightarrow> PNone | r # _ \<Rightarrow> PDict r)) = (Inr a :: query_error + pyval)"
    by (auto simp: shape_rows_def bind_r_Inr)
  have all: "list_all2 (row_shaped s) rows rs"
    by (rule list_all2_mono [OF map_r_all2 [OF rs]]) (rule shape_row)
  show ?thesis
  proof (cases "sl_card s")
    case OneRow
    from all have "length rows = length rs" by (rule list_all2_lengthD)
    with all a OneRow show ?thesis by (cases rows; cases rs) (auto split: if_splits)
  next
    case ManyRows
    with a all show ?thesis by auto
  next
    case ValueList
    with a have "a = PList (map (\<lambda>r. dget r (hd (projected s))) rs)" "\<forall>r \<in> set rs. dget r (hd (projected s)) \<noteq> PNone"
      by (auto simp: Let_def list_ex_iff split: if_splits)
    moreover have "list_all2 (\<lambda>row v. \<exists>r. row_shaped s row r \<and> v = dget r (hd (projected s))) rows (map (\<lambda>r. dget r (hd (projected s))) rs)"
      using all by (auto simp: list_all2_map2 elim: list_all2_mono)
    ultimately show ?thesis using ValueList by fastforce
  qed
qed

subsection \<open>Declarations by example\<close>

definition select_doc :: "string \<Rightarrow> string \<Rightarrow> pyval" where
  "select_doc shape q = PDict [(''sparql'', PStr q), (''cardinality'', PStr shape)]"

definition verb_doc :: "pydict \<Rightarrow> pydict \<Rightarrow> pydict" where
  "verb_doc params selects = [(''verb'', PStr ''walk''), (''capability'', PStr ''mesh:walk''), (''domain'', PStr ''MAINTENANCE''),
     (''params'', PDict params), (''selects'', PDict selects), (''returns'', PStr ''{names}'')]"

definition walk_doc :: pydict where
  "walk_doc = verb_doc [(''code'', PStr ''{trigger.code}'')] [(''names'', select_doc ''many''
     ''PREFIX m: <http://x/m#> SELECT DISTINCT ?name WHERE { ?f m:code ?code ; m:name ?name . } ORDER BY ?name'')]"

definition walk_verb :: declared_verb where
  "walk_verb = projr (read_query_verb walk_doc)"

lemma walk_reads: "read_query_verb walk_doc = Inr walk_verb" by code_simp

theorem loaded_queries_are_sound_witness:
  "load_query_verbs [Document (PDict walk_doc)] = Inr [(''walk'', walk_verb)] \<and> verb_ok walk_verb"
proof -
  have l: "load_query_verbs [Document (PDict walk_doc)] = Inr [(''walk'', walk_verb)]" by code_simp
  from loaded_queries_are_sound [OF l] l show ?thesis by simp
qed

definition quoting_value :: string where
  "quoting_value = CHR 34 # '' } GRAPH''"

theorem no_value_lifts_the_scope_witness:
  "\<exists>qs qs'. build_selects walk_verb [(''code'', PStr ''E1'')] = Inr qs \<and> build_selects walk_verb [(''code'', PStr quoting_value)] = Inr qs' \<and>
     map (\<lambda>q. skips_scope (snd q)) qs = map (\<lambda>q. skips_scope (snd q)) qs'"
proof -
  have "ok (build_selects walk_verb [(''code'', PStr ''E1'')])" "ok (build_selects walk_verb [(''code'', PStr quoting_value)])" by code_simp+
  then obtain qs qs' where b: "build_selects walk_verb [(''code'', PStr ''E1'')] = Inr qs" "build_selects walk_verb [(''code'', PStr quoting_value)] = Inr qs'"
    by (auto simp: ok_iff)
  from arg_cong [OF no_value_lifts_the_scope [OF b], of "map snd"] b show ?thesis by (simp add: comp_def)
qed

theorem the_scope_closes_over_the_body_witness:
  "\<exists>qs name s m q body. build_selects walk_verb [(''code'', PStr quoting_value)] = Inr qs \<and> (name, q) \<in> set qs \<and> (name, s) \<in> set (dv_selects walk_verb) \<and>
     shape_of (sl_sparql s) = Some m \<and> one_group body \<and>
     scoped_query ''MAINTENANCE'' [] q = query_head m @ ''WHERE { '' @ graph_scope (scope_domains ''MAINTENANCE'' []) @ '' {'' @ body @ ''} }'' @ sh_tail m"
proof -
  let ?s = "snd (hd (dv_selects walk_verb))"
  have one: "case dv_selects walk_verb of [(n, s)] \<Rightarrow> n = ''names'' | _ \<Rightarrow> False" by code_simp
  then have s: "(''names'', ?s) \<in> set (dv_selects walk_verb)" by (auto split: list.splits)
  have "case shape_of (sl_sparql ?s) of Some m \<Rightarrow> one_group (sh_body m) | None \<Rightarrow> False" by code_simp
  then have m: "shape_of (sl_sparql ?s) = Some m \<Longrightarrow> one_group (sh_body m)" for m by simp
  have "case build_selects walk_verb [(''code'', PStr quoting_value)] of Inr qs \<Rightarrow> list_all (\<lambda>q. \<not> skips_scope (snd q)) qs | Inl _ \<Rightarrow> False"
    by code_simp
  then obtain qs where b: "build_selects walk_verb [(''code'', PStr quoting_value)] = Inr qs" and all: "\<forall>q \<in> set qs. \<not> skips_scope (snd q)"
    by (auto simp: list_all_iff split: sum.splits)
  then have q: "\<not> skips_scope q" if "(n, q) \<in> set qs" for n q using that by force
  from the_scope_closes_over_the_body [OF walk_reads b s, of "''MAINTENANCE''" "[]"] q b s m show ?thesis by metis
qed

definition dated_select :: declared_select where
  "dated_select = \<lparr>sl_sparql = ''SELECT ?n ?d WHERE { ?x m:n ?n }'', sl_card = OneRow, sl_ints = [''n'']\<rparr>"

theorem rows_keep_their_declared_shape_witness:
  "\<exists>r. shape_rows ''d'' dated_select [[(''n'', PStr '' +1_2 '')]] = Inr (PDict r) \<and> row_shaped dated_select [(''n'', PStr '' +1_2 '')] r \<and>
     r = [(''n'', PInt 12), (''d'', PNone)]"
proof -
  have e: "shape_rows ''d'' dated_select [[(''n'', PStr '' +1_2 '')]] = Inr (PDict [(''n'', PInt 12), (''d'', PNone)])" by code_simp
  from rows_keep_their_declared_shape [OF e] e show ?thesis by (simp add: dated_select_def)
qed

text \<open>A projected variable called \<open>graph\<close>, before another, is read by the engine as a GRAPH clause: the
  query of such a declaration runs without the scope.\<close>

lemma graph_variable_lifts_the_scope:
  "case bind_r (map_sum (\<lambda>_. ()) id (read_query_verb (verb_doc [] [(''a'', select_doc ''one'' ''SELECT ?graph ?name WHERE { ?x a ?name }'')])))
     (\<lambda>v. map_sum (\<lambda>_. ()) id (build_selects v [])) of
     Inr [(_, q)] \<Rightarrow> skips_scope q \<and> scoped_query ''MAINTENANCE'' [] q = q | _ \<Rightarrow> False"
  by code_simp

text \<open>A group after the body is taken for its end, so the scope closes over the first group's brace and
  the second group is read outside of it.\<close>

lemma second_group_escapes_the_scope:
  "read_select [(''sparql'', PStr ''SELECT ?x WHERE { ?x a ?t } OPTIONAL { ?x a ?c }''), (''cardinality'', PStr ''one'')] \<noteq> Inl (BadField ''sparql'') \<and>
   scoped_query ''D'' [] ''SELECT ?x WHERE { ?x a ?t } OPTIONAL { ?x a ?c }'' =
     ''SELECT ?x WHERE { '' @ graph_scope [''D''] @ '' { ?x a ?t } OPTIONAL { ?x a ?c } }''"
  by code_simp

text \<open>A parameter that only the modifiers read passes the loader and is never bound.\<close>

lemma parameter_after_the_body_is_not_bound:
  "case read_query_verb (verb_doc [(''p'', PStr ''{trigger.p}'')] [(''a'', select_doc ''many'' ''SELECT ?x WHERE { ?x a ?t } ORDER BY ?p'')]) of
     Inl _ \<Rightarrow> False
   | Inr v \<Rightarrow> ok (build_selects v [(''p'', PStr ''a'')]) \<and> build_selects v [(''p'', PStr ''a'')] = build_selects v [(''p'', PStr ''b'')]"
  by code_simp

text \<open>C0. An outage is no empty answer: rows come from the triple store if it answered, from the local
  graph only if the store did not and the graph did, and otherwise the read raises; it returns no rows only when
  a store answered with none.\<close>

theorem an_outage_is_no_empty_answer:
  "execute_sparql st d ds q = (let s = scoped_query d ds q in case sa_rows (so_jena st s) of
     Some rows \<Rightarrow> Inr rows
   | None \<Rightarrow> (case sa_rows (so_local st s) of Some rows \<Rightarrow> Inr rows | None \<Rightarrow> Inl SubstrateUnavailable))"
  by (auto simp: execute_sparql_def store_outcome_def rows_or_refuse_def Let_def split: option.split list.split)

end
