(* ===== verification/Slot_Acceptance.thy ===== *)
theory Slot_Acceptance
  imports Run_Context "HOL-Library.Multiset"
begin

text \<open>
  \<^verbatim>\<open>iagent_pure/slot_acceptance.py\<close>: which of the values a speaker gave for the slots of a verb may
  reach the verb. The verb's own declarations are the schema; a slot that the route supplies is
  never taken from a speaker, and what is not accepted is a refusal with its reason.

  Declarations and values are JSON. The text in which a declaration list is stored is decoded by
  \<open>json.loads\<close>, an argument here. Types that JSON does not produce (tuples, sets, bytes) are left out.
  A declared type that is not a string matches none of the types the code asks about.
\<close>

subsection \<open>Declarations\<close>

datatype slot_fault = TypeFault | ValueFault

datatype refusal_reason = NoDeclarations | Undeclared | RouteSupplied | NotPermitted | WrongShape | EmptyMandatory

record refusal =
  rf_name :: string
  rf_reason :: refusal_reason
  rf_spoken :: pyval

record acceptance =
  acc_params :: pydict
  acc_refusals :: "refusal list"
  acc_bound :: "(string \<times> pyval \<times> string) list"
  acc_unsourced :: "string list"

definition decode_declarations :: "(string \<Rightarrow> pyval option) \<Rightarrow> pyval \<Rightarrow> pydict list" where
  "decode_declarations loads raw =
     (case (case raw of
              PStr s \<Rightarrow> if s = [] then PNone else (case loads s of Some v \<Rightarrow> v | None \<Rightarrow> PNone)
            | _ \<Rightarrow> raw) of
        PList ds \<Rightarrow> map dict_or_nil (filter (\<lambda>d. is_dict d \<and> truthy (dget (dict_or_nil d) ''name'')) ds)
      | _ \<Rightarrow> [])"

definition is_spoken_mandatory :: "pydict \<Rightarrow> bool" where
  "is_spoken_mandatory d \<longleftrightarrow> dget d ''kind'' = PStr ''spoken-mandatory''"

definition is_empty_value :: "pyval \<Rightarrow> bool" where
  "is_empty_value v = (case v of PNone \<Rightarrow> True | PStr s \<Rightarrow> py_strip s = [] | PList xs \<Rightarrow> xs = []
     | PDict d \<Rightarrow> d = [] | _ \<Rightarrow> False)"

text \<open>\<open>{d["name"]: d for d in declared}\<close>: the last of two of the same name, and a list for a name raises.\<close>

definition by_name :: "pydict list \<Rightarrow> slot_fault + (pyval \<times> pydict) list" where
  "by_name ds = (if list_all (\<lambda>d. scalar (dget d ''name'')) ds
     then Inr (rev (map (\<lambda>d. (dget d ''name'', d)) ds)) else Inl TypeFault)"

subsection \<open>One slot\<close>

definition route_supplied :: "pydict \<Rightarrow> slot_fault + bool" where
  "route_supplied d = (let k = dget d ''kind'' in
     if scalar k then Inr (k = PStr ''handle'' \<or> k = PStr ''ceremony'') else Inl TypeFault)"

definition collection_type :: "pydict \<Rightarrow> bool" where
  "collection_type d = (let t = str_or_nil (dget d ''type'') in
     starts_with ''list['' t \<or> starts_with ''set['' t \<or> starts_with ''tuple['' t)"

definition integer_type :: "pydict \<Rightarrow> bool" where
  "integer_type d = (let t = str_or_nil (dget d ''type'') in t = ''integer'' \<or> t = ''int'')"

text \<open>
  \<open>str.isdigit\<close> holds of the superscripts as well as of the digits; \<open>int\<close> raises on those.
\<close>

definition isdigit_char :: "char \<Rightarrow> bool" where
  "isdigit_char c \<longleftrightarrow> is_digit c \<or> code_of c = 178 \<or> code_of c = 179 \<or> code_of c = 185"

definition parse_integer :: "string \<Rightarrow> slot_fault + int option" where
  "parse_integer s = (let c = py_strip s; neg = starts_with ''-'' c; body = (if neg then tl c else c) in
     if body \<noteq> [] \<and> list_all isdigit_char body
     then (if list_all is_digit body
           then Inr (Some (if neg then - int (Run_Context.index_of body) else int (Run_Context.index_of body)))
           else Inl ValueFault)
     else Inr None)"

text \<open>The pattern \<open>\d{4}-\d{2}-\d{2}\<close>, on the whole text.\<close>

definition iso_date :: "string \<Rightarrow> bool" where
  "iso_date s = (case s of
     [a, b, c, d, e, f, g, h, i, j] \<Rightarrow> e = CHR ''-'' \<and> h = CHR ''-'' \<and> list_all is_digit [a, b, c, d, f, g, i, j]
   | _ \<Rightarrow> False)"

text \<open>\<open>x in c\<close>, with the types for which it raises.\<close>

definition py_contains :: "pyval \<Rightarrow> pyval \<Rightarrow> slot_fault + bool" where
  "py_contains x c = (case c of
     PList xs \<Rightarrow> Inr (py_in x xs)
   | PDict d \<Rightarrow> if scalar x then Inr (py_member x c) else Inl TypeFault
   | PStr s \<Rightarrow> if is_str x then Inr (py_member x c) else Inl TypeFault
   | _ \<Rightarrow> Inl TypeFault)"

definition period_value :: "pydict \<Rightarrow> string \<Rightarrow> slot_fault + refusal_reason + pyval" where
  "period_value d s = (let ends = dget d ''period_end'';
       plain = (if iso_date s then Inr (PStr s) else Inl NotPermitted) in
     if truthy ends
     then bind_r (py_contains (PStr s) ends) (\<lambda>known.
       if known then (case ends of PDict e \<Rightarrow> Inr (Inr (dget e s)) | _ \<Rightarrow> Inl TypeFault) else Inr plain)
     else Inr plain)"

definition offered_values :: "pyval \<Rightarrow> pyval list" where
  "offered_values v = (case v of PList xs \<Rightarrow> xs | _ \<Rightarrow> [v])"

definition permitted :: "pydict \<Rightarrow> pyval \<Rightarrow> slot_fault + bool" where
  "permitted d v = (let vs = dget d ''values'' in
     if truthy vs then bind_r (map_r (\<lambda>x. py_contains x vs) (offered_values v)) (\<lambda>bs. Inr (list_all id bs))
     else Inr True)"

definition check_slot :: "pydict \<Rightarrow> pyval \<Rightarrow> slot_fault + refusal_reason + pyval" where
  "check_slot d v = bind_r (route_supplied d) (\<lambda>rs.
     if rs then Inr (Inl RouteSupplied)
     else if collection_type d \<and> is_str v then Inr (Inl WrongShape)
     else if integer_type d \<and> is_str v then bind_r (parse_integer (str_or_nil v)) (\<lambda>n.
       Inr (case n of Some i \<Rightarrow> Inr (PInt i) | None \<Rightarrow> Inl WrongShape))
     else if dget d ''period'' = PStr ''date'' \<and> is_str v then period_value d (str_or_nil v)
     else bind_r (permitted d v) (\<lambda>p. Inr (
       if \<not> p then Inl NotPermitted
       else if is_spoken_mandatory d \<and> is_empty_value v then Inl EmptyMandatory
       else Inr v)))"

subsection \<open>All of them\<close>

definition settle_slot :: "(pyval \<times> pydict) list \<Rightarrow> string \<times> pyval \<Rightarrow> slot_fault + refusal_reason + pyval" where
  "settle_slot index p = (case map_of index (PStr (fst p)) of None \<Rightarrow> Inr (Inl Undeclared) | Some d \<Rightarrow> check_slot d (snd p))"

definition refuse :: "string \<times> pyval \<Rightarrow> refusal_reason \<Rightarrow> refusal" where
  "refuse p reason = \<lparr>rf_name = fst p, rf_reason = reason, rf_spoken = snd p\<rparr>"

fun accept_each :: "(pyval \<times> pydict) list \<Rightarrow> pydict \<Rightarrow> slot_fault + pydict \<times> refusal list" where
  "accept_each index [] = Inr ([], [])"
| "accept_each index (p # ps) = bind_r (settle_slot index p) (\<lambda>r. bind_r (accept_each index ps) (\<lambda>rest. Inr (case r of
     Inr v \<Rightarrow> ((fst p, v) # fst rest, snd rest)
   | Inl reason \<Rightarrow> (fst rest, refuse p reason # snd rest))))"

definition source_of :: "(string \<times> string) list \<Rightarrow> string \<Rightarrow> string" where
  "source_of sources k = (case map_of sources k of Some s \<Rightarrow> s | None \<Rightarrow> [])"

definition with_sources :: "(string \<times> string) list \<Rightarrow> pydict \<Rightarrow> refusal list \<Rightarrow> acceptance" where
  "with_sources sources params refusals = \<lparr>acc_params = params, acc_refusals = refusals,
     acc_bound = map (\<lambda>p. (fst p, snd p, source_of sources (fst p))) (filter (\<lambda>p. source_of sources (fst p) \<noteq> []) params),
     acc_unsourced = map fst (filter (\<lambda>p. source_of sources (fst p) = []) params)\<rparr>"

definition accept_slots ::
  "(string \<Rightarrow> pyval option) \<Rightarrow> pydict \<Rightarrow> pyval \<Rightarrow> (string \<times> string) list \<Rightarrow> slot_fault + acceptance" where
  "accept_slots loads spoken raw sources = (let declared = decode_declarations loads raw in
     if spoken = [] then Inr (with_sources [] [] [])
     else if declared = [] then Inr (with_sources [] []
       (map (\<lambda>p. refuse p NoDeclarations) (sort_key fst spoken)))
     else bind_r (by_name declared) (\<lambda>index.
       bind_r (accept_each index (sort_key fst spoken)) (\<lambda>r. Inr (with_sources sources (fst r) (snd r)))))"

subsection \<open>What is accepted\<close>

definition in_vocabulary :: "pydict \<Rightarrow> pyval \<Rightarrow> bool" where
  "in_vocabulary d v \<longleftrightarrow> (truthy (dget d ''values'') \<longrightarrow>
     (\<forall>x \<in> set (offered_values v). py_contains x (dget d ''values'') = Inr True))"

text \<open>
  What a declaration promises of the value \<open>v\<close> a verb receives when \<open>w\<close> was spoken.
\<close>

definition slot_contract :: "pydict \<Rightarrow> pyval \<Rightarrow> pyval \<Rightarrow> bool" where
  "slot_contract d w v \<longleftrightarrow> dget d ''kind'' \<notin> {PStr ''handle'', PStr ''ceremony''} \<and>
     (collection_type d \<or> integer_type d \<longrightarrow> \<not> is_str v) \<and>
     (case w of PStr s \<Rightarrow>
        if integer_type d then \<exists>i. parse_integer s = Inr (Some i) \<and> v = PInt i
        else if dget d ''period'' = PStr ''date'' then v = w \<and> iso_date s \<or>
          py_contains w (dget d ''period_end'') = Inr True \<and> v = dget (dict_or_nil (dget d ''period_end'')) s
        else v = w \<and> in_vocabulary d v \<and> (is_spoken_mandatory d \<longrightarrow> \<not> is_empty_value v)
      | _ \<Rightarrow> v = w \<and> in_vocabulary d v \<and> (is_spoken_mandatory d \<longrightarrow> \<not> is_empty_value v))"

lemma by_name_found: "by_name ds = Inr index \<Longrightarrow> map_of index k = Some d \<Longrightarrow> d \<in> set ds \<and> dget d ''name'' = k"
  by (auto simp: by_name_def split: if_splits dest!: map_of_SomeD)

lemma route_supplied_False: "route_supplied d = Inr False \<longleftrightarrow>
    scalar (dget d ''kind'') \<and> dget d ''kind'' \<notin> {PStr ''handle'', PStr ''ceremony''}"
  by (auto simp: route_supplied_def Let_def)

lemma permitted_True: "permitted d v = Inr True \<Longrightarrow> in_vocabulary d v"
proof (unfold in_vocabulary_def, intro impI ballI)
  fix x
  assume p: "permitted d v = Inr True" and t: "truthy (dget d ''values'')" and x: "x \<in> set (offered_values v)"
  from p t obtain bs where bs: "map_r (\<lambda>x. py_contains x (dget d ''values'')) (offered_values v) = Inr bs" "list_all id bs"
    unfolding permitted_def Let_def by (simp only: if_True bind_r_Inr) blast
  from map_r_Inr_set [OF bs(1) x] bs(2) show "py_contains x (dget d ''values'') = Inr True"
    by (auto simp: list_all_iff)
qed

lemma period_value_Inr: "period_value d s = Inr (Inr v) \<Longrightarrow> v = PStr s \<and> iso_date s \<or>
    py_contains (PStr s) (dget d ''period_end'') = Inr True \<and> v = dget (dict_or_nil (dget d ''period_end'')) s"
  unfolding period_value_def Let_def dict_or_nil_def
  by (cases "dget d ''period_end''"; cases "py_contains (PStr s) (dget d ''period_end'')")
    (simp_all split: if_splits)

lemma checked_slot_fits:
  assumes "check_slot d w = Inr (Inr v)"
  shows "slot_contract d w v"
proof (cases "is_str w")
  case False
  with assms show ?thesis
    by (cases w) (auto simp: check_slot_def slot_contract_def bind_r_Inr route_supplied_False is_str_def
      dest: permitted_True split: if_splits)
next
  case True
  then obtain s where w: "w = PStr s" by (auto simp: is_str_iff)
  from assms w have r: "route_supplied d = Inr False" and c: "\<not> collection_type d"
    by (auto simp: check_slot_def bind_r_Inr is_str_def split: if_splits)
  show ?thesis
  proof (cases "integer_type d")
    case True
    with assms w r c show ?thesis
      by (auto simp: check_slot_def slot_contract_def bind_r_Inr route_supplied_False is_str_def str_or_nil_def
        split: option.splits)
  next
    case False
    note int = this
    show ?thesis
    proof (cases "dget d ''period'' = PStr ''date''")
      case True
      with assms w r c int period_value_Inr [of d s v] show ?thesis
        by (simp add: check_slot_def slot_contract_def route_supplied_False is_str_def str_or_nil_def)
    next
      case False
      with assms w r c int permitted_True [of d "PStr s"] show ?thesis
        by (auto simp: check_slot_def slot_contract_def bind_r_Inr route_supplied_False is_str_def split: if_splits)
    qed
  qed
qed

lemma accept_each_ConsE:
  assumes "accept_each index (p # ps) = Inr (params, refusals)"
  obtains v params' where "settle_slot index p = Inr (Inr v)" "accept_each index ps = Inr (params', refusals)"
      "params = (fst p, v) # params'"
  | reason refusals' where "settle_slot index p = Inr (Inl reason)" "accept_each index ps = Inr (params, refusals')"
      "refusals = refuse p reason # refusals'"
proof -
  from assms obtain r rest where r: "settle_slot index p = Inr r" and rest: "accept_each index ps = Inr rest"
    and out: "(case r of Inr v \<Rightarrow> ((fst p, v) # fst rest, snd rest)
      | Inl reason \<Rightarrow> (fst rest, refuse p reason # snd rest)) = (params, refusals)"
    by (auto simp: bind_r_Inr)
  with that show ?thesis by (cases r; cases rest) auto
qed

lemma accept_each_params:
  "accept_each index ps = Inr (params, refusals) \<Longrightarrow> (k, v) \<in> set params \<Longrightarrow>
     \<exists>w. (k, w) \<in> set ps \<and> settle_slot index (k, w) = Inr (Inr v)"
proof (induction ps arbitrary: params refusals)
  case Nil
  then show ?case by simp
next
  case (Cons p ps)
  from Cons.prems(1) show ?case
    by (rule accept_each_ConsE) (use Cons.IH Cons.prems(2) in \<open>cases p; fastforce\<close>)+
qed

lemma settle_accepted:
  "settle_slot index (k, w) = Inr (Inr v) \<Longrightarrow> \<exists>d. map_of index (PStr k) = Some d \<and> check_slot d w = Inr (Inr v)"
  by (auto simp: settle_slot_def split: option.splits)

lemma accept_slots_params:
  assumes "accept_slots loads spoken raw sources = Inr a" and "(k, v) \<in> set (acc_params a)"
  obtains index where "by_name (decode_declarations loads raw) = Inr index"
    and "accept_each index (sort_key fst spoken) = Inr (acc_params a, acc_refusals a)"
  using assms by (auto simp: accept_slots_def Let_def with_sources_def bind_r_Inr split: if_splits)

lemma accepted_slot_fits:
  assumes "accept_slots loads spoken raw sources = Inr a" and "(k, v) \<in> set (acc_params a)"
  shows "\<exists>d w. d \<in> set (decode_declarations loads raw) \<and> dget d ''name'' = PStr k \<and>
    (k, w) \<in> set spoken \<and> slot_contract d w v"
proof -
  from assms obtain index where index: "by_name (decode_declarations loads raw) = Inr index"
    and each: "accept_each index (sort_key fst spoken) = Inr (acc_params a, acc_refusals a)"
    by (rule accept_slots_params)
  from accept_each_params [OF each assms(2)] obtain w where w: "(k, w) \<in> set spoken"
    and "settle_slot index (k, w) = Inr (Inr v)" by auto
  with settle_accepted obtain d where d: "map_of index (PStr k) = Some d" and c: "check_slot d w = Inr (Inr v)"
    by blast
  with w by_name_found [OF index d] checked_slot_fits [OF c] show ?thesis by blast
qed

text \<open>
  C24. A value reaches a verb only for a slot the verb declares and a speaker may fill, never for a
  slot the route supplies, and never as a text where a collection or an integer is declared. What
  else is asked of it depends on what was given. A text for an integer slot becomes its integer,
  and a text for a date slot is passed when it has the shape of an ISO date or becomes the declared
  end of the period it names: on these two a declared vocabulary is not consulted. Every other
  value is passed as it was given, with each of its elements in the declared vocabulary when there
  is one, and it is not empty when the slot is mandatory.
\<close>

theorem accepted_values_are_declared:
  assumes "accept_slots loads spoken raw sources = Inr a" and "(k, v) \<in> set (acc_params a)"
  shows "\<exists>d w. d \<in> set (decode_declarations loads raw) \<and> dget d ''name'' = PStr k \<and>
    (k, w) \<in> set spoken \<and> slot_contract d w v"
  using assms by (rule accepted_slot_fits)

text \<open>Every slot is accepted or refused, and once.\<close>

lemma accept_each_names:
  "accept_each index ps = Inr (params, refusals) \<Longrightarrow>
     mset (map fst params) + mset (map rf_name refusals) = mset (map fst ps)"
proof (induction ps arbitrary: params refusals)
  case Nil
  then show ?case by simp
next
  case (Cons p ps)
  from Cons.prems show ?case
    by (rule accept_each_ConsE) (use Cons.IH in \<open>fastforce simp: refuse_def\<close>)+
qed

lemma accept_each_spoken:
  "accept_each index ps = Inr (params, refusals) \<Longrightarrow> r \<in> set refusals \<Longrightarrow> (rf_name r, rf_spoken r) \<in> set ps"
proof (induction ps arbitrary: params refusals)
  case Nil
  then show ?case by simp
next
  case (Cons p ps)
  from Cons.prems(1) show ?case
    by (rule accept_each_ConsE) (use Cons.IH Cons.prems(2) in \<open>cases p; fastforce simp: refuse_def\<close>)+
qed

lemma accept_slots_cases:
  assumes "accept_slots loads spoken raw sources = Inr a"
  obtains "acc_params a = []" "acc_refusals a = map (\<lambda>p. refuse p NoDeclarations) (sort_key fst spoken)"
  | index where "by_name (decode_declarations loads raw) = Inr index"
      "accept_each index (sort_key fst spoken) = Inr (acc_params a, acc_refusals a)"
  using assms by (auto simp: accept_slots_def Let_def with_sources_def bind_r_Inr split: if_splits)

lemma accept_slots_names:
  assumes "accept_slots loads spoken raw sources = Inr a"
  shows "mset (map fst (acc_params a)) + mset (map rf_name (acc_refusals a)) = mset (map fst spoken)"
  using assms
proof (cases rule: accept_slots_cases)
  case 1
  then show ?thesis by (simp add: refuse_def comp_def)
next
  case (2 index)
  from accept_each_names [OF 2(2)] show ?thesis by (simp add: mset_map)
qed

lemma accept_slots_spoken:
  assumes "accept_slots loads spoken raw sources = Inr a" and "r \<in> set (acc_refusals a)"
  shows "(rf_name r, rf_spoken r) \<in> set spoken"
  using assms(1)
proof (cases rule: accept_slots_cases)
  case 1
  with assms(2) show ?thesis by (auto simp: refuse_def)
next
  case (2 index)
  from accept_each_spoken [OF 2(2) assms(2)] show ?thesis by simp
qed

text \<open>
  Nothing a speaker said is lost and nothing is answered twice: the accepted slots and the
  refused slots together are the spoken ones, each once, and a refusal carries the value it refused.
\<close>

theorem every_spoken_slot_is_settled_once:
  assumes "accept_slots loads spoken raw sources = Inr a" and "distinct (map fst spoken)"
  shows "distinct (map fst (acc_params a) @ map rf_name (acc_refusals a)) \<and>
    set (map fst (acc_params a) @ map rf_name (acc_refusals a)) = fst ` set spoken \<and>
    (\<forall>r \<in> set (acc_refusals a). (rf_name r, rf_spoken r) \<in> set spoken)"
proof (intro conjI ballI)
  have m: "mset (map fst (acc_params a) @ map rf_name (acc_refusals a)) = mset (map fst spoken)"
    using accept_slots_names [OF assms(1)] by simp
  from m assms(2) show "distinct (map fst (acc_params a) @ map rf_name (acc_refusals a))"
    by (metis mset_eq_imp_distinct_iff)
  from m show "set (map fst (acc_params a) @ map rf_name (acc_refusals a)) = fst ` set spoken"
    by (metis mset_eq_setD set_map)
qed (rule accept_slots_spoken [OF assms(1)])
subsection \<open>Where a value came from\<close>

lemma accept_slots_sources:
  "accept_slots loads spoken raw sources = Inr a \<Longrightarrow> a = with_sources sources (acc_params a) (acc_refusals a)"
  by (auto simp: accept_slots_def Let_def with_sources_def bind_r_Inr split: if_splits)

lemma source_of_found: "source_of sources k = s \<Longrightarrow> s \<noteq> [] \<Longrightarrow> map_of sources k = Some s"
  by (simp add: source_of_def split: option.splits)

lemma bound_of_accepted:
  assumes "accept_slots loads spoken raw sources = Inr a" and "(k, v, s) \<in> set (acc_bound a)"
  shows "(k, v) \<in> set (acc_params a) \<and> s \<noteq> [] \<and> map_of sources k = Some s"
proof -
  have "acc_bound a = map (\<lambda>p. (fst p, snd p, source_of sources (fst p)))
      (filter (\<lambda>p. source_of sources (fst p) \<noteq> []) (acc_params a))"
    by (subst accept_slots_sources [OF assms(1)], simp add: with_sources_def)
  with assms(2) source_of_found show ?thesis by auto
qed

text \<open>
  The provenance record holds accepted values only, each under the source its caller named and
  never under an invented one; an accepted value whose caller named none is listed as unsourced.
\<close>

theorem provenance_is_never_invented:
  assumes "accept_slots loads spoken raw sources = Inr a"
  shows "(\<forall>k v s. (k, v, s) \<in> set (acc_bound a) \<longrightarrow>
      (k, v) \<in> set (acc_params a) \<and> s \<noteq> [] \<and> map_of sources k = Some s) \<and>
    fst ` set (acc_params a) = fst ` set (acc_bound a) \<union> set (acc_unsourced a) \<and>
    (\<forall>k \<in> set (acc_unsourced a). map_of sources k \<in> {None, Some []})"
proof -
  let ?p = "acc_params a"
  have a: "acc_bound a = map (\<lambda>p. (fst p, snd p, source_of sources (fst p))) (filter (\<lambda>p. source_of sources (fst p) \<noteq> []) ?p)"
    "acc_unsourced a = map fst (filter (\<lambda>p. source_of sources (fst p) = []) ?p)"
    by (subst accept_slots_sources [OF assms], simp add: with_sources_def)+
  have "\<forall>k \<in> set (acc_unsourced a). map_of sources k \<in> {None, Some []}"
    by (auto simp: a source_of_def split: option.splits)
  moreover have "fst ` set ?p = fst ` set (acc_bound a) \<union> set (acc_unsourced a)"
    unfolding a set_map set_filter image_image fst_conv by blast
  ultimately show ?thesis
    using source_of_found by (auto simp: a)
qed

subsection \<open>When it raises\<close>

text \<open>
  Declarations as the registrations write them: names and kinds are not collections, a vocabulary is
  a list and a calendar a dictionary.
\<close>

definition plain_declaration :: "pydict \<Rightarrow> bool" where
  "plain_declaration d \<longleftrightarrow> scalar (dget d ''name'') \<and> scalar (dget d ''kind'') \<and>
     (truthy (dget d ''values'') \<longrightarrow> (case dget d ''values'' of PList _ \<Rightarrow> True | _ \<Rightarrow> False)) \<and>
     (truthy (dget d ''period_end'') \<longrightarrow> is_dict (dget d ''period_end''))"

definition superscript :: "char \<Rightarrow> bool" where
  "superscript c \<longleftrightarrow> isdigit_char c \<and> \<not> is_digit c"

lemma parse_integer_raises: "parse_integer s = Inl e \<Longrightarrow> e = ValueFault \<and> (\<exists>c \<in> set s. superscript c)"
proof -
  assume r: "parse_integer s = Inl e"
  define c where "c = py_strip s"
  define body where "body = (if starts_with ''-'' c then tl c else c)"
  from r have "list_all isdigit_char body" "\<not> list_all is_digit body" "e = ValueFault"
    by (auto simp: parse_integer_def Let_def c_def body_def split: if_splits)
  moreover have "set body \<subseteq> set s"
    using py_strip_set [of s] by (auto simp: body_def c_def dest: list.set_sel(2) split: if_splits)
       (metis list.sel(2) list.set_sel(2) subsetD)
  ultimately show ?thesis by (auto simp: list_all_iff superscript_def)
qed

lemma map_r_total: "(\<And>x. x \<in> set xs \<Longrightarrow> ok (f x)) \<Longrightarrow> ok (map_r f xs)"
  by (induction xs) (fastforce simp: ok_iff)+

lemma permitted_ok: "plain_declaration d \<Longrightarrow> ok (permitted d v)"
proof (cases "truthy (dget d ''values'')")
  case True
  assume "plain_declaration d"
  with True obtain xs where xs: "dget d ''values'' = PList xs"
    by (cases "dget d ''values''") (auto simp: plain_declaration_def)
  have "ok (map_r (\<lambda>x. py_contains x (dget d ''values'')) (offered_values v))"
    by (rule map_r_total) (simp add: xs py_contains_def)
  with True show ?thesis by (auto simp: permitted_def Let_def ok_iff)
qed (simp add: permitted_def Let_def)

lemma period_value_ok: "plain_declaration d \<Longrightarrow> ok (period_value d s)"
  by (cases "dget d ''period_end''")
    (auto simp: plain_declaration_def period_value_def Let_def py_contains_def is_dict_def ok_iff scalar_def)

lemma check_slot_raises:
  assumes d: "plain_declaration d" and r: "check_slot d v = Inl e"
  shows "e = ValueFault \<and> integer_type d \<and> (\<exists>s. v = PStr s \<and> (\<exists>c \<in> set s. superscript c))"
proof -
  from d have "ok (route_supplied d)" by (simp add: route_supplied_def plain_declaration_def Let_def)
  then obtain rs where rs: "route_supplied d = Inr rs" by (auto simp: ok_iff)
  from d have "\<And>e. period_value d (str_or_nil v) \<noteq> Inl e" "\<And>e. permitted d v \<noteq> Inl e"
    using period_value_ok [of d "str_or_nil v"] permitted_ok [of d v] by (auto simp: ok_iff)
  with r rs have "integer_type d" "is_str v" "parse_integer (str_or_nil v) = Inl e"
    by (auto simp: check_slot_def bind_r_Inl split: if_splits)
  with parse_integer_raises show ?thesis by (auto simp: is_str_iff str_or_nil_def)
qed

lemma accept_each_raises:
  "accept_each index ps = Inl e \<Longrightarrow> \<exists>p \<in> set ps. settle_slot index p = Inl e"
  by (induction ps) (auto simp: bind_r_Inl)

text \<open>
  With declarations as they are registered the door refuses and does not raise, unless a text
  given for an integer slot holds a superscript digit.
\<close>

theorem the_door_raises_on_superscripts_only:
  assumes "\<forall>d \<in> set (decode_declarations loads raw). plain_declaration d"
    and "accept_slots loads spoken raw sources = Inl e"
  shows "e = ValueFault \<and> (\<exists>k s. (k, PStr s) \<in> set spoken \<and> (\<exists>c \<in> set s. superscript c))"
proof -
  from assms(1) obtain index where index: "by_name (decode_declarations loads raw) = Inr index"
    by (auto simp: by_name_def plain_declaration_def list_all_iff)
  with assms(2) have "accept_each index (sort_key fst spoken) = Inl e"
    by (auto simp: accept_slots_def Let_def bind_r_Inl split: if_splits)
  then obtain k v where kv: "(k, v) \<in> set spoken" and "settle_slot index (k, v) = Inl e"
    using accept_each_raises by fastforce
  then obtain d where "map_of index (PStr k) = Some d" and c: "check_slot d v = Inl e"
    by (auto simp: settle_slot_def split: option.splits)
  with by_name_found [OF index] assms(1) have "plain_declaration d" by blast
  from check_slot_raises [OF this c] kv show ?thesis by blast
qed

text \<open>The door on one such text: a value that no measure takes ends the turn instead of being refused.\<close>

lemma superscript_is_not_refused:
  "accept_slots (\<lambda>_. None) [(''lot'', PStr [char_of (178 :: nat)])]
     (PList [PDict [(''name'', PStr ''lot''), (''kind'', PStr ''spoken-mandatory''), (''type'', PStr ''integer'')]]) [] =
   Inl ValueFault"
  by code_simp
text \<open>An integer slot with a vocabulary: a text is parsed and the vocabulary is not consulted.\<close>

lemma integer_text_skips_the_vocabulary:
  "accept_slots (\<lambda>_. None) [(''lot'', PStr ''7'')] (PList [PDict [(''name'', PStr ''lot''),
      (''kind'', PStr ''spoken-optional''), (''type'', PStr ''integer''), (''values'', PList [PInt 1, PInt 2])]]) [] =
     Inr \<lparr>acc_params = [(''lot'', PInt 7)], acc_refusals = [], acc_bound = [], acc_unsourced = [''lot'']\<rparr>"
  by code_simp

subsection \<open>Instances\<close>

definition demo_slots :: pyval where
  "demo_slots = PList [
     PDict [(''name'', PStr ''lot''), (''kind'', PStr ''spoken-mandatory''), (''type'', PStr ''integer'')],
     PDict [(''name'', PStr ''group_by''), (''kind'', PStr ''spoken-optional''), (''type'', PStr ''str''),
       (''values'', PList [PStr ''phase'', PStr ''site''])],
     PDict [(''name'', PStr ''as_of''), (''kind'', PStr ''spoken-optional''), (''type'', PStr ''str''),
       (''period'', PStr ''date''), (''period_end'', PDict [(''FY26-Q4'', PStr ''2026-09-30'')])],
     PDict [(''name'', PStr ''ops''), (''kind'', PStr ''handle''), (''type'', PStr ''list[str]'')]]"

definition demo_spoken :: pydict where
  "demo_spoken = [(''ops'', PList []), (''lot'', PStr '' 4''), (''as_of'', PStr ''FY26-Q4''), (''group_by'', PStr ''team'')]"

definition demo_acceptance :: acceptance where
  "demo_acceptance = \<lparr>acc_params = [(''as_of'', PStr ''2026-09-30''), (''lot'', PInt 4)],
     acc_refusals = [\<lparr>rf_name = ''group_by'', rf_reason = NotPermitted, rf_spoken = PStr ''team''\<rparr>,
       \<lparr>rf_name = ''ops'', rf_reason = RouteSupplied, rf_spoken = PList []\<rparr>],
     acc_bound = [(''lot'', PInt 4, ''spoken'')], acc_unsourced = [''as_of'']\<rparr>"

lemma demo_accepts: "accept_slots (\<lambda>_. None) demo_spoken demo_slots [(''lot'', ''spoken'')] = Inr demo_acceptance"
  by code_simp

lemma accepted_values_are_declared_witness:
  "\<exists>d w. d \<in> set (decode_declarations (\<lambda>_. None) demo_slots) \<and> dget d ''name'' = PStr ''lot'' \<and>
     (''lot'', w) \<in> set demo_spoken \<and> slot_contract d w (PInt 4)"
  by (rule accepted_values_are_declared [OF demo_accepts]) (simp add: demo_acceptance_def)

lemma every_spoken_slot_is_settled_once_witness:
  "distinct (map fst (acc_params demo_acceptance) @ map rf_name (acc_refusals demo_acceptance)) \<and>
     set (map fst (acc_params demo_acceptance) @ map rf_name (acc_refusals demo_acceptance)) = fst ` set demo_spoken"
proof -
  have "distinct (map fst demo_spoken)" by (simp add: demo_spoken_def)
  from every_spoken_slot_is_settled_once [OF demo_accepts this] show ?thesis by blast
qed

lemma provenance_is_never_invented_witness:
  "(''lot'', PInt 4, ''spoken'') \<in> set (acc_bound demo_acceptance) \<and> map_of [(''lot'', ''spoken'')] ''lot'' = Some ''spoken''"
  using provenance_is_never_invented [OF demo_accepts] by (simp add: demo_acceptance_def)

lemma the_door_raises_on_superscripts_only_witness:
  "\<exists>k s. (k, PStr s) \<in> set [(''lot'', PStr [char_of (178 :: nat)])] \<and> (\<exists>c \<in> set s. superscript c)"
proof -
  have "accept_slots (\<lambda>_. None) [(''lot'', PStr [char_of (178 :: nat)])] demo_slots [] = Inl ValueFault"
    by code_simp
  moreover have "\<forall>d \<in> set (decode_declarations (\<lambda>_. None) demo_slots). plain_declaration d"
    by code_simp
  ultimately show ?thesis
    using the_door_raises_on_superscripts_only by blast
qed

end
