(* ===== verification/Slot_Disposition.thy ===== *)
theory Slot_Disposition
  imports Slot_Acceptance
begin

text \<open>
  \<^verbatim>\<open>iagent_pure/slot_disposition.py\<close>: what to do with a verb whose mandatory slots may be unfilled.
  The question is routed, or a slot is asked for with a menu or with the reason there is none, or
  the turn abstains. Then the answer: a pick is bound when it is one of the options, words are
  spoken again; and the door that checks a pick against a menu it computes again.

  The enumeration provider and the resolver are arguments. \<open>rend\<close> is \<open>str\<close> of a value that is not
  text, and \<open>repr\<close> of a text. The dashes of the messages are hyphens here.
\<close>

subsection \<open>Menus\<close>

datatype action = Route | Ask | Abstain

datatype option_source = SrcUnset | SrcResolution | SrcDeclaration | SrcEnumeration | SrcNone

datatype free_text = TooMany | Unsupported | NoProvider | NoReferent | ClassWide

record menu_option =
  opt_value :: string
  opt_label :: string

record candidate =
  cd_instance :: string
  cd_class :: string
  cd_chain :: "string list option"
  cd_matched :: string
  cd_label :: string

record resolved =
  rs_outcome :: string
  rs_spoken :: string
  rs_candidates :: "candidate list"

record disposition =
  dp_action :: action
  dp_slot :: "string option"
  dp_reason :: string
  dp_options :: "menu_option list"
  dp_source :: option_source
  dp_free :: "free_text option"
  dp_spoken :: string
  dp_truncated :: nat
  dp_total :: int
  dp_detail :: string
  dp_found :: string
  dp_scoped :: "string list"
  dp_offered :: "string list"

definition route_disposition :: disposition where
  "route_disposition = \<lparr>dp_action = Route, dp_slot = None, dp_reason = [], dp_options = [], dp_source = SrcUnset, dp_free = None,
     dp_spoken = [], dp_truncated = 0, dp_total = 0, dp_detail = [], dp_found = [], dp_scoped = [], dp_offered = []\<rparr>"

definition class_admits :: "candidate \<Rightarrow> string \<Rightarrow> bool" where
  "class_admits c referent \<longleftrightarrow> referent = [] \<or> cd_class c = [] \<or> cd_class c = referent \<or>
     (case cd_chain c of Some cs \<Rightarrow> referent \<in> set cs | None \<Rightarrow> False)"

definition bound_value :: "pydict \<Rightarrow> candidate \<Rightarrow> string" where
  "bound_value d c = (if dget d ''binds'' = PStr ''identifier'' \<and> cd_matched c \<noteq> [] then cd_matched c else cd_instance c)"

definition option_of :: "pydict \<Rightarrow> candidate \<Rightarrow> menu_option" where
  "option_of d c = (let v = bound_value d c in \<lparr>opt_value = v, opt_label = (if cd_label c = [] then v else cd_label c)\<rparr>)"

text \<open>The first option of each value.\<close>

fun unique_options :: "string set \<Rightarrow> menu_option list \<Rightarrow> menu_option list" where
  "unique_options seen [] = []"
| "unique_options seen (opt # opts) = (if opt_value opt \<in> seen then unique_options seen opts
     else opt # unique_options (insert (opt_value opt) seen) opts)"

definition from_candidates :: "nat \<Rightarrow> pydict \<Rightarrow> string \<Rightarrow> candidate list \<Rightarrow> menu_option list \<times> nat" where
  "from_candidates bound d referent cands =
     (let opts = unique_options {} (map (option_of d)
        (filter (\<lambda>c. class_admits c referent \<and> cd_instance c \<noteq> []) cands)) in
      if length opts > bound then (take bound opts, length opts) else (opts, 0))"

subsection \<open>The provider\<close>

record enumeration =
  en_outcome :: string
  en_members :: "(string \<times> string) list"
  en_count :: int
  en_scoped :: "string list"
  en_reason :: string

text \<open>A provider that does not take the bound slots raises \<open>TypeError\<close>; it may raise anything else.\<close>

datatype provider_error = Signature | Unreachable string

type_synonym enumerator = "string \<Rightarrow> (string \<times> string) list option \<Rightarrow> provider_error + enumeration"

definition error_name :: "provider_error \<Rightarrow> string" where
  "error_name e = (case e of Signature \<Rightarrow> ''TypeError'' | Unreachable n \<Rightarrow> n)"

definition enumerate_scoped :: "enumerator \<Rightarrow> string \<Rightarrow> (string \<times> string) list \<Rightarrow> provider_error + enumeration" where
  "enumerate_scoped enum referent bound = (case enum referent (Some bound) of
     Inl Signature \<Rightarrow> enum referent None | r \<Rightarrow> r)"

text \<open>\<open>{str(k): str(v) for k, v in accepted.items() if v not in (None, "")}\<close>\<close>

definition bound_texts :: "(pyval \<Rightarrow> string) \<Rightarrow> pydict \<Rightarrow> (string \<times> string) list" where
  "bound_texts rend accepted = map (\<lambda>p. (fst p, str_of rend (snd p)))
     (filter (\<lambda>p. snd p \<noteq> PNone \<and> snd p \<noteq> PStr []) accepted)"

definition text_names :: "(pyval \<Rightarrow> string) \<Rightarrow> pyval \<Rightarrow> string list" where
  "text_names rend v = filter (\<lambda>s. py_strip s \<noteq> []) (map (str_of rend) (list_or_nil v))"

definition member_options :: "(string \<times> string) list \<Rightarrow> menu_option list" where
  "member_options ms = map (\<lambda>m. \<lparr>opt_value = fst m, opt_label = snd m\<rparr>) (filter (\<lambda>m. fst m \<noteq> []) ms)"

text \<open>The bound slots that the declaration says narrow this one and that the provider did not apply.\<close>

definition not_narrowed :: "(pyval \<Rightarrow> string) \<Rightarrow> pydict \<Rightarrow> string list \<Rightarrow> string list \<Rightarrow> string list" where
  "not_narrowed rend d offered scoped =
     sort (remdups (filter (\<lambda>s. s \<in> set offered \<and> s \<notin> set scoped) (text_names rend (dget d ''narrowed_by''))))"

subsection \<open>The decision\<close>

definition asks_with_candidates :: "string \<Rightarrow> bool" where
  "asks_with_candidates outcome \<longleftrightarrow> outcome \<in> {''fuzzy'', ''mixed'', ''not_specific'', ''wrong_class''}"

definition from_enumeration :: "(pyval \<Rightarrow> string) \<Rightarrow> pydict \<Rightarrow> pydict \<Rightarrow> disposition \<Rightarrow> enumeration \<Rightarrow> disposition" where
  "from_enumeration rend accepted d base en =
     (let offered = sort (map fst (bound_texts rend accepted));
          scoped = filter (\<lambda>s. py_strip s \<noteq> []) (en_scoped en);
          opts = member_options (en_members en); missing = not_narrowed rend d offered scoped in
      if en_outcome en = ''members'' then
        (if opts \<noteq> [] then base \<lparr>dp_options := opts, dp_source := SrcEnumeration, dp_scoped := scoped, dp_offered := offered,
           dp_detail := (if missing = [] then [] else rend (PInt (int (length opts))) @ '' listed, not scoped by '' @
             join_text '', '' missing)\<rparr>
         else base \<lparr>dp_action := Abstain, dp_reason := ''no_members'', dp_found := [],
           dp_detail := ''nothing of that kind exists yet''\<rparr>)
      else if en_outcome en = ''too_many'' then base \<lparr>dp_source := SrcNone, dp_free := Some TooMany, dp_total := en_count en,
        dp_detail := (if en_count en = 0 then [] else rend (PInt (en_count en)) @ '' to choose from'')\<rparr>
      else base \<lparr>dp_source := SrcNone,
        dp_free := Some (if en_outcome en = ''unsupported'' then Unsupported else NoProvider),
        dp_detail := (if en_reason en = [] then en_outcome en else en_reason en)\<rparr>)"

definition declared_options :: "(pyval \<Rightarrow> string) \<Rightarrow> pydict \<Rightarrow> menu_option list" where
  "declared_options rend d = map (\<lambda>v. \<lparr>opt_value = str_of rend v, opt_label = str_of rend v\<rparr>)
     (list_or_nil (dget d ''values''))"

text \<open>The option ladder, for a slot nothing usable was resolved for.\<close>

definition elicit :: "(pyval \<Rightarrow> string) \<Rightarrow> enumerator option \<Rightarrow> pydict \<Rightarrow> pydict \<Rightarrow> disposition \<Rightarrow> disposition" where
  "elicit rend enum accepted d base =
     (let referent = str_or_empty rend (dget d ''referent'') in
      if truthy (dget d ''values'') then base \<lparr>dp_options := declared_options rend d, dp_source := SrcDeclaration\<rparr>
      else if referent = [] then base \<lparr>dp_source := SrcNone, dp_free := Some NoReferent\<rparr>
      else (case enum of
        None \<Rightarrow> base \<lparr>dp_source := SrcNone, dp_free := Some NoProvider, dp_detail := ''no enumeration provider was reachable''\<rparr>
      | Some f \<Rightarrow> (case enumerate_scoped f referent (bound_texts rend accepted) of
          Inl e \<Rightarrow> base \<lparr>dp_source := SrcNone, dp_free := Some NoProvider, dp_detail := error_name e, dp_found := [],
            dp_offered := sort (map fst (bound_texts rend accepted))\<rparr>
        | Inr en \<Rightarrow> from_enumeration rend accepted d base en)))"

definition no_resolution :: resolved where
  "no_resolution = \<lparr>rs_outcome = [], rs_spoken = [], rs_candidates = []\<rparr>"

definition found_label :: "candidate list \<Rightarrow> string" where
  "found_label cands = (case filter (\<lambda>c. cd_instance c \<noteq> []) cands of [] \<Rightarrow> []
     | c # _ \<Rightarrow> if cd_label c = [] then cd_instance c else cd_label c)"

definition decide_slot ::
  "(pyval \<Rightarrow> string) \<Rightarrow> enumerator option \<Rightarrow> nat \<Rightarrow> pydict \<Rightarrow> string \<Rightarrow> resolved \<Rightarrow> pydict \<Rightarrow> disposition" where
  "decide_slot rend enum bound accepted name res d =
     (let outcome = rs_outcome res; spoken = rs_spoken res; referent = str_or_empty rend (dget d ''referent'');
          asked = route_disposition \<lparr>dp_action := Ask, dp_slot := Some name, dp_spoken := spoken\<rparr>;
          base = asked \<lparr>dp_reason := (if outcome = [] then ''slot-unfilled'' else outcome)\<rparr> in
      if outcome = ''empty'' then base \<lparr>dp_action := Abstain,
        dp_detail := (if spoken = [] then [] else ''nothing in the model matches '' @ rend (PStr spoken))\<rparr>
      else if asks_with_candidates outcome then
        (let (opts, truncated) = from_candidates bound d referent (rs_candidates res) in
         if opts \<noteq> [] then base \<lparr>dp_options := opts, dp_source := SrcResolution, dp_truncated := truncated\<rparr>
         else elicit rend enum accepted d (base \<lparr>dp_found := found_label (rs_candidates res)\<rparr>))
      else elicit rend enum accepted d base)"

definition slot_name :: "(pyval \<Rightarrow> string) \<Rightarrow> pydict \<Rightarrow> string" where
  "slot_name rend d = str_or_empty rend (dget d ''name'')"

fun decide_first ::
  "(pyval \<Rightarrow> string) \<Rightarrow> enumerator option \<Rightarrow> nat \<Rightarrow> pydict \<Rightarrow> (string \<times> resolved) list \<Rightarrow> pydict list \<Rightarrow> disposition" where
  "decide_first rend enum bound accepted resolution [] = route_disposition"
| "decide_first rend enum bound accepted resolution (d # ds) =
     (let name = slot_name rend d in
      if name = [] \<or> has_key accepted name then decide_first rend enum bound accepted resolution ds
      else decide_slot rend enum bound accepted name
        (case map_of resolution name of Some res \<Rightarrow> res | None \<Rightarrow> no_resolution) d)"

definition mandatory_slots :: "pydict list \<Rightarrow> pydict list" where
  "mandatory_slots = filter is_spoken_mandatory"

definition decide_disposition ::
  "(string \<Rightarrow> pyval option) \<Rightarrow> (pyval \<Rightarrow> string) \<Rightarrow> enumerator option \<Rightarrow> nat \<Rightarrow> pydict \<Rightarrow> pyval \<Rightarrow>
     (string \<times> resolved) list \<Rightarrow> disposition" where
  "decide_disposition loads rend enum bound accepted declared resolution =
     decide_first rend enum bound accepted resolution (mandatory_slots (decode_declarations loads declared))"

subsection \<open>The card\<close>

definition reason_by_outcome :: "string \<Rightarrow> free_text option" where
  "reason_by_outcome outcome =
     (if outcome = ''wrong_class'' then Some NoReferent
      else if outcome \<in> {''not_specific'', ''fuzzy'', ''mixed'', ''ambiguous_in_domain'', ''ambiguous_in_class''}
      then Some NoProvider else None)"

text \<open>\<open>str.removesuffix("_id").replace("_", " ")\<close>\<close>

definition spoken_slot :: "string option \<Rightarrow> string" where
  "spoken_slot slot = (let s = (case slot of Some t \<Rightarrow> t | None \<Rightarrow> []);
       stem = (if 3 \<le> length s \<and> drop (length s - 3) s = ''_id'' then take (length s - 3) s else s) in
     map (\<lambda>c. if c = CHR ''_'' then CHR '' '' else c) stem)"

definition heard :: "(pyval \<Rightarrow> string) \<Rightarrow> disposition \<Rightarrow> string" where
  "heard rend d = (if dp_found d \<noteq> [] then '' I found '' @ rend (PStr (dp_found d)) @ '', but that is not one.''
     else if dp_spoken d \<noteq> [] then '' I heard '' @ rend (PStr (dp_spoken d)) @ '', which is not one of them.''
     else [])"

definition listed_options :: "(pyval \<Rightarrow> string) \<Rightarrow> disposition \<Rightarrow> string" where
  "listed_options rend d = join_text '', '' (map (\<lambda>opt. if opt_label opt = [] then opt_value opt else opt_label opt) (dp_options d)) @
     (if dp_truncated d = 0 then [] else '' (showing '' @ rend (PInt (int (length (dp_options d)))) @ '' of '' @
       rend (PInt (int (dp_truncated d))) @ '')'')"

definition ask_message :: "(pyval \<Rightarrow> string) \<Rightarrow> disposition \<Rightarrow> string" where
  "ask_message rend d = (let slot = spoken_slot (dp_slot d) in
     if dp_action d = Abstain then
       (if dp_spoken d \<noteq> [] then ''I could not find anything called '' @ rend (PStr (dp_spoken d)) @ ''. Nothing was run.''
        else ''I need a '' @ slot @ '' and there are none to choose from yet. Nothing was run.'')
     else if dp_options d \<noteq> [] then ''Which '' @ slot @ '' did you mean?'' @ heard rend d @ '' Options: '' @ listed_options rend d @ ''.''
     else if dp_free d = Some TooMany then ''Which '' @ slot @ ''?'' @ heard rend d @
       (if dp_detail d = [] then [] else '' There are '' @ dp_detail d @ ''.'') @ '' Too many to list - name it and I will run this.''
     else if dp_free d = Some ClassWide then ''Which '' @ slot @ ''?'' @ heard rend d @ '' I can list them, but not narrowed'' @
       (if dp_offered d = [] then [] else '' for '' @ join_text '', '' (dp_offered d)) @
       '' - showing them all would offer choices this question would then reject. Name it and I will run this.''
     else ''Which '' @ slot @ ''?'' @ heard rend d @ '' Name it and I will run this.'')"

record ask_card =
  ac_status :: string
  ac_action :: action
  ac_verb :: string
  ac_query :: string
  ac_slot :: "string option"
  ac_reason :: string
  ac_spoken :: string
  ac_found :: string
  ac_options :: "menu_option list"
  ac_source :: option_source
  ac_free :: "free_text option"
  ac_truncated :: nat
  ac_total :: int
  ac_scoped :: "string list"
  ac_offered :: "string list"
  ac_accepted :: pydict
  ac_message :: string

text \<open>The builder raises on a menuless ask that no reason explains.\<close>

definition explained :: "disposition \<Rightarrow> disposition option" where
  "explained d = (if dp_action d = Ask \<and> dp_options d = [] \<and> dp_free d = None
     then map_option (\<lambda>r. d \<lparr>dp_free := Some r\<rparr>) (reason_by_outcome (dp_reason d)) else Some d)"

definition card_status :: "action \<Rightarrow> string" where
  "card_status a = (if a = Abstain then ''slot_abstain'' else ''slot_elicitation'')"

definition ask_card :: "(pyval \<Rightarrow> string) \<Rightarrow> disposition \<Rightarrow> string \<Rightarrow> string \<Rightarrow> pydict \<Rightarrow> ask_card option" where
  "ask_card rend disp verb query accepted = map_option (\<lambda>d. \<lparr>ac_status = card_status (dp_action d), ac_action = dp_action d,
     ac_verb = verb, ac_query = query, ac_slot = dp_slot d, ac_reason = dp_reason d, ac_spoken = dp_spoken d,
     ac_found = dp_found d, ac_options = dp_options d, ac_source = dp_source d, ac_free = dp_free d,
     ac_truncated = dp_truncated d, ac_total = dp_total d, ac_scoped = dp_scoped d, ac_offered = dp_offered d,
     ac_accepted = accepted, ac_message = ask_message rend d\<rparr>) (explained disp)"

subsection \<open>The answer\<close>

datatype pick_error = NoSlot | EmptyAnswer | NotOffered string "string list"

definition close_to :: "string \<Rightarrow> string list \<Rightarrow> string list" where
  "close_to pick allowed = filter (\<lambda>a. pick \<noteq> [] \<and>
     (substring_of (py_lower pick) (py_lower a) \<or> substring_of (py_lower a) (py_lower pick))) allowed"

definition validate_pick :: "string \<Rightarrow> string list \<Rightarrow> pick_error + string" where
  "validate_pick pick allowed = (if pick \<in> set allowed then Inr pick else Inl (NotOffered pick (take 3 (close_to pick allowed))))"

record reroute =
  rr_bind :: bool
  rr_slots :: pydict
  rr_query :: string
  rr_slot :: string
  rr_spoken :: string

definition resolve_ask :: "ask_card \<Rightarrow> string \<Rightarrow> pick_error + reroute" where
  "resolve_ask shown raw = (let slot = (case ac_slot shown of Some s \<Rightarrow> s | None \<Rightarrow> []); answer = py_strip raw in
     if slot = [] then Inl NoSlot
     else if answer = [] then Inl EmptyAnswer
     else if ac_options shown \<noteq> [] then bind_r (validate_pick answer (map opt_value (ac_options shown))) (\<lambda>v.
       Inr \<lparr>rr_bind = True, rr_slots = AList.update slot (PStr v) (ac_accepted shown), rr_query = [], rr_slot = slot, rr_spoken = []\<rparr>)
     else Inr \<lparr>rr_bind = False, rr_slots = ac_accepted shown, rr_query = ac_query shown, rr_slot = slot, rr_spoken = answer\<rparr>)"

subsection \<open>A pick that comes back\<close>

datatype pick_refusal =
    Unreadable string
  | NotDeclared string
  | NeverOffered string
  | NotInVocabulary string pyval
  | NoMenu string
  | SourceUnreachable string string
  | ResolverUnreachable string string
  | PickRefused string pick_error

record bound_row =
  br_spoken :: string
  br_instance :: string

type_synonym identifier_resolver = "string \<Rightarrow> string \<Rightarrow> string + candidate list"

text \<open>The menu computed again: the provider's members, or the resolver's candidates where it listed none.\<close>

definition resolver_menu :: "pydict \<Rightarrow> string \<Rightarrow> nat \<Rightarrow> candidate list \<Rightarrow> (string \<times> string) list" where
  "resolver_menu d referent bound cands = map (\<lambda>c. (bound_value d c, cd_label c))
     (filter (\<lambda>c. cd_instance c \<noteq> [] \<and> class_admits c referent) (take bound cands))"

definition listed_members :: "enumeration \<Rightarrow> (string \<times> string) list" where
  "listed_members en = (if en_outcome en = ''members'' then filter (\<lambda>m. fst m \<noteq> []) (en_members en) else [])"

definition recomputed_menu ::
  "enumerator option \<Rightarrow> identifier_resolver option \<Rightarrow> nat \<Rightarrow> string \<Rightarrow> pydict \<Rightarrow> string \<Rightarrow> pick_refusal + (string \<times> string) list" where
  "recomputed_menu enum resolver bound name d referent =
     bind_r (case enum of None \<Rightarrow> Inr [] | Some f \<Rightarrow> (case f referent None of
         Inl e \<Rightarrow> Inl (SourceUnreachable name (error_name e)) | Inr en \<Rightarrow> Inr (listed_members en))) (\<lambda>ms.
       if ms \<noteq> [] then Inr ms
       else (case resolver of None \<Rightarrow> Inr [] | Some f \<Rightarrow> (case f name referent of
         Inl e \<Rightarrow> Inl (ResolverUnreachable name e) | Inr cands \<Rightarrow> Inr (resolver_menu d referent bound cands))))"

text \<open>The label of the last option of that value; the value where it has none.\<close>

definition clicked :: "(string \<times> string) list \<Rightarrow> string \<Rightarrow> string" where
  "clicked menu v = (case map_of (rev menu) v of Some l \<Rightarrow> if l = [] then v else l | None \<Rightarrow> v)"

definition check_bound ::
  "(pyval \<Rightarrow> string) \<Rightarrow> enumerator option \<Rightarrow> identifier_resolver option \<Rightarrow> nat \<Rightarrow> (pyval \<times> pydict) list \<Rightarrow>
     string \<times> pyval \<Rightarrow> slot_fault + pick_refusal + pyval \<times> bound_row" where
  "check_bound rend enum resolver bound index p = (let name = fst p; value = snd p in
     (case map_of index (PStr name) of
        None \<Rightarrow> Inr (Inl (NotDeclared name))
      | Some d \<Rightarrow>
          if dget d ''kind'' = PStr ''handle'' \<or> dget d ''kind'' = PStr ''ceremony'' then Inr (Inl (NeverOffered name))
          else if truthy (dget d ''values'') then bind_r (py_contains value (dget d ''values'')) (\<lambda>known.
            Inr (if known then Inr (value, \<lparr>br_spoken = str_of rend value, br_instance = str_of rend value\<rparr>)
                 else Inl (NotInVocabulary name value)))
          else (let referent = str_or_empty rend (dget d ''referent'') in
            if referent = [] then Inr (Inl (NoMenu name))
            else Inr (bind_r (recomputed_menu enum resolver bound name d referent) (\<lambda>menu.
              if menu = [] then Inl (NoMenu name)
              else (case validate_pick (str_of rend value) (map fst menu) of
                Inl e \<Rightarrow> Inl (PickRefused name e)
              | Inr v \<Rightarrow> Inr (PStr v, \<lparr>br_spoken = clicked menu v, br_instance = v\<rparr>)))))))"

fun check_all ::
  "(string \<times> pyval \<Rightarrow> slot_fault + pick_refusal + pyval \<times> bound_row) \<Rightarrow> pydict \<Rightarrow>
     slot_fault + pydict \<times> pick_refusal list \<times> (string \<times> bound_row) list" where
  "check_all f [] = Inr ([], [], [])"
| "check_all f (p # ps) = bind_r (f p) (\<lambda>r. bind_r (check_all f ps) (\<lambda>(out, refs, rows). Inr (case r of
     Inr (v, row) \<Rightarrow> ((fst p, v) # out, refs, (fst p, row) # rows)
   | Inl e \<Rightarrow> (out, e # refs, rows))))"

definition validate_bound_slots ::
  "(string \<Rightarrow> pyval option) \<Rightarrow> (pyval \<Rightarrow> string) \<Rightarrow> enumerator option \<Rightarrow> identifier_resolver option \<Rightarrow> nat \<Rightarrow>
     pydict \<Rightarrow> pyval \<Rightarrow> slot_fault + pydict \<times> pick_refusal list \<times> (string \<times> bound_row) list" where
  "validate_bound_slots loads rend enum resolver bound picks declared =
     (if picks = [] then Inr ([], [], [])
      else (case by_name (decode_declarations loads declared) of
        Inl _ \<Rightarrow> Inr ([], map Unreadable (sort (map fst picks)), [])
      | Inr index \<Rightarrow> check_all (check_bound rend enum resolver bound index) (sort_key fst picks)))"

subsection \<open>Which slot is asked for\<close>

definition missing_slots :: "(pyval \<Rightarrow> string) \<Rightarrow> pydict \<Rightarrow> pydict list \<Rightarrow> string list" where
  "missing_slots rend accepted ds =
     filter (\<lambda>n. n \<noteq> [] \<and> \<not> has_key accepted n) (map (slot_name rend) (mandatory_slots ds))"

lemma elicit_action: "dp_action base = Ask \<Longrightarrow> dp_action (elicit rend enum accepted d base) \<noteq> Route"
  by (simp add: elicit_def from_enumeration_def Let_def split: option.split sum.split)

lemma elicit_slot [simp]: "dp_slot (elicit rend enum accepted d base) = dp_slot base"
  by (simp add: elicit_def from_enumeration_def Let_def split: option.split sum.split)

lemma decide_slot_asks:
  "dp_action (decide_slot rend enum bound accepted name res d) \<noteq> Route \<and>
     dp_slot (decide_slot rend enum bound accepted name res d) = Some name"
  by (simp add: decide_slot_def Let_def elicit_action split: prod.split)

lemma decide_first_missing:
  "(case filter (\<lambda>n. n \<noteq> [] \<and> \<not> has_key accepted n) (map (slot_name rend) ds) of
      [] \<Rightarrow> decide_first rend enum bound accepted resolution ds = route_disposition
    | n # _ \<Rightarrow> dp_action (decide_first rend enum bound accepted resolution ds) \<noteq> Route \<and>
        dp_slot (decide_first rend enum bound accepted resolution ds) = Some n)"
proof (induction ds)
  case Nil
  then show ?case by simp
next
  case (Cons d ds)
  show ?case
  proof (cases "slot_name rend d = [] \<or> has_key accepted (slot_name rend d)")
    case True
    then have e: "decide_first rend enum bound accepted resolution (d # ds) = decide_first rend enum bound accepted resolution ds"
      by (auto simp: Let_def)
    from True have f: "filter (\<lambda>n. n \<noteq> [] \<and> \<not> has_key accepted n) (map (slot_name rend) (d # ds)) =
        filter (\<lambda>n. n \<noteq> [] \<and> \<not> has_key accepted n) (map (slot_name rend) ds)"
      by auto
    from Cons.IH show ?thesis by (simp only: e f)
  next
    case False
    then show ?thesis by (simp add: Let_def decide_slot_asks)
  qed
qed

text \<open>
  The turn routes exactly when every mandatory slot of the verb is filled; otherwise the first
  one that is not, and never an optional slot, is what it asks for or abstains on.
\<close>

theorem only_a_missing_mandatory_slot_interrupts:
  "(case missing_slots rend accepted (decode_declarations loads declared) of
      [] \<Rightarrow> decide_disposition loads rend enum bound accepted declared resolution = route_disposition
    | n # _ \<Rightarrow> dp_action (decide_disposition loads rend enum bound accepted declared resolution) \<noteq> Route \<and>
        dp_slot (decide_disposition loads rend enum bound accepted declared resolution) = Some n)"
  unfolding decide_disposition_def missing_slots_def by (rule decide_first_missing)

lemma asked_is_missing:
  assumes "dp_slot (decide_disposition loads rend enum bound accepted declared resolution) = Some slot"
  shows "slot \<in> set (missing_slots rend accepted (decode_declarations loads declared))"
proof -
  let ?n = "filter (\<lambda>n. n \<noteq> [] \<and> \<not> has_key accepted n)
    (map (slot_name rend) (mandatory_slots (decode_declarations loads declared)))"
  have "case ?n of [] \<Rightarrow> False | n # _ \<Rightarrow> n = slot"
    using decide_first_missing [where accepted = accepted and rend = rend and enum = enum and bound = bound
      and resolution = resolution and ds = "mandatory_slots (decode_declarations loads declared)"] assms
    by (auto simp: decide_disposition_def route_disposition_def split: list.splits)
  then have "slot \<in> set ?n" by (cases ?n) auto
  then show ?thesis by (simp only: missing_slots_def)
qed

lemma decide_first_decides:
  "decide_first rend enum bound accepted resolution ds = route_disposition \<or>
    (\<exists>d \<in> set ds. slot_name rend d \<noteq> [] \<and> \<not> has_key accepted (slot_name rend d) \<and>
      decide_first rend enum bound accepted resolution ds = decide_slot rend enum bound accepted (slot_name rend d)
        (case map_of resolution (slot_name rend d) of Some res \<Rightarrow> res | None \<Rightarrow> no_resolution) d)"
  by (induction ds) (auto simp: Let_def)

lemma decide_first_cases:
  obtains "decide_first rend enum bound accepted resolution ds = route_disposition"
  | d res where "d \<in> set ds" "slot_name rend d \<noteq> []" "\<not> has_key accepted (slot_name rend d)"
      "res = (case map_of resolution (slot_name rend d) of Some res \<Rightarrow> res | None \<Rightarrow> no_resolution)"
      "decide_first rend enum bound accepted resolution ds =
         decide_slot rend enum bound accepted (slot_name rend d) res d"
  using decide_first_decides [of rend enum bound accepted resolution ds] by blast

subsection \<open>The menus\<close>

lemma unique_options_distinct:
  "distinct (map opt_value (unique_options seen opts)) \<and> opt_value ` set (unique_options seen opts) \<inter> seen = {}"
proof (induction opts arbitrary: seen)
  case Nil
  then show ?case by simp
next
  case (Cons opt opts)
  from Cons.IH [of seen] Cons.IH [of "insert (opt_value opt) seen"] show ?case
    by (auto simp: disjoint_iff)
qed

lemma unique_options_subset: "set (unique_options seen opts) \<subseteq> set opts"
  by (induction opts arbitrary: seen) auto

lemma from_candidates_menu:
  assumes "from_candidates bound d referent cands = (opts, n)"
  shows "distinct (map opt_value opts) \<and> length opts \<le> bound \<and>
    (\<forall>opt \<in> set opts. \<exists>c \<in> set cands. class_admits c referent \<and> cd_instance c \<noteq> [] \<and> opt = option_of d c)"
proof -
  let ?all = "map (option_of d) (filter (\<lambda>c. class_admits c referent \<and> cd_instance c \<noteq> []) cands)"
  from assms have opts: "opts = take bound (unique_options {} ?all)"
    by (auto simp: from_candidates_def Let_def split: if_splits)
  have "set opts \<subseteq> set ?all"
    unfolding opts using unique_options_subset [of "{}" ?all] set_take_subset by (rule subset_trans [rotated])
  then have "\<forall>opt \<in> set opts. \<exists>c \<in> set cands. class_admits c referent \<and> cd_instance c \<noteq> [] \<and> opt = option_of d c"
    by auto
  moreover have "distinct (map opt_value opts)"
    unfolding opts take_map [symmetric] using unique_options_distinct [of "{}" ?all] by (simp add: distinct_take)
  moreover have "length opts \<le> bound" by (simp add: opts)
  ultimately show ?thesis by blast
qed

lemma elicit_not_resolution: "dp_source base = SrcUnset \<Longrightarrow> dp_source (elicit rend enum accepted d base) \<noteq> SrcResolution"
  by (simp add: elicit_def from_enumeration_def Let_def split: option.split sum.split)

lemma resolution_menu_of:
  assumes "dp_source (decide_slot rend enum bound accepted name res d) = SrcResolution"
  shows "\<exists>n. from_candidates bound d (str_or_empty rend (dget d ''referent'')) (rs_candidates res) =
    (dp_options (decide_slot rend enum bound accepted name res d), n)"
  using assms elicit_not_resolution
  by (auto simp: decide_slot_def Let_def route_disposition_def split: if_splits prod.splits)

text \<open>
  A disambiguation menu is a menu: at most as many options as a reader can choose from, each value
  once, and each of them the value the slot takes for a candidate the resolver returned whose class
  the slot admits. A candidate of another class is never an option.
\<close>

theorem a_resolved_menu_offers_admitted_candidates:
  assumes "decide_disposition loads rend enum bound accepted declared resolution = disp"
    and "dp_source disp = SrcResolution"
  shows "distinct (map opt_value (dp_options disp)) \<and> length (dp_options disp) \<le> bound \<and>
    (\<exists>d \<in> set (decode_declarations loads declared). dp_slot disp = Some (slot_name rend d) \<and> is_spoken_mandatory d \<and>
      (\<exists>res. map_of resolution (slot_name rend d) = Some res \<and> (\<forall>opt \<in> set (dp_options disp). \<exists>c \<in> set (rs_candidates res).
         class_admits c (str_or_empty rend (dget d ''referent'')) \<and> cd_instance c \<noteq> [] \<and> opt_value opt = bound_value d c)))"
proof -
  let ?ds = "mandatory_slots (decode_declarations loads declared)"
  have disp: "disp = decide_first rend enum bound accepted resolution ?ds"
    using assms(1) by (simp add: decide_disposition_def)
  show ?thesis
  proof (rule decide_first_cases [of rend enum bound accepted resolution ?ds])
    assume "decide_first rend enum bound accepted resolution ?ds = route_disposition"
    with disp assms(2) show ?thesis by (simp add: route_disposition_def)
  next
    fix d res
    assume d: "d \<in> set ?ds"
      and res: "res = (case map_of resolution (slot_name rend d) of Some res \<Rightarrow> res | None \<Rightarrow> no_resolution)"
      and eq: "decide_first rend enum bound accepted resolution ?ds = decide_slot rend enum bound accepted (slot_name rend d) res d"
    from eq disp have e: "disp = decide_slot rend enum bound accepted (slot_name rend d) res d" by simp
    with assms(2) obtain n where
      "from_candidates bound d (str_or_empty rend (dget d ''referent'')) (rs_candidates res) = (dp_options disp, n)"
      using resolution_menu_of by blast
    note menu = from_candidates_menu [OF this]
    have known: "map_of resolution (slot_name rend d) = Some res"
    proof (cases "map_of resolution (slot_name rend d)")
      case None
      with res e assms(2) have "dp_source (elicit rend enum accepted d (route_disposition \<lparr>dp_action := Ask,
          dp_slot := Some (slot_name rend d), dp_reason := ''slot-unfilled''\<rparr>)) = SrcResolution"
        by (simp add: decide_slot_def no_resolution_def asks_with_candidates_def Let_def route_disposition_def)
      with elicit_not_resolution show ?thesis by (simp add: route_disposition_def)
    next
      case (Some r)
      with res show ?thesis by simp
    qed
    have "dp_slot disp = Some (slot_name rend d)" using decide_slot_asks e by simp
    with menu known d show ?thesis
      by (auto simp: mandatory_slots_def option_of_def Let_def intro!: bexI [of _ d] exI [of _ res]) fastforce
  qed
qed

lemma elicit_explained:
  assumes "plain_declaration d" and "dp_action base = Ask"
  shows "dp_action (elicit rend enum accepted d base) = Ask \<longrightarrow>
    dp_options (elicit rend enum accepted d base) \<noteq> [] \<or> dp_free (elicit rend enum accepted d base) \<noteq> None"
proof (cases "truthy (dget d ''values'')")
  case True
  with assms(1) have "list_or_nil (dget d ''values'') \<noteq> []"
    by (cases "dget d ''values''") (auto simp: plain_declaration_def list_or_nil_def)
  with True show ?thesis by (simp add: elicit_def declared_options_def)
next
  case False
  then show ?thesis
    by (simp add: elicit_def from_enumeration_def Let_def split: option.split sum.split)
qed

lemma explained_iff: "explained e \<noteq> None \<longleftrightarrow> dp_action e \<noteq> Ask \<or> dp_options e \<noteq> [] \<or> dp_free e \<noteq> None \<or>
    reason_by_outcome (dp_reason e) \<noteq> None"
  by (auto simp: explained_def)

lemma explained_already [simp]:
  "dp_options e \<noteq> [] \<Longrightarrow> explained e = Some e"
  "dp_action e \<noteq> Ask \<Longrightarrow> explained e = Some e"
  by (simp_all add: explained_def)

lemma explained_elicit:
  assumes "plain_declaration d" and "dp_action base = Ask"
  shows "\<exists>e. explained (elicit rend enum accepted d base) = Some e"
  using elicit_explained [OF assms] explained_iff by (metis not_None_eq)

lemma decide_slot_explained:
  assumes "plain_declaration d"
  shows "explained (decide_slot rend enum bound accepted name res d) \<noteq> None"
  using explained_elicit [OF assms]
  by (auto simp: decide_slot_def Let_def split: prod.split)

text \<open>
  An ask without a menu always says why: on declarations as they are registered the card builder
  never meets the disposition it raises on, and the card of a menuless ask carries its reason.
\<close>

theorem a_menuless_ask_says_why:
  assumes "\<forall>d \<in> set (decode_declarations loads declared). plain_declaration d"
  shows "\<exists>shown. ask_card rend (decide_disposition loads rend enum bound accepted declared resolution) verb query accepted = Some shown \<and>
    (ac_action shown = Ask \<longrightarrow> ac_options shown = [] \<longrightarrow> ac_free shown \<noteq> None)"
proof -
  let ?d = "decide_disposition loads rend enum bound accepted declared resolution"
  have "explained ?d \<noteq> None"
  proof (rule decide_first_cases [of rend enum bound accepted resolution "mandatory_slots (decode_declarations loads declared)"])
    fix d res
    assume "d \<in> set (mandatory_slots (decode_declarations loads declared))"
      and "decide_first rend enum bound accepted resolution (mandatory_slots (decode_declarations loads declared)) =
        decide_slot rend enum bound accepted (slot_name rend d) res d"
    with assms decide_slot_explained show ?thesis by (auto simp: decide_disposition_def mandatory_slots_def)
  qed (simp add: decide_disposition_def explained_def route_disposition_def)
  then obtain e where e: "explained ?d = Some e" by blast
  then have "dp_action e = Ask \<Longrightarrow> dp_options e = [] \<Longrightarrow> dp_free e \<noteq> None"
    by (auto simp: explained_def split: if_splits)
  with e show ?thesis by (auto simp: ask_card_def)
qed

subsection \<open>What an answer does\<close>

text \<open>
  An answer to a menu is bound exactly when it is one of the values that were offered, and then
  it is the only slot it changes; words in answer to an ask without a menu bind nothing and travel
  beside the question, which is not rewritten.
\<close>

theorem only_an_offered_value_is_bound:
  assumes "ac_slot shown = Some slot" and "slot \<noteq> []" and "py_strip raw \<noteq> []"
  shows "(case resolve_ask shown raw of
      Inr r \<Rightarrow> rr_slot r = slot \<and>
        (if ac_options shown = [] then \<not> rr_bind r \<and> rr_slots r = ac_accepted shown \<and> rr_query r = ac_query shown \<and>
           rr_spoken r = py_strip raw
         else rr_bind r \<and> py_strip raw \<in> opt_value ` set (ac_options shown) \<and>
           map_of (rr_slots r) = (map_of (ac_accepted shown))(slot \<mapsto> PStr (py_strip raw)))
    | Inl e \<Rightarrow> ac_options shown \<noteq> [] \<and> py_strip raw \<notin> opt_value ` set (ac_options shown) \<and>
        (\<exists>close. e = NotOffered (py_strip raw) close \<and> set close \<subseteq> opt_value ` set (ac_options shown)))"
proof (cases "ac_options shown = []")
  case True
  with assms show ?thesis by (simp add: resolve_ask_def Let_def)
next
  case False
  have "set (take 3 (close_to (py_strip raw) (map opt_value (ac_options shown)))) \<subseteq> opt_value ` set (ac_options shown)"
    by (auto simp: close_to_def dest!: in_set_takeD)
  with False assms show ?thesis
    by (auto simp: resolve_ask_def Let_def validate_pick_def update_conv')
qed

text \<open>
  An answer that binds is the one slot it adds: the slots still missing are those that were missing
  before without the one that was asked for. Whether the value is taken is for the next run's doors.
\<close>

lemma an_answer_fills_its_slot:
  assumes "dp_slot (decide_disposition loads rend enum bound accepted declared resolution) = Some slot"
    and "ask_card rend (decide_disposition loads rend enum bound accepted declared resolution) verb query accepted = Some shown"
    and "resolve_ask shown raw = Inr r" and "rr_bind r"
  shows "missing_slots rend (rr_slots r) (decode_declarations loads declared) =
      filter (\<lambda>n. n \<noteq> slot) (missing_slots rend accepted (decode_declarations loads declared)) \<and>
    length (missing_slots rend (rr_slots r) (decode_declarations loads declared)) <
      length (missing_slots rend accepted (decode_declarations loads declared)) \<and>
    dp_slot (decide_disposition loads rend enum bound (rr_slots r) declared resolution) \<noteq> Some slot"
proof -
  let ?d = "decide_disposition loads rend enum bound accepted declared resolution"
  let ?m = "\<lambda>a. missing_slots rend a (decode_declarations loads declared)"
  from assms(1,2) have c: "ac_slot shown = Some slot" "ac_accepted shown = accepted"
    by (auto simp: ask_card_def explained_def split: if_splits)
  with assms(3,4) obtain v where r: "rr_slots r = AList.update slot (PStr v) accepted"
    by (auto simp: resolve_ask_def Let_def bind_r_Inr split: if_splits)
  have less: "?m (rr_slots r) = filter (\<lambda>n. n \<noteq> slot) (?m accepted)"
    by (auto simp: missing_slots_def r has_key_def update_conv' intro: filter_cong)
  have asked: "slot \<in> set (?m accepted)"
    using asked_is_missing assms(1) by blast
  with less have "length (?m (rr_slots r)) < length (?m accepted)"
    by (metis (mono_tags) length_filter_less)
  moreover have "dp_slot (decide_disposition loads rend enum bound (rr_slots r) declared resolution) \<noteq> Some slot"
    using asked_is_missing less by fastforce
  ultimately show ?thesis using less by blast
qed

subsection \<open>What a pick is checked against\<close>

text \<open>A value a slot may be given by a pick.\<close>

definition authorized ::
  "(pyval \<Rightarrow> string) \<Rightarrow> enumerator option \<Rightarrow> identifier_resolver option \<Rightarrow> string \<Rightarrow> pydict \<Rightarrow> pyval \<Rightarrow> bool" where
  "authorized rend enum resolver name d v \<longleftrightarrow>
     dget d ''kind'' \<notin> {PStr ''handle'', PStr ''ceremony''} \<and>
     (if truthy (dget d ''values'') then py_contains v (dget d ''values'') = Inr True
      else (let referent = str_or_empty rend (dget d ''referent'') in referent \<noteq> [] \<and> (\<exists>s. v = PStr s \<and>
        ((\<exists>f en l. enum = Some f \<and> f referent None = Inr en \<and> en_outcome en = ''members'' \<and> (s, l) \<in> set (en_members en)) \<or>
         (\<exists>f cands c. resolver = Some f \<and> f name referent = Inr cands \<and> c \<in> set cands \<and> class_admits c referent \<and>
            s = bound_value d c)))))"

lemma recomputed_menu_sound:
  assumes "recomputed_menu enum resolver bound name d referent = Inr menu" and "s \<in> fst ` set menu"
  shows "(\<exists>f en l. enum = Some f \<and> f referent None = Inr en \<and> en_outcome en = ''members'' \<and> (s, l) \<in> set (en_members en)) \<or>
    (\<exists>f cands c. resolver = Some f \<and> f name referent = Inr cands \<and> c \<in> set cands \<and> class_admits c referent \<and> s = bound_value d c)"
  using assms
  by (auto simp: recomputed_menu_def listed_members_def resolver_menu_def bind_r_Inr dest!: in_set_takeD
      split: option.splits sum.splits if_splits)

lemma check_bound_authorized:
  assumes "check_bound rend enum resolver bound index (name, value) = Inr (Inr (v, row))"
  shows "\<exists>d. map_of index (PStr name) = Some d \<and> authorized rend enum resolver name d v \<and>
    (v = value \<or> v = PStr (str_of rend value))"
proof -
  from assms obtain d where d: "map_of index (PStr name) = Some d"
    by (auto simp: check_bound_def Let_def split: option.splits)
  have k: "dget d ''kind'' \<notin> {PStr ''handle'', PStr ''ceremony''}"
    using assms d by (auto simp: check_bound_def Let_def split: if_splits)
  show ?thesis
  proof (cases "truthy (dget d ''values'')")
    case True
    with assms d k show ?thesis
      by (simp add: check_bound_def authorized_def bind_r_Inr split: if_splits)
  next
    case False
    let ?r = "str_or_empty rend (dget d ''referent'')"
    from assms d k False obtain menu where r: "?r \<noteq> []"
      and m: "recomputed_menu enum resolver bound name d ?r = Inr menu"
      and v: "v = PStr (str_of rend value)" "str_of rend value \<in> fst ` set menu"
      by (auto simp: check_bound_def Let_def bind_r_Inr validate_pick_def split: if_splits sum.splits)
    from recomputed_menu_sound [OF m v(2)] r v k False d show ?thesis
      by (simp add: authorized_def Let_def)
  qed
qed

lemma check_all_out:
  "check_all f ps = Inr (out, refs, rows) \<Longrightarrow> (k, v) \<in> set out \<Longrightarrow>
     \<exists>w row. (k, w) \<in> set ps \<and> f (k, w) = Inr (Inr (v, row)) \<and> (k, row) \<in> set rows"
proof (induction ps arbitrary: out refs rows)
  case Nil
  then show ?case by simp
next
  case (Cons p ps)
  from Cons.prems(1) obtain r out' refs' rows' where r: "f p = Inr r" and rest: "check_all f ps = Inr (out', refs', rows')"
    and eq: "(case r of Inr (v, row) \<Rightarrow> ((fst p, v) # out', refs', (fst p, row) # rows')
      | Inl e \<Rightarrow> (out', e # refs', rows')) = (out, refs, rows)"
    by (auto simp: bind_r_Inr)
  show ?case
  proof (cases "(k, v) \<in> set out'")
    case True
    with Cons.IH [OF rest] eq show ?thesis by (fastforce split: sum.splits prod.splits)
  next
    case False
    with Cons.prems(2) eq obtain row where "r = Inr (v, row)" "fst p = k" "(k, row) \<in> set rows"
      by (auto split: sum.splits prod.splits)
    with r show ?thesis by (cases p) auto
  qed
qed

lemma check_all_counts:
  "check_all f ps = Inr (out, refs, rows) \<Longrightarrow> length out + length refs = length ps \<and> map fst rows = map fst out"
proof (induction ps arbitrary: out refs rows)
  case Nil
  then show ?case by simp
next
  case (Cons p ps)
  from Cons.prems obtain r out' refs' rows' where rest: "check_all f ps = Inr (out', refs', rows')"
    and eq: "(case r of Inr (v, row) \<Rightarrow> ((fst p, v) # out', refs', (fst p, row) # rows')
      | Inl e \<Rightarrow> (out', e # refs', rows')) = (out, refs, rows)"
    by (auto simp: bind_r_Inr)
  from Cons.IH [OF rest] eq show ?case by (auto split: sum.splits prod.splits)
qed

text \<open>
  C26. A pick that comes back is trusted for nothing: whatever a client says was picked, a slot is
  given a value only if the slot is declared and a speaker may fill it, and the value stands in the
  declared vocabulary or in the menu computed again from the provider or the resolver. Every pick
  is bound or refused, and every bound one has its row in the record.
\<close>

theorem a_pick_is_checked_against_a_recomputed_menu:
  assumes "validate_bound_slots loads rend enum resolver bound picks declared = Inr (out, refusals, rows)"
  shows "(\<forall>k v. (k, v) \<in> set out \<longrightarrow> (\<exists>d \<in> set (decode_declarations loads declared). dget d ''name'' = PStr k \<and>
        authorized rend enum resolver k d v)) \<and>
    length out + length refusals = length picks \<and> map fst rows = map fst out"
proof (cases "picks = []")
  case True
  with assms show ?thesis by (simp add: validate_bound_slots_def)
next
  case False
  show ?thesis
  proof (cases "by_name (decode_declarations loads declared)")
    case (Inl e)
    with assms False show ?thesis by (auto simp: validate_bound_slots_def)
  next
    case (Inr index)
    with assms False have all: "check_all (check_bound rend enum resolver bound index) (sort_key fst picks) = Inr (out, refusals, rows)"
      by (simp add: validate_bound_slots_def)
    from check_all_counts [OF all] have "length out + length refusals = length picks \<and> map fst rows = map fst out"
      by simp
    moreover have "\<exists>d \<in> set (decode_declarations loads declared). dget d ''name'' = PStr k \<and> authorized rend enum resolver k d v"
      if "(k, v) \<in> set out" for k v
    proof -
      from check_all_out [OF all that] obtain w row where "check_bound rend enum resolver bound index (k, w) = Inr (Inr (v, row))"
        by blast
      from check_bound_authorized [OF this] obtain d where d: "map_of index (PStr k) = Some d" "authorized rend enum resolver k d v"
        by blast
      with by_name_found [OF Inr d(1)] show ?thesis by blast
    qed
    ultimately show ?thesis by blast
  qed
qed

subsection \<open>The slots of a run\<close>

text \<open>
  \<^verbatim>\<open>src/iagent/defs/dynamic_supervisor.py\<close>, from the request's slots to the accepted ones: the
  slots a caller supplied, an answer that was typed, the picks through their door and over both;
  the filler is asked when nothing was brought. No resolver is passed to the door of the picks.
\<close>

text \<open>\<open>{**a, **b}\<close>\<close>

definition overlay :: "(string \<times> 'a) list \<Rightarrow> (string \<times> 'a) list \<Rightarrow> (string \<times> 'a) list" where
  "overlay a b = fold (\<lambda>p. AList.update (fst p) (snd p)) b a"

record run_request =
  rn_slots :: pydict
  rn_spoken_slot :: string
  rn_spoken_answer :: string
  rn_bound :: pydict

definition sourced :: "string \<Rightarrow> pydict \<Rightarrow> (string \<times> string) list" where
  "sourced src d = map (\<lambda>p. (fst p, src)) d"

definition typed_answer :: "run_request \<Rightarrow> pydict" where
  "typed_answer req = (if rn_spoken_slot req \<noteq> [] \<and> rn_spoken_answer req \<noteq> []
     then [(rn_spoken_slot req, PStr (rn_spoken_answer req))] else [])"

definition run_slots ::
  "(string \<Rightarrow> pyval option) \<Rightarrow> (pyval \<Rightarrow> string) \<Rightarrow> enumerator \<Rightarrow> nat \<Rightarrow> pydict \<Rightarrow> run_request \<Rightarrow> pyval \<Rightarrow>
     slot_fault + acceptance \<times> pick_refusal list" where
  "run_slots loads rend enum bound filled req declared =
     (let spoken = overlay (rn_slots req) (typed_answer req);
          sources = overlay (sourced ''supplied'' (rn_slots req)) (sourced ''spoken'' (typed_answer req)) in
      bind_r (if rn_bound req = [] \<or> \<not> truthy declared then Inr ([], [], [])
              else validate_bound_slots loads rend (Some enum) None bound (rn_bound req) declared) (\<lambda>(picked, refs, rows).
      let given = overlay spoken picked; from = overlay sources (sourced ''picked'' picked);
          fill = (given = [] \<and> truthy declared) in
      bind_r (accept_slots loads (if fill then filled else given) declared
        (if fill then overlay from (sourced ''filled'' filled) else from)) (\<lambda>a. Inr (a, refs))))"

definition brings :: "run_request \<Rightarrow> string \<Rightarrow> bool" where
  "brings req slot \<longleftrightarrow> has_key (rn_slots req) slot \<or> has_key (typed_answer req) slot \<or> has_key (rn_bound req) slot"

definition refused_slot :: "pick_refusal \<Rightarrow> string" where
  "refused_slot e = (case e of Unreadable n \<Rightarrow> n | NotDeclared n \<Rightarrow> n | NeverOffered n \<Rightarrow> n | NotInVocabulary n _ \<Rightarrow> n
     | NoMenu n \<Rightarrow> n | SourceUnreachable n _ \<Rightarrow> n | ResolverUnreachable n _ \<Rightarrow> n | PickRefused n _ \<Rightarrow> n)"

lemma overlay_keys: "fst ` set (overlay a b) = fst ` set a \<union> fst ` set b"
proof (induction b arbitrary: a)
  case (Cons p b)
  have "overlay a (p # b) = overlay (AList.update (fst p) (snd p) a) b" by (simp add: overlay_def)
  with Cons show ?case by (simp add: dom_update [unfolded dom_def])
qed (simp add: overlay_def)

lemma recomputed_menu_refusal: "recomputed_menu enum resolver bound name d referent = Inl e \<Longrightarrow> refused_slot e = name"
  by (auto simp: recomputed_menu_def bind_r_Inl refused_slot_def split: option.splits sum.splits if_splits)

lemma check_bound_refusal:
  assumes "check_bound rend enum resolver bound index p = Inr (Inl e)"
  shows "refused_slot e = fst p"
  using assms recomputed_menu_refusal
  by (fastforce simp: check_bound_def Let_def bind_r_Inr bind_r_Inl refused_slot_def split: option.splits if_splits sum.splits)

lemma check_all_settles:
  assumes "\<And>p e. f p = Inr (Inl e) \<Longrightarrow> refused_slot e = fst p" and "check_all f ps = Inr (out, refs, rows)" and "k \<in> fst ` set ps"
  shows "k \<in> fst ` set out \<or> (\<exists>e \<in> set refs. refused_slot e = k)"
  using assms(2,3)
proof (induction ps arbitrary: out refs rows)
  case (Cons p ps)
  from Cons.prems(1) obtain r out' refs' rows' where r: "f p = Inr r" and rest: "check_all f ps = Inr (out', refs', rows')"
    and eq: "(case r of Inr (v, row) \<Rightarrow> ((fst p, v) # out', refs', (fst p, row) # rows')
      | Inl e \<Rightarrow> (out', e # refs', rows')) = (out, refs, rows)"
    by (auto simp: bind_r_Inr)
  show ?case
  proof (cases "k = fst p")
    case True
    show ?thesis
    proof (cases r)
      case (Inl e)
      with r have "refused_slot e = k" using assms(1) [of p e] True by simp
      with Inl eq show ?thesis by auto
    qed (use eq True in auto)
  next
    case False
    with Cons.prems(2) Cons.IH [OF rest] eq show ?thesis by (cases r) auto
  qed
qed simp

lemma picks_are_settled:
  assumes "validate_bound_slots loads rend enum resolver bound picks declared = Inr (out, refs, rows)" and "k \<in> fst ` set picks"
  shows "k \<in> fst ` set out \<or> (\<exists>e \<in> set refs. refused_slot e = k)"
proof (cases "by_name (decode_declarations loads declared)")
  case (Inl f)
  with assms show ?thesis by (force simp: validate_bound_slots_def refused_slot_def split: if_splits)
next
  case (Inr index)
  with assms have "check_all (check_bound rend enum resolver bound index) (sort_key fst picks) = Inr (out, refs, rows)"
    by (auto simp: validate_bound_slots_def split: if_splits)
  from check_all_settles [OF check_bound_refusal this] assms(2) show ?thesis by auto
qed

lemma missing_needs_declarations: "\<not> truthy declared \<Longrightarrow> missing_slots rend accepted (decode_declarations loads declared) = []"
  by (cases declared) (auto simp: decode_declarations_def missing_slots_def mandatory_slots_def)

text \<open>
  C25. An answered slot is not asked for again without a word. Whatever a run was brought for a slot,
  by the caller, typed in answer to an ask or picked from its menu, goes through the door of the
  picks and the acceptance of the slots; and if the disposition then asks for that very slot, or
  abstains on it, one of the two has refused a value for it, in a refusal that names the slot. A slot
  that is asked for and was accepted is never the same one.
\<close>

theorem an_answered_slot_is_not_asked_again:
  assumes "run_slots loads rend enum bound filled req declared = Inr (a, refs)" and "brings req slot"
    and "dp_slot (decide_disposition loads rend enum' bound' (acc_params a) declared resolution) = Some slot"
  shows "\<not> has_key (acc_params a) slot \<and>
    ((\<exists>e \<in> set refs. refused_slot e = slot) \<or> (\<exists>r \<in> set (acc_refusals a). rf_name r = slot))"
proof -
  have missing: "slot \<in> set (missing_slots rend (acc_params a) (decode_declarations loads declared))"
    using assms(3) by (rule asked_is_missing)
  then have absent: "\<not> has_key (acc_params a) slot" by (simp add: missing_slots_def)
  have decl: "truthy declared" using missing missing_needs_declarations by fastforce
  let ?spoken = "overlay (rn_slots req) (typed_answer req)"
  from assms(1) obtain picked rows srcs where
    v: "(if rn_bound req = [] then Inr ([], [], []) else validate_bound_slots loads rend (Some enum) None bound (rn_bound req) declared)
       = Inr (picked, refs, rows)"
    and acc: "accept_slots loads (if overlay ?spoken picked = [] then filled else overlay ?spoken picked) declared srcs = Inr a"
    using decl by (auto simp: run_slots_def Let_def bind_r_Inr split: if_splits)
  have settled: "slot \<in> fst ` set (acc_params a) \<or> slot \<in> rf_name ` set (acc_refusals a)"
    if "slot \<in> fst ` set (overlay ?spoken picked)"
  proof -
    from that have "overlay ?spoken picked \<noteq> []" by auto
    with accept_slots_names [OF acc] have "mset (map fst (acc_params a)) + mset (map rf_name (acc_refusals a)) = mset (map fst (overlay ?spoken picked))"
      by simp
    then have "fst ` set (acc_params a) \<union> rf_name ` set (acc_refusals a) = fst ` set (overlay ?spoken picked)"
      by (metis set_map set_mset_mset set_mset_union)
    with that show ?thesis by auto
  qed
  have key: "has_key d k \<longleftrightarrow> k \<in> fst ` set d" for d :: pydict and k by (auto simp: has_key_def map_of_eq_None_iff)
  show ?thesis
  proof (cases "slot \<in> fst ` set (overlay ?spoken picked)")
    case True
    with settled absent key show ?thesis by auto
  next
    case False
    with assms(2) have pick: "slot \<in> fst ` set (rn_bound req)" and "slot \<notin> fst ` set picked"
      by (auto simp: brings_def key overlay_keys)
    moreover from pick v have "validate_bound_slots loads rend (Some enum) None bound (rn_bound req) declared = Inr (picked, refs, rows)"
      by (auto split: if_splits)
    ultimately show ?thesis using picks_are_settled absent by blast
  qed
qed

subsection \<open>Menu integrity\<close>

text \<open>Declarations with a text for a name, no two of the same, and vocabularies of texts.\<close>

definition textual :: "pydict list \<Rightarrow> bool" where
  "textual ds \<longleftrightarrow> distinct (map (\<lambda>d. dget d ''name'') ds) \<and>
     (\<forall>d \<in> set ds. plain_declaration d \<and> is_str (dget d ''name'') \<and> (\<forall>v \<in> set (list_or_nil (dget d ''values'')). is_str v))"

lemma by_name_finds:
  assumes "textual ds" and "d \<in> set ds"
  shows "\<exists>index. by_name ds = Inr index \<and> map_of index (dget d ''name'') = Some d"
proof -
  let ?ix = "rev (map (\<lambda>d. (dget d ''name'', d)) ds)"
  from assms(1) have "by_name ds = Inr ?ix"
    by (auto simp: by_name_def textual_def plain_declaration_def list_all_iff)
  moreover from assms(1) have "distinct (map fst ?ix)"
    by (simp add: textual_def rev_map [symmetric] comp_def)
  ultimately show ?thesis using assms(2) by (auto intro!: map_of_is_SomeI)
qed

lemma enumerated_source:
  assumes "dp_source (from_enumeration rend accepted d base en) = SrcEnumeration" and "dp_source base = SrcUnset"
  shows "en_outcome en = ''members'' \<and> dp_options (from_enumeration rend accepted d base en) = member_options (en_members en)"
  using assms by (simp add: from_enumeration_def Let_def split: if_splits)

lemma elicited_options:
  assumes "opt \<in> set (dp_options (elicit rend enum accepted d base))" and "dp_options base = []" and "dp_source base = SrcUnset"
  shows "(truthy (dget d ''values'') \<and> opt \<in> set (declared_options rend d)) \<or>
    (\<not> truthy (dget d ''values'') \<and> str_or_empty rend (dget d ''referent'') \<noteq> [] \<and>
      (\<exists>f en. enum = Some f \<and> enumerate_scoped f (str_or_empty rend (dget d ''referent'')) (bound_texts rend accepted) = Inr en \<and>
         en_outcome en = ''members'' \<and> opt \<in> set (member_options (en_members en))))"
  using assms by (auto simp: elicit_def from_enumeration_def Let_def split: if_splits option.splits sum.splits)

lemma decided_options:
  assumes "opt \<in> set (dp_options (decide_slot rend enum bound accepted name res d))"
    and "dp_source (decide_slot rend enum bound accepted name res d) \<noteq> SrcResolution"
  shows "(truthy (dget d ''values'') \<and> opt \<in> set (declared_options rend d)) \<or>
    (\<not> truthy (dget d ''values'') \<and> str_or_empty rend (dget d ''referent'') \<noteq> [] \<and>
      (\<exists>f en. enum = Some f \<and> enumerate_scoped f (str_or_empty rend (dget d ''referent'')) (bound_texts rend accepted) = Inr en \<and>
         en_outcome en = ''members'' \<and> opt \<in> set (member_options (en_members en))))"
proof -
  from assms obtain base where "opt \<in> set (dp_options (elicit rend enum accepted d base))" "dp_options base = []" "dp_source base = SrcUnset"
    by (auto simp: decide_slot_def Let_def route_disposition_def split: if_splits prod.splits)
  then show ?thesis by (rule elicited_options)
qed

definition steady :: "enumerator option \<Rightarrow> bool" where
  "steady enum \<longleftrightarrow> (\<forall>f r b. enum = Some f \<longrightarrow> f r (Some b) = f r None)"

lemma steady_enumeration:
  assumes "steady (Some f)" and "enumerate_scoped f referent bound = Inr en"
  shows "f referent None = Inr en"
  using assms by (auto simp: steady_def enumerate_scoped_def split: sum.splits provider_error.splits)

lemma option_is_accepted:
  assumes d: "plain_declaration d" "is_spoken_mandatory d" "\<forall>v \<in> set (list_or_nil (dget d ''values'')). is_str v"
    and index: "map_of index (PStr name) = Some d"
    and steady: "steady enum"
    and opt: "opt \<in> set (dp_options (decide_slot rend enum bound accepted name res d))"
    and src: "dp_source (decide_slot rend enum bound accepted name res d) \<noteq> SrcResolution"
  shows "\<exists>row. check_bound rend enum resolver bound index (name, PStr (opt_value opt)) =
    Inr (Inr (PStr (opt_value opt), row)) \<and> br_instance row = opt_value opt"
proof (cases "truthy (dget d ''values'')")
  case True
  from d(1) True obtain vs where vs: "dget d ''values'' = PList vs"
    by (cases "dget d ''values''") (auto simp: plain_declaration_def)
  from decided_options [OF opt src] True obtain v where "v \<in> set vs" "opt_value opt = str_of rend v"
    by (auto simp: declared_options_def vs list_or_nil_def)
  with d(3) have "PStr (opt_value opt) \<in> set vs"
    by (auto simp: vs list_or_nil_def is_str_iff str_of_def)
  then have "py_contains (PStr (opt_value opt)) (dget d ''values'') = Inr True"
    by (simp add: vs py_contains_def py_in_def list_ex_iff)
  with index d(2) True show ?thesis
    by (simp add: check_bound_def Let_def is_spoken_mandatory_def str_of_def)
next
  case False
  let ?r = "str_or_empty rend (dget d ''referent'')"
  from decided_options [OF opt src] False obtain f en where r: "?r \<noteq> []" and f: "enum = Some f"
    and en: "enumerate_scoped f ?r (bound_texts rend accepted) = Inr en" "en_outcome en = ''members''"
    and m: "opt \<in> set (member_options (en_members en))"
    by blast
  from steady_enumeration [OF steady [unfolded f] en(1)] have "f ?r None = Inr en" by simp
  moreover from m have v: "opt_value opt \<in> fst ` set (listed_members en)"
    by (auto simp: listed_members_def member_options_def en(2) image_iff)
  ultimately have "recomputed_menu enum resolver bound name d ?r = Inr (listed_members en)"
    by (auto simp: recomputed_menu_def f)
  with v index d(2) False r show ?thesis
    by (auto simp: check_bound_def Let_def is_spoken_mandatory_def str_of_def validate_pick_def)
qed

text \<open>
  C27. Menu integrity, on plain declarations: their names are texts, no two the same, kinds are no
  collections, and a vocabulary is a list of texts. There every option of a menu that comes from the
  declared vocabulary or from the provider is accepted when it is picked, bound to the value the
  option showed, if the provider lists the same members when it is asked again. An option that was
  resolved from candidates, and an option of a vocabulary of numbers, can be refused back.
\<close>

theorem an_offered_option_is_accepted_back:
  assumes "textual (decode_declarations loads declared)"
    and "steady enum"
    and "decide_disposition loads rend enum bound accepted declared resolution = disp"
    and "dp_slot disp = Some slot" and "opt \<in> set (dp_options disp)" and "dp_source disp \<noteq> SrcResolution"
  shows "\<exists>row. validate_bound_slots loads rend enum resolver bound [(slot, PStr (opt_value opt))] declared =
    Inr ([(slot, PStr (opt_value opt))], [], [(slot, row)]) \<and> br_instance row = opt_value opt"
proof -
  let ?ds = "decode_declarations loads declared"
  have disp: "disp = decide_first rend enum bound accepted resolution (mandatory_slots ?ds)"
    using assms(3) by (simp add: decide_disposition_def)
  obtain d res where d: "d \<in> set (mandatory_slots ?ds)"
    and e: "disp = decide_slot rend enum bound accepted (slot_name rend d) res d"
    by (rule decide_first_cases [of rend enum bound accepted resolution "mandatory_slots ?ds"])
      (use disp assms(5) in \<open>auto simp: route_disposition_def\<close>)
  with assms(4) decide_slot_asks have slot: "slot = slot_name rend d" by simp
  from d have ds: "d \<in> set ?ds" "is_spoken_mandatory d" by (auto simp: mandatory_slots_def)
  from by_name_finds [OF assms(1) ds(1)] obtain index where index: "by_name ?ds = Inr index"
    and found: "map_of index (dget d ''name'') = Some d" by blast
  from assms(1) ds(1) obtain s where s: "dget d ''name'' = PStr s"
    by (auto simp: textual_def is_str_iff)
  then have "slot = s"
    using slot by (auto simp: slot_name_def str_or_empty_def str_of_def)
  with found s have found: "map_of index (PStr slot) = Some d" by simp
  from assms(1) ds(1) have plain: "plain_declaration d" "\<forall>v \<in> set (list_or_nil (dget d ''values'')). is_str v"
    by (auto simp: textual_def)
  have "\<exists>row. check_bound rend enum resolver bound index (slot, PStr (opt_value opt)) =
    Inr (Inr (PStr (opt_value opt), row)) \<and> br_instance row = opt_value opt"
    by (rule option_is_accepted [OF plain(1) ds(2) plain(2) found assms(2)])
      (use assms(5,6) e slot in auto)
  then show ?thesis
    by (auto simp: validate_bound_slots_def index)
qed

subsection \<open>Instances\<close>

definition demo_rend :: "pyval \<Rightarrow> string" where
  "demo_rend v = (case v of PInt n \<Rightarrow> dec_of (nat n) | PStr s \<Rightarrow> [char_of (39 :: nat)] @ s @ [char_of (39 :: nat)] | _ \<Rightarrow> [])"

definition demo_part :: pyval where
  "demo_part = PList [PDict [(''name'', PStr ''part''), (''kind'', PStr ''spoken-mandatory''),
     (''referent'', PStr ''Part''), (''binds'', PStr ''identifier'')]]"

definition demo_project :: pyval where
  "demo_project = PList [
     PDict [(''name'', PStr ''direction''), (''kind'', PStr ''spoken-optional'')],
     PDict [(''name'', PStr ''project''), (''kind'', PStr ''spoken-mandatory''), (''referent'', PStr ''Project'')]]"

definition demo_members :: enumerator where
  "demo_members referent bound = Inr \<lparr>en_outcome = ''members'', en_members = [(''P1'', ''One''), (''P2'', ''Two'')],
     en_count = 0, en_scoped = [], en_reason = []\<rparr>"

definition demo_candidate :: "string \<Rightarrow> string \<Rightarrow> candidate" where
  "demo_candidate i cls = \<lparr>cd_instance = i, cd_class = cls, cd_chain = None, cd_matched = ''PN-1'', cd_label = []\<rparr>"

definition demo_resolution :: "string \<Rightarrow> string \<Rightarrow> candidate list \<Rightarrow> (string \<times> resolved) list" where
  "demo_resolution slot outcome cands = [(slot, \<lparr>rs_outcome = outcome, rs_spoken = ''x'', rs_candidates = cands\<rparr>)]"

text \<open>
  Two instances of the slot's own class that share the top score are to be an ask with those two as its
  menu; their outcome is not one of those whose candidates are read, and the ask has no menu.
\<close>

lemma same_class_tie_gets_no_menu:
  "dp_options (decide_disposition (\<lambda>_. None) demo_rend None 10 [] demo_project
      (demo_resolution ''project'' ''ambiguous_in_class'' [demo_candidate ''P1'' ''Project'', demo_candidate ''P2'' ''Project''])) = [] \<and>
   dp_options (decide_disposition (\<lambda>_. None) demo_rend None 10 [] demo_project
      (demo_resolution ''project'' ''fuzzy'' [demo_candidate ''P1'' ''Project'', demo_candidate ''P2'' ''Project''])) \<noteq> []"
  by code_simp

text \<open>
  The menu keeps the admitted candidates and then cuts it; the check of the pick cuts first. An option
  that stands behind candidates of another class is offered and refused.
\<close>

lemma option_behind_other_classes_is_refused_back:
  "let cands = [demo_candidate ''I1'' ''Initiative'', demo_candidate ''P1'' ''Project'']; resolver = Some (\<lambda>_ _. Inr cands) in
     map opt_value (dp_options (decide_disposition (\<lambda>_. None) demo_rend None 1 [] demo_project
       (demo_resolution ''project'' ''fuzzy'' cands))) = [''P1''] \<and>
     validate_bound_slots (\<lambda>_. None) demo_rend None resolver 1 [(''project'', PStr ''P1'')] demo_project =
       Inr ([], [NoMenu ''project''], [])"
  by code_simp

text \<open>A slot that binds an identifier offers the identifier and is checked against the members' instance ids.\<close>

lemma identifier_option_is_refused_back:
  "let cands = [demo_candidate ''urn:P1'' ''Part'']; resolver = Some (\<lambda>_ _. Inr cands) in
     map opt_value (dp_options (decide_disposition (\<lambda>_. None) demo_rend (Some demo_members) 10 [] demo_part
       (demo_resolution ''part'' ''fuzzy'' cands))) = [''PN-1''] \<and>
     validate_bound_slots (\<lambda>_. None) demo_rend (Some demo_members) resolver 10 [(''part'', PStr ''PN-1'')] demo_part =
       Inr ([], [PickRefused ''part'' (NotOffered ''PN-1'' [])], [])"
  by code_simp

text \<open>A declared vocabulary of numbers is offered as texts, and a text is not in it.\<close>

lemma number_of_the_vocabulary_is_refused_back:
  "let declared = PList [PDict [(''name'', PStr ''lot''), (''kind'', PStr ''spoken-mandatory''), (''values'', PList [PInt 1, PInt 2])]] in
     map opt_value (dp_options (decide_disposition (\<lambda>_. None) demo_rend None 10 [] declared [])) = [''1'', ''2''] \<and>
     validate_bound_slots (\<lambda>_. None) demo_rend None None 10 [(''lot'', PStr ''1'')] declared =
       Inr ([], [NotInVocabulary ''lot'' (PStr ''1'')], [])"
  by code_simp

lemma a_resolved_menu_offers_admitted_candidates_witness:
  "distinct (map opt_value [option_of [] (demo_candidate ''P1'' ''Project'')]) \<and>
   (\<exists>d \<in> set (decode_declarations (\<lambda>_. None) demo_project). is_spoken_mandatory d)"
proof -
  let ?d = "decide_disposition (\<lambda>_. None) demo_rend None 10 [] demo_project
    (demo_resolution ''project'' ''fuzzy'' [demo_candidate ''I1'' ''Initiative'', demo_candidate ''P1'' ''Project''])"
  have "dp_source ?d = SrcResolution" and "dp_options ?d = [option_of [] (demo_candidate ''P1'' ''Project'')]"
    by code_simp+
  with a_resolved_menu_offers_admitted_candidates [OF refl this(1)] show ?thesis by auto
qed

lemma a_menuless_ask_says_why_witness:
  "\<exists>c. ask_card demo_rend (decide_disposition (\<lambda>_. None) demo_rend None 10 [] demo_project []) ''v'' ''q'' [] = Some c"
proof -
  have "\<forall>d \<in> set (decode_declarations (\<lambda>_. None) demo_project). plain_declaration d" by code_simp
  from a_menuless_ask_says_why [OF this] show ?thesis by blast
qed

definition demo_card :: ask_card where
  "demo_card = the (ask_card demo_rend (decide_disposition (\<lambda>_. None) demo_rend (Some demo_members) 10 [] demo_project [])
     ''v'' ''q'' [])"

lemma only_an_offered_value_is_bound_witness:
  "case resolve_ask demo_card '' P2 '' of Inr r \<Rightarrow> rr_bind r \<and> rr_slot r = ''project'' | Inl e \<Rightarrow> False"
proof -
  have c: "ac_slot demo_card = Some ''project''" "ac_options demo_card \<noteq> []" "py_strip '' P2 '' \<noteq> []"
    "py_strip '' P2 '' \<in> opt_value ` set (ac_options demo_card)"
    by code_simp+
  from only_an_offered_value_is_bound [OF c(1) _ c(3)] c(2,4) show ?thesis
    by (cases "resolve_ask demo_card '' P2 ''") simp_all
qed

lemma an_answer_fills_its_slot_witness:
  "missing_slots demo_rend [(''project'', PStr ''P2'')] (decode_declarations (\<lambda>_. None) demo_project) =
     filter (\<lambda>n. n \<noteq> ''project'') (missing_slots demo_rend [] (decode_declarations (\<lambda>_. None) demo_project))"
proof -
  let ?d = "decide_disposition (\<lambda>_. None) demo_rend (Some demo_members) 10 [] demo_project []"
  let ?r = "\<lparr>rr_bind = True, rr_slots = [(''project'', PStr ''P2'')], rr_query = [], rr_slot = ''project'', rr_spoken = []\<rparr>"
  have "dp_slot ?d = Some ''project''" "ask_card demo_rend ?d ''v'' ''q'' [] = Some demo_card"
    "resolve_ask demo_card ''P2'' = Inr ?r"
    by code_simp+
  from an_answer_fills_its_slot [OF this] show ?thesis by simp
qed

text \<open>A pick that was never offered: the run asks again, and says that it refused it.\<close>

definition demo_answer :: "string \<Rightarrow> run_request" where
  "demo_answer v = \<lparr>rn_slots = [], rn_spoken_slot = [], rn_spoken_answer = [], rn_bound = [(''project'', PStr v)]\<rparr>"

lemma demo_picked:
  "case run_slots (\<lambda>_. None) demo_rend demo_members 10 [] (demo_answer ''P2'') demo_project of
     Inr (a, refs) \<Rightarrow> acc_bound a = [(''project'', PStr ''P2'', ''picked'')] \<and> refs = [] | Inl _ \<Rightarrow> False"
  by code_simp

theorem an_answered_slot_is_not_asked_again_witness:
  "\<exists>a refs e. run_slots (\<lambda>_. None) demo_rend demo_members 10 [] (demo_answer ''P9'') demo_project = Inr (a, refs) \<and>
     e \<in> set refs \<and> refused_slot e = ''project''"
proof -
  have "case run_slots (\<lambda>_. None) demo_rend demo_members 10 [] (demo_answer ''P9'') demo_project of
     Inr (a, refs) \<Rightarrow> acc_refusals a = [] \<and>
       dp_slot (decide_disposition (\<lambda>_. None) demo_rend (Some demo_members) 10 (acc_params a) demo_project []) = Some ''project''
   | Inl _ \<Rightarrow> False"
    by code_simp
  then obtain a refs where r: "run_slots (\<lambda>_. None) demo_rend demo_members 10 [] (demo_answer ''P9'') demo_project = Inr (a, refs)"
    "acc_refusals a = []" "dp_slot (decide_disposition (\<lambda>_. None) demo_rend (Some demo_members) 10 (acc_params a) demo_project []) = Some ''project''"
    by (auto split: sum.splits)
  have "brings (demo_answer ''P9'') ''project''" by code_simp
  from an_answered_slot_is_not_asked_again [OF r(1) this r(3)] r show ?thesis by auto
qed

lemma a_pick_is_checked_against_a_recomputed_menu_witness:
  "\<exists>d \<in> set (decode_declarations (\<lambda>_. None) demo_project). dget d ''name'' = PStr ''project'' \<and>
     authorized demo_rend (Some demo_members) None ''project'' d (PStr ''P2'')"
proof -
  have "validate_bound_slots (\<lambda>_. None) demo_rend (Some demo_members) None 10
      [(''project'', PStr ''P2''), (''ops'', PNone)] demo_project =
    Inr ([(''project'', PStr ''P2'')], [NotDeclared ''ops''], [(''project'', \<lparr>br_spoken = ''Two'', br_instance = ''P2''\<rparr>)])"
    by code_simp
  from a_pick_is_checked_against_a_recomputed_menu [OF this] show ?thesis by simp
qed

lemma an_offered_option_is_accepted_back_witness:
  "\<exists>row. validate_bound_slots (\<lambda>_. None) demo_rend (Some demo_members) None 10 [(''project'', PStr ''P1'')] demo_project =
     Inr ([(''project'', PStr ''P1'')], [], [(''project'', row)]) \<and> br_instance row = ''P1''"
proof -
  let ?d = "decide_disposition (\<lambda>_. None) demo_rend (Some demo_members) 10 [] demo_project []"
  let ?o = "\<lparr>opt_value = ''P1'', opt_label = ''One''\<rparr>"
  have "textual (decode_declarations (\<lambda>_. None) demo_project)" "dp_slot ?d = Some ''project''" "?o \<in> set (dp_options ?d)"
    "dp_source ?d \<noteq> SrcResolution"
    by code_simp+
  moreover have "steady (Some demo_members)" by (auto simp: steady_def demo_members_def)
  ultimately show ?thesis
    using an_offered_option_is_accepted_back [where opt = ?o, OF _ _ refl] by fastforce
qed

end
