(* ===== verification/Direct_Dispatch.thy ===== *)
theory Direct_Dispatch
  imports Slot_Disposition
begin

text \<open>
  Executing a route that an ask already settled, without a run: \<^verbatim>\<open>src/iagent/direct_dispatch.py\<close>
  with the verb gates of \<^verbatim>\<open>iagent_pure/verb_eligibility.py\<close>, the routing record of
  \<^verbatim>\<open>iagent_pure/routing_record.py\<close>, the verifier call of \<^verbatim>\<open>src/iagent/verb_lookup.py\<close> and the
  readers of \<^verbatim>\<open>src/iagent/gateway.py\<close> that supply what an earlier hop established.

  What the verifier and an engine answer are arguments. A dispatch is the list of what it did in
  order (the stages it announced, the call it made) with its outcome, or the exception it raised.
  A slot name that is a collection, which Python would raise on, is here a name that is not bound.
\<close>

subsection \<open>Verbs\<close>

record compat_verb =
  cv_iri :: string
  cv_local :: string
  cv_input :: string
  cv_output :: string
  cv_endpoint :: string
  cv_owner :: string
  cv_provider :: string
  cv_domains :: "string list"
  cv_arity :: string
  cv_slots :: pyval
  cv_needs_instance :: bool

definition flag_verbs_by_arity :: "compat_verb list \<Rightarrow> bool \<Rightarrow> compat_verb list \<times> compat_verb list" where
  "flag_verbs_by_arity vs query_is_set =
     (if \<not> query_is_set \<or> vs = [] then (vs, [])
      else (let single = (\<lambda>v. py_lower (cv_arity v) = ''single''); mark = (\<lambda>v. v \<lparr>cv_needs_instance := True\<rparr>) in
        (map (\<lambda>v. if single v then mark v else v) vs, map mark (filter single vs))))"

definition names_instance :: "pydict \<Rightarrow> bool" where
  "names_instance d \<longleftrightarrow> truthy (dget d ''referent'') \<and> truthy (dget d ''required'')"

definition turn_is_set_shaped :: "(string \<Rightarrow> pyval option) \<Rightarrow> string \<Rightarrow> compat_verb \<Rightarrow> string list \<Rightarrow> bool" where
  "turn_is_set_shaped loads instance_id v bound =
     (if instance_id \<noteq> [] then False
      else if bound = [] then True
      else \<not> list_ex (\<lambda>d. names_instance d \<and> py_in (dget d ''name'') (map PStr bound)) (decode_declarations loads (cv_slots v)))"

record chain_slot =
  cs_value :: pyval
  cs_source :: string
  cs_hop :: nat
  cs_artifact :: string

definition promotable :: "string \<Rightarrow> bool" where
  "promotable source \<longleftrightarrow> source = ''picked'' \<or> source = ''filled''"

text \<open>The first declared slot that names the instance and is bound decides.\<close>

definition promotable_instance ::
  "(string \<Rightarrow> pyval option) \<Rightarrow> (pyval \<Rightarrow> string) \<Rightarrow> compat_verb \<Rightarrow> (string \<times> chain_slot) list \<Rightarrow> (string \<times> string \<times> string) option" where
  "promotable_instance loads rend v slots =
     (case filter (\<lambda>d. names_instance d \<and> (\<exists>n \<in> set (map fst slots). dget d ''name'' = PStr n))
        (decode_declarations loads (cv_slots v)) of
        [] \<Rightarrow> None
      | d # _ \<Rightarrow> (let name = str_or_nil (dget d ''name'') in (case map_of slots name of
          None \<Rightarrow> None
        | Some c \<Rightarrow> if \<not> promotable (cs_source c) \<or> cs_value c = PNone \<or> cs_value c = PStr [] then None
            else Some (str_of rend (cs_value c), name, cs_source c))))"

record predicate =
  pr_iri :: string
  pr_type :: string
  pr_input :: string
  pr_output :: string
  pr_endpoint :: string
  pr_owner :: string
  pr_provider :: string
  pr_domains :: "string list"
  pr_slots :: "pydict list"
  pr_needs_instance :: bool

definition predicate_from_compat_record :: "(string \<Rightarrow> pyval option) \<Rightarrow> compat_verb \<Rightarrow> predicate" where
  "predicate_from_compat_record loads v = \<lparr>pr_iri = cv_iri v, pr_type = cv_local v, pr_input = cv_input v, pr_output = cv_output v,
     pr_endpoint = cv_endpoint v, pr_owner = cv_owner v, pr_provider = [], pr_domains = cv_domains v,
     pr_slots = decode_declarations loads (cv_slots v), pr_needs_instance = cv_needs_instance v\<rparr>"

subsection \<open>The verifier\<close>

type_synonym verifier = "string \<Rightarrow> string list \<Rightarrow> string + compat_verb list"

definition find_compatible_verbs :: "verifier \<Rightarrow> string \<Rightarrow> string list \<Rightarrow> string + compat_verb list" where
  "find_compatible_verbs ask subject domains =
     (if subject = [] \<or> subject = ''UNKNOWN'' then Inr [] else ask subject domains)"

definition upper_names :: "string list \<Rightarrow> string list" where
  "upper_names ds = sort (remdups (map py_upper ds))"

text \<open>The domains of the first listed verb of that name whose domains the caller holds none of.\<close>

fun outside_domains :: "string \<Rightarrow> string list \<Rightarrow> compat_verb list \<Rightarrow> string list" where
  "outside_domains verb held [] = []"
| "outside_domains verb held (cv # cvs) =
     (let declared = upper_names (cv_domains cv) in
      if cv_iri cv = verb \<and> declared \<noteq> [] \<and> set held \<inter> set declared = {} then declared
      else outside_domains verb held cvs)"

definition declared_outside_cell :: "verifier \<Rightarrow> string \<Rightarrow> string \<Rightarrow> string list \<Rightarrow> string list" where
  "declared_outside_cell ask subject verb domains = (case find_compatible_verbs ask subject [] of
     Inl _ \<Rightarrow> [] | Inr vs \<Rightarrow> outside_domains verb (map py_upper domains) vs)"

subsection \<open>What earlier hops established\<close>

definition known_source :: "string \<Rightarrow> bool" where
  "known_source s \<longleftrightarrow> s \<in> {''picked'', ''spoken'', ''supplied'', ''filled''}"

record hop_row =
  hr_id :: string
  hr_hops :: nat
  hr_bound :: "(string \<times> pyval) list"

text \<open>One slot of one hop: what is not a record with a known source and a value is not carried.\<close>

definition carry_slot :: "(pyval \<Rightarrow> string) \<Rightarrow> hop_row \<Rightarrow> string \<times> pyval \<Rightarrow> (string \<times> chain_slot) list \<Rightarrow> (string \<times> chain_slot) list" where
  "carry_slot rend row p out =
     (if map_of out (fst p) \<noteq> None then out
      else (case snd p of
        PDict r \<Rightarrow> (let source = str_or_empty rend (dget r ''source'') in
          if known_source source \<and> has_key r ''value''
          then out @ [(fst p, \<lparr>cs_value = dget r ''value'', cs_source = source, cs_hop = hr_hops row, cs_artifact = hr_id row\<rparr>)]
          else out)
      | _ \<Rightarrow> out))"

definition accumulated_slots :: "(pyval \<Rightarrow> string) \<Rightarrow> hop_row list \<Rightarrow> (string \<times> chain_slot) list" where
  "accumulated_slots rend rows = fold (\<lambda>row out. fold (carry_slot rend row) (hr_bound row) out) rows []"

record pre_resolved =
  pre_subject :: string
  pre_instance :: string
  pre_verb :: string

definition pre_resolved_from_ask :: "(pyval \<Rightarrow> string) \<Rightarrow> pydict option \<Rightarrow> pre_resolved option" where
  "pre_resolved_from_ask rend intent = (case intent of
     None \<Rightarrow> None
   | Some d \<Rightarrow> (let subject = str_or_empty rend (dget d ''subject_uri''); verb = str_or_empty rend (dget d ''verb_iri'') in
       if subject = [] \<or> verb = [] \<or> subject = ''UNKNOWN'' then None
       else Some \<lparr>pre_subject = subject, pre_instance = str_or_empty rend (dget d ''subject_instance_id''), pre_verb = verb\<rparr>))"

subsection \<open>What a dispatch does and records\<close>

datatype stage = Verifying | Calling
datatype stage_status = Started | Completed | Failed

record engine_request =
  er_query :: string
  er_params :: pydict
  er_thread :: string
  er_persona :: string

record engine_failure =
  ef_exception :: string
  ef_message :: string
  ef_status :: "int option"
  ef_body :: "string option"

datatype event = Stage stage stage_status | Posted string engine_request

datatype outcome_kind = Routed | OutAsk | OutAbstain | FallBack

record routing_row =
  ro_subject :: string
  ro_instance :: string
  ro_verb :: string
  ro_candidates :: nat
  ro_excluded :: "string list"
  ro_persona :: string
  ro_domains :: string
  ro_query :: string
  ro_provider :: string
  ro_endpoint :: string
  ro_owner :: string
  ro_output :: string

record slots_row =
  sl_accepted :: pydict
  sl_bound :: "(string \<times> pyval \<times> string) list"
  sl_refused :: "(string \<times> string \<times> pyval) list"
  sl_instance :: "string option"

record direct_outcome =
  do_kind :: outcome_kind
  do_reason :: string
  do_routing :: "routing_row option"
  do_slots :: "slots_row option"
  do_response :: "pyval option"
  do_failure :: "engine_failure option"
  do_params :: pydict
  do_refusals :: "(string \<times> string \<times> pyval) list"
  do_missing :: "string list"

definition dispatch_outcome :: "outcome_kind \<Rightarrow> string \<Rightarrow> direct_outcome" where
  "dispatch_outcome k reason = \<lparr>do_kind = k, do_reason = reason, do_routing = None, do_slots = None, do_response = None,
     do_failure = None, do_params = [], do_refusals = [], do_missing = []\<rparr>"

definition reason_text :: "refusal_reason \<Rightarrow> string" where
  "reason_text r = (case r of NoDeclarations \<Rightarrow> ''no-declarations'' | Undeclared \<Rightarrow> ''undeclared''
     | RouteSupplied \<Rightarrow> ''route-supplied'' | NotPermitted \<Rightarrow> ''not-a-permitted-value''
     | WrongShape \<Rightarrow> ''wrong-shape'' | EmptyMandatory \<Rightarrow> ''empty-mandatory'')"

text \<open>The part of an endpoint that stands for its provider where none is registered: the host's first label.\<close>

fun after_slashes :: "string \<Rightarrow> string option" where
  "after_slashes (a # b # cs) = (if a = CHR ''/'' \<and> b = CHR ''/'' then Some cs else after_slashes (b # cs))"
| "after_slashes s = None"

definition provider_from_endpoint :: "string \<Rightarrow> string" where
  "provider_from_endpoint endpoint = (case after_slashes endpoint of None \<Rightarrow> []
     | Some s \<Rightarrow> before_first (CHR ''.'') (before_first (CHR '':'') (before_first (CHR ''/'') s)))"

definition routing_record ::
  "string \<Rightarrow> string \<Rightarrow> string \<Rightarrow> nat \<Rightarrow> string list \<Rightarrow> string \<Rightarrow> string list \<Rightarrow> string \<Rightarrow> predicate \<Rightarrow> routing_row" where
  "routing_record subject instance_id verb candidates excluded persona domains query pr = \<lparr>
     ro_subject = (if subject = [] then ''UNKNOWN'' else subject), ro_instance = instance_id,
     ro_verb = (if verb = [] then ''UNKNOWN'' else verb), ro_candidates = candidates, ro_excluded = excluded,
     ro_persona = persona, ro_domains = join_text '','' domains, ro_query = query,
     ro_provider = (if pr_provider pr = [] then provider_from_endpoint (pr_endpoint pr) else pr_provider pr),
     ro_endpoint = pr_endpoint pr, ro_owner = pr_owner pr, ro_output = pr_output pr\<rparr>"

subsection \<open>The layers of a turn's slots\<close>

record turn =
  tu_pre :: pre_resolved
  tu_bound :: pydict
  tu_chain :: "(string \<times> chain_slot) list"
  tu_spoken :: string
  tu_query :: string
  tu_run :: string
  tu_domains :: "string list"
  tu_persona :: string

definition turn_records :: "turn \<Rightarrow> (string \<times> chain_slot) list" where
  "turn_records t = map (\<lambda>p. (fst p, \<lparr>cs_value = snd p, cs_source = ''picked'', cs_hop = 0, cs_artifact = []\<rparr>)) (tu_bound t)"

definition provenance_of :: "turn \<Rightarrow> (string \<times> chain_slot) list" where
  "provenance_of t = overlay (tu_chain t) (turn_records t)"

definition supplied_slots :: "turn \<Rightarrow> pydict" where
  "supplied_slots t = overlay (map (\<lambda>p. (fst p, cs_value (snd p))) (tu_chain t)) (tu_bound t)"

definition supplied_sources :: "turn \<Rightarrow> (string \<times> string) list" where
  "supplied_sources t = overlay (map (\<lambda>p. (fst p, cs_source (snd p))) (tu_chain t)) (map (\<lambda>p. (fst p, ''picked'')) (tu_bound t))"

definition unfilled_slots :: "(pyval \<Rightarrow> string) \<Rightarrow> pydict list \<Rightarrow> pydict \<Rightarrow> string list" where
  "unfilled_slots rend declared supplied =
     filter (\<lambda>n. n \<noteq> [] \<and> \<not> has_key supplied n) (map (slot_name rend) (mandatory_slots declared))"

text \<open>A typed answer is the value of the one mandatory slot that is unfilled, or of none.\<close>

definition with_spoken ::
  "(pyval \<Rightarrow> string) \<Rightarrow> pydict list \<Rightarrow> string \<Rightarrow> pydict \<times> (string \<times> string) list \<Rightarrow> pydict \<times> (string \<times> string) list" where
  "with_spoken rend declared spoken given =
     (if spoken = [] then given
      else (case unfilled_slots rend declared (fst given) of
        [n] \<Rightarrow> (AList.update n (PStr spoken) (fst given), AList.update n ''spoken'' (snd given))
      | _ \<Rightarrow> given))"

definition turn_slots :: "(pyval \<Rightarrow> string) \<Rightarrow> pydict list \<Rightarrow> turn \<Rightarrow> pydict \<times> (string \<times> string) list" where
  "turn_slots rend declared t = with_spoken rend declared (tu_spoken t) (supplied_slots t, supplied_sources t)"

text \<open>A slot the chain holds and the disposition still asks for.\<close>

definition re_asked :: "(pyval \<Rightarrow> string) \<Rightarrow> turn \<Rightarrow> disposition \<Rightarrow> (string \<times> string \<times> pyval) list" where
  "re_asked rend t disp = (case dp_slot disp of
     Some s \<Rightarrow> (case map_of (tu_chain t) s of
       Some c \<Rightarrow> if s \<noteq> [] \<and> dp_action disp \<noteq> Route
         then [(s, ''re_ask_of_bound_slot: bound at hop '' @ rend (PInt (int (cs_hop c))) @ '' (source='' @ cs_source c @
           '', artifact='' @ cs_artifact c @ ''); disposition says '' @
           (if dp_reason disp = [] then ''unfilled'' else dp_reason disp), PStr (str_or_empty rend (cs_value c)))]
         else []
     | None \<Rightarrow> [])
   | None \<Rightarrow> [])"

definition ask_reason :: "disposition \<Rightarrow> (string \<times> string \<times> pyval) list \<Rightarrow> string" where
  "ask_reason disp refusals = (case filter (\<lambda>r. Some (fst r) = dp_slot disp) refusals of
     r # _ \<Rightarrow> ''slot refused: '' @ fst (snd r)
   | [] \<Rightarrow> (if dp_action disp = Ask then ''ask'' else ''abstain'') @ '': slot '' @
       (case dp_slot disp of Some s \<Rightarrow> if s = [] then ''?'' else s | None \<Rightarrow> ''?'') @ '' ('' @
       (if dp_reason disp = [] then ''unfilled'' else dp_reason disp) @ '')'')"

subsection \<open>The dispatch\<close>

type_synonym engine = "string \<Rightarrow> engine_request \<Rightarrow> engine_failure + pyval"

type_synonym dispatched = "event list \<times> (slot_fault + direct_outcome)"

text \<open>The verbs with the arity gate's flags, and those it flagged.\<close>

definition gate_verbs ::
  "(string \<Rightarrow> pyval option) \<Rightarrow> turn \<Rightarrow> compat_verb list \<Rightarrow> compat_verb list \<times> compat_verb list" where
  "gate_verbs loads t vs = (let names = map fst (provenance_of t);
       each = map (\<lambda>v. flag_verbs_by_arity [v] (turn_is_set_shaped loads (pre_instance (tu_pre t)) v names)) vs in
     (concat (map fst each), concat (map snd each)))"

definition resolved_instance :: "(string \<Rightarrow> pyval option) \<Rightarrow> (pyval \<Rightarrow> string) \<Rightarrow> turn \<Rightarrow> compat_verb \<Rightarrow> string" where
  "resolved_instance loads rend t v = (if pre_instance (tu_pre t) \<noteq> [] then pre_instance (tu_pre t)
     else (case promotable_instance loads rend v (provenance_of t) of Some (i, _) \<Rightarrow> i | None \<Rightarrow> []))"

definition refusal_rows :: "acceptance \<Rightarrow> (string \<times> string \<times> pyval) list" where
  "refusal_rows a = map (\<lambda>r. (rf_name r, reason_text (rf_reason r), rf_spoken r)) (acc_refusals a)"

definition optional_text :: "string \<Rightarrow> string option" where
  "optional_text s = (if s = [] then None else Some s)"

text \<open>From the accepted slots on: the disposition, the arity precondition, the call.\<close>

definition call_engine ::
  "engine \<Rightarrow> string \<Rightarrow> engine_request \<Rightarrow> direct_outcome \<Rightarrow> event list \<times> direct_outcome" where
  "call_engine post endpoint req base = (case post endpoint req of
     Inl f \<Rightarrow> ([Stage Calling Started, Posted endpoint req, Stage Calling Failed],
       base \<lparr>do_kind := OutAbstain, do_reason := ''engine did not answer: '' @ ef_exception f @ '': '' @ ef_message f,
         do_failure := Some f\<rparr>)
   | Inr body \<Rightarrow> ([Stage Calling Started, Posted endpoint req, Stage Calling Completed], base \<lparr>do_response := Some body\<rparr>))"

definition conclude_dispatch ::
  "(pyval \<Rightarrow> string) \<Rightarrow> engine \<Rightarrow> nat \<Rightarrow> turn \<Rightarrow> predicate \<Rightarrow> string \<Rightarrow> routing_row \<Rightarrow> acceptance \<Rightarrow> event list \<times> direct_outcome" where
  "conclude_dispatch rend post bound t pr instance_id routing a =
     (let params = acc_params a;
          disp = decide_disposition (\<lambda>_. None) rend None bound params (PList (map PDict (pr_slots pr))) [];
          refusals = refusal_rows a @ re_asked rend t disp;
          base = (dispatch_outcome Routed []) \<lparr>do_routing := Some routing, do_refusals := refusals\<rparr> in
      if dp_action disp \<noteq> Route then
        ([], base \<lparr>do_kind := (if dp_action disp = Ask then OutAsk else OutAbstain),
           do_reason := ask_reason disp refusals, do_params := params\<rparr>)
      else if pr_needs_instance pr \<and> params = [] then
        ([], base \<lparr>do_kind := OutAsk, do_reason := (case refusals of r # _ \<Rightarrow> ''slot refused: '' @ fst (snd r) | [] \<Rightarrow> ''needs_instance'')\<rparr>)
      else if pr_endpoint pr = [] then ([], dispatch_outcome FallBack (''verb '' @ pre_verb (tu_pre t) @ '' has no endpoint''))
      else call_engine post (pr_endpoint pr)
        \<lparr>er_query = tu_query t, er_params = params, er_thread = tu_run t, er_persona = tu_persona t\<rparr>
        (base \<lparr>do_slots := Some \<lparr>sl_accepted = params, sl_bound = acc_bound a, sl_refused = refusals,
           sl_instance = optional_text instance_id\<rparr>, do_params := params\<rparr>))"

definition dispatch_verb ::
  "(string \<Rightarrow> pyval option) \<Rightarrow> (pyval \<Rightarrow> string) \<Rightarrow> engine \<Rightarrow> nat \<Rightarrow> turn \<Rightarrow> compat_verb list \<times> compat_verb list \<Rightarrow> compat_verb \<Rightarrow> dispatched" where
  "dispatch_verb loads rend post bound t gated v =
     (let pr = predicate_from_compat_record loads v; instance_id = resolved_instance loads rend t v;
          slots = turn_slots rend (pr_slots pr) t;
          routing = routing_record (pre_subject (tu_pre t)) instance_id (pre_verb (tu_pre t)) (length (fst gated))
            (map cv_iri (snd gated)) (tu_persona t) (tu_domains t) (tu_query t) pr in
      (case accept_slots loads (fst slots) (PList (map PDict (pr_slots pr))) (snd slots) of
         Inl e \<Rightarrow> ([], Inl e)
       | Inr a \<Rightarrow> (let (events, oc) = conclude_dispatch rend post bound t pr instance_id routing a in (events, Inr oc))))"

text \<open>The texts of this refusal that list the domains are left out: they are in \<open>do_missing\<close>.\<close>

definition not_listed ::
  "verifier \<Rightarrow> turn \<Rightarrow> compat_verb list \<Rightarrow> direct_outcome" where
  "not_listed ask t listed_verbs =
     (let subject = pre_subject (tu_pre t); verb = pre_verb (tu_pre t);
          missing = (if verb \<in> cv_iri ` set listed_verbs \<or> tu_domains t = [] then []
            else declared_outside_cell ask subject verb (tu_domains t)) in
      if missing \<noteq> [] then (dispatch_outcome FallBack (''verb '' @ verb @ '' is not in this cell'')) \<lparr>do_missing := missing\<rparr>
      else dispatch_outcome FallBack (''verb '' @ verb @ '' no longer compatible with '' @ subject))"

definition dispatch_pre_resolved ::
  "(string \<Rightarrow> pyval option) \<Rightarrow> (pyval \<Rightarrow> string) \<Rightarrow> verifier \<Rightarrow> engine \<Rightarrow> nat \<Rightarrow> turn \<Rightarrow> dispatched" where
  "dispatch_pre_resolved loads rend ask post bound t =
     (let subject = pre_subject (tu_pre t); verb = pre_verb (tu_pre t) in
      if subject = [] \<or> verb = [] then ([], Inr (dispatch_outcome FallBack ''no pre-resolved route''))
      else (case find_compatible_verbs ask subject (tu_domains t) of
        Inl err \<Rightarrow> ([Stage Verifying Started, Stage Verifying Failed],
          Inr (dispatch_outcome FallBack (''verifier unreachable: '' @ err)))
      | Inr vs \<Rightarrow> (let gated = gate_verbs loads t vs in
          (case filter (\<lambda>v. cv_iri v = verb) (fst gated) of
             [] \<Rightarrow> ([Stage Verifying Started, Stage Verifying Failed], Inr (not_listed ask t vs))
           | v # _ \<Rightarrow> (let (events, r) = dispatch_verb loads rend post bound t gated v in
               ([Stage Verifying Started, Stage Verifying Completed] @ events, r))))))"

subsection \<open>What is sent\<close>

lemma decode_decoded [simp]:
  "decode_declarations loads' (PList (map PDict (decode_declarations loads raw))) = decode_declarations loads raw"
proof -
  have "\<forall>d \<in> set (decode_declarations loads raw). truthy (dget d ''name'')"
    by (auto simp: decode_declarations_def split: pyval.splits)
  then have "filter (\<lambda>d. truthy (dget d ''name'')) (decode_declarations loads raw) = decode_declarations loads raw"
    by (simp add: filter_id_conv)
  then show ?thesis
    by (subst decode_declarations_def) (simp add: filter_map comp_def is_dict_def dict_or_nil_def)
qed

definition same_verb :: "compat_verb \<Rightarrow> compat_verb \<Rightarrow> bool" where
  "same_verb v g \<longleftrightarrow> g = v \<or> g = v \<lparr>cv_needs_instance := True\<rparr>"

lemma same_verb_fields: "same_verb v g \<Longrightarrow> cv_iri g = cv_iri v \<and> cv_slots g = cv_slots v \<and> cv_endpoint g = cv_endpoint v"
  by (auto simp: same_verb_def)

lemma flagged_verb:
  assumes "g \<in> set (fst (flag_verbs_by_arity [v] shaped))"
  shows "same_verb v g \<and> (py_lower (cv_arity v) = ''single'' \<and> shaped \<longrightarrow> cv_needs_instance g)"
proof (cases "shaped \<and> py_lower (cv_arity v) = ''single''")
  case True
  with assms have "g = v \<lparr>cv_needs_instance := True\<rparr>" by (simp add: flag_verbs_by_arity_def Let_def)
  then show ?thesis by (simp add: same_verb_def)
next
  case False
  have "fst (flag_verbs_by_arity [v] shaped) = [v]"
    unfolding flag_verbs_by_arity_def Let_def using False by (cases shaped) simp_all
  with assms False show ?thesis by (auto simp only: same_verb_def set_simps)
qed

text \<open>The gate keeps every verb and flags the single ones a set-shaped turn has no instance for.\<close>

lemma gated_verb:
  assumes "g \<in> set (fst (gate_verbs loads t vs))"
  shows "\<exists>v \<in> set vs. same_verb v g \<and>
    (py_lower (cv_arity v) = ''single'' \<and> turn_is_set_shaped loads (pre_instance (tu_pre t)) v (map fst (provenance_of t)) \<longrightarrow>
      cv_needs_instance g)"
proof -
  from assms obtain v where v: "v \<in> set vs" and
    "g \<in> set (fst (flag_verbs_by_arity [v] (turn_is_set_shaped loads (pre_instance (tu_pre t)) v (map fst (provenance_of t)))))"
    unfolding gate_verbs_def Let_def fst_conv set_concat set_map by blast
  from flagged_verb [OF this(2)] v show ?thesis by blast
qed

lemma route_fills:
  assumes "dp_action (decide_disposition loads rend enum bound accepted declared resolution) = Route"
  shows "missing_slots rend accepted (decode_declarations loads declared) = []"
  using decide_first_missing [where accepted = accepted and rend = rend and enum = enum and bound = bound
      and resolution = resolution and ds = "mandatory_slots (decode_declarations loads declared)"] assms
  by (auto simp: decide_disposition_def missing_slots_def split: list.splits)

lemma filter_first: "filter P xs = y # ys \<Longrightarrow> y \<in> set xs \<and> P y"
  by (auto simp: filter_eq_Cons_iff)

lemma conclude_posts:
  assumes "conclude_dispatch rend post bound t pr instance_id routing a = (events, oc)" and "Posted endpoint req \<in> set events"
  shows "endpoint = pr_endpoint pr \<and> endpoint \<noteq> [] \<and> er_params req = acc_params a \<and>
    missing_slots rend (acc_params a) (decode_declarations (\<lambda>_. None) (PList (map PDict (pr_slots pr)))) = [] \<and>
    (pr_needs_instance pr \<longrightarrow> acc_params a \<noteq> [])"
proof -
  let ?disp = "decide_disposition (\<lambda>_. None) rend None bound (acc_params a) (PList (map PDict (pr_slots pr))) []"
  have "dp_action ?disp = Route"
    using assms by (auto simp: conclude_dispatch_def Let_def split: if_splits)
  from route_fills [OF this] assms show ?thesis
    by (auto simp: conclude_dispatch_def call_engine_def Let_def split: if_splits sum.splits)
qed

lemma dispatch_posts:
  assumes "dispatch_pre_resolved loads rend ask post bound t = (events, r)" and "Posted endpoint req \<in> set events"
  obtains vs g a where "find_compatible_verbs ask (pre_subject (tu_pre t)) (tu_domains t) = Inr vs"
    "g \<in> set (fst (gate_verbs loads t vs))" "cv_iri g = pre_verb (tu_pre t)" "endpoint = cv_endpoint g" "endpoint \<noteq> []"
    "accept_slots loads (fst (turn_slots rend (decode_declarations loads (cv_slots g)) t))
       (PList (map PDict (decode_declarations loads (cv_slots g))))
       (snd (turn_slots rend (decode_declarations loads (cv_slots g)) t)) = Inr a"
    "er_params req = acc_params a"
    "missing_slots rend (acc_params a) (decode_declarations loads (cv_slots g)) = []"
    "cv_needs_instance g \<Longrightarrow> acc_params a \<noteq> []"
proof -
  from assms obtain vs where vs: "find_compatible_verbs ask (pre_subject (tu_pre t)) (tu_domains t) = Inr vs"
    by (auto simp: dispatch_pre_resolved_def Let_def split: if_splits sum.splits)
  with assms obtain g rest where g: "filter (\<lambda>v. cv_iri v = pre_verb (tu_pre t)) (fst (gate_verbs loads t vs)) = g # rest"
    by (auto simp: dispatch_pre_resolved_def Let_def split: if_splits list.splits)
  from g have gs: "g \<in> set (fst (gate_verbs loads t vs))" "cv_iri g = pre_verb (tu_pre t)"
    by (auto dest: filter_first)
  obtain ev where d: "dispatch_verb loads rend post bound t (gate_verbs loads t vs) g = (ev, r)" and p: "Posted endpoint req \<in> set ev"
    using assms vs g by (auto simp: dispatch_pre_resolved_def Let_def split: if_splits prod.splits)
  let ?pr = "predicate_from_compat_record loads g"
  from d p obtain a routing ev' oc where a: "accept_slots loads (fst (turn_slots rend (pr_slots ?pr) t)) (PList (map PDict (pr_slots ?pr)))
      (snd (turn_slots rend (pr_slots ?pr) t)) = Inr a"
    and c: "conclude_dispatch rend post bound t ?pr (resolved_instance loads rend t g) routing a = (ev, oc)"
    by (auto simp: dispatch_verb_def Let_def split: sum.splits prod.splits)
  from conclude_posts [OF c p] vs gs a show thesis
    by (intro that) (auto simp: predicate_from_compat_record_def)
qed

text \<open>
  C28. Nothing is sent to an engine that was not confirmed in this very turn: the verifier lists the verb
  for this subject and this caller's domains, the call goes to that verb's endpoint, every parameter is
  a declared slot's as its declaration asks, and no mandatory slot is missing. And a verb over one
  instance is called with some parameter, when the turn is set-shaped for it: no instance was resolved,
  and no bound slot is one the verb declares to identify its instance (with a referent, required). A
  bound slot counts there before it is accepted, so the guard does not hold of a turn whose one such
  slot is then refused.
\<close>

theorem only_a_verified_filled_verb_is_called:
  assumes "dispatch_pre_resolved loads rend ask post bound t = (events, r)" and "Posted endpoint req \<in> set events"
  shows "\<exists>vs v. find_compatible_verbs ask (pre_subject (tu_pre t)) (tu_domains t) = Inr vs \<and> v \<in> set vs \<and>
    cv_iri v = pre_verb (tu_pre t) \<and> endpoint = cv_endpoint v \<and> endpoint \<noteq> [] \<and>
    missing_slots rend (er_params req) (decode_declarations loads (cv_slots v)) = [] \<and>
    (\<forall>k x. (k, x) \<in> set (er_params req) \<longrightarrow> (\<exists>d w. d \<in> set (decode_declarations loads (cv_slots v)) \<and>
       dget d ''name'' = PStr k \<and> slot_contract d w x)) \<and>
    (py_lower (cv_arity v) = ''single'' \<and> turn_is_set_shaped loads (pre_instance (tu_pre t)) v (map fst (provenance_of t)) \<longrightarrow>
       er_params req \<noteq> [])"
  using assms
proof (rule dispatch_posts)
  fix vs g a
  assume vs: "find_compatible_verbs ask (pre_subject (tu_pre t)) (tu_domains t) = Inr vs"
    and g: "g \<in> set (fst (gate_verbs loads t vs))" "cv_iri g = pre_verb (tu_pre t)" "endpoint = cv_endpoint g" "endpoint \<noteq> []"
    and a: "accept_slots loads (fst (turn_slots rend (decode_declarations loads (cv_slots g)) t))
       (PList (map PDict (decode_declarations loads (cv_slots g))))
       (snd (turn_slots rend (decode_declarations loads (cv_slots g)) t)) = Inr a"
    and p: "er_params req = acc_params a"
    and m: "missing_slots rend (acc_params a) (decode_declarations loads (cv_slots g)) = []"
    and i: "cv_needs_instance g \<Longrightarrow> acc_params a \<noteq> []"
  from gated_verb [OF g(1)] obtain v where v: "v \<in> set vs" "same_verb v g"
    and s: "py_lower (cv_arity v) = ''single'' \<and> turn_is_set_shaped loads (pre_instance (tu_pre t)) v (map fst (provenance_of t)) \<longrightarrow>
      cv_needs_instance g" by blast
  have "\<exists>d w. d \<in> set (decode_declarations loads (cv_slots v)) \<and> dget d ''name'' = PStr k \<and> slot_contract d w x"
    if "(k, x) \<in> set (er_params req)" for k x
    using accepted_slot_fits [OF a] that p same_verb_fields [OF v(2)] by (metis decode_decoded)
  with vs g p m i s v(1) same_verb_fields [OF v(2)] show ?thesis
    by (intro exI [of _ vs] exI [of _ v]) metis
qed

subsection \<open>What is announced\<close>

text \<open>Every stage that starts is ended at once, and a call stands inside the calling stage.\<close>

fun balanced :: "event list \<Rightarrow> bool" where
  "balanced [] = True"
| "balanced (Stage Verifying Started # Stage Verifying st # es) = (st \<noteq> Started \<and> balanced es)"
| "balanced (Stage Calling Started # Posted _ _ # Stage Calling st # es) = (st \<noteq> Started \<and> balanced es)"
| "balanced (e # es) = False"

lemma conclude_events:
  assumes "conclude_dispatch rend post bound t pr instance_id routing a = (events, oc)"
  shows "(events = [] \<and> do_kind oc \<noteq> Routed) \<or>
    (\<exists>u q st. events = [Stage Calling Started, Posted u q, Stage Calling st] \<and>
      (st = Completed \<and> do_kind oc = Routed \<and> do_response oc \<noteq> None \<and> do_failure oc = None \<or>
       st = Failed \<and> do_kind oc = OutAbstain \<and> do_response oc = None \<and> do_failure oc \<noteq> None))"
  using assms by (auto simp: conclude_dispatch_def call_engine_def dispatch_outcome_def Let_def split: if_splits sum.splits)

text \<open>
  What a dispatch announces is what it did: every stage that starts ends, one way, before the
  dispatch returns or raises; an engine is called at most once and inside its stage; the turn is
  reported as routed exactly when that call came back, and a turn handed back to the run made none.
\<close>

theorem stages_are_balanced_and_true:
  assumes "dispatch_pre_resolved loads rend ask post bound t = (events, r)"
  shows "balanced events \<and> length (filter (\<lambda>e. case e of Posted _ _ \<Rightarrow> True | Stage _ _ \<Rightarrow> False) events) \<le> 1 \<and>
    (case r of
       Inr oc \<Rightarrow> (do_kind oc = Routed \<longleftrightarrow> Stage Calling Completed \<in> set events) \<and>
         (do_kind oc = FallBack \<longrightarrow> (\<forall>u q. Posted u q \<notin> set events)) \<and>
         (do_kind oc = Routed \<longrightarrow> do_response oc \<noteq> None)
     | Inl _ \<Rightarrow> \<forall>u q. Posted u q \<notin> set events)"
proof -
  let ?none = "\<lambda>r. case r of Inr oc \<Rightarrow> do_kind oc \<noteq> Routed | Inl _ \<Rightarrow> True"
  consider "events \<in> {[], [Stage Verifying Started, Stage Verifying Failed], [Stage Verifying Started, Stage Verifying Completed]}" "?none r"
    | u q st oc where "events = [Stage Verifying Started, Stage Verifying Completed, Stage Calling Started, Posted u q, Stage Calling st]"
      "r = Inr oc" "st = Completed \<and> do_kind oc = Routed \<and> do_response oc \<noteq> None \<or> st = Failed \<and> do_kind oc = OutAbstain"
  proof (cases "\<exists>ev. events = [Stage Verifying Started, Stage Verifying Completed] @ ev \<and>
      (\<exists>g vs. dispatch_verb loads rend post bound t (gate_verbs loads t vs) g = (ev, r))")
    case True
    then obtain ev g vs where ev: "events = [Stage Verifying Started, Stage Verifying Completed] @ ev"
      and d: "dispatch_verb loads rend post bound t (gate_verbs loads t vs) g = (ev, r)" by blast
    show thesis
    proof (cases r)
      case (Inl e)
      with d have "ev = []" by (auto simp: dispatch_verb_def Let_def split: sum.splits prod.splits)
      with ev Inl that(1) show ?thesis by simp
    next
      case (Inr oc)
      with d obtain pr i routing a where "conclude_dispatch rend post bound t pr i routing a = (ev, oc)"
        by (auto simp: dispatch_verb_def Let_def split: sum.splits prod.splits)
      from conclude_events [OF this] ev Inr that show ?thesis by auto
    qed
  next
    case False
    with assms have "events \<in> {[], [Stage Verifying Started, Stage Verifying Failed]} \<and> ?none r"
      by (auto simp: dispatch_pre_resolved_def not_listed_def dispatch_outcome_def Let_def split: if_splits sum.splits list.splits prod.splits)
    with that(1) show thesis by auto
  qed
  then show ?thesis
    by cases (auto split: sum.splits)
qed

subsection \<open>Where the values came from\<close>

lemma map_of_overlay:
  "map_of (overlay a (map (\<lambda>p. (fst p, c)) b)) k = (if k \<in> fst ` set b then Some c else map_of a k)"
proof (induction b arbitrary: a)
  case Nil
  then show ?case by (simp add: overlay_def)
next
  case (Cons p b)
  then show ?case by (auto simp: overlay_def update_conv')
qed

lemma map_of_chain: "map_of (map (\<lambda>p. (fst p, f (snd p))) xs) k = map_option f (map_of xs k)"
  by (induction xs) auto

lemma fst_overlay: "fst ` set (overlay a b) = fst ` set a \<union> fst ` set b"
  by (induction b arbitrary: a) (auto simp: overlay_def dom_update)

lemma supplied_keys: "has_key (supplied_slots t) n \<longleftrightarrow> n \<in> fst ` set (tu_bound t) \<or> map_of (tu_chain t) n \<noteq> None"
  by (simp add: has_key_def supplied_slots_def map_of_eq_None_iff fst_overlay image_image) blast

lemma turn_sources:
  assumes "map_of (snd (turn_slots rend declared t)) k = Some s"
  shows "s = (if k \<in> fst ` set (tu_bound t) then ''picked''
     else case map_of (tu_chain t) k of Some c \<Rightarrow> cs_source c | None \<Rightarrow> ''spoken'')"
proof -
  let ?base = "map_of (supplied_sources t) k"
  have base: "?base = (if k \<in> fst ` set (tu_bound t) then Some ''picked'' else map_option cs_source (map_of (tu_chain t) k))"
    by (simp add: supplied_sources_def map_of_overlay map_of_chain)
  show ?thesis
  proof (cases "map_of (snd (turn_slots rend declared t)) k = ?base")
    case True
    with assms base show ?thesis by (auto split: if_splits option.splits)
  next
    case False
    then obtain n where n: "unfilled_slots rend declared (supplied_slots t) = [n]" and k: "k = n" and s: "s = ''spoken''"
      using assms by (auto simp: turn_slots_def with_spoken_def update_conv' split: if_splits list.splits)
    from n have "n \<in> set (unfilled_slots rend declared (supplied_slots t))" by simp
    then have "\<not> has_key (supplied_slots t) n" by (simp add: unfilled_slots_def)
    then have "n \<notin> fst ` set (tu_bound t)" "map_of (tu_chain t) n = None"
      using supplied_keys [of t n] by auto
    with k s show ?thesis by simp
  qed
qed

lemma overlay_lookup: "map_of (overlay a b) k = (case map_of (rev b) k of Some c \<Rightarrow> Some c | None \<Rightarrow> map_of a k)"
proof (induction b rule: rev_induct)
  case (snoc p b)
  have "overlay a (b @ [p]) = AList.update (fst p) (snd p) (overlay a b)" by (simp add: overlay_def)
  with snoc show ?case by (auto simp: update_conv')
qed (simp add: overlay_def)

lemma overlay_distinct: "distinct (map fst a) \<Longrightarrow> distinct (map fst (overlay a b))"
  by (induction b arbitrary: a) (auto simp: overlay_def distinct_update)

lemma turn_slots_distinct:
  assumes "distinct (map fst (tu_chain t))"
  shows "distinct (map fst (fst (turn_slots rend declared t)))"
proof -
  have "distinct (map fst (supplied_slots t))"
    unfolding supplied_slots_def by (rule overlay_distinct) (use assms in \<open>simp add: comp_def\<close>)
  then show ?thesis by (auto simp: turn_slots_def with_spoken_def distinct_update split: list.splits)
qed

text \<open>The value a slot has in a turn: this turn's pick, else what the chain holds, else what was typed.\<close>

definition layer_value :: "turn \<Rightarrow> string \<Rightarrow> pyval \<Rightarrow> bool" where
  "layer_value t k w \<longleftrightarrow> (if k \<in> fst ` set (tu_bound t) then (k, w) \<in> set (tu_bound t)
     else case map_of (tu_chain t) k of Some c \<Rightarrow> w = cs_value c | None \<Rightarrow> tu_spoken t \<noteq> [] \<and> w = PStr (tu_spoken t))"

lemma turn_values:
  assumes "map_of (fst (turn_slots rend declared t)) k = Some w"
  shows "layer_value t k w"
proof -
  have base: "map_of (supplied_slots t) k = (case map_of (rev (tu_bound t)) k of Some v \<Rightarrow> Some v
      | None \<Rightarrow> map_option cs_value (map_of (tu_chain t) k))"
    by (simp add: supplied_slots_def overlay_lookup map_of_chain split: option.split)
  have none: "map_of (rev (tu_bound t)) k = None \<longleftrightarrow> k \<notin> fst ` set (tu_bound t)" by (simp add: map_of_eq_None_iff)
  show ?thesis
  proof (cases "map_of (fst (turn_slots rend declared t)) k = map_of (supplied_slots t) k")
    case True
    with assms base none show ?thesis
      by (cases "map_of (rev (tu_bound t)) k"; cases "map_of (tu_chain t) k") (auto simp: layer_value_def dest: map_of_SomeD)
  next
    case False
    then obtain n where n: "unfilled_slots rend declared (supplied_slots t) = [n]" "tu_spoken t \<noteq> []" and k: "k = n"
      and w: "w = PStr (tu_spoken t)"
      using assms by (auto simp: turn_slots_def with_spoken_def update_conv' split: if_splits list.splits)
    from n(1) have "n \<in> set (unfilled_slots rend declared (supplied_slots t))" by simp
    then have "\<not> has_key (supplied_slots t) n" by (simp add: unfilled_slots_def)
    then have "n \<notin> fst ` set (tu_bound t)" "map_of (tu_chain t) n = None"
      using supplied_keys [of t n] by auto
    with k w n(2) show ?thesis by (simp add: layer_value_def)
  qed
qed

lemma dispatch_slots_row:
  assumes "dispatch_pre_resolved loads rend ask post bound t = (events, Inr oc)" and "do_slots oc = Some row"
  obtains vs g a where "find_compatible_verbs ask (pre_subject (tu_pre t)) (tu_domains t) = Inr vs"
    "cv_iri g = pre_verb (tu_pre t)" "g \<in> set (fst (gate_verbs loads t vs))"
    "accept_slots loads (fst (turn_slots rend (decode_declarations loads (cv_slots g)) t))
       (PList (map PDict (decode_declarations loads (cv_slots g))))
       (snd (turn_slots rend (decode_declarations loads (cv_slots g)) t)) = Inr a"
    "sl_bound row = acc_bound a" "sl_accepted row = acc_params a" "sl_instance row = optional_text (resolved_instance loads rend t g)"
proof -
  from assms obtain vs g rest ev where vs: "find_compatible_verbs ask (pre_subject (tu_pre t)) (tu_domains t) = Inr vs"
    and g: "filter (\<lambda>v. cv_iri v = pre_verb (tu_pre t)) (fst (gate_verbs loads t vs)) = g # rest"
    and d: "dispatch_verb loads rend post bound t (gate_verbs loads t vs) g = (ev, Inr oc)"
    by (auto simp: dispatch_pre_resolved_def not_listed_def dispatch_outcome_def Let_def split: if_splits sum.splits list.splits prod.splits)
  from g have gs: "g \<in> set (fst (gate_verbs loads t vs))" "cv_iri g = pre_verb (tu_pre t)" by (auto dest: filter_first)
  let ?pr = "predicate_from_compat_record loads g"
  from d obtain a routing where a: "accept_slots loads (fst (turn_slots rend (pr_slots ?pr) t)) (PList (map PDict (pr_slots ?pr)))
      (snd (turn_slots rend (pr_slots ?pr) t)) = Inr a"
    and c: "conclude_dispatch rend post bound t ?pr (resolved_instance loads rend t g) routing a = (ev, oc)"
    by (auto simp: dispatch_verb_def Let_def split: sum.splits prod.splits)
  from c assms(2) have "sl_bound row = acc_bound a \<and> sl_accepted row = acc_params a \<and>
      sl_instance row = optional_text (resolved_instance loads rend t g)"
    by (auto simp: conclude_dispatch_def call_engine_def dispatch_outcome_def Let_def split: if_splits sum.splits)
  with vs gs a that show thesis by (auto simp: predicate_from_compat_record_def)
qed

text \<open>
  C29. A value keeps the source it was bound with. In the record of a dispatch, a slot this turn picked
  is marked picked and its value is the pick's; else, a slot the chain holds keeps the source its hop
  recorded and its value is the chain's; else it is marked spoken and its value is the text that was
  typed; in each case the value itself, or what the slot's declaration makes of it. So a value of
  the chain, or a typed one, never passes for a pick of this turn. (The chain holds a slot once.)
\<close>

theorem a_source_is_not_laundered:
  assumes "dispatch_pre_resolved loads rend ask post bound t = (events, Inr oc)" and "do_slots oc = Some row"
    and "(k, v, s) \<in> set (sl_bound row)" and "distinct (map fst (tu_chain t))"
  shows "(k, v) \<in> set (sl_accepted row) \<and> (\<exists>vs g d w. find_compatible_verbs ask (pre_subject (tu_pre t)) (tu_domains t) = Inr vs \<and> g \<in> set vs \<and>
    cv_iri g = pre_verb (tu_pre t) \<and> d \<in> set (decode_declarations loads (cv_slots g)) \<and> dget d ''name'' = PStr k \<and> slot_contract d w v \<and>
    (if k \<in> fst ` set (tu_bound t) then s = ''picked'' \<and> (k, w) \<in> set (tu_bound t)
     else case map_of (tu_chain t) k of
        Some c \<Rightarrow> s = cs_source c \<and> w = cs_value c
      | None \<Rightarrow> s = ''spoken'' \<and> tu_spoken t \<noteq> [] \<and> w = PStr (tu_spoken t)))"
  using assms(1,2)
proof (rule dispatch_slots_row)
  fix vs and g :: compat_verb and a
  let ?slots = "turn_slots rend (decode_declarations loads (cv_slots g)) t"
  let ?layer = "\<lambda>w. if k \<in> fst ` set (tu_bound t) then s = ''picked'' \<and> (k, w) \<in> set (tu_bound t)
     else case map_of (tu_chain t) k of
        Some c \<Rightarrow> s = cs_source c \<and> w = cs_value c
      | None \<Rightarrow> s = ''spoken'' \<and> tu_spoken t \<noteq> [] \<and> w = PStr (tu_spoken t)"
  assume vs: "find_compatible_verbs ask (pre_subject (tu_pre t)) (tu_domains t) = Inr vs"
    and g: "cv_iri g = pre_verb (tu_pre t)" "g \<in> set (fst (gate_verbs loads t vs))"
    and a: "accept_slots loads (fst ?slots) (PList (map PDict (decode_declarations loads (cv_slots g)))) (snd ?slots) = Inr a"
    and row: "sl_bound row = acc_bound a" "sl_accepted row = acc_params a"
  from gated_verb [OF g(2)] obtain u where u: "u \<in> set vs" "cv_iri u = pre_verb (tu_pre t)"
    "decode_declarations loads (cv_slots u) = decode_declarations loads (cv_slots g)"
    using g(1) same_verb_fields by metis
  from bound_of_accepted [OF a] assms(3) row have kv: "(k, v) \<in> set (acc_params a)"
    and src: "map_of (snd ?slots) k = Some s" by auto
  from accepted_slot_fits [OF a kv] obtain d w where d: "d \<in> set (decode_declarations loads (cv_slots u))"
    "dget d ''name'' = PStr k" "slot_contract d w v"
    and w: "(k, w) \<in> set (fst ?slots)" by (auto simp: u(3))
  from w have "map_of (fst ?slots) k = Some w" by (rule map_of_is_SomeI [OF turn_slots_distinct [OF assms(4)]])
  from turn_values [OF this] turn_sources [OF src] have "?layer w"
    by (cases "map_of (tu_chain t) k") (auto simp: layer_value_def split: if_splits)
  with vs u(1,2) d have "\<exists>vs g d w. find_compatible_verbs ask (pre_subject (tu_pre t)) (tu_domains t) = Inr vs \<and> g \<in> set vs \<and>
    cv_iri g = pre_verb (tu_pre t) \<and> d \<in> set (decode_declarations loads (cv_slots g)) \<and> dget d ''name'' = PStr k \<and> slot_contract d w v \<and> ?layer w"
    by blast
  with kv show ?thesis unfolding row by (intro conjI)
qed

text \<open>
  The instance a dispatch records is the one its ask resolved, or the value of a slot that identifies
  the verb's instance and whose source says that a menu or the resolver has seen it: never a value a
  caller supplied or a person typed.
\<close>

theorem only_a_seen_value_becomes_the_instance:
  assumes "dispatch_pre_resolved loads rend ask post bound t = (events, Inr oc)" and "do_slots oc = Some row"
    and "sl_instance row = Some i"
  shows "i = pre_instance (tu_pre t) \<or> (\<exists>k c. map_of (provenance_of t) k = Some c \<and> cs_source c \<in> {''picked'', ''filled''} \<and>
    i = str_of rend (cs_value c) \<and> cs_value c \<notin> {PNone, PStr []})"
  using assms(1,2)
proof (rule dispatch_slots_row)
  fix vs g a
  assume eq: "sl_instance row = optional_text (resolved_instance loads rend t g)"
  with assms(3) have i: "i = resolved_instance loads rend t g"
    by (simp add: optional_text_def split: if_splits)
  show ?thesis
  proof (cases "pre_instance (tu_pre t) = []")
    case False
    with i show ?thesis by (simp add: resolved_instance_def)
  next
    case True
    then show ?thesis
      using i assms(3) eq
      by (auto simp: resolved_instance_def promotable_instance_def promotable_def optional_text_def Let_def
        split: list.splits option.splits if_splits)
  qed
qed

subsection \<open>The next hop\<close>

text \<open>The records of one hop that can be carried.\<close>

definition valid_slot :: "(pyval \<Rightarrow> string) \<Rightarrow> hop_row \<Rightarrow> string \<times> pyval \<Rightarrow> (string \<times> chain_slot) list" where
  "valid_slot rend row p = (case snd p of
     PDict r \<Rightarrow> if known_source (str_or_empty rend (dget r ''source'')) \<and> has_key r ''value''
       then [(fst p, \<lparr>cs_value = dget r ''value'', cs_source = str_or_empty rend (dget r ''source''), cs_hop = hr_hops row,
         cs_artifact = hr_id row\<rparr>)] else []
   | _ \<Rightarrow> [])"

definition valid_slots :: "(pyval \<Rightarrow> string) \<Rightarrow> hop_row list \<Rightarrow> (string \<times> chain_slot) list" where
  "valid_slots rend rows = concat (map (\<lambda>row. concat (map (valid_slot rend row) (hr_bound row))) rows)"

lemma carry_slot_lookup: "map_of (carry_slot rend row p out) = map_of (out @ valid_slot rend row p)"
proof (rule ext)
  fix k
  show "map_of (carry_slot rend row p out) k = map_of (out @ valid_slot rend row p) k"
    by (cases "map_of out (fst p)"; cases "snd p")
      (auto simp: carry_slot_def valid_slot_def Let_def map_add_def split: option.splits)
qed

lemma map_of_append_cong: "map_of a = map_of b \<Longrightarrow> map_of (a @ c) = map_of (b @ c)"
  by simp

lemma carry_row_lookup:
  "map_of (fold (carry_slot rend row) ps out) = map_of (out @ concat (map (valid_slot rend row) ps))"
proof (induction ps arbitrary: out)
  case Nil
  then show ?case by simp
next
  case (Cons p ps)
  have "map_of (fold (carry_slot rend row) (p # ps) out) =
      map_of (carry_slot rend row p out @ concat (map (valid_slot rend row) ps))"
    using Cons.IH by simp
  also have "\<dots> = map_of ((out @ valid_slot rend row p) @ concat (map (valid_slot rend row) ps))"
    by (rule map_of_append_cong) (rule carry_slot_lookup)
  finally show ?case by simp
qed

lemma carry_rows_lookup:
  "map_of (fold (\<lambda>row out. fold (carry_slot rend row) (hr_bound row) out) rows out) = map_of (out @ valid_slots rend rows)"
proof (induction rows arbitrary: out)
  case Nil
  then show ?case by (simp add: valid_slots_def)
next
  case (Cons row rows)
  let ?now = "fold (carry_slot rend row) (hr_bound row) out"
  have "map_of (fold (\<lambda>row out. fold (carry_slot rend row) (hr_bound row) out) (row # rows) out) = map_of (?now @ valid_slots rend rows)"
    using Cons.IH by simp
  also have "\<dots> = map_of ((out @ concat (map (valid_slot rend row) (hr_bound row))) @ valid_slots rend rows)"
    by (rule map_of_append_cong) (rule carry_row_lookup)
  finally show ?case by (simp add: valid_slots_def)
qed

text \<open>
  What the chain answers for a slot is the first record of it, hop by hop from the nearest, that has a
  value and one of the four sources: a later answer wins over an earlier one, and a record without a
  known source is passed over, never defaulted.
\<close>

theorem the_nearest_valid_hop_answers:
  "map_of (accumulated_slots rend rows) k = map_of (valid_slots rend rows) k"
  unfolding accumulated_slots_def using carry_rows_lookup [of rend rows "[]"] by simp

text \<open>The record of a dispatch, as the next hop reads it.\<close>

definition recorded_hop :: "string \<Rightarrow> nat \<Rightarrow> slots_row \<Rightarrow> hop_row" where
  "recorded_hop artifact hops row = \<lparr>hr_id = artifact, hr_hops = hops,
     hr_bound = map (\<lambda>b. (fst b, PDict [(''value'', fst (snd b)), (''source'', PStr (snd (snd b)))])) (sl_bound row)\<rparr>"

lemma recorded_slots:
  assumes "\<forall>b \<in> set (sl_bound row). known_source (snd (snd b))"
  shows "valid_slots rend [recorded_hop artifact hops row] =
    map (\<lambda>b. (fst b, \<lparr>cs_value = fst (snd b), cs_source = snd (snd b), cs_hop = hops, cs_artifact = artifact\<rparr>)) (sl_bound row)"
proof -
  have "map (valid_slot rend (recorded_hop artifact hops row)) (hr_bound (recorded_hop artifact hops row)) =
      map (\<lambda>b. [(fst b, \<lparr>cs_value = fst (snd b), cs_source = snd (snd b), cs_hop = hops, cs_artifact = artifact\<rparr>)]) (sl_bound row)"
    using assms by (auto simp: recorded_hop_def valid_slot_def str_or_empty_def str_of_def has_key_def dget_def known_source_def)
  then show ?thesis by (simp add: valid_slots_def concat_map_singleton)
qed

text \<open>
  The record of a dispatch and the reader of the next hop agree: every slot a hop bound with one of the
  four sources is read back with its value and its source, ahead of whatever older hops hold.
\<close>

theorem the_next_hop_reads_what_was_bound:
  assumes "\<forall>b \<in> set (sl_bound row). known_source (snd (snd b))" and "distinct (map fst (sl_bound row))"
    and "(k, v, s) \<in> set (sl_bound row)"
  shows "map_of (accumulated_slots rend (recorded_hop artifact hops row # older)) k =
    Some \<lparr>cs_value = v, cs_source = s, cs_hop = hops, cs_artifact = artifact\<rparr>"
proof -
  let ?f = "\<lambda>b. (fst b, \<lparr>cs_value = fst (snd b), cs_source = snd (snd b), cs_hop = hops, cs_artifact = artifact\<rparr>)"
  have "valid_slots rend (recorded_hop artifact hops row # older) = map ?f (sl_bound row) @ valid_slots rend older"
    using recorded_slots [OF assms(1)] by (simp add: valid_slots_def)
  moreover have "map_of (map ?f (sl_bound row)) k = Some (snd (?f (k, v, s)))"
    by (rule map_of_is_SomeI) (use assms(2,3) in \<open>force simp: comp_def\<close>)+
  ultimately show ?thesis
    using carry_rows_lookup [of rend "recorded_hop artifact hops row # older" "[]"]
    by (simp add: accumulated_slots_def)
qed

subsection \<open>Instances\<close>

definition demo_verb_slots :: pyval where
  "demo_verb_slots = PList [PDict [(''name'', PStr ''project''), (''kind'', PStr ''spoken-mandatory''),
     (''referent'', PStr ''Project''), (''required'', PBool True), (''type'', PStr ''str'')]]"

definition demo_verb :: compat_verb where
  "demo_verb = \<lparr>cv_iri = ''v:impact'', cv_local = ''impact'', cv_input = ''S'', cv_output = ''O'', cv_endpoint = ''http://plan.svc:80/impact'',
     cv_owner = ''PM'', cv_provider = [], cv_domains = [''PLANNING''], cv_arity = ''single'', cv_slots = demo_verb_slots,
     cv_needs_instance = False\<rparr>"

definition demo_verifier :: verifier where
  "demo_verifier subject domains = Inr (if subject = ''S'' then [demo_verb] else [])"

definition demo_engine :: engine where
  "demo_engine endpoint req = Inr (PStr ''done'')"

definition demo_turn :: "pydict \<Rightarrow> string \<Rightarrow> turn" where
  "demo_turn picks spoken = \<lparr>tu_pre = \<lparr>pre_subject = ''S'', pre_instance = [], pre_verb = ''v:impact''\<rparr>, tu_bound = picks,
     tu_chain = [], tu_spoken = spoken, tu_query = ''q'', tu_run = ''run-1'', tu_domains = [''PLANNING''], tu_persona = ''PM''\<rparr>"

definition demo_dispatch :: "pydict \<Rightarrow> string \<Rightarrow> dispatched" where
  "demo_dispatch picks spoken = dispatch_pre_resolved (\<lambda>_. None) demo_rend demo_verifier demo_engine 10 (demo_turn picks spoken)"

definition demo_outcome :: "pydict \<Rightarrow> string \<Rightarrow> direct_outcome" where
  "demo_outcome picks spoken = (case snd (demo_dispatch picks spoken) of Inr oc \<Rightarrow> oc)"

definition demo_row :: "pydict \<Rightarrow> string \<Rightarrow> slots_row" where
  "demo_row picks spoken = the (do_slots (demo_outcome picks spoken))"

lemma demo_run:
  assumes "ok (snd (demo_dispatch picks spoken))" and "do_slots (demo_outcome picks spoken) \<noteq> None"
  shows "dispatch_pre_resolved (\<lambda>_. None) demo_rend demo_verifier demo_engine 10 (demo_turn picks spoken) =
      (fst (demo_dispatch picks spoken), Inr (demo_outcome picks spoken)) \<and>
    do_slots (demo_outcome picks spoken) = Some (demo_row picks spoken)"
  using assms by (cases "demo_dispatch picks spoken")
    (auto simp: demo_outcome_def demo_row_def ok_iff demo_dispatch_def)

text \<open>
  A pick goes from the request into the parameters of the call, the record calls it picked and it becomes
  the resolved instance; the menu is not computed again on this path, and the same pick is refused by the
  door that does.
\<close>

lemma unchecked_pick_is_dispatched:
  "(case demo_dispatch [(''project'', PStr ''MADE-UP'')] [] of
      (events, Inr oc) \<Rightarrow> do_kind oc = Routed \<and> do_params oc = [(''project'', PStr ''MADE-UP'')] \<and>
        sl_bound (the (do_slots oc)) = [(''project'', PStr ''MADE-UP'', ''picked'')] \<and>
        sl_instance (the (do_slots oc)) = Some ''MADE-UP''
    | _ \<Rightarrow> False) \<and>
   validate_bound_slots (\<lambda>_. None) demo_rend (Some demo_members) None 10 [(''project'', PStr ''MADE-UP'')] demo_verb_slots =
     Inr ([], [PickRefused ''project'' (NotOffered ''MADE-UP'' [])], [])"
  by code_simp

text \<open>
  The arity gate reads the names that are bound and not what is accepted of them: a verb over one
  instance whose identifying slot is bound by a pick the acceptance then refuses is called on nothing.
\<close>

definition handle_verb :: compat_verb where
  "handle_verb = demo_verb\<lparr>cv_slots := PList [PDict [(''name'', PStr ''project''), (''kind'', PStr ''handle''),
     (''referent'', PStr ''Project''), (''required'', PBool True)]]\<rparr>"

lemma refused_referent_is_called_on_nothing:
  "case dispatch_pre_resolved (\<lambda>_. None) demo_rend (\<lambda>_ _. Inr [handle_verb]) demo_engine 10 (demo_turn [(''project'', PStr ''P1'')] []) of
     (events, Inr oc) \<Rightarrow> py_lower (cv_arity handle_verb) = ''single'' \<and> do_kind oc = Routed \<and> do_params oc = [] \<and>
       do_refusals oc = [(''project'', ''route-supplied'', PStr ''P1'')]
   | _ \<Rightarrow> False"
  by code_simp

lemma only_a_verified_filled_verb_is_called_witness:
  "\<exists>vs v. find_compatible_verbs demo_verifier ''S'' [''PLANNING''] = Inr vs \<and> v \<in> set vs \<and> cv_iri v = ''v:impact'' \<and>
     missing_slots demo_rend [(''project'', PStr ''P1'')] (decode_declarations (\<lambda>_. None) (cv_slots v)) = []"
proof -
  let ?req = "\<lparr>er_query = ''q'', er_params = [(''project'', PStr ''P1'')], er_thread = ''run-1'', er_persona = ''PM''\<rparr>"
  have p: "Posted ''http://plan.svc:80/impact'' ?req \<in> set (fst (demo_dispatch [(''project'', PStr ''P1'')] []))"
    by code_simp
  obtain events r where d: "demo_dispatch [(''project'', PStr ''P1'')] [] = (events, r)" by fastforce
  from only_a_verified_filled_verb_is_called [OF d [unfolded demo_dispatch_def], of "''http://plan.svc:80/impact''" ?req] p d
  show ?thesis by (auto simp: demo_turn_def)
qed

lemma stages_are_balanced_and_true_witness:
  "balanced (fst (demo_dispatch [] ''P1'')) \<and> Stage Calling Completed \<in> set (fst (demo_dispatch [] ''P1''))"
proof
  obtain events r where "demo_dispatch [] ''P1'' = (events, r)" by fastforce
  with stages_are_balanced_and_true [OF this [unfolded demo_dispatch_def]]
  show "balanced (fst (demo_dispatch [] ''P1''))" by simp
  show "Stage Calling Completed \<in> set (fst (demo_dispatch [] ''P1''))" by code_simp
qed

lemma demo_runs:
  "ok (snd (demo_dispatch [] ''P1'')) \<and> do_slots (demo_outcome [] ''P1'') \<noteq> None"
  "ok (snd (demo_dispatch [(''project'', PStr ''P1'')] [])) \<and> do_slots (demo_outcome [(''project'', PStr ''P1'')] []) \<noteq> None"
  by code_simp+

text \<open>A turn that picks a slot its chain already holds: the pick is what is called with, as a pick.\<close>

definition chained_turn :: turn where
  "chained_turn = (demo_turn [(''project'', PStr ''P2'')] [])\<lparr>tu_chain := [(''project'',
     \<lparr>cs_value = PStr ''P1'', cs_source = ''supplied'', cs_hop = 1, cs_artifact = ''a''\<rparr>)]\<rparr>"

theorem a_source_is_not_laundered_witness:
  "\<exists>events oc row v s d w. dispatch_pre_resolved (\<lambda>_. None) demo_rend demo_verifier demo_engine 10 chained_turn = (events, Inr oc) \<and>
     do_slots oc = Some row \<and> (''project'', v, s) \<in> set (sl_bound row) \<and> s = ''picked'' \<and> w = PStr ''P2'' \<and> slot_contract d w v"
proof -
  let ?r = "dispatch_pre_resolved (\<lambda>_. None) demo_rend demo_verifier demo_engine 10 chained_turn"
  have "case snd ?r of Inr oc \<Rightarrow> (case do_slots oc of Some row \<Rightarrow> sl_bound row \<noteq> [] \<and> fst (hd (sl_bound row)) = ''project'' | None \<Rightarrow> False)
      | Inl _ \<Rightarrow> False" by code_simp
  then obtain oc row where c: "snd ?r = Inr oc" "do_slots oc = Some row" "sl_bound row \<noteq> []" "fst (hd (sl_bound row)) = ''project''"
    by (auto split: sum.splits option.splits)
  obtain v s where "hd (sl_bound row) = (''project'', v, s)" using c(4) by (cases "hd (sl_bound row)") auto
  with c(3) have "(''project'', v, s) \<in> set (sl_bound row)" using hd_in_set by metis
  with c(1,2) obtain events where r: "?r = (events, Inr oc)" "do_slots oc = Some row" "(''project'', v, s) \<in> set (sl_bound row)"
    by (metis prod.collapse)
  have "distinct (map fst (tu_chain chained_turn))" by (simp add: chained_turn_def)
  from a_source_is_not_laundered [OF r this] r show ?thesis
    by (auto simp: chained_turn_def demo_turn_def)
qed

lemma only_a_seen_value_becomes_the_instance_witness:
  "\<exists>k c. map_of (provenance_of (demo_turn [(''project'', PStr ''P1'')] [])) k = Some c \<and> cs_source c \<in> {''picked'', ''filled''} \<and>
     ''P1'' = str_of demo_rend (cs_value c)"
proof -
  have i: "sl_instance (demo_row [(''project'', PStr ''P1'')] []) = Some ''P1''" by code_simp
  have p: "pre_instance (tu_pre (demo_turn [(''project'', PStr ''P1'')] [])) \<noteq> ''P1''" by (simp add: demo_turn_def)
  note d = demo_run [OF demo_runs(2) [THEN conjunct1] demo_runs(2) [THEN conjunct2]]
  from only_a_seen_value_becomes_the_instance [OF d [THEN conjunct1] d [THEN conjunct2] i] p
  show ?thesis by metis
qed

lemma the_next_hop_reads_what_was_bound_witness:
  "map_of (accumulated_slots demo_rend [recorded_hop ''a1'' 1 (demo_row [] ''P1'')]) ''project'' =
     Some \<lparr>cs_value = PStr ''P1'', cs_source = ''spoken'', cs_hop = 1, cs_artifact = ''a1''\<rparr>"
  by (rule the_next_hop_reads_what_was_bound) code_simp+

end
