(* ===== verification/Instance_Names.thy ===== *)
theory Instance_Names
  imports Declared_Query Slot_Acceptance
begin

text \<open>
  The names of \<^verbatim>\<open>agent_fleet/ontology_service/instance_resolution.py\<close>: how an identifier and the text of
  a catalog entry fall into segments, which segment is the name, when an identifier names an entry,
  when it has the form of one individual, and which prefixes an engine may claim for its own.

  A class of the regular expressions is a predicate on characters (code points below 256); splitting at
  a run of separators and dropping the empty pieces is splitting at each of them.
\<close>

subsection \<open>Segments\<close>

definition separator :: "char \<Rightarrow> bool" where
  "separator c \<longleftrightarrow> \<not> (is_digit c \<or> is_upper c \<or> is_lower c \<or> c = CHR ''_'' \<or> c = CHR ''-'')"

fun split_at :: "(char \<Rightarrow> bool) \<Rightarrow> string \<Rightarrow> string \<Rightarrow> string list" where
  "split_at sep w [] = (if w = [] then [] else [w])"
| "split_at sep w (c # cs) =
     (if sep c then (if w = [] then split_at sep [] cs else w # split_at sep [] cs) else split_at sep (w @ [c]) cs)"

definition segments :: "string \<Rightarrow> string list" where
  "segments s = split_at separator [] (py_lower s)"

text \<open>The same with how each segment was joined to the one before: the state of the scan.\<close>

record scan =
  sc_out :: "(string \<times> bool) list"
  sc_current :: string
  sc_structural :: bool
  sc_punct :: bool
  sc_space :: bool

definition scan_start :: scan where
  "scan_start = \<lparr>sc_out = [], sc_current = [], sc_structural = False, sc_punct = False, sc_space = False\<rparr>"

definition end_segment :: "scan \<Rightarrow> scan" where
  "end_segment s = (if sc_current s = [] then s
     else s \<lparr>sc_out := sc_out s @ [(sc_current s, sc_structural s)], sc_current := [], sc_structural := False\<rparr>)"

definition scan_char :: "scan \<Rightarrow> char \<Rightarrow> scan" where
  "scan_char s c =
     (if separator c
      then (let t = end_segment s in if is_space c then t \<lparr>sc_space := True\<rparr> else t \<lparr>sc_punct := True\<rparr>)
      else (let t = (if sc_current s = []
                     then s \<lparr>sc_structural := sc_punct s \<and> \<not> sc_space s, sc_punct := False, sc_space := False\<rparr> else s)
            in t \<lparr>sc_current := sc_current t @ [c]\<rparr>))"

definition kinded_segments :: "string \<Rightarrow> (string \<times> bool) list" where
  "kinded_segments s = sc_out (end_segment (foldl scan_char scan_start (py_lower s)))"

definition env_suffixes :: "string list" where
  "env_suffixes = [''prod'', ''dev'', ''test'', ''stage'', ''staging'', ''qa'', ''uat'']"

function strip_env_suffixes :: "(string \<times> bool) list \<Rightarrow> (string \<times> bool) list" where
  "strip_env_suffixes ks =
     (if 1 < length ks \<and> fst (List.last ks) \<in> set env_suffixes \<and> snd (List.last ks)
      then strip_env_suffixes (butlast ks) else ks)"
  by pat_completeness auto
termination
  by (relation "measure length") auto

declare strip_env_suffixes.simps [simp del]

definition identifier_name_and_qualifiers :: "string \<Rightarrow> string \<times> string list" where
  "identifier_name_and_qualifiers i = (let ks = strip_env_suffixes (kinded_segments i) in
     if ks = [] then ([], []) else (fst (List.last ks), map fst (butlast ks)))"

definition candidate_asset_name :: "string \<Rightarrow> string" where
  "candidate_asset_name t = (let ks = strip_env_suffixes (kinded_segments t) in
     if ks = [] then [] else fst (List.last ks))"

definition passes_segment_specificity :: "string \<Rightarrow> string \<Rightarrow> bool" where
  "passes_segment_specificity i t = (let nm = fst (identifier_name_and_qualifiers i); asset = candidate_asset_name t in
     if nm = [] then False else if asset \<noteq> [] then nm = asset else nm \<in> set (segments t))"

subsection \<open>One spelling of an identifier\<close>

definition joiner :: "char \<Rightarrow> bool" where
  "joiner c \<longleftrightarrow> is_space c \<or> c = CHR ''_'' \<or> c = CHR ''-''"

text \<open>\<open>re.sub(r"[\s_\-]+", "-", s)\<close>; the flag says that the scan is inside a run.\<close>

fun join_runs :: "bool \<Rightarrow> string \<Rightarrow> string" where
  "join_runs b [] = []"
| "join_runs b (c # cs) =
     (if joiner c then (if b then join_runs True cs else CHR ''-'' # join_runs True cs) else c # join_runs False cs)"

definition normalise_identifier :: "string \<Rightarrow> string" where
  "normalise_identifier s = join_runs False (py_casefold (py_strip s))"

subsection \<open>The form of an individual\<close>

fun dotted :: "string \<Rightarrow> bool" where
  "dotted (a # b # c # cs) = (word_char a \<and> b = CHR ''.'' \<and> word_char c \<or> dotted (b # c # cs))"
| "dotted _ = False"

definition coded_char :: "char \<Rightarrow> bool" where
  "coded_char c \<longleftrightarrow> is_upper c \<or> is_digit c"

fun coded :: "string \<Rightarrow> bool" where
  "coded (a # b # c # cs) =
     (coded_char a \<and> coded_char b \<and> c \<in> {CHR ''-'', CHR ''_'', CHR ''/''} \<or> coded (b # c # cs))"
| "coded _ = False"

definition is_instance_shaped :: "string \<Rightarrow> bool" where
  "is_instance_shaped i = (let s = py_strip i in
     if s = [] then False
     else if CHR '':'' \<in> set s \<and> CHR '' '' \<notin> set s then True
     else if CHR '' '' \<in> set s then False
     else dotted s \<or> list_ex isdigit_char s \<or> coded s)"

subsection \<open>Namespaces\<close>

definition ns_separator :: "char \<Rightarrow> bool" where
  "ns_separator c \<longleftrightarrow> is_space c \<or> c \<in> set '',;:()[]{}<>\"?!'' \<or> code_of c = 39"

definition namespace_entry :: "pyval \<Rightarrow> string option" where
  "namespace_entry v = (case v of
     PStr p \<Rightarrow> (let q = py_strip p in if q \<noteq> [] \<and> \<not> list_ex is_space q then Some q else None)
   | _ \<Rightarrow> None)"

definition declared_id_namespaces :: "pyval \<Rightarrow> string list" where
  "declared_id_namespaces v = (case v of PList xs \<Rightarrow> List.map_filter namespace_entry xs | _ \<Rightarrow> [])"

record resolver =
  rv_endpoint :: string
  rv_provider :: string
  rv_timeout :: "rat option"
  rv_domains :: "string list"
  rv_namespaces :: pyval

text \<open>\<open>owners.setdefault(p.upper(), set()).add(provider)\<close>, in the order of the registry.\<close>

definition add_owner :: "(string \<times> string list) list \<Rightarrow> string \<times> string \<Rightarrow> (string \<times> string list) list" where
  "add_owner owners e = (case e of (p, w) \<Rightarrow>
     let os = (case map_of owners p of Some ws \<Rightarrow> ws | None \<Rightarrow> []) in AList.update p (List.insert w os) owners)"

definition owner_claims :: "resolver list \<Rightarrow> (string \<times> string) list" where
  "owner_claims rs = concat (map (\<lambda>r. map (\<lambda>p. (py_upper p, if rv_provider r = [] then ''unknown'' else rv_provider r))
     (declared_id_namespaces (rv_namespaces r))) rs)"

definition claimed_namespaces :: "string list \<Rightarrow> resolver list \<Rightarrow> (string \<times> string list) list" where
  "claimed_namespaces terms rs =
     (let owners = foldl add_owner [] (owner_claims rs);
          tokens = concat (map (\<lambda>t. map py_upper (split_at ns_separator [] t)) terms)
      in filter (\<lambda>(p, os). list_ex (starts_with p) tokens) owners)"

subsection \<open>What the scans establish\<close>

lemma scan_fst:
  "map fst (sc_out (end_segment (foldl scan_char s cs))) = map fst (sc_out s) @ split_at separator (sc_current s) cs"
  by (induction cs arbitrary: s) (auto simp: end_segment_def scan_char_def Let_def)

lemma kinded_fst: "map fst (kinded_segments s) = segments s"
  by (simp add: kinded_segments_def segments_def scan_fst scan_start_def)

lemma kinded_empty_iff: "kinded_segments s = [] \<longleftrightarrow> segments s = []"
  by (simp flip: kinded_fst)

lemma split_at_pieces:
  assumes "w \<in> set (split_at sep v s)" and "list_all (\<lambda>c. \<not> sep c) v"
  shows "w \<noteq> [] \<and> list_all (\<lambda>c. \<not> sep c) w"
  using assms by (induction sep v s rule: split_at.induct) (auto split: if_splits)

lemma segment_pieces: "w \<in> set (segments s) \<Longrightarrow> w \<noteq> [] \<and> list_all (\<lambda>c. \<not> separator c) w"
  unfolding segments_def by (erule split_at_pieces) simp

lemma split_at_plain: "list_all (\<lambda>c. \<not> sep c) s \<Longrightarrow> split_at sep w s = (if w @ s = [] then [] else [w @ s])"
  by (induction s arbitrary: w) auto

definition ends_in_env :: "(string \<times> bool) list \<Rightarrow> bool" where
  "ends_in_env ks \<longleftrightarrow> 1 < length ks \<and> fst (List.last ks) \<in> set env_suffixes \<and> snd (List.last ks)"

lemma strip_env_eq: "strip_env_suffixes ks = (if ends_in_env ks then strip_env_suffixes (butlast ks) else ks)"
  by (subst strip_env_suffixes.simps) (simp only: ends_in_env_def)

lemma strip_env_prefix: "\<exists>n. strip_env_suffixes ks = take n ks"
proof (induction ks rule: strip_env_suffixes.induct)
  case (1 ks)
  show ?case
  proof (cases "ends_in_env ks")
    case True
    with 1 obtain n where "strip_env_suffixes (butlast ks) = take n (butlast ks)"
      unfolding ends_in_env_def by blast
    hence "strip_env_suffixes ks = take n (take (length ks - 1) ks)"
      using True by (simp add: strip_env_eq [of ks] butlast_conv_take)
    thus ?thesis by (metis take_take)
  next
    case False
    hence "strip_env_suffixes ks = take (length ks) ks" by (simp add: strip_env_eq [of ks])
    thus ?thesis by blast
  qed
qed

lemma strip_env_empty_iff [simp]: "strip_env_suffixes ks = [] \<longleftrightarrow> ks = []"
proof (induction ks rule: strip_env_suffixes.induct)
  case (1 ks)
  show ?case
  proof (cases "ends_in_env ks")
    case True
    hence "butlast ks \<noteq> []" by (auto simp: ends_in_env_def simp flip: length_greater_0_conv)
    thus ?thesis using 1 True by (auto simp: strip_env_eq [of ks] ends_in_env_def)
  qed (simp add: strip_env_eq [of ks])
qed

lemma strip_env_subset: "set (strip_env_suffixes ks) \<subseteq> set ks"
  using strip_env_prefix [of ks] set_take_subset by metis

text \<open>Only a segment joined by punctuation is taken off, and what stays ends in none to take off.\<close>

lemma strip_env_done: "\<not> ends_in_env (strip_env_suffixes ks)"
proof (induction ks rule: strip_env_suffixes.induct)
  case (1 ks)
  thus ?case by (cases "ends_in_env ks") (simp_all add: strip_env_eq [of ks] ends_in_env_def)
qed

lemma spoken_words_stay:
  assumes "\<not> snd (List.last ks)"
  shows "strip_env_suffixes ks = ks"
  using assms by (simp add: strip_env_eq ends_in_env_def)

definition name_of :: "string \<Rightarrow> string" where
  "name_of s = fst (identifier_name_and_qualifiers s)"

lemma asset_name: "candidate_asset_name s = name_of s"
  by (simp add: name_of_def candidate_asset_name_def identifier_name_and_qualifiers_def Let_def)

lemma name_in_segments:
  assumes "segments s \<noteq> []"
  shows "name_of s \<in> set (segments s)"
proof -
  let ?ks = "strip_env_suffixes (kinded_segments s)"
  have ne: "?ks \<noteq> []" using assms by (simp add: kinded_empty_iff)
  hence "List.last ?ks \<in> set (kinded_segments s)" using strip_env_subset last_in_set by blast
  hence "fst (List.last ?ks) \<in> set (segments s)" by (metis image_eqI kinded_fst list.set_map)
  thus ?thesis using ne by (simp add: name_of_def identifier_name_and_qualifiers_def Let_def)
qed

lemma name_empty_iff: "name_of s = [] \<longleftrightarrow> segments s = []"
proof
  assume "name_of s = []"
  thus "segments s = []" using name_in_segments segment_pieces by metis
next
  assume "segments s = []"
  thus "name_of s = []"
    by (simp add: name_of_def identifier_name_and_qualifiers_def Let_def flip: kinded_empty_iff)
qed

text \<open>
  The gate is equality of names: its fall back to membership among the segments is reached only when
  there are no segments.
\<close>

lemma passes_iff: "passes_segment_specificity i t \<longleftrightarrow> name_of i \<noteq> [] \<and> name_of i = name_of t"
  using name_empty_iff [of t]
  by (auto simp: passes_segment_specificity_def asset_name Let_def simp flip: name_of_def)

lemma passes_self: "segments i \<noteq> [] \<Longrightarrow> passes_segment_specificity i i"
  by (simp add: passes_iff name_empty_iff)

lemma passes_names_segment: "passes_segment_specificity i t \<Longrightarrow> name_of i \<in> set (segments t)"
  using name_in_segments name_empty_iff by (metis passes_iff)

text \<open>Normalising is idempotent: the spelling it chooses is a fixed one.\<close>

lemma join_runs_idem: "join_runs b (join_runs b s) = join_runs b s"
proof (induction s arbitrary: b)
  case (Cons c s)
  have "joiner CHR ''-''" by (simp add: joiner_def)
  thus ?case using Cons by (cases b) auto
qed simp

lemma join_runs_chars: "c \<in> set (join_runs b s) \<Longrightarrow> \<not> is_space c \<and> (c \<in> set s \<or> c = CHR ''-'')"
proof (induction s arbitrary: b)
  case (Cons d s)
  have "\<not> is_space CHR ''-''" by code_simp
  thus ?case using Cons by (auto simp: joiner_def split: if_splits)
qed simp

lemma py_strip_tight: "\<forall>c \<in> set s. \<not> is_space c \<Longrightarrow> py_strip s = s"
proof -
  assume a: "\<forall>c \<in> set s. \<not> is_space c"
  have d: "dropWhile is_space s = s" if "\<forall>c \<in> set s. \<not> is_space c" for s :: string
    using that by (cases s) auto
  show ?thesis using d [of s] d [of "rev s"] a by (simp add: py_strip_def)
qed

lemma casefold_fixed: "\<forall>c \<in> set s. code_of c \<noteq> 223 \<and> lower_char c = c \<Longrightarrow> py_casefold s = s"
  by (induction s) (auto simp: py_casefold_def)

lemma lower_char_not_sharp: "code_of c \<noteq> 223 \<Longrightarrow> code_of (lower_char c) \<noteq> 223"
  by (auto simp: lower_char_def code_of_def Let_def)

lemma casefold_chars:
  assumes "c \<in> set (py_casefold s)"
  shows "code_of c \<noteq> 223 \<and> lower_char c = c"
proof -
  from assms have "\<exists>d. c = (if code_of d = 223 then CHR ''s'' else lower_char d)"
    by (force simp: py_casefold_def split: if_splits)
  moreover have "code_of CHR ''s'' \<noteq> 223" by (simp add: code_of_def)
  moreover have "lower_char CHR ''s'' = CHR ''s''" by code_simp
  ultimately show ?thesis using lower_char_idem lower_char_not_sharp by metis
qed

lemma normalised_is_fixed: "normalise_identifier (normalise_identifier s) = normalise_identifier s"
proof -
  let ?n = "normalise_identifier s"
  have dash: "code_of CHR ''-'' \<noteq> 223" "lower_char CHR ''-'' = CHR ''-''" by (simp add: code_of_def, code_simp)
  have c: "\<not> is_space c \<and> code_of c \<noteq> 223 \<and> lower_char c = c" if "c \<in> set ?n" for c
    using that join_runs_chars casefold_chars dash unfolding normalise_identifier_def by blast
  have "py_strip ?n = ?n" and "py_casefold ?n = ?n"
    using c by (auto intro: py_strip_tight casefold_fixed)
  thus ?thesis unfolding normalise_identifier_def by (simp add: join_runs_idem)
qed

subsection \<open>What the registry may claim\<close>

lemma namespace_entry_Some: "namespace_entry v = Some p \<Longrightarrow> p \<noteq> [] \<and> \<not> list_ex is_space p"
  by (auto simp: namespace_entry_def Let_def split: pyval.splits if_splits)

lemma declared_namespaces_sound: "p \<in> set (declared_id_namespaces v) \<Longrightarrow> p \<noteq> [] \<and> \<not> list_ex is_space p"
  using namespace_entry_Some by (fastforce simp: declared_id_namespaces_def map_filter_def split: pyval.splits)

text \<open>The router decodes a declaration at discovery and again at the claim: the second time changes nothing.\<close>

lemma declared_namespaces_stable:
  "declared_id_namespaces (PList (map PStr (declared_id_namespaces v))) = declared_id_namespaces v"
proof -
  have "List.map_filter namespace_entry (map PStr ps) = ps"
    if "\<forall>p \<in> set ps. p \<noteq> [] \<and> \<not> list_ex is_space p" for ps
    using that
  proof (induction ps)
    case (Cons p ps)
    hence "namespace_entry (PStr p) = Some p"
      using py_strip_tight [of p] by (auto simp: namespace_entry_def Let_def list_ex_iff)
    thus ?case using Cons by (simp add: map_filter_simps)
  qed (simp add: map_filter_simps)
  moreover have "\<forall>p \<in> set (declared_id_namespaces v). p \<noteq> [] \<and> \<not> list_ex is_space p"
    using declared_namespaces_sound by blast
  ultimately show ?thesis by (simp add: declared_id_namespaces_def [of "PList _"])
qed

lemma owners_step:
  "(\<exists>os. map_of (add_owner al (q, v)) p = Some os \<and> w \<in> set os) \<longleftrightarrow>
   (p = q \<and> w = v) \<or> (\<exists>os. map_of al p = Some os \<and> w \<in> set os)"
  by (auto simp: add_owner_def update_conv' Let_def split: option.splits)

lemma owners_fold:
  "(\<exists>os. map_of (foldl add_owner al es) p = Some os \<and> w \<in> set os) \<longleftrightarrow>
   (p, w) \<in> set es \<or> (\<exists>os. map_of al p = Some os \<and> w \<in> set os)"
proof (induction es arbitrary: al)
  case (Cons e es)
  obtain q v where e: "e = (q, v)" by (cases e)
  show ?case using Cons [of "add_owner al e"] owners_step [of al q v p w] by (auto simp: e)
qed simp

lemma owners_distinct: "distinct (map fst al) \<Longrightarrow> distinct (map fst (foldl add_owner al es))"
  by (induction es arbitrary: al) (auto simp: add_owner_def Let_def distinct_update split: prod.splits)

text \<open>A claimed prefix begins a token of a term, and its owners are exactly the providers that declared it.\<close>

lemma claimed_iff:
  "(\<exists>os. (p, os) \<in> set (claimed_namespaces terms rs) \<and> w \<in> set os) \<longleftrightarrow>
   (p, w) \<in> set (owner_claims rs) \<and>
   (\<exists>t \<in> set terms. \<exists>tok \<in> set (split_at ns_separator [] t). starts_with p (py_upper tok))"
proof -
  have d: "distinct (map fst (foldl add_owner [] (owner_claims rs)))" by (rule owners_distinct) simp
  have "(p, os) \<in> set (foldl add_owner [] (owner_claims rs)) \<longleftrightarrow>
      map_of (foldl add_owner [] (owner_claims rs)) p = Some os" for os
    using map_of_eq_Some_iff [OF d] by simp
  thus ?thesis
    using owners_fold [of "[]" "owner_claims rs" p w]
    by (auto simp: claimed_namespaces_def Let_def list_ex_iff)
qed

end
