(* ===== verification/Instance_Resolution.thy ===== *)
theory Instance_Resolution
  imports Instance_Names "HOL-Library.Multiset"
begin

text \<open>
  Which individual an identifier means: the decision table of
  \<^verbatim>\<open>agent_fleet/ontology_service/instance_resolution.py\<close> over the candidates the providers offered, the
  narrowing to the most specific class, the gate of the abstention and the refusal of a near miss in a
  namespace another engine declared.

  Scores are rationals. A result that Python would not reach because it raises is \<open>None\<close>.
\<close>

subsection \<open>Candidates\<close>

record entry =
  en_id :: string
  en_class :: string
  en_label :: string
  en_score :: rat
  en_provider :: string
  en_matched :: string

definition passes_candidate_specificity :: "string \<Rightarrow> entry \<Rightarrow> bool" where
  "passes_candidate_specificity i c \<longleftrightarrow>
     passes_segment_specificity i (en_id c) \<or> passes_segment_specificity i (en_label c) \<or>
     en_matched c \<noteq> [] \<and> (passes_segment_specificity i (en_matched c) \<or>
                          normalise_identifier i = normalise_identifier (en_matched c))"

type_synonym class_chains = "(string \<times> string list) list"

definition chain_of :: "class_chains \<Rightarrow> string \<Rightarrow> string list" where
  "chain_of ancestry c = (case map_of ancestry c of Some cs \<Rightarrow> cs | None \<Rightarrow> [])"

definition most_specific_class :: "string list \<Rightarrow> class_chains \<Rightarrow> string option" where
  "most_specific_class classes ancestry = (let ds = remdups classes in
     if length ds < 2 then None
     else if list_ex (\<lambda>c. c = [] \<or> map_of ancestry c = None) ds then None
     else (case filter (\<lambda>c. list_all (\<lambda>e. e = c \<or> e \<in> set (chain_of ancestry c)) ds) ds of
             [w] \<Rightarrow> Some w | _ \<Rightarrow> None))"

record class_axis =
  ax_kept :: string
  ax_dropped :: "string list"
  ax_dropped_n :: nat

definition narrow_to_most_specific ::
    "entry list \<Rightarrow> class_chains \<Rightarrow> string \<Rightarrow> entry list \<times> class_axis option" where
  "narrow_to_most_specific cs ancestry i = (let classes = remdups (map en_class cs) in
     if length classes < 2 then (cs, None)
     else (case most_specific_class classes ancestry of
        None \<Rightarrow> (cs, None)
      | Some k \<Rightarrow>
          if i \<noteq> [] \<and> \<not> list_ex (\<lambda>c. en_class c = k \<and> passes_candidate_specificity i c) cs then (cs, None)
          else let ks = filter (\<lambda>c. en_class c = k) cs in
            (ks, Some \<lparr>ax_kept = k, ax_dropped = sort (removeAll k classes), ax_dropped_n = length cs - length ks\<rparr>)))"

subsection \<open>The decision\<close>

datatype match_kind =
    Exact | Fuzzy | Mixed | NotSpecific | EmptyMatch | NoProviders | RegistryUnavailable
  | AmbiguousInClass | AmbiguousInDomain | TimeoutMatch | ErrorMatch

record provenance =
  pv_match :: match_kind
  pv_resolved :: bool
  pv_n :: nat
  pv_instance :: "entry option"
  pv_class :: "string option"
  pv_rejected :: "nat option"
  pv_classes :: "string list"
  pv_menu :: "entry list"
  pv_axis :: "class_axis option"

definition unresolved :: "match_kind \<Rightarrow> nat \<Rightarrow> provenance" where
  "unresolved m n = \<lparr>pv_match = m, pv_resolved = False, pv_n = n, pv_instance = None, pv_class = None,
     pv_rejected = None, pv_classes = [], pv_menu = [], pv_axis = None\<rparr>"

record ruling =
  ru_subject :: "string option"
  ru_confidence :: rat
  ru_prov :: provenance

definition abstain :: "provenance \<Rightarrow> ruling" where
  "abstain p = \<lparr>ru_subject = None, ru_confidence = 0, ru_prov = p\<rparr>"

definition resolved_to :: "match_kind \<Rightarrow> nat \<Rightarrow> rat \<Rightarrow> entry \<Rightarrow> ruling" where
  "resolved_to m n q c = \<lparr>ru_subject = Some (en_class c), ru_confidence = q,
     ru_prov = (unresolved m n)\<lparr>pv_resolved := True, pv_instance := Some c\<rparr>\<rparr>"

text \<open>The dictionary \<open>best\<close>: the first arrival keeps its place, a better score takes it over.\<close>

fun keep_best :: "entry list \<Rightarrow> entry \<Rightarrow> entry list" where
  "keep_best [] c = [c]"
| "keep_best (b # bs) c =
     (if en_class b = en_class c \<and> en_id b = en_id c then (if en_score b < en_score c then c else b) # bs
      else b # keep_best bs c)"

definition ranked :: "entry list \<Rightarrow> entry list" where
  "ranked cs = sort_key (\<lambda>c. - en_score c) (foldl keep_best [] cs)"

definition tied_with :: "entry \<Rightarrow> entry list \<Rightarrow> entry list" where
  "tied_with t cs = filter (\<lambda>c. \<bar>en_score c - en_score t\<bar> \<le> 1 / 10 ^ 9) cs"

definition same_class_tie :: "entry list \<Rightarrow> bool" where
  "same_class_tie ts \<longleftrightarrow> 1 < length (remdups (map en_id ts)) \<and> length (remdups (map en_class ts)) = 1"

definition rank_and_decide :: "entry list \<Rightarrow> rat \<Rightarrow> ruling option" where
  "rank_and_decide cs exact = (case ranked cs of
     [] \<Rightarrow> None
   | t # rs \<Rightarrow> (let ds = t # rs; ts = tied_with t ds in
       if same_class_tie ts
       then Some \<lparr>ru_subject = Some (en_class t), ru_confidence = 0, ru_prov = (unresolved AmbiguousInClass (length ds))
                    \<lparr>pv_class := Some (en_class t), pv_menu := sort_key en_id ts\<rparr>\<rparr>
       else if exact \<le> en_score t then Some (resolved_to Exact 1 1 t)
       else if length (remdups (map en_class ds)) = 1
       then Some (resolved_to Fuzzy (length ds) (min (9 / 10) (en_score t + 5 / 100)) t)
       else Some (abstain ((unresolved Mixed (length ds))
                    \<lparr>pv_classes := sort (remdups (map en_class ds)), pv_menu := take 3 ds\<rparr>))))"

definition with_axis :: "class_axis option \<Rightarrow> ruling \<Rightarrow> ruling" where
  "with_axis ax r = (case ax of None \<Rightarrow> r | Some a \<Rightarrow> r \<lparr>ru_prov := (ru_prov r) \<lparr>pv_axis := Some a\<rparr>\<rparr>)"

definition decide_instance :: "entry list \<Rightarrow> rat \<Rightarrow> rat \<Rightarrow> string \<Rightarrow> class_chains \<Rightarrow> ruling option" where
  "decide_instance cs exact floor_score i ancestry =
     (let above = filter (\<lambda>c. floor_score \<le> en_score c) cs in
      if above = [] then Some (abstain (unresolved EmptyMatch (length cs)))
      else let specific = (if i = [] then above else filter (passes_candidate_specificity i) above) in
        if i \<noteq> [] \<and> specific = []
        then Some (abstain ((unresolved NotSpecific (length cs)) \<lparr>pv_rejected := Some (length above)\<rparr>))
        else let (ks, ax) = (if ancestry = [] then (specific, None) else narrow_to_most_specific specific ancestry i)
          in map_option (with_axis ax) (rank_and_decide ks exact))"

definition decide_instance_abstention :: "string \<Rightarrow> string option \<Rightarrow> match_kind \<Rightarrow> bool" where
  "decide_instance_abstention i subject m \<longleftrightarrow> subject = None \<and> m = EmptyMatch \<and> is_instance_shaped i"

subsection \<open>One claimant of a namespace\<close>

definition name_is_term :: "entry \<Rightarrow> string list \<Rightarrow> bool" where
  "name_is_term c names \<longleftrightarrow>
     py_lower (py_strip (en_label c)) \<in> set names \<or>
     py_lower (py_strip (after_last CHR ''#'' (after_last CHR ''/'' (en_id c)))) \<in> set names"

definition term_names :: "string list \<Rightarrow> string list" where
  "term_names terms = map (\<lambda>t. py_lower (py_strip t)) (filter (\<lambda>t. py_strip t \<noteq> []) terms)"

definition may_claim :: "(string \<times> string list) list \<Rightarrow> string list \<Rightarrow> entry \<Rightarrow> bool" where
  "may_claim claimed names c \<longleftrightarrow> list_ex (\<lambda>(p, os). en_provider c \<in> set os) claimed \<or> name_is_term c names"

definition refuse_cross_namespace ::
    "entry list \<Rightarrow> string list \<Rightarrow> resolver list \<Rightarrow> entry list \<times> entry list \<times> (string \<times> string list) list" where
  "refuse_cross_namespace cs terms rs = (let claimed = claimed_namespaces terms rs in
     if claimed = [] then (cs, [], [])
     else let ok = may_claim claimed (term_names terms) in (filter ok cs, filter (\<lambda>c. \<not> ok c) cs, claimed))"

subsection \<open>What the ranking keeps\<close>

definition same_key :: "entry \<Rightarrow> entry \<Rightarrow> bool" where
  "same_key c d \<longleftrightarrow> en_class c = en_class d \<and> en_id c = en_id d"

lemma keep_best_sound: "b \<in> set (keep_best bs c) \<Longrightarrow> b = c \<or> b \<in> set bs"
  by (induction bs) (auto split: if_splits)

lemma keep_best_new: "\<exists>b \<in> set (keep_best bs c). same_key b c \<and> en_score c \<le> en_score b"
  by (induction bs) (auto simp: same_key_def)

lemma keep_best_old: "b \<in> set bs \<Longrightarrow> \<exists>d \<in> set (keep_best bs c). same_key d b \<and> en_score b \<le> en_score d"
  by (induction bs) (auto simp: same_key_def)

lemma keep_best_keys:
  "map (\<lambda>c. (en_class c, en_id c)) (keep_best bs c) =
   (let ks = map (\<lambda>c. (en_class c, en_id c)) bs; k = (en_class c, en_id c) in if k \<in> set ks then ks else ks @ [k])"
  by (induction bs) (auto simp: Let_def)

lemma best_sound: "b \<in> set (foldl keep_best bs cs) \<Longrightarrow> b \<in> set bs \<union> set cs"
  by (induction cs arbitrary: bs) (use keep_best_sound in fastforce)+

lemma best_covers:
  "c \<in> set bs \<union> set cs \<Longrightarrow> \<exists>b \<in> set (foldl keep_best bs cs). same_key b c \<and> en_score c \<le> en_score b"
proof (induction cs arbitrary: bs c)
  case Nil
  thus ?case by (auto simp: same_key_def)
next
  case (Cons x cs)
  consider "c \<in> set cs" | "c = x" | "c \<in> set bs" using Cons.prems by auto
  thus ?case
  proof cases
    case 1
    thus ?thesis using Cons.IH [of c "keep_best bs x"] by simp
  next
    case 2
    obtain b where b: "b \<in> set (keep_best bs x)" "same_key b x" "en_score x \<le> en_score b"
      using keep_best_new by blast
    obtain d where "d \<in> set (foldl keep_best (keep_best bs x) cs)" "same_key d b" "en_score b \<le> en_score d"
      using Cons.IH [of b "keep_best bs x"] b by auto
    thus ?thesis using b 2 by (auto simp: same_key_def intro!: bexI [of _ d])
  next
    case 3
    obtain b where b: "b \<in> set (keep_best bs x)" "same_key b c" "en_score c \<le> en_score b"
      using keep_best_old [OF 3] by blast
    obtain d where "d \<in> set (foldl keep_best (keep_best bs x) cs)" "same_key d b" "en_score b \<le> en_score d"
      using Cons.IH [of b "keep_best bs x"] b by auto
    thus ?thesis using b by (auto simp: same_key_def intro!: bexI [of _ d])
  qed
qed

lemma best_distinct:
  "distinct (map (\<lambda>c. (en_class c, en_id c)) bs) \<Longrightarrow>
   distinct (map (\<lambda>c. (en_class c, en_id c)) (foldl keep_best bs cs))"
  by (induction cs arbitrary: bs) (simp_all add: keep_best_keys Let_def)

lemma ranked_sound: "set (ranked cs) \<subseteq> set cs"
  using best_sound [of _ "[]" cs] by (auto simp: ranked_def)

lemma ranked_covers: "c \<in> set cs \<Longrightarrow> \<exists>b \<in> set (ranked cs). same_key b c \<and> en_score c \<le> en_score b"
  using best_covers [of c "[]" cs] by (auto simp: ranked_def)

lemma ranked_distinct: "distinct (map (\<lambda>c. (en_class c, en_id c)) (ranked cs))"
proof -
  let ?f = "\<lambda>c. (en_class c, en_id c)"
  have "distinct (map ?f (foldl keep_best [] cs))" by (rule best_distinct) simp
  moreover have "mset (map ?f (ranked cs)) = mset (map ?f (foldl keep_best [] cs))"
    by (simp add: ranked_def)
  ultimately show ?thesis using mset_eq_imp_distinct_iff by blast
qed

lemma ranked_empty_iff [simp]: "ranked cs = [] \<longleftrightarrow> cs = []"
proof
  assume "ranked cs = []"
  thus "cs = []" using ranked_covers [of "hd cs" cs] by (cases cs) auto
qed (simp add: ranked_def)

lemma ranked_top:
  assumes "ranked cs = t # rs"
  shows "t \<in> set cs" and "c \<in> set cs \<Longrightarrow> en_score c \<le> en_score t"
proof -
  show "t \<in> set cs" using ranked_sound [of cs] assms by auto
  have "sorted (map (\<lambda>c. - en_score c) (t # rs))" using assms by (metis ranked_def sorted_sort_key)
  hence "en_score d \<le> en_score t" if "d \<in> set (ranked cs)" for d using that assms by auto
  thus "c \<in> set cs \<Longrightarrow> en_score c \<le> en_score t" using ranked_covers by fastforce
qed

text \<open>Names and classes of the ranked candidates, and of the ones at the top, by sets.\<close>

definition near :: "entry list \<Rightarrow> entry \<Rightarrow> entry set" where
  "near cs t = {c \<in> set cs. \<bar>en_score c - en_score t\<bar> \<le> 1 / 10 ^ 9}"

lemma ranked_classes: "en_class ` set (ranked cs) = en_class ` set cs"
proof
  show "en_class ` set (ranked cs) \<subseteq> en_class ` set cs" using ranked_sound by blast
  show "en_class ` set cs \<subseteq> en_class ` set (ranked cs)"
  proof (rule image_subsetI)
    fix c assume "c \<in> set cs"
    then obtain b where "b \<in> set (ranked cs)" "same_key b c" using ranked_covers by blast
    thus "en_class c \<in> en_class ` set (ranked cs)" by (metis image_eqI same_key_def)
  qed
qed

lemma tied_image:
  assumes "ranked cs = t # rs" and "\<And>c d. same_key c d \<Longrightarrow> f c = f d"
  shows "f ` set (tied_with t (t # rs)) = f ` near cs t"
proof
  show "f ` set (tied_with t (t # rs)) \<subseteq> f ` near cs t"
    using ranked_sound [of cs] assms(1) by (auto simp: tied_with_def near_def)
  show "f ` near cs t \<subseteq> f ` set (tied_with t (t # rs))"
  proof
    fix y assume "y \<in> f ` near cs t"
    then obtain c where c: "c \<in> set cs" "\<bar>en_score c - en_score t\<bar> \<le> 1 / 10 ^ 9" "y = f c" by (auto simp: near_def)
    obtain b where b: "b \<in> set (ranked cs)" "same_key b c" "en_score c \<le> en_score b" using ranked_covers c by blast
    have "en_score b \<le> en_score t" using ranked_top(2) [OF assms(1)] ranked_sound b(1) by blast
    hence "b \<in> set (tied_with t (t # rs))" using b c assms(1) by (auto simp: tied_with_def abs_le_iff)
    thus "y \<in> f ` set (tied_with t (t # rs))" using c assms(2) [OF b(2)] by (metis image_eqI)
  qed
qed

lemma near_tie_iff:
  assumes "ranked cs = t # rs"
  shows "same_class_tie (tied_with t (t # rs)) \<longleftrightarrow> 1 < card (en_id ` near cs t) \<and> card (en_class ` near cs t) = 1"
  using tied_image [OF assms, of en_id] tied_image [OF assms, of en_class]
  by (simp add: same_class_tie_def length_remdups_card_conv same_key_def)

text \<open>
  The decision table over sets of candidates: no order, no duplicates. \<open>t\<close> is a candidate with the
  top score.
\<close>

definition table_kind :: "entry list \<Rightarrow> rat \<Rightarrow> entry \<Rightarrow> match_kind" where
  "table_kind cs exact t =
     (if 1 < card (en_id ` near cs t) \<and> card (en_class ` near cs t) = 1 then AmbiguousInClass
      else if exact \<le> en_score t then Exact
      else if card (en_class ` set cs) = 1 then Fuzzy else Mixed)"

definition follows_table :: "entry list \<Rightarrow> rat \<Rightarrow> entry \<Rightarrow> ruling \<Rightarrow> bool" where
  "follows_table cs exact t r \<longleftrightarrow> (let k = table_kind cs exact t in
     t \<in> set cs \<and> (\<forall>d \<in> set cs. en_score d \<le> en_score t) \<and> pv_match (ru_prov r) = k \<and>
     ru_subject r = (if k = Mixed then None else Some (en_class t)) \<and>
     pv_resolved (ru_prov r) = (k = Exact \<or> k = Fuzzy) \<and>
     pv_instance (ru_prov r) = (if k = Exact \<or> k = Fuzzy then Some t else None) \<and>
     set (pv_menu (ru_prov r)) \<subseteq> set cs \<and>
     (k = AmbiguousInClass \<longrightarrow> en_id ` set (pv_menu (ru_prov r)) = en_id ` near cs t))"

lemma rank_and_decide_table:
  assumes "cs \<noteq> []"
  shows "\<exists>t r. rank_and_decide cs exact = Some r \<and> follows_table cs exact t r"
proof -
  obtain t rs where tr: "ranked cs = t # rs" using assms by (cases "ranked cs") auto
  note top = ranked_top [OF tr]
  have cl: "length (remdups (map en_class (t # rs))) = card (en_class ` set cs)"
    using ranked_classes [of cs] by (simp only: tr length_remdups_card_conv list.set_map)
  have sub: "set (t # rs) \<subseteq> set cs" using ranked_sound [of cs] tr by simp
  have ids: "en_id ` set (tied_with t (t # rs)) = en_id ` near cs t"
    by (rule tied_image [OF tr]) (simp add: same_key_def)
  have ties: "set (tied_with t (t # rs)) \<subseteq> set cs" using sub by (auto simp: tied_with_def)
  have few: "set (take 3 (t # rs)) \<subseteq> set cs" using sub set_take_subset by fastforce
  have "\<exists>r. rank_and_decide cs exact = Some r \<and> follows_table cs exact t r"
    unfolding rank_and_decide_def tr list.case Let_def near_tie_iff [OF tr] cl
    using top ids ties few
    by (simp add: follows_table_def table_kind_def unresolved_def resolved_to_def abstain_def)
  thus ?thesis by blast
qed

lemma rank_and_decide_None [simp]: "rank_and_decide cs exact = None \<longleftrightarrow> cs = []"
proof
  assume "cs = []"
  hence "ranked cs = []" by simp
  thus "rank_and_decide cs exact = None" by (simp only: rank_and_decide_def list.case)
qed (use rank_and_decide_table [of cs exact] in auto)

subsection \<open>What narrowing leaves out\<close>

lemma most_specific_Some:
  assumes "most_specific_class classes ancestry = Some k"
  shows "k \<in> set classes" and "e \<in> set classes \<Longrightarrow> e = k \<or> e \<in> set (chain_of ancestry k)" and "k \<noteq> []"
    and "map_of ancestry k \<noteq> None" and "1 < card (set classes)"
proof -
  let ?ds = "remdups classes" and ?P = "\<lambda>c. list_all (\<lambda>e. e = c \<or> e \<in> set (chain_of ancestry c)) (remdups classes)"
  have f: "filter ?P ?ds = [k]" and two: "\<not> length ?ds < 2"
    and all: "\<not> list_ex (\<lambda>c. c = [] \<or> map_of ancestry c = None) ?ds"
    using assms by (auto simp: most_specific_class_def Let_def split: if_splits list.splits)
  have "k \<in> set (filter ?P ?ds)" unfolding f by simp
  hence "k \<in> set ?ds \<and> ?P k" unfolding set_filter by blast
  thus "k \<in> set classes" "e \<in> set classes \<Longrightarrow> e = k \<or> e \<in> set (chain_of ancestry k)" "k \<noteq> []"
    "map_of ancestry k \<noteq> None" "1 < card (set classes)"
    using all two by (auto simp: list_all_iff list_ex_iff length_remdups_card_conv)
qed

text \<open>The winner is a fact of the set of classes.\<close>

lemma filter_singleton_iff:
  assumes "distinct xs"
  shows "filter P xs = [k] \<longleftrightarrow> {x \<in> set xs. P x} = {k}"
proof
  assume "{x \<in> set xs. P x} = {k}"
  hence s: "set (filter P xs) = {k}" by simp
  have "length (filter P xs) = card (set (filter P xs))"
    using assms by (metis distinct_card distinct_filter)
  hence "length (filter P xs) = 1" unfolding s by simp
  then obtain x where "filter P xs = [x]" by (auto simp: length_Suc_conv)
  thus "filter P xs = [k]" using s by simp
qed (metis list.simps(15) list.set(1) set_filter)

lemma most_specific_eq:
  "most_specific_class classes ancestry = Some k \<longleftrightarrow>
   1 < card (set classes) \<and> (\<forall>c \<in> set classes. c \<noteq> [] \<and> map_of ancestry c \<noteq> None) \<and>
   {c \<in> set classes. \<forall>e \<in> set classes. e = c \<or> e \<in> set (chain_of ancestry c)} = {k}"
proof -
  let ?P = "\<lambda>c. list_all (\<lambda>e. e = c \<or> e \<in> set (chain_of ancestry c)) (remdups classes)"
  have "most_specific_class classes ancestry = Some k \<longleftrightarrow>
      1 < card (set classes) \<and> (\<forall>c \<in> set classes. c \<noteq> [] \<and> map_of ancestry c \<noteq> None) \<and>
      filter ?P (remdups classes) = [k]"
    by (auto simp: most_specific_class_def Let_def list_ex_iff length_remdups_card_conv split: list.splits)
  thus ?thesis unfolding filter_singleton_iff [OF distinct_remdups] by (simp add: list_all_iff)
qed

lemma most_specific_cong: "set xs = set ys \<Longrightarrow> most_specific_class xs ancestry = most_specific_class ys ancestry"
proof -
  assume "set xs = set ys"
  hence "most_specific_class xs ancestry = Some k \<longleftrightarrow> most_specific_class ys ancestry = Some k" for k
    by (simp only: most_specific_eq)
  thus ?thesis by (cases "most_specific_class xs ancestry") (metis not_None_eq, metis)
qed

lemma narrow_eq: "narrow_to_most_specific cs ancestry i =
  (case most_specific_class (map en_class cs) ancestry of
     None \<Rightarrow> (cs, None)
   | Some k \<Rightarrow> if i \<noteq> [] \<and> \<not> list_ex (\<lambda>c. en_class c = k \<and> passes_candidate_specificity i c) cs then (cs, None)
       else let ks = filter (\<lambda>c. en_class c = k) cs in
         (ks, Some \<lparr>ax_kept = k, ax_dropped = sort (removeAll k (remdups (map en_class cs))), ax_dropped_n = length cs - length ks\<rparr>))"
proof -
  have "most_specific_class (remdups (map en_class cs)) ancestry = most_specific_class (map en_class cs) ancestry"
    by (rule most_specific_cong) simp
  moreover have "most_specific_class (map en_class cs) ancestry = None" if "length (remdups (map en_class cs)) < 2"
    using that by (simp add: most_specific_class_def)
  ultimately show ?thesis
    by (cases "length (remdups (map en_class cs)) < 2") (simp_all only: narrow_to_most_specific_def Let_def if_True if_False option.case)
qed

lemma narrow_cases:
  obtains (same) "narrow_to_most_specific cs ancestry i = (cs, None)"
  | (kept) k ax where "narrow_to_most_specific cs ancestry i = (filter (\<lambda>c. en_class c = k) cs, Some ax)"
      "most_specific_class (map en_class cs) ancestry = Some k" "ax_kept ax = k"
      "i = [] \<or> (\<exists>c \<in> set cs. en_class c = k \<and> passes_candidate_specificity i c)"
proof (cases "most_specific_class (map en_class cs) ancestry")
  case None
  thus ?thesis using same by (simp add: narrow_eq)
next
  case (Some k)
  show ?thesis
  proof (cases "i \<noteq> [] \<and> \<not> list_ex (\<lambda>c. en_class c = k \<and> passes_candidate_specificity i c) cs")
    case True
    thus ?thesis using same Some by (simp add: narrow_eq)
  next
    case False
    thus ?thesis using kept [of k] Some by (simp add: narrow_eq Let_def list_ex_iff del: not_all)
  qed
qed

lemma narrow_nonempty: "cs \<noteq> [] \<Longrightarrow> fst (narrow_to_most_specific cs ancestry i) \<noteq> []"
proof (cases rule: narrow_cases [of cs ancestry i])
  case (kept k ax)
  thus ?thesis using most_specific_Some(1) [OF kept(2)] by (auto simp: filter_empty_conv)
qed simp

lemma narrow_subset: "set (fst (narrow_to_most_specific cs ancestry i)) \<subseteq> set cs"
  by (cases rule: narrow_cases [of cs ancestry i]) auto

lemma narrow_dropped:
  assumes "c \<in> set cs" and "c \<notin> set (fst (narrow_to_most_specific cs ancestry i))"
    and "d \<in> set (fst (narrow_to_most_specific cs ancestry i))"
  shows "en_class c \<noteq> en_class d \<and> en_class c \<in> set (chain_of ancestry (en_class d))"
  using assms
proof (cases rule: narrow_cases [of cs ancestry i])
  case (kept k ax)
  thus ?thesis using assms most_specific_Some(2) [OF kept(2), of "en_class c"] by auto
qed simp

subsection \<open>The decision on candidates\<close>

definition considered :: "entry list \<Rightarrow> rat \<Rightarrow> string \<Rightarrow> entry list" where
  "considered cs floor_score i =
     filter (\<lambda>c. floor_score \<le> en_score c \<and> (i = [] \<or> passes_candidate_specificity i c)) cs"

definition narrowed :: "entry list \<Rightarrow> class_chains \<Rightarrow> string \<Rightarrow> entry list \<times> class_axis option" where
  "narrowed cs ancestry i = (if ancestry = [] then (cs, None) else narrow_to_most_specific cs ancestry i)"

lemma narrowed_nonempty: "cs \<noteq> [] \<Longrightarrow> fst (narrowed cs ancestry i) \<noteq> []"
  using narrow_nonempty by (simp add: narrowed_def)

lemma narrowed_subset: "set (fst (narrowed cs ancestry i)) \<subseteq> set cs"
  using narrow_subset by (simp add: narrowed_def)

lemma narrowed_dropped:
  assumes "c \<in> set cs" and "c \<notin> set (fst (narrowed cs ancestry i))" and "d \<in> set (fst (narrowed cs ancestry i))"
  shows "en_class c \<noteq> en_class d \<and> en_class c \<in> set (chain_of ancestry (en_class d))"
  using assms narrow_dropped [of c cs ancestry i d] by (auto simp: narrowed_def split: if_splits)

lemma considered_eq:
  "considered cs f i =
   (let above = filter (\<lambda>c. f \<le> en_score c) cs in if i = [] then above else filter (passes_candidate_specificity i) above)"
  by (simp add: considered_def conj_commute Let_def)

lemma considered_sub: "considered cs f i \<noteq> [] \<Longrightarrow> filter (\<lambda>c. f \<le> en_score c) cs \<noteq> []"
  by (auto simp: considered_def filter_empty_conv)

lemma decide_eq:
  "decide_instance cs ex f i ancestry =
   (if filter (\<lambda>c. f \<le> en_score c) cs = [] then Some (abstain (unresolved EmptyMatch (length cs)))
    else if considered cs f i = []
    then Some (abstain ((unresolved NotSpecific (length cs)) \<lparr>pv_rejected := Some (length (filter (\<lambda>c. f \<le> en_score c) cs))\<rparr>))
    else let (ks, ax) = narrowed (considered cs f i) ancestry i in map_option (with_axis ax) (rank_and_decide ks ex))"
  by (cases "i = []") (simp_all add: decide_instance_def considered_eq narrowed_def Let_def)

lemma decide_cases:
  obtains (none) "filter (\<lambda>c. f \<le> en_score c) cs = []"
      "decide_instance cs ex f i ancestry = Some (abstain (unresolved EmptyMatch (length cs)))"
  | (vague) "filter (\<lambda>c. f \<le> en_score c) cs \<noteq> []" "considered cs f i = []"
      "decide_instance cs ex f i ancestry =
        Some (abstain ((unresolved NotSpecific (length cs)) \<lparr>pv_rejected := Some (length (filter (\<lambda>c. f \<le> en_score c) cs))\<rparr>))"
  | (table) ks ax t r where "considered cs f i \<noteq> []" "narrowed (considered cs f i) ancestry i = (ks, ax)"
      "follows_table ks ex t r" "rank_and_decide ks ex = Some r" "decide_instance cs ex f i ancestry = Some (with_axis ax r)"
proof (cases "filter (\<lambda>c. f \<le> en_score c) cs = []")
  case True
  thus ?thesis using none by (simp only: decide_eq if_True)
next
  case False
  show ?thesis
  proof (cases "considered cs f i = []")
    case True
    have "decide_instance cs ex f i ancestry =
        Some (abstain ((unresolved NotSpecific (length cs)) \<lparr>pv_rejected := Some (length (filter (\<lambda>c. f \<le> en_score c) cs))\<rparr>))"
      unfolding decide_eq if_not_P [OF False] if_P [OF True] by (rule refl)
    thus ?thesis by (rule vague [OF False True])
  next
    case some: False
    obtain ks ax where n: "narrowed (considered cs f i) ancestry i = (ks, ax)" by (cases "narrowed (considered cs f i) ancestry i")
    have "ks \<noteq> []" using narrowed_nonempty [OF some, of ancestry i] n by simp
    then obtain t r where r: "rank_and_decide ks ex = Some r" "follows_table ks ex t r" using rank_and_decide_table by blast
    have "decide_instance cs ex f i ancestry = Some (with_axis ax r)"
      using False some n r(1) by (simp only: decide_eq if_False Let_def prod.case option.map)
    thus ?thesis using table some n r by blast
  qed
qed

lemma decide_total: "decide_instance cs ex f i ancestry \<noteq> None"
  by (cases rule: decide_cases [of f cs ex i ancestry]) simp_all

lemma with_axis_simps [simp]:
  "ru_subject (with_axis ax r) = ru_subject r" "ru_confidence (with_axis ax r) = ru_confidence r"
  "pv_match (ru_prov (with_axis ax r)) = pv_match (ru_prov r)" "pv_resolved (ru_prov (with_axis ax r)) = pv_resolved (ru_prov r)"
  "pv_instance (ru_prov (with_axis ax r)) = pv_instance (ru_prov r)" "pv_menu (ru_prov (with_axis ax r)) = pv_menu (ru_prov r)"
  by (simp_all add: with_axis_def split: option.split)

lemma abstain_simps [simp]: "ru_subject (abstain p) = None" "ru_prov (abstain p) = p"
  by (simp_all add: abstain_def)

lemma unresolved_simps [simp]:
  "pv_match (unresolved k n) = k" "pv_resolved (unresolved k n) = False" "pv_instance (unresolved k n) = None"
  "pv_menu (unresolved k n) = []" "pv_axis (unresolved k n) = None"
  by (simp_all add: unresolved_def)

lemma subject_considered:
  assumes "decide_instance cs ex f i ancestry = Some r" and "ru_subject r = Some s"
  shows "\<exists>t \<in> set (considered cs f i). en_class t = s \<and>
    (\<forall>d \<in> set (fst (narrowed (considered cs f i) ancestry i)). en_score d \<le> en_score t)"
proof (cases rule: decide_cases [of f cs ex i ancestry])
  case (table ks ax t r')
  have "t \<in> set (considered cs f i)"
    using table narrowed_subset [of "considered cs f i" ancestry i] by (auto simp: follows_table_def Let_def)
  thus ?thesis using table assms by (auto simp: follows_table_def Let_def split: if_splits)
qed (use assms in auto)

lemma resolved_iff_instance:
  "decide_instance cs ex f i ancestry = Some r \<Longrightarrow> pv_resolved (ru_prov r) \<longleftrightarrow> pv_instance (ru_prov r) \<noteq> None"
  by (cases rule: decide_cases [of f cs ex i ancestry]) (auto simp: follows_table_def Let_def)

lemma empty_iff_below:
  "decide_instance cs ex f i ancestry = Some r \<Longrightarrow>
   pv_match (ru_prov r) = EmptyMatch \<longleftrightarrow> (\<forall>c \<in> set cs. en_score c < f)"
  by (cases rule: decide_cases [of f cs ex i ancestry])
    (auto simp: follows_table_def table_kind_def Let_def filter_empty_conv not_le considered_def split: if_splits)

lemma table_subject_class: "follows_table cs ex t r \<Longrightarrow> ru_subject r = None \<or> ru_subject r = Some (en_class t)"
  by (simp add: follows_table_def Let_def)

lemma instance_kinds:
  assumes "follows_table ks ex t r" and "pv_instance (ru_prov r) = Some c"
  shows "c = t" and "c \<in> set ks" and "\<forall>d \<in> set ks. en_score d \<le> en_score c"
    and "ru_subject r = Some (en_class c)" and "pv_resolved (ru_prov r)"
    and "\<not> (1 < card (en_id ` near ks c) \<and> card (en_class ` near ks c) = 1)"
    and "en_score c < ex \<Longrightarrow> card (en_class ` set ks) = 1"
  using assms by (auto simp: follows_table_def table_kind_def Let_def split: if_splits)

lemma one_class: "card (en_class ` S) = 1 \<Longrightarrow> c \<in> S \<Longrightarrow> d \<in> S \<Longrightarrow> en_class c = en_class d"
  by (metis card_1_singletonE image_eqI singletonD)

lemma two_ids: "c \<in> S \<Longrightarrow> d \<in> S \<Longrightarrow> en_id c \<noteq> en_id d \<Longrightarrow> finite S \<Longrightarrow> 1 < card (en_id ` S)"
  by (metis One_nat_def card_le_Suc0_iff_eq finite_imageI image_eqI not_le)

lemma near_finite [simp]: "finite (near cs t)"
  by (simp add: near_def)

lemma near_self: "t \<in> set cs \<Longrightarrow> t \<in> near cs t"
  by (simp add: near_def)

definition rivals :: "entry \<Rightarrow> entry \<Rightarrow> bool" where
  "rivals c d \<longleftrightarrow> \<bar>en_score d - en_score c\<bar> \<le> 1 / 10 ^ 9 \<and> en_id d \<noteq> en_id c"

lemma rival_needs_other_class:
  assumes n: "\<not> (1 < card (en_id ` near ks c) \<and> card (en_class ` near ks c) = 1)"
    and c: "c \<in> set ks" and d: "d \<in> set ks" and r: "rivals c d"
  shows "\<exists>e \<in> set ks. en_class e \<noteq> en_class c \<and> \<bar>en_score e - en_score c\<bar> \<le> 1 / 10 ^ 9"
proof -
  have "c \<in> near ks c" and "d \<in> near ks c" using c d r by (auto simp: near_def rivals_def)
  hence "1 < card (en_id ` near ks c)" using two_ids [of c "near ks c" d] r by (auto simp: rivals_def)
  hence "card (en_class ` near ks c) \<noteq> 1" using n by blast
  moreover have "en_class c \<in> en_class ` near ks c" using near_self [OF c] by blast
  ultimately have "en_class ` near ks c \<noteq> {en_class c}" by auto
  then obtain e where "e \<in> near ks c" "en_class e \<noteq> en_class c" using near_self [OF c] by blast
  thus ?thesis by (auto simp: near_def)
qed

subsection \<open>The order in which the providers answer\<close>

lemma narrowed_mset:
  assumes "mset cs = mset cs'"
  shows "mset (fst (narrowed cs ancestry i)) = mset (fst (narrowed cs' ancestry i))"
proof -
  have s: "set cs = set cs'" using assms by (metis set_mset_mset)
  have m: "most_specific_class (map en_class cs) ancestry = most_specific_class (map en_class cs') ancestry"
    by (rule most_specific_cong) (simp add: s)
  have p: "list_ex P cs = list_ex P cs'" for P by (simp add: list_ex_iff s)
  show ?thesis using assms
    by (simp add: narrowed_def narrow_eq m p Let_def split: option.split)
qed

lemma table_order:
  assumes t: "follows_table ks ex t r" and t': "follows_table ks' ex t' r'" and s: "set ks = set ks'"
    and u: "\<And>c d. c \<in> set ks \<Longrightarrow> d \<in> set ks \<Longrightarrow> \<bar>en_score d - en_score c\<bar> \<le> 1 / 10 ^ 9 \<Longrightarrow> en_class c = en_class d"
  shows "ru_subject r = ru_subject r' \<and> pv_match (ru_prov r) = pv_match (ru_prov r') \<and>
    map_option en_id (pv_instance (ru_prov r)) = map_option en_id (pv_instance (ru_prov r'))"
proof -
  have in_ks: "t \<in> set ks" "t' \<in> set ks" and score: "en_score t = en_score t'"
    using t t' s by (auto simp: follows_table_def Let_def intro: antisym)
  have near: "near ks t = near ks' t'" by (simp add: near_def s score)
  hence kind: "table_kind ks ex t = table_kind ks' ex t'" by (simp add: table_kind_def s score)
  have cls: "en_class t = en_class t'" using u [OF in_ks] score by simp
  have one: "card (en_class ` near ks t) = 1"
  proof -
    have "en_class c = en_class t" if "c \<in> near ks t" for c
      using u [of t c] that in_ks(1) by (simp add: near_def)
    hence "en_class ` near ks t = {en_class t}" using near_self [OF in_ks(1)] by blast
    thus ?thesis by simp
  qed
  have "en_id t = en_id t'" if "table_kind ks ex t \<noteq> AmbiguousInClass"
  proof (rule ccontr)
    assume "en_id t \<noteq> en_id t'"
    moreover have "t \<in> near ks t" "t' \<in> near ks t" using in_ks score by (auto simp: near_def)
    ultimately have "1 < card (en_id ` near ks t)" using two_ids by (metis near_finite)
    thus False using that one by (simp add: table_kind_def)
  qed
  thus ?thesis using t t' kind cls by (auto simp: follows_table_def Let_def)
qed

definition told_apart :: "entry list \<Rightarrow> bool" where
  "told_apart cs \<longleftrightarrow> (\<forall>c \<in> set cs. \<forall>d \<in> set cs. \<bar>en_score d - en_score c\<bar> \<le> 1 / 10 ^ 9 \<longrightarrow> en_class c = en_class d)"

definition decided_on :: "ruling \<Rightarrow> string option \<times> match_kind \<times> string option" where
  "decided_on r = (ru_subject r, pv_match (ru_prov r), map_option en_id (pv_instance (ru_prov r)))"

lemma decide_order:
  assumes m: "mset cs = mset cs'" and u: "told_apart cs"
  shows "map_option decided_on (decide_instance cs ex f i ancestry) = map_option decided_on (decide_instance cs' ex f i ancestry)"
proof -
  have s: "set cs = set cs'" using m by (metis set_mset_mset)
  have len: "length cs = length cs'" using m by (metis size_mset)
  have con: "mset (considered cs f i) = mset (considered cs' f i)" using m by (simp add: considered_def mset_filter)
  have nil: "considered cs f i = [] \<longleftrightarrow> considered cs' f i = []"
    "filter (\<lambda>c. f \<le> en_score c) cs = [] \<longleftrightarrow> filter (\<lambda>c. f \<le> en_score c) cs' = []"
    using s by (auto simp: considered_def filter_empty_conv)
  show ?thesis
  proof (cases rule: decide_cases [of f cs ex i ancestry])
    case none
    thus ?thesis using nil(2) len by (simp add: decide_eq [of cs'])
  next
    case vague
    have "decide_instance cs' ex f i ancestry = Some (abstain ((unresolved NotSpecific (length cs'))
        \<lparr>pv_rejected := Some (length (filter (\<lambda>c. f \<le> en_score c) cs'))\<rparr>))"
      using vague nil by (simp add: decide_eq)
    thus ?thesis using vague(3) by (simp add: decided_on_def)
  next
    case (table ks ax t r)
    have "considered cs' f i \<noteq> []" using table(1) nil(1) by simp
    then obtain ks' ax' t' r' where table': "narrowed (considered cs' f i) ancestry i = (ks', ax')"
        "follows_table ks' ex t' r'" "decide_instance cs' ex f i ancestry = Some (with_axis ax' r')"
      by (cases rule: decide_cases [of f cs' ex i ancestry]) (use considered_sub [of cs' f i] in auto)
    have "mset ks = mset ks'" using narrowed_mset [OF con, of ancestry i] table(2) table'(1) by simp
    hence ks: "set ks = set ks'" by (metis set_mset_mset)
    have "set ks \<subseteq> set cs" using narrowed_subset [of "considered cs f i" ancestry i] table(2) by (auto simp: considered_def)
    hence apart: "en_class c = en_class d" if "c \<in> set ks" "d \<in> set ks" "\<bar>en_score d - en_score c\<bar> \<le> 1 / 10 ^ 9" for c d
      using that u by (auto simp: told_apart_def)
    from table_order [OF table(3) table'(2) ks apart] have "decided_on r = decided_on r'" by (simp add: decided_on_def)
    thus ?thesis using table(5) table'(3) by (simp add: decided_on_def)
  qed
qed

subsection \<open>Claims on a namespace\<close>

lemma refuse_split: "mset (fst (refuse_cross_namespace cs terms rs)) + mset (fst (snd (refuse_cross_namespace cs terms rs))) = mset cs"
  by (simp add: refuse_cross_namespace_def Let_def flip: multiset_partition)

lemma refused_iff:
  "c \<in> set (fst (snd (refuse_cross_namespace cs terms rs))) \<longleftrightarrow>
   c \<in> set cs \<and> claimed_namespaces terms rs \<noteq> [] \<and> \<not> may_claim (claimed_namespaces terms rs) (term_names terms) c"
  by (auto simp: refuse_cross_namespace_def Let_def)

lemma kept_iff:
  "c \<in> set (fst (refuse_cross_namespace cs terms rs)) \<longleftrightarrow>
   c \<in> set cs \<and> (claimed_namespaces terms rs = [] \<or> may_claim (claimed_namespaces terms rs) (term_names terms) c)"
  by (auto simp: refuse_cross_namespace_def Let_def)

subsection \<open>Properties\<close>

lemma resolved_instance:
  assumes "decide_instance cs ex f i ancestry = Some r" and "pv_instance (ru_prov r) = Some c"
  shows "c \<in> set (considered cs f i)" and "ru_subject r = Some (en_class c)" and "pv_resolved (ru_prov r)"
    and "\<And>d. d \<in> set (considered cs f i) \<Longrightarrow>
      en_score d \<le> en_score c \<and> (en_score c < ex \<longrightarrow> en_class d = en_class c) \<or>
      en_class d \<noteq> en_class c \<and> en_class d \<in> set (chain_of ancestry (en_class c))"
    and "\<And>d. d \<in> set (considered cs f i) \<Longrightarrow> rivals c d \<Longrightarrow> en_class d = en_class c \<Longrightarrow>
      \<exists>e \<in> set (considered cs f i). en_class e \<noteq> en_class c \<and> \<bar>en_score e - en_score c\<bar> \<le> 1 / 10 ^ 9"
proof -
  obtain ks ax t r0 where n: "narrowed (considered cs f i) ancestry i = (ks, ax)" and tb: "follows_table ks ex t r0"
      and r: "r = with_axis ax r0"
    using assms by (cases rule: decide_cases [of f cs ex i ancestry]) auto
  have c: "pv_instance (ru_prov r0) = Some c" using assms(2) r by simp
  note k = instance_kinds [OF tb c]
  have sub: "set ks \<subseteq> set (considered cs f i)" using narrowed_subset [of "considered cs f i" ancestry i] n by simp
  show "c \<in> set (considered cs f i)" "ru_subject r = Some (en_class c)" "pv_resolved (ru_prov r)"
    using k sub r by auto
  have drop: "en_class d \<noteq> en_class c \<and> en_class d \<in> set (chain_of ancestry (en_class c))"
    if "d \<in> set (considered cs f i)" "d \<notin> set ks" for d
    using narrowed_dropped [of d "considered cs f i" ancestry i c] that k(2) n by simp
  show "en_score d \<le> en_score c \<and> (en_score c < ex \<longrightarrow> en_class d = en_class c) \<or>
      en_class d \<noteq> en_class c \<and> en_class d \<in> set (chain_of ancestry (en_class c))"
    if "d \<in> set (considered cs f i)" for d
    using drop [OF that] k(2,3) one_class [OF k(7), of d c] by blast
  show "\<exists>e \<in> set (considered cs f i). en_class e \<noteq> en_class c \<and> \<bar>en_score e - en_score c\<bar> \<le> 1 / 10 ^ 9"
    if "d \<in> set (considered cs f i)" "rivals c d" "en_class d = en_class c" for d
  proof -
    have "d \<in> set ks" using drop [OF that(1)] that(3) by auto
    from rival_needs_other_class [OF k(6) k(2) this that(2)] sub show ?thesis by blast
  qed
qed

definition part_table :: entry where
  "part_table = \<lparr>en_id = ''urn:publog.p_cage.prod'', en_class = ''idp#Table'', en_label = ''CAGE codes'', en_score = 9 / 10,
     en_provider = ''engine_d'', en_matched = []\<rparr>"

definition part_column :: entry where
  "part_column = part_table \<lparr>en_id := ''urn:publog.cage'', en_class := ''idp#Column'', en_score := 8 / 10\<rparr>"

text \<open>
  C33. An individual the decision binds is a candidate that clears the floor and that the identifier
  names as a whole segment or by its normalised spelling. The class answered is its class. No considered
  candidate scores higher and below the exact threshold none is of another class, save candidates of
  broader classes on the same subclass chain; and a same-class candidate with the same score and another
  id is passed over only beside a tie with another class.
\<close>

theorem a_bound_instance_is_named_and_best:
  assumes "decide_instance cs ex f i ancestry = Some r" and "pv_instance (ru_prov r) = Some c"
  shows "c \<in> set cs \<and> f \<le> en_score c \<and> (i = [] \<or> passes_candidate_specificity i c) \<and>
    ru_subject r = Some (en_class c) \<and> pv_resolved (ru_prov r) \<and>
    (\<forall>d \<in> set (considered cs f i).
      en_score d \<le> en_score c \<and> (en_score c < ex \<longrightarrow> en_class d = en_class c) \<or>
      en_class d \<noteq> en_class c \<and> en_class d \<in> set (chain_of ancestry (en_class c))) \<and>
    (\<forall>d \<in> set (considered cs f i). rivals c d \<and> en_class d = en_class c \<longrightarrow>
      (\<exists>e \<in> set (considered cs f i). en_class e \<noteq> en_class c \<and> \<bar>en_score e - en_score c\<bar> \<le> 1 / 10 ^ 9))"
  using resolved_instance [OF assms] by (auto simp: considered_def)

theorem a_bound_instance_is_named_and_best_witness:
  "passes_candidate_specificity ''p_cage'' part_table \<and> 7 / 10 \<le> en_score part_table"
proof -
  have "decide_instance [part_column, part_table] (95 / 100) (7 / 10) ''p_cage'' [] =
      Some (resolved_to Fuzzy 1 (9 / 10) part_table)" by code_simp
  from a_bound_instance_is_named_and_best [OF this, of part_table]
  show ?thesis by (simp add: resolved_to_def)
qed

text \<open>
  C34. The order in which providers answer decides nothing, as long as no two candidates of different
  classes share a score: the class, the outcome and the individual are the same for every order of the
  same candidates.
\<close>

theorem arrival_order_decides_nothing:
  assumes "mset cs = mset cs'" and "told_apart cs"
  shows "map_option decided_on (decide_instance cs ex f i ancestry) = map_option decided_on (decide_instance cs' ex f i ancestry)"
  by (rule decide_order [OF assms])

theorem arrival_order_decides_nothing_witness:
  "map_option decided_on (decide_instance [part_column, part_table] (95 / 100) (7 / 10) [] []) =
   map_option decided_on (decide_instance [part_table, part_column] (95 / 100) (7 / 10) [] [])"
proof (rule arrival_order_decides_nothing)
  show "told_apart [part_column, part_table]" by (simp add: told_apart_def part_column_def part_table_def)
qed simp

text \<open>
  Narrowing to the most specific class keeps a candidate when there was one, keeps one the identifier
  names, and leaves out only candidates whose class is an ancestor of every class it keeps.
\<close>
theorem narrowing_leaves_out_ancestors:
  assumes "narrow_to_most_specific cs ancestry i = (ks, ax)" and "cs \<noteq> []"
  shows "ks \<noteq> [] \<and> set ks \<subseteq> set cs \<and>
    (\<forall>c \<in> set cs - set ks. \<forall>d \<in> set ks. en_class c \<noteq> en_class d \<and> en_class c \<in> set (chain_of ancestry (en_class d))) \<and>
    (i \<noteq> [] \<and> (\<exists>c \<in> set cs. passes_candidate_specificity i c) \<longrightarrow> (\<exists>c \<in> set ks. passes_candidate_specificity i c))"
proof -
  have "\<exists>c \<in> set ks. passes_candidate_specificity i c" if "i \<noteq> []" "c \<in> set cs" "passes_candidate_specificity i c" for c
    using that assms(1) by (cases rule: narrow_cases [of cs ancestry i]) auto
  thus ?thesis
    using narrow_nonempty [OF assms(2), of ancestry i] narrow_subset [of cs ancestry i] narrow_dropped [of _ cs ancestry i] assms(1)
    by auto
qed

definition safety_part :: entry where
  "safety_part = \<lparr>en_id = ''CSI-5002'', en_class = ''safety#Item'', en_label = ''seal kit.'', en_score = 1,
     en_provider = ''saf'', en_matched = ''PN-8802''\<rparr>"

definition stock_part :: entry where
  "stock_part = safety_part \<lparr>en_id := ''PN-8802'', en_class := ''pcn#Component'', en_provider := ''eo'', en_matched := []\<rparr>"

definition part_chains :: class_chains where
  "part_chains = [(''safety#Item'', [''safety#Item'', ''pcn#Component'']), (''pcn#Component'', [''pcn#Component''])]"

theorem narrowing_leaves_out_ancestors_witness:
  "fst (narrow_to_most_specific [stock_part, safety_part] part_chains ''pn 8802'') = [safety_part] \<and>
   \<not> en_class stock_part = en_class safety_part"
proof -
  have n: "narrow_to_most_specific [stock_part, safety_part] part_chains ''pn 8802'' =
      ([safety_part], Some \<lparr>ax_kept = ''safety#Item'', ax_dropped = [''pcn#Component''], ax_dropped_n = 1\<rparr>)" by code_simp
  have "stock_part \<noteq> safety_part" by code_simp
  with narrowing_leaves_out_ancestors [OF n] n show ?thesis by simp
qed

text \<open>
  What is refused across a namespace and what is kept are together the candidates, each once. A
  candidate is refused only when some token of what was asked begins with a declared prefix, its provider
  declared none of the prefixes so claimed, and neither its label nor its local name is a term asked.
\<close>
theorem only_foreign_near_misses_are_refused:
  "mset (fst (refuse_cross_namespace cs terms rs)) + mset (fst (snd (refuse_cross_namespace cs terms rs))) = mset cs \<and>
   (c \<in> set (fst (snd (refuse_cross_namespace cs terms rs))) \<longleftrightarrow>
     c \<in> set cs \<and> \<not> name_is_term c (term_names terms) \<and>
     (\<exists>p os. (p, os) \<in> set (claimed_namespaces terms rs)) \<and>
     \<not> (\<exists>p t tok. (p, en_provider c) \<in> set (owner_claims rs) \<and> t \<in> set terms \<and>
          tok \<in> set (split_at ns_separator [] t) \<and> starts_with p (py_upper tok)))"
proof -
  have "list_ex (\<lambda>(p, os). en_provider c \<in> set os) (claimed_namespaces terms rs) \<longleftrightarrow>
      (\<exists>p os. (p, os) \<in> set (claimed_namespaces terms rs) \<and> en_provider c \<in> set os)"
    by (auto simp: list_ex_iff)
  hence "may_claim (claimed_namespaces terms rs) (term_names terms) c \<longleftrightarrow> name_is_term c (term_names terms) \<or>
      (\<exists>p t tok. (p, en_provider c) \<in> set (owner_claims rs) \<and> t \<in> set terms \<and>
          tok \<in> set (split_at ns_separator [] t) \<and> starts_with p (py_upper tok))"
    unfolding may_claim_def using claimed_iff [of _ terms rs "en_provider c"] by blast
  moreover have "claimed_namespaces terms rs \<noteq> [] \<longleftrightarrow> (\<exists>p os. (p, os) \<in> set (claimed_namespaces terms rs))"
    by (cases "claimed_namespaces terms rs") auto
  ultimately show ?thesis by (simp add: refuse_split refused_iff) blast
qed

subsection \<open>Where the decision is not what its comments say\<close>

text \<open>Candidates of unrelated classes with one exact score are no \<open>mixed\<close>: the first to arrive is bound.\<close>

lemma exact_cross_class_tie_takes_the_first:
  "map_option decided_on (decide_instance [part_table \<lparr>en_score := 1\<rparr>, part_column \<lparr>en_score := 1\<rparr>] (95 / 100) (7 / 10) [] []) =
     Some (Some ''idp#Table'', Exact, Some ''urn:publog.p_cage.prod'') \<and>
   map_option decided_on (decide_instance [part_column \<lparr>en_score := 1\<rparr>, part_table \<lparr>en_score := 1\<rparr>] (95 / 100) (7 / 10) [] []) =
     Some (Some ''idp#Column'', Exact, Some ''urn:publog.cage'')"
  by code_simp

text \<open>A tie of two individuals of one class asks, unless a candidate of a third class shares the score.\<close>

lemma third_class_hides_a_tie:
  "map_option decided_on (decide_instance [part_table, part_table \<lparr>en_id := ''urn:other''\<rparr>] (9 / 10) (7 / 10) [] []) =
     Some (Some ''idp#Table'', AmbiguousInClass, None) \<and>
   map_option decided_on (decide_instance [part_table, part_table \<lparr>en_id := ''urn:other''\<rparr>, part_column \<lparr>en_score := 9 / 10\<rparr>]
       (9 / 10) (7 / 10) [] []) =
     Some (Some ''idp#Table'', Exact, Some ''urn:publog.p_cage.prod'')"
  by code_simp

text \<open>The first segment counts as joined by punctuation when the text begins with some.\<close>

lemma first_segment_can_be_structural: "kinded_segments ''.prod'' = [(''prod'', True)]"
  by code_simp

end
