(* ===== verification/Instance_Lookup.thy ===== *)
theory Instance_Lookup
  imports Instance_Resolution
begin

text \<open>
  Asking the mesh what an identifier means: the discovery of the providers and its cache, the calls, what
  their answers leave to decide and the answer of the resolver, from
  \<^verbatim>\<open>agent_fleet/ontology_service/main.py\<close>, with \<^verbatim>\<open>recall_guard.py\<close> and \<^verbatim>\<open>input_declared.py\<close> of the same
  service.

  What the registry, a provider, the graph of classes and the classifier answer are arguments; \<open>None\<close> is a
  call that raises.
\<close>

subsection \<open>The registry and its cache\<close>

record registry_row =
  rr_endpoint :: string
  rr_provider :: string
  rr_timeout :: "rat option"
  rr_domains :: "string list"
  rr_namespaces :: pyval

text \<open>
  What asking the graph gives: no driver is configured, the query raises, or its rows (a time-out
  that is no number is read as none).
\<close>

datatype registry_read = NoDriver | QueryFails | Rows "registry_row list"

datatype discovery = Found "resolver list" | NoneFound | RegistryDown | RegistryFailed

type_synonym resolver_cache = "(resolver list \<times> rat) option"

definition resolver_of :: "registry_row \<Rightarrow> resolver" where
  "resolver_of r = \<lparr>rv_endpoint = rr_endpoint r,
     rv_provider = (if rr_provider r = [] then ''unknown'' else rr_provider r), rv_timeout = rr_timeout r,
     rv_domains = rr_domains r, rv_namespaces = PList (map PStr (declared_id_namespaces (rr_namespaces r)))\<rparr>"

definition resolvers_read :: "registry_row list \<Rightarrow> resolver list" where
  "resolvers_read rows = map resolver_of (filter (\<lambda>r. rr_endpoint r \<noteq> []) rows)"

definition answered :: "resolver list \<Rightarrow> discovery" where
  "answered rs = (if rs = [] then NoneFound else Found rs)"

definition fresh :: "rat \<Rightarrow> rat \<Rightarrow> bool \<Rightarrow> resolver_cache \<Rightarrow> resolver list option" where
  "fresh ttl now refresh ca = (case ca of
     Some (rs, filled) \<Rightarrow> if \<not> refresh \<and> now - filled < ttl then Some rs else None
   | None \<Rightarrow> None)"

definition discover_instance_resolvers ::
    "rat \<Rightarrow> rat \<Rightarrow> bool \<Rightarrow> registry_read \<Rightarrow> resolver_cache \<Rightarrow> resolver_cache \<times> discovery option" where
  "discover_instance_resolvers ttl now refresh reg ca = (case fresh ttl now refresh ca of
     Some rs \<Rightarrow> (ca, Some (answered rs))
   | None \<Rightarrow> (case reg of
       NoDriver \<Rightarrow> (ca, Some RegistryDown)
     | QueryFails \<Rightarrow> (ca, None)
     | Rows rows \<Rightarrow> (Some (resolvers_read rows, now), Some (answered (resolvers_read rows)))))"

text \<open>The twin for listing the members of a class: a failing query is an outcome, no namespaces are read.\<close>

definition enumerate_provider_of :: "registry_row \<Rightarrow> resolver" where
  "enumerate_provider_of r = (resolver_of r) \<lparr>rv_namespaces := PNone\<rparr>"

definition discover_enumerate_providers ::
    "rat \<Rightarrow> rat \<Rightarrow> bool \<Rightarrow> registry_read \<Rightarrow> resolver_cache \<Rightarrow> resolver_cache \<times> discovery" where
  "discover_enumerate_providers ttl now refresh reg ca = (case fresh ttl now refresh ca of
     Some rs \<Rightarrow> (ca, answered rs)
   | None \<Rightarrow> (case reg of
       NoDriver \<Rightarrow> (ca, RegistryDown)
     | QueryFails \<Rightarrow> (ca, RegistryFailed)
     | Rows rows \<Rightarrow> (let rs = map enumerate_provider_of (filter (\<lambda>r. rr_endpoint r \<noteq> []) rows)
                     in (Some (rs, now), answered rs))))"

subsection \<open>The fan-out\<close>

record lookup =
  lk_endpoint :: string
  lk_budget :: rat
  lk_identifier :: string
  lk_query :: string
  lk_email :: string
  lk_domains :: "string list"

datatype provider_reply = Replied pyval | TimedOut | CallFailed

datatype call_status = CallOk | CallTimeout | CallError

record provider_call =
  pc_status :: call_status
  pc_entries :: "entry list"
  pc_provider :: string

text \<open>
  What the calls depend on: how a value renders and how a text reads as a number, the providers, the
  floor of the budget, the thresholds, the graph of classes and the classes that answer in a domain.
\<close>

record mesh =
  me_rend :: "pyval \<Rightarrow> string"
  me_number :: "string \<Rightarrow> rat option"
  me_ask :: "lookup \<Rightarrow> provider_reply"
  me_budget :: rat
  me_exact :: rat
  me_floor :: rat
  me_classes :: "string list \<Rightarrow> class_chains option"
  me_served :: "string list \<Rightarrow> string list"

definition score_of :: "mesh \<Rightarrow> pyval \<Rightarrow> rat option" where
  "score_of m v = (if truthy v then (case v of PStr s \<Rightarrow> me_number m s | _ \<Rightarrow> num_of v) else Some 0)"

definition read_entry :: "mesh \<Rightarrow> string \<Rightarrow> pyval \<Rightarrow> entry option" where
  "read_entry m w v = (case v of
     PDict d \<Rightarrow> (let tx = (\<lambda>k. str_or_empty (me_rend m) (dget d k)) in
       map_option (\<lambda>q. \<lparr>en_id = tx ''instance_id'', en_class = tx ''class_uri'', en_label = tx ''label'',
           en_score = q, en_provider = w, en_matched = tx ''matched_on''\<rparr>) (score_of m (dget d ''score'')))
   | _ \<Rightarrow> None)"

text \<open>\<open>data.get("candidates") or []\<close> and what a loop over it visits; None where either raises.\<close>

definition listed_values :: "pyval \<Rightarrow> pyval list option" where
  "listed_values data = (if \<not> truthy data then Some [] else case data of
     PDict d \<Rightarrow> (let v = dget d ''candidates'' in
       if \<not> truthy v then Some [] else (case v of
         PList xs \<Rightarrow> Some xs | PDict e \<Rightarrow> Some (map (PStr \<circ> fst) e) | PStr s \<Rightarrow> Some (map (\<lambda>c. PStr [c]) s) | _ \<Rightarrow> None))
   | _ \<Rightarrow> None)"

definition lookup_for :: "mesh \<Rightarrow> resolver \<Rightarrow> string \<Rightarrow> string \<Rightarrow> string \<Rightarrow> string list \<Rightarrow> lookup" where
  "lookup_for m r term query email grant = \<lparr>lk_endpoint = rv_endpoint r,
     lk_budget = (case rv_timeout r of Some b \<Rightarrow> if b = 0 then me_budget m else b | None \<Rightarrow> me_budget m),
     lk_identifier = term, lk_query = query, lk_email = email, lk_domains = grant\<rparr>"

definition call_resolver :: "mesh \<Rightarrow> string \<Rightarrow> string \<Rightarrow> string list \<Rightarrow> resolver \<times> string \<Rightarrow> provider_call option" where
  "call_resolver m query email grant rt = (case rt of (r, term) \<Rightarrow>
     (let said = (\<lambda>st es. \<lparr>pc_status = st, pc_entries = es, pc_provider = rv_provider r\<rparr>) in
      case me_ask m (lookup_for m r term query email grant) of
        TimedOut \<Rightarrow> Some (said CallTimeout [])
      | CallFailed \<Rightarrow> Some (said CallError [])
      | Replied data \<Rightarrow> map_option (\<lambda>vs. said CallOk (List.map_filter (read_entry m (rv_provider r)) vs)) (listed_values data)))"

definition lookup_terms :: "string \<Rightarrow> string list" where
  "lookup_terms i = (let nm = fst (identifier_name_and_qualifiers i) in
     if nm \<noteq> [] \<and> nm \<noteq> py_lower (py_strip i) \<and> \<not> list_all isdigit_char nm then [i, nm] else [i])"

text \<open>\<open>asyncio.gather\<close> over every provider and term: it raises what one of them raises.\<close>

definition fan_out :: "mesh \<Rightarrow> string \<Rightarrow> string \<Rightarrow> string list \<Rightarrow> string \<Rightarrow> resolver list \<Rightarrow> provider_call list option" where
  "fan_out m query email grant i rs =
     those (map (call_resolver m query email grant) (List.product rs (lookup_terms i)))"

text \<open>\<open>{r.get("provider"): set(r.get("domains"))}\<close>: of two rows of one provider the last one stands.\<close>

definition domains_owned :: "resolver list \<Rightarrow> string \<Rightarrow> string list" where
  "domains_owned rs w = (case map_of (rev (map (\<lambda>r. (rv_provider r, rv_domains r)) rs)) w of Some ds \<Rightarrow> ds | None \<Rightarrow> [])"

definition out_of_domain :: "resolver list \<Rightarrow> string list \<Rightarrow> string \<Rightarrow> bool" where
  "out_of_domain rs asked w \<longleftrightarrow> (let owns = domains_owned rs w in
     asked \<noteq> [] \<and> owns \<noteq> [] \<and> \<not> list_ex (\<lambda>d. d \<in> set asked) owns)"

datatype axis_status = NotNeeded | ReadChains | Unavailable

record resolution =
  rs_subject :: "string option"
  rs_prov :: provenance
  rs_asked :: "string list"
  rs_demoted :: "provider_call list"
  rs_calls :: "provider_call list"
  rs_options :: "(string \<times> string \<times> string) list"
  rs_axis_status :: axis_status

definition read_class_chains :: "mesh \<Rightarrow> string list \<Rightarrow> class_chains \<times> axis_status" where
  "read_class_chains m us = (case me_classes m us of
     None \<Rightarrow> ([], Unavailable)
   | Some raw \<Rightarrow> (map (\<lambda>(c, cs). (c, c # removeAll c cs)) (filter (\<lambda>(c, cs). cs \<noteq> [])
       (map (\<lambda>(c, cs). (c, filter (\<lambda>u. u \<noteq> []) cs)) raw)), ReadChains))"

definition without_calls :: "match_kind \<Rightarrow> resolution" where
  "without_calls k = \<lparr>rs_subject = None, rs_prov = unresolved k 0, rs_asked = [], rs_demoted = [], rs_calls = [],
     rs_options = [], rs_axis_status = NotNeeded\<rparr>"

text \<open>What is left to decide on, once the providers have answered.\<close>

record claims =
  cl_entries :: "entry list"
  cl_axis :: "class_axis option"
  cl_chains :: class_chains
  cl_status :: axis_status

definition claims_of :: "mesh \<Rightarrow> string \<Rightarrow> string list \<Rightarrow> resolver list \<Rightarrow> provider_call list \<Rightarrow> claims" where
  "claims_of m i asked rs calls =
     (let cs = concat (map pc_entries (filter (\<lambda>o'. \<not> out_of_domain rs asked (pc_provider o')) calls));
          kept = fst (refuse_cross_namespace cs (lookup_terms i) rs);
          classes = sort (remdups (filter (\<lambda>u. u \<noteq> []) (map en_class kept)))
      in if length classes \<le> 1 then \<lparr>cl_entries = kept, cl_axis = None, cl_chains = [], cl_status = NotNeeded\<rparr>
         else let (ch, st) = read_class_chains m classes; (ks, ax) = narrow_to_most_specific kept ch i
              in \<lparr>cl_entries = ks, cl_axis = ax, cl_chains = ch, cl_status = st\<rparr>)"

definition competing :: "entry list \<Rightarrow> bool" where
  "competing cs \<longleftrightarrow> 1 < length (remdups (map en_provider cs)) \<and>
     1 < length (remdups (filter (\<lambda>u. u \<noteq> []) (map en_class cs)))"

definition reading :: "entry \<Rightarrow> string \<times> string \<times> string" where
  "reading c = (en_provider c, en_class c, en_label c)"

definition promoted_match :: "provider_call list \<Rightarrow> match_kind \<Rightarrow> match_kind" where
  "promoted_match calls k =
     (if k \<noteq> EmptyMatch then k
      else if list_ex (\<lambda>o'. pc_status o' = CallTimeout) calls then TimeoutMatch
      else if list_ex (\<lambda>o'. pc_status o' = CallError) calls then ErrorMatch else k)"

definition finish_ruling :: "claims \<Rightarrow> provider_call list \<Rightarrow> ruling \<Rightarrow> string option \<times> provenance" where
  "finish_ruling cl calls r =
     (let p = ru_prov r;
          q = (if pv_axis p = None then p \<lparr>pv_axis := cl_axis cl\<rparr> else p)
      in (ru_subject r, if ru_subject r = None then q \<lparr>pv_match := promoted_match calls (pv_match q)\<rparr> else q))"

definition decide_claims :: "mesh \<Rightarrow> string \<Rightarrow> claims \<Rightarrow> provider_call list \<Rightarrow> (string option \<times> provenance) option" where
  "decide_claims m i cl calls = map_option (finish_ruling cl calls)
     (decide_instance (cl_entries cl) (me_exact m) (me_floor m) i (cl_chains cl))"

definition resolve_claims :: "mesh \<Rightarrow> string \<Rightarrow> string list \<Rightarrow> resolver list \<Rightarrow> provider_call list \<Rightarrow> resolution option" where
  "resolve_claims m i asked rs calls =
     (let cl = claims_of m i asked rs calls; cs = cl_entries cl;
          answer = (\<lambda>s p opts. \<lparr>rs_subject = s, rs_prov = p, rs_asked = asked,
            rs_demoted = filter (\<lambda>o'. out_of_domain rs asked (pc_provider o')) calls, rs_calls = calls,
            rs_options = opts, rs_axis_status = cl_status cl\<rparr>)
      in if competing cs
         then Some (answer None ((unresolved AmbiguousInDomain (length cs))
                \<lparr>pv_menu := sort_key (\<lambda>c. - en_score c) (sort_key en_id cs)\<rparr>)
                (sort_key fst (sort_key (fst \<circ> snd) (remdups (map reading cs)))))
         else map_option (\<lambda>(s, p). answer s p []) (decide_claims m i cl calls))"

definition resolve_instance ::
    "mesh \<Rightarrow> string \<Rightarrow> string \<Rightarrow> string list \<Rightarrow> string \<Rightarrow> string list \<Rightarrow> discovery \<Rightarrow> resolution option" where
  "resolve_instance m i query asked email grant disc = (case disc of
     RegistryDown \<Rightarrow> Some (without_calls RegistryUnavailable)
   | RegistryFailed \<Rightarrow> Some (without_calls RegistryUnavailable)
   | NoneFound \<Rightarrow> Some (without_calls NoProviders)
   | Found rs \<Rightarrow>
       if rs = [] then Some (without_calls NoProviders)
       else Option.bind (fan_out m query email grant i rs) (resolve_claims m i (filter (\<lambda>d. d \<noteq> []) asked) rs))"

subsection \<open>The answer of the resolver\<close>

text \<open>\<open>recall_override_guard\<close>; the pool holds the class and the recall score of each candidate.\<close>

definition recall_top :: "(string \<times> rat) list \<Rightarrow> (string \<times> rat) option" where
  "recall_top pool = (case pool of [] \<Rightarrow> None
     | p # ps \<Rightarrow> Some (foldl (\<lambda>b c. if snd b < snd c then c else b) p ps))"

definition recall_override_guard :: "string \<Rightarrow> rat \<Rightarrow> (string \<times> rat) list \<Rightarrow> rat \<times> bool" where
  "recall_override_guard uri conf pool = (case recall_top pool of
     None \<Rightarrow> (conf, False)
   | Some (u, q) \<Rightarrow> (let pick = (case find (\<lambda>p. fst p = uri) pool of Some p \<Rightarrow> snd p | None \<Rightarrow> 0) in
       if u \<noteq> uri \<and> 8 / 10 \<le> q \<and> 35 / 100 \<le> q - pick then (min conf (5 / 10), True) else (conf, False)))"

definition preempted_subject_is_unanswerable :: "mesh \<Rightarrow> string \<Rightarrow> string list \<Rightarrow> bool" where
  "preempted_subject_is_unanswerable m uri ds =
     (if uri = [] \<or> uri = ''UNKNOWN'' then False
      else let ok = me_served m ds in ok \<noteq> [] \<and> uri \<notin> set ok)"

record classification =
  cf_uri :: string
  cf_confidence :: rat
  cf_identifier :: string
  cf_pool :: "(string \<times> rat) list"

datatype resolve_reason = UnservedSubject string | ViaInstance | InstanceNotFound | ClassContest bool

record resolve_answer =
  ra_uri :: string
  ra_confidence :: rat
  ra_reason :: resolve_reason
  ra_resolution :: "resolution option"

definition class_contest :: "classification \<Rightarrow> resolution option \<Rightarrow> resolve_answer" where
  "class_contest cf re = (let (q, weak) = recall_override_guard (cf_uri cf) (cf_confidence cf) (cf_pool cf) in
     \<lparr>ra_uri = cf_uri cf, ra_confidence = q, ra_reason = ClassContest weak, ra_resolution = re\<rparr>)"

definition answer_with :: "mesh \<Rightarrow> classification \<Rightarrow> string list \<Rightarrow> resolution \<Rightarrow> resolve_answer" where
  "answer_with m cf ds re = (case rs_subject re of
     Some s \<Rightarrow>
       if preempted_subject_is_unanswerable m s ds
       then \<lparr>ra_uri = ''UNKNOWN'', ra_confidence = 0, ra_reason = UnservedSubject s, ra_resolution = Some re\<rparr>
       else \<lparr>ra_uri = s, ra_confidence = max (cf_confidence cf) (9 / 10), ra_reason = ViaInstance, ra_resolution = Some re\<rparr>
   | None \<Rightarrow>
       if decide_instance_abstention (cf_identifier cf) (rs_subject re) (pv_match (rs_prov re))
       then \<lparr>ra_uri = ''UNKNOWN'', ra_confidence = 0, ra_reason = InstanceNotFound, ra_resolution = Some re\<rparr>
       else class_contest cf (Some re))"

record resolve_request =
  rq_query :: string
  rq_domain :: string
  rq_domains :: "string list"
  rq_email :: string

definition request_domains :: "resolve_request \<Rightarrow> string list" where
  "request_domains rq = (if rq_domains rq \<noteq> [] then rq_domains rq else if rq_domain rq \<noteq> [] then [rq_domain rq] else [])"

definition answer_classified ::
    "mesh \<Rightarrow> resolve_request \<Rightarrow> classification \<Rightarrow> discovery \<Rightarrow> resolve_answer option" where
  "answer_classified m rq cf disc =
     (if cf_identifier cf = [] then Some (class_contest cf None)
      else map_option (answer_with m cf (request_domains rq))
        (resolve_instance m (cf_identifier cf) (rq_query rq) (request_domains rq) (rq_email rq) (rq_domains rq) disc))"

text \<open>With the registry read where an identifier asks for it.\<close>

definition resolve_turn ::
    "mesh \<Rightarrow> resolve_request \<Rightarrow> classification \<Rightarrow> rat \<Rightarrow> rat \<Rightarrow> registry_read \<Rightarrow> resolver_cache \<Rightarrow>
     resolver_cache \<times> resolve_answer option" where
  "resolve_turn m rq cf ttl now reg ca =
     (if cf_identifier cf = [] then (ca, Some (class_contest cf None))
      else let (ca', d) = discover_instance_resolvers ttl now False reg ca
           in (ca', Option.bind d (answer_classified m rq cf)))"

text \<open>\<open>input_declared_classes\<close>: the classes the best verb of the question takes as its input.\<close>

record verb_hit =
  vh_verb :: string
  vh_input :: string
  vh_endpoint :: string
  vh_score :: "rat option"
  vh_description :: string

datatype declared_reason = NoVerbAboveFloor | DeclaredInput | NotServedOrVisible

fun take_inputs :: "string list \<Rightarrow> (string \<Rightarrow> bool) \<Rightarrow> string list \<Rightarrow> verb_hit list \<Rightarrow> verb_hit list \<times> verb_hit list" where
  "take_inputs served vis seen [] = ([], [])"
| "take_inputs served vis seen (h # hs) = (let u = vh_input h in
     if u = [] \<or> u \<in> set seen then take_inputs served vis seen hs
     else let (classes, dropped) = take_inputs served vis (u # seen) hs in
       if u \<in> set served \<and> vis u then (h # classes, dropped) else (classes, h # dropped))"

definition input_declared_classes ::
    "verb_hit list \<Rightarrow> string list \<Rightarrow> (string \<Rightarrow> bool) \<Rightarrow> rat \<Rightarrow> verb_hit list \<times> verb_hit list \<times> declared_reason" where
  "input_declared_classes found_rows served vis least =
     (let hs = sort_key (\<lambda>h. - the (vh_score h)) (filter (\<lambda>h. vh_endpoint h \<noteq> [] \<and> vh_score h \<noteq> None) found_rows) in
      case hs of
        [] \<Rightarrow> ([], [], NoVerbAboveFloor)
      | t # ts \<Rightarrow>
          if the (vh_score t) < least then ([], [], NoVerbAboveFloor)
          else let (classes, dropped) = take_inputs served vis [] (filter (\<lambda>h. vh_verb h = vh_verb t) hs)
            in (classes, dropped, if classes = [] then NotServedOrVisible else DeclaredInput))"

subsection \<open>What the calls bring\<close>

lemma those_Some: "those xs = Some ys \<longleftrightarrow> xs = map Some ys"
  by (induction xs arbitrary: ys) (auto split: option.splits)

lemma those_member: "those (map f xs) = Some ys \<Longrightarrow> y \<in> set ys \<Longrightarrow> \<exists>x \<in> set xs. f x = Some y"
  unfolding those_Some by (metis (no_types, lifting) image_iff list.set_map)

lemma call_entries:
  assumes "call_resolver m query email grant (r, term) = Some o'"
  shows "pc_provider o' = rv_provider r" and "c \<in> set (pc_entries o') \<Longrightarrow> en_provider c = rv_provider r \<and> pc_status o' = CallOk"
  using assms
  by (cases "me_ask m (lookup_for m r term query email grant)";
      auto simp: call_resolver_def Let_def read_entry_def map_filter_def split: option.splits pyval.splits)+

lemma fan_out_calls:
  assumes "fan_out m query email grant i rs = Some calls" and "o' \<in> set calls"
  shows "\<exists>r \<in> set rs. \<exists>t \<in> set (lookup_terms i). call_resolver m query email grant (r, t) = Some o'"
  using those_member [OF assms [unfolded fan_out_def]] by auto

lemma fan_out_count:
  assumes "fan_out m query email grant i rs = Some calls"
  shows "length calls = length rs * length (lookup_terms i)"
proof -
  have "map (call_resolver m query email grant) (List.product rs (lookup_terms i)) = map Some calls"
    using assms by (simp only: fan_out_def those_Some)
  hence "length (List.product rs (lookup_terms i)) = length calls" by (metis length_map)
  thus ?thesis by (simp add: length_product)
qed

text \<open>What of the calls reaches the decision.\<close>

definition offered :: "string list \<Rightarrow> resolver list \<Rightarrow> provider_call list \<Rightarrow> entry list" where
  "offered asked rs calls = concat (map pc_entries (filter (\<lambda>o'. \<not> out_of_domain rs asked (pc_provider o')) calls))"

lemma claims_cases:
  obtains (plain) "claims_of m i asked rs calls =
      \<lparr>cl_entries = fst (refuse_cross_namespace (offered asked rs calls) (lookup_terms i) rs), cl_axis = None,
       cl_chains = [], cl_status = NotNeeded\<rparr>"
  | (chained) ch st where "cl_chains (claims_of m i asked rs calls) = ch" "cl_status (claims_of m i asked rs calls) = st"
      "(cl_entries (claims_of m i asked rs calls), cl_axis (claims_of m i asked rs calls)) =
       narrow_to_most_specific (fst (refuse_cross_namespace (offered asked rs calls) (lookup_terms i) rs)) ch i"
proof -
  let ?kept = "fst (refuse_cross_namespace (offered asked rs calls) (lookup_terms i) rs)"
  let ?us = "sort (remdups (filter (\<lambda>u. u \<noteq> []) (map en_class ?kept)))"
  show ?thesis
  proof (cases "length ?us \<le> 1")
    case True
    thus ?thesis using plain by (simp only: claims_of_def Let_def flip: offered_def) simp
  next
    case False
    obtain ch st where r: "read_class_chains m ?us = (ch, st)" by fastforce
    obtain ks ax where n: "narrow_to_most_specific ?kept ch i = (ks, ax)" by fastforce
    have "claims_of m i asked rs calls = \<lparr>cl_entries = ks, cl_axis = ax, cl_chains = ch, cl_status = st\<rparr>"
      using False r n by (simp only: claims_of_def Let_def prod.case if_False flip: offered_def)
    thus ?thesis using chained n by simp
  qed
qed

lemma claims_subset: "set (cl_entries (claims_of m i asked rs calls)) \<subseteq> set (offered asked rs calls)"
proof (cases rule: claims_cases [of m i asked rs calls])
  case plain
  thus ?thesis by (auto simp: kept_iff)
next
  case (chained ch st)
  hence "set (cl_entries (claims_of m i asked rs calls)) \<subseteq>
      set (fst (refuse_cross_namespace (offered asked rs calls) (lookup_terms i) rs))"
    by (metis fst_conv narrow_subset)
  thus ?thesis by (auto simp: kept_iff)
qed


lemma offered_from:
  assumes "c \<in> set (offered asked rs calls)" and "fan_out m query email grant i rs = Some calls"
  shows "\<exists>o' \<in> set calls. c \<in> set (pc_entries o') \<and> pc_status o' = CallOk \<and>
    en_provider c = pc_provider o' \<and> \<not> out_of_domain rs asked (pc_provider o')"
proof -
  obtain o' where o': "o' \<in> set calls" "c \<in> set (pc_entries o')" "\<not> out_of_domain rs asked (pc_provider o')"
    using assms(1) by (auto simp: offered_def)
  obtain r t where "call_resolver m query email grant (r, t) = Some o'" using fan_out_calls [OF assms(2) o'(1)] by blast
  thus ?thesis using call_entries [of m query email grant r t o'] o' by metis
qed

lemma promoted_keeps [simp]: "k \<noteq> EmptyMatch \<Longrightarrow> promoted_match calls k = k"
  by (simp add: promoted_match_def)



lemma decide_claims_eq:
  "decide_claims m i cl calls = Some sp \<longleftrightarrow>
   (\<exists>r. decide_instance (cl_entries cl) (me_exact m) (me_floor m) i (cl_chains cl) = Some r \<and> sp = finish_ruling cl calls r)"
  by (auto simp: decide_claims_def)

lemma finish_simps [simp]:
  "fst (finish_ruling cl calls r) = ru_subject r"
  "pv_instance (snd (finish_ruling cl calls r)) = pv_instance (ru_prov r)"
  "pv_resolved (snd (finish_ruling cl calls r)) = pv_resolved (ru_prov r)"
  "pv_match (snd (finish_ruling cl calls r)) =
     (if ru_subject r = None then promoted_match calls (pv_match (ru_prov r)) else pv_match (ru_prov r))"
  by (simp_all add: finish_ruling_def Let_def)

text \<open>How a resolution came about.\<close>

lemma resolution_cases:
  assumes "resolve_instance m i query asked email grant disc = Some re"
  obtains (uncalled) k where "re = without_calls k" "k = RegistryUnavailable \<or> k = NoProviders"
  | (asked) rs calls ds cl where "disc = Found rs" "rs \<noteq> []" "fan_out m query email grant i rs = Some calls"
      "ds = filter (\<lambda>d. d \<noteq> []) asked" "cl = claims_of m i ds rs calls" "rs_calls re = calls" "rs_asked re = ds"
      "competing (cl_entries cl) \<and> rs_subject re = None \<and> pv_match (rs_prov re) = AmbiguousInDomain \<and>
         pv_instance (rs_prov re) = None \<or>
       \<not> competing (cl_entries cl) \<and> decide_claims m i cl calls = Some (rs_subject re, rs_prov re)"
proof (cases disc)
  case (Found rs)
  show ?thesis
  proof (cases "rs = []")
    case False
    then obtain calls where f: "fan_out m query email grant i rs = Some calls"
        and r: "resolve_claims m i (filter (\<lambda>d. d \<noteq> []) asked) rs calls = Some re"
      using assms Found by (auto simp: resolve_instance_def bind_eq_Some_conv)
    let ?ds = "filter (\<lambda>d. d \<noteq> []) asked"
    let ?cl = "claims_of m i ?ds rs calls"
    show ?thesis
    proof (cases "competing (cl_entries ?cl)")
      case True
      show ?thesis by (rule that(2) [OF Found False f refl refl]) (use r True in \<open>auto simp: resolve_claims_def Let_def\<close>)
    next
      case c: False
      show ?thesis by (rule that(2) [OF Found False f refl refl]) (use r c in \<open>auto simp: resolve_claims_def Let_def\<close>)
    qed
  qed (use assms Found that(1) in \<open>auto simp: resolve_instance_def\<close>)
qed (use assms that(1) in \<open>auto simp: resolve_instance_def\<close>)

subsection \<open>Properties\<close>

lemma subject_claimed:
  assumes "resolve_instance m i query asked email grant disc = Some re" and "rs_subject re = Some s"
  shows "\<exists>rs cl c o'. disc = Found rs \<and> cl = claims_of m i (rs_asked re) rs (rs_calls re) \<and> c \<in> set (cl_entries cl) \<and>
    o' \<in> set (rs_calls re) \<and> c \<in> set (pc_entries o') \<and> pc_status o' = CallOk \<and> en_provider c = pc_provider o' \<and>
    \<not> out_of_domain rs (rs_asked re) (pc_provider o') \<and> en_class c = s \<and> me_floor m \<le> en_score c \<and>
    (i = [] \<or> passes_candidate_specificity i c) \<and> \<not> competing (cl_entries cl)"
using assms(1)
proof (cases rule: resolution_cases)
  case (uncalled k)
  thus ?thesis using assms(2) by (simp add: without_calls_def)
next
  case (asked rs calls ds cl)
  have nc: "\<not> competing (cl_entries cl)" and d: "decide_claims m i cl calls = Some (rs_subject re, rs_prov re)"
    using asked(8) assms(2) by auto
  obtain r where r: "decide_instance (cl_entries cl) (me_exact m) (me_floor m) i (cl_chains cl) = Some r"
      "(rs_subject re, rs_prov re) = finish_ruling cl calls r"
    using d unfolding decide_claims_eq by blast
  have "ru_subject r = Some s" using r(2) assms(2) by (metis finish_simps(1) fst_conv)
  then obtain c where c: "c \<in> set (considered (cl_entries cl) (me_floor m) i)" "en_class c = s"
    using subject_considered [OF r(1)] by blast
  have "c \<in> set (offered ds rs calls)" using c(1) claims_subset [of m i ds rs calls] asked(5) by (auto simp: considered_def)
  then obtain o' where "o' \<in> set calls" "c \<in> set (pc_entries o')" "pc_status o' = CallOk"
      "en_provider c = pc_provider o'" "\<not> out_of_domain rs ds (pc_provider o')"
    using offered_from [OF _ asked(3)] by blast
  thus ?thesis using asked c nc by (intro exI [of _ rs] exI [of _ cl] exI [of _ c] exI [of _ o']) (auto simp: considered_def)
qed

lemma not_competing:
  assumes "\<not> competing cs" and "c \<in> set cs" and "d \<in> set cs" and "en_provider c \<noteq> en_provider d" and "en_class c \<noteq> en_class d"
  shows "en_class c = [] \<or> en_class d = []"
proof (rule ccontr)
  assume "\<not> ?thesis"
  hence "{en_class c, en_class d} \<subseteq> set (filter (\<lambda>u. u \<noteq> []) (map en_class cs))" using assms by auto
  moreover have "{en_provider c, en_provider d} \<subseteq> set (map en_provider cs)" using assms by auto
  ultimately have "1 < card (set (filter (\<lambda>u. u \<noteq> []) (map en_class cs)))" "1 < card (set (map en_provider cs))"
    using assms(4,5) by (metis (no_types) List.finite_set One_nat_def card_2_iff card_mono lessI less_le_trans numeral_2_eq_2)+
  thus False using assms(1) by (simp add: competing_def length_remdups_card_conv)
qed

definition demo_mesh :: mesh where
  "demo_mesh = \<lparr>me_rend = (\<lambda>_. ''?''), me_number = (\<lambda>_. None),
     me_ask = (\<lambda>q. if lk_endpoint q = ''saf'' \<and> lk_identifier q = ''HAZ-1004''
       then Replied (PDict [(''candidates'', PList [PDict [(''instance_id'', PStr ''HAZ-1004''),
         (''class_uri'', PStr ''safety#Hazard''), (''label'', PStr ''HAZ-1004''), (''score'', PInt 1)]])])
       else if lk_endpoint q = ''slow'' then TimedOut else Replied (PDict [])),
     me_budget = 8, me_exact = 95 / 100, me_floor = 7 / 10, me_classes = (\<lambda>_. None), me_served = (\<lambda>_. [])\<rparr>"

definition provider_at :: "string \<Rightarrow> string list \<Rightarrow> resolver" where
  "provider_at w ds = \<lparr>rv_endpoint = w, rv_provider = w, rv_timeout = None, rv_domains = ds, rv_namespaces = PNone\<rparr>"

text \<open>
  C30. The class the fan-out answers was claimed: by a provider that answered its call, stands in the domain
  asked or declares none, and offered a candidate of that class that clears the floor and that the
  identifier names. And where the class answered is a named one, every claim with another named class that
  survived beside it is of that same provider. A claim that names no class is no rival: it may stand beside
  the answer whoever made it, and where the answer itself is the empty class, which a claim without a class
  can bring, nothing is said of the claims beside it.
\<close>

theorem a_resolved_class_was_claimed:
  assumes "resolve_instance m i query asked email grant disc = Some re" and "rs_subject re = Some s"
  shows "\<exists>rs c o'. disc = Found rs \<and> o' \<in> set (rs_calls re) \<and> c \<in> set (pc_entries o') \<and> pc_status o' = CallOk \<and>
    en_provider c = pc_provider o' \<and> \<not> out_of_domain rs (rs_asked re) (pc_provider o') \<and> en_class c = s \<and>
    me_floor m \<le> en_score c \<and> (i = [] \<or> passes_candidate_specificity i c) \<and>
    (\<forall>d \<in> set (cl_entries (claims_of m i (rs_asked re) rs (rs_calls re))).
      s \<noteq> [] \<and> en_class d \<noteq> [] \<and> en_class d \<noteq> s \<longrightarrow> en_provider d = en_provider c)"
proof -
  obtain rs c o' where c: "disc = Found rs" "c \<in> set (cl_entries (claims_of m i (rs_asked re) rs (rs_calls re)))"
      "o' \<in> set (rs_calls re)" "c \<in> set (pc_entries o')" "pc_status o' = CallOk" "en_provider c = pc_provider o'"
      "\<not> out_of_domain rs (rs_asked re) (pc_provider o')" "en_class c = s" "me_floor m \<le> en_score c"
      "i = [] \<or> passes_candidate_specificity i c" "\<not> competing (cl_entries (claims_of m i (rs_asked re) rs (rs_calls re)))"
    using subject_claimed [OF assms] by blast
  have "s \<noteq> [] \<and> en_class d \<noteq> [] \<and> en_class d \<noteq> s \<longrightarrow> en_provider d = en_provider c"
    if "d \<in> set (cl_entries (claims_of m i (rs_asked re) rs (rs_calls re)))" for d
    using not_competing [OF c(11) that c(2)] c(8) by auto
  thus ?thesis using c by blast
qed

theorem a_resolved_class_was_claimed_witness:
  "\<exists>re. resolve_instance demo_mesh ''HAZ-1004'' [] [] [] [] (Found [provider_at ''saf'' [], provider_at ''slow'' []]) = Some re \<and>
     rs_subject re = Some ''safety#Hazard'' \<and> (\<exists>o' \<in> set (rs_calls re). pc_status o' = CallOk)"
proof -
  let ?r = "resolve_instance demo_mesh ''HAZ-1004'' [] [] [] [] (Found [provider_at ''saf'' [], provider_at ''slow'' []])"
  have "map_option rs_subject ?r = Some (Some ''safety#Hazard'')" by code_simp
  then obtain re where re: "?r = Some re" "rs_subject re = Some ''safety#Hazard''" by auto
  from a_resolved_class_was_claimed [OF re] re show ?thesis by blast
qed





definition demo_request :: resolve_request where
  "demo_request = \<lparr>rq_query = [], rq_domain = ''SUSTAINMENT'', rq_domains = [], rq_email = []\<rparr>"

definition demo_classification :: "string \<Rightarrow> classification" where
  "demo_classification i = \<lparr>cf_uri = ''idp#Column'', cf_confidence = 8 / 10, cf_identifier = i, cf_pool = []\<rparr>"


text \<open>Never promoted, never capped upwards: what the guard does to a confidence.\<close>

lemma guard_bounds:
  "fst (recall_override_guard u q pool) \<le> q"
  "\<not> snd (recall_override_guard u q pool) \<Longrightarrow> fst (recall_override_guard u q pool) = q"
  "snd (recall_override_guard u q pool) \<Longrightarrow> fst (recall_override_guard u q pool) \<le> 1 / 2"
  by (auto simp: recall_override_guard_def Let_def split: option.splits prod.splits)

lemma best_so_far:
  "(\<forall>p \<in> set ps. snd p \<le> snd (foldl (\<lambda>b c. if snd b < snd c then c else b) b ps)) \<and>
   snd b \<le> snd (foldl (\<lambda>b c. if snd b < snd c then c else b) b ps) \<and>
   foldl (\<lambda>b c. if snd b < snd c then c else b) b ps \<in> insert b (set ps)" for b :: "string \<times> rat"
proof (induction ps arbitrary: b)
  case (Cons c ps)
  show ?case using Cons [of c] Cons [of b] by (cases "snd b < snd c") auto
qed simp

lemma recall_top_max: "recall_top pool = Some p \<Longrightarrow> p \<in> set pool \<and> (\<forall>d \<in> set pool. snd d \<le> snd p)"
  using best_so_far by (fastforce simp: recall_top_def split: list.splits)

lemma guard_fires:
  assumes "snd (recall_override_guard u q pool)"
  shows "\<exists>w s. (w, s) \<in> set pool \<and> w \<noteq> u \<and> 8 / 10 \<le> s \<and> (\<forall>d \<in> set pool. snd d \<le> s)"
  using assms recall_top_max [of pool]
  by (fastforce simp: recall_override_guard_def Let_def split: option.splits if_splits)

definition accounted :: "mesh \<Rightarrow> classification \<Rightarrow> string list \<Rightarrow> resolve_answer \<Rightarrow> bool" where
  "accounted m cf ds a = (case ra_reason a of
     ViaInstance \<Rightarrow> (\<exists>re. ra_resolution a = Some re \<and> rs_subject re = Some (ra_uri a)) \<and>
       \<not> preempted_subject_is_unanswerable m (ra_uri a) ds \<and> cf_confidence cf \<le> ra_confidence a
   | UnservedSubject s \<Rightarrow> ra_uri a = ''UNKNOWN'' \<and> ra_confidence a = 0 \<and>
       (\<exists>re. ra_resolution a = Some re \<and> rs_subject re = Some s) \<and> preempted_subject_is_unanswerable m s ds
   | InstanceNotFound \<Rightarrow> ra_uri a = ''UNKNOWN'' \<and> ra_confidence a = 0
   | ClassContest weak \<Rightarrow> ra_uri a = cf_uri cf \<and> ra_confidence a \<le> cf_confidence cf \<and>
       (\<forall>re. ra_resolution a = Some re \<longrightarrow> rs_subject re = None) \<and>
       (if weak then ra_confidence a \<le> 1 / 2 \<and> (\<exists>w s. (w, s) \<in> set (cf_pool cf) \<and> w \<noteq> cf_uri cf \<and> 8 / 10 \<le> s)
        else ra_confidence a = cf_confidence cf))"

lemma contest_accounted:
  assumes "\<And>re. x = Some re \<Longrightarrow> rs_subject re = None"
  shows "accounted m cf ds (class_contest cf x)"
proof -
  obtain q weak where g: "recall_override_guard (cf_uri cf) (cf_confidence cf) (cf_pool cf) = (q, weak)" by fastforce
  show ?thesis
    using guard_bounds [of "cf_uri cf" "cf_confidence cf" "cf_pool cf"] guard_fires [of "cf_uri cf" "cf_confidence cf" "cf_pool cf"] assms
    by (auto simp: accounted_def class_contest_def g)
qed

lemma answer_accounted: "accounted m cf ds (answer_with m cf ds re)"
proof (cases "rs_subject re")
  case None
  thus ?thesis using contest_accounted [of "Some re" m cf ds]
    by (auto simp: answer_with_def accounted_def)
next
  case (Some s)
  thus ?thesis by (auto simp: answer_with_def accounted_def)
qed

text \<open>
  Every answer is accounted for: the class of a resolution that some verb serves, the class the
  classifier chose when nothing resolved (never with more confidence than it gave, and discounted only
  where another class had a strong recall), or UNKNOWN with no confidence and its reason.
\<close>
theorem every_answer_is_accounted_for:
  assumes "answer_classified m rq cf disc = Some a"
  shows "case ra_reason a of
     ViaInstance \<Rightarrow> (\<exists>re. ra_resolution a = Some re \<and> rs_subject re = Some (ra_uri a)) \<and>
       \<not> preempted_subject_is_unanswerable m (ra_uri a) (request_domains rq) \<and> cf_confidence cf \<le> ra_confidence a
   | UnservedSubject s \<Rightarrow> ra_uri a = ''UNKNOWN'' \<and> ra_confidence a = 0 \<and>
       (\<exists>re. ra_resolution a = Some re \<and> rs_subject re = Some s) \<and> preempted_subject_is_unanswerable m s (request_domains rq)
   | InstanceNotFound \<Rightarrow> ra_uri a = ''UNKNOWN'' \<and> ra_confidence a = 0
   | ClassContest weak \<Rightarrow> ra_uri a = cf_uri cf \<and> ra_confidence a \<le> cf_confidence cf \<and>
       (\<forall>re. ra_resolution a = Some re \<longrightarrow> rs_subject re = None) \<and>
       (if weak then ra_confidence a \<le> 1 / 2 \<and> (\<exists>w s. (w, s) \<in> set (cf_pool cf) \<and> w \<noteq> cf_uri cf \<and> 8 / 10 \<le> s)
        else ra_confidence a = cf_confidence cf)"
proof -
  have "accounted m cf (request_domains rq) a"
    using assms contest_accounted [of None] answer_accounted by (auto simp: answer_classified_def split: if_splits)
  thus ?thesis by (simp only: accounted_def)
qed

theorem every_answer_is_accounted_for_witness:
  "\<exists>a. answer_classified demo_mesh demo_request (demo_classification ''HAZ-1004'') (Found [provider_at ''saf'' []]) = Some a \<and>
     ra_uri a = ''safety#Hazard'' \<and> 8 / 10 \<le> ra_confidence a"
proof -
  let ?r = "answer_classified demo_mesh demo_request (demo_classification ''HAZ-1004'') (Found [provider_at ''saf'' []])"
  have "map_option (\<lambda>a. (ra_reason a, ra_uri a)) ?r = Some (ViaInstance, ''safety#Hazard'')" by code_simp
  then obtain a where a: "?r = Some a" "ra_reason a = ViaInstance" "ra_uri a = ''safety#Hazard''" by auto
  from every_answer_is_accounted_for [OF a(1)] a show ?thesis by (auto simp: demo_classification_def)
qed

lemma terms_said: "t \<in> set (lookup_terms i) \<Longrightarrow>
  t = i \<or> t = name_of i \<and> t \<noteq> [] \<and> \<not> list_all isdigit_char t"
  by (auto simp: lookup_terms_def name_of_def Let_def split: if_splits)

definition with_ask :: "mesh \<Rightarrow> (lookup \<Rightarrow> provider_reply) \<Rightarrow> mesh" where
  "with_ask m f = m \<lparr>me_ask := f\<rparr>"

lemma with_ask_simps [simp]:
  "me_ask (with_ask m f) = f" "me_rend (with_ask m f) = me_rend m" "me_number (with_ask m f) = me_number m"
  "me_budget (with_ask m f) = me_budget m" "me_exact (with_ask m f) = me_exact m" "me_floor (with_ask m f) = me_floor m"
  "me_classes (with_ask m f) = me_classes m"
  by (simp_all add: with_ask_def)

lemma ask_free:
  "read_class_chains (with_ask m f) = read_class_chains m" "decide_claims (with_ask m f) = decide_claims m"
  "score_of (with_ask m f) = score_of m" "lookup_for (with_ask m f) = lookup_for m"
  by (intro ext, simp only: read_class_chains_def decide_claims_def score_of_def lookup_for_def with_ask_simps)+

lemma entry_ask_free: "read_entry (with_ask m f) = read_entry m"
  by (intro ext) (simp only: read_entry_def ask_free with_ask_simps)

lemma claims_ask_free: "claims_of (with_ask m f) = claims_of m"
  by (intro ext) (simp only: claims_of_def ask_free)

lemma resolve_ask_free: "resolve_claims (with_ask m f) = resolve_claims m"
  by (intro ext) (simp only: resolve_claims_def claims_ask_free ask_free)

text \<open>
  What a resolution sends out: the answer depends on the providers only through lookups that carry the
  question, the caller and the caller's grant, for a term that is the identifier as said or its name, and
  a name that is a bare number is never sent.
\<close>
theorem lookups_carry_the_caller_and_what_was_said:
  assumes "\<And>q. lk_email q = email \<Longrightarrow> lk_domains q = grant \<Longrightarrow> lk_query q = query \<Longrightarrow>
      lk_identifier q = i \<or> lk_identifier q = name_of i \<and> \<not> list_all isdigit_char (name_of i) \<Longrightarrow> me_ask m q = f q"
  shows "resolve_instance (m \<lparr>me_ask := f\<rparr>) i query asked email grant disc = resolve_instance m i query asked email grant disc"
proof -
  have call: "call_resolver (with_ask m f) query email grant (r, t) = call_resolver m query email grant (r, t)"
    if "t \<in> set (lookup_terms i)" for r t
  proof -
    have "me_ask m (lookup_for m r t query email grant) = f (lookup_for m r t query email grant)"
      by (rule assms) (use terms_said [OF that] in \<open>auto simp: lookup_for_def\<close>)
    thus ?thesis by (simp add: call_resolver_def ask_free entry_ask_free split: provider_reply.split)
  qed
  have "fan_out (with_ask m f) query email grant i rs = fan_out m query email grant i rs" for rs
    unfolding fan_out_def by (intro arg_cong [where f = those] map_cong refl) (auto simp: call)
  thus ?thesis
    unfolding with_ask_def [symmetric] by (simp add: resolve_instance_def resolve_ask_free split: discovery.split)
qed

theorem lookups_carry_the_caller_and_what_was_said_witness:
  "resolve_instance (demo_mesh \<lparr>me_ask := (\<lambda>q. if lk_email q = ''bob'' then me_ask demo_mesh q else CallFailed)\<rparr>)
     ''lot 4'' [] [] ''bob'' [] (Found [provider_at ''saf'' []]) =
   resolve_instance demo_mesh ''lot 4'' [] [] ''bob'' [] (Found [provider_at ''saf'' []])"
  by (rule lookups_carry_the_caller_and_what_was_said) simp

subsection \<open>The cache of the registry\<close>

text \<open>A run of discoveries: when, whether refreshed, and what the graph would answer.\<close>

fun discoveries :: "rat \<Rightarrow> resolver_cache \<Rightarrow> (rat \<times> bool \<times> registry_read) list \<Rightarrow> discovery option list" where
  "discoveries ttl ca [] = []"
| "discoveries ttl ca ((now, refresh, reg) # ss) =
     (let (ca', d) = discover_instance_resolvers ttl now refresh reg ca in d # discoveries ttl ca' ss)"

definition cache_from :: "(rat \<times> bool \<times> registry_read) list \<Rightarrow> resolver_cache \<Rightarrow> bool" where
  "cache_from h ca \<longleftrightarrow> (\<forall>rs t. ca = Some (rs, t) \<longrightarrow> (\<exists>b rows. (t, b, Rows rows) \<in> set h \<and> rs = resolvers_read rows))"

definition recent_read :: "rat \<Rightarrow> (rat \<times> bool \<times> registry_read) list \<Rightarrow> rat \<Rightarrow> discovery \<Rightarrow> bool" where
  "recent_read ttl h now d \<longleftrightarrow> d = RegistryDown \<or>
     (\<exists>t b rows. (t, b, Rows rows) \<in> set h \<and> d = answered (resolvers_read rows) \<and> (t = now \<or> now - t < ttl))"

lemma discover_step:
  assumes "discover_instance_resolvers ttl now refresh reg ca = (ca', d)" and "cache_from h ca"
  shows "cache_from (h @ [(now, refresh, reg)]) ca'" and "d = Some e \<Longrightarrow> recent_read ttl (h @ [(now, refresh, reg)]) now e"
proof -
  have keep: "cache_from (h @ [(now, refresh, reg)]) ca" using assms(2) by (fastforce simp: cache_from_def)
  show "cache_from (h @ [(now, refresh, reg)]) ca'"
    using assms(1) keep
    by (auto simp: discover_instance_resolvers_def split: option.splits registry_read.splits) (auto simp: cache_from_def)
  show "recent_read ttl (h @ [(now, refresh, reg)]) now e" if "d = Some e"
  proof (cases "fresh ttl now refresh ca")
    case None
    thus ?thesis using assms(1) that
      by (auto simp: discover_instance_resolvers_def recent_read_def split: registry_read.splits)
  next
    case (Some rs)
    then obtain t where "ca = Some (rs, t)" "now - t < ttl" by (auto simp: fresh_def split: option.splits if_splits)
    thus ?thesis using assms Some that by (fastforce simp: discover_instance_resolvers_def recent_read_def cache_from_def)
  qed
qed

lemma discoveries_recent:
  assumes "cache_from h ca" and "n < length ss" and "discoveries ttl ca ss ! n = Some d"
  shows "recent_read ttl (h @ take (Suc n) ss) (fst (ss ! n)) d"
  using assms
proof (induction ss arbitrary: h ca n)
  case (Cons s ss)
  obtain now refresh reg where s: "s = (now, refresh, reg)" by (cases s)
  obtain ca' e where e: "discover_instance_resolvers ttl now refresh reg ca = (ca', e)" by fastforce
  note st = discover_step [OF e Cons.prems(1)]
  show ?case
  proof (cases n)
    case 0
    thus ?thesis using st(2) Cons.prems(3) e s by simp
  next
    case (Suc k)
    thus ?thesis using Cons.IH [OF st(1), of k] Cons.prems e s by simp
  qed
qed simp

text \<open>
  C32. The registry a turn sees is never older than the time to live: every discovery of a run answers what
  the graph answered at that moment or less than the time to live before it, or says that no driver is
  configured; an empty answer is an empty registry that was read.
\<close>

theorem a_cached_registry_is_recent:
  assumes "n < length ss" and "discoveries ttl None ss ! n = Some d"
  shows "d = RegistryDown \<or>
    (\<exists>t b rows. (t, b, Rows rows) \<in> set (take (Suc n) ss) \<and> d = answered (resolvers_read rows) \<and>
       (t = fst (ss ! n) \<or> fst (ss ! n) - t < ttl))"
  using discoveries_recent [of "[]" None, OF _ assms] by (simp add: cache_from_def recent_read_def)

theorem a_cached_registry_is_recent_witness:
  "\<exists>t b rows. (t, b, Rows rows) \<in> set [(0, False, Rows []), (29, False, QueryFails)] \<and> answered (resolvers_read rows) = NoneFound \<and>
     ((t :: rat) = 29 \<or> 29 - t < 30)"
proof -
  let ?ss = "[(0, False, Rows []), (29, False, QueryFails)]"
  have "discoveries 30 None ?ss ! 1 = Some NoneFound" by code_simp
  hence "discoveries 30 None ?ss ! Suc 0 = Some NoneFound" by simp
  from a_cached_registry_is_recent [OF _ this] show ?thesis by auto
qed

subsection \<open>Where no provider answers as it should\<close>

lemma those_None: "those xs = None \<longleftrightarrow> None \<in> set xs"
  by (induction xs) (auto split: option.splits)

lemma call_raises:
  "call_resolver m query email grant (r, t) = None \<longleftrightarrow>
   (\<exists>data. me_ask m (lookup_for m r t query email grant) = Replied data \<and> listed_values data = None)"
  by (auto simp: call_resolver_def Let_def split: provider_reply.split)

lemma claims_decided: "decide_claims m i cl calls \<noteq> None"
  using decide_total by (simp add: decide_claims_def)

lemma resolve_claims_total [simp]: "resolve_claims m i asked rs calls \<noteq> None"
  using claims_decided [of m i] by (auto simp: resolve_claims_def Let_def)

text \<open>
  A resolution raises in one case only: a provider answered with a body that is no object, or whose
  candidates are no collection. A provider that is slow, fails or lists malformed candidates never stops
  the others.
\<close>

theorem only_a_malformed_body_raises:
  "resolve_instance m i query asked email grant disc = None \<longleftrightarrow>
   (\<exists>rs r t data. disc = Found rs \<and> r \<in> set rs \<and> t \<in> set (lookup_terms i) \<and>
      me_ask m (lookup_for m r t query email grant) = Replied data \<and> listed_values data = None)"
proof -
  have "fan_out m query email grant i rs = None \<longleftrightarrow>
      (\<exists>r t data. r \<in> set rs \<and> t \<in> set (lookup_terms i) \<and>
         me_ask m (lookup_for m r t query email grant) = Replied data \<and> listed_values data = None)" for rs
    by (auto simp: fan_out_def those_None image_iff call_raises eq_commute [of None])
  moreover have "Option.bind x (resolve_claims m i ds rs) = None \<longleftrightarrow> x = None" for x ds rs
    using resolve_claims_total by (cases x) auto
  ultimately show ?thesis by (auto simp: resolve_instance_def split: discovery.split)
qed

subsection \<open>The classes a verb declares\<close>

lemma take_inputs_subset:
  "set (fst (take_inputs served vis seen hs)) \<subseteq>
   {h \<in> set hs. vh_input h \<noteq> [] \<and> vh_input h \<in> set served \<and> vis (vh_input h) \<and> vh_input h \<notin> set seen}"
  by (induction served vis seen hs rule: take_inputs.induct) (auto simp: Let_def split: prod.splits)

lemma take_inputs_distinct: "distinct (map vh_input (fst (take_inputs served vis seen hs)))"
proof (induction served vis seen hs rule: take_inputs.induct)
  case (2 served vis seen h hs)
  thus ?case using take_inputs_subset [of served vis "vh_input h # seen" hs] by (auto simp: Let_def split: prod.splits)
qed simp

lemma take_inputs_all:
  "h \<in> set hs \<Longrightarrow> vh_input h \<noteq> [] \<Longrightarrow> vh_input h \<notin> set seen \<Longrightarrow> vh_input h \<in> set served \<Longrightarrow> vis (vh_input h) \<Longrightarrow>
   vh_input h \<in> vh_input ` set (fst (take_inputs served vis seen hs))"
proof (induction served vis seen hs rule: take_inputs.induct)
  case (2 served vis seen k hs)
  thus ?case by (cases "vh_input h = vh_input k") (auto simp: Let_def split: prod.splits)
qed simp

lemma sorted_head_max:
  "sort_key (\<lambda>h. - the (vh_score h)) xs = t # ts \<Longrightarrow> h \<in> set xs \<Longrightarrow> the (vh_score h) \<le> the (vh_score t)"
proof -
  assume s: "sort_key (\<lambda>h. - the (vh_score h)) xs = t # ts" and h: "h \<in> set xs"
  have "sorted (map (\<lambda>h. - the (vh_score h)) (t # ts))" using s by (metis sorted_sort_key)
  moreover have "h \<in> set (t # ts)" using s h by (metis set_sort)
  ultimately show ?thesis by auto
qed

text \<open>
  A class the question is grounded on by its verb is served and visible and is an input of one verb,
  whose best hit is a route, scores at least the floor and is the best of all the hits that are routes; no
  class is named twice, and no served and visible input of that verb is missed.
\<close>
theorem declared_inputs_are_the_top_verbs:
  assumes "input_declared_classes found_rows served vis least = (classes, dropped, why)" and "classes \<noteq> []"
  shows "why = DeclaredInput \<and> distinct (map vh_input classes) \<and>
    (\<exists>t \<in> set found_rows. \<exists>q. vh_endpoint t \<noteq> [] \<and> vh_score t = Some q \<and> least \<le> q \<and>
      (\<forall>h \<in> set found_rows. \<forall>q'. vh_endpoint h \<noteq> [] \<and> vh_score h = Some q' \<longrightarrow> q' \<le> q) \<and>
      (\<forall>u. u \<in> vh_input ` set classes \<longleftrightarrow> u \<noteq> [] \<and> u \<in> set served \<and> vis u \<and>
         (\<exists>h \<in> set found_rows. vh_endpoint h \<noteq> [] \<and> vh_score h \<noteq> None \<and> vh_verb h = vh_verb t \<and> vh_input h = u)))"
proof -
  let ?routes = "filter (\<lambda>h. vh_endpoint h \<noteq> [] \<and> vh_score h \<noteq> None) found_rows"
  obtain t ts where hs: "sort_key (\<lambda>h. - the (vh_score h)) ?routes = t # ts"
    using assms by (cases "sort_key (\<lambda>h. - the (vh_score h)) ?routes") (auto simp: input_declared_classes_def Let_def)
  obtain a b where tk': "take_inputs served vis [] (filter (\<lambda>h. vh_verb h = vh_verb t) (t # ts)) = (a, b)" by fastforce
  have e: "(if the (vh_score t) < least then ([], [], NoVerbAboveFloor)
      else (a, b, if a = [] then NotServedOrVisible else DeclaredInput)) = (classes, dropped, why)"
    using assms(1) unfolding input_declared_classes_def hs list.case Let_def tk' prod.case by simp
  hence top: "\<not> the (vh_score t) < least" using assms(2) by (cases "the (vh_score t) < least") simp_all
  hence ab: "a = classes" "b = dropped" and why: "why = DeclaredInput" using e assms(2) by auto
  note tk = tk' [unfolded ab]
  have set_hs: "set (t # ts) = set ?routes" unfolding hs [symmetric] set_sort by (rule refl)
  hence t: "t \<in> set ?routes" by auto
  let ?ys = "filter (\<lambda>h. vh_verb h = vh_verb t) (t # ts)"
  have ys: "h \<in> set ?ys \<longleftrightarrow> h \<in> set ?routes \<and> vh_verb h = vh_verb t" for h
    unfolding set_filter [of _ "t # ts"] set_hs by blast
  have cl: "classes = fst (take_inputs served vis [] ?ys)" by (simp only: tk fst_conv)
  have inp: "u \<in> vh_input ` set classes \<longleftrightarrow> u \<noteq> [] \<and> u \<in> set served \<and> vis u \<and>
      (\<exists>h \<in> set ?routes. vh_verb h = vh_verb t \<and> vh_input h = u)" for u
  proof
    assume "u \<in> vh_input ` set classes"
    then obtain h where h: "h \<in> set classes" "u = vh_input h" by blast
    have "h \<in> set ?ys" "vh_input h \<noteq> []" "vh_input h \<in> set served" "vis (vh_input h)"
      using take_inputs_subset [of served vis "[]" ?ys] h(1) unfolding cl by blast+
    thus "u \<noteq> [] \<and> u \<in> set served \<and> vis u \<and> (\<exists>h \<in> set ?routes. vh_verb h = vh_verb t \<and> vh_input h = u)"
      unfolding ys h(2) by auto
  next
    assume "u \<noteq> [] \<and> u \<in> set served \<and> vis u \<and> (\<exists>h \<in> set ?routes. vh_verb h = vh_verb t \<and> vh_input h = u)"
    then obtain h where "h \<in> set ?ys" "vh_input h = u" "u \<noteq> []" "u \<in> set served" "vis u" unfolding ys by blast
    thus "u \<in> vh_input ` set classes" using take_inputs_all [of h ?ys "[]" served vis] unfolding cl by simp
  qed
  have dist: "distinct (map vh_input classes)" unfolding cl by (rule take_inputs_distinct)
  have best: "q' \<le> the (vh_score t)" if "h \<in> set found_rows" "vh_endpoint h \<noteq> []" "vh_score h = Some q'" for h q'
    using sorted_head_max [OF hs, of h] that by simp
  show ?thesis
  proof (intro conjI bexI [of _ t] exI [of _ "the (vh_score t)"])
    show "vh_score t = Some (the (vh_score t))" "vh_endpoint t \<noteq> []" "t \<in> set found_rows" using t by auto
  qed (use why dist top best inp in auto)
qed

definition failed_verb :: verb_hit where
  "failed_verb = \<lparr>vh_verb = ''mesh:whatFailed'', vh_input = ''pcn#Component'', vh_endpoint = ''http://saf'',
     vh_score = Some (92 / 100), vh_description = []\<rparr>"

theorem declared_inputs_are_the_top_verbs_witness:
  "\<exists>classes dropped why. input_declared_classes [failed_verb \<lparr>vh_verb := ''mesh:rendersAs'', vh_endpoint := []\<rparr>, failed_verb]
      [''pcn#Component''] (\<lambda>_. True) (8 / 10) = (classes, dropped, why) \<and> ''pcn#Component'' \<in> vh_input ` set classes"
proof -
  let ?in = "input_declared_classes [failed_verb \<lparr>vh_verb := ''mesh:rendersAs'', vh_endpoint := []\<rparr>, failed_verb]
      [''pcn#Component''] (\<lambda>_. True) (8 / 10)"
  have i: "?in = ([failed_verb], [], DeclaredInput)" by code_simp
  have "why = DeclaredInput" if "?in = (classes, dropped, why)" "classes \<noteq> []" for classes dropped why
    using declared_inputs_are_the_top_verbs [OF that] by blast
  thus ?thesis using i by (auto simp: failed_verb_def)
qed

subsection \<open>Where the answer is not what the comments say\<close>

definition answering :: "(string \<Rightarrow> provider_reply) \<Rightarrow> mesh" where
  "answering f = demo_mesh \<lparr>me_ask := (\<lambda>q. f (lk_endpoint q))\<rparr>"

definition offers :: "string \<Rightarrow> string \<Rightarrow> string \<Rightarrow> pyval \<Rightarrow> provider_reply" where
  "offers i u l q = Replied (PDict [(''candidates'', PList [PDict [(''instance_id'', PStr i), (''class_uri'', PStr u),
     (''label'', PStr l), (''score'', q)]])])"

definition outcome_at :: "resolution option \<Rightarrow> (string option \<times> match_kind) option" where
  "outcome_at r = map_option (\<lambda>re. (rs_subject re, pv_match (rs_prov re))) r"

text \<open>
  The axis narrows before the floor is looked at: a subclass candidate that the identifier names but that
  scores below the floor displaces the one above it, and the floor then empties the rest.
\<close>

definition chained_mesh :: mesh where
  "chained_mesh = (answering (\<lambda>w. if w = ''saf'' then offers ''PN-8802'' ''safety#Item'' ''seal kit'' (PFloat (6 / 10))
       else offers ''PN-8802'' ''pcn#Component'' ''seal kit'' (PInt 1))) \<lparr>me_classes := (\<lambda>_. Some part_chains)\<rparr>"

lemma axis_narrows_to_what_the_floor_empties:
  "outcome_at (resolve_instance chained_mesh ''PN-8802'' [] [] [] [] (Found [provider_at ''saf'' [], provider_at ''eo'' []])) =
     Some (None, EmptyMatch) \<and>
   outcome_at (resolve_instance chained_mesh ''PN-8802'' [] [] [] [] (Found [provider_at ''eo'' []])) =
     Some (Some ''pcn#Component'', Exact)"
  by code_simp

text \<open>A candidate without a class answers the empty class over the choice of the classifier.\<close>

lemma classless_candidate_overrides_the_class:
  "map_option (\<lambda>a. (ra_uri a, ra_confidence a)) (answer_classified
     (answering (\<lambda>_. offers ''PN-8802'' [] ''seal kit'' (PInt 1))) demo_request (demo_classification ''PN-8802'')
     (Found [provider_at ''eo'' []])) = Some ([], 9 / 10)"
  by code_simp

text \<open>One provider that answers a list stops the whole resolution.\<close>

lemma list_body_stops_the_resolution:
  "outcome_at (resolve_instance (answering (\<lambda>w. if w = ''bad'' then Replied (PList [PNone])
       else offers ''PN-8802'' ''pcn#Component'' ''seal kit'' (PInt 1))) ''PN-8802'' [] [] [] []
     (Found [provider_at ''eo'' [], provider_at ''bad'' []])) = None"
  by code_simp

text \<open>What an engine of another domain knows exactly is answered as known to nobody.\<close>

lemma known_elsewhere_is_not_found:
  "map_option (\<lambda>a. (ra_uri a, ra_reason a)) (answer_classified
     (answering (\<lambda>_. offers ''PN-8802'' ''pcn#Component'' ''seal kit'' (PInt 1)))
     (demo_request \<lparr>rq_domain := ''FINANCE''\<rparr>) (demo_classification ''PN-8802'')
     (Found [provider_at ''eo'' [''SUSTAINMENT'']])) = Some (''UNKNOWN'', InstanceNotFound)"
  by code_simp

text \<open>An exact match, decided with confidence one, is answered with nine tenths or the classifier's own.\<close>

lemma exact_match_is_answered_below_one:
  "map_option ra_confidence (answer_classified (answering (\<lambda>_. offers ''PN-8802'' ''pcn#Component'' ''seal kit'' (PInt 1)))
     demo_request (demo_classification ''PN-8802'') (Found [provider_at ''eo'' []])) = Some (9 / 10)"
  by code_simp

text \<open>The twin reads a clock that can be set back; the cache then never grows old.\<close>

lemma cache_outlives_a_clock_set_back:
  "now \<le> filled \<Longrightarrow> 0 < ttl \<Longrightarrow> discover_enumerate_providers ttl now False reg (Some (rs, filled)) = (Some (rs, filled), answered rs)"
  by (simp add: discover_enumerate_providers_def fresh_def)

end
