(* ===== verification/Artifact_Store.thy ===== *)
theory Artifact_Store
  imports Mesh_Prelude "HOL-Library.Sublist" "HOL-Library.List_Lexorder" "HOL-Library.Char_ord"
begin

text \<open>
  The store of answer artifacts and the one authority that writes to it:
  \<^verbatim>\<open>src/iagent/answer_artifact_writer.py\<close>. An artifact is a node of the graph with its properties, the
  actors it was produced by and for, the sources it cites and the artifact it derives from; every write
  takes the next number of one sequence, the watermark, which the projector follows.

  A text of JSON stands for the value it spells, \<open>Garbled\<close> where it spells none. A write is one
  transaction: it happens whole or, where the graph refuses it, not at all. The edges of a node are kept in
  the order they were drawn.
\<close>

subsection \<open>The graph\<close>

datatype json_text = Spells pyval | Garbled

definition to_json :: "pyval \<Rightarrow> json_text option" where
  "to_json v = (if v = PNone then None else Some (Spells v))"

definition parse_json :: "json_text option \<Rightarrow> pyval" where
  "parse_json t = (case t of Some (Spells v) \<Rightarrow> v | _ \<Rightarrow> PNone)"

type_synonym actor_key = "pyval \<times> pyval"

record citation =
  ci_snippet :: pyval
  ci_relevance :: pyval
  ci_open_url :: pyval
  ci_access :: "json_text option"

record archive_entry =
  ae_archive :: bool
  ae_by :: string
  ae_at :: int
  ae_reason :: "string option"

record artifact_node =
  an_watermark :: "nat option"
  an_props :: pydict
  an_texts :: "(string \<times> json_text option) list"
  an_history :: "archive_entry list"
  an_producers :: "actor_key list"
  an_consumers :: "actor_key list"
  an_cites :: "(pyval \<times> citation) list"
  an_parents :: "string list"

record artifact_graph =
  ag_seq :: "nat option"
  ag_nodes :: "(string \<times> artifact_node) list"
  ag_actors :: "(actor_key \<times> pydict) list"
  ag_sources :: "(pyval \<times> pydict) list"

text \<open>A property set to null is removed; \<open>coalesce\<close> keeps the one there.\<close>

definition put_prop :: "string \<Rightarrow> pyval \<Rightarrow> pydict \<Rightarrow> pydict" where
  "put_prop k v d = (if v = PNone then AList.delete k d else AList.update k v d)"

definition put_props :: "(string \<times> pyval) list \<Rightarrow> pydict \<Rightarrow> pydict" where
  "put_props kvs d = fold (\<lambda>kv. put_prop (fst kv) (snd kv)) kvs d"

definition fill_prop :: "string \<Rightarrow> pyval \<Rightarrow> pydict \<Rightarrow> pydict" where
  "fill_prop k v d = (if v = PNone then d else AList.update k v d)"

definition bare_node :: artifact_node where
  "bare_node = \<lparr>an_watermark = None, an_props = [], an_texts = [], an_history = [], an_producers = [], an_consumers = [],
     an_cites = [], an_parents = []\<rparr>"

definition node_of :: "string \<Rightarrow> artifact_graph \<Rightarrow> artifact_node option" where
  "node_of i g = map_of (ag_nodes g) i"

text \<open>\<open>MERGE\<close> a node by its id, with what is set where it is created; \<open>MATCH ... SET\<close>.\<close>

definition merge_node :: "string \<Rightarrow> (artifact_node \<Rightarrow> artifact_node) \<Rightarrow> artifact_graph \<Rightarrow> artifact_graph" where
  "merge_node i created g = (case node_of i g of
     Some _ \<Rightarrow> g | None \<Rightarrow> g\<lparr>ag_nodes := ag_nodes g @ [(i, created bare_node)]\<rparr>)"

definition set_node :: "string \<Rightarrow> (artifact_node \<Rightarrow> artifact_node) \<Rightarrow> artifact_graph \<Rightarrow> artifact_graph" where
  "set_node i f g = g\<lparr>ag_nodes := AList.map_entry i f (ag_nodes g)\<rparr>"

definition draw :: "'a \<Rightarrow> 'a list \<Rightarrow> 'a list" where
  "draw x xs = (if x \<in> set xs then xs else xs @ [x])"

definition bump :: "artifact_graph \<Rightarrow> nat \<times> artifact_graph" where
  "bump g = (let n = Suc (case ag_seq g of None \<Rightarrow> 0 | Some n \<Rightarrow> n) in (n, g\<lparr>ag_seq := Some n\<rparr>))"

subsection \<open>What a write carries\<close>

record artifact_bundle =
  ab_id :: string
  ab_question :: string
  ab_message :: string
  ab_valid_as_of :: int
  ab_status :: string
  ab_by :: pydict
  ab_for :: pydict
  ab_intent :: pydict
  ab_routing :: "pydict option"
  ab_sources :: "pydict list"
  ab_trace :: "pyval list"
  ab_rendered :: "pydict option"
  ab_from :: "string option"
  ab_valid_until :: "int option"
  ab_kind :: string
  ab_case :: "string option"
  ab_seeded_by :: "string option"
  ab_summary :: string
  ab_duration :: "int option"

definition null_or_dict :: "pydict option \<Rightarrow> pyval" where
  "null_or_dict v = (case v of None \<Rightarrow> PNone | Some d \<Rightarrow> PDict d)"

definition null_or_int :: "int option \<Rightarrow> pyval" where
  "null_or_int v = (case v of None \<Rightarrow> PNone | Some i \<Rightarrow> PInt i)"

definition null_or_str :: "string option \<Rightarrow> pyval" where
  "null_or_str v = (case v of None \<Rightarrow> PNone | Some s \<Rightarrow> PStr s)"

definition artifact_properties :: "artifact_bundle \<Rightarrow> string \<Rightarrow> int \<Rightarrow> (string \<times> pyval) list" where
  "artifact_properties b durability now =
     [(''status'', PStr (ab_status b)), (''updated_at'', PInt now), (''valid_as_of'', PInt (ab_valid_as_of b)),
      (''valid_until'', null_or_int (ab_valid_until b)), (''question_text'', PStr (ab_question b)),
      (''summary'', PStr (ab_summary b)), (''message_id'', PStr (ab_message b)),
      (''duration_ms'', PInt (case ab_duration b of Some n \<Rightarrow> n | None \<Rightarrow> max 0 (now - ab_valid_as_of b))),
      (''kind'', PStr (ab_kind b)), (''durability_status'', PStr durability)]"

definition artifact_texts :: "artifact_bundle \<Rightarrow> (string \<times> json_text option) list" where
  "artifact_texts b =
     [(''resolved_intent'', to_json (PDict (ab_intent b))), (''routing_inline'', to_json (null_or_dict (ab_routing b))),
      (''rendered_output'', to_json (null_or_dict (ab_rendered b))), (''graph_trace_json'', to_json (PList (ab_trace b)))]"

subsection \<open>The transaction\<close>

definition write_own :: "artifact_bundle \<Rightarrow> string \<Rightarrow> int \<Rightarrow> nat \<Rightarrow> artifact_node \<Rightarrow> artifact_node" where
  "write_own b durability now n a = a\<lparr>an_watermark := Some n,
     an_props := put_props (artifact_properties b durability now) (an_props a), an_texts := artifact_texts b\<rparr>"

definition write_case :: "artifact_bundle \<Rightarrow> artifact_graph \<Rightarrow> artifact_graph" where
  "write_case b g =
     (let g1 = (case ab_case b of Some c \<Rightarrow> if c = [] then g
                  else set_node (ab_id b) (\<lambda>a. a\<lparr>an_props := put_prop ''case_id'' (PStr c) (an_props a)\<rparr>) g | None \<Rightarrow> g)
      in (case ab_seeded_by b of Some s \<Rightarrow> if s = [] then g1
                  else set_node (ab_id b) (\<lambda>a. a\<lparr>an_props := put_prop ''seeded_by'' (PStr s) (an_props a)\<rparr>) g1 | None \<Rightarrow> g1))"

definition merge_actor :: "actor_key \<Rightarrow> (pydict \<Rightarrow> pydict) \<Rightarrow> artifact_graph \<Rightarrow> artifact_graph option" where
  "merge_actor k f g = (if fst k = PNone \<or> snd k = PNone then None
     else Some (g\<lparr>ag_actors := AList.update k (f (case map_of (ag_actors g) k of Some p \<Rightarrow> p | None \<Rightarrow> [])) (ag_actors g)\<rparr>))"

definition write_producer :: "artifact_bundle \<Rightarrow> artifact_graph \<Rightarrow> artifact_graph option" where
  "write_producer b g = (let p = ab_by b in if p = [] then Some g
     else let k = (dget_or p ''actor_type'' (PStr ''agent''), dget_or p ''actor_id'' (PStr ''pending'')) in
       map_option (set_node (ab_id b) (\<lambda>a. a\<lparr>an_producers := draw k (an_producers a)\<rparr>))
         (merge_actor k (fill_prop ''version'' (dget p ''version'') \<circ> fill_prop ''endpoint'' (dget p ''endpoint'') \<circ>
            fill_prop ''code_hash'' (dget p ''code_hash'')) g))"

definition consumer_props :: "pydict \<Rightarrow> (string \<times> pyval) list" where
  "consumer_props c =
     [(''user_id'', dget_or c ''user_id'' (PStr ''unknown'')), (''is_authenticated'', PBool (truthy (dget c ''is_authenticated''))),
      (''user_persona'', dget c ''user_persona''), (''entitled_domains'', dget c ''entitled_domains''),
      (''entitlement_source'', dget_or c ''entitlement_source'' (PStr ''fallback''))]"

definition write_consumer :: "artifact_bundle \<Rightarrow> artifact_graph \<Rightarrow> artifact_graph option" where
  "write_consumer b g = (let c = ab_for b in if c = [] then Some g
     else let k = (PStr ''user'', dget_or c ''user_id'' (PStr ''unknown'')) in
       map_option (set_node (ab_id b) (\<lambda>a. a\<lparr>an_consumers := draw k (an_consumers a)\<rparr>))
         (merge_actor k (put_props (consumer_props c)) g))"

definition write_source :: "string \<Rightarrow> pydict \<Rightarrow> artifact_graph \<Rightarrow> artifact_graph" where
  "write_source i s g = (let uri = dget s ''uri'' in if \<not> truthy uri then g
     else set_node i (\<lambda>a. a\<lparr>an_cites := AList.update uri \<lparr>ci_snippet = dget s ''snippet'', ci_relevance = dget s ''relevance'',
          ci_open_url = dget s ''open_url'', ci_access = to_json (dget s ''access_decision'')\<rparr> (an_cites a)\<rparr>)
       (g\<lparr>ag_sources := AList.update uri
          (fill_prop ''type'' (dget s ''type'') (fill_prop ''label'' (dget s ''label'')
             (case map_of (ag_sources g) uri of Some p \<Rightarrow> p | None \<Rightarrow> []))) (ag_sources g)\<rparr>))"

definition write_parent :: "artifact_bundle \<Rightarrow> artifact_graph \<Rightarrow> artifact_graph" where
  "write_parent b g = (case ab_from b of
     None \<Rightarrow> g
   | Some p \<Rightarrow> if p = [] then g
       else set_node (ab_id b) (\<lambda>a. a\<lparr>an_parents := draw p (an_parents a)\<rparr>) (merge_node p (\<lambda>a. a) g))"

definition tx_merge :: "artifact_bundle \<Rightarrow> string \<Rightarrow> int \<Rightarrow> artifact_graph \<Rightarrow> (nat \<times> artifact_graph) option" where
  "tx_merge b durability now g =
     (let (n, g1) = bump g;
          g2 = set_node (ab_id b) (write_own b durability now n)
            (merge_node (ab_id b) (\<lambda>a. a\<lparr>an_props := put_prop ''created_at'' (PInt now) (an_props a)\<rparr>) g1)
      in case write_producer b (write_case b g2) of
           None \<Rightarrow> None
         | Some g3 \<Rightarrow> (case write_consumer b g3 of
             None \<Rightarrow> None
           | Some g4 \<Rightarrow> Some (n, write_parent b (fold (write_source (ab_id b)) (ab_sources b) g4))))"

subsection \<open>The writer\<close>

definition PERSISTENCE_PENDING :: string where "PERSISTENCE_PENDING = ''persistence_pending''"
definition DURABLE :: string where "DURABLE = ''durable''"
definition PERSISTENCE_FAILED :: string where "PERSISTENCE_FAILED = ''persistence_failed''"

record durability =
  du_status :: string
  du_attempts :: nat
  du_error :: "string option"

record store =
  st_graph :: artifact_graph
  st_registry :: "(string \<times> durability) list"

definition note_durability :: "string \<Rightarrow> string \<Rightarrow> nat \<Rightarrow> string option \<Rightarrow> store \<Rightarrow> store" where
  "note_durability i status n err s =
     s\<lparr>st_registry := AList.update i \<lparr>du_status = status, du_attempts = n, du_error = err\<rparr> (st_registry s)\<rparr>"

text \<open>
  What one attempt meets: the write lands at an instant; the call raises before it, or after it landed;
  or the task is stopped, while the thread that carries the write may still land it.
\<close>

datatype try_outcome = Lands int | Raises string | LandsThenRaises int string | IsStopped "int option" string

definition lands :: "artifact_bundle \<Rightarrow> int \<Rightarrow> artifact_graph \<Rightarrow> nat option \<times> artifact_graph" where
  "lands b now g = (case tx_merge b DURABLE now g of Some (n, g') \<Rightarrow> (Some n, g') | None \<Rightarrow> (None, g))"

datatype try_end = Landed nat | Lost string | Halted string

definition one_try :: "try_outcome \<Rightarrow> artifact_bundle \<Rightarrow> artifact_graph \<Rightarrow> try_end \<times> artifact_graph" where
  "one_try o1 b g = (case o1 of
     Lands now \<Rightarrow> (case lands b now g of (Some n, g') \<Rightarrow> (Landed n, g') | (None, g') \<Rightarrow> (Lost ''ClientError'', g'))
   | Raises e \<Rightarrow> (Lost e, g)
   | LandsThenRaises now e \<Rightarrow> (Lost e, snd (lands b now g))
   | IsStopped now e \<Rightarrow> (Halted e, case now of None \<Rightarrow> g | Some t \<Rightarrow> snd (lands b t g)))"

datatype write_end = Written nat nat | GaveUp nat "string option" | WasStopped string

fun write_tries :: "nat \<Rightarrow> nat \<Rightarrow> string option \<Rightarrow> (nat \<Rightarrow> try_outcome) \<Rightarrow> artifact_bundle \<Rightarrow> store \<Rightarrow> write_end \<times> store" where
  "write_tries 0 k err oc b s = (GaveUp k err, note_durability (ab_id b) PERSISTENCE_FAILED k err s)"
| "write_tries (Suc left) k err oc b s = (case one_try (oc k) b (st_graph s) of
     (Landed n, g) \<Rightarrow> (Written n (Suc k), note_durability (ab_id b) DURABLE (Suc k) None (s\<lparr>st_graph := g\<rparr>))
   | (Lost e, g) \<Rightarrow> write_tries left (Suc k) (Some e) oc b
       (note_durability (ab_id b) PERSISTENCE_PENDING (Suc k) (Some e) (s\<lparr>st_graph := g\<rparr>))
   | (Halted e, g) \<Rightarrow> (WasStopped e, s\<lparr>st_graph := g\<rparr>))"

definition write_sync :: "nat \<Rightarrow> (nat \<Rightarrow> try_outcome) \<Rightarrow> artifact_bundle \<Rightarrow> store \<Rightarrow> write_end \<times> store" where
  "write_sync max_retries oc b s =
     write_tries max_retries 0 None oc b (note_durability (ab_id b) PERSISTENCE_PENDING 0 None s)"

text \<open>The same in the background: nothing is raised to who asked, a stop is recorded as a failure.\<close>

definition dispatch_async :: "nat \<Rightarrow> (nat \<Rightarrow> try_outcome) \<Rightarrow> artifact_bundle \<Rightarrow> store \<Rightarrow> bool \<times> store" where
  "dispatch_async max_retries oc b s = (case write_sync max_retries oc b s of
     (WasStopped e, s') \<Rightarrow> (True, note_durability (ab_id b) PERSISTENCE_FAILED 0 (Some e) s')
   | (_, s') \<Rightarrow> (False, s'))"

definition get_durability_record :: "string \<Rightarrow> store \<Rightarrow> durability option" where
  "get_durability_record i s = map_of (st_registry s) i"

subsection \<open>The archive\<close>

definition is_archived :: "artifact_node \<Rightarrow> bool" where
  "is_archived a \<longleftrightarrow> dget (an_props a) ''archived_at'' \<noteq> PNone"

definition archived_node :: "bool \<Rightarrow> string \<Rightarrow> string option \<Rightarrow> int \<Rightarrow> nat \<Rightarrow> artifact_node \<Rightarrow> artifact_node" where
  "archived_node archive by_id why now n a = a\<lparr>an_watermark := Some n,
     an_props := put_props [(''archived_at'', if archive then PInt now else PNone),
         (''archived_by'', if archive then PStr by_id else PNone), (''archive_reason'', if archive then null_or_str why else PNone),
         (''updated_at'', PInt now)] (an_props a),
     an_history := an_history a @ [\<lparr>ae_archive = archive, ae_by = by_id, ae_at = now, ae_reason = why\<rparr>]\<rparr>"

text \<open>
  A call of \<open>set_archive_state\<close> is two statements of one transaction: the first reads whether the artifact is
  archived and locks nothing, the second sets the state and adds to the history. Other transactions may
  commit between the two. The instant and the entry are made before either.
\<close>

record archive_call =
  ac_id :: string
  ac_archive :: bool
  ac_by :: string
  ac_reason :: "string option"
  ac_now :: int

definition archive_due :: "archive_call \<Rightarrow> artifact_graph \<Rightarrow> bool" where
  "archive_due c g = (case node_of (ac_id c) g of None \<Rightarrow> False | Some a \<Rightarrow> is_archived a \<noteq> ac_archive c)"

definition archive_set :: "archive_call \<Rightarrow> artifact_graph \<Rightarrow> artifact_graph" where
  "archive_set c g = (let (n, g1) = bump g in
     set_node (ac_id c) (archived_node (ac_archive c) (ac_by c) (ac_reason c) (ac_now c) n) g1)"

text \<open>The call that nothing comes between.\<close>

definition set_archive_state :: "archive_call \<Rightarrow> artifact_graph \<Rightarrow> bool \<times> artifact_graph" where
  "set_archive_state c g = (if archive_due c g then (True, archive_set c g) else (False, g))"

subsection \<open>What else the gateway sets on the artifacts of a case\<close>

definition of_case :: "string \<Rightarrow> artifact_node \<Rightarrow> bool" where
  "of_case c a \<longleftrightarrow> dget (an_props a) ''case_id'' = PStr c"

definition set_case_nodes :: "string \<Rightarrow> (pydict \<Rightarrow> pydict) \<Rightarrow> artifact_graph \<Rightarrow> artifact_graph" where
  "set_case_nodes c f g = g\<lparr>ag_nodes :=
     map (\<lambda>(i, a). (i, if of_case c a then a\<lparr>an_props := f (an_props a)\<rparr> else a)) (ag_nodes g)\<rparr>"

definition case_nodes :: "string \<Rightarrow> artifact_graph \<Rightarrow> string list" where
  "case_nodes c g = map fst (filter (\<lambda>p. of_case c (snd p)) (ag_nodes g))"

definition stamp_seeder :: "string \<Rightarrow> string \<Rightarrow> artifact_graph \<Rightarrow> nat \<times> artifact_graph" where
  "stamp_seeder c who g = (length (case_nodes c g), set_case_nodes c (put_prop ''seeded_by'' (PStr who)) g)"

definition stamp_release :: "string \<Rightarrow> int \<Rightarrow> artifact_graph \<Rightarrow> string list \<times> artifact_graph" where
  "stamp_release c now g = (sort (case_nodes c g),
     set_case_nodes c (\<lambda>p. if dget p ''released_at'' = PNone then put_prop ''released_at'' (PInt now) p else p) g)"

subsection \<open>Nodes under the operations\<close>

lemma dget_put_prop [simp]: "dget (put_prop k v d) j = (if j = k then v else dget d j)"
  by (cases "v = PNone") (simp_all add: put_prop_def, simp add: dget_def delete_conv')

lemma dget_put_props: "dget (put_props kvs d) j = (case map_of (rev kvs) j of Some v \<Rightarrow> v | None \<Rightarrow> dget d j)"
  by (induction kvs arbitrary: d) (auto simp: put_props_def map_add_def split: option.splits)

lemma node_of_seq [simp]: "node_of i (g\<lparr>ag_seq := n\<rparr>) = node_of i g" "node_of i (g\<lparr>ag_actors := as\<rparr>) = node_of i g"
  "node_of i (g\<lparr>ag_sources := ss\<rparr>) = node_of i g"
  by (simp_all add: node_of_def)

lemma map_of_map_entry': "map_of (AList.map_entry k f al) j = (if j = k then map_option f (map_of al k) else map_of al j)"
  by (induction al) auto

lemma node_of_set_node [simp]: "node_of j (set_node i f g) = (if j = i then map_option f (node_of i g) else node_of j g)"
  by (simp add: node_of_def set_node_def map_of_map_entry')

lemma node_of_merge_node: "node_of j (merge_node i c g) =
    (if j = i \<and> node_of i g = None then Some (c bare_node) else node_of j g)"
  by (auto simp: node_of_def merge_node_def map_add_def split: option.splits)

lemma node_of_set_case_nodes: "node_of j (set_case_nodes c f g) =
    map_option (\<lambda>a. if of_case c a then a\<lparr>an_props := f (an_props a)\<rparr> else a) (node_of j g)"
proof -
  have "map_of (map (\<lambda>(i, a). (i, h a)) xs) j = map_option h (map_of xs j)" for h and xs :: "(string \<times> artifact_node) list"
    by (induction xs) auto
  then show ?thesis by (simp add: node_of_def set_case_nodes_def)
qed

lemma seq_of_ops [simp]: "ag_seq (set_node i f g) = ag_seq g" "ag_seq (merge_node i c g) = ag_seq g"
  "ag_seq (set_case_nodes k h g) = ag_seq g" "ag_seq (write_case b g) = ag_seq g" "ag_seq (write_source i s g) = ag_seq g"
  "ag_seq (write_parent b g) = ag_seq g"
  by (auto simp: set_node_def merge_node_def set_case_nodes_def write_case_def write_source_def write_parent_def Let_def
      split: option.splits)

text \<open>The identities of the nodes, in the order they were created.\<close>

definition node_ids :: "artifact_graph \<Rightarrow> string list" where
  "node_ids g = map fst (ag_nodes g)"

lemma node_ids_set_node [simp]: "node_ids (set_node i f g) = node_ids g"
proof -
  have "map fst (AList.map_entry i f xs) = map fst xs" for xs :: "(string \<times> artifact_node) list"
    by (induction xs) auto
  then show ?thesis by (simp add: node_ids_def set_node_def)
qed

lemma node_ids_ops [simp]: "node_ids (g\<lparr>ag_seq := n\<rparr>) = node_ids g" "node_ids (g\<lparr>ag_actors := as\<rparr>) = node_ids g"
  "node_ids (g\<lparr>ag_sources := ss\<rparr>) = node_ids g"
  "node_ids (merge_node i c g) = node_ids g @ (if node_of i g = None then [i] else [])"
  "node_ids (set_case_nodes k h g) = node_ids g"
  by (auto simp: node_ids_def merge_node_def set_case_nodes_def split: option.splits)

lemma node_ids_writes [simp]: "node_ids (write_case b g) = node_ids g" "node_ids (write_source i s g) = node_ids g"
  by (auto simp: write_case_def write_source_def Let_def split: option.splits)

lemma node_of_None: "node_of i g = None \<longleftrightarrow> i \<notin> set (node_ids g)"
  by (simp add: node_of_def node_ids_def map_of_eq_None_iff)

text \<open>A node without its edges.\<close>

definition core_node :: "artifact_node \<Rightarrow> artifact_node" where
  "core_node a = a\<lparr>an_producers := [], an_consumers := [], an_cites := [], an_parents := []\<rparr>"

definition core_of :: "string \<Rightarrow> artifact_graph \<Rightarrow> artifact_node option" where
  "core_of i g = map_option core_node (node_of i g)"

lemma core_node_edges [simp]: "core_node (a\<lparr>an_producers := ps\<rparr>) = core_node a" "core_node (a\<lparr>an_consumers := ps\<rparr>) = core_node a"
  "core_node (a\<lparr>an_cites := cs\<rparr>) = core_node a" "core_node (a\<lparr>an_parents := qs\<rparr>) = core_node a"
  by (simp_all add: core_node_def)

lemma core_node_fields [simp]: "an_watermark (core_node a) = an_watermark a" "an_props (core_node a) = an_props a"
  "an_texts (core_node a) = an_texts a" "an_history (core_node a) = an_history a"
  by (simp_all add: core_node_def)

lemma core_of_edges:
  assumes "\<And>a. core_node (f a) = core_node a"
  shows "core_of j (set_node i f g) = core_of j g"
  using assms by (simp add: core_of_def option.map_comp o_def)

text \<open>A step of a write on artifact \<open>i\<close> that draws edges of \<open>i\<close> and nothing else of any node.\<close>

definition edges_only :: "string \<Rightarrow> artifact_graph \<Rightarrow> artifact_graph \<Rightarrow> bool" where
  "edges_only i g g' \<longleftrightarrow> node_ids g' = node_ids g \<and> ag_seq g' = ag_seq g \<and> (\<forall>j. core_of j g' = core_of j g) \<and>
     (\<forall>j. j \<noteq> i \<longrightarrow> node_of j g' = node_of j g)"

lemma edges_only_trans: "edges_only i g g' \<Longrightarrow> edges_only i g' g'' \<Longrightarrow> edges_only i g g''"
  by (simp add: edges_only_def)

lemma core_of_seq [simp]: "core_of i (g\<lparr>ag_seq := n\<rparr>) = core_of i g" "core_of i (g\<lparr>ag_actors := as\<rparr>) = core_of i g"
  "core_of i (g\<lparr>ag_sources := ss\<rparr>) = core_of i g"
  by (simp_all add: core_of_def)

lemma write_producer_edges: "write_producer b g = Some g' \<Longrightarrow> edges_only (ab_id b) g g'"
  by (auto simp: write_producer_def merge_actor_def Let_def edges_only_def core_of_edges split: if_splits)

lemma write_consumer_edges: "write_consumer b g = Some g' \<Longrightarrow> edges_only (ab_id b) g g'"
  by (auto simp: write_consumer_def merge_actor_def Let_def edges_only_def core_of_edges split: if_splits)

lemma write_source_edges: "edges_only i g (write_source i s g)"
  unfolding edges_only_def
proof (intro conjI allI impI)
  show "core_of j (write_source i s g) = core_of j g" for j
    by (simp add: write_source_def Let_def core_of_edges)
  show "node_of j (write_source i s g) = node_of j g" if "j \<noteq> i" for j
    using that by (simp add: write_source_def Let_def)
qed simp_all

lemma write_sources_edges: "edges_only i g (fold (write_source i) ss g)"
proof (induction ss arbitrary: g)
  case Nil
  then show ?case by (simp add: edges_only_def)
next
  case (Cons s ss)
  from edges_only_trans [OF write_source_edges Cons.IH] show ?case by simp
qed

text \<open>The node of an artifact as its write leaves it, its edges aside.\<close>

definition case_props :: "artifact_bundle \<Rightarrow> pydict \<Rightarrow> pydict" where
  "case_props b p = (let q = (case ab_case b of Some c \<Rightarrow> if c = [] then p else put_prop ''case_id'' (PStr c) p | None \<Rightarrow> p)
     in (case ab_seeded_by b of Some s \<Rightarrow> if s = [] then q else put_prop ''seeded_by'' (PStr s) q | None \<Rightarrow> q))"

lemma node_of_write_case: "node_of j (write_case b g) =
    (if j = ab_id b then map_option (\<lambda>a. a\<lparr>an_props := case_props b (an_props a)\<rparr>) (node_of j g) else node_of j g)"
  by (auto simp: write_case_def case_props_def Let_def option.map_comp o_def option.map_ident split: option.splits)

definition created_node :: "int \<Rightarrow> artifact_node" where
  "created_node now = bare_node\<lparr>an_props := put_prop ''created_at'' (PInt now) []\<rparr>"

definition written_node :: "artifact_bundle \<Rightarrow> string \<Rightarrow> int \<Rightarrow> nat \<Rightarrow> artifact_node \<Rightarrow> artifact_node" where
  "written_node b d now n a = (write_own b d now n a)\<lparr>an_props := case_props b (an_props (write_own b d now n a))\<rparr>"

definition seq_no :: "artifact_graph \<Rightarrow> nat" where
  "seq_no g = (case ag_seq g of None \<Rightarrow> 0 | Some n \<Rightarrow> n)"

lemma bump_seq: "bump g = (n, g1) \<Longrightarrow> n = Suc (seq_no g) \<and> g1 = g\<lparr>ag_seq := Some n\<rparr>"
  by (auto simp: bump_def Let_def seq_no_def)

lemma write_parent_other:
  "node_of j (write_parent b g) = node_of j g \<or> j = ab_id b \<or> (node_of j g = None \<and> node_of j (write_parent b g) = Some bare_node)"
  by (auto simp: write_parent_def node_of_merge_node split: option.splits)

lemma write_parent_core: "node_of (ab_id b) g \<noteq> None \<Longrightarrow> core_of (ab_id b) (write_parent b g) = core_of (ab_id b) g"
  by (auto simp: write_parent_def core_of_def node_of_merge_node option.map_comp o_def split: option.splits)

lemma write_parent_ids:
  "node_ids (write_parent b g) = node_ids g \<or> (\<exists>p. node_of p g = None \<and> node_ids (write_parent b g) = node_ids g @ [p])"
  by (auto simp: write_parent_def split: option.splits)

lemma tx_merge_cases:
  assumes "tx_merge b d now g = Some (n, g')"
  obtains g4 where "n = Suc (seq_no g)" and "ag_seq g4 = Some n"
    and "core_of (ab_id b) g4 = Some (core_node (written_node b d now n (case node_of (ab_id b) g of Some a \<Rightarrow> a | None \<Rightarrow> created_node now)))"
    and "\<And>j. j \<noteq> ab_id b \<Longrightarrow> node_of j g4 = node_of j g"
    and "node_ids g4 = node_ids g @ (if node_of (ab_id b) g = None then [ab_id b] else [])"
    and "g' = write_parent b g4"
proof -
  obtain n1 g1 where b1: "bump g = (n1, g1)" by fastforce
  let ?g2 = "set_node (ab_id b) (write_own b d now n1)
            (merge_node (ab_id b) (\<lambda>a. a\<lparr>an_props := put_prop ''created_at'' (PInt now) (an_props a)\<rparr>) g1)"
  from assms b1 obtain g3 g4' where p: "write_producer b (write_case b ?g2) = Some g3" and c: "write_consumer b g3 = Some g4'"
    and n: "n = n1" and g': "g' = write_parent b (fold (write_source (ab_id b)) (ab_sources b) g4')"
    by (auto simp: tx_merge_def split: option.splits)
  let ?g4 = "fold (write_source (ab_id b)) (ab_sources b) g4'"
  have e: "edges_only (ab_id b) (write_case b ?g2) ?g4"
    using write_producer_edges [OF p] write_consumer_edges [OF c] write_sources_edges edges_only_trans by blast
  from bump_seq [OF b1] n have n': "n = Suc (seq_no g)" and g1: "g1 = g\<lparr>ag_seq := Some n\<rparr>" by auto
  have own: "node_of (ab_id b) (write_case b ?g2) =
      Some (written_node b d now n (case node_of (ab_id b) g of Some a \<Rightarrow> a | None \<Rightarrow> created_node now))"
    by (auto simp: node_of_write_case node_of_merge_node g1 n written_node_def created_node_def option.map_comp o_def
        bare_node_def split: option.splits)
  show thesis
  proof (rule that [of ?g4])
    show "ag_seq ?g4 = Some n" using e by (simp add: edges_only_def g1)
    show "core_of (ab_id b) ?g4 = Some (core_node (written_node b d now n (case node_of (ab_id b) g of Some a \<Rightarrow> a | None \<Rightarrow> created_node now)))"
      using e own by (simp add: edges_only_def core_of_def)
    show "node_of j ?g4 = node_of j g" if "j \<noteq> ab_id b" for j
      using e that by (simp add: edges_only_def node_of_write_case node_of_merge_node g1)
    show "node_ids ?g4 = node_ids g @ (if node_of (ab_id b) g = None then [ab_id b] else [])"
      using e by (simp add: edges_only_def g1)
  qed (use n' g' in auto)
qed

subsection \<open>The steps of the store\<close>

definition empty_graph :: artifact_graph where
  "empty_graph = \<lparr>ag_seq = None, ag_nodes = [], ag_actors = [], ag_sources = []\<rparr>"

inductive store_step :: "artifact_graph \<Rightarrow> artifact_graph \<Rightarrow> bool" where
  step_write: "tx_merge b DURABLE now g = Some (n, g') \<Longrightarrow> store_step g g'"
| step_archive: "node_of (ac_id c) g \<noteq> None \<Longrightarrow> store_step g (archive_set c g)"
| step_seeder: "stamp_seeder c who g = (k, g') \<Longrightarrow> store_step g g'"
| step_release: "stamp_release c now g = (is, g') \<Longrightarrow> store_step g g'"

inductive store_reachable :: "artifact_graph \<Rightarrow> bool" where
  reach_empty: "store_reachable empty_graph"
| reach_step: "store_reachable g \<Longrightarrow> store_step g g' \<Longrightarrow> store_reachable g'"

definition projected_keys :: "string list" where
  "projected_keys = [''kind'', ''created_at'', ''updated_at'', ''valid_as_of'', ''status'', ''durability_status'', ''message_id'',
     ''question_text'', ''summary'', ''duration_ms'', ''archived_at'', ''archived_by'', ''archive_reason'']"

definition same_view :: "artifact_node \<Rightarrow> artifact_node \<Rightarrow> bool" where
  "same_view a a' \<longleftrightarrow> a' = a\<lparr>an_props := an_props a'\<rparr> \<and>
     (\<forall>k \<in> set projected_keys. dget (an_props a') k = dget (an_props a) k)"

definition kept :: "artifact_graph \<Rightarrow> artifact_graph \<Rightarrow> string \<Rightarrow> bool" where
  "kept g g' i \<longleftrightarrow> (case node_of i g' of
     None \<Rightarrow> node_of i g = None
   | Some a' \<Rightarrow> (case node_of i g of None \<Rightarrow> a' = bare_node | Some a \<Rightarrow> same_view a a'))"

lemma same_view_refl [simp]: "same_view a a" by (simp add: same_view_def)

lemma kept_same: "node_of i g' = node_of i g \<Longrightarrow> kept g g' i"
  by (simp add: kept_def split: option.splits)

lemma same_view_props: "(\<And>k. k \<in> set projected_keys \<Longrightarrow> dget (f (an_props a)) k = dget (an_props a) k) \<Longrightarrow>
    same_view a (a\<lparr>an_props := f (an_props a)\<rparr>)"
  by (simp add: same_view_def)

lemma kept_set_case_nodes:
  assumes "\<And>p k. k \<in> set projected_keys \<Longrightarrow> dget (f p) k = dget p k"
  shows "kept g (set_case_nodes c f g) i"
  using assms by (auto simp: kept_def node_of_set_case_nodes intro: same_view_props split: option.splits)

lemma aside_keys: "k \<in> set projected_keys \<Longrightarrow> k \<noteq> ''seeded_by'' \<and> k \<noteq> ''released_at''"
  unfolding projected_keys_def by auto

lemma kept_stamp_seeder: "kept g (snd (stamp_seeder c who g)) i"
  unfolding stamp_seeder_def snd_conv by (rule kept_set_case_nodes) (simp add: aside_keys)

lemma kept_stamp_release: "kept g (snd (stamp_release c now g)) i"
  unfolding stamp_release_def snd_conv by (rule kept_set_case_nodes) (simp add: aside_keys)

text \<open>A step takes at most one number of the sequence, for the one node it writes; the others it leaves as they were.\<close>

lemma store_step_cases:
  assumes "store_step g g'"
  obtains (quiet) "ag_seq g' = ag_seq g" and "node_ids g' = node_ids g" and "\<And>i. kept g g' i"
  | (wrote) i0 a where "ag_seq g' = Some (Suc (seq_no g))" and "node_of i0 g' = Some a" and "an_watermark a = Some (Suc (seq_no g))"
      and "\<And>i. i \<noteq> i0 \<Longrightarrow> kept g g' i" and "distinct (node_ids g) \<Longrightarrow> distinct (node_ids g')"
  using assms
proof (cases rule: store_step.cases)
  case (step_write b now n)
  obtain g4 where n: "n = Suc (seq_no g)" and s: "ag_seq g4 = Some n"
    and core: "core_of (ab_id b) g4 = Some (core_node (written_node b DURABLE now n
        (case node_of (ab_id b) g of Some a \<Rightarrow> a | None \<Rightarrow> created_node now)))"
    and other: "\<And>j. j \<noteq> ab_id b \<Longrightarrow> node_of j g4 = node_of j g"
    and ids: "node_ids g4 = node_ids g @ (if node_of (ab_id b) g = None then [ab_id b] else [])"
    and g': "g' = write_parent b g4"
    by (rule tx_merge_cases [OF step_write]) (rule that; assumption)
  from core have "node_of (ab_id b) g4 \<noteq> None" by (auto simp: core_of_def)
  from write_parent_core [OF this] core g' obtain a where a: "node_of (ab_id b) g' = Some a"
    "core_node a = core_node (written_node b DURABLE now n (case node_of (ab_id b) g of Some a \<Rightarrow> a | None \<Rightarrow> created_node now))"
    by (auto simp: core_of_def)
  then have "an_watermark (core_node a) = Some n" by (simp add: written_node_def write_own_def)
  then have w: "an_watermark a = Some (Suc (seq_no g))" using n by simp
  show thesis
  proof (rule wrote [OF _ a(1) w])
    show "ag_seq g' = Some (Suc (seq_no g))" using s n g' by simp
    show "kept g g' i" if "i \<noteq> ab_id b" for i
    proof -
      from write_parent_other [of i b g4] other [OF that] that g'
      have "node_of i g' = node_of i g \<or> (node_of i g = None \<and> node_of i g' = Some bare_node)" by auto
      then show ?thesis by (auto simp: kept_def split: option.splits)
    qed
    show "distinct (node_ids g')" if "distinct (node_ids g)"
    proof -
      have d: "distinct (node_ids g4)" using that by (simp add: ids node_of_None)
      from write_parent_ids [of b g4] show ?thesis
      proof
        assume "\<exists>p. node_of p g4 = None \<and> node_ids (write_parent b g4) = node_ids g4 @ [p]"
        then obtain p where "p \<notin> set (node_ids g4)" "node_ids g' = node_ids g4 @ [p]" using g' node_of_None by blast
        with d show ?thesis by simp
      qed (simp add: d g')
    qed
  qed
next
  case (step_archive c)
  then obtain a where a: "node_of (ac_id c) g = Some a" by blast
  let ?f = "archived_node (ac_archive c) (ac_by c) (ac_reason c) (ac_now c) (Suc (seq_no g))"
  have g': "g' = set_node (ac_id c) ?f (g\<lparr>ag_seq := Some (Suc (seq_no g))\<rparr>)"
    using step_archive by (simp add: archive_set_def bump_def Let_def seq_no_def)
  show thesis
  proof (rule wrote [of "ac_id c" "?f a"])
    show "node_of (ac_id c) g' = Some (?f a)" by (simp add: g' a)
    show "kept g g' k" if "k \<noteq> ac_id c" for k by (rule kept_same) (simp add: g' that)
  qed (simp_all add: g' archived_node_def)
next
  case (step_seeder c who k)
  then have "g' = snd (stamp_seeder c who g)" by simp
  then show thesis using kept_stamp_seeder [of g c who] by (intro quiet) (simp_all add: stamp_seeder_def)
next
  case (step_release c now "is")
  then have "g' = snd (stamp_release c now g)" by simp
  then show thesis using kept_stamp_release [of g c now] by (intro quiet) (simp_all add: stamp_release_def)
qed

subsection \<open>What always holds of the store\<close>

definition store_ok :: "artifact_graph \<Rightarrow> bool" where
  "store_ok g \<longleftrightarrow> distinct (node_ids g) \<and>
     (\<forall>i a n. node_of i g = Some a \<longrightarrow> an_watermark a = Some n \<longrightarrow> 0 < n \<and> n \<le> seq_no g) \<and>
     (\<forall>i j a b n. node_of i g = Some a \<longrightarrow> node_of j g = Some b \<longrightarrow>
        an_watermark a = Some n \<longrightarrow> an_watermark b = Some n \<longrightarrow> i = j)"

lemma kept_watermark:
  assumes "kept g g' i" and "node_of i g' = Some a'" and "an_watermark a' = Some n"
  shows "\<exists>a. node_of i g = Some a \<and> an_watermark a = Some n \<and> same_view a a'"
proof (cases "node_of i g")
  case None
  with assms show ?thesis by (simp add: kept_def bare_node_def)
next
  case (Some a)
  with assms(1,2) have "same_view a a'" by (simp add: kept_def)
  moreover from this have "an_watermark a' = an_watermark a" by (metis same_view_def artifact_node.select_convs(1) artifact_node.surjective artifact_node.update_convs(2))
  ultimately show ?thesis using Some assms(3) by auto
qed

lemma store_step_ok:
  assumes "store_step g g'" and ok: "store_ok g"
  shows "store_ok g' \<and> seq_no g \<le> seq_no g'"
  using assms(1)
proof (cases rule: store_step_cases)
  case quiet
  have s: "seq_no g' = seq_no g" using quiet(1) by (simp add: seq_no_def)
  show ?thesis unfolding store_ok_def
  proof (intro conjI allI impI)
    show "distinct (node_ids g')" using ok quiet(2) by (simp add: store_ok_def)
    show "0 < n" "n \<le> seq_no g'" if "node_of i g' = Some a" "an_watermark a = Some n" for i a n
      using kept_watermark [OF quiet(3) that] ok s by (auto simp: store_ok_def)
    show "i = j" if "node_of i g' = Some a" "node_of j g' = Some b" "an_watermark a = Some n" "an_watermark b = Some n" for i j a b n
      using kept_watermark [OF quiet(3) that(1,3)] kept_watermark [OF quiet(3) that(2,4)] ok unfolding store_ok_def by blast
  qed (simp add: s)
next
  case (wrote i0 a0)
  have s: "seq_no g' = Suc (seq_no g)" using wrote(1) by (simp add: seq_no_def)
  have old: "i \<noteq> i0 \<Longrightarrow> node_of i g' = Some a \<Longrightarrow> an_watermark a = Some n \<Longrightarrow> 0 < n \<and> n \<le> seq_no g" for i a n
    using kept_watermark [OF wrote(4)] ok by (fastforce simp: store_ok_def)
  show ?thesis unfolding store_ok_def
  proof (intro conjI allI impI)
    show "distinct (node_ids g')" using ok wrote(5) by (simp add: store_ok_def)
    have b: "0 < n \<and> n \<le> seq_no g'" if "node_of i g' = Some a" "an_watermark a = Some n" for i a n
      using old [OF _ that] that wrote(2,3) s by (cases "i = i0") fastforce+
    show "0 < n" "n \<le> seq_no g'" if "node_of i g' = Some a" "an_watermark a = Some n" for i a n
      using b [OF that] by auto
    show "i = j" if "node_of i g' = Some a" "node_of j g' = Some b" "an_watermark a = Some n" "an_watermark b = Some n" for i j a b n
    proof (cases "i = i0 \<or> j = i0")
      case True
      then show ?thesis using old [OF _ that(1,3)] old [OF _ that(2,4)] that wrote(2,3) by fastforce
    next
      case False
      then show ?thesis using kept_watermark [OF wrote(4) that(1,3)] kept_watermark [OF wrote(4) that(2,4)] ok
        unfolding store_ok_def by blast
    qed
  qed (simp add: s)
qed

lemma empty_graph_ok: "store_ok empty_graph"
  by (simp add: store_ok_def empty_graph_def node_ids_def node_of_def)

text \<open>
  In every graph the writes, archives and stamps of the gateway can lead to, an artifact has one node,
  no two nodes carry the same watermark, and none carries one beyond the sequence.
\<close>

theorem watermarks_are_one_sequence:
  assumes "store_reachable g"
  shows "store_ok g"
  using assms by (induction rule: store_reachable.induct) (auto simp: empty_graph_ok dest: store_step_ok)

subsection \<open>The archive of a node\<close>

text \<open>
  The store with the calls of \<open>set_archive_state\<close> that have read and not yet set. A call whose read finds
  nothing to do ends there; one that is open sets, or its transaction fails (the driver then runs it again,
  from its read).
\<close>

record desk =
  dk_graph :: artifact_graph
  dk_open :: "archive_call list"

datatype desk_act =
  Writes artifact_bundle int | Reads archive_call | Sets archive_call | Fails archive_call
| Seeds string string | Releases string int

definition desk_do :: "desk_act \<Rightarrow> desk \<Rightarrow> desk" where
  "desk_do act d = (case act of
     Writes b now \<Rightarrow> d\<lparr>dk_graph := snd (lands b now (dk_graph d))\<rparr>
   | Reads c \<Rightarrow> if archive_due c (dk_graph d) then d\<lparr>dk_open := dk_open d @ [c]\<rparr> else d
   | Sets c \<Rightarrow> if c \<in> set (dk_open d)
       then \<lparr>dk_graph = archive_set c (dk_graph d), dk_open = remove1 c (dk_open d)\<rparr> else d
   | Fails c \<Rightarrow> d\<lparr>dk_open := remove1 c (dk_open d)\<rparr>
   | Seeds k who \<Rightarrow> d\<lparr>dk_graph := snd (stamp_seeder k who (dk_graph d))\<rparr>
   | Releases k now \<Rightarrow> d\<lparr>dk_graph := snd (stamp_release k now (dk_graph d))\<rparr>)"

definition new_desk :: desk where
  "new_desk = \<lparr>dk_graph = empty_graph, dk_open = []\<rparr>"

definition desk_after :: "desk_act list \<Rightarrow> desk" where
  "desk_after acts = fold desk_do acts new_desk"

definition history_of :: "string \<Rightarrow> desk \<Rightarrow> archive_entry list" where
  "history_of i d = (case node_of i (dk_graph d) of Some a \<Rightarrow> an_history a | None \<Rightarrow> [])"

definition hidden :: "string \<Rightarrow> desk \<Rightarrow> bool" where
  "hidden i d \<longleftrightarrow> (case node_of i (dk_graph d) of Some a \<Rightarrow> is_archived a | None \<Rightarrow> False)"

definition open_on :: "string \<Rightarrow> desk \<Rightarrow> archive_call list" where
  "open_on i d = filter (\<lambda>c. ac_id c = i) (dk_open d)"

text \<open>No two calls on the artifact are ever open at once.\<close>

definition one_at_a_time :: "string \<Rightarrow> desk_act list \<Rightarrow> bool" where
  "one_at_a_time i acts \<longleftrightarrow> list_all (\<lambda>as. length (open_on i (desk_after as)) \<le> 1) (prefixes acts)"

lemma desk_after_snoc [simp]: "desk_after (acts @ [x]) = desk_do x (desk_after acts)"
  by (simp add: desk_after_def)

lemma one_at_a_time_snoc:
  "one_at_a_time i (acts @ [x]) \<longleftrightarrow> one_at_a_time i acts \<and> length (open_on i (desk_do x (desk_after acts))) \<le> 1"
  by (simp add: one_at_a_time_def prefixes_snoc)

lemma one_at_a_time_now: "one_at_a_time i acts \<Longrightarrow> length (open_on i (desk_after acts)) \<le> 1"
  by (simp add: one_at_a_time_def list_all_iff)

text \<open>What leaves the archive of every node as it was: writes and stamps.\<close>

definition same_archive :: "artifact_graph \<Rightarrow> artifact_graph \<Rightarrow> bool" where
  "same_archive g g' \<longleftrightarrow> (\<forall>i. history_of i \<lparr>dk_graph = g', dk_open = []\<rparr> = history_of i \<lparr>dk_graph = g, dk_open = []\<rparr> \<and>
     hidden i \<lparr>dk_graph = g', dk_open = []\<rparr> = hidden i \<lparr>dk_graph = g, dk_open = []\<rparr>)"

lemma archive_views [simp]:
  "history_of i (d\<lparr>dk_open := cs\<rparr>) = history_of i d" "hidden i (d\<lparr>dk_open := cs\<rparr>) = hidden i d"
  "open_on i (d\<lparr>dk_graph := g\<rparr>) = open_on i d"
  by (simp_all add: history_of_def hidden_def open_on_def)

lemma same_archive_desk:
  "same_archive (dk_graph d) g' \<Longrightarrow> history_of i (d\<lparr>dk_graph := g'\<rparr>) = history_of i d \<and> hidden i (d\<lparr>dk_graph := g'\<rparr>) = hidden i d"
  by (simp add: same_archive_def history_of_def hidden_def)

lemma same_archive_kept:
  assumes "\<And>i. kept g g' i"
  shows "same_archive g g'"
proof -
  have "history_of i \<lparr>dk_graph = g', dk_open = []\<rparr> = history_of i \<lparr>dk_graph = g, dk_open = []\<rparr> \<and>
     hidden i \<lparr>dk_graph = g', dk_open = []\<rparr> = hidden i \<lparr>dk_graph = g, dk_open = []\<rparr>" for i
  proof (cases "node_of i g'")
    case (Some a')
    show ?thesis
    proof (cases "node_of i g")
      case None
      with assms [of i] Some show ?thesis by (simp add: kept_def history_of_def hidden_def bare_node_def is_archived_def)
    next
      case (Some a)
      with assms [of i] \<open>node_of i g' = Some a'\<close> have v: "same_view a a'" by (simp add: kept_def)
      then have "a' = a\<lparr>an_props := an_props a'\<rparr>" by (simp add: same_view_def)
      then have "an_history a' = an_history a" by (metis artifact_node.select_convs(4) artifact_node.surjective artifact_node.update_convs(2))
      moreover have "is_archived a' = is_archived a" using v by (simp add: same_view_def is_archived_def projected_keys_def)
      ultimately show ?thesis using Some \<open>node_of i g' = Some a'\<close> by (simp add: history_of_def hidden_def)
    qed
  qed (use assms [of i] in \<open>simp add: kept_def history_of_def hidden_def\<close>)
  then show ?thesis by (simp add: same_archive_def)
qed

lemma written_archive:
  "an_history (written_node b d now n a) = an_history a" "is_archived (written_node b d now n a) = is_archived a"
proof -
  show "an_history (written_node b d now n a) = an_history a" by (simp add: written_node_def write_own_def)
  have "dget (case_props b p) ''archived_at'' = dget p ''archived_at''" for p
    by (simp add: case_props_def Let_def split: option.splits)
  moreover have "dget (put_props (artifact_properties b d now) p) ''archived_at'' = dget p ''archived_at''" for p
    by (simp add: dget_put_props artifact_properties_def)
  ultimately show "is_archived (written_node b d now n a) = is_archived a"
    by (simp add: written_node_def write_own_def is_archived_def)
qed

lemma core_archive: "core_node a = core_node a' \<Longrightarrow> an_history a = an_history a' \<and> is_archived a = is_archived a'"
  by (metis core_node_fields(2,4) is_archived_def)

lemma same_archive_lands: "same_archive g (snd (lands b now g))"
proof (cases "tx_merge b DURABLE now g")
  case (Some p)
  then obtain n g' where t: "tx_merge b DURABLE now g = Some (n, g')" by fastforce
  obtain g4 where core: "core_of (ab_id b) g4 = Some (core_node (written_node b DURABLE now n
        (case node_of (ab_id b) g of Some a \<Rightarrow> a | None \<Rightarrow> created_node now)))"
    and other: "\<And>j. j \<noteq> ab_id b \<Longrightarrow> node_of j g4 = node_of j g" and g': "g' = write_parent b g4"
    by (rule tx_merge_cases [OF t]) (rule that; assumption)
  have "history_of i \<lparr>dk_graph = g', dk_open = []\<rparr> = history_of i \<lparr>dk_graph = g, dk_open = []\<rparr> \<and>
     hidden i \<lparr>dk_graph = g', dk_open = []\<rparr> = hidden i \<lparr>dk_graph = g, dk_open = []\<rparr>" for i
  proof (cases "i = ab_id b")
    case True
    from core have "node_of (ab_id b) g4 \<noteq> None" by (auto simp: core_of_def)
    from write_parent_core [OF this] core g' obtain a' where a': "node_of i g' = Some a'" "core_node a' = core_node (written_node b DURABLE now n
        (case node_of (ab_id b) g of Some a \<Rightarrow> a | None \<Rightarrow> created_node now))" by (auto simp: core_of_def True)
    from core_archive [OF a'(2)] show ?thesis unfolding written_archive
      by (auto simp: history_of_def hidden_def a'(1) [unfolded True] True created_node_def bare_node_def is_archived_def split: option.splits)
  next
    case False
    with write_parent_other [of i b g4] other [of i] g' show ?thesis
      by (auto simp: history_of_def hidden_def bare_node_def is_archived_def)
  qed
  then show ?thesis by (simp add: same_archive_def lands_def t)
qed (simp add: same_archive_def lands_def)

lemma archive_set_effect:
  assumes "node_of (ac_id c) (dk_graph d) \<noteq> None"
  shows "history_of i (d\<lparr>dk_graph := archive_set c (dk_graph d)\<rparr>) = history_of i d @ (if i = ac_id c
       then [\<lparr>ae_archive = ac_archive c, ae_by = ac_by c, ae_at = ac_now c, ae_reason = ac_reason c\<rparr>] else [])"
    and "hidden i (d\<lparr>dk_graph := archive_set c (dk_graph d)\<rparr>) = (if i = ac_id c then ac_archive c else hidden i d)"
  using assms by (auto simp: history_of_def hidden_def archive_set_def bump_def Let_def archived_node_def is_archived_def dget_put_props split: if_splits)

text \<open>Every act leaves an archive alone, or is the second statement of an open call.\<close>

lemma desk_do_cases:
  assumes "\<forall>c \<in> set (dk_open d). node_of (ac_id c) (dk_graph d) \<noteq> None"
  obtains (aside) "history_of i (desk_do x d) = history_of i d" "hidden i (desk_do x d) = hidden i d"
      "set (open_on i (desk_do x d)) \<subseteq> set (open_on i d) \<union> {c. ac_id c = i \<and> ac_archive c \<noteq> hidden i d}"
      "\<And>c. x = Sets c \<Longrightarrow> ac_id c = i \<Longrightarrow> c \<notin> set (dk_open d)"
  | (did) c where "x = Sets c" "c \<in> set (open_on i d)" "open_on i (desk_do x d) = remove1 c (open_on i d)"
      "history_of i (desk_do x d) =
         history_of i d @ [\<lparr>ae_archive = ac_archive c, ae_by = ac_by c, ae_at = ac_now c, ae_reason = ac_reason c\<rparr>]"
      "hidden i (desk_do x d) = ac_archive c"
proof (cases x)
  case (Writes b now)
  then show thesis using same_archive_desk [OF same_archive_lands, where d = d and i = i] by (intro aside) (auto simp: desk_do_def)
next
  case (Reads c)
  then show thesis
    by (intro aside) (auto simp: desk_do_def open_on_def archive_due_def hidden_def history_of_def split: option.splits)
next
  case (Fails c)
  then show thesis by (intro aside) (auto simp: desk_do_def open_on_def dest: notin_set_remove1)
next
  case (Seeds k who)
  have "same_archive (dk_graph d) (snd (stamp_seeder k who (dk_graph d)))" by (rule same_archive_kept) (rule kept_stamp_seeder)
  from same_archive_desk [OF this, where i = i] Seeds show thesis by (intro aside) (auto simp: desk_do_def)
next
  case (Releases k now)
  have "same_archive (dk_graph d) (snd (stamp_release k now (dk_graph d)))" by (rule same_archive_kept) (rule kept_stamp_release)
  from same_archive_desk [OF this, where i = i] Releases show thesis by (intro aside) (auto simp: desk_do_def)
next
  case (Sets c)
  show thesis
  proof (cases "c \<in> set (dk_open d)")
    case False
    then show thesis using Sets by (intro aside) (auto simp: desk_do_def)
  next
    case True
    have d': "desk_do x d = d\<lparr>dk_graph := archive_set c (dk_graph d)\<rparr>\<lparr>dk_open := remove1 c (dk_open d)\<rparr>"
      using True Sets by (simp add: desk_do_def)
    note e = archive_set_effect [OF bspec [OF assms True], of i]
    have o': "open_on i (desk_do x d) = remove1 c (open_on i d)"
      using d' by (simp add: open_on_def filter_remove1)
    show thesis
    proof (cases "ac_id c = i")
      case True
      with e d' o' Sets \<open>c \<in> set (dk_open d)\<close> show thesis by (intro did [of c]) (simp_all add: open_on_def)
    next
      case False
      then have "remove1 c (open_on i d) = open_on i d" by (auto simp: open_on_def intro: remove1_idem)
      with False e d' o' Sets show thesis by (intro aside) auto
    qed
  qed
qed

lemma nodes_stay: "node_of i (dk_graph d) \<noteq> None \<Longrightarrow> node_of i (dk_graph (desk_do x d)) \<noteq> None"
proof (cases x)
  case (Writes b now)
  assume s: "node_of i (dk_graph d) \<noteq> None"
  show ?thesis
  proof (cases "tx_merge b DURABLE now (dk_graph d)")
    case (Some p)
    then obtain n g' where t: "tx_merge b DURABLE now (dk_graph d) = Some (n, g')" by fastforce
    obtain g4 where ids: "node_ids g4 = node_ids (dk_graph d) @ (if node_of (ab_id b) (dk_graph d) = None then [ab_id b] else [])"
      and g': "g' = write_parent b g4"
      by (rule tx_merge_cases [OF t]) (rule that; assumption)
    have "i \<in> set (node_ids g')" using s write_parent_ids [of b g4] by (auto simp: g' ids node_of_None)
    then show ?thesis using Writes t by (simp add: desk_do_def lands_def node_of_None)
  qed (use s Writes in \<open>simp add: desk_do_def lands_def\<close>)
qed (auto simp: desk_do_def archive_set_def bump_def Let_def stamp_seeder_def stamp_release_def node_of_set_case_nodes)

lemma open_calls_have_nodes: "\<forall>c \<in> set (dk_open (desk_after acts)). node_of (ac_id c) (dk_graph (desk_after acts)) \<noteq> None"
proof (induction acts rule: rev_induct)
  case Nil
  then show ?case by (simp add: desk_after_def new_desk_def)
next
  case (snoc x acts)
  have "node_of (ac_id c) (dk_graph (desk_after acts)) \<noteq> None" if "c \<in> set (dk_open (desk_do x (desk_after acts)))" for c
    using that snoc by (cases x) (auto simp: desk_do_def archive_due_def split: if_splits option.splits dest: notin_set_remove1)
  then show ?case using nodes_stay by simp
qed

lemma history_last:
  "hidden i (desk_after acts) \<longleftrightarrow> history_of i (desk_after acts) \<noteq> [] \<and> ae_archive (last (history_of i (desk_after acts)))"
proof (induction acts rule: rev_induct)
  case Nil
  then show ?case by (simp add: desk_after_def new_desk_def empty_graph_def hidden_def history_of_def node_of_def)
next
  case (snoc x acts)
  show ?case by (cases rule: desk_do_cases [where i = i and x = x, OF open_calls_have_nodes [of acts]]) (use snoc in auto)
qed

lemma history_grows: "prefix (history_of i (desk_after acts)) (history_of i (desk_after (acts @ later)))"
proof (induction later rule: rev_induct)
  case (snoc x later)
  have "prefix (history_of i (desk_after (acts @ later))) (history_of i (desk_do x (desk_after (acts @ later))))"
    by (cases rule: desk_do_cases [where i = i and x = x, OF open_calls_have_nodes [of "acts @ later"]]) auto
  then have "prefix (history_of i (desk_after acts)) (history_of i (desk_do x (desk_after (acts @ later))))"
    using snoc by (rule prefix_order.trans [rotated])
  then show ?case by (simp flip: append_assoc)
qed simp

definition in_turn :: "archive_entry list \<Rightarrow> bool" where
  "in_turn h \<longleftrightarrow> map ae_archive h = map even [0..<length h]"

lemma in_turn_snoc:
  assumes "in_turn h" and "ae_archive e \<noteq> (h \<noteq> [] \<and> ae_archive (last h))"
  shows "in_turn (h @ [e])"
proof (cases "h = []")
  case False
  from assms(1) have "last (map ae_archive h) = last (map even [0..<length h])" by (simp add: in_turn_def)
  with False have "ae_archive (last h) = even (length h - 1)" by (simp add: last_map)
  with False assms show ?thesis by (auto simp: in_turn_def)
qed (use assms in \<open>simp add: in_turn_def\<close>)

lemma one_call_alternates:
  assumes "one_at_a_time i acts"
  shows "in_turn (history_of i (desk_after acts)) \<and> (\<forall>c \<in> set (open_on i (desk_after acts)). ac_archive c \<noteq> hidden i (desk_after acts))"
  using assms
proof (induction acts rule: rev_induct)
  case Nil
  then show ?case by (simp add: desk_after_def new_desk_def empty_graph_def open_on_def history_of_def node_of_def in_turn_def)
next
  case (snoc x acts)
  then have ih: "in_turn (history_of i (desk_after acts))" "\<forall>c \<in> set (open_on i (desk_after acts)). ac_archive c \<noteq> hidden i (desk_after acts)"
    and one: "length (open_on i (desk_after acts)) \<le> 1"
    using one_at_a_time_now [of i acts] by (auto simp: one_at_a_time_snoc)
  show ?case
  proof (cases rule: desk_do_cases [where i = i and x = x, OF open_calls_have_nodes [of acts]])
    case 1
    then show ?thesis using ih by auto
  next
    case (2 c)
    then have "open_on i (desk_after acts) = [c]" using one by (cases "open_on i (desk_after acts)") auto
    moreover have "ac_archive c \<noteq> hidden i (desk_after acts)" using ih(2) 2(2) by blast
    ultimately show ?thesis using 2 in_turn_snoc [OF ih(1)] history_last [of i acts] by simp
  qed
qed

text \<open>
  C37. The archive hides and never forgets, whatever order the two statements of its calls, the writes and
  the stamps come in: no act of the store takes an entry from the history of an artifact or changes one, and the
  artifact is hidden exactly when the last entry is an archive. Where no two calls on the artifact overlap,
  the entries are an archive, an unarchive, and so on in turn, so a call that repeats the state left no
  entry. Calls that overlap may each record the same act (see \<open>racing_archives_both_recorded\<close>).
\<close>

theorem archive_history_alternates:
  "prefix (history_of i (desk_after acts)) (history_of i (desk_after (acts @ later))) \<and>
   hidden i (desk_after acts) = (history_of i (desk_after acts) \<noteq> [] \<and> ae_archive (last (history_of i (desk_after acts)))) \<and>
   (one_at_a_time i acts \<longrightarrow> map ae_archive (history_of i (desk_after acts)) = map even [0..<length (history_of i (desk_after acts))])"
  using history_grows history_last one_call_alternates unfolding in_turn_def by blast

subsection \<open>The writer\<close>

lemma lands_step: "store_step\<^sup>*\<^sup>* g (snd (lands b now g))"
  by (auto simp: lands_def split: option.splits intro: r_into_rtranclp step_write)











text \<open>The node of an artifact as its write leaves it.\<close>

definition with_producer :: "artifact_bundle \<Rightarrow> artifact_node \<Rightarrow> artifact_node" where
  "with_producer b a = (if ab_by b = [] then a else a\<lparr>an_producers :=
     draw (dget_or (ab_by b) ''actor_type'' (PStr ''agent''), dget_or (ab_by b) ''actor_id'' (PStr ''pending'')) (an_producers a)\<rparr>)"

definition with_consumer :: "artifact_bundle \<Rightarrow> artifact_node \<Rightarrow> artifact_node" where
  "with_consumer b a = (if ab_for b = [] then a else a\<lparr>an_consumers :=
     draw (PStr ''user'', dget_or (ab_for b) ''user_id'' (PStr ''unknown'')) (an_consumers a)\<rparr>)"

definition citation_of :: "pydict \<Rightarrow> citation" where
  "citation_of s = \<lparr>ci_snippet = dget s ''snippet'', ci_relevance = dget s ''relevance'', ci_open_url = dget s ''open_url'',
     ci_access = to_json (dget s ''access_decision'')\<rparr>"

definition with_source :: "pydict \<Rightarrow> artifact_node \<Rightarrow> artifact_node" where
  "with_source s a = (if \<not> truthy (dget s ''uri'') then a
     else a\<lparr>an_cites := AList.update (dget s ''uri'') (citation_of s) (an_cites a)\<rparr>)"

definition with_parent :: "artifact_bundle \<Rightarrow> artifact_node \<Rightarrow> artifact_node" where
  "with_parent b a = (case ab_from b of Some p \<Rightarrow> if p = [] then a else a\<lparr>an_parents := draw p (an_parents a)\<rparr> | None \<Rightarrow> a)"








lemma with_fields [simp]:
  "an_producers (with_consumer b a) = an_producers a" "an_producers (with_source s a) = an_producers a"
  "an_producers (with_parent b a) = an_producers a" "an_consumers (with_source s a) = an_consumers a"
  "an_consumers (with_parent b a) = an_consumers a" "an_cites (with_parent b a) = an_cites a"
  "core_node (with_producer b a) = core_node a" "core_node (with_consumer b a) = core_node a"
  "core_node (with_source s a) = core_node a" "core_node (with_parent b a) = core_node a"
  by (auto simp: with_producer_def with_consumer_def with_source_def with_parent_def split: option.splits)

lemma with_sources_fields [simp]:
  "an_producers (fold with_source ss a) = an_producers a" "an_consumers (fold with_source ss a) = an_consumers a"
  "core_node (fold with_source ss a) = core_node a"
  by (induction ss arbitrary: a) simp_all

lemma parse_to_json [simp]: "parse_json (to_json v) = v"
  by (simp add: parse_json_def to_json_def)










lemma note_durability_simps [simp]:
  "st_graph (note_durability i x n e s) = st_graph s"
  "get_durability_record j (note_durability i x n e s) =
     (if j = i then Some \<lparr>du_status = x, du_attempts = n, du_error = e\<rparr> else get_durability_record j s)"
  by (simp_all add: note_durability_def get_durability_record_def update_conv')

lemma get_durability_graph [simp]: "get_durability_record i (s\<lparr>st_graph := g\<rparr>) = get_durability_record i s"
  by (simp add: get_durability_record_def)



lemma store_steps_reachable: "store_step\<^sup>*\<^sup>* g g' \<Longrightarrow> store_reachable g \<Longrightarrow> store_reachable g'"
  by (induction rule: rtranclp_induct) (auto intro: reach_step)

subsection \<open>Witnesses\<close>

definition sample_bundle :: "string \<Rightarrow> string \<Rightarrow> string \<Rightarrow> artifact_bundle" where
  "sample_bundle i user source = \<lparr>ab_id = i, ab_question = ''q'', ab_message = ''m'', ab_valid_as_of = 1, ab_status = ''complete'',
     ab_by = [], ab_for = [(''user_id'', PStr user), (''is_authenticated'', PBool True),
       (''entitlement_source'', PStr source)], ab_intent = [], ab_routing = None, ab_sources = [],
     ab_trace = [], ab_rendered = None, ab_from = None, ab_valid_until = None, ab_kind = ''answer'', ab_case = None,
     ab_seeded_by = None, ab_summary = [], ab_duration = None\<rparr>"

definition graph_after :: "artifact_bundle list \<Rightarrow> artifact_graph" where
  "graph_after bs = fold (\<lambda>b g. snd (lands b 5 g)) bs empty_graph"

lemma graph_after_reachable: "store_reachable (graph_after bs)"
proof -
  have "store_reachable g \<Longrightarrow> store_reachable (fold (\<lambda>b g. snd (lands b 5 g)) bs g)" for g
    by (induction bs arbitrary: g) (auto intro: store_steps_reachable [OF lands_step])
  then show ?thesis using reach_empty by (simp add: graph_after_def)
qed

definition two_answers :: artifact_graph where
  "two_answers = graph_after [sample_bundle ''a'' ''u'' ''claim'', sample_bundle ''b'' ''u'' ''fallback'']"

lemma two_answers_reachable: "store_reachable two_answers"
  unfolding two_answers_def by (rule graph_after_reachable)

lemma watermarks_are_one_sequence_witness:
  "store_ok two_answers \<and> map (\<lambda>p. an_watermark (snd p)) (ag_nodes two_answers) = [Some 1, Some 2]"
proof -
  have "map (\<lambda>p. an_watermark (snd p)) (ag_nodes two_answers) = [Some 1, Some 2]" by code_simp
  with watermarks_are_one_sequence [OF two_answers_reachable] show ?thesis by blast
qed

definition call_by :: "string \<Rightarrow> bool \<Rightarrow> int \<Rightarrow> archive_call" where
  "call_by who archive now = \<lparr>ac_id = ''a'', ac_archive = archive, ac_by = who, ac_reason = None, ac_now = now\<rparr>"

definition in_a_row :: "archive_call list \<Rightarrow> desk_act list" where
  "in_a_row cs = Writes (sample_bundle ''a'' ''u'' ''claim'') 5 # concat (map (\<lambda>c. [Reads c, Sets c]) cs)"

lemma archive_history_alternates_witness:
  "\<exists>acts. one_at_a_time ''a'' acts \<and> map ae_archive (history_of ''a'' (desk_after acts)) = map even [0..<3] \<and>
     map ae_at (history_of ''a'' (desk_after acts)) = [6, 8, 9]"
proof -
  let ?acts = "in_a_row [call_by ''u'' True 6, call_by ''v'' True 7, call_by ''u'' False 8, call_by ''v'' True 9]"
  have "one_at_a_time ''a'' ?acts" by code_simp
  moreover have "map ae_at (history_of ''a'' (desk_after ?acts)) = [6, 8, 9]" by code_simp
  moreover have "length (history_of ''a'' (desk_after ?acts)) = 3" by code_simp
  ultimately show ?thesis using archive_history_alternates [of "''a''" ?acts "[]"] by (intro exI [of _ ?acts]) simp
qed

text \<open>Two archives that read before either sets are both recorded, and the second takes the first one's place.\<close>

lemma racing_archives_both_recorded:
  "let c = call_by ''u'' True 6; c' = call_by ''v'' True 7;
       d = desk_after [Writes (sample_bundle ''a'' ''u'' ''claim'') 5, Reads c, Reads c', Sets c, Sets c'] in
   map ae_archive (history_of ''a'' d) = [True, True] \<and>
   map_option (\<lambda>a. dget (an_props a) ''archived_by'') (node_of ''a'' (dk_graph d)) = Some (PStr ''v'')"
  by code_simp

text \<open>And an uninterrupted call that repeats the state writes nothing.\<close>

lemma repeated_call_writes_nothing:
  "set_archive_state c g = (True, g') \<Longrightarrow> set_archive_state c g' = (False, g')"
  by (auto simp: set_archive_state_def archive_due_def archive_set_def bump_def Let_def archived_node_def is_archived_def
      dget_put_props split: option.splits if_splits)

text \<open>
  A write reported as failed may still be in the graph: the attempt landed and its answer was
  lost.
\<close>

lemma failed_write_may_be_stored:
  "let (end_of, s) = write_sync 1 (\<lambda>k. LandsThenRaises 5 ''e'') (sample_bundle ''a'' ''u'' ''claim'')
       \<lparr>st_graph = empty_graph, st_registry = []\<rparr> in
   end_of = GaveUp 1 (Some ''e'') \<and> node_ids (st_graph s) = [''a''] \<and> seq_no (st_graph s) = 1"
  by code_simp

text \<open>A background write that is stopped records a failure, though its thread stores the answer.\<close>

lemma stopped_write_may_be_stored:
  "let (raised, s) = dispatch_async 1 (\<lambda>k. IsStopped (Some 5) ''CancelledError'') (sample_bundle ''a'' ''u'' ''claim'')
       \<lparr>st_graph = empty_graph, st_registry = []\<rparr> in
   get_durability_record ''a'' s = Some \<lparr>du_status = PERSISTENCE_FAILED, du_attempts = 0, du_error = Some ''CancelledError''\<rparr> \<and>
   node_ids (st_graph s) = [''a'']"
  by code_simp

end
