(* ===== verification/Projector.thy ===== *)
theory Projector
  imports Artifact_Store
begin

text \<open>
  The projector: \<^verbatim>\<open>src/iagent/projector/apply_loop.py\<close>. It follows the watermarks of the store, writes one row
  of the projection table for each artifact and moves a cursor, both in one transaction of Postgres; an
  artifact it cannot apply is noted in the log of skips and passed.

  The types of the columns are those of \<^verbatim>\<open>sql/create_answer_artifact_projection.sql\<close>: a null in a column
  that forbids it makes the transaction fail. A row is made from the artifact as the poll read it.
\<close>

subsection \<open>The poll\<close>

record polled =
  po_id :: string
  po_watermark :: nat
  po_props :: pydict
  po_texts :: "(string \<times> json_text option) list"
  po_producers :: "pydict list"
  po_consumers :: "pydict list"
  po_sources :: "(pydict \<times> json_text option) list"
  po_from :: pyval

definition actor_props :: "artifact_graph \<Rightarrow> actor_key \<Rightarrow> pydict" where
  "actor_props g k = [(''actor_type'', fst k), (''actor_id'', snd k)] @
     (case map_of (ag_actors g) k of Some p \<Rightarrow> p | None \<Rightarrow> [])"

definition pick_keys :: "string list \<Rightarrow> pydict \<Rightarrow> pydict" where
  "pick_keys ks d = map (\<lambda>k. (k, dget d k)) ks"

definition polled_source :: "artifact_graph \<Rightarrow> pyval \<times> citation \<Rightarrow> pydict \<times> json_text option" where
  "polled_source g c = (let s = (case map_of (ag_sources g) (fst c) of Some p \<Rightarrow> p | None \<Rightarrow> []) in
     ([(''uri'', fst c), (''type'', dget s ''type''), (''label'', dget s ''label''), (''snippet'', ci_snippet (snd c)),
       (''relevance'', ci_relevance (snd c)), (''open_url'', ci_open_url (snd c))], ci_access (snd c)))"

definition poll_node :: "artifact_graph \<Rightarrow> string \<Rightarrow> nat \<Rightarrow> artifact_node \<Rightarrow> polled" where
  "poll_node g i n a =
     \<lparr>po_id = i, po_watermark = n, po_props = pick_keys projected_keys (an_props a),
      po_texts = an_texts a,
      po_producers = map (pick_keys [''actor_type'', ''actor_id'', ''version'', ''endpoint''] \<circ> actor_props g) (an_producers a),
      po_consumers = map (pick_keys [''actor_type'', ''actor_id'', ''user_id'', ''is_authenticated'', ''user_persona'',
         ''entitled_domains'', ''entitlement_source''] \<circ> actor_props g) (an_consumers a),
      po_sources = map (polled_source g) (an_cites a),
      po_from = (case an_parents a of [] \<Rightarrow> PNone | p # _ \<Rightarrow> PStr p)\<rparr>"

definition newer_than :: "nat \<Rightarrow> artifact_graph \<Rightarrow> string \<times> artifact_node \<Rightarrow> polled option" where
  "newer_than last_applied g p = (case an_watermark (snd p) of
     Some n \<Rightarrow> if last_applied < n then Some (poll_node g (fst p) n (snd p)) else None | None \<Rightarrow> None)"

definition unapplied :: "nat \<Rightarrow> artifact_graph \<Rightarrow> polled list" where
  "unapplied last_applied g = sort_key po_watermark (List.map_filter (newer_than last_applied g) (ag_nodes g))"

definition poll_store :: "nat \<Rightarrow> nat \<Rightarrow> artifact_graph \<Rightarrow> polled list" where
  "poll_store limit last_applied g = take limit (unapplied last_applied g)"

subsection \<open>The row\<close>

record projection_row =
  pr_watermark :: nat
  pr_kind :: pyval
  pr_created :: int
  pr_updated :: int
  pr_valid_as_of :: int
  pr_valid_until :: pyval
  pr_status :: pyval
  pr_durability :: pyval
  pr_message :: pyval
  pr_question :: pyval
  pr_summary :: pyval
  pr_duration :: pyval
  pr_intent :: pyval
  pr_routing :: pyval
  pr_sources :: "pydict list"
  pr_trace :: pyval
  pr_rendered :: pyval
  pr_by :: pydict
  pr_for :: pydict
  pr_from :: pyval
  pr_user :: pyval
  pr_archived_at :: pyval
  pr_archived_by :: pyval
  pr_archive_reason :: pyval

definition py_or :: "pyval \<Rightarrow> pyval \<Rightarrow> pyval" where
  "py_or v w = (if truthy v then v else w)"

text \<open>\<open>int(v)\<close> of a number; the writer stores no other value there.\<close>

definition int_of_num :: "pyval \<Rightarrow> int option" where
  "int_of_num v = (case v of PInt i \<Rightarrow> Some i | PBool b \<Rightarrow> Some (if b then 1 else 0)
     | PFloat q \<Rightarrow> Some (if q < 0 then - \<lfloor>- q\<rfloor> else \<lfloor>q\<rfloor>) | _ \<Rightarrow> None)"

definition polled_text :: "polled \<Rightarrow> string \<Rightarrow> pyval" where
  "polled_text po k = parse_json (case map_of (po_texts po) k of Some t \<Rightarrow> t | None \<Rightarrow> None)"

definition head_or_nil :: "pydict list \<Rightarrow> pydict" where
  "head_or_nil ds = (case ds of [] \<Rightarrow> [] | d # _ \<Rightarrow> d)"

definition projected_row :: "int \<Rightarrow> polled \<Rightarrow> projection_row option" where
  "projected_row now po = (let p = dget (po_props po); stamp_of = (\<lambda>k. int_of_num (py_or (p k) (PInt now))) in
     case (int_of_num (p ''valid_as_of''), stamp_of ''created_at'', stamp_of ''updated_at'') of
       (Some valid, Some created, Some updated) \<Rightarrow>
         if p ''status'' = PNone \<or> p ''durability_status'' = PNone \<or> p ''message_id'' = PNone \<or> p ''question_text'' = PNone then None
         else Some
           \<lparr>pr_watermark = po_watermark po, pr_kind = py_or (p ''kind'') (PStr ''answer''), pr_created = created,
            pr_updated = updated, pr_valid_as_of = valid, pr_valid_until = p ''valid_until'', pr_status = p ''status'',
            pr_durability = p ''durability_status'', pr_message = p ''message_id'', pr_question = p ''question_text'',
            pr_summary = py_or (p ''summary'') (PStr []), pr_duration = p ''duration_ms'',
            pr_intent = py_or (polled_text po ''resolved_intent'') (PDict []), pr_routing = polled_text po ''routing_inline'',
            pr_sources = map (\<lambda>s. fst s @ [(''access_decision'', parse_json (snd s))]) (po_sources po),
            pr_trace = py_or (polled_text po ''graph_trace_json'') (PList []), pr_rendered = polled_text po ''rendered_output'',
            pr_by = head_or_nil (po_producers po), pr_for = head_or_nil (po_consumers po), pr_from = po_from po,
            pr_user = dget (head_or_nil (po_consumers po)) ''user_id'', pr_archived_at = p ''archived_at'',
            pr_archived_by = p ''archived_by'', pr_archive_reason = p ''archive_reason''\<rparr>
     | _ \<Rightarrow> None)"

subsection \<open>The loop\<close>

record projector =
  pj_rows :: "(string \<times> projection_row) list"
  pj_cursor :: nat
  pj_applied_at :: int
  pj_count :: nat
  pj_skips :: "(string \<times> nat) list"
  pj_mirror :: nat

definition move_cursor :: "int \<Rightarrow> nat \<Rightarrow> projector \<Rightarrow> projector" where
  "move_cursor now w pj = pj\<lparr>pj_cursor := max (pj_cursor pj) w, pj_applied_at := now, pj_count := Suc (pj_count pj),
     pj_mirror := max (pj_mirror pj) w\<rparr>"

definition upsert :: "string \<Rightarrow> projection_row \<Rightarrow> (string \<times> projection_row) list \<Rightarrow> (string \<times> projection_row) list" where
  "upsert i r rows = AList.update i (case map_of rows i of Some old \<Rightarrow> r\<lparr>pr_created := pr_created old\<rparr> | None \<Rightarrow> r) rows"

definition apply_one :: "int \<Rightarrow> polled \<Rightarrow> projector \<Rightarrow> projector option" where
  "apply_one now po pj = map_option (\<lambda>r. move_cursor now (po_watermark po) (pj\<lparr>pj_rows := upsert (po_id po) r (pj_rows pj)\<rparr>))
     (projected_row now po)"

text \<open>What Postgres does while a row is applied: whether each of its transactions goes through, and the time.\<close>

record weather =
  we_apply :: bool
  we_skip :: bool
  we_advance :: bool
  we_now :: int

definition record_skip :: "string \<Rightarrow> nat \<Rightarrow> projector \<Rightarrow> projector" where
  "record_skip i n pj = pj\<lparr>pj_skips := pj_skips pj @ [(if i = [] then ''<unknown>'' else i, n)]\<rparr>"

definition pass_over :: "weather \<Rightarrow> polled \<Rightarrow> projector \<Rightarrow> projector" where
  "pass_over w po pj =
     (let pj1 = (if we_skip w then record_skip (po_id po) (po_watermark po) pj else pj)
      in if we_advance w then move_cursor (we_now w) (po_watermark po) pj1 else pj1)"

definition apply_row :: "weather \<Rightarrow> polled \<Rightarrow> projector \<Rightarrow> bool \<times> projector" where
  "apply_row w po pj = (case (if we_apply w then apply_one (we_now w) po pj else None) of
     Some pj' \<Rightarrow> (True, pj') | None \<Rightarrow> (False, pass_over w po pj))"

fun apply_rows :: "(nat \<Rightarrow> weather) \<Rightarrow> nat \<Rightarrow> polled list \<Rightarrow> nat \<times> projector \<Rightarrow> nat \<times> projector" where
  "apply_rows ws k [] s = s"
| "apply_rows ws k (po # pos) s = (case apply_row (ws k) po (snd s) of
     (done_it, pj) \<Rightarrow> apply_rows ws (Suc k) pos (if done_it then Suc (fst s) else fst s, pj))"

definition resync :: "projector \<Rightarrow> projector" where
  "resync pj = pj\<lparr>pj_mirror := pj_cursor pj\<rparr>"

text \<open>One batch; \<open>None\<close> where reading the cursor or the graph raises, which the loop logs and tries again.\<close>

definition apply_once :: "nat \<Rightarrow> bool \<Rightarrow> bool \<Rightarrow> (nat \<Rightarrow> weather) \<Rightarrow> artifact_graph \<Rightarrow> projector \<Rightarrow> nat option \<times> projector" where
  "apply_once limit cursor_up graph_up ws g pj =
     (if \<not> cursor_up then (None, pj)
      else let pj1 = resync pj in
        if \<not> graph_up then (None, pj1)
        else map_prod Some (\<lambda>p. p) (apply_rows ws 0 (poll_store limit (pj_mirror pj1) g) (0, pj1)))"

definition get_cursor_state :: "projector \<Rightarrow> nat \<times> int \<times> nat" where
  "get_cursor_state pj = (pj_cursor pj, pj_applied_at pj, pj_count pj)"

subsection \<open>The mesh as a whole: writes, polls and rows in any order\<close>

record mesh =
  me_graph :: artifact_graph
  me_projector :: projector
  me_batch :: "polled list"

definition all_up :: "weather \<Rightarrow> bool" where
  "all_up w \<longleftrightarrow> we_apply w \<and> we_skip w \<and> we_advance w"

definition fresh_projector :: projector where
  "fresh_projector = \<lparr>pj_rows = [], pj_cursor = 0, pj_applied_at = 0, pj_count = 0, pj_skips = [], pj_mirror = 0\<rparr>"

text \<open>
  The store moves while a batch is in flight; the cursor may be set back between two batches, and the
  table emptied with it.
\<close>

inductive mesh_step :: "nat \<Rightarrow> mesh \<Rightarrow> mesh \<Rightarrow> bool" for limit where
  mesh_store: "store_step g g' \<Longrightarrow> mesh_step limit \<lparr>me_graph = g, me_projector = pj, me_batch = b\<rparr>
     \<lparr>me_graph = g', me_projector = pj, me_batch = b\<rparr>"
| mesh_poll: "mesh_step limit \<lparr>me_graph = g, me_projector = pj, me_batch = []\<rparr>
     \<lparr>me_graph = g, me_projector = resync pj, me_batch = poll_store limit (pj_mirror (resync pj)) g\<rparr>"
| mesh_row: "all_up w \<Longrightarrow> apply_row w po pj = (done_it, pj') \<Longrightarrow>
     mesh_step limit \<lparr>me_graph = g, me_projector = pj, me_batch = po # b\<rparr> \<lparr>me_graph = g, me_projector = pj', me_batch = b\<rparr>"
| mesh_rewind: "n \<le> pj_cursor pj \<Longrightarrow> mesh_step limit \<lparr>me_graph = g, me_projector = pj, me_batch = []\<rparr>
     \<lparr>me_graph = g, me_projector = pj\<lparr>pj_cursor := n\<rparr>, me_batch = []\<rparr>"
| mesh_reset: "mesh_step limit \<lparr>me_graph = g, me_projector = pj, me_batch = []\<rparr>
     \<lparr>me_graph = g, me_projector = fresh_projector\<lparr>pj_mirror := pj_mirror pj\<rparr>, me_batch = []\<rparr>"

inductive mesh_reachable :: "nat \<Rightarrow> mesh \<Rightarrow> bool" for limit where
  mesh_begin: "store_reachable g \<Longrightarrow> mesh_reachable limit \<lparr>me_graph = g, me_projector = fresh_projector, me_batch = []\<rparr>"
| mesh_more: "mesh_reachable limit m \<Longrightarrow> mesh_step limit m m' \<Longrightarrow> mesh_reachable limit m'"

subsection \<open>What a row shows\<close>

text \<open>
  A row shows an artifact when it is what projecting the node as it stands gives, at some moment and over
  some state of the actors and sources the artifacts share, the time of its creation aside.
\<close>

definition shown_row :: "string \<Rightarrow> nat \<Rightarrow> artifact_node \<Rightarrow> projection_row \<Rightarrow> bool" where
  "shown_row i n a r \<longleftrightarrow> (\<exists>now g r'. projected_row now (poll_node g i n a) = Some r' \<and>
     r\<lparr>pr_created := 0\<rparr> = r'\<lparr>pr_created := 0\<rparr>)"

definition unprojectable :: "string \<Rightarrow> nat \<Rightarrow> artifact_node \<Rightarrow> bool" where
  "unprojectable i n a \<longleftrightarrow> (\<forall>now g. projected_row now (poll_node g i n a) = None)"

definition skip_name :: "string \<Rightarrow> string" where
  "skip_name i = (if i = [] then ''<unknown>'' else i)"

definition accounted :: "projector \<Rightarrow> string \<Rightarrow> nat \<Rightarrow> artifact_node \<Rightarrow> bool" where
  "accounted pj i n a \<longleftrightarrow> (\<exists>r. map_of (pj_rows pj) i = Some r \<and> shown_row i n a r) \<or>
     ((skip_name i, n) \<in> set (pj_skips pj) \<and> unprojectable i n a)"

lemma projected_row_fields:
  "po_props po' = po_props po \<Longrightarrow> projected_row now po = None \<longleftrightarrow> projected_row now' po' = None"
proof -
  assume p: "po_props po' = po_props po"
  have stamps: "int_of_num (py_or v (PInt now)) = None \<longleftrightarrow> int_of_num (py_or v (PInt now')) = None" for v
    by (simp add: py_or_def int_of_num_def)
  show ?thesis using p stamps [of "dget (po_props po) ''created_at''"] stamps [of "dget (po_props po) ''updated_at''"]
    unfolding projected_row_def Let_def
    by (auto split: option.splits)
qed

lemma projected_or_not: "unprojectable i n a \<longleftrightarrow> projected_row now (poll_node g i n a) = None"
proof -
  have "po_props (poll_node g' i n a) = po_props (poll_node g i n a)" for g' by (simp add: poll_node_def)
  from projected_row_fields [OF this] show ?thesis unfolding unprojectable_def by blast
qed

lemma same_view_polled:
  assumes "same_view a a'"
  shows "poll_node g i n a' = poll_node g i n a"
proof -
  from assms have a': "a' = a\<lparr>an_props := an_props a'\<rparr>" and k: "\<forall>k \<in> set projected_keys. dget (an_props a') k = dget (an_props a) k"
    by (simp_all add: same_view_def)
  from k have "pick_keys projected_keys (an_props a') = pick_keys projected_keys (an_props a)" by (simp add: pick_keys_def)
  moreover from a' obtain p where "a' = a\<lparr>an_props := p\<rparr>" by blast
  ultimately show ?thesis by (simp add: poll_node_def)
qed

lemma same_view_accounted: "same_view a a' \<Longrightarrow> accounted pj i n a' = accounted pj i n a"
  by (simp add: accounted_def shown_row_def unprojectable_def same_view_polled)

subsection \<open>What a poll returns\<close>

lemma in_newer: "po \<in> set (unapplied k g) \<longleftrightarrow> (\<exists>i a n. (i, a) \<in> set (ag_nodes g) \<and> an_watermark a = Some n \<and> k < n \<and> po = poll_node g i n a)"
proof -
  have "po \<in> set (List.map_filter f xs) \<longleftrightarrow> (\<exists>x \<in> set xs. f x = Some po)" for f and xs :: "(string \<times> artifact_node) list"
    by (induction xs) (auto simp: map_filter_simps split: option.splits)
  then have "po \<in> set (unapplied k g) \<longleftrightarrow> (\<exists>x \<in> set (ag_nodes g). newer_than k g x = Some po)"
    by (simp add: unapplied_def)
  moreover have "newer_than k g (i, a) = Some po \<longleftrightarrow> (\<exists>n. an_watermark a = Some n \<and> k < n \<and> po = poll_node g i n a)" for i a
    by (auto simp: newer_than_def split: option.splits)
  ultimately show ?thesis by (metis surj_pair)
qed

lemma node_of_in: "store_ok g \<Longrightarrow> (i, a) \<in> set (ag_nodes g) \<longleftrightarrow> node_of i g = Some a"
  by (simp add: store_ok_def node_ids_def node_of_def)

lemma unapplied_iff: "store_ok g \<Longrightarrow> po \<in> set (unapplied k g) \<longleftrightarrow>
    (\<exists>i a n. node_of i g = Some a \<and> an_watermark a = Some n \<and> k < n \<and> po = poll_node g i n a)"
  by (simp add: in_newer node_of_in)

lemma poll_node_simps [simp]: "po_id (poll_node g i n a) = i" "po_watermark (poll_node g i n a) = n"
  by (simp_all add: poll_node_def)

lemma unapplied_sorted:
  assumes "store_ok g"
  shows "sorted_wrt (<) (map po_watermark (unapplied k g))"
proof -
  have d: "distinct (map fst (ag_nodes g))" using assms by (simp add: store_ok_def node_ids_def)
  have "distinct (map po_watermark (List.map_filter (newer_than k g) xs))" if "set xs \<subseteq> set (ag_nodes g)" "distinct (map fst xs)" for xs
    using that
  proof (induction xs)
    case (Cons x xs)
    obtain i a where x: "x = (i, a)" by fastforce
    have "po_watermark po \<noteq> n" if "po \<in> set (List.map_filter (newer_than k g) xs)" "an_watermark a = Some n" for po n
    proof
      assume w: "po_watermark po = n"
      from that(1) obtain j b m where "(j, b) \<in> set xs" "an_watermark b = Some m" "po = poll_node g j m b"
        by (force simp: map_filter_def newer_than_def split: option.splits if_splits)
      moreover from this w Cons.prems(1) x assms that(2) have "j = i"
        using node_of_in [OF assms] unfolding store_ok_def by (metis insert_subset list.simps(15) poll_node_simps(2) subsetD)
      ultimately show False using Cons.prems(2) x by force
    qed
    note others = this
    have ih: "distinct (map po_watermark (List.map_filter (newer_than k g) xs))"
      by (rule Cons.IH) (use Cons.prems in auto)
    show ?case
    proof (cases "newer_than k g x")
      case (Some po)
      then obtain n where n: "an_watermark a = Some n" "po_watermark po = n"
        by (auto simp: newer_than_def x split: option.splits if_splits)
      have "po_watermark po \<notin> po_watermark ` set (List.map_filter (newer_than k g) xs)" 
      proof
        assume "po_watermark po \<in> po_watermark ` set (List.map_filter (newer_than k g) xs)"
        then obtain q where "po_watermark q = n" "q \<in> set (List.map_filter (newer_than k g) xs)" using n(2) by auto
        with others [OF this(2) n(1)] show False by simp
      qed
      with ih Some show ?thesis by (simp add: map_filter_simps)
    qed (use ih in \<open>simp add: map_filter_simps\<close>)
  qed (simp add: map_filter_simps)
  from this [OF subset_refl d] have "distinct (map po_watermark (unapplied k g))"
    unfolding unapplied_def distinct_map by simp
  moreover have "sorted (map po_watermark (unapplied k g))" by (simp add: unapplied_def)
  ultimately show ?thesis by (simp add: strict_sorted_iff)
qed

subsection \<open>The cursor never passes an artifact that is not accounted for\<close>

definition pending_ok :: "artifact_graph \<Rightarrow> nat \<Rightarrow> polled list \<Rightarrow> bool" where
  "pending_ok g c b \<longleftrightarrow> sorted_wrt (<) (map po_watermark b) \<and>
     (\<forall>po \<in> set b. c < po_watermark po \<and> po_watermark po \<le> seq_no g \<and>
        (\<exists>a m. node_of (po_id po) g = Some a \<and> an_watermark a = Some m \<and> po_watermark po \<le> m)) \<and>
     (\<forall>i a n. node_of i g = Some a \<longrightarrow> an_watermark a = Some n \<longrightarrow> c < n \<longrightarrow> b \<noteq> [] \<longrightarrow> n \<le> po_watermark (last b) \<longrightarrow>
        (\<exists>g0. poll_node g0 i n a \<in> set b))"

definition table_ok :: "artifact_graph \<Rightarrow> projector \<Rightarrow> bool" where
  "table_ok g pj \<longleftrightarrow> (\<forall>i a n. node_of i g = Some a \<longrightarrow> an_watermark a = Some n \<longrightarrow> n \<le> pj_cursor pj \<longrightarrow> accounted pj i n a)"

definition mesh_ok :: "mesh \<Rightarrow> bool" where
  "mesh_ok m \<longleftrightarrow> store_ok (me_graph m) \<and> pj_cursor (me_projector m) \<le> seq_no (me_graph m) \<and>
     pending_ok (me_graph m) (pj_cursor (me_projector m)) (me_batch m) \<and> table_ok (me_graph m) (me_projector m)"

lemma same_view_watermark: "same_view a a' \<Longrightarrow> an_watermark a' = an_watermark a"
  by (metis same_view_def artifact_node.select_convs(1) artifact_node.surjective artifact_node.update_convs(2))

lemma store_step_node:
  assumes "store_step g g'" and "store_ok g" and "node_of i g' = Some a'" and "an_watermark a' = Some n" and "n \<le> seq_no g"
  shows "\<exists>a. node_of i g = Some a \<and> an_watermark a = Some n \<and> same_view a a'"
  using assms(1)
proof (cases rule: store_step_cases)
  case quiet
  from kept_watermark [OF quiet(3) assms(3,4)] show ?thesis .
next
  case (wrote i0 a0)
  have "i \<noteq> i0" using wrote(2,3) assms(3-5) by auto
  from kept_watermark [OF wrote(4) [OF this] assms(3,4)] show ?thesis .
qed

lemma kept_forward:
  assumes "kept g g' i" "node_of i g = Some a"
  shows "\<exists>a'. node_of i g' = Some a' \<and> an_watermark a' = an_watermark a"
  using assms by (auto simp: kept_def same_view_watermark split: option.splits)

lemma store_step_forward:
  assumes "store_step g g'" and "store_ok g" and "node_of i g = Some a" and "an_watermark a = Some m"
  shows "\<exists>a' m'. node_of i g' = Some a' \<and> an_watermark a' = Some m' \<and> m \<le> m'"
  using assms(1)
proof (cases rule: store_step_cases)
  case quiet
  from kept_forward [OF quiet(3) assms(3)] assms(4) show ?thesis by auto
next
  case (wrote i0 a0)
  have "m \<le> seq_no g" using assms(2-4) by (simp add: store_ok_def)
  then show ?thesis using kept_forward [OF wrote(4) assms(3)] assms(4) wrote(2,3) by (cases "i = i0") auto
qed

lemma store_keeps_pending:
  assumes s: "store_step g g'" and ok: "store_ok g" and c: "c \<le> seq_no g" and p: "pending_ok g c b"
  shows "pending_ok g' c b"
proof -
  have le: "seq_no g \<le> seq_no g'" using store_step_ok [OF s ok] by simp
  have all: "\<forall>po \<in> set b. c < po_watermark po \<and> po_watermark po \<le> seq_no g' \<and>
      (\<exists>a m. node_of (po_id po) g' = Some a \<and> an_watermark a = Some m \<and> po_watermark po \<le> m)"
  proof
    fix po assume "po \<in> set b"
    with p obtain a m where po: "c < po_watermark po" "po_watermark po \<le> seq_no g" "node_of (po_id po) g = Some a"
      "an_watermark a = Some m" "po_watermark po \<le> m" unfolding pending_ok_def by blast
    from store_step_forward [OF s ok po(3,4)] po le
    show "c < po_watermark po \<and> po_watermark po \<le> seq_no g' \<and>
      (\<exists>a m. node_of (po_id po) g' = Some a \<and> an_watermark a = Some m \<and> po_watermark po \<le> m)" by fastforce
  qed
  have "\<exists>g0. poll_node g0 i n a' \<in> set b"
    if "node_of i g' = Some a'" "an_watermark a' = Some n" "c < n" "b \<noteq> []" "n \<le> po_watermark (last b)" for i a' n
  proof -
    have "po_watermark (last b) \<le> seq_no g" using p that(4) by (simp add: pending_ok_def)
    with store_step_node [OF s ok that(1,2)] that(5) obtain a where a: "node_of i g = Some a" "an_watermark a = Some n" "same_view a a'"
      by auto
    with p that(3-5) obtain g0 where "poll_node g0 i n a \<in> set b" unfolding pending_ok_def by blast
    with same_view_polled [OF a(3)] show ?thesis by metis
  qed
  with all p show ?thesis unfolding pending_ok_def by blast
qed

lemma store_keeps_table:
  assumes s: "store_step g g'" and ok: "store_ok g" and c: "pj_cursor pj \<le> seq_no g" and t: "table_ok g pj"
  shows "table_ok g' pj"
  unfolding table_ok_def
proof (intro allI impI)
  fix i a' n assume a': "node_of i g' = Some a'" "an_watermark a' = Some n" and n: "n \<le> pj_cursor pj"
  from store_step_node [OF s ok a'] n c obtain a where a: "node_of i g = Some a" "an_watermark a = Some n" "same_view a a'" by auto
  with t n have "accounted pj i n a" unfolding table_ok_def by blast
  with same_view_accounted [OF a(3)] show "accounted pj i n a'" by simp
qed

lemma in_taken:
  assumes "sorted_wrt (<) (map (f :: 'a \<Rightarrow> nat) xs)" and "x \<in> set xs" and "take k xs \<noteq> []" and "f x \<le> f (last (take k xs))"
  shows "x \<in> set (take k xs)"
proof (rule ccontr)
  assume n: "x \<notin> set (take k xs)"
  have "sorted_wrt (<) (map f (take k xs) @ map f (drop k xs))" using assms(1) by (metis append_take_drop_id map_append)
  then have "\<forall>y \<in> set (take k xs). \<forall>z \<in> set (drop k xs). f y < f z" by (auto simp: sorted_wrt_append)
  moreover have "x \<in> set (drop k xs)" using assms(2) n by (metis append_take_drop_id Un_iff set_append)
  ultimately show False using assms(3,4) last_in_set by (metis leD)
qed

lemma poll_is_pending:
  assumes ok: "store_ok g"
  shows "pending_ok g c (poll_store limit c g)"
proof -
  have mem: "po \<in> set (poll_store limit c g) \<Longrightarrow> \<exists>i a n. node_of i g = Some a \<and> an_watermark a = Some n \<and> c < n \<and> po = poll_node g i n a" for po
    using unapplied_iff [OF ok, of po c] in_set_takeD [of po limit] by (auto simp: poll_store_def)
  have "sorted_wrt (<) (map po_watermark (poll_store limit c g))"
    using unapplied_sorted [OF ok, of c] by (simp add: poll_store_def sorted_wrt_take flip: take_map)
  moreover have "\<forall>po \<in> set (poll_store limit c g). c < po_watermark po \<and> po_watermark po \<le> seq_no g \<and>
        (\<exists>a m. node_of (po_id po) g = Some a \<and> an_watermark a = Some m \<and> po_watermark po \<le> m)"
    using mem ok by (fastforce simp: store_ok_def)
  moreover have "poll_node g i n a \<in> set (poll_store limit c g)"
    if "node_of i g = Some a" "an_watermark a = Some n" "c < n" "poll_store limit c g \<noteq> []" "n \<le> po_watermark (last (poll_store limit c g))" for i a n
  proof -
    have "poll_node g i n a \<in> set (unapplied c g)" using that unapplied_iff [OF ok] by blast
    with in_taken [OF unapplied_sorted [OF ok, of c] this, of limit] that(4,5) show ?thesis by (simp add: poll_store_def)
  qed
  ultimately show ?thesis unfolding pending_ok_def by blast
qed

lemma all_up_row:
  assumes "all_up w"
  shows "apply_row w po pj = (case projected_row (we_now w) po of
     Some r \<Rightarrow> (True, move_cursor (we_now w) (po_watermark po) (pj\<lparr>pj_rows := upsert (po_id po) r (pj_rows pj)\<rparr>))
   | None \<Rightarrow> (False, move_cursor (we_now w) (po_watermark po) (record_skip (po_id po) (po_watermark po) pj)))"
  using assms by (simp add: apply_row_def apply_one_def pass_over_def all_up_def split: option.splits)

lemma move_cursor_simps [simp]: "pj_rows (move_cursor t w pj) = pj_rows pj" "pj_skips (move_cursor t w pj) = pj_skips pj"
  "pj_cursor (move_cursor t w pj) = max (pj_cursor pj) w"
  by (simp_all add: move_cursor_def)

lemma record_skip_simps [simp]: "pj_rows (record_skip i n pj) = pj_rows pj" "pj_cursor (record_skip i n pj) = pj_cursor pj"
  "pj_skips (record_skip i n pj) = pj_skips pj @ [(skip_name i, n)]"
  by (simp_all add: record_skip_def skip_name_def)

lemma row_result:
  assumes "all_up w" and "apply_row w po pj = (done_it, pj')"
  shows "pj_cursor pj' = max (pj_cursor pj) (po_watermark po) \<and> set (pj_skips pj) \<subseteq> set (pj_skips pj') \<and>
    (\<forall>i. i \<noteq> po_id po \<longrightarrow> map_of (pj_rows pj') i = map_of (pj_rows pj) i)"
  using assms by (auto simp: all_up_row upsert_def update_conv' split: option.splits)

lemma row_accounts:
  assumes "all_up w" and "apply_row w (poll_node g0 i n a) pj = (done_it, pj')"
  shows "accounted pj' i n a"
proof (cases "projected_row (we_now w) (poll_node g0 i n a)")
  case None
  with assms projected_or_not [of i n a "we_now w" g0] show ?thesis by (auto simp: all_up_row accounted_def)
next
  case (Some r)
  with assms have "\<exists>c. map_of (pj_rows pj') i = Some (r\<lparr>pr_created := c\<rparr>)"
    by (cases "map_of (pj_rows pj) i") (auto simp: all_up_row upsert_def update_conv' intro: exI [of _ "pr_created r"])
  then obtain c where c: "map_of (pj_rows pj') i = Some (r\<lparr>pr_created := c\<rparr>)" by blast
  have "shown_row i n a (r\<lparr>pr_created := c\<rparr>)" unfolding shown_row_def using Some by force
  with c show ?thesis unfolding accounted_def by blast
qed

lemma accounted_mono:
  assumes "accounted pj i n a" and "map_of (pj_rows pj') i = map_of (pj_rows pj) i" and "set (pj_skips pj) \<subseteq> set (pj_skips pj')"
  shows "accounted pj' i n a"
  using assms unfolding accounted_def by auto

lemma row_keeps:
  assumes up: "all_up w" and row: "apply_row w po pj = (done_it, pj')" and p: "pending_ok g (pj_cursor pj) (po # b)" and t: "table_ok g pj"
  shows "pending_ok g (pj_cursor pj') b \<and> table_ok g pj'"
proof -
  note res = row_result [OF up row]
  have head: "pj_cursor pj < po_watermark po" and tail: "\<forall>q \<in> set b. po_watermark po < po_watermark q"
    and sorted: "sorted_wrt (<) (map po_watermark b)"
    and each: "\<forall>q \<in> set (po # b). pj_cursor pj < po_watermark q \<and> po_watermark q \<le> seq_no g \<and>
        (\<exists>a m. node_of (po_id q) g = Some a \<and> an_watermark a = Some m \<and> po_watermark q \<le> m)"
    and found: "\<And>i a n. node_of i g = Some a \<Longrightarrow> an_watermark a = Some n \<Longrightarrow> pj_cursor pj < n \<Longrightarrow>
       n \<le> po_watermark (last (po # b)) \<Longrightarrow> \<exists>g0. poll_node g0 i n a \<in> set (po # b)"
    using p unfolding pending_ok_def by auto
  from res head have c: "pj_cursor pj' = po_watermark po" by simp
  have "\<exists>g0. poll_node g0 i n a \<in> set b"
    if "node_of i g = Some a" "an_watermark a = Some n" "po_watermark po < n" "b \<noteq> []" "n \<le> po_watermark (last b)" for i a n
  proof -
    from found [OF that(1,2)] that(3-5) head obtain g0 where "poll_node g0 i n a \<in> set (po # b)" by auto
    with that(3) show ?thesis by auto
  qed
  with sorted tail each c have p': "pending_ok g (pj_cursor pj') b" unfolding pending_ok_def by auto
  have "accounted pj' i n a" if a: "node_of i g = Some a" "an_watermark a = Some n" and n: "n \<le> po_watermark po" for i a n
  proof (cases "n \<le> pj_cursor pj")
    case True
    have "po_id po \<noteq> i"
    proof
      assume "po_id po = i"
      with each a have "po_watermark po \<le> n" by auto
      with True head show False by simp
    qed
    then have "map_of (pj_rows pj') i = map_of (pj_rows pj) i" "set (pj_skips pj) \<subseteq> set (pj_skips pj')" using res by auto
    moreover have "accounted pj i n a" using t a True unfolding table_ok_def by blast
    ultimately show ?thesis using accounted_mono by blast
  next
    case False
    have "po_watermark po \<le> po_watermark (last (po # b))" using tail by (cases "b = []") (auto simp: less_imp_le)
    with found [OF a] False n obtain g0 where "poll_node g0 i n a \<in> set (po # b)" by auto
    with tail n have "po = poll_node g0 i n a" by auto
    with row_accounts [OF up] row show ?thesis by blast
  qed
  then have "table_ok g pj'" unfolding table_ok_def c by blast
  with p' show ?thesis by blast
qed

lemma mesh_step_ok:
  assumes "mesh_step limit m m'" and "mesh_ok m"
  shows "mesh_ok m'"
  using assms(1)
proof (cases rule: mesh_step.cases)
  case (mesh_store g g' pj b)
  with assms(2) have "store_ok g" "pj_cursor pj \<le> seq_no g" "pending_ok g (pj_cursor pj) b" "table_ok g pj" by (simp_all add: mesh_ok_def)
  with store_step_ok [OF mesh_store(3)] store_keeps_pending [OF mesh_store(3)] store_keeps_table [OF mesh_store(3)] mesh_store(2)
  show ?thesis by (auto simp: mesh_ok_def)
next
  case (mesh_poll g pj)
  with assms(2) poll_is_pending [of g "pj_cursor pj" limit] show ?thesis
    by (simp add: mesh_ok_def resync_def table_ok_def accounted_def)
next
  case (mesh_row w po pj done_it pj' g b)
  with assms(2) have ok: "store_ok g" "pj_cursor pj \<le> seq_no g" "pending_ok g (pj_cursor pj) (po # b)" "table_ok g pj"
    by (simp_all add: mesh_ok_def)
  from row_keeps [OF mesh_row(3,4) ok(3,4)] row_result [OF mesh_row(3,4)] ok mesh_row(2) show ?thesis
    by (simp add: mesh_ok_def pending_ok_def)
next
  case (mesh_rewind n pj g)
  with assms(2) show ?thesis by (auto simp: mesh_ok_def pending_ok_def table_ok_def accounted_def)
next
  case (mesh_reset g pj)
  with assms(2) show ?thesis by (auto simp: mesh_ok_def pending_ok_def table_ok_def fresh_projector_def store_ok_def)
qed

lemma mesh_reachable_ok: "mesh_reachable limit m \<Longrightarrow> mesh_ok m"
proof (induction rule: mesh_reachable.induct)
  case (mesh_begin g)
  have ok: "store_ok g" using mesh_begin by (induction rule: store_reachable.induct) (auto simp: empty_graph_ok dest: store_step_ok)
  then show ?case by (auto simp: mesh_ok_def pending_ok_def table_ok_def fresh_projector_def store_ok_def)
next
  case (mesh_more m m')
  then show ?case using mesh_step_ok by blast
qed

text \<open>
  C35. However writes, archives and stamps interleave with polls, rows, operator rewinds and resets between
  batches, an artifact the cursor has reached is accounted for while Postgres answers: the table holds the
  row that projecting it gives, under its own watermark, or, where it cannot be projected at all, the log
  of skips names it.
\<close>

theorem cursor_never_passes_an_unwritten_row:
  assumes "mesh_reachable limit m" and "node_of i (me_graph m) = Some a" and "an_watermark a = Some n"
    and "n \<le> pj_cursor (me_projector m)"
  shows "accounted (me_projector m) i n a"
  using mesh_reachable_ok [OF assms(1)] assms(2-4) unfolding mesh_ok_def table_ok_def by blast

subsection \<open>Batches\<close>

lemma apply_rows_steps:
  assumes "\<And>k. all_up (ws k)"
  shows "(mesh_step limit)\<^sup>*\<^sup>* \<lparr>me_graph = g, me_projector = snd s, me_batch = pos\<rparr>
     \<lparr>me_graph = g, me_projector = snd (apply_rows ws k pos s), me_batch = []\<rparr>"
proof (induction pos arbitrary: k s)
  case (Cons po pos)
  obtain d pj where r: "apply_row (ws k) po (snd s) = (d, pj)" by fastforce
  let ?s = "(if d then Suc (fst s) else fst s, pj)"
  have "(mesh_step limit)\<^sup>*\<^sup>* \<lparr>me_graph = g, me_projector = pj, me_batch = pos\<rparr>
     \<lparr>me_graph = g, me_projector = snd (apply_rows ws (Suc k) pos ?s), me_batch = []\<rparr>"
    using Cons.IH [of ?s "Suc k"] by simp
  from converse_rtranclp_into_rtranclp [OF mesh_row [OF assms r] this] r show ?case by simp
qed simp

lemma apply_once_steps:
  assumes "\<And>k. all_up (ws k)"
  shows "(mesh_step limit)\<^sup>*\<^sup>* \<lparr>me_graph = g, me_projector = pj, me_batch = []\<rparr>
     \<lparr>me_graph = g, me_projector = snd (apply_once limit True True ws g pj), me_batch = []\<rparr>"
proof -
  let ?b = "poll_store limit (pj_mirror (resync pj)) g"
  have "(mesh_step limit)\<^sup>*\<^sup>* \<lparr>me_graph = g, me_projector = resync pj, me_batch = ?b\<rparr>
     \<lparr>me_graph = g, me_projector = snd (apply_rows ws 0 ?b (0, resync pj)), me_batch = []\<rparr>"
    using apply_rows_steps [where s = "(0, resync pj)" and k = 0 and pos = ?b and ws = ws, OF assms] by simp
  from converse_rtranclp_into_rtranclp [OF mesh_poll this] show ?thesis
    by (simp add: apply_once_def Let_def map_prod_def case_prod_unfold)
qed

lemma apply_rows_cursor:
  assumes "\<And>k. all_up (ws k)" and "sorted_wrt (<) (map po_watermark pos)" and "\<forall>po \<in> set pos. pj_cursor (snd s) < po_watermark po"
  shows "pj_cursor (snd (apply_rows ws k pos s)) = (if pos = [] then pj_cursor (snd s) else po_watermark (last pos))"
  using assms(2,3)
proof (induction pos arbitrary: k s)
  case (Cons po pos)
  obtain d pj where r: "apply_row (ws k) po (snd s) = (d, pj)" by fastforce
  from row_result [OF assms(1) r] Cons.prems have c: "pj_cursor pj = po_watermark po" by simp
  from Cons.IH [of "(if d then Suc (fst s) else fst s, pj)" "Suc k"] Cons.prems c r show ?case by simp
qed simp

lemma apply_once_cursor:
  assumes "\<And>k. all_up (ws k)" and "store_ok g"
  shows "pj_cursor (snd (apply_once limit True True ws g pj)) =
     (if poll_store limit (pj_cursor pj) g = [] then pj_cursor pj else po_watermark (last (poll_store limit (pj_cursor pj) g)))"
proof -
  have "pending_ok g (pj_cursor pj) (poll_store limit (pj_cursor pj) g)" by (rule poll_is_pending [OF assms(2)])
  then have "sorted_wrt (<) (map po_watermark (poll_store limit (pj_cursor pj) g))"
    "\<forall>po \<in> set (poll_store limit (pj_cursor pj) g). pj_cursor (resync pj) < po_watermark po"
    by (simp_all add: pending_ok_def resync_def)
  from apply_rows_cursor [where s = "(0, resync pj)" and k = 0 and ws = ws, OF assms(1)] this show ?thesis
    by (simp add: apply_once_def Let_def resync_def map_prod_def case_prod_unfold)
qed

lemma fewer_unapplied:
  assumes "store_ok g" and "poll_store limit c g \<noteq> []"
  shows "length (unapplied (po_watermark (last (poll_store limit c g))) g) \<le> length (unapplied c g) - limit"
proof -
  let ?xs = "unapplied c g" let ?w = "po_watermark (last (poll_store limit c g))"
  have sorted: "sorted_wrt (<) (map po_watermark ?xs)" by (rule unapplied_sorted [OF assms(1)])
  have "set (unapplied ?w g) \<subseteq> set (drop limit ?xs)"
  proof
    fix po assume po: "po \<in> set (unapplied ?w g)"
    then obtain i a n where a: "node_of i g = Some a" "an_watermark a = Some n" "?w < n" "po = poll_node g i n a"
      using unapplied_iff [OF assms(1)] by blast
    have "last (poll_store limit c g) \<in> set ?xs" using assms(2) last_in_set in_set_takeD unfolding poll_store_def by metis
    then have "c < ?w" using unapplied_iff [OF assms(1)] by force
    with a have "po \<in> set ?xs" using unapplied_iff [OF assms(1)] by (metis order_less_trans)
    moreover have "po \<notin> set (take limit ?xs)"
    proof
      assume "po \<in> set (take limit ?xs)"
      moreover have "sorted_wrt (<) (map po_watermark (take limit ?xs))" using sorted by (simp add: sorted_wrt_take flip: take_map)
      ultimately have "po_watermark po \<le> po_watermark (last (take limit ?xs))"
        by (cases "take limit ?xs" rule: rev_cases) (auto simp: sorted_wrt_append less_imp_le)
      with a(3,4) show False by (simp add: poll_store_def)
    qed
    ultimately show "po \<in> set (drop limit ?xs)" by (metis append_take_drop_id Un_iff set_append)
  qed
  from card_mono [OF _ this] have "card (set (unapplied ?w g)) \<le> length ?xs - limit"
    using card_length [of "drop limit ?xs"] by simp
  moreover have "distinct (unapplied ?w g)"
    using unapplied_sorted [OF assms(1), of ?w] by (metis distinct_map strict_sorted_iff)
  ultimately show ?thesis by (simp add: distinct_card)
qed

primrec run_batches :: "nat \<Rightarrow> (nat \<Rightarrow> nat \<Rightarrow> weather) \<Rightarrow> nat \<Rightarrow> artifact_graph \<Rightarrow> projector \<Rightarrow> projector" where
  "run_batches limit ws 0 g pj = pj"
| "run_batches limit ws (Suc k) g pj = run_batches limit ws k g (snd (apply_once limit True True (ws k) g pj))"

lemma mesh_reachable_steps: "(mesh_step limit)\<^sup>*\<^sup>* m m' \<Longrightarrow> mesh_reachable limit m \<Longrightarrow> mesh_reachable limit m'"
  by (induction rule: rtranclp_induct) (auto intro: mesh_more)

lemma batches_drain:
  assumes "\<And>k j. all_up (ws k j)"
  shows "mesh_reachable limit \<lparr>me_graph = g, me_projector = pj, me_batch = []\<rparr> \<Longrightarrow> length (unapplied (pj_cursor pj) g) \<le> k * limit \<Longrightarrow>
    mesh_reachable limit \<lparr>me_graph = g, me_projector = run_batches limit ws k g pj, me_batch = []\<rparr> \<and>
    unapplied (pj_cursor (run_batches limit ws k g pj)) g = []"
proof (induction k arbitrary: pj)
  case (Suc k)
  let ?pj = "snd (apply_once limit True True (ws k) g pj)"
  have ok: "store_ok g" using mesh_reachable_ok [OF Suc.prems(1)] by (simp add: mesh_ok_def)
  have r: "mesh_reachable limit \<lparr>me_graph = g, me_projector = ?pj, me_batch = []\<rparr>"
    using mesh_reachable_steps [OF apply_once_steps [OF assms] Suc.prems(1)] .
  have "length (unapplied (pj_cursor ?pj) g) \<le> k * limit"
  proof (cases "poll_store limit (pj_cursor pj) g = []")
    case True
    then have "unapplied (pj_cursor pj) g = [] \<or> limit = 0" by (auto simp: poll_store_def)
    then show ?thesis using apply_once_cursor [where limit = limit and pj = pj and ws = "ws k", OF assms ok] True Suc.prems(2) by auto
  next
    case False
    then show ?thesis using fewer_unapplied [OF ok False] apply_once_cursor [where limit = limit and pj = pj and ws = "ws k", OF assms ok] Suc.prems(2) by simp
  qed
  from Suc.IH [OF r this] show ?case by simp
qed simp

text \<open>
  C36. Once nothing more is written and Postgres answers, the projector catches up: as many batches as the
  waiting artifacts need leave every artifact with a watermark accounted for.
\<close>

theorem a_quiet_store_is_projected:
  assumes "mesh_reachable limit \<lparr>me_graph = g, me_projector = pj, me_batch = []\<rparr>" and "\<forall>k j. all_up (ws k j)"
    and "length (unapplied (pj_cursor pj) g) \<le> k * limit"
    and "node_of i g = Some a" and "an_watermark a = Some n"
  shows "accounted (run_batches limit ws k g pj) i n a"
proof -
  have up: "\<And>k j. all_up (ws k j)" using assms(2) by blast
  from batches_drain [of ws, OF up assms(1,3)] have ok: "mesh_ok \<lparr>me_graph = g, me_projector = run_batches limit ws k g pj, me_batch = []\<rparr>"
    and done_all: "unapplied (pj_cursor (run_batches limit ws k g pj)) g = []" using mesh_reachable_ok by blast+
  from ok have "store_ok g" by (simp add: mesh_ok_def)
  with done_all assms(4,5) have "n \<le> pj_cursor (run_batches limit ws k g pj)"
    using unapplied_iff [of g "poll_node g i n a" "pj_cursor (run_batches limit ws k g pj)"] by fastforce
  with ok assms(4,5) show ?thesis by (auto simp: mesh_ok_def table_ok_def)
qed

subsection \<open>Witnesses\<close>

definition fair :: weather where
  "fair = \<lparr>we_apply = True, we_skip = True, we_advance = True, we_now = 6\<rparr>"

definition down :: weather where
  "down = \<lparr>we_apply = False, we_skip = False, we_advance = False, we_now = 6\<rparr>"

lemma fair_up: "all_up fair" by (simp add: all_up_def fair_def)

definition table_after :: projector where
  "table_after = run_batches 100 (\<lambda>k j. fair) 1 two_answers fresh_projector"

lemma two_unapplied: "map po_id (unapplied 0 two_answers) = [''a'', ''b'']"
  by code_simp

lemma two_unapplied_length: "length (unapplied 0 two_answers) = 2"
  using arg_cong [OF two_unapplied, of length] by simp

lemma table_after_cursor: "pj_cursor table_after = 2"
  by code_simp

lemma two_answers_begin: "mesh_reachable 100 \<lparr>me_graph = two_answers, me_projector = fresh_projector, me_batch = []\<rparr>"
  by (rule mesh_begin [OF two_answers_reachable])

lemma table_after_reachable: "mesh_reachable 100 \<lparr>me_graph = two_answers, me_projector = table_after, me_batch = []\<rparr>"
  using batches_drain [where ws = "\<lambda>k j. fair" and k = 1, OF fair_up two_answers_begin] two_unapplied_length
  by (simp add: table_after_def fresh_projector_def)

lemma answer_a: "\<exists>a. node_of ''a'' two_answers = Some a \<and> an_watermark a = Some 1"
proof -
  have "(case node_of ''a'' two_answers of Some a \<Rightarrow> an_watermark a = Some 1 | None \<Rightarrow> False)" by code_simp
  then show ?thesis by (auto split: option.splits)
qed

lemma cursor_never_passes_an_unwritten_row_witness:
  "\<exists>a. node_of ''a'' two_answers = Some a \<and> accounted table_after ''a'' 1 a"
proof -
  obtain a where a: "node_of ''a'' two_answers = Some a" "an_watermark a = Some 1" using answer_a by blast
  from cursor_never_passes_an_unwritten_row [OF table_after_reachable, of "''a''" a 1] a table_after_cursor show ?thesis by simp
qed

lemma a_quiet_store_is_projected_witness:
  "\<exists>a. node_of ''a'' two_answers = Some a \<and> accounted (run_batches 1 (\<lambda>k j. fair) 2 two_answers fresh_projector) ''a'' 1 a"
proof -
  obtain a where a: "node_of ''a'' two_answers = Some a" "an_watermark a = Some 1" using answer_a by blast
  have "accounted (run_batches 1 (\<lambda>k j. fair) 2 two_answers fresh_projector) ''a'' 1 a"
    by (rule a_quiet_store_is_projected [OF mesh_begin [OF two_answers_reachable] _ _ a])
      (simp_all add: fair_up two_unapplied_length fresh_projector_def)
  with a(1) show ?thesis by blast
qed

subsection \<open>Where an artifact is lost\<close>

text \<open>
  Postgres is away for one row and back for the next: the transaction of the first fails, so do its note in
  the log of skips and the move past it; the second row's own move of the cursor passes both. The first is
  neither in the table nor in the log.
\<close>

lemma flapping_postgres_loses_an_answer:
  "let pj = snd (apply_once 100 True True (\<lambda>k. if k = 0 then down else fair) two_answers fresh_projector) in
   pj_cursor pj = 2 \<and> map fst (pj_rows pj) = [''b''] \<and> pj_skips pj = []"
  by code_simp

text \<open>
  The table and the cursor are reset while a batch is in flight: the row that follows moves the cursor to
  its own watermark, past the answers before it, and no later batch reads them.
\<close>

lemma reset_in_flight_loses_an_answer:
  "let pos = poll_store 100 0 two_answers; pj = snd (apply_row fair (hd (tl pos)) fresh_projector) in
   pj_cursor pj = 2 \<and> map fst (pj_rows pj) = [''b''] \<and> pj_skips pj = [] \<and> poll_store 100 (pj_cursor pj) two_answers = []"
  by code_simp

text \<open>
  Where an entitlement was read from is kept on the node of the person, which their answers share: the
  answer written under a claim is shown with the source of the one that followed.
\<close>

lemma later_answer_overwrites_the_captured_source:
  "map_option (\<lambda>r. dget (pr_for r) ''entitlement_source'') (map_of (pj_rows table_after) ''a'') = Some (PStr ''fallback'')"
  by code_simp

text \<open>An end of validity on the node stays there: the poll does not read it.\<close>

lemma pick_keys_other: "k \<notin> set ks \<Longrightarrow> dget (pick_keys ks d) k = PNone"
  by (induction ks) (simp_all add: pick_keys_def dget_def)

lemma valid_until_is_never_projected:
  assumes "projected_row now (poll_node g i n a) = Some r"
  shows "pr_valid_until r = PNone"
proof -
  have "pr_valid_until r = dget (po_props po) ''valid_until''" if "projected_row now po = Some r" for po
    using that unfolding projected_row_def Let_def by (auto split: option.splits if_splits)
  from this [OF assms] pick_keys_other [of "''valid_until''" projected_keys] show ?thesis
    by (simp add: poll_node_def projected_keys_def)
qed

end
