(* ===== verification/Case_View.thy ===== *)
theory Case_View
  imports Case_Runner Human_Tasks Workflow_Definition
begin

text \<open>
  What a reader is shown of a case: \<^verbatim>\<open>src/iagent/case_projection.py\<close>, the projection of the record the
  runner keeps, the definitions its instances ran and the rows of the task queue, with the question who
  may read it.

  The record is the one of \<open>Case_Runner\<close>, the rows are those of \<open>Human_Tasks\<close>. How a moment in
  milliseconds is written as text is an argument.
\<close>

subsection \<open>Who may read\<close>

definition instance1_facts :: "pyval \<Rightarrow> pydict option" where
  "instance1_facts spec = (if \<not> truthy spec then None
     else case dget (dict_or_nil spec) ''trigger'' of PDict d \<Rightarrow> Some d | _ \<Rightarrow> None)"

definition submitter_authz_id :: "pyval \<Rightarrow> string option" where
  "submitter_authz_id spec = (case instance1_facts spec of
     None \<Rightarrow> None
   | Some facts \<Rightarrow> (case dget facts ''dropped_by'' of
       PDict d \<Rightarrow> (case dget d ''authz_id'' of PStr s \<Rightarrow> if s = [] then None else Some s | _ \<Rightarrow> None)
     | _ \<Rightarrow> None))"

type_synonym definitions = "string \<Rightarrow> workflow_definition option"

definition domain_label :: "pyval \<Rightarrow> string list" where
  "domain_label spec = (case instance1_facts spec of
     None \<Rightarrow> []
   | Some facts \<Rightarrow> (case dget facts ''domain_type'' of PStr s \<Rightarrow> if s = [] then [] else [s] | _ \<Rightarrow> []))"

definition class_label :: "definitions \<Rightarrow> nat \<times> string \<times> string \<Rightarrow> string option" where
  "class_label defs inst = (case defs (snd (snd inst)) of
     None \<Rightarrow> None
   | Some d \<Rightarrow> (case wd_classification d of Some c \<Rightarrow> if c = [] then None else Some c | None \<Rightarrow> None))"

definition case_labels :: "case_record \<Rightarrow> pyval \<Rightarrow> definitions \<Rightarrow> string list" where
  "case_labels c spec defs =
     sort (remdups (domain_label spec @ List.map_filter (class_label defs) (c_instances c)))"

definition can_view_case :: "case_record \<Rightarrow> pyval \<Rightarrow> definitions \<Rightarrow> string \<Rightarrow> string list \<Rightarrow> bool" where
  "can_view_case c spec defs who domains =
     (if submitter_authz_id spec = Some who then True
      else let labels = case_labels c spec defs in
        if labels = [] then False
        else let held = map py_casefold domains in list_all (\<lambda>l. py_casefold l \<in> set held) labels)"

subsection \<open>Definitions\<close>

definition rendered :: "string option \<Rightarrow> string option" where
  "rendered raw = (case raw of Some s \<Rightarrow> if CHR ''{'' \<in> set s then None else Some s | None \<Rightarrow> None)"

definition step_kind :: "step_body \<Rightarrow> string" where
  "step_kind b = (case b of
     HumanAwait _ \<Rightarrow> ''human_await'' | SpoOperation _ _ _ \<Rightarrow> ''spo_operation'' | DirectCall _ _ _ _ \<Rightarrow> ''direct_call''
   | DispatchFanout _ \<Rightarrow> ''dispatch_fanout'' | Render _ \<Rightarrow> ''render'' | SignalAwait _ \<Rightarrow> ''signal_await''
   | Wait _ \<Rightarrow> ''wait'' | Emit _ _ _ \<Rightarrow> ''emit'')"

definition step_title :: "step_body \<Rightarrow> string option" where
  "step_title b = (case b of HumanAwait h \<Rightarrow> ha_title h | _ \<Rightarrow> None)"

definition step_audience :: "step_body \<Rightarrow> string option" where
  "step_audience b = (case b of HumanAwait h \<Rightarrow> Some (ha_audience h) | SignalAwait s \<Rightarrow> Some (sa_audience s) | _ \<Rightarrow> None)"

definition await_key :: "string \<Rightarrow> string \<Rightarrow> string" where
  "await_key workflow_id step_id = workflow_id @ '':'' @ step_id"

record step_view =
  sv_id :: string
  sv_kind :: string
  sv_title :: "string option"
  sv_audience :: "string option"

definition step_payload :: "wf_step \<Rightarrow> string \<Rightarrow> (string \<times> string) list \<Rightarrow> step_view" where
  "step_payload s wid titles =
     \<lparr>sv_id = ws_id s, sv_kind = step_kind (ws_body s),
      sv_title = (case map_of titles (await_key wid (ws_id s)) of
          Some t \<Rightarrow> if t = [] then rendered (step_title (ws_body s)) else Some t
        | None \<Rightarrow> rendered (step_title (ws_body s))),
      sv_audience = rendered (step_audience (ws_body s))\<rparr>"

record definition_view =
  dv_id :: string
  dv_name :: string
  dv_participants :: "pyval list"
  dv_stages :: "string list"
  dv_steps :: "step_view list"

definition definition_payload :: "workflow_definition \<Rightarrow> string \<Rightarrow> (string \<times> string) list \<Rightarrow> definition_view" where
  "definition_payload d wid titles =
     \<lparr>dv_id = wd_id d, dv_name = wd_name d, dv_participants = map (\<lambda>p. dget p ''role'') (wd_participants d),
      dv_stages = wd_stages d, dv_steps = map (\<lambda>s. step_payload s wid titles) (wd_steps d)\<rparr>"

subsection \<open>Instances\<close>

datatype instance_status = Completed | FailedNow | RunningNow

definition instance_status_at :: "case_record \<Rightarrow> nat \<Rightarrow> nat \<Rightarrow> instance_status" where
  "instance_status_at c index size_of =
     (if index + 1 < size_of then Completed
      else if c_state c = Some ''failed'' then FailedNow
      else if c_terminal c \<noteq> None \<and> c_terminal c \<noteq> Some [] then Completed
      else RunningNow)"

definition is_human_await :: "wf_step \<Rightarrow> bool" where
  "is_human_await s = (case ws_body s of HumanAwait _ \<Rightarrow> True | _ \<Rightarrow> False)"

fun begun_from :: "string \<Rightarrow> string list \<Rightarrow> nat \<Rightarrow> string option \<Rightarrow> wf_step list \<Rightarrow> string option" where
  "begun_from wid ids i stage [] = stage"
| "begun_from wid ids i stage (s # ss) =
     (if is_human_await s \<and> 0 < i \<and> await_key wid (ws_id s) \<notin> set ids then stage
      else begun_from wid ids (Suc i)
        (case ws_stage s of Some st \<Rightarrow> if st = [] then stage else Some st | None \<Rightarrow> stage) ss)"

definition begun_stage :: "workflow_definition \<Rightarrow> string \<Rightarrow> string list \<Rightarrow> string option" where
  "begun_stage d wid ids = begun_from wid ids 0 None (wd_steps d)"

definition current_stage :: "workflow_definition \<Rightarrow> instance_status \<Rightarrow> string \<Rightarrow> string list \<Rightarrow> string option" where
  "current_stage d st wid ids =
     (if length (wd_stages d) = 1 then Some (hd (wd_stages d))
      else if st = Completed then (if wd_stages d = [] then None else Some (List.last (wd_stages d)))
      else begun_stage d wid ids)"

record instance_view =
  iv_workflow :: string
  iv_definition :: definition_view
  iv_stage :: "string option"
  iv_status :: instance_status

definition row_ids :: "task_row list \<Rightarrow> string list" where
  "row_ids rows = filter (\<lambda>t. t \<noteq> []) (map tr_task rows)"

text \<open>A dictionary comprehension: of several rows of a task the last one stands.\<close>

definition row_titles :: "task_row list \<Rightarrow> (string \<times> string) list" where
  "row_titles rows = rev (map (\<lambda>r. (tr_task r, tr_title r)) (filter (\<lambda>r. tr_task r \<noteq> [] \<and> tr_title r \<noteq> []) rows))"

definition instance_view_at ::
    "case_record \<Rightarrow> definitions \<Rightarrow> task_row list \<Rightarrow> nat \<times> nat \<times> string \<times> string \<Rightarrow> instance_view option" where
  "instance_view_at c defs rows p = (case p of (i, n, wid, did) \<Rightarrow>
     map_option (\<lambda>d. let st = instance_status_at c i (length (c_instances c)) in
       \<lparr>iv_workflow = wid, iv_definition = definition_payload d wid (row_titles rows),
        iv_stage = current_stage d st wid (row_ids rows), iv_status = st\<rparr>) (defs did))"

definition project_instances :: "case_record \<Rightarrow> definitions \<Rightarrow> task_row list \<Rightarrow> instance_view list" where
  "project_instances c defs rows =
     List.map_filter (instance_view_at c defs rows) (zip [0..<length (c_instances c)] (c_instances c))"

subsection \<open>Options and the released artifact\<close>

definition row_options :: "task_row \<Rightarrow> pyval list option" where
  "row_options r = (case dget (tr_payload r) ''options'' of PList os \<Rightarrow> Some os | _ \<Rightarrow> None)"

definition offers_options :: "string \<Rightarrow> task_row \<Rightarrow> bool" where
  "offers_options wid r \<longleftrightarrow> tr_workflow r = Some wid \<and> row_options r \<noteq> None"

fun first_offering :: "task_row list \<Rightarrow> (nat \<times> string \<times> string) list \<Rightarrow> task_row option" where
  "first_offering rows [] = None"
| "first_offering rows ((n, wid, did) # is) =
     (if wid = [] then first_offering rows is
      else case find (offers_options wid) rows of Some r \<Rightarrow> Some r | None \<Rightarrow> first_offering rows is)"

definition options_row :: "case_record \<Rightarrow> task_row list \<Rightarrow> task_row option" where
  "options_row c rows = first_offering rows (rev (c_instances c))"

record option_view =
  ov_id :: string
  ov_label :: pyval
  ov_data :: pydict

definition option_payload :: "pyval \<Rightarrow> option_view option" where
  "option_payload v = (case v of
     PDict d \<Rightarrow> (case dget d ''verb'' of
       PStr verb \<Rightarrow> Some \<lparr>ov_id = verb,
         ov_label = (if truthy (dget d ''label'') then dget d ''label'' else PStr verb),
         ov_data = filter (\<lambda>kv. fst kv \<noteq> ''verb'' \<and> fst kv \<noteq> ''label'') d\<rparr>
     | _ \<Rightarrow> None)
   | _ \<Rightarrow> None)"

definition project_options :: "case_record \<Rightarrow> task_row list \<Rightarrow> option_view list option" where
  "project_options c rows =
     map_option (\<lambda>r. List.map_filter option_payload (case row_options r of Some os \<Rightarrow> os | None \<Rightarrow> [])) (options_row c rows)"

definition project_options_declaration :: "case_record \<Rightarrow> task_row list \<Rightarrow> (pyval \<times> pyval) option" where
  "project_options_declaration c rows = (case options_row c rows of
     None \<Rightarrow> None
   | Some r \<Rightarrow> (case dget (tr_payload r) ''declaration'' of
       PDict d \<Rightarrow> Some (dget d ''id'', dget d ''version'') | _ \<Rightarrow> None))"

definition has_emit_step :: "case_record \<Rightarrow> definitions \<Rightarrow> bool" where
  "has_emit_step c defs = list_ex (\<lambda>(n, wid, did). case defs did of
     Some d \<Rightarrow> list_ex (\<lambda>s. step_kind (ws_body s) = ''emit'') (wd_steps d) | None \<Rightarrow> False) (c_instances c)"

record action_record =
  ar_id :: string
  ar_seeded_by :: "string option"
  ar_valid :: int
  ar_record :: pydict

record release_view =
  rl_uri :: string
  rl_artifact :: string
  rl_label :: pyval
  rl_released_at :: string

text \<open>Python's \<open>max\<close> with a key: the first of the largest.\<close>

definition newest :: "action_record list \<Rightarrow> action_record option" where
  "newest rs = (case rs of [] \<Rightarrow> None | r # rest \<Rightarrow> Some (foldl (\<lambda>b c. if ar_valid b < ar_valid c then c else b) r rest))"

definition release_artifact :: "(int \<Rightarrow> string) \<Rightarrow> string \<Rightarrow> action_record list \<Rightarrow> release_view option" where
  "release_artifact iso_of case_id records =
     map_option (\<lambda>r. \<lparr>rl_uri = ''/cases/'' @ case_id @ ''/action'', rl_artifact = ar_id r,
       rl_label = dget (ar_record r) ''label'', rl_released_at = iso_of (ar_valid r)\<rparr>)
     (newest (filter (\<lambda>r. 0 < ar_valid r) records))"

subsection \<open>History and approvals\<close>

record history_view =
  hv_at :: string
  hv_workflow :: string
  hv_event :: pyval
  hv_stage :: string
  hv_actor :: pyval

definition instance_of :: "transition \<Rightarrow> string option" where
  "instance_of t = (case dget (tr_extra t) ''instance_id'' of PStr i \<Rightarrow> if i = [] then None else Some i | _ \<Rightarrow> None)"

fun history_from :: "string \<Rightarrow> transition list \<Rightarrow> history_view list" where
  "history_from current [] = []"
| "history_from current (t # ts) = (let now = (case instance_of t of Some i \<Rightarrow> i | None \<Rightarrow> current) in
     \<lparr>hv_at = tr_at t, hv_workflow = now, hv_event = tr_outcome t, hv_stage = tr_to t, hv_actor = tr_by t\<rparr>
     # history_from now ts)"

definition project_history :: "case_record \<Rightarrow> history_view list" where
  "project_history c = history_from (c_id c) (c_transitions c)"

record approval_view =
  av_workflow :: string
  av_step :: string
  av_pending :: bool
  av_decided_by :: "string option"
  av_decision :: "string option"
  av_reason :: "string option"
  av_decided_at :: "string option"

fun first_rows :: "string list \<Rightarrow> task_row list \<Rightarrow> task_row list" where
  "first_rows seen [] = []"
| "first_rows seen (r # rs) =
     (if tr_task r = [] \<or> tr_task r \<in> set seen then first_rows seen rs else r # first_rows (tr_task r # seen) rs)"

definition approval_of :: "(int \<Rightarrow> string) \<Rightarrow> string \<Rightarrow> task_row \<Rightarrow> approval_view option" where
  "approval_of iso_of wid r = (let prefix = wid @ '':''; step = drop (length prefix) (tr_task r) in
     if tr_workflow r \<noteq> Some wid \<or> \<not> starts_with prefix (tr_task r) \<or> step = [] then None
     else let pending = (tr_status r = PENDING) in
       Some \<lparr>av_workflow = wid, av_step = step, av_pending = pending,
         av_decided_by = (if pending then None else tr_acted_by r),
         av_decision = (if pending then None else tr_decision r),
         av_reason = (if pending \<or> tr_comment r = Some [] then None else tr_comment r),
         av_decided_at = (if pending then None else map_option iso_of (tr_acted_at r))\<rparr>)"

definition project_approvals :: "(int \<Rightarrow> string) \<Rightarrow> case_record \<Rightarrow> task_row list \<Rightarrow> approval_view list" where
  "project_approvals iso_of c rows = concat (map (\<lambda>(n, wid, did).
     if wid = [] then [] else List.map_filter (approval_of iso_of wid) (first_rows [] rows)) (c_instances c))"

datatype case_stage = ClosedCase | FailedCase | AttachedCase | RunningCase

record case_view =
  vw_subject :: string
  vw_stage :: case_stage
  vw_episode :: "string option"
  vw_episode_source :: "string option"
  vw_predecessor :: "string option"
  vw_instances :: "instance_view list"
  vw_history :: "history_view list"
  vw_approvals :: "approval_view list"
  vw_artifact :: "release_view option"
  vw_options :: "option_view list option"
  vw_declaration :: "(pyval \<times> pyval) option"

definition nonblank :: "string option \<Rightarrow> string option" where
  "nonblank v = (if v = Some [] then None else v)"

definition case_stage_of :: "case_record \<Rightarrow> case_stage" where
  "case_stage_of c =
     (if nonblank (c_terminal c) \<noteq> None then ClosedCase
      else if c_state c = Some ''failed'' then FailedCase
      else if c_state c = Some ''attached'' then AttachedCase else RunningCase)"

definition project_workflow_case ::
    "(int \<Rightarrow> string) \<Rightarrow> case_record \<Rightarrow> definitions \<Rightarrow> task_row list \<Rightarrow> release_view option \<Rightarrow> case_view" where
  "project_workflow_case iso_of c defs rows artifact =
     \<lparr>vw_subject = c_id c, vw_stage = case_stage_of c,
      vw_episode = (if nonblank (c_episode_id c) = None then c_episode c else c_episode_id c),
      vw_episode_source = (if nonblank (c_episode_id_source c) \<noteq> None then c_episode_id_source c
        else if nonblank (c_episode c) \<noteq> None then Some ''derived'' else None),
      vw_predecessor = c_predecessor c, vw_instances = project_instances c defs rows,
      vw_history = project_history c, vw_approvals = project_approvals iso_of c rows, vw_artifact = artifact,
      vw_options = project_options c rows,
      vw_declaration = (if project_options c rows = None then None else project_options_declaration c rows)\<rparr>"

subsection \<open>The stage a reader is shown\<close>

definition declares_stage :: "wf_step \<Rightarrow> bool" where
  "declares_stage s \<longleftrightarrow> ws_stage s \<noteq> None \<and> ws_stage s \<noteq> Some []"

definition awaits_unseen :: "string \<Rightarrow> string list \<Rightarrow> wf_step \<Rightarrow> bool" where
  "awaits_unseen wid ids s \<longleftrightarrow> is_human_await s \<and> await_key wid (ws_id s) \<notin> set ids"

definition begun_steps :: "string \<Rightarrow> string list \<Rightarrow> wf_step list \<Rightarrow> wf_step list" where
  "begun_steps wid ids ss = (case ss of [] \<Rightarrow> [] | s # rest \<Rightarrow> s # takeWhile (\<lambda>s. \<not> awaits_unseen wid ids s) rest)"

definition last_declared :: "string option \<Rightarrow> wf_step list \<Rightarrow> string option" where
  "last_declared d ss = foldl (\<lambda>st s. if declares_stage s then ws_stage s else st) d ss"

lemma stage_after: "(case ws_stage s of Some st \<Rightarrow> if st = [] then stage else Some st | None \<Rightarrow> stage) =
    (if declares_stage s then ws_stage s else stage)"
  by (auto simp: declares_stage_def split: option.splits)

lemma begun_from_takeWhile:
  "0 < i \<Longrightarrow> begun_from wid ids i stage ss = last_declared stage (takeWhile (\<lambda>s. \<not> awaits_unseen wid ids s) ss)"
  by (induction ss arbitrary: i stage)
    (auto simp: last_declared_def awaits_unseen_def declares_stage_def split: option.splits)

text \<open>The walk is the last stage declared among the steps that have begun.\<close>

lemma begun_stage_alt: "begun_stage d wid ids = last_declared None (begun_steps wid ids (wd_steps d))"
proof (cases "wd_steps d")
  case Nil
  then show ?thesis by (simp add: begun_stage_def begun_steps_def last_declared_def)
next
  case (Cons s ss)
  then show ?thesis
    by (simp add: begun_stage_def begun_steps_def begun_from_takeWhile stage_after)
      (simp add: last_declared_def)
qed

lemma last_declared_last:
  "last_declared d ss = Some st \<Longrightarrow> (d = Some st \<and> (\<forall>s \<in> set ss. \<not> declares_stage s)) \<or>
     (\<exists>i < length ss. ws_stage (ss ! i) = Some st \<and> (\<forall>k. i < k \<and> k < length ss \<longrightarrow> \<not> declares_stage (ss ! k)))"
proof (induction ss arbitrary: d)
  case (Cons s ss)
  let ?d = "if declares_stage s then ws_stage s else d"
  from Cons.prems have "last_declared ?d ss = Some st" by (simp add: last_declared_def)
  from Cons.IH [OF this] show ?case
  proof
    assume q: "?d = Some st \<and> (\<forall>s \<in> set ss. \<not> declares_stage s)"
    show ?thesis
    proof (cases "declares_stage s")
      case True
      with q have "ws_stage ((s # ss) ! 0) = Some st \<and> (\<forall>k. 0 < k \<and> k < length (s # ss) \<longrightarrow> \<not> declares_stage ((s # ss) ! k))"
        by (auto simp: nth_Cons')
      then show ?thesis by (intro disjI2 exI [of _ 0]) simp
    qed (use q in simp)
  next
    assume "\<exists>i < length ss. ws_stage (ss ! i) = Some st \<and> (\<forall>k. i < k \<and> k < length ss \<longrightarrow> \<not> declares_stage (ss ! k))"
    then obtain i where "i < length ss" "ws_stage (ss ! i) = Some st" "\<forall>k. i < k \<and> k < length ss \<longrightarrow> \<not> declares_stage (ss ! k)" by blast
    moreover from this have "\<not> declares_stage ((s # ss) ! k)" if "Suc i < k" "k < length (s # ss)" for k
      using that by (cases k) auto
    ultimately show ?thesis by (intro disjI2 exI [of _ "Suc i"]) simp
  qed
qed (simp add: last_declared_def)

lemma begun_steps_length: "length (begun_steps wid ids ss) \<le> length ss"
  by (auto simp: begun_steps_def length_takeWhile_le split: list.splits)

lemma begun_steps_nth: "i < length (begun_steps wid ids ss) \<Longrightarrow> begun_steps wid ids ss ! i = ss ! i"
  by (cases ss; cases i) (auto simp: begun_steps_def takeWhile_nth)

lemma begun_steps_seen:
  "i < length (begun_steps wid ids ss) \<Longrightarrow> 0 < i \<Longrightarrow> \<not> awaits_unseen wid ids (ss ! i)"
proof (cases ss; cases i)
  fix s rest j
  assume ss: "ss = s # rest" and j: "i = Suc j" and i: "i < length (begun_steps wid ids ss)"
  then have "j < length (takeWhile (\<lambda>s. \<not> awaits_unseen wid ids s) rest)" by (simp add: begun_steps_def)
  from nth_mem [OF this] takeWhile_nth [OF this]
  have "rest ! j \<in> set (takeWhile (\<lambda>s. \<not> awaits_unseen wid ids s) rest)" by metis
  then show ?thesis using ss j by (metis nth_Cons_Suc set_takeWhileD)
qed (auto simp: begun_steps_def)

lemma begun_steps_mono:
  assumes "set ids \<subseteq> set ids'"
  shows "\<exists>later. begun_steps wid ids' ss = begun_steps wid ids ss @ later"
proof -
  have "\<exists>later. takeWhile (\<lambda>s. \<not> awaits_unseen wid ids' s) rest =
      takeWhile (\<lambda>s. \<not> awaits_unseen wid ids s) rest @ later" for rest
    using assms by (induction rest) (auto simp: awaits_unseen_def)
  then show ?thesis by (auto simp: begun_steps_def split: list.splits)
qed

lemma loaded_stage:
  assumes "load_workflow_definition co f = Inr wd" and "i < length (wd_steps wd)" and "ws_stage (wd_steps wd ! i) = Some st"
  shows "st \<in> set (wd_stages wd) \<and> observable_at i (wd_steps wd ! i)"
proof -
  from assms(1) have "stages_are_observable (wd_stages wd) 0 (wd_steps wd) = Inr ()"
    by (auto simp: load_workflow_definition_def read_definition_def bind_r_Inr validate_definition_def
        split: yaml_file.splits pyval.splits)
  from stages_are_observable_Inr [OF this assms(2,3)] show ?thesis by simp
qed

lemma observable_await: "observable_at i s \<Longrightarrow> 0 < i \<Longrightarrow> is_human_await s"
  by (auto simp: observable_at_def is_human_await_def split: step_body.splits)

text \<open>
  A step has visibly begun: it is there, and of the steps after the first and up to it no human await is
  without a task row. The first step counts as begun whatever it is, as the instance is open.
\<close>

definition has_begun :: "string \<Rightarrow> string list \<Rightarrow> wf_step list \<Rightarrow> nat \<Rightarrow> bool" where
  "has_begun wid ids ss i \<longleftrightarrow> i < length ss \<and> (\<forall>k. 0 < k \<and> k \<le> i \<longrightarrow> \<not> awaits_unseen wid ids (ss ! k))"

lemma has_begun_iff: "has_begun wid ids ss i \<longleftrightarrow> i < length (begun_steps wid ids ss)"
proof
  assume i: "i < length (begun_steps wid ids ss)"
  then show "has_begun wid ids ss i"
    using begun_steps_length [of wid ids ss] begun_steps_seen begun_steps_nth unfolding has_begun_def
    by (metis le_less_trans less_le_trans)
next
  assume b: "has_begun wid ids ss i"
  then obtain s rest where ss: "ss = s # rest" by (cases ss) (auto simp: has_begun_def)
  let ?P = "\<lambda>s. \<not> awaits_unseen wid ids s"
  show "i < length (begun_steps wid ids ss)"
  proof (rule ccontr)
    assume "\<not> i < length (begun_steps wid ids ss)"
    then have "length (takeWhile ?P rest) < i" by (simp add: ss begun_steps_def)
    moreover from this have "length (takeWhile ?P rest) < length rest" using b by (simp add: has_begun_def ss)
    then have "awaits_unseen wid ids (ss ! Suc (length (takeWhile ?P rest)))"
      using nth_length_takeWhile [of ?P rest] by (simp add: ss)
    ultimately show False using b unfolding has_begun_def by (meson Suc_leI zero_less_Suc)
  qed
qed

text \<open>
  C39. The stage shown for an instance is always one its definition declares: its last where the
  definition has a single one or the instance is completed, and otherwise the stage of the last step
  that has visibly begun among those that name a stage. That step is the first, or a human await for which a
  task row exists; and no human await up to it is without one, except that the first step is never asked
  for its row.
\<close>

theorem shown_stage_has_begun:
  assumes "load_workflow_definition co f = Inr wd" and "current_stage wd st wid ids = Some shown"
  shows "shown \<in> set (wd_stages wd) \<and>
    (if length (wd_stages wd) = 1 \<or> st = Completed then shown = List.last (wd_stages wd)
     else \<exists>i. has_begun wid ids (wd_steps wd) i \<and> ws_stage (wd_steps wd ! i) = Some shown \<and>
        (i = 0 \<or> await_key wid (ws_id (wd_steps wd ! i)) \<in> set ids) \<and>
        (\<forall>k > i. has_begun wid ids (wd_steps wd) k \<longrightarrow> \<not> declares_stage (wd_steps wd ! k)))"
proof (cases "length (wd_stages wd) = 1 \<or> st = Completed")
  case True
  with assms(2) show ?thesis by (cases "wd_stages wd") (auto simp: current_stage_def split: if_splits)
next
  case False
  let ?b = "begun_steps wid ids (wd_steps wd)"
  from False assms(2) have "last_declared None ?b = Some shown"
    by (auto simp: current_stage_def begun_stage_alt)
  from last_declared_last [OF this] obtain i where i: "i < length ?b" "ws_stage (?b ! i) = Some shown"
    and later: "\<And>k. i < k \<Longrightarrow> k < length ?b \<Longrightarrow> \<not> declares_stage (?b ! k)" by auto
  then have i': "i < length (wd_steps wd)" "ws_stage (wd_steps wd ! i) = Some shown"
    using begun_steps_length [of wid ids "wd_steps wd"] by (auto simp: begun_steps_nth)
  from loaded_stage [OF assms(1) i'] have l: "shown \<in> set (wd_stages wd)" "observable_at i (wd_steps wd ! i)" by auto
  have h: "has_begun wid ids (wd_steps wd) i" using i(1) by (simp add: has_begun_iff)
  then have "0 < i \<Longrightarrow> \<not> awaits_unseen wid ids (wd_steps wd ! i)" unfolding has_begun_def by blast
  then have "i = 0 \<or> await_key wid (ws_id (wd_steps wd ! i)) \<in> set ids"
    using observable_await [OF l(2)] by (auto simp: awaits_unseen_def)
  moreover have "\<not> declares_stage (wd_steps wd ! k)" if "i < k" "has_begun wid ids (wd_steps wd) k" for k
    using later [OF that(1)] that(2) by (simp add: has_begun_iff begun_steps_nth)
  ultimately show ?thesis using False h i'(2) l(1) by auto
qed

subsection \<open>Who may read, as labels\<close>

lemma can_view_iff:
  "can_view_case c spec defs who domains \<longleftrightarrow> submitter_authz_id spec = Some who \<or>
     (case_labels c spec defs \<noteq> [] \<and> py_casefold ` set (case_labels c spec defs) \<subseteq> py_casefold ` set domains)"
  by (auto simp: can_view_case_def Let_def list_all_iff)

lemma case_labels_append:
  assumes "c_instances c' = c_instances c @ later"
  shows "set (case_labels c spec defs) \<subseteq> set (case_labels c' spec defs)"
  using assms by (auto simp: case_labels_def map_filter_def)

text \<open>
  As a case opens further instances its labels only grow: whoever may read the longer case, by
  entitlement or as its submitter, could already read it while it was shorter and had a label.
\<close>

theorem later_instances_never_widen_the_gate:
  assumes "c_instances c' = c_instances c @ later" and "case_labels c spec defs \<noteq> []"
    and "can_view_case c' spec defs who domains"
  shows "can_view_case c spec defs who domains"
  using assms(2,3) case_labels_append [OF assms(1), of spec defs] unfolding can_view_iff by blast

subsection \<open>History\<close>

lemma history_from_take:
  "map hv_workflow (history_from cur ts) =
     map (\<lambda>i. last (cur # List.map_filter instance_of (take (Suc i) ts))) [0..<length ts]"
proof (induction ts arbitrary: cur)
  case (Cons t ts)
  let ?now = "case instance_of t of Some i \<Rightarrow> i | None \<Rightarrow> cur"
  have step: "last (cur # List.map_filter instance_of (t # us)) = last (?now # List.map_filter instance_of us)" for us
    by (simp add: map_filter_simps split: option.splits)
  have "map (\<lambda>i. last (cur # List.map_filter instance_of (take (Suc i) (t # ts)))) [0..<length (t # ts)] =
      last (cur # List.map_filter instance_of [t]) #
      map (\<lambda>i. last (cur # List.map_filter instance_of (t # take (Suc i) ts))) [0..<length ts]"
    by (simp only: list.size take_Suc_Cons add_Suc_right add_0_right plus_1_eq_Suc map_upt_Suc take_0)
  also have "\<dots> = map hv_workflow (history_from cur (t # ts))"
    by (simp only: step Cons.IH [of ?now]) (simp add: Let_def Cons.IH map_filter_simps)
  finally show ?case by (rule sym)
qed simp

lemma history_from_shown:
  "map (\<lambda>h. (hv_at h, hv_event h, hv_stage h, hv_actor h)) (history_from cur ts) =
     map (\<lambda>t. (tr_at t, tr_outcome t, tr_to t, tr_by t)) ts"
  by (induction ts arbitrary: cur) (auto simp: Let_def)

text \<open>
  The history is the record's transitions, one entry each, in order and as they were recorded; and
  the workflow an entry names is the last instance recorded up to it, the case itself before the first.
\<close>

theorem history_follows_the_record:
  "map (\<lambda>h. (hv_at h, hv_event h, hv_stage h, hv_actor h)) (project_history c) =
     map (\<lambda>t. (tr_at t, tr_outcome t, tr_to t, tr_by t)) (c_transitions c) \<and>
   map hv_workflow (project_history c) =
     map (\<lambda>i. last (c_id c # List.map_filter instance_of (take (Suc i) (c_transitions c)))) [0..<length (c_transitions c)]"
  unfolding project_history_def by (simp only: history_from_take history_from_shown simp_thms)

subsection \<open>Approvals\<close>

lemma first_rows_tasks:
  "distinct (map tr_task (first_rows seen rows)) \<and> set (map tr_task (first_rows seen rows)) \<inter> set seen = {} \<and>
   set (first_rows seen rows) \<subseteq> set rows"
proof (induction rows arbitrary: seen)
  case (Cons r rs)
  from Cons.IH [of seen] Cons.IH [of "tr_task r # seen"] show ?case by auto
qed simp

lemma approval_of_Some:
  assumes "approval_of iso_of wid r = Some a"
  shows "tr_task r = wid @ '':'' @ av_step a \<and> tr_workflow r = Some wid \<and> av_workflow a = wid \<and> av_step a \<noteq> [] \<and>
    av_pending a = (tr_status r = PENDING) \<and> av_decision a = (if av_pending a then None else tr_decision r) \<and>
    av_decided_by a = (if av_pending a then None else tr_acted_by r)"
proof -
  have "tr_task r = wid @ '':'' @ drop (length (wid @ '':'')) (tr_task r)" if "starts_with (wid @ '':'') (tr_task r)"
    using that by (metis append.assoc append_eq_conv_conj starts_with_def take_drop append_take_drop_id)
  with assms show ?thesis by (auto simp: approval_of_def Let_def split: if_splits)
qed

definition approvals_over :: "(int \<Rightarrow> string) \<Rightarrow> task_row list \<Rightarrow> string \<Rightarrow> approval_view list" where
  "approvals_over iso_of rows wid = (if wid = [] then [] else List.map_filter (approval_of iso_of wid) (first_rows [] rows))"

lemma project_approvals_alt:
  "project_approvals iso_of c rows = concat (map (\<lambda>inst. approvals_over iso_of rows (fst (snd inst))) (c_instances c))"
  by (auto simp: project_approvals_def approvals_over_def intro!: arg_cong [where f = concat])

lemma in_map_filter: "y \<in> set (List.map_filter f xs) \<longleftrightarrow> (\<exists>x \<in> set xs. f x = Some y)"
  by (induction xs) (auto simp: map_filter_simps split: option.splits)

lemma approvals_over_iff:
  "a \<in> set (approvals_over iso_of rows wid) \<longleftrightarrow>
     wid \<noteq> [] \<and> (\<exists>r \<in> set (first_rows [] rows). approval_of iso_of wid r = Some a)"
  by (auto simp: approvals_over_def in_map_filter)

lemma approvals_over_workflow: "a \<in> set (approvals_over iso_of rows wid) \<Longrightarrow> av_workflow a = wid"
  by (auto simp: approvals_over_iff dest: approval_of_Some)

lemma map_filter_distinct:
  assumes "distinct (map k rs)" and "\<And>r a. r \<in> set rs \<Longrightarrow> f r = Some a \<Longrightarrow> k r = g a"
  shows "distinct (map g (List.map_filter f rs)) \<and> set (map g (List.map_filter f rs)) \<subseteq> k ` set rs"
  using assms by (induction rs) (auto simp: map_filter_simps split: option.splits)

lemma approvals_over_distinct: "distinct (map av_step (approvals_over iso_of rows wid))"
proof -
  have "distinct (map (\<lambda>a. wid @ '':'' @ av_step a) (List.map_filter (approval_of iso_of wid) (first_rows [] rows)))"
    using map_filter_distinct [of tr_task "first_rows [] rows" "approval_of iso_of wid" "\<lambda>a. wid @ '':'' @ av_step a"]
      first_rows_tasks [of "[]" rows] approval_of_Some by blast
  moreover have "map (\<lambda>a. wid @ '':'' @ av_step a) xs = map (\<lambda>s. wid @ '':'' @ s) (map av_step xs)" for xs
    by simp
  ultimately have "distinct (map av_step (List.map_filter (approval_of iso_of wid) (first_rows [] rows)))"
    by (metis distinct_map)
  then show ?thesis by (simp add: approvals_over_def)
qed

lemma approvals_distinct:
  "distinct (map (\<lambda>inst. fst (snd inst)) insts) \<Longrightarrow>
   distinct (map (\<lambda>a. (av_workflow a, av_step a)) (concat (map (\<lambda>inst. approvals_over iso_of rows (fst (snd inst))) insts)))"
proof (induction insts)
  case (Cons i insts)
  have "distinct (map (\<lambda>a. (av_workflow a, av_step a)) (approvals_over iso_of rows wid))" for wid
    using approvals_over_distinct [of iso_of rows wid] by (auto simp: distinct_map inj_on_def)
  moreover have "av_workflow a \<noteq> av_workflow b" if "a \<in> set (approvals_over iso_of rows (fst (snd i)))"
    and "j \<in> set insts" and "b \<in> set (approvals_over iso_of rows (fst (snd j)))" for a b j
  proof -
    from Cons.prems have "fst (snd i) \<notin> (\<lambda>inst. fst (snd inst)) ` set insts" by simp
    moreover from that(2) have "fst (snd j) \<in> (\<lambda>inst. fst (snd inst)) ` set insts" by (rule imageI)
    ultimately show ?thesis using approvals_over_workflow [OF that(1)] approvals_over_workflow [OF that(3)] by metis
  qed
  ultimately show ?case using Cons by auto
qed simp

lemma first_rows_find:
  "r \<in> set (first_rows seen rows) \<longleftrightarrow>
     tr_task r \<noteq> [] \<and> tr_task r \<notin> set seen \<and> find (\<lambda>r'. tr_task r' = tr_task r) rows = Some r"
  by (induction rows arbitrary: seen) auto

text \<open>What a reader is shown of a task: while it is pending, neither a decision nor a name.\<close>

definition shown_as :: "(int \<Rightarrow> string) \<Rightarrow> string \<Rightarrow> string \<Rightarrow> task_row \<Rightarrow> approval_view" where
  "shown_as iso_of wid sid r =
     (if tr_status r = PENDING
      then \<lparr>av_workflow = wid, av_step = sid, av_pending = True, av_decided_by = None, av_decision = None,
        av_reason = None, av_decided_at = None\<rparr>
      else \<lparr>av_workflow = wid, av_step = sid, av_pending = False, av_decided_by = tr_acted_by r, av_decision = tr_decision r,
        av_reason = nonblank (tr_comment r), av_decided_at = map_option iso_of (tr_acted_at r)\<rparr>)"

lemma approval_of_iff:
  "approval_of iso_of wid r = Some a \<longleftrightarrow> tr_workflow r = Some wid \<and>
     (\<exists>sid. sid \<noteq> [] \<and> tr_task r = await_key wid sid \<and> a = shown_as iso_of wid sid r)"
proof (cases "tr_workflow r = Some wid \<and> (\<exists>sid. sid \<noteq> [] \<and> tr_task r = await_key wid sid)")
  case True
  then obtain sid where "tr_workflow r = Some wid" "sid \<noteq> []" "tr_task r = await_key wid sid" by blast
  then show ?thesis
    by (auto simp: approval_of_def await_key_def starts_with_def shown_as_def nonblank_def Let_def)
next
  case False
  then have "approval_of iso_of wid r \<noteq> Some a" using approval_of_Some [of iso_of wid r a] by (auto simp: await_key_def)
  with False show ?thesis by blast
qed

text \<open>
  C40. The approvals a case shows are its decided and pending tasks, one for each, where its instances have
  distinct ids. No task is shown twice though the queue keeps a row per recipient. And what is shown is
  exactly this: for each task of an instance of the case the first row the queue gives of it, where that row names
  the instance, with the decision, the name, the reason and the moment once it is decided and with none of them
  while it is pending.
\<close>

theorem one_approval_for_each_task:
  assumes "distinct (map (\<lambda>inst. fst (snd inst)) (c_instances c))"
  shows "distinct (map (\<lambda>a. (av_workflow a, av_step a)) (project_approvals iso_of c rows)) \<and>
    (\<forall>a. a \<in> set (project_approvals iso_of c rows) \<longleftrightarrow>
       (\<exists>n wid did sid r. (n, wid, did) \<in> set (c_instances c) \<and> wid \<noteq> [] \<and> sid \<noteq> [] \<and>
          find (\<lambda>r'. tr_task r' = await_key wid sid) rows = Some r \<and> tr_workflow r = Some wid \<and>
          a = shown_as iso_of wid sid r))"
proof (intro conjI allI)
  show "distinct (map (\<lambda>a. (av_workflow a, av_step a)) (project_approvals iso_of c rows))"
    unfolding project_approvals_alt by (rule approvals_distinct [OF assms])
  have task: "tr_task r = t" if "find (\<lambda>r'. tr_task r' = t) rows = Some r" for t r
    using that by (auto simp: find_Some_iff)
  have first: "r \<in> set (first_rows [] rows) \<and> tr_task r = await_key wid sid \<longleftrightarrow>
      find (\<lambda>r'. tr_task r' = await_key wid sid) rows = Some r" for wid sid r
    using task [of "await_key wid sid" r] by (cases "tr_task r = await_key wid sid") (auto simp: first_rows_find await_key_def)
  have row: "(\<exists>r \<in> set (first_rows [] rows). approval_of iso_of wid r = Some a) \<longleftrightarrow>
      (\<exists>sid r. sid \<noteq> [] \<and> find (\<lambda>r'. tr_task r' = await_key wid sid) rows = Some r \<and> tr_workflow r = Some wid \<and>
        a = shown_as iso_of wid sid r)" for wid a
    unfolding approval_of_iff first [symmetric] by blast
  show "a \<in> set (project_approvals iso_of c rows) \<longleftrightarrow>
       (\<exists>n wid did sid r. (n, wid, did) \<in> set (c_instances c) \<and> wid \<noteq> [] \<and> sid \<noteq> [] \<and>
          find (\<lambda>r'. tr_task r' = await_key wid sid) rows = Some r \<and> tr_workflow r = Some wid \<and>
          a = shown_as iso_of wid sid r)" for a
  proof -
    have "a \<in> set (project_approvals iso_of c rows) \<longleftrightarrow>
        (\<exists>n wid did. (n, wid, did) \<in> set (c_instances c) \<and> a \<in> set (approvals_over iso_of rows wid))"
      by (force simp: project_approvals_alt)
    then show ?thesis unfolding approvals_over_iff row by blast
  qed
qed

subsection \<open>Options\<close>

lemma first_offering_Some:
  "first_offering rows is = Some r \<Longrightarrow> \<exists>before n wid did after. is = before @ (n, wid, did) # after \<and> wid \<noteq> [] \<and>
     r \<in> set rows \<and> offers_options wid r \<and>
     (\<forall>j \<in> set before. fst (snd j) = [] \<or> (\<forall>r' \<in> set rows. \<not> offers_options (fst (snd j)) r'))"
proof (induction rows "is" rule: first_offering.induct)
  case (2 rows n wid did "is")
  show ?case
  proof (cases "wid = [] \<or> find (offers_options wid) rows = None")
    case True
    with "2.prems" have "first_offering rows is = Some r" by (auto split: if_splits)
    moreover have "\<exists>before m w d after. is = before @ (m, w, d) # after \<and> w \<noteq> [] \<and>
        r \<in> set rows \<and> offers_options w r \<and>
        (\<forall>j \<in> set before. fst (snd j) = [] \<or> (\<forall>r' \<in> set rows. \<not> offers_options (fst (snd j)) r'))"
      using "2.IH" True calculation by (cases "wid = []") auto
    then obtain before m w d later where "is = before @ (m, w, d) # later" "w \<noteq> []" "r \<in> set rows" "offers_options w r"
      "\<forall>j \<in> set before. fst (snd j) = [] \<or> (\<forall>r' \<in> set rows. \<not> offers_options (fst (snd j)) r')" by blast
    with True show ?thesis
      by (intro exI [of _ "(n, wid, did) # before"] exI [of _ m] exI [of _ w] exI [of _ d] exI [of _ later])
        (auto simp: find_None_iff)
  next
    case False
    with "2.prems" have "find (offers_options wid) rows = Some r" by auto
    then have "r \<in> set rows" "offers_options wid r" by (auto simp: find_Some_iff)
    with False show ?thesis by (intro exI [of _ "[]"]) auto
  qed
qed simp

text \<open>Options come from the latest instance that offers any, and from a row of that instance.\<close>

lemma options_row_is_the_latest:
  assumes "options_row c rows = Some r"
  shows "\<exists>earlier n wid did later. c_instances c = earlier @ (n, wid, did) # later \<and> r \<in> set rows \<and>
     tr_workflow r = Some wid \<and> row_options r \<noteq> None \<and>
     (\<forall>j \<in> set later. fst (snd j) = [] \<or> (\<forall>r' \<in> set rows. \<not> offers_options (fst (snd j)) r'))"
proof -
  from first_offering_Some [OF assms [unfolded options_row_def]] obtain before n wid did after
    where i: "rev (c_instances c) = before @ (n, wid, did) # after" and r: "r \<in> set rows" "offers_options wid r"
      and b: "\<forall>j \<in> set before. fst (snd j) = [] \<or> (\<forall>r' \<in> set rows. \<not> offers_options (fst (snd j)) r')" by blast
  from i have "c_instances c = rev after @ (n, wid, did) # rev before" by (simp add: rev_eq_append_conv)
  with r b show ?thesis unfolding offers_options_def
    by (intro exI [of _ "rev after"] exI [of _ n] exI [of _ wid] exI [of _ did] exI [of _ "rev before"]) (simp add: offers_options_def)
qed

subsection \<open>Instances\<close>

text \<open>An instance is shown as running or failed only where it is the last one opened.\<close>

lemma only_the_last_runs:
  assumes "instance_status_at c i (length (c_instances c)) \<noteq> Completed" and "i < length (c_instances c)"
  shows "i = length (c_instances c) - 1"
  using assms by (auto simp: instance_status_at_def split: if_splits)

lemma statuses_of_instances:
  assumes "list_all (\<lambda>inst. defs (snd (snd inst)) \<noteq> None) (c_instances c)"
  shows "map iv_workflow (project_instances c defs rows) = map (\<lambda>inst. fst (snd inst)) (c_instances c) \<and>
    map iv_status (project_instances c defs rows) =
      map (\<lambda>i. instance_status_at c i (length (c_instances c))) [0..<length (c_instances c)]"
proof -
  let ?zs = "zip [0..<length (c_instances c)] (c_instances c)"
  have "map iv_workflow (List.map_filter (instance_view_at c defs rows) ps) = map (\<lambda>p. fst (snd (snd p))) ps \<and>
      map iv_status (List.map_filter (instance_view_at c defs rows) ps) =
        map (\<lambda>p. instance_status_at c (fst p) (length (c_instances c))) ps"
    if "list_all (\<lambda>p. defs (snd (snd (snd p))) \<noteq> None) ps" for ps :: "(nat \<times> nat \<times> string \<times> string) list"
    using that by (induction ps) (auto simp: map_filter_simps instance_view_at_def Let_def)
  moreover have "list_all (\<lambda>p. defs (snd (snd (snd p))) \<noteq> None) ?zs"
    using assms by (auto simp: list_all_iff dest!: set_zip_rightD)
  ultimately have "map iv_workflow (project_instances c defs rows) = map (\<lambda>p. fst (snd (snd p))) ?zs \<and>
      map iv_status (project_instances c defs rows) = map (\<lambda>p. instance_status_at c (fst p) (length (c_instances c))) ?zs"
    unfolding project_instances_def by blast
  moreover have "map (\<lambda>p. fst (snd (snd p))) ?zs = map (\<lambda>inst. fst (snd inst)) (c_instances c)"
    "map (\<lambda>p. instance_status_at c (fst p) (length (c_instances c))) ?zs =
      map (\<lambda>i. instance_status_at c i (length (c_instances c))) [0..<length (c_instances c)]"
    by (rule nth_equalityI; simp)+
  ultimately show ?thesis by (simp only: simp_thms)
qed

subsection \<open>Witnesses\<close>

definition await_step :: "string \<Rightarrow> string \<Rightarrow> pyval" where
  "await_step i st = PDict [(''kind'', PStr ''human_await''), (''id'', PStr i), (''audience'', PStr ''desk''), (''stage'', PStr st)]"

definition staged_document :: yaml_file where
  "staged_document = Document (PDict [(''id'', PStr ''w''), (''name'', PStr ''n''),
     (''domain_stages'', PList [PStr ''asked'', PStr ''weighed'']),
     (''steps'', PList [await_step ''ask'' ''asked'', await_step ''weigh'' ''weighed''])])"

lemma shown_stage_has_begun_witness:
  "\<exists>wd. load_workflow_definition plain_coercion staged_document = Inr wd \<and>
     current_stage wd RunningNow ''c~1'' [''c~1:weigh''] = Some ''weighed'' \<and> ''weighed'' \<in> set (wd_stages wd)"
proof -
  have "(case load_workflow_definition plain_coercion staged_document of
      Inr wd \<Rightarrow> current_stage wd RunningNow ''c~1'' [''c~1:weigh''] = Some ''weighed'' | Inl e \<Rightarrow> False)"
    by code_simp
  then obtain wd where wd: "load_workflow_definition plain_coercion staged_document = Inr wd"
    "current_stage wd RunningNow ''c~1'' [''c~1:weigh''] = Some ''weighed''" by (auto split: sum.splits)
  from shown_stage_has_begun [OF wd] wd show ?thesis by blast
qed

definition desk_definition :: "string \<Rightarrow> workflow_definition" where
  "desk_definition i = \<lparr>wd_id = i, wd_name = i, wd_classification = Some ''FIELD'', wd_participants = [], wd_stages = [],
     wd_steps = [], wd_observable = None\<rparr>"

definition desk_case :: "(nat \<times> string \<times> string) list \<Rightarrow> case_record" where
  "desk_case insts = \<lparr>c_id = ''c'', c_trigger = ''alarm'', c_state = Some ''fix'', c_terminal = None, c_episode = None,
     c_episode_id = None, c_episode_id_source = None, c_instances = insts, c_transitions = [], c_seeded_by = None,
     c_predecessor = None, c_revisions = []\<rparr>"

lemma later_instances_never_widen_the_gate_witness:
  "can_view_case (desk_case [(1, ''c~1'', ''ask'')]) PNone (\<lambda>i. Some (desk_definition i)) ''u'' [''field'']"
proof (rule later_instances_never_widen_the_gate)
  show "c_instances (desk_case [(1, ''c~1'', ''ask''), (2, ''c~2'', ''act'')]) =
    c_instances (desk_case [(1, ''c~1'', ''ask'')]) @ [(2, ''c~2'', ''act'')]" by (simp add: desk_case_def)
  show "case_labels (desk_case [(1, ''c~1'', ''ask'')]) PNone (\<lambda>i. Some (desk_definition i)) \<noteq> []" by code_simp
  show "can_view_case (desk_case [(1, ''c~1'', ''ask''), (2, ''c~2'', ''act'')]) PNone (\<lambda>i. Some (desk_definition i)) ''u'' [''field'']"
    by code_simp
qed

definition desk_row :: "string \<Rightarrow> string \<Rightarrow> string \<Rightarrow> string option \<Rightarrow> task_row" where
  "desk_row wid sid recipient decision = \<lparr>tr_id = recipient, tr_kind = ''approval'', tr_task = await_key wid sid, tr_workflow = Some wid,
     tr_audience = ''desk'', tr_recipient = recipient, tr_status = (if decision = None then PENDING else ''resolved''),
     tr_title = ''Weigh'', tr_summary = [], tr_requested_by = ''case'', tr_subject = None, tr_payload = [],
     tr_acted_by = (if decision = None then None else Some ''u''), tr_acted_at = None, tr_decision = decision, tr_comment = None,
     tr_created = 1, tr_updated = 1, tr_service = None, tr_promise = None, tr_case = Some ''c'', tr_on_behalf = []\<rparr>"

definition desk_approval :: approval_view where
  "desk_approval = \<lparr>av_workflow = ''c~1'', av_step = ''weigh'', av_pending = False, av_decided_by = Some ''u'',
     av_decision = Some ''approved'', av_reason = None, av_decided_at = None\<rparr>"

lemma one_approval_for_each_task_witness:
  "distinct (map (\<lambda>a. (av_workflow a, av_step a)) (project_approvals (\<lambda>ms. []) (desk_case [(1, ''c~1'', ''ask'')])
      [desk_row ''c~1'' ''weigh'' ''u'' (Some ''approved''), desk_row ''c~1'' ''weigh'' ''v'' (Some ''approved'')])) \<and>
   project_approvals (\<lambda>ms. []) (desk_case [(1, ''c~1'', ''ask'')])
      [desk_row ''c~1'' ''weigh'' ''u'' (Some ''approved''), desk_row ''c~1'' ''weigh'' ''v'' (Some ''approved'')] = [desk_approval]"
proof -
  let ?c = "desk_case [(1, ''c~1'', ''ask'')]"
  let ?rows = "[desk_row ''c~1'' ''weigh'' ''u'' (Some ''approved''), desk_row ''c~1'' ''weigh'' ''v'' (Some ''approved'')]"
  have a: "project_approvals (\<lambda>ms. []) ?c ?rows = [desk_approval]" by code_simp
  have d: "distinct (map (\<lambda>inst. fst (snd inst)) (c_instances ?c))" by (simp add: desk_case_def)
  from one_approval_for_each_task [OF d, of "\<lambda>ms. []" ?rows] a show ?thesis by blast
qed

end
