(* ===== verification/Spec2Isabelle.thy ===== *)
theory Spec2Isabelle
  imports Trust_Table Case_Handlers Review_Coverage Steward_Correction Decision_Record Bulk_Review
    Promotion_Act Human_Tasks Workflow_Run Declared_Query Direct_Dispatch Instance_Lookup
    Projector Case_View
begin

text \<open>
  The governed core of the agent mesh: what happens to a case from the event that opens it to the
  record that closes it, what a person may decide on the way, and what is written about it.

  \<^bold>\<open>The parts and how they interact.\<close> An event arrives at the case runner, which triages it (one open
  case for an episode), asks the decision tables which definition to run, runs it as a numbered
  child, asks the tables again what its outcome leads to, and ends in a terminal the table names.
  A definition is a declared process, which the executor runs step by step: operations, calls behind
  a capability gate, templates, timers, and awaits. Its human steps become rows of the task queue, addressed to
  the people the policy directory names, whose answers are checked against the declared species of
  the task. A notice that arrives as a document is reviewed in bulk: its parts pass a funnel, the
  steward may correct the extraction, the approver claims what was looked at, and the document is
  promoted or rejected by an act that files a decision record before it changes anything. How much
  of this may run without a person is the trust table's to say, by the fingerprint of the document.
  A question a person asks is a verb with slots: what was said is accepted or refused slot by slot,
  a missing mandatory slot is asked for with a menu, and an answered ask is dispatched to the engine
  of the verb, with the source of every value recorded for the next hop. An identifier it names is looked
  up with every provider that registered, and their claims decide which class and which individual is
  meant, or that the answer is to ask, to abstain or to keep the class the classifier chose. What is answered
  is an artifact of a graph; the projector follows the graph, artifact by artifact, into the table
  the readers subscribe to. A case is shown to whom its labels or its submission admit.

  \<^bold>\<open>Theories and the code they model\<close> (paths under \<^verbatim>\<open>src/\<close>):

  \<^item> \<open>Mesh_Prelude\<close>: Python values (\<open>pyval\<close>, dictionaries as association lists in insertion order),
    truthiness, \<open>==\<close> and \<open>in\<close>, the string methods the code uses on code points below 256; results
    (\<open>Inl\<close> a raise or a refusal) with \<open>bind_r\<close>; stateful procedures \<open>proc\<close> with their invariant rules
    (\<open>triple\<close>, \<open>keeps\<close>, \<open>raises_in\<close>).
  \<^item> \<open>Format_Fingerprint\<close>, \<open>Trust_Table\<close>: \<^verbatim>\<open>agent_fleet/utils/format_fingerprint.py\<close>,
    \<^verbatim>\<open>agent_fleet/utils/trust_table.py\<close>.
  \<^item> \<open>Decision_Table\<close>, \<open>Case_Routing\<close>: \<^verbatim>\<open>agent_fleet/restate_analyst/decision_table.py\<close>,
    \<^verbatim>\<open>case_routing.py\<close>.
  \<^item> \<open>Case_Episode\<close>, \<open>Case_Runner\<close>, \<open>Case_Handlers\<close>: \<^verbatim>\<open>agent_fleet/restate_analyst/workflow_runner.py\<close>;
    the virtual object, the workflow and the handlers beside it.
  \<^item> \<open>Workflow_Definition\<close>: \<^verbatim>\<open>agent_fleet/restate_analyst/workflow_definition.py\<close>; documents to
    definitions, the registry with its overlays, placeholder binding, declared stand-ins for verbs.
  \<^item> \<open>Workflow_Executor\<close>: \<open>_run_definition\<close> of \<^verbatim>\<open>agent_fleet/restate_analyst/main.py\<close>, with the
    handler \<open>approve\<close> and the gate of every answer; \<open>Run_Context\<close>: the paths and templates of the same
    file; \<open>Step_Calls\<close>: \<^verbatim>\<open>spo_step_executor.py\<close> and \<^verbatim>\<open>agent_fleet/utils/service_identity.py\<close>, the calls
    a step makes; \<open>Durable\<close>: a journalled call as its attempts; \<open>Workflow_Run\<close>: what a run guarantees.
  \<^item> \<open>Declared_Query\<close>: \<^verbatim>\<open>agent_fleet/utils/declared_query.py\<close>, the verbs whose question is data, and the
    scope the engine puts around them (\<open>execute_sparql\<close> of \<^verbatim>\<open>agent_fleet/ontology_service/main.py\<close>,
    \<^verbatim>\<open>read_outcome.py\<close>).
  \<^item> \<open>Slot_Acceptance\<close>, \<open>Slot_Disposition\<close>: \<^verbatim>\<open>src/iagent_pure/slot_acceptance.py\<close>,
    \<^verbatim>\<open>slot_disposition.py\<close>; the door of spoken values, the decision, the card, the answer and the check
    of a pick. \<open>Direct_Dispatch\<close>: \<^verbatim>\<open>src/iagent/direct_dispatch.py\<close> with \<^verbatim>\<open>verb_lookup.py\<close>,
    \<^verbatim>\<open>iagent_pure/verb_eligibility.py\<close>, \<^verbatim>\<open>routing_record.py\<close> and the chain readers of \<^verbatim>\<open>gateway.py\<close>.
  \<^item> \<open>Instance_Names\<close>, \<open>Instance_Resolution\<close>:
    \<^verbatim>\<open>agent_fleet/ontology_service/instance_resolution.py\<close>, segments and namespaces, then the decision on
    candidates; \<open>Instance_Lookup\<close>: the registry cache, the fan-out and the answer of \<open>resolve\<close> in
    \<^verbatim>\<open>main.py\<close> of the same service, with \<^verbatim>\<open>recall_guard.py\<close> and \<^verbatim>\<open>input_declared.py\<close>.
  \<^item> \<open>Artifact_Store\<close>: \<^verbatim>\<open>src/iagent/answer_artifact_writer.py\<close>, the graph, the write, its retries, the
    archive, with the two stamps of \<^verbatim>\<open>gateway.py\<close> on the artifacts of a case; \<open>Projector\<close>:
    \<^verbatim>\<open>src/iagent/projector/apply_loop.py\<close>, and the steps of both in any order (\<open>mesh_step\<close>);
    \<open>Case_View\<close>: \<^verbatim>\<open>src/iagent/case_projection.py\<close> over the records of \<open>Case_Runner\<close>, the definitions and
    the rows of \<open>Human_Tasks\<close>.
  \<^item> \<open>Grouped_Review\<close>, \<open>Dispatch\<close>: \<^verbatim>\<open>grouped_review_workflow.py\<close> (the review a run serves and the
    decision it accepts), \<^verbatim>\<open>dispatch_plan.py\<close>, \<^verbatim>\<open>dispatch_driver.py\<close> (what a decided part leads to).
  \<^item> \<open>Authorization\<close>: \<^verbatim>\<open>agent_fleet/utils/pdp_answer.py\<close>, \<^verbatim>\<open>program_membership.py\<close>, the gates of
    \<^verbatim>\<open>src/iagent/human_tasks.py\<close>, \<^verbatim>\<open>src/iagent/authz/topaz_client.py\<close>, \<^verbatim>\<open>call_capability.py\<close>.
  \<^item> \<open>Human_Tasks\<close>: \<^verbatim>\<open>src/iagent/human_tasks.py\<close>; the table, registration, updates, reads, species.
  \<^item> \<open>Bulk_Review\<close>, \<open>Steward_Correction\<close>: \<^verbatim>\<open>agent_fleet/restate_analyst/policy_evaluator.py\<close>,
    \<^verbatim>\<open>workflow_bulk_resolve.py\<close>, \<^verbatim>\<open>steward_correction.py\<close>.
  \<^item> \<open>Review_Coverage\<close>, \<open>Decision_Record\<close>: \<^verbatim>\<open>src/iagent/review_coverage.py\<close>, \<^verbatim>\<open>decision_record.py\<close>.
  \<^item> \<open>Promotion\<close>, \<open>Promotion_Stores\<close>, \<open>Promotion_Act\<close>: \<^verbatim>\<open>src/iagent/promotion.py\<close>,
    \<^verbatim>\<open>promotion_stores.py\<close>; the payload and the record, the ledger and the quarantine, the act.

  \<^bold>\<open>State and arguments.\<close> State the code keeps is a record passed explicitly: the episode, the
  run of a case (its record, its episode, the log of what it wrote), the ledger and the log of
  effects of the promotion desk, the rows of the queue, the entries of the cache. What the code
  calls and this repository does not hold is an argument: the durable runtime (a journalled call is
  the list of its attempts), HTTP answers, the directory, the clock, identifiers, SHA-256, the
  JSON and YAML libraries, the renderer of a value as text.

  \<^bold>\<open>What the lemmas show.\<close>
  \<^item> Cases: a record is one path of transitions; an ended case frees its episode; at most one case
    holds an episode; records precede the delegate's stamp; a run ends.
  \<^item> Routing: a table decides by declared facts only, one table chains after a definition, an event
    cannot carry an outcome, a card tells where its verb leads.
  \<^item> Definitions: a loaded definition satisfies what the runner relies on; the registry witness names
    the file that runs; binding is total or refused.
  \<^item> Runs: every approval of the chain was given by an actor the directory lets act and the definition
    does not exclude; the records are those of a prefix of the steps; with deadlines that pass a run
    ends; a call leaves only behind its gate; a template renders no blank.
  \<^item> Declared queries: what loads has the shape the scope needs; a value stays in its literal and cannot
    lift the scope, which closes over the whole body; rows keep their declared shape.
  \<^item> Slots: only declared values in their declared shape reach a verb; every spoken slot is settled once;
    only a missing mandatory slot interrupts and every answer that binds brings the route nearer; an
    offered option is accepted back and nothing else is; an engine is called only for a verb confirmed
    in the turn; a carried value keeps its source.
  \<^item> Instances: the gate is equality of names; a bound individual is named, above the floor and without a
    rival; the order of arrival decides nothing when scores tell classes apart; a class is answered only
    for a claim in the domain; not found is a clean answer of every provider; the registry seen is recent.
  \<^item> Artifacts: watermarks are one sequence; a write says what happened to the node; the archive alternates
    and forgets nothing; the cursor of the projector never passes an artifact that is not accounted for,
    and a store that is quiet is projected.
  \<^item> Views: the stage shown is declared and has visibly begun; the history follows the record; one approval
    for each task; later instances never widen who may read.
  \<^item> Decisions carried out: only an accepted submission wakes the review; a part's task is filed before
    its state is written, once; an effect that fails is reported.
  \<^item> Authority: a gate opens only on a literal yes and closes only on the directory's no; the door
    only narrows; the cache does not outlive the token.
  \<^item> Tasks: a task reaches exactly the entitled; rows stay sound; a settled row is final; the served
    contract is the gate.
  \<^item> Review and promotion: the funnel loses nothing, no unverified part rides the bulk, a correction
    never re-keys, a passing coverage partitions the items, no effect without its record, refusals
    leave nothing, a retry completes, the quarantine loses nothing.
  \<^item> Contracts several components share are locales, each interpreted on the code's own model:
    \<open>exclusive_episode\<close> (the holder of an episode), \<open>honest_split\<close> (a split of the parts of a notice),
    \<open>decision_ledger\<close> (an append-only ledger with one row for a document).

  \<^bold>\<open>Bounds and fuel.\<close> \<open>MAX_INSTANCES\<close> (64) is the runner's own bound on the definitions of a case and
  the fuel of \<open>hops\<close>; \<open>case_ends_within_the_bound\<close> shows a run ends within it. A summary is tried
  five times, as in the code. A journalled call that never gets an answer suspends the run: that is
  a value (\<open>Suspended\<close>, \<open>Waits\<close> in the executor); the attempts of a call are a list, and a list that
  holds none which ends the call is a call still repeated. A write is tried as often as the writer's own
  bound says, which is an argument, as is the size of a batch. A listing in pages ends with its last page; running out of pages is an
  outage. All other recursion is structural or over the length of a string.

  \<^bold>\<open>What modelling showed.\<close> Lemmas beside the components exhibit behaviour a reader of the code may
  not expect: \<open>separator_in_vendor_escapes_the_guard\<close>, \<open>card_misses_catch_all_rows\<close>,
  \<open>race_with_close_loses_the_event\<close>, \<open>gate_misses_any_all_subsumption\<close>, \<open>newline_id_is_accepted\<close>,
  \<open>unreadable_matrix_is_a_defect\<close>, \<open>audience_is_read_as_one_page\<close>,
  \<open>seeded_species_served_as_undeclared\<close>, \<open>lookup_is_by_file_name\<close>, \<open>nested_braces_leave_a_placeholder\<close>, \<open>recorded_actor_is_the_decisions_own\<close>,
  \<open>malformed_override_raises\<close>, \<open>empty_subject_is_not_marked_unresolved\<close>,
  \<open>spo_dispatch_retries_permanent_refusals\<close>, \<open>ineligible_verb_without_an_id_beside_is_retried\<close>,
  \<open>payload_can_rename_the_capability\<close>, \<open>grouped_review_has_no_outcome\<close>, \<open>missing_row_parks_the_run\<close>,
  \<open>approve_bypasses_the_signal_vocabulary\<close>, \<open>graph_variable_lifts_the_scope\<close>,
  \<open>second_group_escapes_the_scope\<close>, \<open>parameter_after_the_body_is_not_bound\<close>,
  \<open>superscript_is_not_refused\<close>, \<open>integer_text_skips_the_vocabulary\<close>, \<open>same_class_tie_gets_no_menu\<close>,
  \<open>option_behind_other_classes_is_refused_back\<close>, \<open>identifier_option_is_refused_back\<close>,
  \<open>number_of_the_vocabulary_is_refused_back\<close>, \<open>unchecked_pick_is_dispatched\<close>,
  \<open>axis_narrows_to_what_the_floor_empties\<close>, \<open>exact_cross_class_tie_takes_the_first\<close>, \<open>third_class_hides_a_tie\<close>,
  \<open>classless_candidate_overrides_the_class\<close>, \<open>list_body_stops_the_resolution\<close>, \<open>known_elsewhere_is_not_found\<close>,
  \<open>exact_match_is_answered_below_one\<close>, \<open>cache_outlives_a_clock_set_back\<close>, \<open>first_segment_can_be_structural\<close>,
  \<open>passes_iff\<close>, \<open>flapping_postgres_loses_an_answer\<close>, \<open>reset_in_flight_loses_an_answer\<close>,
  \<open>later_answer_overwrites_the_captured_source\<close>, \<open>stopped_write_may_be_stored\<close>.

  \<^bold>\<open>Not modelled.\<close> The HTTP routes of the gateway, which are plumbing around the parts above; the inline
  task loop and the interviewer beside the executor; the dialogues and agents whose decisions a language model
  makes; the query bodies of the graph, vector and SQL stores; the finance, cost, safety and planning
  engines, which are products of their own on the mesh; generated clients; deployment scripts. Of
  the modelled files: \<open>write_grant_and_sync\<close>, which runs a subprocess, and the migrations. Characters above 255 are outside \<open>char\<close>.
\<close>

end
